(* ===== verification/Prelude.thy ===== *)
theory Prelude
  imports Complex_Main "HOL-Library.Word" "HOL-Library.Monad_Syntax" "HOL-Library.Sublist"
begin

text \<open>
  Shared vocabulary of the development: the Rust types the models use, the panic monad, checked
  indexing, the \<open>for\<close> loop over a slice with its invariant rule, and the list and counting
  lemmas that the components share.

  A computation that may panic (an index out of range, an \<open>expect\<close> on \<open>None\<close>, a failed
  \<open>assert!\<close> or \<open>debug_assert!\<close>, an unsigned subtraction that underflows) has an
  \<open>option\<close> result and \<open>None\<close> is the panic.  \<open>usize\<close> and \<open>u64\<close> counters are
  natural numbers; a cast \<open>as u32\<close> is written out as \<open>u32_of\<close>.
\<close>

section \<open>Rust types\<close>

type_synonym u8 = "8 word"
type_synonym bytes = "u8 list"
type_synonym token = nat
type_synonym block_id = nat
type_synonym seq_id = nat

text \<open>The cast \<open>as u32\<close> of a \<open>usize\<close>: it truncates.\<close>

definition u32_of :: "nat \<Rightarrow> nat" where
  "u32_of n = n mod 2 ^ 32"

lemma u32_of_id [simp]: "n < 2 ^ 32 \<Longrightarrow> u32_of n = n"
  by (simp add: u32_of_def)

text \<open>\<open>usize::div_ceil\<close>.\<close>

definition div_ceil :: "nat \<Rightarrow> nat \<Rightarrow> nat" where
  "div_ceil a b = a div b + (if a mod b > 0 then 1 else 0)"

lemma div_ceil_le_iff:
  assumes "0 < b"
  shows "div_ceil a b \<le> n \<longleftrightarrow> a \<le> n * b"
proof (cases "a mod b = 0")
  case True
  then have "a = a div b * b" by auto
  with assms True show ?thesis
    by (metis div_ceil_def add_0_right less_irrefl mult_le_cancel2 assms)
next
  case False
  have eq: "a = a div b * b + a mod b" by simp
  have lt: "a mod b < b" using assms by simp
  have "a \<le> n * b \<longleftrightarrow> a div b < n"
  proof
    assume "a \<le> n * b"
    then have "a div b * b < n * b" using eq False by linarith
    then show "a div b < n" by simp
  next
    assume "a div b < n"
    then have "Suc (a div b) * b \<le> n * b" by (simp only: mult_le_mono1 Suc_le_eq)
    then have "a div b * b + b \<le> n * b" by simp
    then show "a \<le> n * b" using eq lt by linarith
  qed
  with False show ?thesis by (simp add: div_ceil_def Suc_le_eq)
qed

lemma div_ceil_covers: "0 < b \<Longrightarrow> a \<le> div_ceil a b * b"
  using div_ceil_le_iff [of b a "div_ceil a b"] by simp

lemma div_ceil_Suc: "0 < b \<Longrightarrow> div_ceil (Suc a) b = Suc (a div b)"
proof (rule antisym)
  assume b: "0 < b"
  have "Suc a \<le> Suc (a div b) * b"
    using b by (metis Suc_leI dividend_less_div_times mult_Suc add.commute)
  then show "div_ceil (Suc a) b \<le> Suc (a div b)" using b by (simp add: div_ceil_le_iff)
  show "Suc (a div b) \<le> div_ceil (Suc a) b"
  proof (rule ccontr)
    assume "\<not> Suc (a div b) \<le> div_ceil (Suc a) b"
    then have "div_ceil (Suc a) b \<le> a div b" by simp
    then have "Suc a \<le> a div b * b" using b by (simp add: div_ceil_le_iff)
    then show False by (metis Suc_n_not_le_n div_times_less_eq_dividend le_trans)
  qed
qed

section \<open>The panic monad\<close>

definition ensure :: "bool \<Rightarrow> unit option" where
  "ensure b = (if b then Some () else None)"

definition index :: "'a list \<Rightarrow> nat \<Rightarrow> 'a option" where
  "index xs i = (if i < length xs then Some (xs ! i) else None)"

definition store :: "'a list \<Rightarrow> nat \<Rightarrow> 'a \<Rightarrow> 'a list option" where
  "store xs i v = (if i < length xs then Some (xs[i := v]) else None)"

definition checked_sub :: "nat \<Rightarrow> nat \<Rightarrow> nat option" where
  "checked_sub a b = (if b \<le> a then Some (a - b) else None)"

definition slice_to :: "'a list \<Rightarrow> nat \<Rightarrow> 'a list option" where
  "slice_to xs n = (if n \<le> length xs then Some (take n xs) else None)"

text \<open>The addition of two \<open>u32\<close> values: it panics on overflow.\<close>

definition add_u32 :: "nat \<Rightarrow> nat \<Rightarrow> nat option" where
  "add_u32 a b = (if a + b < 2 ^ 32 then Some (a + b) else None)"

text \<open>The rules with which the simplifier runs a computation that does not panic.\<close>

named_theorems run_simps

lemma ensure_run [run_simps]: "b \<Longrightarrow> ensure b = Some ()"
  by (simp add: ensure_def)

lemma index_run [run_simps]: "i < length xs \<Longrightarrow> index xs i = Some (xs ! i)"
  by (simp add: index_def)

lemma store_run [run_simps]: "i < length xs \<Longrightarrow> store xs i v = Some (xs[i := v])"
  by (simp add: store_def)

lemma checked_sub_run [run_simps]: "b \<le> a \<Longrightarrow> checked_sub a b = Some (a - b)"
  by (simp add: checked_sub_def)

lemma slice_to_run [run_simps]: "n \<le> length xs \<Longrightarrow> slice_to xs n = Some (take n xs)"
  by (simp add: slice_to_def)

lemma add_u32_run [run_simps]: "a + b < 2 ^ 32 \<Longrightarrow> add_u32 a b = Some (a + b)"
  by (simp add: add_u32_def)

lemma ensure_eq_Some [simp]: "ensure b = Some u \<longleftrightarrow> b"
  by (auto simp: ensure_def)

lemma index_eq_Some [simp]: "index xs i = Some v \<longleftrightarrow> i < length xs \<and> xs ! i = v"
  by (auto simp: index_def)

lemma store_eq_Some [simp]: "store xs i v = Some ys \<longleftrightarrow> i < length xs \<and> ys = xs[i := v]"
  by (auto simp: store_def)

lemma checked_sub_eq_Some [simp]: "checked_sub a b = Some c \<longleftrightarrow> b \<le> a \<and> c = a - b"
  by (auto simp: checked_sub_def)

lemma slice_to_eq_Some [simp]: "slice_to xs n = Some ys \<longleftrightarrow> n \<le> length xs \<and> ys = take n xs"
  by (auto simp: slice_to_def)

text \<open>A \<open>for\<close> loop over a slice, with a body that threads the state and may panic.\<close>

fun for_each :: "('a \<Rightarrow> 's \<Rightarrow> 's option) \<Rightarrow> 'a list \<Rightarrow> 's \<Rightarrow> 's option" where
  "for_each f [] s = Some s"
| "for_each f (x # xs) s = do { s' \<leftarrow> f x s; for_each f xs s' }"

lemma for_each_append: "for_each f (xs @ ys) s = do { s' \<leftarrow> for_each f xs s; for_each f ys s' }"
  by (induction xs arbitrary: s) (auto split: Option.bind_split)

text \<open>
  Total correctness of a loop: an invariant over the elements still to come that each iteration
  keeps without panicking holds at the end, and the loop ends.
\<close>

lemma for_each_total:
  assumes "I zs s"
    and "\<And>x xs s. I (x # xs) s \<Longrightarrow> \<exists>s'. f x s = Some s' \<and> I xs s'"
  shows "\<exists>s'. for_each f zs s = Some s' \<and> I [] s'"
  using assms(1)
proof (induction zs arbitrary: s)
  case Nil
  then show ?case by simp
next
  case (Cons z zs)
  from assms(2) [OF Cons.prems] obtain s' where s': "f z s = Some s'" "I zs s'" by blast
  from Cons.IH [OF s'(2)] s'(1) show ?case by auto
qed

section \<open>Lists\<close>

lemma count_list_map_le: "count_list xs x \<le> length xs"
  by (rule count_le_length)

lemma count_list_distinct: "distinct xs \<Longrightarrow> count_list xs x = (if x \<in> set xs then 1 else 0)"
  by (induction xs) auto

lemma count_list_update:
  "i < length xs \<Longrightarrow>
   count_list (xs[i := y]) z + (if xs ! i = z then 1 else 0)
     = count_list xs z + (if y = z then 1 else 0)"
proof (induction xs arbitrary: i)
  case Nil
  then show ?case by simp
next
  case (Cons x xs)
  show ?case
  proof (cases i)
    case 0
    then show ?thesis by simp
  next
    case (Suc j)
    with Cons.IH [of j] Cons.prems show ?thesis by (auto split: if_splits)
  qed
qed

lemma unique_index:
  assumes "count_list xs (xs ! i) \<le> 1" "i < length xs" "j < length xs" "xs ! i = xs ! j"
  shows "i = j"
proof (rule ccontr)
  assume "i \<noteq> j"
  then have "{i, j} \<subseteq> {k. k < length xs \<and> xs ! k = xs ! i}" "card {i, j} = 2" using assms by auto
  then have "2 \<le> card {k. k < length xs \<and> xs ! k = xs ! i}"
    by (metis card_mono finite_Collect_conjI finite_Collect_less_nat)
  moreover have "count_list xs (xs ! i) = card {k. k < length xs \<and> xs ! k = xs ! i}"
    by (simp add: count_list_eq_length_filter length_filter_conv_card eq_commute)
  ultimately show False using assms(1) by simp
qed

lemma filter_neq_id [simp]: "x \<notin> set xs \<Longrightarrow> filter (\<lambda>y. y \<noteq> x) xs = xs"
  by (induction xs) auto

lemma last_take_Suc: "i < length xs \<Longrightarrow> last (take (Suc i) xs) = xs ! i"
  by (simp add: take_Suc_conv_app_nth)

text \<open>\<open>&xs[a..b]\<close>, which panics out of range.\<close>

definition slice :: "'a list \<Rightarrow> nat \<Rightarrow> nat \<Rightarrow> 'a list option" where
  "slice xs a b = (if a \<le> b \<and> b \<le> length xs then Some (drop a (take b xs)) else None)"

lemma slice_eq: "slice xs a b = (if a \<le> b \<and> b \<le> length xs then Some (take (b - a) (drop a xs)) else None)"
  by (simp add: slice_def drop_take)

section \<open>Decimal numerals in messages\<close>

fun show_nat :: "nat \<Rightarrow> string" where
  "show_nat n =
     (if n < 10 then [char_of (48 + n)] else show_nat (n div 10) @ [char_of (48 + n mod 10)])"

declare show_nat.simps [simp del]

end
