(* ===== verification/Core_Types.thy ===== *)
theory Core_Types
  imports Prelude
begin

text \<open>
  The crate \<open>vapi-core\<close>: request and model identifiers (\<open>ids.rs\<close>), the error type with its HTTP
  mapping (\<open>error.rs\<close>), sampling parameters with their validation and stop strings
  (\<open>sampling.rs\<close>), API keys (\<open>auth.rs\<close>) and the parts of the configuration that compute
  (\<open>config.rs\<close>).

  An \<open>f32\<close> is one of the special values or a finite value, and every finite \<open>f32\<close> is a
  rational number; this crate only compares them, so the comparisons below are exact.
\<close>

section \<open>Floating point comparisons\<close>

datatype f32 = NaN | Inf | NegInf | Fin rat

fun f32_le :: "f32 \<Rightarrow> f32 \<Rightarrow> bool" where
  "f32_le NaN _ = False"
| "f32_le _ NaN = False"
| "f32_le NegInf _ = True"
| "f32_le _ Inf = True"
| "f32_le (Fin a) (Fin b) = (a \<le> b)"
| "f32_le _ _ = False"

definition f32_in :: "f32 \<Rightarrow> f32 \<Rightarrow> f32 \<Rightarrow> bool" where
  "f32_in lo hi x = (f32_le lo x \<and> f32_le x hi)"

definition f32_epsilon :: f32 where
  "f32_epsilon = Fin (1 / 2 ^ 23)"

section \<open>Errors (error.rs)\<close>

datatype error =
    InvalidRequest string
  | UnknownModel string
  | ContextLengthExceeded nat nat
  | Overloaded
  | Cancelled_error
  | Timeout nat
  | Tokenizer_error string
  | ChatTemplate_error string
  | Transport_error string
  | Config_error string
  | Engine_error string

fun http_status :: "error \<Rightarrow> nat" where
  "http_status (InvalidRequest _) = 400"
| "http_status (ContextLengthExceeded _ _) = 400"
| "http_status (UnknownModel _) = 404"
| "http_status Overloaded = 503"
| "http_status Cancelled_error = 499"
| "http_status (Timeout _) = 504"
| "http_status (Tokenizer_error _) = 500"
| "http_status (ChatTemplate_error _) = 500"
| "http_status (Transport_error _) = 500"
| "http_status (Config_error _) = 500"
| "http_status (Engine_error _) = 500"

fun openai_type :: "error \<Rightarrow> string" where
  "openai_type (InvalidRequest _) = ''invalid_request_error''"
| "openai_type (ContextLengthExceeded _ _) = ''invalid_request_error''"
| "openai_type (UnknownModel _) = ''not_found_error''"
| "openai_type Overloaded = ''server_error''"
| "openai_type _ = ''api_error''"

fun openai_code :: "error \<Rightarrow> string option" where
  "openai_code (ContextLengthExceeded _ _) = Some ''context_length_exceeded''"
| "openai_code (UnknownModel _) = Some ''model_not_found''"
| "openai_code Overloaded = Some ''overloaded''"
| "openai_code _ = None"

section \<open>Identifiers (ids.rs)\<close>

definition is_ascii_alphanumeric :: "char \<Rightarrow> bool" where
  "is_ascii_alphanumeric c =
     (let n = of_char c :: nat in (48 \<le> n \<and> n \<le> 57) \<or> (65 \<le> n \<and> n \<le> 90) \<or> (97 \<le> n \<and> n \<le> 122))"

definition request_id_char :: "char \<Rightarrow> bool" where
  "request_id_char c = (is_ascii_alphanumeric c \<or> c = CHR ''-'' \<or> c = CHR ''_'')"

definition request_id_parse :: "string \<Rightarrow> string option" where
  "request_id_parse s =
     (if s \<noteq> [] \<and> length s \<le> 128 \<and> list_all request_id_char s then Some s else None)"

definition subject_reserved :: "char \<Rightarrow> bool" where
  "subject_reserved c = (c \<in> {CHR ''/'', CHR ''.'', CHR '' '', CHR ''*'', CHR ''>''})"

definition subject_token :: "string \<Rightarrow> string" where
  "subject_token m = map (\<lambda>c. if subject_reserved c then CHR ''_'' else c) m"

section \<open>Sampling parameters (sampling.rs)\<close>

datatype finish_reason = Stop | Length | ToolCalls | Cancelled | FinishError

fun as_openai :: "finish_reason \<Rightarrow> string" where
  "as_openai Stop = ''stop''"
| "as_openai Length = ''length''"
| "as_openai ToolCalls = ''tool_calls''"
| "as_openai Cancelled = ''stop''"
| "as_openai FinishError = ''stop''"

record stop_condition =
  stop_token_ids :: "token list"
  stop_strings :: "string list"
  include_stop_str :: bool

text \<open>
  \<open>ResponseFormat\<close>: the JSON value a schema carries is opaque to this crate and is kept as the
  body it was parsed from.
\<close>

datatype response_format = JsonObject | JsonSchema string

record sampling_params =
  temperature :: f32
  top_p :: f32
  top_k :: "nat option"
  min_p :: f32
  repetition_penalty :: f32
  frequency_penalty :: f32
  presence_penalty :: f32
  max_tokens :: nat
  n_choices :: nat
  seed :: "64 word option"
  logprobs :: "nat option"
  resp_format :: "response_format option"
  constraint_starts_after :: "string option"
  stop :: stop_condition

definition default_stop :: stop_condition where
  "default_stop = \<lparr>stop_token_ids = [], stop_strings = [], include_stop_str = False\<rparr>"

definition default_params :: sampling_params where
  "default_params =
     \<lparr>temperature = Fin 1, top_p = Fin 1, top_k = None, min_p = Fin 0,
      repetition_penalty = Fin 1, frequency_penalty = Fin 0, presence_penalty = Fin 0,
      max_tokens = 256, n_choices = 1, seed = None, logprobs = None, resp_format = None,
      constraint_starts_after = None, stop = default_stop\<rparr>"

definition is_greedy :: "sampling_params \<Rightarrow> bool" where
  "is_greedy p = f32_le (temperature p) f32_epsilon"

definition is_deterministic :: "sampling_params \<Rightarrow> bool" where
  "is_deterministic p = (f32_le (temperature p) f32_epsilon \<or> seed p \<noteq> None)"

definition seed_for :: "sampling_params \<Rightarrow> nat \<Rightarrow> 64 word option" where
  "seed_for p choice = map_option (\<lambda>s. s + of_nat choice) (seed p)"

definition MAX_CHOICES :: nat where
  "MAX_CHOICES = 8"

definition validate_params :: "sampling_params \<Rightarrow> string + unit" where
  "validate_params p =
     (if \<not> f32_in (Fin 0) (Fin 2) (temperature p) then Inl ''temperature must be in [0, 2]''
      else if \<not> f32_in (Fin 0) (Fin 1) (top_p p) \<or> top_p p = Fin 0 then
        Inl ''top_p must be in (0, 1]''
      else if \<not> f32_in (Fin 0) (Fin 1) (min_p p) then Inl ''min_p must be in [0, 1]''
      else if top_k p = Some 0 then Inl ''top_k must be >= 1''
      else if max_tokens p = 0 then Inl ''max_tokens must be >= 1''
      else if n_choices p = 0 \<or> n_choices p > MAX_CHOICES then Inl ''n must be in [1, 8]''
      else if f32_le (repetition_penalty p) (Fin 0) then Inl ''repetition_penalty must be > 0''
      else (case logprobs p of
              Some n \<Rightarrow> if n > 20 then Inl ''logprobs must be <= 20'' else Inr ()
            | None \<Rightarrow> Inr ()))"

subsection \<open>Stop strings\<close>

text \<open>\<open>str::find\<close>: the byte offset of the first occurrence.\<close>

fun str_find :: "'a list \<Rightarrow> 'a list \<Rightarrow> nat option" where
  "str_find pat [] = (if pat = [] then Some 0 else None)"
| "str_find pat (c # cs) =
     (if prefix pat (c # cs) then Some 0 else map_option Suc (str_find pat cs))"

text \<open>\<open>Iterator::min\<close> of the offsets found.\<close>

fun min_list_option :: "nat list \<Rightarrow> nat option" where
  "min_list_option [] = None"
| "min_list_option (x # xs) =
     (case min_list_option xs of None \<Rightarrow> Some x | Some y \<Rightarrow> Some (min x y))"

definition find_stop_string :: "stop_condition \<Rightarrow> string \<Rightarrow> nat option" where
  "find_stop_string sc body =
     min_list_option
       (List.map_filter
          (\<lambda>s. map_option (\<lambda>i. if include_stop_str sc then i + length s else i) (str_find s body))
          (filter (\<lambda>s. s \<noteq> []) (stop_strings sc)))"

definition max_stop_len :: "stop_condition \<Rightarrow> nat" where
  "max_stop_len sc = fold (\<lambda>s m. max (length s) m) (stop_strings sc) 0"

section \<open>Configuration (config.rs)\<close>

definition BLOCK_SIZE :: nat where
  "BLOCK_SIZE = 32"

datatype dtype = Auto | F32 | F16 | Bf16

definition owned_partitions :: "nat list \<Rightarrow> nat \<Rightarrow> nat list" where
  "owned_partitions partitions count =
     (let count = max count 1
      in if partitions = [] then [0..<count]
         else remdups_adj (sort (filter (\<lambda>p. p < count) partitions)))"

definition ack_progress_interval :: "nat \<Rightarrow> nat" where
  "ack_progress_interval ack_wait_secs = max (ack_wait_secs div 3) 1"

section \<open>API keys (auth.rs)\<close>

record api_key =
  key_name :: string
  key_secret :: string
  key_namespace :: "string option"

definition namespace_of_key :: "api_key \<Rightarrow> string" where
  "namespace_of_key k = (case key_namespace k of Some n \<Rightarrow> n | None \<Rightarrow> key_name k)"

definition auth_enabled :: "api_key list \<Rightarrow> bool" where
  "auth_enabled keys = (keys \<noteq> [])"

definition str_bytes :: "string \<Rightarrow> bytes" where
  "str_bytes s = map (\<lambda>c. word_of_nat (of_char c)) s"

unbundle bit_operations_syntax

fun eq_diff :: "bytes \<Rightarrow> bytes \<Rightarrow> u8 \<Rightarrow> u8" where
  "eq_diff (x # xs) (y # ys) d = eq_diff xs ys (d OR (x XOR y))"
| "eq_diff _ _ d = d"

definition constant_time_eq :: "bytes \<Rightarrow> bytes \<Rightarrow> bool" where
  "constant_time_eq a b = (if length a \<noteq> length b then False else eq_diff a b 0 = 0)"

definition auth_lookup :: "(bytes \<Rightarrow> bytes) \<Rightarrow> api_key list \<Rightarrow> string \<Rightarrow> api_key option" where
  "auth_lookup blake3 keys presented =
     (let want = blake3 (str_bytes presented)
      in fold (\<lambda>candidate found.
                 if constant_time_eq want (blake3 (str_bytes (key_secret candidate)))
                 then Some candidate else found) keys None)"

record principal =
  principal_name :: string
  principal_namespace :: string

definition anonymous :: "string \<Rightarrow> principal" where
  "anonymous ns = \<lparr>principal_name = ''anonymous'', principal_namespace = ns\<rparr>"

definition is_anonymous :: "principal \<Rightarrow> bool" where
  "is_anonymous p = (principal_name p = ''anonymous'')"

definition principal_of_key :: "api_key \<Rightarrow> principal" where
  "principal_of_key k = \<lparr>principal_name = key_name k, principal_namespace = namespace_of_key k\<rparr>"

section \<open>Lemmas\<close>

lemma or_xor_0_iff: "d OR (x XOR y) = 0 \<longleftrightarrow> d = 0 \<and> x = (y :: u8)"
  by (auto simp: bit_eq_iff bit_simps)

lemma eq_diff_0_iff: "length a = length b \<Longrightarrow> eq_diff a b d = 0 \<longleftrightarrow> d = 0 \<and> a = b"
proof (induction a b d rule: eq_diff.induct)
  case (1 x xs y ys d)
  then show ?case by (auto simp: or_xor_0_iff)
qed auto

lemma constant_time_eq_iff: "constant_time_eq a b \<longleftrightarrow> a = b"
  by (auto simp: constant_time_eq_def eq_diff_0_iff)

lemma word_of_char_inj: "word_of_nat (of_char c) = (word_of_nat (of_char d) :: u8) \<longleftrightarrow> c = d"
proof
  assume eq: "word_of_nat (of_char c) = (word_of_nat (of_char d) :: u8)"
  have lt: "(of_char x :: nat) < 2 ^ LENGTH(8)" for x
  proof -
    have "(of_char x :: nat) = of_char (char_of (of_char x :: nat))" by simp
    also have "\<dots> = of_char x mod 256" by (rule of_char_of)
    finally show ?thesis using mod_less_divisor [of 256 "of_char x :: nat"] by simp
  qed
  have "unat (word_of_nat (of_char x) :: u8) = of_char x" for x
    using lt [of x] by (simp add: unat_of_nat)
  with eq have "(of_char c :: nat) = of_char d" by metis
  then show "c = d" by (simp add: of_char_eq_iff)
qed simp

lemma str_bytes_inj [simp]: "str_bytes a = str_bytes b \<longleftrightarrow> a = b"
  unfolding str_bytes_def by (intro inj_map_eq_map injI) (simp add: word_of_char_inj)

lemma length_str_bytes [simp]: "length (str_bytes s) = length s"
  by (simp add: str_bytes_def)

lemma auth_fold:
  "fold (\<lambda>c found. if P c then Some c else found) ks r
     = (case filter P ks of [] \<Rightarrow> r | _ \<Rightarrow> Some (last (filter P ks)))"
  by (induction ks arbitrary: r) (auto split: list.splits)

lemma str_find_Some:
  "str_find pat body = Some i \<longleftrightarrow>
     prefix pat (drop i body) \<and> i \<le> length body \<and> (\<forall>j<i. \<not> prefix pat (drop j body))"
proof (induction body arbitrary: i)
  case Nil
  then show ?case by auto
next
  case (Cons c cs)
  show ?case
  proof (cases i)
    case 0
    then show ?thesis by (auto split: option.splits)
  next
    case (Suc k)
    then show ?thesis using Cons.IH [of k] by (auto simp: less_Suc_eq_0_disj)
  qed
qed

lemma str_find_None: "str_find pat body = None \<longleftrightarrow> (\<forall>j\<le>length body. \<not> prefix pat (drop j body))"
proof (induction body)
  case (Cons c cs)
  have "(\<forall>j\<le>length (c # cs). \<not> prefix pat (drop j (c # cs))) \<longleftrightarrow>
        \<not> prefix pat (c # cs) \<and> (\<forall>j\<le>length cs. \<not> prefix pat (drop j cs))"
    by (metis drop_0 drop_Suc_Cons length_Cons le0 not0_implies_Suc Suc_le_mono)
  with Cons show ?case by simp
qed auto

lemma min_list_option_Some:
  "min_list_option xs = Some m \<longleftrightarrow> m \<in> set xs \<and> (\<forall>x\<in>set xs. m \<le> x)"
proof (induction xs arbitrary: m)
  case (Cons x xs)
  show ?case
  proof (cases "min_list_option xs")
    case None
    then have "xs = []" by (cases xs) (auto split: option.splits)
    then show ?thesis by auto
  next
    case (Some y)
    with Cons.IH [of y] have "y \<in> set xs" "\<forall>x\<in>set xs. y \<le> x" by auto
    with Some show ?thesis by (auto simp: min_def dest: order_antisym)
  qed
qed simp

lemma min_list_option_None: "min_list_option xs = None \<longleftrightarrow> xs = []"
  by (cases xs) (auto split: option.splits)

lemma max_stop_len_ge: "s \<in> set (stop_strings sc) \<Longrightarrow> length s \<le> max_stop_len sc"
proof -
  have ge: "m \<le> fold (\<lambda>s m. max (length s) m) xs m" for xs :: "string list" and m
    by (induction xs arbitrary: m) (auto intro: le_trans [OF max.cobounded2])
  have "s \<in> set xs \<Longrightarrow> length s \<le> fold (\<lambda>s m. max (length s) m) xs m" for xs m
    by (induction xs arbitrary: m) (auto intro: le_trans [OF max.cobounded1 ge])
  then show "s \<in> set (stop_strings sc) \<Longrightarrow> length s \<le> max_stop_len sc"
    by (simp add: max_stop_len_def)
qed

end
