(* ===== verification/Block_Hash.thy ===== *)
theory Block_Hash
  imports Core_Types
begin

text \<open>
  Content addresses of KV blocks (\<open>vapi-cache/src/hash.rs\<close>).  The BLAKE3 function is a parameter
  \<open>blake3\<close> of every definition that hashes; the definitions build the exact byte string that is
  fed to the hasher.  What the code relies on, that BLAKE3 has no collision, cannot hold of a
  function into 32 bytes on all inputs, so the theorems ask for it only on the finite set of byte
  strings that the two chains at hand feed to it.
\<close>

section \<open>Hash values\<close>

datatype block_hash = BlockHash (as_bytes: bytes)

fun le_bytes :: "nat \<Rightarrow> nat \<Rightarrow> bytes" where
  "le_bytes 0 n = []"
| "le_bytes (Suc k) n = word_of_nat n # le_bytes k (n div 256)"

definition hex_digit :: "nat \<Rightarrow> char" where
  "hex_digit d = ''0123456789abcdef'' ! d"

definition hex_byte :: "u8 \<Rightarrow> string" where
  "hex_byte b = [hex_digit (unat b div 16), hex_digit (unat b mod 16)]"

definition to_hex :: "block_hash \<Rightarrow> string" where
  "to_hex h = concat (map hex_byte (as_bytes h))"

definition short :: "block_hash \<Rightarrow> string" where
  "short h = concat (map hex_byte (take 6 (as_bytes h)))"

text \<open>
  One digit as \<open>u8::from_str_radix(_, 16)\<close> reads it: both cases are accepted.  On two characters
  \<open>from_str_radix\<close> also accepts a leading \<open>+\<close> followed by one digit.
\<close>

definition digit_val :: "char \<Rightarrow> nat option" where
  "digit_val c =
     (let n = of_char c :: nat
      in if 48 \<le> n \<and> n \<le> 57 then Some (n - 48)
         else if 97 \<le> n \<and> n \<le> 102 then Some (n - 87)
         else if 65 \<le> n \<and> n \<le> 70 then Some (n - 55)
         else None)"

definition byte_of_hex :: "char \<Rightarrow> char \<Rightarrow> u8 option" where
  "byte_of_hex a b =
     (if a = CHR ''+'' then map_option word_of_nat (digit_val b)
      else do { x \<leftarrow> digit_val a; y \<leftarrow> digit_val b; Some (word_of_nat (16 * x + y)) })"

fun bytes_of_hex :: "string \<Rightarrow> bytes option" where
  "bytes_of_hex (a # b # s) = do { x \<leftarrow> byte_of_hex a b; xs \<leftarrow> bytes_of_hex s; Some (x # xs) }"
| "bytes_of_hex _ = Some []"

definition from_hex :: "string \<Rightarrow> block_hash option" where
  "from_hex s = (if length s \<noteq> 64 then None else map_option BlockHash (bytes_of_hex s))"

section \<open>Namespaces\<close>

record cache_namespace =
  root :: block_hash
  label :: string
  ns_model_id :: string
  weights_fingerprint :: string
  lora_id :: "string option"
  ns_dtype :: dtype

fun dtype_byte :: "dtype \<Rightarrow> u8" where
  "dtype_byte Auto = 0"
| "dtype_byte F32 = 1"
| "dtype_byte F16 = 2"
| "dtype_byte Bf16 = 3"

definition prefixed :: "string \<Rightarrow> bytes" where
  "prefixed part = le_bytes 8 (length part) @ str_bytes part"

definition lora_or_empty :: "string option \<Rightarrow> string" where
  "lora_or_empty l = (case l of Some s \<Rightarrow> s | None \<Rightarrow> [])"

text \<open>The bytes \<open>CacheNamespace::new\<close> feeds to the hasher.\<close>

definition ns_input :: "string \<Rightarrow> string \<Rightarrow> dtype \<Rightarrow> string option \<Rightarrow> string \<Rightarrow> bytes" where
  "ns_input model weights dt lora tenant =
     str_bytes ''vapi-cache-ns-v1''
     @ concat (map prefixed [model, weights, lora_or_empty lora, tenant])
     @ [dtype_byte dt]"

definition ns_new ::
  "(bytes \<Rightarrow> bytes) \<Rightarrow> string \<Rightarrow> string \<Rightarrow> dtype \<Rightarrow> string option \<Rightarrow> string \<Rightarrow> cache_namespace" where
  "ns_new blake3 model weights dt lora tenant =
     \<lparr>root = BlockHash (blake3 (ns_input model weights dt lora tenant)), label = tenant,
      ns_model_id = model, weights_fingerprint = weights, lora_id = lora, ns_dtype = dt\<rparr>"

definition for_tenant :: "(bytes \<Rightarrow> bytes) \<Rightarrow> cache_namespace \<Rightarrow> string \<Rightarrow> cache_namespace" where
  "for_tenant blake3 ns tenant =
     ns_new blake3 (ns_model_id ns) (weights_fingerprint ns) (ns_dtype ns) (lora_id ns) tenant"

definition ns_tenant :: "cache_namespace \<Rightarrow> string" where
  "ns_tenant ns = label ns"

section \<open>The chain\<close>

definition block_input :: "block_hash \<Rightarrow> token list \<Rightarrow> bytes" where
  "block_input parent toks =
     str_bytes ''vapi-block-v1'' @ as_bytes parent @ le_bytes 8 (length toks)
     @ concat (map (le_bytes 4) toks)"

definition hash_block :: "(bytes \<Rightarrow> bytes) \<Rightarrow> block_hash \<Rightarrow> token list \<Rightarrow> block_hash" where
  "hash_block blake3 parent toks = BlockHash (blake3 (block_input parent toks))"

text \<open>\<open>slice::chunks_exact\<close>: the trailing partial chunk is dropped.\<close>

function chunks_exact :: "nat \<Rightarrow> 'a list \<Rightarrow> 'a list list" where
  "chunks_exact n xs =
     (if n = 0 \<or> length xs < n then [] else take n xs # chunks_exact n (drop n xs))"
  by pat_completeness auto
termination
  by (relation "measure (\<lambda>(n, xs). length xs)") auto

declare chunks_exact.simps [simp del]

fun chain_from :: "(bytes \<Rightarrow> bytes) \<Rightarrow> block_hash \<Rightarrow> token list list \<Rightarrow> block_hash list" where
  "chain_from blake3 parent [] = []"
| "chain_from blake3 parent (c # cs) =
     (let h = hash_block blake3 parent c in h # chain_from blake3 h cs)"

definition hash_block_chain ::
  "(bytes \<Rightarrow> bytes) \<Rightarrow> cache_namespace \<Rightarrow> token list \<Rightarrow> nat \<Rightarrow> block_hash list" where
  "hash_block_chain blake3 ns toks block_size =
     chain_from blake3 (root ns) (chunks_exact block_size toks)"

section \<open>Lemmas: little-endian encodings\<close>

fun le_val :: "bytes \<Rightarrow> nat" where
  "le_val [] = 0"
| "le_val (b # bs) = unat b + 256 * le_val bs"

lemma length_le_bytes [simp]: "length (le_bytes k n) = k"
  by (induction k arbitrary: n) auto

lemma le_val_le_bytes: "le_val (le_bytes k n) = n mod 256 ^ k"
proof (induction k arbitrary: n)
  case (Suc k)
  have "n mod 256 + 256 * (n div 256 mod 256 ^ k) = n mod (256 * 256 ^ k)"
    by (simp add: mod_mult2_eq)
  with Suc show ?case by (simp add: unat_of_nat)
qed simp

lemma le_bytes_inj:
  assumes "m < 256 ^ k" "n < 256 ^ k" "le_bytes k m = le_bytes k n"
  shows "m = n"
  using arg_cong [OF assms(3), of le_val] assms(1,2) by (simp add: le_val_le_bytes)

lemma prefixed_inj:
  assumes "length a < 2 ^ 64" "length b < 2 ^ 64" "prefixed a @ xs = prefixed b @ ys"
  shows "a = b \<and> xs = ys"
proof -
  from assms(3) have l: "le_bytes 8 (length a) = le_bytes 8 (length b)"
    and r: "str_bytes a @ xs = str_bytes b @ ys"
    by (simp_all add: prefixed_def append_eq_append_conv)
  from l have "length a = length b"
    using assms(1,2) by (intro le_bytes_inj [of _ 8]) simp_all
  with r show ?thesis by simp
qed

lemma dtype_byte_inj: "dtype_byte a = dtype_byte b \<longleftrightarrow> a = b"
  by (cases a; cases b) simp_all

lemma ns_input_inj:
  assumes "ns_input m w d l t = ns_input m' w' d' l' t'"
    and "\<forall>s \<in> {m, w, lora_or_empty l, t, m', w', lora_or_empty l', t'}. length s < 2 ^ 64"
  shows "m = m' \<and> w = w' \<and> d = d' \<and> lora_or_empty l = lora_or_empty l' \<and> t = t'"
proof -
  from assms(1) have "prefixed m @ prefixed w @ prefixed (lora_or_empty l) @ prefixed t @ [dtype_byte d]
      = prefixed m' @ prefixed w' @ prefixed (lora_or_empty l') @ prefixed t' @ [dtype_byte d']"
    by (simp add: ns_input_def)
  then have "m = m' \<and> prefixed w @ prefixed (lora_or_empty l) @ prefixed t @ [dtype_byte d]
      = prefixed w' @ prefixed (lora_or_empty l') @ prefixed t' @ [dtype_byte d']"
    using assms(2) by (intro prefixed_inj) auto
  moreover from this have "w = w' \<and> prefixed (lora_or_empty l) @ prefixed t @ [dtype_byte d]
      = prefixed (lora_or_empty l') @ prefixed t' @ [dtype_byte d']"
    using assms(2) by (intro prefixed_inj) auto
  moreover from this have
    "lora_or_empty l = lora_or_empty l' \<and> prefixed t @ [dtype_byte d] = prefixed t' @ [dtype_byte d']"
    using assms(2) by (intro prefixed_inj) auto
  moreover from this have "t = t' \<and> [dtype_byte d] = [dtype_byte d']"
    using assms(2) by (intro prefixed_inj) auto
  ultimately show ?thesis by (simp add: dtype_byte_inj)
qed

lemma concat_le_bytes_inj:
  assumes "length xs = length ys" "\<forall>x \<in> set xs \<union> set ys. x < 256 ^ k"
    "concat (map (le_bytes k) xs) = concat (map (le_bytes k) ys)"
  shows "xs = ys"
  using assms
proof (induction xs ys rule: list_induct2)
  case (Cons x xs y ys)
  then have "le_bytes k x = le_bytes k y" "concat (map (le_bytes k) xs) = concat (map (le_bytes k) ys)"
    by (simp_all add: append_eq_append_conv)
  with Cons show ?case by (auto intro: le_bytes_inj)
qed simp

lemma block_input_inj:
  assumes "block_input p xs = block_input q ys"
    and "length (as_bytes p) = length (as_bytes q)"
    and "length xs < 2 ^ 64" "length ys < 2 ^ 64" "\<forall>x \<in> set xs \<union> set ys. x < 2 ^ 32"
  shows "p = q \<and> xs = ys"
proof -
  from assms(1,2) have pq: "as_bytes p = as_bytes q"
    and l: "le_bytes 8 (length xs) = le_bytes 8 (length ys)"
    and c: "concat (map (le_bytes 4) xs) = concat (map (le_bytes 4) ys)"
    by (simp_all add: block_input_def append_eq_append_conv)
  from l have "length xs = length ys"
    using assms(3,4) by (intro le_bytes_inj [of _ 8]) simp_all
  with c assms(5) have "xs = ys" by (intro concat_le_bytes_inj [of _ _ 4]) simp_all
  with pq show ?thesis by (cases p; cases q) simp
qed

text \<open>A namespace input and a block input never coincide: the domain tags differ.\<close>

lemma ns_input_neq_block_input: "ns_input m w d l t \<noteq> block_input p xs"
proof
  assume "ns_input m w d l t = block_input p xs"
  then have "take 6 (ns_input m w d l t) ! 5 = take 6 (block_input p xs) ! 5" by simp
  then show False by (simp add: ns_input_def block_input_def str_bytes_def)
qed

section \<open>Lemmas: chunks and chains\<close>

lemma length_chunks_exact: "length (chunks_exact n xs) = length xs div n"
proof (induction n xs rule: chunks_exact.induct)
  case (1 n xs)
  show ?case
  proof (cases "n = 0 \<or> length xs < n")
    case True
    then show ?thesis by (auto simp: chunks_exact.simps [of n xs])
  next
    case False
    then have "length xs div n = Suc ((length xs - n) div n)"
      by (simp add: le_div_geq)
    with False 1 show ?thesis by (simp add: chunks_exact.simps [of n xs])
  qed
qed

lemma chunks_exact_take:
  "0 < n \<Longrightarrow> k * n \<le> length xs \<Longrightarrow> chunks_exact n (take (k * n) xs) = take k (chunks_exact n xs)"
proof (induction k arbitrary: xs)
  case (Suc k)
  then have "n \<le> length xs" by simp
  moreover have "k * n \<le> length (drop n xs)" using Suc.prems by simp
  moreover have "take n (take (Suc k * n) xs) = take n xs" by simp
  moreover have "drop n (take (Suc k * n) xs) = take (k * n) (drop n xs)" by (simp add: drop_take)
  moreover have "\<not> min (length xs) (Suc k * n) < n" using Suc.prems by simp
  ultimately show ?case
    using Suc.prems(1) Suc.IH [of "drop n xs"]
    by (simp add: chunks_exact.simps [of n "take (Suc k * n) xs"] chunks_exact.simps [of n xs]
        del: mult_Suc)
qed (simp add: chunks_exact.simps)

lemma concat_chunks_exact:
  "0 < n \<Longrightarrow> concat (chunks_exact n xs) = take (length xs div n * n) xs"
proof (induction n xs rule: chunks_exact.induct)
  case (1 n xs)
  show ?case
  proof (cases "length xs < n")
    case True
    then show ?thesis by (simp add: chunks_exact.simps [of n xs])
  next
    case False
    then have "length xs div n = Suc ((length xs - n) div n)"
      using 1 by (simp add: le_div_geq)
    moreover have "concat (chunks_exact n (drop n xs)) = take ((length xs - n) div n * n) (drop n xs)"
      using 1 False by simp
    ultimately show ?thesis
      using 1(2) False by (simp add: chunks_exact.simps [of n xs] take_add)
  qed
qed

lemma chunks_exact_length: "c \<in> set (chunks_exact n xs) \<Longrightarrow> length c = n \<and> set c \<subseteq> set xs"
proof (induction n xs rule: chunks_exact.induct)
  case (1 n xs)
  then show ?case
    by (subst (asm) chunks_exact.simps)
       (auto split: if_splits dest: in_set_takeD in_set_dropD)
qed

lemma length_chain_from [simp]: "length (chain_from b3 p cs) = length cs"
  by (induction cs arbitrary: p) (auto simp: Let_def)

lemma chain_from_take: "chain_from b3 p (take k cs) = take k (chain_from b3 p cs)"
proof (induction cs arbitrary: p k)
  case (Cons c cs)
  then show ?case by (cases k) (auto simp: Let_def)
qed simp

lemma length_hash_block_chain [simp]:
  "length (hash_block_chain b3 ns ts bs) = length ts div bs"
  by (simp add: hash_block_chain_def length_chunks_exact)

lemma hash_block_chain_take:
  "0 < bs \<Longrightarrow> k * bs \<le> length ts \<Longrightarrow>
   hash_block_chain b3 ns (take (k * bs) ts) bs = take k (hash_block_chain b3 ns ts bs)"
  by (simp add: hash_block_chain_def chunks_exact_take chain_from_take)

text \<open>The parent of block \<open>i\<close> and the byte strings a chain feeds to the hasher.\<close>

fun chain_inputs :: "(bytes \<Rightarrow> bytes) \<Rightarrow> block_hash \<Rightarrow> token list list \<Rightarrow> bytes list" where
  "chain_inputs blake3 parent [] = []"
| "chain_inputs blake3 parent (c # cs) =
     block_input parent c # chain_inputs blake3 (hash_block blake3 parent c) cs"

definition hash_inputs ::
  "(bytes \<Rightarrow> bytes) \<Rightarrow> string \<Rightarrow> string \<Rightarrow> dtype \<Rightarrow> string option \<Rightarrow> string \<Rightarrow> token list \<Rightarrow> nat \<Rightarrow> bytes list"
  where
  "hash_inputs blake3 m w d l t toks bs =
     ns_input m w d l t # chain_inputs blake3 (root (ns_new blake3 m w d l t)) (chunks_exact bs toks)"

definition chain_parent :: "(bytes \<Rightarrow> bytes) \<Rightarrow> block_hash \<Rightarrow> token list list \<Rightarrow> nat \<Rightarrow> block_hash" where
  "chain_parent b3 p cs i = (p # chain_from b3 p cs) ! i"

lemma length_chain_inputs [simp]: "length (chain_inputs b3 p cs) = length cs"
  by (induction cs arbitrary: p) auto

lemma chain_nth:
  "i < length cs \<Longrightarrow> chain_from b3 p cs ! i = hash_block b3 (chain_parent b3 p cs i) (cs ! i)
     \<and> chain_inputs b3 p cs ! i = block_input (chain_parent b3 p cs i) (cs ! i)"
proof (induction cs arbitrary: p i)
  case (Cons c cs)
  then show ?case by (cases i) (auto simp: chain_parent_def Let_def)
qed simp

lemma chain_input_mem:
  "i < length cs \<Longrightarrow> block_input (chain_parent b3 p cs i) (cs ! i) \<in> set (chain_inputs b3 p cs)"
  by (metis chain_nth length_chain_inputs nth_mem)

lemma chain_parent_Suc:
  "i < length cs \<Longrightarrow> chain_parent b3 p cs (Suc i) = hash_block b3 (chain_parent b3 p cs i) (cs ! i)"
  using chain_nth [of i cs b3 p] by (simp add: chain_parent_def)

lemma length_hash [simp]: "\<forall>x. length (b3 x) = 32 \<Longrightarrow> length (as_bytes (hash_block b3 p c)) = 32"
  by (simp add: hash_block_def)

lemma length_chain_parent:
  assumes "\<forall>x. length (b3 x) = 32" "length (as_bytes p) = 32" "i \<le> length cs"
  shows "length (as_bytes (chain_parent b3 p cs i)) = 32"
  using assms by (cases i) (simp_all add: chain_parent_Suc chain_parent_def chain_nth)

text \<open>
  Two chains that agree on the hash of one block agree on everything before it: on the position, on
  the root and on every chunk.
\<close>

lemma chain_from_inj:
  fixes m m' w w' :: string
  assumes b3: "\<forall>x. length (b3 x) = 32"
    and p: "p = BlockHash (b3 inp)" "inp = ns_input m w d l t"
    and q: "q = BlockHash (b3 inq)" "inq = ns_input m' w' d' l' t'"
    and inj: "inj_on b3 ({inp, inq} \<union> set (chain_inputs b3 p cs) \<union> set (chain_inputs b3 q ds))"
    and cs: "\<forall>c \<in> set cs \<union> set ds. length c < 2 ^ 64 \<and> (\<forall>x \<in> set c. x < 2 ^ 32)"
    and "i < length cs" "j < length ds"
    and "chain_from b3 p cs ! i = chain_from b3 q ds ! j"
  shows "i = j \<and> inp = inq \<and> (\<forall>k\<le>i. cs ! k = ds ! k)"
proof -
  let ?P = "chain_parent b3 p cs" and ?Q = "chain_parent b3 q ds"
  have eq: "?P i = ?Q j \<and> cs ! i = ds ! j"
    if "i < length cs" "j < length ds" "chain_from b3 p cs ! i = chain_from b3 q ds ! j" for i j
  proof (rule block_input_inj)
    show "block_input (?P i) (cs ! i) = block_input (?Q j) (ds ! j)"
      using that inj chain_nth [of i cs b3 p] chain_nth [of j ds b3 q] chain_input_mem [of i cs b3 p]
        chain_input_mem [of j ds b3 q] by (auto simp: hash_block_def inj_on_def)
    show "length (as_bytes (?P i)) = length (as_bytes (?Q j))"
      using that b3 p q by (simp add: length_chain_parent)
    have "cs ! i \<in> set cs" "ds ! j \<in> set ds" using that by simp_all
    with cs show "length (cs ! i) < 2 ^ 64" "length (ds ! j) < 2 ^ 64"
      "\<forall>x \<in> set (cs ! i) \<union> set (ds ! j). x < 2 ^ 32" by blast+
  qed
  show ?thesis
    using \<open>i < length cs\<close> \<open>j < length ds\<close> \<open>chain_from b3 p cs ! i = chain_from b3 q ds ! j\<close>
  proof (induction i arbitrary: j)
    case (0 j)
    note e = eq [OF 0]
    show ?case
    proof (cases j)
      case 0
      with e p(1) q(1) have "b3 inp = b3 inq" by (simp add: chain_parent_def)
      then have "inp = inq" by (rule inj_onD [OF inj]) simp_all
      with 0 e show ?thesis by simp
    next
      case (Suc k)
      with e 0 have "b3 inp = b3 (block_input (?Q k) (ds ! k))"
        by (simp add: chain_parent_Suc hash_block_def p) (simp add: chain_parent_def p)
      then have "inp = block_input (?Q k) (ds ! k)"
        using inj 0 Suc chain_input_mem [of k ds b3 q] by (auto simp: inj_on_def)
      then show ?thesis using ns_input_neq_block_input p(2) by metis
    qed
  next
    case (Suc i j)
    note e = eq [OF Suc.prems]
    show ?case
    proof (cases j)
      case 0
      with e Suc.prems have "b3 (block_input (?P i) (cs ! i)) = b3 inq"
        by (simp add: chain_parent_Suc hash_block_def q) (simp add: chain_parent_def q)
      then have "block_input (?P i) (cs ! i) = inq"
        using inj Suc.prems chain_input_mem [of i cs b3 p] by (auto simp: inj_on_def)
      then show ?thesis using ns_input_neq_block_input q(2) by metis
    next
      case (Suc k)
      with e Suc.prems have "chain_from b3 p cs ! i = chain_from b3 q ds ! k"
        by (simp add: chain_parent_def)
      with Suc.IH [of k] Suc.prems Suc have "i = k \<and> inp = inq \<and> (\<forall>k\<le>i. cs ! k = ds ! k)"
        by simp
      with e Suc show ?thesis by (auto simp: le_Suc_eq)
    qed
  qed
qed

end
