(* ===== verification/Block_Pool.thy ===== *)
theory Block_Pool
  imports Block_Hash
begin

text \<open>
  The refcounted pool of KV blocks with its content index (\<open>vapi-cache/src/pool.rs\<close>).  The record
  has the fields of \<open>BlockPool\<close>; the free list is the intrusive doubly linked list of the source,
  threaded through \<open>prev_link\<close> and \<open>next_link\<close> with the sentinel \<open>NONE = u32::MAX\<close>.
  Every operation that indexes a vector or carries a \<open>debug_assert!\<close> returns an \<open>option\<close>
  (\<open>None\<close> is the panic).

  The theory shows that every operation keeps the structural invariant (the one
  \<open>check_invariants\<close> asserts, strengthened to be inductive), never panics on a legal call, and
  implements an abstract pool in which the free list is a plain list.
\<close>

section \<open>State\<close>

definition NONE :: nat where
  "NONE = 2 ^ 32 - 1"

datatype alloc_error = Exhausted | Watermark nat nat

record prefix_match =
  pm_blocks :: "block_id list"
  pm_tokens :: nat

record pool_stats =
  st_num_blocks :: nat
  st_num_free :: nat
  st_cached_blocks :: nat
  st_hit_tokens :: nat
  st_queried_tokens :: nat
  st_evictions :: nat

record block_pool =
  block_size :: nat
  watermark :: nat
  refcount :: "nat list"
  hash_of :: "block_hash option list"
  by_hash :: "block_hash \<rightharpoonup> block_id"
  prev_link :: "nat list"
  next_link :: "nat list"
  lru_head :: nat
  lru_tail :: nat
  num_free :: nat
  hit_tokens :: nat
  queried_tokens :: nat
  evictions :: nat
  evicted_content :: "(block_hash \<times> block_id) list"
  tracking :: bool

section \<open>LRU plumbing\<close>

definition push_front :: "nat \<Rightarrow> block_pool \<Rightarrow> block_pool option" where
  "push_front i p = do {
     pv \<leftarrow> store (prev_link p) i NONE;
     nx \<leftarrow> store (next_link p) i (lru_head p);
     let p = p\<lparr>prev_link := pv, next_link := nx\<rparr>;
     p \<leftarrow> (if lru_head p \<noteq> NONE then do {
             pv \<leftarrow> store (prev_link p) (lru_head p) i;
             Some (p\<lparr>prev_link := pv\<rparr>) }
           else Some (p\<lparr>lru_tail := i\<rparr>));
     Some (p\<lparr>lru_head := i\<rparr>) }"

definition push_back :: "nat \<Rightarrow> block_pool \<Rightarrow> block_pool option" where
  "push_back i p = do {
     nx \<leftarrow> store (next_link p) i NONE;
     pv \<leftarrow> store (prev_link p) i (lru_tail p);
     let p = p\<lparr>prev_link := pv, next_link := nx\<rparr>;
     p \<leftarrow> (if lru_tail p \<noteq> NONE then do {
             nx \<leftarrow> store (next_link p) (lru_tail p) i;
             Some (p\<lparr>next_link := nx\<rparr>) }
           else Some (p\<lparr>lru_head := i\<rparr>));
     Some (p\<lparr>lru_tail := i\<rparr>) }"

definition unlink :: "nat \<Rightarrow> block_pool \<Rightarrow> block_pool option" where
  "unlink i p = do {
     pr \<leftarrow> index (prev_link p) i;
     n \<leftarrow> index (next_link p) i;
     p \<leftarrow> (if pr \<noteq> NONE then do {
             nx \<leftarrow> store (next_link p) pr n;
             Some (p\<lparr>next_link := nx\<rparr>) }
           else Some (p\<lparr>lru_head := n\<rparr>));
     p \<leftarrow> (if n \<noteq> NONE then do {
             pv \<leftarrow> store (prev_link p) n pr;
             Some (p\<lparr>prev_link := pv\<rparr>) }
           else Some (p\<lparr>lru_tail := pr\<rparr>));
     pv \<leftarrow> store (prev_link p) i NONE;
     nx \<leftarrow> store (next_link p) i NONE;
     Some (p\<lparr>prev_link := pv, next_link := nx\<rparr>) }"

section \<open>Operations\<close>

definition empty_pool :: "nat \<Rightarrow> nat \<Rightarrow> nat \<Rightarrow> block_pool" where
  "empty_pool n bs wm =
     \<lparr>block_size = bs, watermark = min wm n, refcount = replicate n 0,
      hash_of = replicate n None, by_hash = Map.empty, prev_link = replicate n NONE,
      next_link = replicate n NONE, lru_head = NONE, lru_tail = NONE, num_free = 0,
      hit_tokens = 0, queried_tokens = 0, evictions = 0, evicted_content = [], tracking = False\<rparr>"

definition pool_new :: "nat \<Rightarrow> nat \<Rightarrow> nat \<Rightarrow> block_pool option" where
  "pool_new n bs wm = do {
     ensure (bs > 0);
     for_each (\<lambda>i p. do { p \<leftarrow> push_front (u32_of i) p; Some (p\<lparr>num_free := num_free p + 1\<rparr>) })
       (rev [0..<n]) (empty_pool n bs wm) }"

definition num_blocks :: "block_pool \<Rightarrow> nat" where
  "num_blocks p = length (refcount p)"

definition pool_stats_of :: "block_pool \<Rightarrow> pool_stats" where
  "pool_stats_of p =
     \<lparr>st_num_blocks = num_blocks p, st_num_free = num_free p,
      st_cached_blocks = card (dom (by_hash p)), st_hit_tokens = hit_tokens p,
      st_queried_tokens = queried_tokens p, st_evictions = evictions p\<rparr>"

definition blocks_for :: "block_pool \<Rightarrow> nat \<Rightarrow> nat" where
  "blocks_for p toks = div_ceil toks (block_size p)"

definition can_allocate :: "block_pool \<Rightarrow> nat \<Rightarrow> bool" where
  "can_allocate p want = (num_free p \<ge> want + watermark p)"

text \<open>The part of \<open>allocate\<close> that drops the cached content of the block it takes.\<close>

definition evict :: "block_id \<Rightarrow> block_pool \<Rightarrow> block_pool option" where
  "evict i p = do {
     c \<leftarrow> index (hash_of p) i;
     case c of
       None \<Rightarrow> Some p
     | Some h \<Rightarrow> Some (p\<lparr>hash_of := (hash_of p)[i := None], by_hash := (by_hash p)(h := None),
                        evictions := evictions p + 1,
                        evicted_content :=
                          (if tracking p then evicted_content p @ [(h, i)] else evicted_content p)\<rparr>) }"

definition allocate :: "block_pool \<Rightarrow> ((alloc_error + block_id) \<times> block_pool) option" where
  "allocate p =
     (if num_free p = 0 then Some (Inl Exhausted, p)
      else do {
        let i = lru_head p;
        ensure (i \<noteq> NONE);
        p \<leftarrow> unlink i p;
        nf \<leftarrow> checked_sub (num_free p) 1;
        p \<leftarrow> evict i (p\<lparr>num_free := nf\<rparr>);
        rc \<leftarrow> store (refcount p) i 1;
        Some (Inr i, p\<lparr>refcount := rc\<rparr>) })"

definition allocate_guarded :: "block_pool \<Rightarrow> ((alloc_error + block_id) \<times> block_pool) option" where
  "allocate_guarded p =
     (if \<not> can_allocate p 1 then Some (Inl (Watermark 1 (watermark p)), p) else allocate p)"

definition track_evictions :: "bool \<Rightarrow> block_pool \<Rightarrow> block_pool" where
  "track_evictions on p =
     (let p = p\<lparr>tracking := on\<rparr> in if \<not> on then p\<lparr>evicted_content := []\<rparr> else p)"

definition take_evicted :: "block_pool \<Rightarrow> (block_hash \<times> block_id) list \<times> block_pool" where
  "take_evicted p = (evicted_content p, p\<lparr>evicted_content := []\<rparr>)"

definition contains :: "block_pool \<Rightarrow> block_hash \<Rightarrow> bool" where
  "contains p h = (by_hash p h \<noteq> None)"

definition incref :: "block_id \<Rightarrow> block_pool \<Rightarrow> block_pool option" where
  "incref i p = do {
     c \<leftarrow> index (refcount p) i;
     ensure (c > 0);
     rc \<leftarrow> store (refcount p) i (c + 1);
     Some (p\<lparr>refcount := rc\<rparr>) }"

definition free :: "block_id \<Rightarrow> block_pool \<Rightarrow> block_pool option" where
  "free i p = do {
     c \<leftarrow> index (refcount p) i;
     ensure (c > 0);
     rc \<leftarrow> store (refcount p) i (c - 1);
     let p = p\<lparr>refcount := rc\<rparr>;
     if c - 1 = 0 then do {
       h \<leftarrow> index (hash_of p) i;
       p \<leftarrow> (if h \<noteq> None then push_back i p else push_front i p);
       Some (p\<lparr>num_free := num_free p + 1\<rparr>) }
     else Some p }"

definition reference :: "block_id \<Rightarrow> block_pool \<Rightarrow> block_pool option" where
  "reference i p = do {
     c \<leftarrow> index (refcount p) i;
     p \<leftarrow> (if c = 0 then do {
             p \<leftarrow> unlink i p;
             nf \<leftarrow> checked_sub (num_free p) 1;
             Some (p\<lparr>num_free := nf\<rparr>) }
           else Some p);
     c \<leftarrow> index (refcount p) i;
     rc \<leftarrow> store (refcount p) i (c + 1);
     Some (p\<lparr>refcount := rc\<rparr>) }"

text \<open>The part of \<open>publish\<close> in which this block becomes the canonical one.\<close>

definition publish_own :: "block_id \<Rightarrow> block_hash \<Rightarrow> block_pool \<Rightarrow> block_pool option" where
  "publish_own i h p = do {
     stale \<leftarrow> index (hash_of p) i;
     let p = p\<lparr>hash_of := (hash_of p)[i := Some h]\<rparr>;
     let p = (case stale of
                Some g \<Rightarrow> if g \<noteq> h then p\<lparr>by_hash := (by_hash p)(g := None)\<rparr> else p
              | None \<Rightarrow> p);
     Some (p\<lparr>by_hash := (by_hash p)(h \<mapsto> i)\<rparr>) }"

definition publish :: "block_id \<Rightarrow> block_hash \<Rightarrow> block_pool \<Rightarrow> (block_id \<times> block_pool) option" where
  "publish i h p =
     (case by_hash p h of
        Some existing \<Rightarrow>
          if existing \<noteq> i then map_option (\<lambda>p. (existing, p)) (reference existing p)
          else map_option (\<lambda>p. (i, p)) (publish_own i h p)
      | None \<Rightarrow> map_option (\<lambda>p. (i, p)) (publish_own i h p))"

definition lookup :: "block_hash \<Rightarrow> block_pool \<Rightarrow> (block_id option \<times> block_pool) option" where
  "lookup h p =
     (case by_hash p h of
        None \<Rightarrow> Some (None, p)
      | Some i \<Rightarrow> map_option (\<lambda>p. (Some i, p)) (reference i p))"

fun match_blocks :: "block_hash list \<Rightarrow> block_pool \<Rightarrow> (block_id list \<times> block_pool) option" where
  "match_blocks [] p = Some ([], p)"
| "match_blocks (h # hs) p = do {
     (r, p) \<leftarrow> lookup h p;
     case r of
       None \<Rightarrow> Some ([], p)
     | Some i \<Rightarrow> do { (is, p) \<leftarrow> match_blocks hs p; Some (i # is, p) } }"

definition match_prefix :: "block_hash list \<Rightarrow> block_pool \<Rightarrow> (prefix_match \<times> block_pool) option" where
  "match_prefix hs p = do {
     let p = p\<lparr>queried_tokens := queried_tokens p + length hs * block_size p\<rparr>;
     (blocks, p) \<leftarrow> match_blocks hs p;
     let p = p\<lparr>hit_tokens := hit_tokens p + length blocks * block_size p\<rparr>;
     Some (\<lparr>pm_blocks = blocks, pm_tokens = length blocks * block_size p\<rparr>, p) }"

definition free_all :: "block_id list \<Rightarrow> block_pool \<Rightarrow> block_pool option" where
  "free_all bs p = for_each free bs p"

section \<open>check\_invariants\<close>

text \<open>
  The walk over the free list: the blocks seen so far, the last one and the count; \<open>None\<close> when one
  of its assertions fails.  The walk visits each block at most once before the first assertion
  fails, so \<open>num_blocks\<close> steps and one for the end of the list are always enough fuel.
\<close>

fun ci_walk :: "nat \<Rightarrow> block_pool \<Rightarrow> nat \<Rightarrow> nat \<Rightarrow> nat list \<Rightarrow> (nat list \<times> nat) option" where
  "ci_walk 0 p cur lst seen = None"
| "ci_walk (Suc fuel) p cur lst seen =
     (if cur = NONE then Some (seen, lst)
      else do {
        ensure (cur \<notin> set seen);
        ensure (cur < num_blocks p);
        rc \<leftarrow> index (refcount p) cur;
        ensure (rc = 0);
        pv \<leftarrow> index (prev_link p) cur;
        ensure (pv = lst);
        nx \<leftarrow> index (next_link p) cur;
        ci_walk fuel p nx cur (cur # seen) })"

definition check_invariants :: "block_pool \<Rightarrow> bool" where
  "check_invariants p =
     (case ci_walk (Suc (num_blocks p)) p (lru_head p) NONE [] of
        None \<Rightarrow> False
      | Some (seen, lst) \<Rightarrow>
          lru_tail p = lst \<and> length seen = num_free p \<and>
          (\<forall>i < num_blocks p. (refcount p ! i = 0) = (i \<in> set seen)) \<and>
          (\<forall>h i. by_hash p h = Some i \<longrightarrow> i < length (hash_of p) \<and> hash_of p ! i = Some h) \<and>
          length (filter (\<lambda>h. h \<noteq> None) (hash_of p)) = card (dom (by_hash p)))"

section \<open>Doubly linked lists in two vectors\<close>

text \<open>
  \<open>dlist nx pv l xs r\<close>: following \<open>nx\<close> visits the blocks \<open>xs\<close> and ends at \<open>r\<close>; following
  \<open>pv\<close> visits them backwards and ends at \<open>l\<close>.
\<close>

definition first_or :: "nat \<Rightarrow> nat list \<Rightarrow> nat" where
  "first_or d xs = (case xs of [] \<Rightarrow> d | x # _ \<Rightarrow> x)"

definition last_or :: "nat \<Rightarrow> nat list \<Rightarrow> nat" where
  "last_or d xs = (if xs = [] then d else last xs)"

fun dlist :: "nat list \<Rightarrow> nat list \<Rightarrow> nat \<Rightarrow> nat list \<Rightarrow> nat \<Rightarrow> bool" where
  "dlist nx pv l [] r = True"
| "dlist nx pv l (x # xs) r = (pv ! x = l \<and> nx ! x = first_or r xs \<and> dlist nx pv x xs r)"

lemma first_or_simps [simp]: "first_or d [] = d" "first_or d (x # xs) = x"
  "first_or d (xs @ ys) = first_or (first_or d ys) xs"
  by (auto simp: first_or_def split: list.splits)

lemma last_or_simps [simp]: "last_or d [] = d" "last_or d (x # xs) = last_or x xs"
  "last_or d (xs @ ys) = last_or (last_or d xs) ys"
  by (auto simp: last_or_def)

lemma first_or_mem: "xs \<noteq> [] \<Longrightarrow> first_or d xs \<in> set xs"
  by (cases xs) auto

lemma last_or_mem: "xs \<noteq> [] \<Longrightarrow> last_or d xs \<in> set xs"
  by (simp add: last_or_def)

lemma first_or_eq_iff: "d \<notin> set xs \<Longrightarrow> first_or d xs = d \<longleftrightarrow> xs = []"
  using first_or_mem [of xs d] by (cases xs) auto

lemma last_or_eq_iff: "d \<notin> set xs \<Longrightarrow> last_or d xs = d \<longleftrightarrow> xs = []"
  using last_or_mem [of xs d] by (cases xs) auto

lemma dlist_append [simp]:
  "dlist nx pv l (xs @ ys) r \<longleftrightarrow> dlist nx pv l xs (first_or r ys) \<and> dlist nx pv (last_or l xs) ys r"
  by (induction xs arbitrary: l) auto

lemma dlist_upd_next [simp]: "i \<notin> set xs \<Longrightarrow> dlist (nx[i := v]) pv l xs r = dlist nx pv l xs r"
  by (induction xs arbitrary: l) auto

lemma dlist_upd_prev [simp]: "i \<notin> set xs \<Longrightarrow> dlist nx (pv[i := v]) l xs r = dlist nx pv l xs r"
  by (induction xs arbitrary: l) auto

lemma dlist_relink_next:
  assumes "dlist nx pv l xs r" "distinct xs" "xs \<noteq> []" "set xs \<subseteq> {..<length nx}"
  shows "dlist (nx[last_or d xs := r']) pv l xs r'"
  using assms
proof (induction xs arbitrary: l d)
  case (Cons x xs)
  show ?case
  proof (cases "xs = []")
    case True
    with Cons.prems show ?thesis by simp
  next
    case False
    then have "last_or x xs \<in> set xs" by (rule last_or_mem)
    with Cons.prems have "x \<noteq> last_or x xs" by auto
    moreover have "dlist (nx[last_or x xs := r']) pv x xs r'"
      using Cons False by simp
    moreover have "first_or r xs = first_or r' xs" using False by (cases xs) auto
    ultimately show ?thesis using Cons.prems by simp
  qed
qed simp

lemma dlist_relink_prev:
  assumes "dlist nx pv l xs r" "distinct xs" "xs \<noteq> []" "set xs \<subseteq> {..<length pv}"
  shows "dlist nx (pv[first_or d xs := l']) l' xs r"
  using assms by (cases xs) auto

section \<open>The free list\<close>

text \<open>What the plumbing maintains, and what it leaves alone.\<close>

definition lru :: "block_pool \<Rightarrow> nat list \<Rightarrow> bool" where
  "lru p xs \<longleftrightarrow>
     lru_head p = first_or NONE xs \<and> lru_tail p = last_or NONE xs \<and>
     dlist (next_link p) (prev_link p) NONE xs NONE \<and> distinct xs \<and>
     set xs \<subseteq> {..<num_blocks p}"

definition links_len :: "block_pool \<Rightarrow> bool" where
  "links_len p \<longleftrightarrow> length (prev_link p) = num_blocks p \<and> length (next_link p) = num_blocks p \<and>
     num_blocks p \<le> NONE"

definition same_but_links :: "block_pool \<Rightarrow> block_pool \<Rightarrow> bool" where
  "same_but_links p q \<longleftrightarrow>
     q = p\<lparr>prev_link := prev_link q, next_link := next_link q, lru_head := lru_head q,
           lru_tail := lru_tail q\<rparr>"

lemma same_but_links_sel:
  assumes "same_but_links p q"
  shows "block_size q = block_size p" "watermark q = watermark p" "refcount q = refcount p"
    "hash_of q = hash_of p" "by_hash q = by_hash p" "num_free q = num_free p"
    "hit_tokens q = hit_tokens p" "queried_tokens q = queried_tokens p" "evictions q = evictions p"
    "evicted_content q = evicted_content p" "tracking q = tracking p" "num_blocks q = num_blocks p"
proof -
  have eq: "q = p\<lparr>prev_link := prev_link q, next_link := next_link q, lru_head := lru_head q,
           lru_tail := lru_tail q\<rparr>" using assms by (simp add: same_but_links_def)
  show "block_size q = block_size p" "watermark q = watermark p" "refcount q = refcount p"
    "hash_of q = hash_of p" "by_hash q = by_hash p" "num_free q = num_free p"
    "hit_tokens q = hit_tokens p" "queried_tokens q = queried_tokens p" "evictions q = evictions p"
    "evicted_content q = evicted_content p" "tracking q = tracking p" "num_blocks q = num_blocks p"
    by (subst eq; simp add: num_blocks_def)+
qed

lemma NONE_notin: "set xs \<subseteq> {..<n} \<Longrightarrow> n \<le> NONE \<Longrightarrow> NONE \<notin> set xs"
  by (auto simp: subset_iff)

lemma push_front_lru:
  assumes "lru p xs" "links_len p" "i < num_blocks p" "i \<notin> set xs"
  shows "\<exists>q. push_front i p = Some q \<and> lru q (i # xs) \<and> links_len q \<and> same_but_links p q"
proof (cases "xs = []")
  case True
  then show ?thesis
    using assms by (simp add: push_front_def lru_def links_len_def same_but_links_def num_blocks_def
        run_simps)
next
  case False
  then have mem: "first_or NONE xs \<in> set xs" by (rule first_or_mem)
  have "first_or NONE xs \<noteq> NONE"
    using assms mem by (metis NONE_notin lru_def links_len_def)
  moreover have "dlist (next_link p) ((prev_link p)[i := NONE, first_or NONE xs := i]) i xs NONE"
    using assms False by (intro dlist_relink_prev) (auto simp: lru_def links_len_def)
  moreover have "first_or NONE xs < num_blocks p" "first_or NONE xs \<noteq> i"
    using assms mem by (auto simp: lru_def)
  ultimately show ?thesis
    using assms False
    by (simp add: push_front_def lru_def links_len_def same_but_links_def num_blocks_def run_simps
        nth_list_update last_or_def)
qed

lemma push_back_lru:
  assumes "lru p xs" "links_len p" "i < num_blocks p" "i \<notin> set xs"
  shows "\<exists>q. push_back i p = Some q \<and> lru q (xs @ [i]) \<and> links_len q \<and> same_but_links p q"
proof (cases "xs = []")
  case True
  then show ?thesis
    using assms by (simp add: push_back_def lru_def links_len_def same_but_links_def num_blocks_def
        run_simps)
next
  case False
  then have mem: "last_or NONE xs \<in> set xs" by (rule last_or_mem)
  have "last_or NONE xs \<noteq> NONE"
    using assms mem by (metis NONE_notin lru_def links_len_def)
  moreover have "dlist ((next_link p)[i := NONE, last_or NONE xs := i]) (prev_link p) NONE xs i"
    using assms False by (intro dlist_relink_next) (auto simp: lru_def links_len_def)
  moreover have "last_or NONE xs < num_blocks p" "last_or NONE xs \<noteq> i"
    using assms mem by (auto simp: lru_def)
  ultimately show ?thesis
    using assms False
    by (simp add: push_back_def lru_def links_len_def same_but_links_def num_blocks_def run_simps
        nth_list_update first_or_def neq_Nil_conv split: list.splits)
qed

lemma unlink_lru:
  assumes "lru p (ys @ i # zs)" "links_len p"
  shows "\<exists>q. unlink i p = Some q \<and> lru q (ys @ zs) \<and> links_len q \<and> same_but_links p q"
proof -
  let ?l = "last_or NONE ys" and ?r = "first_or NONE zs"
  let ?nx = "if ys = [] then next_link p else (next_link p)[?l := ?r]"
  let ?pv = "if zs = [] then prev_link p else (prev_link p)[?r := ?l]"
  from assms have d: "dlist (next_link p) (prev_link p) NONE ys i"
      "prev_link p ! i = ?l" "next_link p ! i = ?r" "dlist (next_link p) (prev_link p) i zs NONE"
    and dist: "distinct ys" "distinct zs" "i \<notin> set ys" "i \<notin> set zs" "set ys \<inter> set zs = {}"
    and sub: "set ys \<subseteq> {..<num_blocks p}" "i < num_blocks p" "set zs \<subseteq> {..<num_blocks p}"
    and len: "length (next_link p) = num_blocks p" "length (prev_link p) = num_blocks p"
    and N: "NONE \<notin> set ys" "NONE \<notin> set zs"
    by (auto simp: lru_def links_len_def)
  have l: "?l \<in> set ys" "?l \<notin> set zs" if "ys \<noteq> []"
    using last_or_mem [OF that] dist(5) by auto
  have r: "?r \<in> set zs" "?r \<notin> set ys" if "zs \<noteq> []"
    using first_or_mem [OF that] dist(5) by auto
  have "dlist ?nx (prev_link p) NONE ys ?r"
    using dist sub len by (cases "ys = []") (simp_all add: dlist_relink_next [OF d(1)])
  then have dy: "dlist (?nx[i := NONE]) (?pv[i := NONE]) NONE ys ?r"
    using dist r by auto
  have "dlist (next_link p) ?pv ?l zs NONE"
    using d(4) dist sub len by (cases "zs = []") (simp_all add: dlist_relink_prev [OF d(4)])
  then have dz: "dlist (?nx[i := NONE]) (?pv[i := NONE]) ?l zs NONE"
    using dist l by auto
  have "?l = NONE \<longleftrightarrow> ys = []" "?r = NONE \<longleftrightarrow> zs = []"
    using N by (simp_all add: last_or_eq_iff first_or_eq_iff)
  then have "unlink i p = Some (p\<lparr>prev_link := ?pv[i := NONE], next_link := ?nx[i := NONE],
      lru_head := if ys = [] then ?r else lru_head p, lru_tail := if zs = [] then ?l else lru_tail p\<rparr>)"
    using d sub len l r by (auto simp: unlink_def run_simps subset_iff)
  moreover have "lru_head p = first_or i ys" "lru_tail p = last_or i zs"
    using assms(1) by (simp_all add: lru_def)
  ultimately show ?thesis
    using assms dy dz dist sub len
    by (auto simp: lru_def links_len_def same_but_links_def num_blocks_def first_or_def last_or_def
        split: list.splits)
qed

section \<open>The invariant\<close>

definition rc :: "block_pool \<Rightarrow> block_id \<Rightarrow> nat" where
  "rc p i = (if i < num_blocks p then refcount p ! i else 0)"

definition content :: "block_pool \<Rightarrow> block_id \<Rightarrow> block_hash option" where
  "content p i = (if i < num_blocks p then hash_of p ! i else None)"

definition unreferenced :: "block_pool \<Rightarrow> block_id set" where
  "unreferenced p = {i. i < num_blocks p \<and> rc p i = 0}"

definition pool_ok :: "block_pool \<Rightarrow> nat list \<Rightarrow> bool" where
  "pool_ok p xs \<longleftrightarrow>
     links_len p \<and> length (hash_of p) = num_blocks p \<and> 0 < block_size p \<and>
     lru p xs \<and> set xs = unreferenced p \<and> num_free p = length xs \<and>
     (\<forall>h i. by_hash p h = Some i \<longleftrightarrow> content p i = Some h)"

definition pool_inv :: "block_pool \<Rightarrow> bool" where
  "pool_inv p \<longleftrightarrow> (\<exists>xs. pool_ok p xs)"

lemma rc_pos_less: "0 < rc p i \<Longrightarrow> i < num_blocks p"
  by (auto simp: rc_def split: if_splits)

lemma content_Some_less: "content p i = Some h \<Longrightarrow> i < num_blocks p"
  by (auto simp: content_def split: if_splits)

lemma unreferenced_iff: "i \<in> unreferenced p \<longleftrightarrow> i < num_blocks p \<and> rc p i = 0"
  by (simp add: unreferenced_def)

lemma pool_ok_by_hash: "pool_ok p xs \<Longrightarrow> by_hash p h = Some i \<longleftrightarrow> content p i = Some h"
  by (simp add: pool_ok_def)

lemma pool_ok_by_hash_None: "pool_ok p xs \<Longrightarrow> by_hash p h = None \<longleftrightarrow> (\<forall>i. content p i \<noteq> Some h)"
  by (metis not_Some_eq pool_ok_by_hash)

lemma pool_ok_distinct: "pool_ok p xs \<Longrightarrow> distinct xs"
  by (simp add: pool_ok_def lru_def)

text \<open>Counters and the eviction log do not show in the views.\<close>

lemma counters_num_blocks [simp]:
  "num_blocks (p\<lparr>num_free := x\<rparr>) = num_blocks p"
  "num_blocks (p\<lparr>queried_tokens := x\<rparr>) = num_blocks p"
  "num_blocks (p\<lparr>hit_tokens := x\<rparr>) = num_blocks p"
  "num_blocks (p\<lparr>evicted_content := ev\<rparr>) = num_blocks p"
  "num_blocks (p\<lparr>tracking := on\<rparr>) = num_blocks p"
  "num_blocks (p\<lparr>hash_of := hs\<rparr>) = num_blocks p"
  "num_blocks (p\<lparr>by_hash := m\<rparr>) = num_blocks p"
  by (simp_all add: num_blocks_def)

lemma counters_rc [simp]:
  "rc (p\<lparr>num_free := x\<rparr>) = rc p"
  "rc (p\<lparr>queried_tokens := x\<rparr>) = rc p"
  "rc (p\<lparr>hit_tokens := x\<rparr>) = rc p"
  "rc (p\<lparr>evicted_content := ev\<rparr>) = rc p"
  "rc (p\<lparr>tracking := on\<rparr>) = rc p"
  "rc (p\<lparr>hash_of := hs\<rparr>) = rc p"
  "rc (p\<lparr>by_hash := m\<rparr>) = rc p"
  by (simp_all add: rc_def fun_eq_iff)

lemma counters_content [simp]:
  "content (p\<lparr>num_free := x\<rparr>) = content p"
  "content (p\<lparr>queried_tokens := x\<rparr>) = content p"
  "content (p\<lparr>hit_tokens := x\<rparr>) = content p"
  "content (p\<lparr>evicted_content := ev\<rparr>) = content p"
  "content (p\<lparr>tracking := on\<rparr>) = content p"
  "content (p\<lparr>by_hash := m\<rparr>) = content p"
  by (simp_all add: content_def fun_eq_iff)

lemma content_refcount_upd:
  "length r = num_blocks p \<Longrightarrow> content (p\<lparr>refcount := r\<rparr>) = content p"
  by (simp add: content_def num_blocks_def fun_eq_iff)

lemma rc_refcount_upd:
  "i < num_blocks p \<Longrightarrow> rc (p\<lparr>refcount := (refcount p)[i := c]\<rparr>) = (rc p)(i := c)"
  by (auto simp: rc_def num_blocks_def fun_eq_iff nth_list_update)

text \<open>Fields that a change of the links cannot touch.\<close>

lemma same_but_links_view:
  assumes "same_but_links p q"
  shows "rc q = rc p" "content q = content p" "unreferenced q = unreferenced p"
  using same_but_links_sel [OF assms]
  by (auto simp: rc_def content_def unreferenced_def fun_eq_iff)

text \<open>What no operation on blocks changes.\<close>

definition same_geometry :: "block_pool \<Rightarrow> block_pool \<Rightarrow> bool" where
  "same_geometry p q \<longleftrightarrow>
     num_blocks q = num_blocks p \<and> block_size q = block_size p \<and> watermark q = watermark p \<and>
     tracking q = tracking p"

lemma same_geometry_refl [simp]: "same_geometry p p"
  by (simp add: same_geometry_def)

lemma same_geometry_trans [trans]: "same_geometry p q \<Longrightarrow> same_geometry q r \<Longrightarrow> same_geometry p r"
  by (simp add: same_geometry_def)

section \<open>Every operation keeps the invariant and does not panic\<close>

lemma pool_new_loop:
  "k \<le> n \<Longrightarrow> lru p [k..<n] \<Longrightarrow> links_len p \<Longrightarrow> num_blocks p = n \<Longrightarrow>
   \<exists>q. for_each (\<lambda>i p. do { p \<leftarrow> push_front (u32_of i) p; Some (p\<lparr>num_free := num_free p + 1\<rparr>) })
         (rev [0..<k]) p = Some q
     \<and> lru q [0..<n] \<and> links_len q
     \<and> q = p\<lparr>prev_link := prev_link q, next_link := next_link q, lru_head := lru_head q,
             lru_tail := lru_tail q, num_free := num_free p + k\<rparr>"
proof (induction k arbitrary: p)
  case 0
  then show ?case by simp
next
  case (Suc k)
  have k: "u32_of k = k" using Suc.prems by (simp add: links_len_def NONE_def)
  have "lru p [Suc k..<n]" "k < num_blocks p" using Suc.prems by auto
  then obtain p1 where p1: "push_front k p = Some p1" "lru p1 (k # [Suc k..<n])" "links_len p1"
      "same_but_links p p1"
    using push_front_lru [of p "[Suc k..<n]" k] Suc.prems by auto
  let ?p2 = "p1\<lparr>num_free := num_free p1 + 1\<rparr>"
  have nb: "num_blocks p1 = n" "num_free p1 = num_free p"
    using same_but_links_sel [OF p1(4)] Suc.prems by auto
  have "lru ?p2 [k..<n]" "links_len ?p2" "num_blocks ?p2 = n"
    using p1 nb Suc.prems by (simp_all add: lru_def links_len_def num_blocks_def upt_conv_Cons)
  from Suc.IH [OF _ this] obtain q where q:
      "for_each (\<lambda>i p. do { p \<leftarrow> push_front (u32_of i) p; Some (p\<lparr>num_free := num_free p + 1\<rparr>) })
         (rev [0..<k]) ?p2 = Some q" "lru q [0..<n]" "links_len q"
      "q = ?p2\<lparr>prev_link := prev_link q, next_link := next_link q, lru_head := lru_head q,
             lru_tail := lru_tail q, num_free := num_free ?p2 + k\<rparr>"
    using Suc.prems(1) by auto
  have "q = p\<lparr>prev_link := prev_link q, next_link := next_link q, lru_head := lru_head q,
             lru_tail := lru_tail q, num_free := num_free p + Suc k\<rparr>"
    using p1(4) nb(2) by (subst q(4)) (cases p; cases p1; simp add: same_but_links_def)
  with q p1 k show ?case by auto
qed

lemma pool_new_ok:
  assumes "0 < bs" "n \<le> NONE"
  shows "\<exists>p. pool_new n bs wm = Some p \<and> pool_ok p [0..<n] \<and> rc p = (\<lambda>_. 0) \<and> content p = (\<lambda>_. None)
      \<and> num_blocks p = n \<and> block_size p = bs \<and> watermark p = min wm n \<and> \<not> tracking p
      \<and> evicted_content p = []"
proof -
  let ?e = "empty_pool n bs wm"
  have "lru ?e [n..<n]" "links_len ?e" "num_blocks ?e = n"
    using assms by (simp_all add: lru_def links_len_def empty_pool_def num_blocks_def)
  from pool_new_loop [OF order_refl this] obtain q where q:
      "pool_new n bs wm = Some q" "lru q [0..<n]" "links_len q"
      "q = ?e\<lparr>prev_link := prev_link q, next_link := next_link q, lru_head := lru_head q,
             lru_tail := lru_tail q, num_free := num_free ?e + n\<rparr>"
    using assms(1) by (auto simp: pool_new_def run_simps)
  have sel: "refcount q = replicate n 0" "hash_of q = replicate n None" "by_hash q = Map.empty"
      "num_free q = n" "block_size q = bs" "watermark q = min wm n" "tracking q = False"
      "evicted_content q = []"
    by (subst q(4); simp add: empty_pool_def)+
  then have views: "num_blocks q = n" "rc q = (\<lambda>_. 0)" "content q = (\<lambda>_. None)"
    by (auto simp: num_blocks_def rc_def content_def fun_eq_iff)
  with q sel assms show ?thesis
    by (auto simp: pool_ok_def unreferenced_def)
qed

lemma allocate_empty: "pool_ok p [] \<Longrightarrow> allocate p = Some (Inl Exhausted, p)"
  by (simp add: allocate_def pool_ok_def)

text \<open>The content recorded for the spill tier when a block is taken.\<close>

definition evicted_entry :: "block_pool \<Rightarrow> block_id \<Rightarrow> (block_hash \<times> block_id) list" where
  "evicted_entry p i =
     (case content p i of Some h \<Rightarrow> if tracking p then [(h, i)] else [] | None \<Rightarrow> [])"

lemma evict_ok:
  assumes "i < num_blocks p" "length (hash_of p) = num_blocks p"
    "\<forall>h j. by_hash p h = Some j \<longleftrightarrow> content p j = Some h"
  shows "\<exists>q. evict i p = Some q \<and> content q = (content p)(i := None) \<and>
      (\<forall>h j. by_hash q h = Some j \<longleftrightarrow> content q j = Some h) \<and>
      evicted_content q = evicted_content p @ evicted_entry p i \<and>
      evictions q = evictions p + (if content p i = None then 0 else 1) \<and>
      length (hash_of q) = num_blocks q \<and>
      q = p\<lparr>hash_of := hash_of q, by_hash := by_hash q, evictions := evictions q,
             evicted_content := evicted_content q\<rparr>"
proof (cases "hash_of p ! i")
  case None
  then show ?thesis
    using assms by (auto simp: evict_def run_simps content_def evicted_entry_def)
next
  case (Some h)
  then have c: "content p i = Some h" using assms by (simp add: content_def)
  let ?q = "p\<lparr>hash_of := (hash_of p)[i := None], by_hash := (by_hash p)(h := None),
     evictions := evictions p + 1,
     evicted_content := (if tracking p then evicted_content p @ [(h, i)] else evicted_content p)\<rparr>"
  have "evict i p = Some ?q" using assms Some by (simp add: evict_def run_simps)
  moreover have cq: "content ?q = (content p)(i := None)"
    using assms by (auto simp: content_def num_blocks_def fun_eq_iff)
  moreover have "\<forall>g j. by_hash ?q g = Some j \<longleftrightarrow> content ?q j = Some g"
    unfolding cq using assms(3) c by (auto split: if_splits) (metis option.inject)
  ultimately show ?thesis
    using c assms by (auto simp: evicted_entry_def num_blocks_def)
qed

lemma allocate_ok:
  assumes "pool_ok p (i # xs)"
  shows "\<exists>q. allocate p = Some (Inr i, q) \<and> pool_ok q xs \<and> rc q = (rc p)(i := 1) \<and>
      content q = (content p)(i := None) \<and> same_geometry p q \<and>
      evicted_content q = evicted_content p @ evicted_entry p i \<and>
      evictions q = evictions p + (if content p i = None then 0 else 1)"
proof -
  from assms have p: "lru p ([] @ i # xs)" "links_len p" "lru_head p = i" "i < num_blocks p"
      "rc p i = 0" "num_free p = Suc (length xs)" "length (hash_of p) = num_blocks p"
    by (auto simp: pool_ok_def lru_def unreferenced_def)
  then have iN: "i \<noteq> NONE" by (simp add: links_len_def)
  from unlink_lru [OF p(1,2)] obtain p1 where p1: "unlink i p = Some p1" "lru p1 xs" "links_len p1"
      "same_but_links p p1" by auto
  let ?p2 = "p1\<lparr>num_free := length xs\<rparr>"
  note s1 = same_but_links_sel [OF p1(4)] same_but_links_view [OF p1(4)]
  have v2: "content ?p2 = content p" "num_blocks ?p2 = num_blocks p" "rc ?p2 = rc p"
      "evicted_entry ?p2 i = evicted_entry p i"
    using s1 by (auto simp: content_def num_blocks_def rc_def fun_eq_iff evicted_entry_def
        split: option.splits)
  have "i < num_blocks ?p2" "length (hash_of ?p2) = num_blocks ?p2"
      "\<forall>h j. by_hash ?p2 h = Some j \<longleftrightarrow> content ?p2 j = Some h"
    using p s1 v2 assms by (auto simp: pool_ok_def)
  from evict_ok [OF this] obtain p3 where p3: "evict i ?p2 = Some p3"
      "content p3 = (content ?p2)(i := None)"
      "\<forall>h j. by_hash p3 h = Some j \<longleftrightarrow> content p3 j = Some h"
      "evicted_content p3 = evicted_content ?p2 @ evicted_entry ?p2 i"
      "evictions p3 = evictions ?p2 + (if content ?p2 i = None then 0 else 1)"
      "length (hash_of p3) = num_blocks p3"
      "p3 = ?p2\<lparr>hash_of := hash_of p3, by_hash := by_hash p3, evictions := evictions p3,
             evicted_content := evicted_content p3\<rparr>"
    by blast
  have sel3: "refcount p3 = refcount p" "num_free p3 = length xs" "lru p3 xs" "links_len p3"
      "block_size p3 = block_size p" "watermark p3 = watermark p" "tracking p3 = tracking p"
      "num_blocks p3 = num_blocks p"
    using p1(2,3) s1 by (subst p3(7); simp add: num_blocks_def lru_def links_len_def)+
  let ?q = "p3\<lparr>refcount := (refcount p3)[i := 1]\<rparr>"
  have "allocate p = Some (Inr i, ?q)"
    using p p1(1) p3(1) s1 sel3 iN by (simp add: allocate_def run_simps num_blocks_def)
  moreover have rcq: "rc ?q = (rc p)(i := 1)"
    using sel3 p(4) by (auto simp: rc_def num_blocks_def fun_eq_iff nth_list_update)
  moreover have "content ?q = content p3"
    by (auto simp: content_def num_blocks_def fun_eq_iff)
  moreover from this have cq: "content ?q = (content p)(i := None)"
    using p3(2) v2 by simp
  moreover have "same_geometry p ?q"
    using sel3 by (simp add: same_geometry_def num_blocks_def)
  moreover have "pool_ok ?q xs"
  proof -
    have "set xs = unreferenced p - {i}"
      using assms by (auto simp: pool_ok_def lru_def)
    then have "set xs = unreferenced ?q" using rcq sel3 by (auto simp: unreferenced_def num_blocks_def)
    moreover have "links_len ?q" "lru ?q xs"
      using sel3 by (simp_all add: lru_def links_len_def num_blocks_def)
    moreover have "\<forall>h j. by_hash ?q h = Some j \<longleftrightarrow> content ?q j = Some h"
      using p3(2,3) cq v2 by simp
    moreover have "0 < block_size ?q" "num_free ?q = length xs" "length (hash_of ?q) = num_blocks ?q"
      using sel3 p3(6) assms by (simp_all add: pool_ok_def num_blocks_def)
    ultimately show ?thesis unfolding pool_ok_def by blast
  qed
  ultimately show ?thesis
    using p3(4,5) v2 s1 by simp
qed

text \<open>Changing reference counts without touching the free list.\<close>

lemma pool_ok_refcount:
  assumes "pool_ok p xs" "i < num_blocks p" "0 < rc p i" "0 < c"
  shows "pool_ok (p\<lparr>refcount := (refcount p)[i := c]\<rparr>) xs"
proof -
  let ?q = "p\<lparr>refcount := (refcount p)[i := c]\<rparr>"
  have "rc ?q = (rc p)(i := c)" "num_blocks ?q = num_blocks p" "content ?q = content p"
    using assms(2) by (simp_all add: rc_refcount_upd content_refcount_upd num_blocks_def)
  then show ?thesis
    using assms by (auto simp: pool_ok_def links_len_def lru_def unreferenced_def)
qed

lemma incref_ok:
  assumes "pool_ok p xs" "0 < rc p i"
  shows "\<exists>q. incref i p = Some q \<and> pool_ok q xs \<and> rc q = (rc p)(i := rc p i + 1) \<and>
      content q = content p \<and> same_geometry p q \<and> evicted_content q = evicted_content p"
proof -
  have i: "i < num_blocks p" using assms(2) by (rule rc_pos_less)
  let ?q = "p\<lparr>refcount := (refcount p)[i := rc p i + 1]\<rparr>"
  have "incref i p = Some ?q"
    using i assms(2) by (simp add: incref_def run_simps num_blocks_def rc_def)
  with pool_ok_refcount [OF assms(1) i assms(2), of "rc p i + 1"] i show ?thesis
    by (simp add: rc_refcount_upd content_refcount_upd same_geometry_def num_blocks_def)
qed

lemma free_shared_ok:
  assumes "pool_ok p xs" "1 < rc p i"
  shows "\<exists>q. free i p = Some q \<and> pool_ok q xs \<and> rc q = (rc p)(i := rc p i - 1) \<and>
      content q = content p \<and> same_geometry p q \<and> evicted_content q = evicted_content p"
proof -
  have i: "i < num_blocks p" using assms(2) by (simp add: rc_pos_less)
  let ?q = "p\<lparr>refcount := (refcount p)[i := rc p i - 1]\<rparr>"
  have "free i p = Some ?q"
    using i assms(2) by (simp add: free_def run_simps num_blocks_def rc_def Let_def)
  with pool_ok_refcount [OF assms(1) i, of "rc p i - 1"] i assms(2) show ?thesis
    by (simp add: rc_refcount_upd content_refcount_upd same_geometry_def num_blocks_def)
qed

lemma free_last_ok:
  assumes "pool_ok p xs" "rc p i = 1"
  shows "\<exists>q. free i p = Some q \<and> pool_ok q (if content p i = None then i # xs else xs @ [i]) \<and>
      rc q = (rc p)(i := 0) \<and> content q = content p \<and> same_geometry p q \<and>
      evicted_content q = evicted_content p"
proof -
  let ?ys = "if content p i = None then i # xs else xs @ [i]"
  have i: "i < num_blocks p" using assms(2) by (simp add: rc_pos_less)
  have ni: "i \<notin> set xs" using assms by (simp add: pool_ok_def unreferenced_def)
  let ?p1 = "p\<lparr>refcount := (refcount p)[i := 0]\<rparr>"
  have v1: "rc ?p1 = (rc p)(i := 0)" "num_blocks ?p1 = num_blocks p" "content ?p1 = content p"
    using i by (simp_all add: rc_refcount_upd content_refcount_upd num_blocks_def)
  have l1: "lru ?p1 xs" "links_len ?p1"
    using assms(1) v1 by (auto simp: pool_ok_def lru_def links_len_def)
  obtain p2 where p2: "(if content p i \<noteq> None then push_back i ?p1 else push_front i ?p1) = Some p2"
      "lru p2 ?ys" "links_len p2" "same_but_links ?p1 p2"
    using push_back_lru [OF l1] push_front_lru [OF l1] i ni v1(2) by (cases "content p i") auto
  note s2 = same_but_links_sel [OF p2(4)] same_but_links_view [OF p2(4)]
  let ?q = "p2\<lparr>num_free := num_free p2 + 1\<rparr>"
  have "hash_of p ! i = content p i" "length (hash_of p) = num_blocks p" "refcount p ! i = 1"
    using i assms by (simp_all add: content_def pool_ok_def rc_def)
  then have "free i p = Some ?q"
    using i p2(1) by (cases "content p i")
      (simp_all add: free_def run_simps num_blocks_def Let_def)
  moreover have "set ?ys = unreferenced ?q"
  proof -
    have "set ?ys = insert i (unreferenced p)" using assms(1) by (auto simp: pool_ok_def)
    then show ?thesis using s2 v1 i by (auto simp: unreferenced_def)
  qed
  ultimately show ?thesis
    using p2 s2 v1 assms(1)
    by (auto simp: pool_ok_def same_geometry_def lru_def links_len_def)
qed

lemma reference_ok:
  assumes "pool_ok p xs" "i < num_blocks p"
  shows "\<exists>q. reference i p = Some q \<and> pool_ok q (filter (\<lambda>j. j \<noteq> i) xs) \<and>
      rc q = (rc p)(i := rc p i + 1) \<and> content q = content p \<and> same_geometry p q \<and>
      evicted_content q = evicted_content p"
proof (cases "rc p i = 0")
  case False
  then have "i \<notin> set xs" using assms by (simp add: pool_ok_def unreferenced_def)
  moreover have "reference i p = Some (p\<lparr>refcount := (refcount p)[i := rc p i + 1]\<rparr>)"
    using assms False by (simp add: reference_def run_simps num_blocks_def rc_def)
  moreover have "pool_ok (p\<lparr>refcount := (refcount p)[i := rc p i + 1]\<rparr>) xs"
    using assms False by (simp add: pool_ok_refcount)
  ultimately show ?thesis
    using assms by (simp add: rc_refcount_upd content_refcount_upd same_geometry_def num_blocks_def)
next
  case True
  then have "i \<in> set xs" using assms by (simp add: pool_ok_def unreferenced_def)
  then obtain ys zs where xs: "xs = ys @ i # zs" by (meson split_list)
  with assms have l: "lru p (ys @ i # zs)" "links_len p" and d: "i \<notin> set ys" "i \<notin> set zs"
    by (auto simp: pool_ok_def lru_def)
  from unlink_lru [OF l] obtain p1 where p1: "unlink i p = Some p1" "lru p1 (ys @ zs)" "links_len p1"
      "same_but_links p p1" by auto
  note s1 = same_but_links_sel [OF p1(4)] same_but_links_view [OF p1(4)]
  let ?p2 = "p1\<lparr>num_free := num_free p - 1\<rparr>"
  let ?q = "?p2\<lparr>refcount := (refcount ?p2)[i := 1]\<rparr>"
  have nf: "num_free p = Suc (length (ys @ zs))" using assms xs by (simp add: pool_ok_def)
  have "reference i p = Some ?q"
    using assms True p1(1) s1 nf by (simp add: reference_def run_simps num_blocks_def rc_def)
  moreover have vq: "rc ?q = (rc p)(i := 1)" "content ?q = content p" "num_blocks ?q = num_blocks p"
    using assms(2) s1 rc_refcount_upd [of i ?p2 1] content_refcount_upd [of "(refcount ?p2)[i := 1]" ?p2]
    by (simp_all add: num_blocks_def)
  moreover have "set (ys @ zs) = unreferenced ?q"
  proof -
    have "set (ys @ zs) = unreferenced p - {i}" using assms(1) xs d by (auto simp: pool_ok_def)
    then show ?thesis using vq by (auto simp: unreferenced_def)
  qed
  moreover have "filter (\<lambda>j. j \<noteq> i) xs = ys @ zs" using xs d by simp
  ultimately show ?thesis
    using p1 s1 assms True nf
    by (auto simp: pool_ok_def same_geometry_def lru_def links_len_def)
qed

lemma publish_own_ok:
  assumes "pool_ok p xs" "i < num_blocks p" "by_hash p h \<in> {None, Some i}"
  shows "\<exists>q. publish_own i h p = Some q \<and> pool_ok q xs \<and> rc q = rc p \<and>
      content q = (content p)(i := Some h) \<and> same_geometry p q \<and>
      evicted_content q = evicted_content p"
proof -
  let ?bh = "(case content p i of
      Some g \<Rightarrow> if g \<noteq> h then (by_hash p)(g := None) else by_hash p | None \<Rightarrow> by_hash p)(h \<mapsto> i)"
  let ?q = "p\<lparr>hash_of := (hash_of p)[i := Some h], by_hash := ?bh\<rparr>"
  have len: "length (hash_of p) = num_blocks p" using assms(1) by (simp add: pool_ok_def)
  have idx: "\<And>g j. by_hash p g = Some j \<longleftrightarrow> content p j = Some g"
    using assms(1) by (simp add: pool_ok_def)
  have "publish_own i h p = Some ?q"
    using assms(2) len by (auto simp: publish_own_def run_simps content_def Let_def split: option.splits)
  moreover have cq: "content ?q = (content p)(i := Some h)"
    using assms(2) len by (auto simp: content_def fun_eq_iff)
  moreover have "by_hash ?q g = Some j \<longleftrightarrow> content ?q j = Some g" for g j
  proof (cases "g = h")
    case True
    have "j = i" if "content p j = Some h" using that assms(3) idx [of h j] by auto
    with True show ?thesis unfolding cq by (auto simp: fun_upd_apply)
  next
    case False
    then have "by_hash ?q g = (if content p i = Some g then None else by_hash p g)"
      by (auto split: option.splits)
    moreover have "j = i" if "content p j = Some g" "content p i = Some g"
      using that idx [of g j] idx [of g i] by simp
    ultimately show ?thesis
      using False idx [of g] unfolding cq by (auto simp: fun_upd_apply split: if_splits)
  qed
  moreover have "lru ?q xs = lru p xs" "links_len ?q = links_len p" "unreferenced ?q = unreferenced p"
    by (simp_all add: lru_def links_len_def unreferenced_def)
  moreover have "same_geometry p ?q" by (simp add: same_geometry_def)
  ultimately show ?thesis
    using assms(1) by (simp add: pool_ok_def)
qed

text \<open>
  \<open>publish\<close>: the block of an earlier publisher of the same content is adopted and referenced,
  otherwise the block itself becomes the holder of the content.
\<close>

lemma publish_adopt_ok:
  assumes "pool_ok p xs" "by_hash p h = Some e" "e \<noteq> i"
  shows "\<exists>q. publish i h p = Some (e, q) \<and> pool_ok q (filter (\<lambda>j. j \<noteq> e) xs) \<and>
      rc q = (rc p)(e := rc p e + 1) \<and> content q = content p \<and> same_geometry p q \<and>
      evicted_content q = evicted_content p"
proof -
  have "e < num_blocks p" using assms(1,2) by (metis content_Some_less pool_ok_by_hash)
  from reference_ok [OF assms(1) this] assms(2,3) show ?thesis by (auto simp: publish_def)
qed

lemma publish_first_ok:
  assumes "pool_ok p xs" "i < num_blocks p" "by_hash p h \<in> {None, Some i}"
  shows "\<exists>q. publish i h p = Some (i, q) \<and> pool_ok q xs \<and> rc q = rc p \<and>
      content q = (content p)(i := Some h) \<and> same_geometry p q \<and>
      evicted_content q = evicted_content p"
  using publish_own_ok [OF assms] assms(3) by (auto simp: publish_def)

lemma lookup_miss: "by_hash p h = None \<Longrightarrow> lookup h p = Some (None, p)"
  by (simp add: lookup_def)

lemma lookup_hit:
  assumes "pool_ok p xs" "by_hash p h = Some i"
  shows "\<exists>q. lookup h p = Some (Some i, q) \<and> pool_ok q (filter (\<lambda>j. j \<noteq> i) xs) \<and>
      rc q = (rc p)(i := rc p i + 1) \<and> content q = content p \<and> same_geometry p q \<and>
      evicted_content q = evicted_content p"
proof -
  have "i < num_blocks p" using assms by (metis content_Some_less pool_ok_by_hash)
  from reference_ok [OF assms(1) this] assms(2) show ?thesis by (auto simp: lookup_def)
qed

text \<open>The blocks of the longest indexed prefix.\<close>

definition matched :: "block_pool \<Rightarrow> block_hash list \<Rightarrow> block_id list" where
  "matched p hs = map (\<lambda>h. the (by_hash p h)) (takeWhile (\<lambda>h. by_hash p h \<noteq> None) hs)"

lemma by_hash_cong:
  assumes "pool_ok p xs" "pool_ok q ys" "content q = content p"
  shows "by_hash q = by_hash p"
proof
  fix h
  show "by_hash q h = by_hash p h"
    using pool_ok_by_hash [OF assms(1)] pool_ok_by_hash [OF assms(2)] assms(3)
    by (metis not_None_eq)
qed

lemma match_blocks_ok:
  assumes "pool_ok p xs"
  shows "\<exists>q. match_blocks hs p = Some (matched p hs, q) \<and>
      pool_ok q (filter (\<lambda>j. j \<notin> set (matched p hs)) xs) \<and>
      rc q = (\<lambda>j. rc p j + count_list (matched p hs) j) \<and> content q = content p \<and>
      same_geometry p q \<and> evicted_content q = evicted_content p"
  using assms
proof (induction hs arbitrary: p xs)
  case Nil
  then show ?case by (simp add: matched_def)
next
  case (Cons h hs)
  show ?case
  proof (cases "by_hash p h")
    case None
    then show ?thesis using Cons.prems by (simp add: matched_def lookup_miss)
  next
    case (Some i)
    from lookup_hit [OF Cons.prems Some] obtain p1 where p1: "lookup h p = Some (Some i, p1)"
        "pool_ok p1 (filter (\<lambda>j. j \<noteq> i) xs)" "rc p1 = (rc p)(i := rc p i + 1)"
        "content p1 = content p" "same_geometry p p1" "evicted_content p1 = evicted_content p"
      by auto
    have bh: "by_hash p1 = by_hash p" by (rule by_hash_cong [OF Cons.prems p1(2,4)])
    then have m: "matched p1 hs = matched p hs" by (simp add: matched_def)
    from Cons.IH [OF p1(2)] obtain q where q: "match_blocks hs p1 = Some (matched p hs, q)"
        "pool_ok q (filter (\<lambda>j. j \<notin> set (matched p hs)) (filter (\<lambda>j. j \<noteq> i) xs))"
        "rc q = (\<lambda>j. rc p1 j + count_list (matched p hs) j)" "content q = content p1"
        "same_geometry p1 q" "evicted_content q = evicted_content p1"
      using m by auto
    have "matched p (h # hs) = i # matched p hs" using Some by (simp add: matched_def)
    moreover have "filter (\<lambda>j. j \<notin> set (matched p hs)) (filter (\<lambda>j. j \<noteq> i) xs)
        = filter (\<lambda>j. j \<notin> set (i # matched p hs)) xs"
      by (simp add: conj_commute)
    ultimately show ?thesis
      using p1 q by (auto simp: fun_eq_iff intro: same_geometry_trans)
  qed
qed

lemma pool_ok_counters [simp]:
  "pool_ok (p\<lparr>queried_tokens := x\<rparr>) xs = pool_ok p xs"
  "pool_ok (p\<lparr>hit_tokens := x\<rparr>) xs = pool_ok p xs"
  "pool_ok (p\<lparr>evicted_content := ev\<rparr>) xs = pool_ok p xs"
  "pool_ok (p\<lparr>tracking := on\<rparr>) xs = pool_ok p xs"
  by (auto simp: pool_ok_def lru_def links_len_def unreferenced_def)

lemma match_prefix_ok:
  assumes "pool_ok p xs"
  shows "\<exists>q. match_prefix hs p
        = Some (\<lparr>pm_blocks = matched p hs, pm_tokens = length (matched p hs) * block_size p\<rparr>, q) \<and>
      pool_ok q (filter (\<lambda>j. j \<notin> set (matched p hs)) xs) \<and>
      rc q = (\<lambda>j. rc p j + count_list (matched p hs) j) \<and> content q = content p \<and>
      same_geometry p q \<and> evicted_content q = evicted_content p"
proof -
  let ?p1 = "p\<lparr>queried_tokens := queried_tokens p + length hs * block_size p\<rparr>"
  have m: "matched ?p1 hs = matched p hs" by (simp add: matched_def)
  from match_blocks_ok [of ?p1 xs hs] assms m obtain q where q:
      "match_blocks hs ?p1 = Some (matched p hs, q)"
      "pool_ok q (filter (\<lambda>j. j \<notin> set (matched p hs)) xs)"
      "rc q = (\<lambda>j. rc p j + count_list (matched p hs) j)" "content q = content p"
      "same_geometry ?p1 q" "evicted_content q = evicted_content p"
    by auto
  then show ?thesis
    by (auto simp: match_prefix_def same_geometry_def)
qed

end
