(* ===== verification/Pool_Refinement.thy ===== *)
theory Pool_Refinement
  imports Block_Pool
begin

text \<open>
  The pool against its specification.  The abstract pool keeps only what a user of the pool can
  observe: the free blocks in eviction order as a list, the reference counts and the content each
  block carries; it has no links and no separate index.  Each operation of
  \<open>vapi-cache/src/pool.rs\<close>, as modelled in \<open>Block_Pool\<close>, implements the abstract one
  through the abstraction function \<open>abs_pool\<close>, and every pool reachable from \<open>BlockPool::new\<close>
  by legal calls satisfies the invariant and passes the source's own \<open>check_invariants\<close>.

  The locale \<open>block_store\<close> is the interface the scheduler relies on: laws over the reference
  counts and contents only.  What follows for loops of releases and allocations is proved once in
  the locale, and the interpretation \<open>bp\<close> gives it for the pool.
\<close>

section \<open>The abstraction function\<close>

fun walk :: "nat \<Rightarrow> nat list \<Rightarrow> nat \<Rightarrow> nat list" where
  "walk 0 nx cur = []"
| "walk (Suc k) nx cur = (if cur = NONE then [] else cur # walk k nx (nx ! cur))"

definition free_blocks :: "block_pool \<Rightarrow> nat list" where
  "free_blocks p = walk (num_blocks p) (next_link p) (lru_head p)"

lemma walk_dlist:
  "dlist nx pv l xs NONE \<Longrightarrow> NONE \<notin> set xs \<Longrightarrow> length xs \<le> k \<Longrightarrow> walk k nx (first_or NONE xs) = xs"
proof (induction xs arbitrary: k l)
  case Nil
  then show ?case by (cases k) auto
next
  case (Cons x xs)
  then obtain j where "k = Suc j" by (cases k) auto
  with Cons show ?case by auto
qed

lemma pool_ok_length: "pool_ok p xs \<Longrightarrow> length xs \<le> num_blocks p"
  by (metis card_lessThan card_mono distinct_card finite_lessThan lru_def pool_ok_def)

lemma free_blocks_eq: "pool_ok p xs \<Longrightarrow> free_blocks p = xs"
  unfolding free_blocks_def
  by (metis NONE_notin links_len_def lru_def pool_ok_def pool_ok_length walk_dlist)

lemma pool_inv_iff: "pool_inv p \<longleftrightarrow> pool_ok p (free_blocks p)"
  by (metis free_blocks_eq pool_inv_def)

record apool =
  a_size :: nat
  a_free :: "block_id list"
  a_rc :: "block_id \<Rightarrow> nat"
  a_content :: "block_id \<Rightarrow> block_hash option"

definition abs_pool :: "block_pool \<Rightarrow> apool" where
  "abs_pool p = \<lparr>a_size = num_blocks p, a_free = free_blocks p, a_rc = rc p, a_content = content p\<rparr>"

section \<open>The abstract operations\<close>

definition a_find :: "apool \<Rightarrow> block_hash \<Rightarrow> block_id option" where
  "a_find a h = List.find (\<lambda>i. a_content a i = Some h) [0..<a_size a]"

definition a_allocate :: "apool \<Rightarrow> (alloc_error + block_id) \<times> apool" where
  "a_allocate a =
     (case a_free a of
        [] \<Rightarrow> (Inl Exhausted, a)
      | i # fs \<Rightarrow> (Inr i, a\<lparr>a_free := fs, a_rc := (a_rc a)(i := 1), a_content := (a_content a)(i := None)\<rparr>))"

definition a_release :: "block_id \<Rightarrow> apool \<Rightarrow> apool" where
  "a_release i a =
     (if a_rc a i = 1
      then a\<lparr>a_rc := (a_rc a)(i := 0),
             a_free := (if a_content a i = None then i # a_free a else a_free a @ [i])\<rparr>
      else a\<lparr>a_rc := (a_rc a)(i := a_rc a i - 1)\<rparr>)"

definition a_reference :: "block_id \<Rightarrow> apool \<Rightarrow> apool" where
  "a_reference i a =
     a\<lparr>a_rc := (a_rc a)(i := a_rc a i + 1), a_free := filter (\<lambda>j. j \<noteq> i) (a_free a)\<rparr>"

definition a_publish :: "block_id \<Rightarrow> block_hash \<Rightarrow> apool \<Rightarrow> block_id \<times> apool" where
  "a_publish i h a =
     (case a_find a h of
        Some e \<Rightarrow> if e \<noteq> i then (e, a_reference e a) else (i, a)
      | None \<Rightarrow> (i, a\<lparr>a_content := (a_content a)(i := Some h)\<rparr>))"

fun a_match :: "block_hash list \<Rightarrow> apool \<Rightarrow> block_id list \<times> apool" where
  "a_match [] a = ([], a)"
| "a_match (h # hs) a =
     (case a_find a h of
        None \<Rightarrow> ([], a)
      | Some i \<Rightarrow> let (is, a') = a_match hs (a_reference i a) in (i # is, a'))"

section \<open>Refinement lemmas\<close>

lemma abs_pool_eqI:
  assumes "pool_ok q ys" "same_geometry p q" "rc q = r" "content q = c"
  shows "abs_pool q = \<lparr>a_size = num_blocks p, a_free = ys, a_rc = r, a_content = c\<rparr>"
  using assms by (simp add: abs_pool_def free_blocks_eq same_geometry_def)

lemma a_find_abs:
  assumes "pool_ok p xs"
  shows "a_find (abs_pool p) h = by_hash p h"
proof (cases "by_hash p h")
  case None
  then have "\<forall>i. content p i \<noteq> Some h" using assms by (simp add: pool_ok_by_hash_None)
  then show ?thesis using None by (auto simp: a_find_def abs_pool_def find_None_iff)
next
  case (Some i)
  then have i: "content p i = Some h" "i < num_blocks p"
    using assms by (auto simp: pool_ok_by_hash content_Some_less)
  have uniq: "j = i" if "content p j = Some h" for j
    using that i pool_ok_by_hash [OF assms, of h] by (metis option.inject)
  have "a_find (abs_pool p) h \<noteq> None"
    using i by (auto simp: a_find_def abs_pool_def find_None_iff)
  then obtain j where "a_find (abs_pool p) h = Some j" by blast
  moreover from this have "content p j = Some h"
    by (auto simp: a_find_def abs_pool_def find_Some_iff)
  ultimately show ?thesis using uniq Some by auto
qed

lemma allocate_refines:
  assumes "pool_inv p"
  shows "\<exists>q. allocate p = Some (fst (a_allocate (abs_pool p)), q) \<and> pool_inv q \<and>
      abs_pool q = snd (a_allocate (abs_pool p)) \<and> same_geometry p q"
proof -
  from assms have ok: "pool_ok p (free_blocks p)" by (simp add: pool_inv_iff)
  show ?thesis
  proof (cases "free_blocks p")
    case Nil
    with ok show ?thesis
      by (auto simp: allocate_empty a_allocate_def abs_pool_def pool_inv_def intro!: exI [of _ "[]"])
  next
    case (Cons i xs)
    with allocate_ok [of p i xs] ok obtain q where q: "allocate p = Some (Inr i, q)" "pool_ok q xs"
        "rc q = (rc p)(i := 1)" "content q = (content p)(i := None)" "same_geometry p q"
      by auto
    then show ?thesis
      using Cons abs_pool_eqI [OF q(2,5,3,4)]
      by (auto simp: a_allocate_def pool_inv_def abs_pool_def)
  qed
qed

lemma free_refines:
  assumes "pool_inv p" "0 < rc p i"
  shows "\<exists>q. free i p = Some q \<and> pool_inv q \<and> abs_pool q = a_release i (abs_pool p) \<and> same_geometry p q"
proof -
  from assms have ok: "pool_ok p (free_blocks p)" by (simp add: pool_inv_iff)
  show ?thesis
  proof (cases "rc p i = 1")
    case True
    from free_last_ok [OF ok True] obtain q where q: "free i p = Some q"
        "pool_ok q (if content p i = None then i # free_blocks p else free_blocks p @ [i])"
        "rc q = (rc p)(i := 0)" "content q = content p" "same_geometry p q" by auto
    then show ?thesis
      using True abs_pool_eqI [OF q(2,5,3,4)] by (auto simp: a_release_def abs_pool_def pool_inv_def)
  next
    case False
    with assms(2) free_shared_ok [OF ok, of i] obtain q where q: "free i p = Some q"
        "pool_ok q (free_blocks p)" "rc q = (rc p)(i := rc p i - 1)" "content q = content p"
        "same_geometry p q" by auto
    then show ?thesis
      using False abs_pool_eqI [OF q(2,5,3,4)] by (auto simp: a_release_def abs_pool_def pool_inv_def)
  qed
qed

lemma reference_refines:
  assumes "pool_inv p" "i < num_blocks p"
  shows "\<exists>q. reference i p = Some q \<and> pool_inv q \<and> abs_pool q = a_reference i (abs_pool p) \<and>
      same_geometry p q"
proof -
  from assms have ok: "pool_ok p (free_blocks p)" by (simp add: pool_inv_iff)
  from reference_ok [OF this assms(2)] obtain q where q: "reference i p = Some q"
      "pool_ok q (filter (\<lambda>j. j \<noteq> i) (free_blocks p))" "rc q = (rc p)(i := rc p i + 1)"
      "content q = content p" "same_geometry p q" by auto
  then show ?thesis
    using abs_pool_eqI [OF q(2,5,3,4)] by (auto simp: a_reference_def abs_pool_def pool_inv_def)
qed

lemma publish_refines:
  assumes "pool_inv p" "i < num_blocks p"
  shows "\<exists>q. publish i h p = Some (fst (a_publish i h (abs_pool p)), q) \<and> pool_inv q \<and>
      abs_pool q = snd (a_publish i h (abs_pool p)) \<and> same_geometry p q"
proof -
  from assms have ok: "pool_ok p (free_blocks p)" by (simp add: pool_inv_iff)
  note find = a_find_abs [OF ok, of h]
  show ?thesis
  proof (cases "\<exists>e. by_hash p h = Some e \<and> e \<noteq> i")
    case True
    then obtain e where e: "by_hash p h = Some e" "e \<noteq> i" by auto
    from publish_adopt_ok [OF ok e] obtain q where q: "publish i h p = Some (e, q)"
        "pool_ok q (filter (\<lambda>j. j \<noteq> e) (free_blocks p))" "rc q = (rc p)(e := rc p e + 1)"
        "content q = content p" "same_geometry p q" by auto
    then show ?thesis
      using e find abs_pool_eqI [OF q(2,5,3,4)]
      by (auto simp: a_publish_def a_reference_def pool_inv_def) (simp add: abs_pool_def)
  next
    case False
    then have bh: "by_hash p h \<in> {None, Some i}" by (cases "by_hash p h") auto
    from publish_first_ok [OF ok assms(2) bh] obtain q where q: "publish i h p = Some (i, q)"
        "pool_ok q (free_blocks p)" "rc q = rc p" "content q = (content p)(i := Some h)"
        "same_geometry p q" by auto
    moreover have "content p i = Some h" if "by_hash p h = Some i"
      using that ok by (simp add: pool_ok_by_hash)
    ultimately show ?thesis
      using bh find abs_pool_eqI [OF q(2,5,3,4)]
      by (auto simp: a_publish_def pool_inv_def fun_upd_idem) (auto simp: abs_pool_def fun_upd_idem)
  qed
qed

lemma match_blocks_refines:
  assumes "pool_inv p"
  shows "\<exists>q. match_blocks hs p = Some (fst (a_match hs (abs_pool p)), q) \<and> pool_inv q \<and>
      abs_pool q = snd (a_match hs (abs_pool p)) \<and> same_geometry p q"
  using assms
proof (induction hs arbitrary: p)
  case (Cons h hs)
  then have ok: "pool_ok p (free_blocks p)" by (simp add: pool_inv_iff)
  show ?case
  proof (cases "by_hash p h")
    case None
    then show ?thesis using Cons.prems by (simp add: lookup_miss a_find_abs [OF ok])
  next
    case (Some i)
    then have "i < num_blocks p" using ok by (metis content_Some_less pool_ok_by_hash)
    from reference_refines [OF Cons.prems this] obtain p1 where p1: "reference i p = Some p1"
        "pool_inv p1" "abs_pool p1 = a_reference i (abs_pool p)" "same_geometry p p1" by auto
    from Cons.IH [OF p1(2)] p1 Some show ?thesis
      by (auto simp: lookup_def a_find_abs [OF ok] case_prod_unfold Let_def
          intro: same_geometry_trans)
  qed
qed (simp add: pool_inv_def)

text \<open>The hit counters move in \<open>match_prefix\<close> only.\<close>

definition counters :: "block_pool \<Rightarrow> nat \<times> nat" where
  "counters p = (queried_tokens p, hit_tokens p)"

lemma unlink_counters: "unlink i p = Some q \<Longrightarrow> counters q = counters p"
  by (auto simp: unlink_def counters_def bind_eq_Some_conv split: if_splits)

lemma reference_counters: "reference i p = Some q \<Longrightarrow> counters q = counters p"
  by (auto simp: reference_def counters_def bind_eq_Some_conv dest!: unlink_counters split: if_splits)

lemma match_blocks_counters: "match_blocks hs p = Some (is, q) \<Longrightarrow> counters q = counters p"
proof (induction hs arbitrary: p "is")
  case (Cons h hs)
  then show ?case
    by (auto simp: bind_eq_Some_conv lookup_def reference_counters split: option.splits)
qed simp

lemma match_blocks_geometry:
  assumes "pool_inv p" "match_blocks hs p = Some (is, q)"
  shows "block_size q = block_size p"
  using match_blocks_refines [OF assms(1), of hs] assms(2) by (auto simp: same_geometry_def)

lemma match_prefix_refines:
  assumes "pool_inv p"
  shows "\<exists>q. match_prefix hs p =
        Some (\<lparr>pm_blocks = fst (a_match hs (abs_pool p)), pm_tokens = length (fst (a_match hs (abs_pool p))) * block_size p\<rparr>, q) \<and>
      pool_inv q \<and> abs_pool q = snd (a_match hs (abs_pool p)) \<and>
      queried_tokens q = queried_tokens p + length hs * block_size p \<and>
      hit_tokens q = hit_tokens p + length (fst (a_match hs (abs_pool p))) * block_size p"
proof -
  let ?p = "p\<lparr>queried_tokens := queried_tokens p + length hs * block_size p\<rparr>"
  have p: "pool_inv ?p" "abs_pool ?p = abs_pool p" "block_size ?p = block_size p"
    using assms by (auto simp: pool_inv_def abs_pool_def free_blocks_def num_blocks_def rc_def content_def fun_eq_iff)
  from match_blocks_refines [OF p(1), of hs] p(2) obtain q where
      q: "match_blocks hs ?p = Some (fst (a_match hs (abs_pool p)), q)" "pool_inv q"
        "abs_pool q = snd (a_match hs (abs_pool p))" by auto
  let ?q = "q\<lparr>hit_tokens := hit_tokens q + length (fst (a_match hs (abs_pool p))) * block_size q\<rparr>"
  have "pool_inv ?q" "abs_pool ?q = abs_pool q"
    using q(2) by (auto simp: pool_inv_def abs_pool_def free_blocks_def num_blocks_def rc_def content_def fun_eq_iff)
  then show ?thesis
    using q match_blocks_counters [OF q(1)] match_blocks_geometry [OF p(1) q(1)]
    by (simp add: match_prefix_def counters_def)
qed

text \<open>How far one call can move a reference count: a match adds at most one for each hash.\<close>

lemma a_match_rc: "a_rc (snd (a_match hs a)) b \<le> a_rc a b + length hs"
proof (induction hs arbitrary: a)
  case (Cons h hs)
  have "a_rc (snd (a_match hs (a_reference i a))) b \<le> a_rc a b + Suc (length hs)" for i
    using Cons.IH [of "a_reference i a"] by (simp add: a_reference_def split: if_splits)
  then show ?case by (auto simp: case_prod_unfold Let_def split: option.splits)
qed simp

lemma a_step_rc:
  "a_rc (snd (a_allocate a)) b \<le> a_rc a b + 1" "a_rc (a_release i a) b \<le> a_rc a b"
  "a_rc (snd (a_publish i h a)) b \<le> a_rc a b + 1"
  by (auto simp: a_allocate_def a_release_def a_publish_def a_reference_def split: list.splits option.splits)

section \<open>check\_invariants accepts\<close>

lemma ci_walk_dlist:
  assumes "dlist (next_link p) (prev_link p) l ys NONE" "distinct ys" "set ys \<inter> set seen = {}"
    and "\<forall>y \<in> set ys. y < num_blocks p \<and> refcount p ! y = 0" "links_len p" "length ys < fuel"
  shows "ci_walk fuel p (first_or NONE ys) l seen = Some (rev ys @ seen, last_or l ys)"
  using assms
proof (induction ys arbitrary: l seen fuel)
  case Nil
  then show ?case by (cases fuel) auto
next
  case (Cons y ys)
  then obtain k where k: "fuel = Suc k" by (cases fuel) auto
  have y: "y < num_blocks p" "y \<noteq> NONE" using Cons.prems by (auto simp: links_len_def)
  have "ci_walk k p (first_or NONE ys) y (y # seen) = Some (rev ys @ y # seen, last_or y ys)"
    using Cons k by (intro Cons.IH) auto
  with Cons.prems k y show ?case by (simp add: links_len_def num_blocks_def run_simps)
qed

lemma carried_eq_indexed:
  assumes "pool_ok p xs"
  shows "length (filter (\<lambda>h. h \<noteq> None) (hash_of p)) = card (dom (by_hash p))"
proof -
  let ?I = "{i. i < length (hash_of p) \<and> hash_of p ! i \<noteq> None}"
  have len: "length (hash_of p) = num_blocks p" using assms by (simp add: pool_ok_def)
  have "bij_betw (\<lambda>h. the (by_hash p h)) (dom (by_hash p)) ?I"
  proof (rule bij_betw_imageI)
    show "inj_on (\<lambda>h. the (by_hash p h)) (dom (by_hash p))"
    proof (rule inj_onI)
      fix g h
      assume "g \<in> dom (by_hash p)" "h \<in> dom (by_hash p)" "the (by_hash p g) = the (by_hash p h)"
      then obtain i where "by_hash p g = Some i" "by_hash p h = Some i" by auto
      then show "g = h" using assms by (simp add: pool_ok_by_hash)
    qed
    show "(\<lambda>h. the (by_hash p h)) ` dom (by_hash p) = ?I"
    proof (intro equalityI subsetI)
      fix i assume "i \<in> (\<lambda>h. the (by_hash p h)) ` dom (by_hash p)"
      then obtain h where "by_hash p h = Some i" by auto
      then have "content p i = Some h" using assms by (simp add: pool_ok_by_hash)
      then show "i \<in> ?I" using len by (auto simp: content_def split: if_splits)
    next
      fix i assume "i \<in> ?I"
      then obtain h where "content p i = Some h" using len by (auto simp: content_def)
      then have "by_hash p h = Some i" using assms by (simp add: pool_ok_by_hash)
      then show "i \<in> (\<lambda>h. the (by_hash p h)) ` dom (by_hash p)" by force
    qed
  qed
  then show ?thesis by (simp add: bij_betw_same_card length_filter_conv_card)
qed

lemma pool_ok_check_invariants:
  assumes "pool_ok p xs"
  shows "check_invariants p"
proof -
  from assms have d: "dlist (next_link p) (prev_link p) NONE xs NONE" "distinct xs" "links_len p"
      "lru_head p = first_or NONE xs" "lru_tail p = last_or NONE xs" "num_free p = length xs"
      "set xs = unreferenced p"
    by (simp_all add: pool_ok_def lru_def)
  have "\<forall>y \<in> set xs. y < num_blocks p \<and> refcount p ! y = 0"
    using d(7) by (auto simp: unreferenced_def rc_def)
  then have "ci_walk (Suc (num_blocks p)) p (lru_head p) NONE [] = Some (rev xs, last_or NONE xs)"
    using d pool_ok_length [OF assms] ci_walk_dlist [of p NONE xs "[]" "Suc (num_blocks p)"] by simp
  moreover have "\<forall>i < num_blocks p. (refcount p ! i = 0) = (i \<in> set xs)"
    using d(7) by (auto simp: unreferenced_def rc_def)
  moreover have "\<forall>h i. by_hash p h = Some i \<longrightarrow> i < length (hash_of p) \<and> hash_of p ! i = Some h"
    using assms by (auto simp: pool_ok_def content_def split: if_splits)
  ultimately show ?thesis
    using d carried_eq_indexed [OF assms] by (simp add: check_invariants_def)
qed

section \<open>Reachable pools\<close>

text \<open>
  One call of the pool's interface.  The guards are the conditions the callers must meet: a block
  that is released or shared is referenced, and a block that is published exists.
\<close>

inductive pool_step :: "block_pool \<Rightarrow> block_pool \<Rightarrow> bool" where
  step_allocate: "allocate p = Some (r, q) \<Longrightarrow> pool_step p q"
| step_allocate_guarded: "allocate_guarded p = Some (r, q) \<Longrightarrow> pool_step p q"
| step_incref: "0 < rc p i \<Longrightarrow> incref i p = Some q \<Longrightarrow> pool_step p q"
| step_free: "0 < rc p i \<Longrightarrow> free i p = Some q \<Longrightarrow> pool_step p q"
| step_publish: "i < num_blocks p \<Longrightarrow> publish i h p = Some (r, q) \<Longrightarrow> pool_step p q"
| step_lookup: "lookup h p = Some (r, q) \<Longrightarrow> pool_step p q"
| step_match_prefix: "match_prefix hs p = Some (m, q) \<Longrightarrow> pool_step p q"
| step_track: "pool_step p (track_evictions on p)"
| step_take_evicted: "take_evicted p = (ev, q) \<Longrightarrow> pool_step p q"

inductive pool_reachable :: "block_pool \<Rightarrow> bool" where
  reach_new: "n \<le> NONE \<Longrightarrow> pool_new n bs wm = Some p \<Longrightarrow> pool_reachable p"
| reach_step: "pool_reachable p \<Longrightarrow> pool_step p q \<Longrightarrow> pool_reachable q"

inductive_cases pool_stepE: "pool_step p q"

lemma pool_inv_tracking [simp]:
  "pool_inv (track_evictions on p) = pool_inv p"
  "pool_inv (p\<lparr>evicted_content := ev\<rparr>) = pool_inv p"
  by (simp_all add: pool_inv_def track_evictions_def Let_def)

lemma lookup_total:
  assumes "pool_inv p"
  shows "\<exists>r q. lookup h p = Some (r, q) \<and> pool_inv q"
proof -
  from assms have ok: "pool_ok p (free_blocks p)" by (simp add: pool_inv_iff)
  then show ?thesis
    using lookup_hit [OF ok, of h] assms by (cases "by_hash p h") (auto simp: lookup_miss pool_inv_def)
qed

lemma pool_step_inv: "pool_step p q \<Longrightarrow> pool_inv p \<Longrightarrow> pool_inv q"
proof (induction rule: pool_step.induct)
  case (step_allocate p r q)
  then show ?case using allocate_refines [of p] by auto
next
  case (step_allocate_guarded p r q)
  then show ?case using allocate_refines [of p] by (auto simp: allocate_guarded_def split: if_splits)
next
  case (step_incref p i q)
  then show ?case using incref_ok [of p _ i] by (fastforce simp: pool_inv_def)
next
  case (step_free p i q)
  then show ?case using free_refines [of p i] by auto
next
  case (step_publish i p h r q)
  then show ?case using publish_refines [of p i h] by auto
next
  case (step_lookup h p r q)
  then show ?case using lookup_total [of p h] by auto
next
  case (step_match_prefix hs p m q)
  then show ?case using match_prefix_ok [of p "free_blocks p" hs] by (auto simp: pool_inv_iff [of p]) (auto simp: pool_inv_def)
next
  case (step_track p on)
  then show ?case by simp
next
  case (step_take_evicted p ev q)
  then show ?case by (auto simp: take_evicted_def)
qed

lemma pool_reachable_inv: "pool_reachable p \<Longrightarrow> pool_inv p"
proof (induction rule: pool_reachable.induct)
  case (reach_new n bs wm p)
  then have "0 < bs" by (auto simp: pool_new_def ensure_def split: if_splits)
  with reach_new pool_new_ok [of bs n wm] show ?case by (auto simp: pool_inv_def)
next
  case (reach_step p q)
  then show ?case by (blast intro: pool_step_inv)
qed

section \<open>The interface of the scheduler\<close>

text \<open>
  A loop \<open>for _ in 0..k\<close> that allocates until it has \<open>k\<close> blocks or one allocation fails: the
  error it stopped at, the blocks taken so far and the pool.
\<close>

fun alloc_up_to ::
  "('p \<Rightarrow> (('e + block_id) \<times> 'p) option) \<Rightarrow> nat \<Rightarrow> 'p \<Rightarrow> ('e option \<times> block_id list \<times> 'p) option" where
  "alloc_up_to al 0 p = Some (None, [], p)"
| "alloc_up_to al (Suc k) p = do {
     (r, p) \<leftarrow> al p;
     case r of
       Inl e \<Rightarrow> Some (Some e, [], p)
     | Inr b \<Rightarrow> do { (e, bs, p) \<leftarrow> alloc_up_to al k p; Some (e, b # bs, p) } }"

locale block_store =
  fixes ok :: "'p \<Rightarrow> bool" and total :: "'p \<Rightarrow> nat" and refs :: "'p \<Rightarrow> block_id \<Rightarrow> nat"
    and holds :: "'p \<Rightarrow> block_id \<Rightarrow> 'h option" and available :: "'p \<Rightarrow> nat"
    and same :: "'p \<Rightarrow> 'p \<Rightarrow> bool"
    and take_block :: "'p \<Rightarrow> (('e + block_id) \<times> 'p) option"
    and release :: "block_id \<Rightarrow> 'p \<Rightarrow> 'p option"
  assumes same_refl: "same p p"
    and same_trans: "same p q \<Longrightarrow> same q r \<Longrightarrow> same p r"
    and same_total: "same p q \<Longrightarrow> total q = total p"
    and refs_bound: "ok p \<Longrightarrow> 0 < refs p b \<Longrightarrow> b < total p"
    and available_eq: "ok p \<Longrightarrow> available p = card {b. b < total p \<and> refs p b = 0}"
    and take_none: "ok p \<Longrightarrow> available p = 0 \<Longrightarrow> \<exists>e. take_block p = Some (Inl e, p)"
    and take_some: "ok p \<Longrightarrow> 0 < available p \<Longrightarrow>
      \<exists>b q. take_block p = Some (Inr b, q) \<and> ok q \<and> same p q \<and> b < total p \<and> refs p b = 0 \<and>
        refs q = (refs p)(b := 1) \<and> holds q = (holds p)(b := None)"
    and release_ok: "ok p \<Longrightarrow> 0 < refs p b \<Longrightarrow>
      \<exists>q. release b p = Some q \<and> ok q \<and> same p q \<and> refs q = (refs p)(b := refs p b - 1) \<and>
        holds q = holds p"
begin

lemma available_take:
  assumes "ok p" "ok q" "same p q" "b < total p" "refs p b = 0" "refs q = (refs p)(b := 1)"
  shows "available p = Suc (available q)"
proof -
  let ?A = "{i. i < total p \<and> refs p i = 0}" and ?B = "{i. i < total q \<and> refs q i = 0}"
  have "?A = insert b ?B" "b \<notin> ?B" "finite ?B"
    using assms same_total [OF assms(3)] by auto
  then show ?thesis using assms by (simp add: available_eq)
qed

text \<open>Releasing a list of blocks gives back exactly one reference per entry.\<close>

lemma release_all:
  assumes "ok p" "\<And>b. count_list bs b \<le> refs p b"
  shows "\<exists>q. for_each release bs p = Some q \<and> ok q \<and> same p q \<and>
      refs q = (\<lambda>b. refs p b - count_list bs b) \<and> holds q = holds p"
  using assms
proof (induction bs arbitrary: p)
  case Nil
  then show ?case by (simp add: same_refl)
next
  case (Cons c bs)
  have "0 < refs p c" using Cons.prems(2) [of c] by simp
  with release_ok [OF Cons.prems(1)] obtain p1 where p1: "release c p = Some p1" "ok p1" "same p p1"
      "refs p1 = (refs p)(c := refs p c - 1)" "holds p1 = holds p" by blast
  have "count_list bs b \<le> refs p1 b" for b
    using Cons.prems(2) [of b] p1(4) by (auto split: if_splits)
  from Cons.IH [OF p1(2) this] obtain q where q: "for_each release bs p1 = Some q" "ok q" "same p1 q"
      "refs q = (\<lambda>b. refs p1 b - count_list bs b)" "holds q = holds p1" by blast
  have "refs q = (\<lambda>b. refs p b - count_list (c # bs) b)"
    using q(4) p1(4) by (auto simp: fun_eq_iff)
  with p1 q show ?case using same_trans by auto
qed

text \<open>
  An allocation loop takes distinct, so far unreferenced blocks, as many as asked for when there
  are enough and all there are otherwise.
\<close>

lemma alloc_up_to_ok:
  assumes "ok p"
  shows "\<exists>e bs q. alloc_up_to take_block k p = Some (e, bs, q) \<and> ok q \<and> same p q \<and>
      (e = None \<longleftrightarrow> k \<le> available p) \<and> length bs = min k (available p) \<and> distinct bs \<and>
      (\<forall>b \<in> set bs. b < total p \<and> refs p b = 0) \<and>
      refs q = (\<lambda>b. refs p b + count_list bs b) \<and>
      holds q = (\<lambda>b. if b \<in> set bs then None else holds p b) \<and>
      available q = available p - length bs"
  using assms
proof (induction k arbitrary: p)
  case 0
  then show ?case by (simp add: same_refl)
next
  case (Suc k)
  show ?case
  proof (cases "available p = 0")
    case True
    with take_none [OF Suc.prems] Suc.prems show ?thesis by (auto simp: same_refl)
  next
    case False
    with take_some [OF Suc.prems] obtain b p1 where p1: "take_block p = Some (Inr b, p1)" "ok p1"
        "same p p1" "b < total p" "refs p b = 0" "refs p1 = (refs p)(b := 1)"
        "holds p1 = (holds p)(b := None)" by auto
    from Suc.IH [OF p1(2)] obtain e bs q where q: "alloc_up_to take_block k p1 = Some (e, bs, q)"
        "ok q" "same p1 q" "e = None \<longleftrightarrow> k \<le> available p1" "length bs = min k (available p1)"
        "distinct bs" "\<forall>b \<in> set bs. b < total p1 \<and> refs p1 b = 0"
        "refs q = (\<lambda>b. refs p1 b + count_list bs b)"
        "holds q = (\<lambda>b. if b \<in> set bs then None else holds p1 b)"
        "available q = available p1 - length bs" by blast
    have av: "available p = Suc (available p1)"
      using available_take Suc.prems p1 by blast
    have b: "b \<notin> set bs" using q(7) p1(6) by auto
    have "refs q = (\<lambda>c. refs p c + count_list (b # bs) c)"
      using q(8) p1(5,6) b by (auto simp: fun_eq_iff count_list_0_iff)
    moreover have "holds q = (\<lambda>c. if c \<in> set (b # bs) then None else holds p c)"
      using q(9) p1(7) by (auto simp: fun_eq_iff)
    moreover have "\<forall>c \<in> set (b # bs). c < total p \<and> refs p c = 0"
      using q(7) p1 same_total [OF p1(3)] by (auto split: if_splits)
    moreover have "same p q" using p1(3) q(3) by (rule same_trans)
    ultimately show ?thesis
      using p1(1) q av b
      by (intro exI [of _ e] exI [of _ "b # bs"] exI [of _ q]) auto
  qed
qed

end

lemma pool_inv_num_free: "pool_inv p \<Longrightarrow> num_free p = card (unreferenced p)"
  by (metis distinct_card pool_inv_def pool_ok_def pool_ok_distinct)

interpretation bp: block_store pool_inv num_blocks rc content num_free same_geometry allocate free
proof unfold_locales
  fix p assume inv: "pool_inv p" and "num_free p = 0"
  then show "\<exists>e. allocate p = Some (Inl e, p)" by (auto simp: allocate_def)
next
  fix p assume inv: "pool_inv p" and nf: "0 < num_free p"
  then have ok: "pool_ok p (free_blocks p)" by (simp add: pool_inv_iff)
  with nf obtain i xs where xs: "free_blocks p = i # xs"
    by (cases "free_blocks p") (auto simp: pool_ok_def)
  then have "i < num_blocks p" "rc p i = 0" using ok by (auto simp: pool_ok_def unreferenced_def)
  with allocate_ok [of p i xs] ok xs
  show "\<exists>b q. allocate p = Some (Inr b, q) \<and> pool_inv q \<and> same_geometry p q \<and> b < num_blocks p \<and>
      rc p b = 0 \<and> rc q = (rc p)(b := 1) \<and> content q = (content p)(b := None)"
    by (auto simp: pool_inv_def)
next
  fix p b assume "pool_inv p" and b: "0 < rc p b"
  then have ok: "pool_ok p (free_blocks p)" by (simp add: pool_inv_iff)
  show "\<exists>q. free b p = Some q \<and> pool_inv q \<and> same_geometry p q \<and> rc q = (rc p)(b := rc p b - 1) \<and>
      content q = content p"
  proof (cases "rc p b = 1")
    case True
    with free_last_ok [OF ok True] show ?thesis unfolding pool_inv_def by (metis diff_self_eq_0)
  next
    case False
    with b free_shared_ok [OF ok, of b] show ?thesis by (auto simp: pool_inv_def)
  qed
qed (auto simp: same_geometry_def pool_inv_num_free unreferenced_def rc_pos_less)

text \<open>
  The weaker contract of a source of blocks that may refuse: it either leaves the pool alone or
  hands out an unreferenced block.  \<open>block_store\<close> gives it, and so does \<open>allocate_guarded\<close>, which
  refuses while blocks are still free.
\<close>

locale block_source =
  fixes ok :: "'p \<Rightarrow> bool" and refs :: "'p \<Rightarrow> block_id \<Rightarrow> nat"
    and holds :: "'p \<Rightarrow> block_id \<Rightarrow> 'h option" and same :: "'p \<Rightarrow> 'p \<Rightarrow> bool"
    and take_block :: "'p \<Rightarrow> (('e + block_id) \<times> 'p) option"
  assumes source_refl: "same p p"
    and source_trans: "same p q \<Longrightarrow> same q r \<Longrightarrow> same p r"
    and take_cases: "ok p \<Longrightarrow> (\<exists>e. take_block p = Some (Inl e, p)) \<or>
      (\<exists>b q. take_block p = Some (Inr b, q) \<and> ok q \<and> same p q \<and> refs p b = 0 \<and>
        refs q = (refs p)(b := 1) \<and> holds q = (holds p)(b := None))"
begin

lemma alloc_some_ok:
  assumes "ok p"
  shows "\<exists>e bs q. alloc_up_to take_block k p = Some (e, bs, q) \<and> ok q \<and> same p q \<and>
      (e = None \<longrightarrow> length bs = k) \<and> distinct bs \<and> (\<forall>b \<in> set bs. refs p b = 0) \<and>
      refs q = (\<lambda>b. refs p b + count_list bs b) \<and>
      holds q = (\<lambda>b. if b \<in> set bs then None else holds p b)"
  using assms
proof (induction k arbitrary: p)
  case 0
  then show ?case by (simp add: source_refl)
next
  case (Suc k)
  from take_cases [OF Suc.prems] consider e where "take_block p = Some (Inl e, p)"
    | b p1 where "take_block p = Some (Inr b, p1)" "ok p1" "same p p1" "refs p b = 0"
      "refs p1 = (refs p)(b := 1)" "holds p1 = (holds p)(b := None)" by blast
  then show ?case
  proof cases
    case 1
    with Suc.prems show ?thesis by (simp add: source_refl)
  next
    case p1: 2
    from Suc.IH [OF p1(2)] obtain e bs q where q: "alloc_up_to take_block k p1 = Some (e, bs, q)"
        "ok q" "same p1 q" "e = None \<longrightarrow> length bs = k" "distinct bs" "\<forall>b \<in> set bs. refs p1 b = 0"
        "refs q = (\<lambda>b. refs p1 b + count_list bs b)"
        "holds q = (\<lambda>b. if b \<in> set bs then None else holds p1 b)" by blast
    have b: "b \<notin> set bs" using q(6) p1(5) by auto
    have "refs q = (\<lambda>c. refs p c + count_list (b # bs) c)"
      using q(7) p1(4,5) b by (auto simp: fun_eq_iff count_list_0_iff)
    moreover have "holds q = (\<lambda>c. if c \<in> set (b # bs) then None else holds p c)"
      using q(8) p1(6) by (auto simp: fun_eq_iff)
    moreover have "\<forall>c \<in> set (b # bs). refs p c = 0"
      using q(6) p1 by (auto split: if_splits)
    ultimately show ?thesis
      using p1(1) q b source_trans [OF p1(3) q(3)]
      by (intro exI [of _ e] exI [of _ "b # bs"] exI [of _ q]) simp
  qed
qed

end

sublocale block_store \<subseteq> source: block_source ok refs holds same take_block
proof unfold_locales
  show "same p p" for p by (rule same_refl)
  show "same p q \<Longrightarrow> same q r \<Longrightarrow> same p r" for p q r by (rule same_trans)
  show "(\<exists>e. take_block p = Some (Inl e, p)) \<or>
      (\<exists>b q. take_block p = Some (Inr b, q) \<and> ok q \<and> same p q \<and> refs p b = 0 \<and>
        refs q = (refs p)(b := 1) \<and> holds q = (holds p)(b := None))" if "ok p" for p
    using take_none [OF that] take_some [OF that] by (cases "available p = 0") auto
qed

interpretation guarded: block_source pool_inv rc content same_geometry allocate_guarded
proof unfold_locales
  fix p assume inv: "pool_inv p"
  show "(\<exists>e. allocate_guarded p = Some (Inl e, p)) \<or>
      (\<exists>b q. allocate_guarded p = Some (Inr b, q) \<and> pool_inv q \<and> same_geometry p q \<and> rc p b = 0 \<and>
        rc q = (rc p)(b := 1) \<and> content q = (content p)(b := None))"
    using bp.source.take_cases [OF inv] by (simp add: allocate_guarded_def)
qed (auto intro: same_geometry_trans)

end
