(* ===== verification/Cache_Properties.thy ===== *)
theory Cache_Properties
  imports Pool_Refinement
begin

text \<open>
  What the block cache (\<open>vapi-cache\<close>) promises to the scheduler: the properties of the pool and of
  the content addresses, each with an instance at a concrete input.
\<close>

section \<open>The pool\<close>

text \<open>A small pool for the instances: three blocks of four tokens, nothing reserved.\<close>

definition demo_pool :: block_pool where
  "demo_pool = the (pool_new 3 4 0)"

lemma demo_pool_new: "pool_new 3 4 0 = Some demo_pool"
proof -
  from pool_new_ok [of 4 3 0] obtain p where "pool_new 3 4 0 = Some p" by (auto simp: NONE_def)
  then show ?thesis by (simp add: demo_pool_def)
qed

lemma demo_pool_facts:
  "pool_inv demo_pool" "free_blocks demo_pool = [0, 1, 2]" "rc demo_pool = (\<lambda>_. 0)"
  "content demo_pool = (\<lambda>_. None)" "num_blocks demo_pool = 3" "block_size demo_pool = 4"
proof -
  from pool_new_ok [of 4 3 0] demo_pool_new have p: "pool_ok demo_pool [0..<3]" "rc demo_pool = (\<lambda>_. 0)"
    "content demo_pool = (\<lambda>_. None)" "num_blocks demo_pool = 3" "block_size demo_pool = 4"
    by (auto simp: NONE_def)
  then show "pool_inv demo_pool" "rc demo_pool = (\<lambda>_. 0)" "content demo_pool = (\<lambda>_. None)"
    "num_blocks demo_pool = 3" "block_size demo_pool = 4" by (auto simp: pool_inv_def)
  show "free_blocks demo_pool = [0, 1, 2]" using free_blocks_eq [OF p(1)] by (simp add: upt_rec)
qed

text \<open>
  In every pool that calls of the interface can produce, the block bookkeeping is consistent: the
  free list is a well-formed doubly linked list of exactly the unreferenced blocks, the hash index
  and the per-block hashes agree, and the runtime check \<open>check_invariants\<close> passes.
\<close>

theorem pool_reachable_consistent:
  assumes "pool_reachable p"
  shows "pool_inv p \<and> check_invariants p"
  using pool_reachable_inv [OF assms] pool_ok_check_invariants by (auto simp: pool_inv_def)

theorem pool_reachable_consistent_witness: "pool_inv demo_pool \<and> check_invariants demo_pool"
  by (rule pool_reachable_consistent, rule reach_new [OF _ demo_pool_new]) (simp add: NONE_def)

text \<open>
  C8: The pool refines the abstract pool in which the free list is a list and the index a search:
  \<open>allocate\<close>, \<open>free\<close>, \<open>publish\<close> and \<open>match_prefix\<close> return what the abstract operations return and
  their results abstract to the abstract results; \<open>match_prefix\<close> reports the abstract match with its
  length in tokens and adds the tokens asked for and the tokens found to the two counters.  None of
  them panics when a released block is referenced and a published block exists.  The reference counts
  of the code have 32 bits: as long as a call starts with counts that leave room for its own
  references, every count it leaves fits as well.
\<close>

theorem pool_refines_abstract_pool:
  assumes "pool_inv p" "\<forall>b. rc p b + max 1 (length hs) < 2 ^ 32"
  shows "(\<exists>q. allocate p = Some (fst (a_allocate (abs_pool p)), q) \<and> pool_inv q \<and>
      abs_pool q = snd (a_allocate (abs_pool p)) \<and> (\<forall>b. rc q b < 2 ^ 32)) \<and>
    (0 < rc p i \<longrightarrow> (\<exists>q. free i p = Some q \<and> pool_inv q \<and> abs_pool q = a_release i (abs_pool p) \<and>
      (\<forall>b. rc q b < 2 ^ 32))) \<and>
    (i < num_blocks p \<longrightarrow> (\<exists>q. publish i h p = Some (fst (a_publish i h (abs_pool p)), q) \<and> pool_inv q \<and>
      abs_pool q = snd (a_publish i h (abs_pool p)) \<and> (\<forall>b. rc q b < 2 ^ 32))) \<and>
    (\<exists>q. match_prefix hs p =
        Some (\<lparr>pm_blocks = fst (a_match hs (abs_pool p)), pm_tokens = length (fst (a_match hs (abs_pool p))) * block_size p\<rparr>, q) \<and>
      pool_inv q \<and> abs_pool q = snd (a_match hs (abs_pool p)) \<and> (\<forall>b. rc q b < 2 ^ 32) \<and>
      queried_tokens q = queried_tokens p + length hs * block_size p \<and>
      hit_tokens q = hit_tokens p + length (fst (a_match hs (abs_pool p))) * block_size p)"
proof -
  have room: "rc q b < 2 ^ 32" if "abs_pool q = a" "a_rc a b \<le> rc p b + max 1 (length hs)" for q a b
    using that(2) assms(2) [rule_format, of b] by (simp add: that(1) [symmetric] abs_pool_def)
  have le: "a_rc (snd (a_allocate (abs_pool p))) b \<le> rc p b + max 1 (length hs)"
      "a_rc (a_release i (abs_pool p)) b \<le> rc p b + max 1 (length hs)"
      "a_rc (snd (a_publish i h (abs_pool p))) b \<le> rc p b + max 1 (length hs)"
      "a_rc (snd (a_match hs (abs_pool p))) b \<le> rc p b + max 1 (length hs)" for b
    using a_step_rc(1) [of "abs_pool p" b] a_step_rc(2) [of i "abs_pool p" b] a_step_rc(3) [of i h "abs_pool p" b]
      a_match_rc [of hs "abs_pool p" b] by (simp_all add: abs_pool_def)
  show ?thesis
    using allocate_refines [OF assms(1)] free_refines [OF assms(1), of i] publish_refines [OF assms(1), of i h]
      match_prefix_refines [OF assms(1), of hs] room [OF _ le(1)] room [OF _ le(2)] room [OF _ le(3)] room [OF _ le(4)]
    by blast
qed

theorem pool_refines_abstract_pool_witness:
  "\<exists>p q. publish 1 (BlockHash [7]) demo_pool = Some (1, p) \<and>
     match_prefix [BlockHash [7], BlockHash [8]] p = Some (\<lparr>pm_blocks = [1], pm_tokens = 4\<rparr>, q) \<and>
     queried_tokens q = queried_tokens p + 8 \<and> hit_tokens q = hit_tokens p + 4"
proof -
  let ?h = "BlockHash [7]" and ?hs = "[BlockHash [7], BlockHash [8]]"
  have abs: "abs_pool demo_pool = \<lparr>a_size = 3, a_free = [0, 1, 2], a_rc = (\<lambda>_. 0), a_content = (\<lambda>_. None)\<rparr>"
    by (simp add: abs_pool_def demo_pool_facts)
  have pub: "a_publish 1 ?h (abs_pool demo_pool) = (1, abs_pool demo_pool\<lparr>a_content := [1 \<mapsto> ?h]\<rparr>)"
    by (simp add: abs a_publish_def a_find_def upt_rec numeral_3_eq_3)
  have "\<exists>p. publish 1 ?h demo_pool = Some (fst (a_publish 1 ?h (abs_pool demo_pool)), p) \<and> pool_inv p \<and>
      abs_pool p = snd (a_publish 1 ?h (abs_pool demo_pool))"
    using pool_refines_abstract_pool [OF demo_pool_facts(1), of "[]" 1 ?h] by (auto simp: demo_pool_facts)
  then obtain p where p: "publish 1 ?h demo_pool = Some (1, p)" "pool_inv p"
      "abs_pool p = abs_pool demo_pool\<lparr>a_content := [1 \<mapsto> ?h]\<rparr>" using pub by auto
  have m: "fst (a_match ?hs (abs_pool p)) = [1]"
    by (simp add: p(3) abs a_find_def a_reference_def upt_rec numeral_3_eq_3)
  have "block_size p = 4"
    using publish_refines [OF demo_pool_facts(1), of 1 ?h] p(1) by (auto simp: demo_pool_facts same_geometry_def)
  moreover have "rc p b = 0" for b using arg_cong [OF p(3), of a_rc] by (simp add: abs_pool_def demo_pool_facts)
  moreover from this have "\<forall>b. rc p b + max 1 (length ?hs) < 2 ^ 32" by simp
  ultimately show ?thesis
    using p(1) m pool_refines_abstract_pool [OF p(2), of ?hs 0 ?h] by auto
qed

text \<open>
  \<open>allocate\<close> hands out the head of the free list, a block nobody references.  Its cached content,
  if it had any, is gone from the index, counted as an eviction and, with tracking on, reported for
  the spill tier; no other block changes.  It fails exactly when no block is free.
\<close>

theorem allocate_takes_unreferenced:
  assumes "pool_inv p"
  shows "((\<exists>q. allocate p = Some (Inl Exhausted, q)) \<longleftrightarrow> num_free p = 0) \<and>
    (\<forall>b q. allocate p = Some (Inr b, q) \<longrightarrow>
      b = hd (free_blocks p) \<and> rc p b = 0 \<and> rc q = (rc p)(b := 1) \<and> content q = (content p)(b := None) \<and>
      (\<forall>h. by_hash q h \<noteq> Some b) \<and> evictions q = evictions p + (if content p b = None then 0 else 1) \<and>
      evicted_content q = evicted_content p @ evicted_entry p b)"
proof -
  from assms have ok: "pool_ok p (free_blocks p)" by (simp add: pool_inv_iff)
  then have nf: "num_free p = length (free_blocks p)" by (simp add: pool_ok_def)
  have "(\<exists>q. allocate p = Some (Inl Exhausted, q)) \<longleftrightarrow> num_free p = 0"
    using nf ok allocate_empty [of p] allocate_ok [of p] by (cases "free_blocks p") auto
  moreover have "b = hd (free_blocks p) \<and> rc p b = 0 \<and> rc q = (rc p)(b := 1) \<and> content q = (content p)(b := None) \<and>
      (\<forall>h. by_hash q h \<noteq> Some b) \<and> evictions q = evictions p + (if content p b = None then 0 else 1) \<and>
      evicted_content q = evicted_content p @ evicted_entry p b" if a: "allocate p = Some (Inr b, q)" for b q
  proof (cases "free_blocks p")
    case Nil
    with ok allocate_empty [of p] a show ?thesis by simp
  next
    case (Cons i xs)
    with allocate_ok [of p i xs] ok a have q: "i = b" "pool_ok q xs" "rc q = (rc p)(b := 1)"
        "content q = (content p)(b := None)" "evicted_content q = evicted_content p @ evicted_entry p b"
        "evictions q = evictions p + (if content p b = None then 0 else 1)" by auto
    have "rc p b = 0" using ok Cons q(1) by (auto simp: pool_ok_def unreferenced_def)
    moreover have "by_hash q h \<noteq> Some b" for h using pool_ok_by_hash [OF q(2), of h b] q(4) by simp
    ultimately show ?thesis using Cons q by simp
  qed
  ultimately show ?thesis by blast
qed

theorem allocate_takes_unreferenced_witness:
  "\<not> (\<exists>q. allocate demo_pool = Some (Inl Exhausted, q))"
proof -
  have "num_free demo_pool \<noteq> 0"
    using pool_inv_num_free [OF demo_pool_facts(1)] demo_pool_facts by (simp add: unreferenced_def)
  with allocate_takes_unreferenced [OF demo_pool_facts(1)] show ?thesis by simp
qed

text \<open>
  Publishing makes content findable under one canonical block: after \<open>publish i h\<close> the index
  maps \<open>h\<close> to the returned block, which is \<open>i\<close> unless another block already held that content, and
  a later prefix match for \<open>h\<close> returns exactly that block.
\<close>

theorem publish_then_match:
  assumes "pool_inv p" "i < num_blocks p" "publish i h p = Some (c, q)"
  shows "by_hash q h = Some c \<and> (c = i \<or> by_hash p h = Some c) \<and>
    (\<exists>r. match_prefix [h] q = Some (\<lparr>pm_blocks = [c], pm_tokens = block_size p\<rparr>, r))"
proof -
  from assms(1) obtain xs where ok: "pool_ok p xs" by (auto simp: pool_inv_def)
  have "\<exists>ys. pool_ok q ys \<and> by_hash q h = Some c \<and> (c = i \<or> by_hash p h = Some c) \<and> block_size q = block_size p"
  proof (cases "\<exists>e. by_hash p h = Some e \<and> e \<noteq> i")
    case True
    then obtain e where e: "by_hash p h = Some e" "e \<noteq> i" by auto
    from publish_adopt_ok [OF ok e] assms(3) have q: "c = e" "pool_ok q (filter (\<lambda>j. j \<noteq> e) xs)"
        "content q = content p" "same_geometry p q" by auto
    with by_hash_cong [OF ok q(2,3)] e show ?thesis by (auto simp: same_geometry_def)
  next
    case False
    then have "by_hash p h \<in> {None, Some i}" by (cases "by_hash p h") auto
    from publish_first_ok [OF ok assms(2) this] assms(3) have q: "c = i" "pool_ok q xs"
        "content q = (content p)(i := Some h)" "same_geometry p q" by auto
    then have "by_hash q h = Some i" by (simp add: pool_ok_by_hash [OF q(2)])
    with q show ?thesis by (auto simp: same_geometry_def)
  qed
  then obtain ys where q: "pool_ok q ys" "by_hash q h = Some c" "c = i \<or> by_hash p h = Some c"
      "block_size q = block_size p" by blast
  have "matched q [h] = [c]" using q(2) by (simp add: matched_def)
  with match_prefix_ok [OF q(1), of "[h]"] q show ?thesis by auto
qed

theorem publish_then_match_witness:
  "\<exists>q r. publish 1 (BlockHash [7]) demo_pool = Some (1, q) \<and>
     match_prefix [BlockHash [7]] q = Some (\<lparr>pm_blocks = [1], pm_tokens = 4\<rparr>, r)"
proof -
  have i: "1 < num_blocks demo_pool" by (simp add: demo_pool_facts)
  from publish_refines [OF demo_pool_facts(1) i] obtain c q where
      p: "publish 1 (BlockHash [7]) demo_pool = Some (c, q)" by blast
  have "by_hash demo_pool (BlockHash [7]) = None"
    using demo_pool_facts(1,4) by (auto simp: pool_inv_def pool_ok_by_hash_None)
  with publish_then_match [OF demo_pool_facts(1) i p] p show ?thesis by (auto simp: demo_pool_facts)
qed

text \<open>
  A prefix match returns the blocks of the longest run of indexed hashes from the start, in
  order: each returned block holds the content asked for, the next hash is not in the index, and the
  only change is one more reference per returned block.
\<close>

theorem match_prefix_longest:
  assumes "pool_inv p"
  shows "\<exists>m q. match_prefix hs p = Some (m, q) \<and> pool_inv q \<and>
    pm_tokens m = length (pm_blocks m) * block_size p \<and> length (pm_blocks m) \<le> length hs \<and>
    (\<forall>k < length (pm_blocks m). content p (pm_blocks m ! k) = Some (hs ! k)) \<and>
    (length (pm_blocks m) < length hs \<longrightarrow> by_hash p (hs ! length (pm_blocks m)) = None) \<and>
    rc q = (\<lambda>b. rc p b + count_list (pm_blocks m) b) \<and> content q = content p"
proof -
  from assms obtain xs where ok: "pool_ok p xs" by (auto simp: pool_inv_def)
  let ?n = "length (takeWhile (\<lambda>h. by_hash p h \<noteq> None) hs)"
  have len: "length (matched p hs) = ?n" by (simp add: matched_def)
  have "content p (matched p hs ! k) = Some (hs ! k)" if "k < ?n" for k
  proof -
    have "by_hash p (hs ! k) \<noteq> None"
      using that nth_mem [OF that] takeWhile_nth [OF that] by (metis set_takeWhileD)
    then obtain b where b: "by_hash p (hs ! k) = Some b" by blast
    then have "matched p hs ! k = b" using that takeWhile_nth [OF that] by (simp add: matched_def)
    with b pool_ok_by_hash [OF ok] show ?thesis by simp
  qed
  moreover have "by_hash p (hs ! ?n) = None" if "?n < length hs"
    using nth_length_takeWhile [OF that] by simp
  moreover have "?n \<le> length hs" by (rule length_takeWhile_le)
  ultimately show ?thesis
    using match_prefix_ok [OF ok, of hs] len by (auto simp: pool_inv_def)
qed

theorem match_prefix_longest_witness:
  "\<exists>q. match_prefix [BlockHash [7]] demo_pool = Some (\<lparr>pm_blocks = [], pm_tokens = 0\<rparr>, q)"
proof -
  from match_prefix_longest [OF demo_pool_facts(1), of "[BlockHash [7]]"] obtain m q where
      m: "match_prefix [BlockHash [7]] demo_pool = Some (m, q)" "pm_tokens m = length (pm_blocks m) * 4"
        "\<forall>k < length (pm_blocks m). content demo_pool (pm_blocks m ! k) = Some ([BlockHash [7]] ! k)"
    by (auto simp: demo_pool_facts)
  then have "pm_blocks m = []" by (cases "pm_blocks m") (auto simp: demo_pool_facts)
  with m show ?thesis by (cases m) auto
qed

section \<open>Content addresses\<close>

text \<open>
  The hashes of a prompt extend the hashes of its prefixes: there is one hash per full block, and
  the chain of the first \<open>k\<close> blocks is the first \<open>k\<close> hashes of the whole chain.  This is what makes
  a prefix match meaningful.
\<close>

theorem hash_block_chain_prefix:
  assumes "0 < bs" "k * bs \<le> length ts"
  shows "length (hash_block_chain blake3 ns ts bs) = length ts div bs \<and>
    hash_block_chain blake3 ns (take (k * bs) ts) bs = take k (hash_block_chain blake3 ns ts bs)"
  using assms by (simp add: hash_block_chain_take)

theorem hash_block_chain_prefix_witness:
  "hash_block_chain id (ns_new id ''m'' ''w'' F16 None ''t'') [1, 2, 3, 4] 2
     = take 2 (hash_block_chain id (ns_new id ''m'' ''w'' F16 None ''t'') [1, 2, 3, 4, 5] 2)"
  using hash_block_chain_prefix [of 2 2 "[1, 2, 3, 4, 5]"] by simp

text \<open>
  C9: A block hash identifies the whole prefix and the whole namespace: when two requests agree on
  one hash, they agree on the position of the block, on every token up to and including it, and on
  model, weights, dtype and tenant.  The hypothesis is that BLAKE3 does not collide on the byte
  strings that the two requests hash.
\<close>

theorem hash_block_chain_injective:
  fixes bs :: nat
  assumes blake3: "\<forall>x. length (blake3 x) = 32"
    and no_collision: "inj_on blake3 (set (hash_inputs blake3 m w d l t ts bs) \<union>
      set (hash_inputs blake3 m' w' d' l' t' us bs))"
    and sizes: "0 < bs" "bs < 2 ^ 64" "\<forall>x \<in> set ts \<union> set us. x < 2 ^ 32"
      "\<forall>s \<in> {m, w, lora_or_empty l, t, m', w', lora_or_empty l', t'}. length s < 2 ^ 64"
    and i: "i < length ts div bs" "j < length us div bs"
    and eq: "hash_block_chain blake3 (ns_new blake3 m w d l t) ts bs ! i
      = hash_block_chain blake3 (ns_new blake3 m' w' d' l' t') us bs ! j"
  shows "i = j \<and> take (Suc i * bs) ts = take (Suc i * bs) us \<and>
    m = m' \<and> w = w' \<and> d = d' \<and> lora_or_empty l = lora_or_empty l' \<and> t = t'"
proof -
  let ?cs = "chunks_exact bs ts" and ?ds = "chunks_exact bs us"
  have chunk: "\<forall>c \<in> set ?cs \<union> set ?ds. length c < 2 ^ 64 \<and> (\<forall>x \<in> set c. x < 2 ^ 32)"
  proof
    fix c assume "c \<in> set ?cs \<union> set ?ds"
    then have "length c = bs \<and> set c \<subseteq> set ts \<union> set us" by (auto dest: chunks_exact_length)
    with sizes(2,3) show "length c < 2 ^ 64 \<and> (\<forall>x \<in> set c. x < 2 ^ 32)" by auto
  qed
  have len: "i < length ?cs" "j < length ?ds" using i by (simp_all add: length_chunks_exact)
  have r: "i = j \<and> ns_input m w d l t = ns_input m' w' d' l' t' \<and> (\<forall>k\<le>i. ?cs ! k = ?ds ! k)"
    by (rule chain_from_inj [OF blake3 _ refl _ refl _ chunk len])
       (use no_collision eq in \<open>auto simp: ns_new_def hash_inputs_def hash_block_chain_def insert_commute\<close>)
  then have "take (Suc i) ?cs = take (Suc i) ?ds"
    using len by (intro nth_equalityI) (auto simp: less_Suc_eq_le)
  moreover have fits: "Suc i * bs \<le> length xs" if "i < length xs div bs" for xs :: "token list"
  proof -
    have "Suc i * bs \<le> length xs div bs * bs" using that by (intro mult_le_mono1) simp
    then show ?thesis by (rule le_trans) simp
  qed
  moreover have "Suc i * bs \<le> length ts" "Suc i * bs \<le> length us" using fits i r by auto
  moreover have full: "concat (chunks_exact bs xs) = xs" if "length xs = Suc i * bs" for xs :: "token list"
    using that sizes(1) by (simp add: concat_chunks_exact del: mult_Suc)
  ultimately have "take (Suc i * bs) ts = take (Suc i * bs) us"
    using sizes(1) full [of "take (Suc i * bs) ts"] full [of "take (Suc i * bs) us"]
    by (simp add: chunks_exact_take del: mult_Suc)
  with r ns_input_inj [OF _ sizes(4)] show ?thesis by blast
qed

text \<open>A function that keeps the last bytes of its input apart, for the instance.\<close>

definition tail_hash :: "bytes \<Rightarrow> bytes" where
  "tail_hash x = take 32 (rev x @ replicate 32 0)"

theorem hash_block_chain_injective_witness:
  "take (Suc 0 * 1) [5] = take (Suc 0 * 1) [5, 6 :: token]"
proof -
  have "inj_on tail_hash (set (hash_inputs tail_hash ''m'' ''w'' F16 None ''t'' [5] 1) \<union>
      set (hash_inputs tail_hash ''m'' ''w'' F16 None ''t'' [5, 6] 1))"
    by code_simp
  moreover have "hash_block_chain tail_hash (ns_new tail_hash ''m'' ''w'' F16 None ''t'') [5] 1 ! 0
      = hash_block_chain tail_hash (ns_new tail_hash ''m'' ''w'' F16 None ''t'') [5, 6] 1 ! 0"
    by code_simp
  ultimately show ?thesis
    using hash_block_chain_injective [of tail_hash "''m''" "''w''" F16 None "''t''" "[5]" 1
        "''m''" "''w''" F16 None "''t''" "[5, 6]" 0 0]
    by (simp add: tail_hash_def lora_or_empty_def)
qed

lemma digit_val_hex: "d < 16 \<Longrightarrow> digit_val (hex_digit d) = Some d \<and> hex_digit d \<noteq> CHR ''+''"
proof -
  have "\<forall>d \<in> set [0..<16]. digit_val (hex_digit d) = Some d \<and> hex_digit d \<noteq> CHR ''+''" by code_simp
  then show "d < 16 \<Longrightarrow> digit_val (hex_digit d) = Some d \<and> hex_digit d \<noteq> CHR ''+''" by simp
qed

lemma byte_of_hex_byte: "byte_of_hex (hex_digit (unat b div 16)) (hex_digit (unat b mod 16)) = Some b"
proof -
  have "unat b < 2 ^ LENGTH(8)" by (rule unsigned_less)
  then have "unat b div 16 < 16" "unat b mod 16 < 16" by auto
  moreover have "word_of_nat (16 * (unat b div 16) + unat b mod 16) = b"
    unfolding mult_div_mod_eq by simp
  ultimately show ?thesis by (simp add: byte_of_hex_def digit_val_hex del: of_nat_add of_nat_mult)
qed

lemma bytes_of_hex_hex: "bytes_of_hex (concat (map hex_byte bs)) = Some bs"
  by (induction bs) (simp_all add: hex_byte_def byte_of_hex_byte)

text \<open>
  The hexadecimal form of a hash, under which a spilled block is stored on disk, round-trips:
  reading it back gives the hash.
\<close>

theorem hex_round_trip:
  assumes "length (as_bytes h) = 32"
  shows "from_hex (to_hex h) = Some h"
proof -
  have "length (concat (map hex_byte bs)) = 2 * length bs" for bs
    by (induction bs) (simp_all add: hex_byte_def)
  then show ?thesis using assms by (simp add: from_hex_def to_hex_def bytes_of_hex_hex)
qed

theorem hex_round_trip_witness:
  "from_hex (to_hex (BlockHash (replicate 32 171))) = Some (BlockHash (replicate 32 171))"
  using hex_round_trip [of "BlockHash (replicate 32 171)"] by simp

end
