(* ===== verification/Sequence.thy ===== *)
theory Sequence
  imports Core_Types
begin

text \<open>
  One in-flight generation (\<open>vapi-engine/src/sequence.rs\<close>): its tokens, how many of them have K/V
  in the cache, the blocks that hold it, and when it is finished.
\<close>

datatype seq_status =
    Waiting
  | Prefilling
  | Decoding
  | Preempted
  | Finished finish_reason

fun is_finished :: "seq_status \<Rightarrow> bool" where
  "is_finished (Finished _) = True"
| "is_finished _ = False"

fun is_active :: "seq_status \<Rightarrow> bool" where
  "is_active Prefilling = True"
| "is_active Decoding = True"
| "is_active _ = False"

record sequence =
  request_id :: string
  params :: sampling_params
  status :: seq_status
  tokens :: "token list"
  prompt_len :: nat
  num_computed :: nat
  prefill_target :: nat
  blocks :: "block_id list"
  cached_prefix_tokens :: nat
  num_cached_blocks :: nat
  seq_namespace :: string

definition sequence_new :: "string \<Rightarrow> token list \<Rightarrow> sampling_params \<Rightarrow> string \<Rightarrow> sequence" where
  "sequence_new rid prompt ps ns =
     \<lparr>request_id = rid, params = ps, status = Waiting, tokens = prompt,
      prompt_len = length prompt, num_computed = 0, prefill_target = length prompt,
      blocks = [], cached_prefix_tokens = 0, num_cached_blocks = 0, seq_namespace = ns\<rparr>"

definition adopt_prefilled :: "block_id list \<Rightarrow> nat \<Rightarrow> nat \<Rightarrow> sequence \<Rightarrow> sequence" where
  "adopt_prefilled bs computed cached q =
     q\<lparr>blocks := bs, num_computed := computed, num_cached_blocks := cached, status := Decoding\<rparr>"

definition total_len :: "sequence \<Rightarrow> nat" where
  "total_len q = length (tokens q)"

definition generated :: "sequence \<Rightarrow> token list" where
  "generated q = drop (prompt_len q) (tokens q)"

definition num_generated :: "sequence \<Rightarrow> nat" where
  "num_generated q = length (tokens q) - prompt_len q"

definition remaining_prefill :: "sequence \<Rightarrow> nat" where
  "remaining_prefill q = prefill_target q - num_computed q"

definition needs_prefill :: "sequence \<Rightarrow> bool" where
  "needs_prefill q = (remaining_prefill q > 0)"

definition adopt_cached_prefix :: "block_id list \<Rightarrow> nat \<Rightarrow> sequence \<Rightarrow> sequence option" where
  "adopt_cached_prefix bs toks q = do {
     ensure (num_computed q = 0);
     ensure (toks \<le> prefill_target q);
     Some (q\<lparr>num_cached_blocks := length bs, blocks := bs, cached_prefix_tokens := toks,
             num_computed := toks\<rparr>) }"

definition advance_computed :: "nat \<Rightarrow> sequence \<Rightarrow> sequence option" where
  "advance_computed n q = do {
     let q = q\<lparr>num_computed := num_computed q + n\<rparr>;
     ensure (num_computed q \<le> length (tokens q));
     Some q }"

definition push_token :: "token \<Rightarrow> sequence \<Rightarrow> sequence" where
  "push_token t q = q\<lparr>tokens := tokens q @ [t]\<rparr>"

definition reset_for_recompute :: "sequence \<Rightarrow> sequence" where
  "reset_for_recompute q =
     q\<lparr>blocks := [], num_computed := 0, num_cached_blocks := 0, cached_prefix_tokens := 0,
       prefill_target := length (tokens q), status := Preempted\<rparr>"

definition check_finished :: "token list \<Rightarrow> nat \<Rightarrow> sequence \<Rightarrow> finish_reason option" where
  "check_finished eos max_context q =
     (if tokens q \<noteq> [] \<and> num_generated q > 0 \<and> last (tokens q) \<in> set eos then Some Stop
      else if tokens q = [] then None
      else if last (tokens q) \<in> set (stop_token_ids (stop (params q))) \<and> num_generated q > 0
      then Some Stop
      else if num_generated q \<ge> max_tokens (params q) then Some Length
      else if total_len q \<ge> max_context then Some Length
      else None)"

lemma needs_prefill_iff: "needs_prefill q \<longleftrightarrow> num_computed q < prefill_target q"
  by (auto simp: needs_prefill_def remaining_prefill_def)

lemma check_finished_None_len:
  "check_finished eos mc q = None \<Longrightarrow> tokens q \<noteq> [] \<Longrightarrow> length (tokens q) < mc"
  by (auto simp: check_finished_def total_len_def split: if_splits)

end
