(* ===== verification/Forward_Batch.thy ===== *)
theory Forward_Batch
  imports Core_Types
begin

text \<open>
  One step's work in the shape a paged attention kernel wants, and the structural check the mock
  backend runs on every batch (\<open>vapi-engine/src/backend.rs\<close>).  Each distinct message of
  \<open>validate\<close> is a constructor of \<open>batch_error\<close> with the numbers the message prints.
\<close>

record model_spec =
  num_layers :: nat
  num_kv_heads :: nat
  head_dim :: nat
  vocab_size :: nat
  spec_max_context :: nat
  eos_token_ids :: "token list"

definition kv_bytes_per_token :: "model_spec \<Rightarrow> nat \<Rightarrow> nat" where
  "kv_bytes_per_token m dtype_bytes =
     2 * num_layers m * num_kv_heads m * head_dim m * dtype_bytes"

definition tiny_spec :: model_spec where
  "tiny_spec = \<lparr>num_layers = 2, num_kv_heads = 2, head_dim = 8, vocab_size = 256,
     spec_max_context = 512, eos_token_ids = [0]\<rparr>"

record forward_batch =
  fb_tokens :: "token list"
  positions :: "nat list"
  cu_seqlens_q :: "nat list"
  cu_seqlens_k :: "nat list"
  slot_mapping :: "nat list"
  block_tables :: "nat list list"
  logits_indices :: "nat list"
  max_seqlen_q :: nat
  max_seqlen_k :: nat

definition empty_batch :: forward_batch where
  "empty_batch = \<lparr>fb_tokens = [], positions = [], cu_seqlens_q = [], cu_seqlens_k = [],
     slot_mapping = [], block_tables = [], logits_indices = [], max_seqlen_q = 0, max_seqlen_k = 0\<rparr>"

definition batch_size :: "forward_batch \<Rightarrow> nat" where
  "batch_size b = length (cu_seqlens_q b) - 1"

definition num_tokens :: "forward_batch \<Rightarrow> nat" where
  "num_tokens b = length (fb_tokens b)"

definition batch_is_empty :: "forward_batch \<Rightarrow> bool" where
  "batch_is_empty b = (fb_tokens b = [])"

datatype batch_error =
    PositionsDisagree nat nat
  | SlotsDisagree nat nat
  | CuLengthsDiffer
  | CuNotFromZero
  | TablesDisagree nat nat
  | CuQNotMonotonic
  | CuKNotMonotonic
  | CuQEndsAt nat nat
  | MoreQueriesThanKeys nat nat nat
  | TableTooShort nat nat nat nat
  | NoSuchBlock nat nat nat
  | PositionsNotContiguous nat nat
  | SlotWrittenTwice nat
  | SlotPastEnd nat
  | LogitsPastEnd nat

type_synonym check = "batch_error + unit"

fun first_error :: "check list \<Rightarrow> check" where
  "first_error [] = Inr ()"
| "first_error (Inl e # cs) = Inl e"
| "first_error (Inr _ # cs) = first_error cs"

definition bail_if :: "bool \<Rightarrow> batch_error \<Rightarrow> check" where
  "bail_if b e = (if b then Inl e else Inr ())"

fun monotonic :: "nat list \<Rightarrow> bool" where
  "monotonic (x # y # zs) = (x \<le> y \<and> monotonic (y # zs))"
| "monotonic _ = True"

fun adjacent_equal :: "nat list \<Rightarrow> nat option" where
  "adjacent_equal (x # y # zs) = (if x = y then Some x else adjacent_equal (y # zs))"
| "adjacent_equal _ = None"

definition seq_checks :: "forward_batch \<Rightarrow> nat \<Rightarrow> nat \<Rightarrow> nat \<Rightarrow> check list" where
  "seq_checks b num_blocks block_size i =
     (let q = cu_seqlens_q b ! (i + 1) - cu_seqlens_q b ! i;
          k = cu_seqlens_k b ! (i + 1) - cu_seqlens_k b ! i;
          need = div_ceil k block_size;
          table = block_tables b ! i;
          lo = cu_seqlens_q b ! i
      in [bail_if (q > k) (MoreQueriesThanKeys i q k),
          bail_if (length table < need) (TableTooShort i need k (length table))]
         @ map (\<lambda>blk. bail_if (blk \<ge> num_blocks) (NoSuchBlock i blk num_blocks)) table
         @ map (\<lambda>j. bail_if (positions b ! j \<noteq> positions b ! (j - 1) + 1)
                      (PositionsNotContiguous i j)) [lo + 1..<lo + q])"

definition validate :: "forward_batch \<Rightarrow> nat \<Rightarrow> nat \<Rightarrow> check" where
  "validate b num_blocks block_size =
     first_error
       ([bail_if (length (fb_tokens b) \<noteq> length (positions b))
           (PositionsDisagree (length (fb_tokens b)) (length (positions b))),
         bail_if (length (fb_tokens b) \<noteq> length (slot_mapping b))
           (SlotsDisagree (length (fb_tokens b)) (length (slot_mapping b))),
         bail_if (length (cu_seqlens_q b) \<noteq> length (cu_seqlens_k b)) CuLengthsDiffer,
         bail_if (cu_seqlens_q b \<noteq> [] \<and> hd (cu_seqlens_q b) \<noteq> 0) CuNotFromZero,
         bail_if (length (block_tables b) \<noteq> batch_size b)
           (TablesDisagree (length (block_tables b)) (batch_size b)),
         bail_if (\<not> monotonic (cu_seqlens_q b)) CuQNotMonotonic,
         bail_if (\<not> monotonic (cu_seqlens_k b)) CuKNotMonotonic,
         bail_if (cu_seqlens_q b \<noteq> [] \<and> last (cu_seqlens_q b) \<noteq> length (fb_tokens b))
           (CuQEndsAt (last (cu_seqlens_q b)) (length (fb_tokens b)))]
        @ concat (map (seq_checks b num_blocks block_size) [0..<batch_size b])
        @ [case adjacent_equal (sort (slot_mapping b)) of
             Some s \<Rightarrow> Inl (SlotWrittenTwice s) | None \<Rightarrow> Inr (),
           bail_if (slot_mapping b \<noteq> [] \<and> last (sort (slot_mapping b)) \<ge> num_blocks * block_size)
             (SlotPastEnd (last (sort (slot_mapping b))))]
        @ map (\<lambda>i. bail_if (i \<ge> length (fb_tokens b)) (LogitsPastEnd i)) (logits_indices b))"

section \<open>Lemmas\<close>

lemma first_error_Inr: "first_error cs = Inr () \<longleftrightarrow> (\<forall>c \<in> set cs. c = Inr ())"
  by (induction cs rule: first_error.induct) auto

lemma bail_if_Inr [simp]: "bail_if b e = Inr () \<longleftrightarrow> \<not> b"
  by (simp add: bail_if_def)

lemma adjacent_equal_None: "sorted xs \<Longrightarrow> adjacent_equal xs = None \<longleftrightarrow> distinct xs"
  by (induction xs rule: adjacent_equal.induct) (auto simp: order.strict_iff_order)

lemma monotonic_sorted: "monotonic xs \<longleftrightarrow> sorted xs"
  by (induction xs rule: monotonic.induct) (auto intro: order_trans)

lemma last_sort_less: "xs \<noteq> [] \<Longrightarrow> \<forall>x \<in> set xs. x < n \<Longrightarrow> last (sort xs) < n"
  by (metis last_in_set set_empty set_sort)

lemma sorted_le_last: "sorted xs \<Longrightarrow> x \<in> set xs \<Longrightarrow> x \<le> last xs"
  by (induction xs) auto

text \<open>What a validated batch guarantees, as one predicate.\<close>

definition seq_wf :: "forward_batch \<Rightarrow> nat \<Rightarrow> nat \<Rightarrow> nat \<Rightarrow> bool" where
  "seq_wf b n bs i \<longleftrightarrow>
     cu_seqlens_q b ! (i + 1) - cu_seqlens_q b ! i \<le> cu_seqlens_k b ! (i + 1) - cu_seqlens_k b ! i \<and>
     div_ceil (cu_seqlens_k b ! (i + 1) - cu_seqlens_k b ! i) bs \<le> length (block_tables b ! i) \<and>
     (\<forall>blk \<in> set (block_tables b ! i). blk < n) \<and>
     (\<forall>j. cu_seqlens_q b ! i < j \<and> j < cu_seqlens_q b ! (i + 1) \<longrightarrow>
        positions b ! j = positions b ! (j - 1) + 1)"

definition batch_wf :: "forward_batch \<Rightarrow> nat \<Rightarrow> nat \<Rightarrow> bool" where
  "batch_wf b n bs \<longleftrightarrow>
     length (positions b) = length (fb_tokens b) \<and>
     length (slot_mapping b) = length (fb_tokens b) \<and>
     length (cu_seqlens_k b) = length (cu_seqlens_q b) \<and>
     (cu_seqlens_q b \<noteq> [] \<longrightarrow> hd (cu_seqlens_q b) = 0 \<and> last (cu_seqlens_q b) = length (fb_tokens b)) \<and>
     length (block_tables b) = batch_size b \<and>
     sorted (cu_seqlens_q b) \<and> sorted (cu_seqlens_k b) \<and>
     (\<forall>i < batch_size b. seq_wf b n bs i) \<and>
     distinct (slot_mapping b) \<and> (\<forall>s \<in> set (slot_mapping b). s < n * bs) \<and>
     (\<forall>i \<in> set (logits_indices b). i < length (fb_tokens b))"

lemma sorted_nth_Suc: "sorted xs \<Longrightarrow> Suc i < length xs \<Longrightarrow> xs ! i \<le> xs ! Suc i"
  by (simp add: sorted_iff_nth_mono)

lemma seq_checks_Inr:
  assumes "sorted (cu_seqlens_q b)" "i < batch_size b"
  shows "(\<forall>c \<in> set (seq_checks b n bs i). c = Inr ()) \<longleftrightarrow> seq_wf b n bs i"
proof -
  have "cu_seqlens_q b ! i \<le> cu_seqlens_q b ! Suc i"
    using assms by (intro sorted_nth_Suc) (auto simp: batch_size_def)
  then show ?thesis
    by (auto simp: seq_checks_def seq_wf_def Let_def not_less not_le Suc_le_eq ball_Un)
qed

lemma validate_iff: "validate b n bs = Inr () \<longleftrightarrow> batch_wf b n bs"
proof -
  have slots: "(case adjacent_equal (sort (slot_mapping b)) of
      Some s \<Rightarrow> Inl (SlotWrittenTwice s) | None \<Rightarrow> Inr ()) = Inr () \<longleftrightarrow> distinct (slot_mapping b)"
    using adjacent_equal_None [of "sort (slot_mapping b)"] by (auto split: option.splits)
  have bound: "(slot_mapping b \<noteq> [] \<longrightarrow> last (sort (slot_mapping b)) < n * bs) \<longleftrightarrow>
      (\<forall>s \<in> set (slot_mapping b). s < n * bs)"
  proof
    assume l: "slot_mapping b \<noteq> [] \<longrightarrow> last (sort (slot_mapping b)) < n * bs"
    have "s \<le> last (sort (slot_mapping b))" if "s \<in> set (slot_mapping b)" for s
      using that sorted_le_last [of "sort (slot_mapping b)" s] by simp
    with l show "\<forall>s \<in> set (slot_mapping b). s < n * bs" using order_le_less_trans by fastforce
  qed (auto intro: last_sort_less)
  show ?thesis
  proof (cases "sorted (cu_seqlens_q b)")
    case True
    then have seqs: "(\<forall>c \<in> set (concat (map (seq_checks b n bs) [0..<batch_size b])). c = Inr ()) \<longleftrightarrow>
        (\<forall>i < batch_size b. seq_wf b n bs i)"
      by (simp add: seq_checks_Inr [symmetric]) auto
    show ?thesis
      unfolding validate_def first_error_Inr batch_wf_def set_append ball_Un seqs
      using slots bound by (auto simp: monotonic_sorted not_le not_less)
  next
    case False
    then show ?thesis
      unfolding validate_def first_error_Inr batch_wf_def by (simp add: monotonic_sorted)
  qed
qed

end
