(* ===== verification/Scheduler.thy ===== *)
theory Scheduler
  imports Pool_Refinement Sequence Forward_Batch
begin

text \<open>
  The continuous-batching scheduler (\<open>vapi-engine/src/scheduler.rs\<close>): its state, and every
  operation as a function from the state to the state, in the order of the source.  \<open>None\<close> is a
  panic (an absent map key, an index out of range, a failed assertion) or, for the admission loop
  of \<open>schedule_prefills\<close>, not returning.
\<close>

section \<open>State\<close>

record scheduler_config =
  max_concurrent_seqs :: nat
  max_batched_tokens :: nat
  prefill_chunk_tokens :: nat
  max_context :: nat
  cfg_block_size :: nat
  prefix_cache :: bool

definition default_scheduler_config :: scheduler_config where
  "default_scheduler_config =
     \<lparr>max_concurrent_seqs = 64, max_batched_tokens = 8192, prefill_chunk_tokens = 2048,
      max_context = 8192, cfg_block_size = BLOCK_SIZE, prefix_cache = True\<rparr>"

record fork_result =
  fork_ids :: "seq_id list"
  fork_copies :: "(block_id \<times> block_id) list"

record step_plan =
  batch :: forward_batch
  batch_seqs :: "seq_id list"
  sampled_seqs :: "seq_id list"
  preempted :: "seq_id list"
  started :: "(seq_id \<times> nat) list"

definition empty_plan :: step_plan where
  "empty_plan =
     \<lparr>batch = empty_batch, batch_seqs = [], sampled_seqs = [], preempted = [], started = []\<rparr>"

record scheduler =
  cfg :: scheduler_config
  pool :: block_pool
  default_ns :: cache_namespace
  tenants :: "string \<rightharpoonup> cache_namespace"
  seqs :: "seq_id \<rightharpoonup> sequence"
  by_request :: "string \<rightharpoonup> seq_id list"
  waiting :: "seq_id list"
  running :: "seq_id list"
  finished :: "seq_id list"
  next_id :: nat
  eos_tokens :: "token list"

definition scheduler_new ::
  "scheduler_config \<Rightarrow> block_pool \<Rightarrow> cache_namespace \<Rightarrow> token list \<Rightarrow> scheduler" where
  "scheduler_new c p ns eos =
     \<lparr>cfg = c, pool = p, default_ns = ns, tenants = Map.empty, seqs = Map.empty,
      by_request = Map.empty, waiting = [], running = [], finished = [], next_id = 0,
      eos_tokens = eos\<rparr>"

definition num_waiting :: "scheduler \<Rightarrow> nat" where
  "num_waiting s = length (waiting s)"

definition num_running :: "scheduler \<Rightarrow> nat" where
  "num_running s = length (running s)"

definition has_finished :: "scheduler \<Rightarrow> bool" where
  "has_finished s = (finished s \<noteq> [])"

definition admission_headroom :: "scheduler \<Rightarrow> nat" where
  "admission_headroom s =
     max_concurrent_seqs (cfg s) - (length (running s) + length (waiting s))"

section \<open>Admission, cancellation, completion\<close>

definition push_request :: "string \<Rightarrow> seq_id \<Rightarrow> (string \<rightharpoonup> seq_id list) \<Rightarrow> (string \<rightharpoonup> seq_id list)" where
  "push_request rid i m = m(rid \<mapsto> (case m rid of Some is \<Rightarrow> is @ [i] | None \<Rightarrow> [i]))"

definition admit ::
  "string \<Rightarrow> token list \<Rightarrow> sampling_params \<Rightarrow> string \<Rightarrow> scheduler \<Rightarrow> (error + seq_id) \<times> scheduler" where
  "admit rid prompt ps ns s =
     (if prompt = [] then (Inl (InvalidRequest ''empty prompt''), s)
      else if length prompt \<ge> max_context (cfg s) then
        (Inl (ContextLengthExceeded (length prompt) (max_context (cfg s))), s)
      else let i = next_id s in
        (Inr i,
         s\<lparr>next_id := i + 1, by_request := push_request rid i (by_request s),
           seqs := (seqs s)(i \<mapsto> sequence_new rid prompt ps ns),
           waiting := waiting s @ [i]\<rparr>))"

definition finish :: "seq_id \<Rightarrow> finish_reason \<Rightarrow> scheduler \<Rightarrow> scheduler option" where
  "finish i reason s =
     (case seqs s i of
        None \<Rightarrow> Some s
      | Some q \<Rightarrow>
          if is_finished (status q) then Some s
          else do {
            p \<leftarrow> free_all (blocks q) (pool s);
            Some (s\<lparr>seqs := (seqs s)(i \<mapsto> q\<lparr>status := Finished reason, blocks := []\<rparr>), pool := p,
                    running := filter (\<lambda>r. r \<noteq> i) (running s),
                    waiting := filter (\<lambda>r. r \<noteq> i) (waiting s),
                    finished := finished s @ [i]\<rparr>) })"

definition cancel :: "string \<Rightarrow> scheduler \<Rightarrow> (seq_id option \<times> scheduler) option" where
  "cancel rid s =
     (case by_request s rid of
        None \<Rightarrow> Some (None, s)
      | Some ids \<Rightarrow> do {
          s \<leftarrow> for_each (\<lambda>i. finish i Cancelled) ids s;
          Some (case ids of [] \<Rightarrow> None | i # _ \<Rightarrow> Some i, s) })"

definition finish_with :: "seq_id \<Rightarrow> finish_reason \<Rightarrow> scheduler \<Rightarrow> scheduler option" where
  "finish_with i reason s = finish i reason s"

definition namespace_for ::
  "(bytes \<Rightarrow> bytes) \<Rightarrow> string \<Rightarrow> scheduler \<Rightarrow> cache_namespace \<times> scheduler" where
  "namespace_for blake3 tenant s =
     (if tenant = ns_tenant (default_ns s) then (default_ns s, s)
      else case tenants s tenant of
             Some ns \<Rightarrow> (ns, s)
           | None \<Rightarrow> let ns = for_tenant blake3 (default_ns s) tenant
                     in (ns, s\<lparr>tenants := (tenants s)(tenant \<mapsto> ns)\<rparr>))"

section \<open>Forking\<close>

fun alloc_error_text :: "alloc_error \<Rightarrow> string" where
  "alloc_error_text Exhausted = ''no free KV blocks''"
| "alloc_error_text (Watermark want wm) =
     ''allocation of '' @ show_nat want @ '' blocks would breach the '' @ show_nat wm
     @ ''-block reserve''"

text \<open>
  The private copy of the open block: the error of \<open>allocate_guarded\<close>, or the blocks of the child
  with the copy the backend has to make.
\<close>

definition fork_open_block ::
  "block_id list \<Rightarrow> nat \<Rightarrow> bool \<Rightarrow> block_id list \<Rightarrow> block_pool \<Rightarrow>
   ((alloc_error + block_id list \<times> (block_id \<times> block_id) list) \<times> block_pool) option" where
  "fork_open_block bs full open_has_content child p =
     (if length bs > full then do {
        (r, p) \<leftarrow> allocate_guarded p;
        case r of
          Inl e \<Rightarrow> Some (Inl e, p)
        | Inr private \<Rightarrow> do {
            src \<leftarrow> index bs full;
            Some (Inr (child @ [private], if open_has_content then [(src, private)] else []), p) } }
      else Some (Inr (child, []), p))"

fun fork_loop ::
  "sequence \<Rightarrow> nat \<Rightarrow> nat \<Rightarrow> fork_result \<Rightarrow> scheduler \<Rightarrow> ((error + fork_result) \<times> scheduler) option" where
  "fork_loop q bs 0 out s = Some (Inr out, s)"
| "fork_loop q bs (Suc extra) out s = do {
     let full = num_computed q div bs;
     let child = take (min full (length (blocks q))) (blocks q);
     p \<leftarrow> for_each incref child (pool s);
     (r, p) \<leftarrow> fork_open_block (blocks q) full (num_computed q mod bs \<noteq> 0) child p;
     let s = s\<lparr>pool := p\<rparr>;
     case r of
       Inl e \<Rightarrow> Some (Inl (Engine_error (''fork: '' @ alloc_error_text e)), s)
     | Inr (child, copies) \<Rightarrow> do {
         let i = next_id s;
         let q' = adopt_prefilled child (num_computed q) (num_cached_blocks q)
                    (sequence_new (request_id q) (take (prompt_len q) (tokens q)) (params q)
                       (seq_namespace q));
         let s = s\<lparr>next_id := i + 1, seqs := (seqs s)(i \<mapsto> q'),
                   by_request := push_request (request_id q) i (by_request s),
                   running := running s @ [i]\<rparr>;
         fork_loop q bs extra
           (out\<lparr>fork_ids := fork_ids out @ [i], fork_copies := fork_copies out @ copies\<rparr>) s } }"

definition fork :: "seq_id \<Rightarrow> nat \<Rightarrow> scheduler \<Rightarrow> ((error + fork_result) \<times> scheduler) option" where
  "fork parent extra s =
     (case seqs s parent of
        None \<Rightarrow> Some (Inl (Engine_error ''fork: no such sequence''), s)
      | Some q \<Rightarrow>
          if needs_prefill q then
            Some (Inl (Engine_error ''fork: the parent has not finished prefilling''), s)
          else do {
            ensure (prompt_len q \<le> length (tokens q));
            ensure (cfg_block_size (cfg s) > 0);
            fork_loop q (cfg_block_size (cfg s)) extra \<lparr>fork_ids = [], fork_copies = []\<rparr> s })"

definition seed_fork :: "seq_id \<Rightarrow> token \<Rightarrow> scheduler \<Rightarrow> ((error + unit) \<times> scheduler) option" where
  "seed_fork i t s =
     (case seqs s i of
        None \<Rightarrow> Some (Inl (Engine_error ''seed_fork: no such sequence''), s)
      | Some q \<Rightarrow> do {
          let q = push_token t q;
          let need = blocks_for (pool s) (num_computed q + 1);
          (e, bs, p) \<leftarrow> alloc_up_to allocate_guarded (need - length (blocks q)) (pool s);
          let s = s\<lparr>seqs := (seqs s)(i \<mapsto> q\<lparr>blocks := blocks q @ bs\<rparr>), pool := p\<rparr>;
          Some (case e of
                  None \<Rightarrow> Inr ()
                | Some e \<Rightarrow> Inl (Engine_error (''seed_fork: '' @ alloc_error_text e)), s) })"

definition sequences_of :: "string \<Rightarrow> scheduler \<Rightarrow> seq_id list" where
  "sequences_of rid s = (case by_request s rid of Some is \<Rightarrow> is | None \<Rightarrow> [])"

section \<open>Building a batch\<close>

definition try_extend :: "seq_id \<Rightarrow> nat \<Rightarrow> scheduler \<Rightarrow> (bool \<times> scheduler) option" where
  "try_extend i extra s = do {
     q \<leftarrow> seqs s i;
     let need = blocks_for (pool s) (num_computed q + extra);
     (e, bs, p) \<leftarrow> alloc_up_to allocate (need - length (blocks q)) (pool s);
     Some (e = None, s\<lparr>seqs := (seqs s)(i \<mapsto> q\<lparr>blocks := blocks q @ bs\<rparr>), pool := p\<rparr>) }"

definition push_position :: "sequence \<Rightarrow> nat \<Rightarrow> nat \<Rightarrow> forward_batch \<Rightarrow> forward_batch option" where
  "push_position q bs i b = do {
     t \<leftarrow> index (tokens q) i;
     blk \<leftarrow> index (blocks q) (i div bs);
     Some (b\<lparr>fb_tokens := fb_tokens b @ [t], positions := positions b @ [u32_of i],
             slot_mapping := slot_mapping b @ [u32_of (blk * bs + i mod bs)]\<rparr>) }"

definition push_seq_into_batch :: "seq_id \<Rightarrow> nat \<Rightarrow> scheduler \<Rightarrow> step_plan \<Rightarrow> step_plan option" where
  "push_seq_into_batch i n s plan = do {
     q \<leftarrow> seqs s i;
     let start = num_computed q;
     let bs = cfg_block_size (cfg s);
     ensure (bs > 0);
     let b = batch plan;
     let b = (if cu_seqlens_q b = []
              then b\<lparr>cu_seqlens_q := [0], cu_seqlens_k := cu_seqlens_k b @ [0]\<rparr> else b);
     b \<leftarrow> for_each (push_position q bs) [start..<start + n] b;
     ensure (cu_seqlens_q b \<noteq> [] \<and> cu_seqlens_k b \<noteq> []);
     cq \<leftarrow> add_u32 (last (cu_seqlens_q b)) (u32_of n);
     ck \<leftarrow> add_u32 (last (cu_seqlens_k b)) (u32_of (start + n));
     let b = b\<lparr>cu_seqlens_q := cu_seqlens_q b @ [cq], cu_seqlens_k := cu_seqlens_k b @ [ck],
               block_tables := block_tables b @ [blocks q]\<rparr>;
     let plan = plan\<lparr>batch_seqs := batch_seqs plan @ [i]\<rparr>;
     if start + n \<ge> total_len q then do {
       l \<leftarrow> checked_sub (length (fb_tokens b)) 1;
       Some (plan\<lparr>batch := b\<lparr>logits_indices := logits_indices b @ [u32_of l]\<rparr>,
                  sampled_seqs := sampled_seqs plan @ [i]\<rparr>) }
     else Some (plan\<lparr>batch := b\<rparr>) }"

definition preempt :: "seq_id \<Rightarrow> scheduler \<Rightarrow> scheduler option" where
  "preempt i s = do {
     q \<leftarrow> seqs s i;
     p \<leftarrow> free_all (blocks q) (pool s);
     Some (s\<lparr>pool := p, seqs := (seqs s)(i \<mapsto> reset_for_recompute (q\<lparr>blocks := []\<rparr>)),
             running := filter (\<lambda>r. r \<noteq> i) (running s), waiting := i # waiting s\<rparr>) }"

text \<open>The state of the scheduling passes: the scheduler, the plan and the token budget left.\<close>

type_synonym pass = "scheduler \<times> step_plan \<times> nat"

text \<open>One iteration of the decode pass; \<open>survivors\<close> is the list being collected.\<close>

definition decode_one :: "seq_id \<Rightarrow> pass \<times> seq_id list \<Rightarrow> (pass \<times> seq_id list) option" where
  "decode_one i st =
     (case st of ((s, plan, budget), survivors) \<Rightarrow>
        (case seqs s i of
           None \<Rightarrow> Some ((s, plan, budget), survivors)
         | Some q \<Rightarrow>
             if is_finished (status q) then Some ((s, plan, budget), survivors)
             else if needs_prefill q then Some ((s, plan, budget), survivors @ [i])
             else if budget = 0 then Some ((s, plan, budget), survivors @ [i])
             else do {
               (fits, s) \<leftarrow> try_extend i 1 s;
               if fits then do {
                 plan \<leftarrow> push_seq_into_batch i 1 s plan;
                 Some ((s, plan, budget - 1), survivors @ [i]) }
               else do {
                 s \<leftarrow> preempt i s;
                 Some ((s, plan\<lparr>preempted := preempted plan @ [i]\<rparr>, budget), survivors) } }))"

definition schedule_decodes :: "pass \<Rightarrow> pass option" where
  "schedule_decodes st =
     (case st of (s, plan, budget) \<Rightarrow> do {
        ((s, plan, budget), survivors) \<leftarrow>
          for_each decode_one (running s) ((s\<lparr>running := []\<rparr>, plan, budget), []);
        Some (s\<lparr>running := survivors\<rparr>, plan, budget) })"

definition prefill_chunk :: "seq_id \<Rightarrow> pass \<Rightarrow> pass option" where
  "prefill_chunk i st =
     (case st of (s, plan, budget) \<Rightarrow> do {
        q \<leftarrow> seqs s i;
        let n = min (min (remaining_prefill q) (prefill_chunk_tokens (cfg s))) budget;
        if n = 0 then Some (s, plan, budget)
        else do {
          (fits, s) \<leftarrow> try_extend i n s;
          if \<not> fits then do {
            s \<leftarrow> preempt i s;
            Some (s, plan\<lparr>preempted := preempted plan @ [i]\<rparr>, budget) }
          else do {
            plan \<leftarrow> push_seq_into_batch i n s plan;
            Some (s, plan, budget - n) } } })"

text \<open>The first loop of the prefill pass; it returns early when the budget is used up.\<close>

definition prefill_running_one :: "seq_id \<Rightarrow> pass \<Rightarrow> pass option" where
  "prefill_running_one i st =
     (case st of (s, plan, budget) \<Rightarrow>
        if budget = 0 then Some st
        else (case seqs s i of
                None \<Rightarrow> Some st
              | Some q \<Rightarrow>
                  if \<not> needs_prefill q \<or> is_finished (status q) then Some st
                  else prefill_chunk i st))"

text \<open>Matched blocks given back so that at least one token is left to forward.\<close>

fun give_back ::
  "nat \<Rightarrow> nat \<Rightarrow> block_id list \<Rightarrow> nat \<Rightarrow> block_pool \<Rightarrow> (block_id list \<times> nat \<times> block_pool) option" where
  "give_back plen bs [] c p = Some ([], c, p)"
| "give_back plen bs (b # rev_matched) c p =
     (if c \<ge> plen then do {
        p \<leftarrow> free b p;
        c \<leftarrow> checked_sub c bs;
        give_back plen bs rev_matched c p }
      else Some (rev (b # rev_matched), c, p))"

definition match_cached ::
  "(bytes \<Rightarrow> bytes) \<Rightarrow> cache_namespace \<Rightarrow> token list \<Rightarrow> nat \<Rightarrow> nat \<Rightarrow> block_pool \<Rightarrow>
   (block_id list \<times> nat \<times> block_pool) option" where
  "match_cached blake3 ns toks plen bs p = do {
     known \<leftarrow> slice_to toks plen;
     (m, p) \<leftarrow> match_prefix (hash_block_chain blake3 ns known bs) p;
     give_back plen bs (rev (pm_blocks m)) (pm_tokens m) p }"

definition try_start :: "(bytes \<Rightarrow> bytes) \<Rightarrow> seq_id \<Rightarrow> scheduler \<Rightarrow> (bool \<times> scheduler) option" where
  "try_start blake3 i s = do {
     q \<leftarrow> seqs s i;
     let plen = prefill_target q;
     let bs = cfg_block_size (cfg s);
     let (ns, s) = namespace_for blake3 (seq_namespace q) s;
     (matched, cached, p) \<leftarrow>
       (if prefix_cache (cfg s) then match_cached blake3 ns (tokens q) plen bs (pool s)
        else Some ([], 0, pool s));
     let need_new = blocks_for p (plen + 1) - length matched;
     if \<not> can_allocate p need_new then do {
       p \<leftarrow> free_all matched p;
       Some (False, s\<lparr>pool := p\<rparr>) }
     else do {
       (e, new, p) \<leftarrow> alloc_up_to allocate need_new p;
       case e of
         Some _ \<Rightarrow> do {
           p \<leftarrow> free_all (matched @ new) p;
           Some (False, s\<lparr>pool := p\<rparr>) }
       | None \<Rightarrow> do {
           q \<leftarrow> adopt_cached_prefix matched cached q;
           Some (True, s\<lparr>pool := p,
             seqs := (seqs s)(i \<mapsto> q\<lparr>blocks := matched @ new, status := Prefilling\<rparr>)\<rparr>) } } }"

text \<open>The admission loop of the prefill pass.\<close>

partial_function (option) start_waiting :: "(bytes \<Rightarrow> bytes) \<Rightarrow> pass \<Rightarrow> pass option" where
  "start_waiting blake3 st =
     (case st of (s, plan, budget) \<Rightarrow>
        if \<not> (budget > 0 \<and> length (running s) < max_concurrent_seqs (cfg s)) then Some st
        else (case waiting s of
                [] \<Rightarrow> Some st
              | i # rest \<Rightarrow>
                  (let s = s\<lparr>waiting := rest\<rparr> in
                   case seqs s i of
                     None \<Rightarrow> start_waiting blake3 (s, plan, budget)
                   | Some q \<Rightarrow>
                       if is_finished (status q) then start_waiting blake3 (s, plan, budget)
                       else do {
                         (ok, s) \<leftarrow> try_start blake3 i s;
                         if \<not> ok then Some (s\<lparr>waiting := i # waiting s\<rparr>, plan, budget)
                         else do {
                           q \<leftarrow> seqs s i;
                           let plan = plan\<lparr>started := started plan @ [(i, cached_prefix_tokens q)]\<rparr>;
                           st \<leftarrow> prefill_chunk i (s\<lparr>running := running s @ [i]\<rparr>, plan, budget);
                           start_waiting blake3 st } })))"

declare start_waiting.simps [code]

definition schedule_prefills :: "(bytes \<Rightarrow> bytes) \<Rightarrow> pass \<Rightarrow> pass option" where
  "schedule_prefills blake3 st =
     (case st of (s, plan, budget) \<Rightarrow> do {
        st \<leftarrow> for_each prefill_running_one (running s) (s, plan, budget);
        start_waiting blake3 st })"

fun max_window :: "nat list \<Rightarrow> nat" where
  "max_window (x # y # zs) = max (y - x) (max_window (y # zs))"
| "max_window _ = 0"

definition schedule :: "(bytes \<Rightarrow> bytes) \<Rightarrow> scheduler \<Rightarrow> (step_plan \<times> scheduler) option" where
  "schedule blake3 s = do {
     st \<leftarrow> schedule_decodes (s, empty_plan, max_batched_tokens (cfg s));
     (s, plan, budget) \<leftarrow> schedule_prefills blake3 st;
     let b = batch plan;
     Some (plan\<lparr>batch := b\<lparr>max_seqlen_q := max_window (cu_seqlens_q b),
                           max_seqlen_k := max_window (cu_seqlens_k b)\<rparr>\<rparr>, s) }"

section \<open>Applying a step\<close>

definition advance_one :: "nat \<Rightarrow> sequence \<Rightarrow> sequence option" where
  "advance_one n q = do {
     q \<leftarrow> advance_computed n q;
     Some (if \<not> needs_prefill q \<and> status q = Prefilling then q\<lparr>status := Decoding\<rparr> else q) }"

definition advance_all :: "nat list \<Rightarrow> seq_id list \<Rightarrow> scheduler \<Rightarrow> scheduler option" where
  "advance_all cu ids s =
     for_each (\<lambda>(k, i) s. do {
         hi \<leftarrow> index cu (k + 1);
         lo \<leftarrow> index cu k;
         n \<leftarrow> checked_sub hi lo;
         case seqs s i of
           None \<Rightarrow> Some s
         | Some q \<Rightarrow> do { q \<leftarrow> advance_one n q; Some (s\<lparr>seqs := (seqs s)(i \<mapsto> q)\<rparr>) } })
       (List.enumerate 0 ids) s"

definition append_sampled :: "seq_id \<times> token \<Rightarrow> scheduler \<Rightarrow> scheduler option" where
  "append_sampled it s =
     (case it of (i, t) \<Rightarrow>
        (case seqs s i of
           None \<Rightarrow> Some s
         | Some q \<Rightarrow> do {
             let q = push_token t q;
             let s = s\<lparr>seqs := (seqs s)(i \<mapsto> q)\<rparr>;
             case check_finished (eos_tokens s) (max_context (cfg s)) q of
               None \<Rightarrow> Some s
             | Some reason \<Rightarrow> finish i reason s }))"

text \<open>Publishing the blocks \<open>k, k + 1, \<dots>\<close> of a sequence; the swaps to apply come back with the pool.\<close>

fun publish_range ::
  "block_id list \<Rightarrow> nat \<Rightarrow> block_hash list \<Rightarrow> block_pool \<Rightarrow>
   ((nat \<times> block_id \<times> block_id) list \<times> block_pool) option" where
  "publish_range bs k [] p = Some ([], p)"
| "publish_range bs k (h # hs) p =
     (if k < length bs then do {
        (canonical, p) \<leftarrow> publish (bs ! k) h p;
        (swaps, p) \<leftarrow> publish_range bs (k + 1) hs p;
        Some (if canonical \<noteq> bs ! k then (k, bs ! k, canonical) # swaps else swaps, p) }
      else publish_range bs (k + 1) hs p)"

definition apply_swap ::
  "nat \<times> block_id \<times> block_id \<Rightarrow> block_id list \<times> block_pool \<Rightarrow> (block_id list \<times> block_pool) option" where
  "apply_swap sw st =
     (case (sw, st) of ((k, old, canonical), (bs, p)) \<Rightarrow> do {
        bs \<leftarrow> store bs k canonical;
        p \<leftarrow> free old p;
        Some (bs, p) })"

definition publish_one :: "(bytes \<Rightarrow> bytes) \<Rightarrow> seq_id \<Rightarrow> scheduler \<Rightarrow> scheduler option" where
  "publish_one blake3 i s =
     (case seqs s i of
        None \<Rightarrow> Some s
      | Some q \<Rightarrow> do {
          let bs = cfg_block_size (cfg s);
          ensure (bs > 0);
          let full = num_computed q div bs;
          if full \<le> num_cached_blocks q then Some s
          else do {
            toks \<leftarrow> slice_to (tokens q) (full * bs);
            let (ns, s) = namespace_for blake3 (seq_namespace q) s;
            let hashes = hash_block_chain blake3 ns toks bs;
            (swaps, p) \<leftarrow> publish_range (blocks q) (num_cached_blocks q)
                            (drop (num_cached_blocks q) (take full hashes)) (pool s);
            (blks, p) \<leftarrow> for_each apply_swap swaps (blocks q, p);
            Some (s\<lparr>pool := p,
              seqs := (seqs s)(i \<mapsto> q\<lparr>num_cached_blocks := full, blocks := blks\<rparr>)\<rparr>) } })"

definition publish_full_blocks :: "(bytes \<Rightarrow> bytes) \<Rightarrow> step_plan \<Rightarrow> scheduler \<Rightarrow> scheduler option" where
  "publish_full_blocks blake3 plan s =
     (if \<not> prefix_cache (cfg s) then Some s
      else for_each (publish_one blake3) (batch_seqs plan) s)"

definition commit :: "(bytes \<Rightarrow> bytes) \<Rightarrow> step_plan \<Rightarrow> token list \<Rightarrow> scheduler \<Rightarrow> scheduler option" where
  "commit blake3 plan sampled s = do {
     ensure (length sampled = length (sampled_seqs plan));
     s \<leftarrow> advance_all (cu_seqlens_q (batch plan)) (batch_seqs plan) s;
     s \<leftarrow> for_each append_sampled (zip (sampled_seqs plan) sampled) s;
     publish_full_blocks blake3 plan s }"

section \<open>Draining\<close>

definition drop_request :: "string \<Rightarrow> seq_id \<Rightarrow> (string \<rightharpoonup> seq_id list) \<Rightarrow> (string \<rightharpoonup> seq_id list)" where
  "drop_request rid i m =
     (case m rid of
        None \<Rightarrow> m
      | Some ids \<Rightarrow>
          let ids = filter (\<lambda>j. j \<noteq> i) ids
          in if ids = [] then m(rid := None) else m(rid \<mapsto> ids))"

fun drain :: "seq_id list \<Rightarrow> scheduler \<Rightarrow> (seq_id \<times> sequence) list \<times> scheduler" where
  "drain [] s = ([], s)"
| "drain (i # is) s =
     (case seqs s i of
        None \<Rightarrow> drain is s
      | Some q \<Rightarrow>
          let s = s\<lparr>seqs := (seqs s)(i := None),
                    by_request := drop_request (request_id q) i (by_request s)\<rparr>;
              (out, s) = drain is s
          in ((i, q) # out, s))"

definition drain_finished :: "scheduler \<Rightarrow> (seq_id \<times> sequence) list \<times> scheduler" where
  "drain_finished s = drain (finished s) (s\<lparr>finished := []\<rparr>)"

end
