(* ===== verification/Scheduler_Inv.thy ===== *)
theory Scheduler_Inv
  imports Scheduler
begin

text \<open>
  The invariant of the scheduler and its preservation by every operation of
  \<open>vapi-engine/src/scheduler.rs\<close>.  The invariant says that

  \<^item> the pool is well formed and the reference count of every block is the number of times live
    sequences list it, so no block leaks and none is freed while in use;
  \<^item> every sequence is in exactly one of the three queues, with the status that belongs to it;
  \<^item> a running sequence is either prefilling known text or has exactly one token to forward, its
    blocks cover what has been computed, and the blocks it will still write to are its own: their
    reference count is 1 and nothing is published for them.

  The predicate \<open>sinv R D s\<close> takes the running queue \<open>R\<close> as an argument, because the decode
  pass takes the queue out of the state while it works on it, and a set \<open>D\<close> of sequences whose
  sampled token is due: in the middle of \<open>commit\<close>, and between \<open>fork\<close> and \<open>seed_fork\<close>.
\<close>

section \<open>References held by sequences\<close>

definition blocks_of :: "scheduler \<Rightarrow> seq_id \<Rightarrow> block_id list" where
  "blocks_of s i = (case seqs s i of Some q \<Rightarrow> blocks q | None \<Rightarrow> [])"

definition seq_refs :: "scheduler \<Rightarrow> block_id \<Rightarrow> nat" where
  "seq_refs s b = (\<Sum>i<next_id s. count_list (blocks_of s i) b)"

lemma seq_refs_update:
  assumes "seqs s' = (seqs s)(i \<mapsto> q')" "seqs s i = Some q" "i < next_id s" "next_id s' = next_id s"
  shows "seq_refs s' b + count_list (blocks q) b = seq_refs s b + count_list (blocks q') b"
proof -
  have "seq_refs s b = count_list (blocks q) b + (\<Sum>j\<in>{..<next_id s} - {i}. count_list (blocks_of s j) b)"
    using assms(2,3) unfolding seq_refs_def
    by (subst sum.remove [of _ i]) (simp_all add: blocks_of_def)
  moreover have "seq_refs s' b = count_list (blocks q') b + (\<Sum>j\<in>{..<next_id s} - {i}. count_list (blocks_of s' j) b)"
    using assms unfolding seq_refs_def
    by (subst sum.remove [of _ i]) (simp_all add: blocks_of_def)
  moreover have "(\<Sum>j\<in>{..<next_id s} - {i}. count_list (blocks_of s' j) b)
      = (\<Sum>j\<in>{..<next_id s} - {i}. count_list (blocks_of s j) b)"
    using assms(1) by (intro sum.cong) (auto simp: blocks_of_def)
  ultimately show ?thesis by simp
qed

lemma seq_refs_ge_two:
  assumes "i < next_id s" "j < next_id s" "i \<noteq> j"
  shows "count_list (blocks_of s i) b + count_list (blocks_of s j) b \<le> seq_refs s b"
proof -
  have "(\<Sum>k\<in>{i, j}. count_list (blocks_of s k) b) \<le> seq_refs s b"
    unfolding seq_refs_def using assms by (intro sum_mono2) auto
  with assms(3) show ?thesis by simp
qed

lemma seq_refs_ge:
  assumes "i < next_id s"
  shows "count_list (blocks_of s i) b \<le> seq_refs s b"
  unfolding seq_refs_def using assms by (intro member_le_sum) auto

section \<open>The invariant\<close>

text \<open>The blocks a running sequence has not filled yet belong to it alone and are not published.\<close>

definition exclusive :: "block_pool \<Rightarrow> nat \<Rightarrow> sequence \<Rightarrow> bool" where
  "exclusive p bs q \<longleftrightarrow>
     (\<forall>j. num_computed q div bs \<le> j \<and> j < length (blocks q) \<longrightarrow>
        rc p (blocks q ! j) = 1 \<and> content p (blocks q ! j) = None)"

definition tokens_ok :: "sequence \<Rightarrow> bool" where
  "tokens_ok q \<longleftrightarrow> tokens q \<noteq> [] \<and> 0 < prompt_len q \<and> prompt_len q \<le> length (tokens q) \<and>
     prefill_target q \<le> length (tokens q) \<and> num_computed q \<le> length (tokens q)"

definition waiting_ok :: "scheduler_config \<Rightarrow> sequence \<Rightarrow> bool" where
  "waiting_ok c q \<longleftrightarrow>
     status q \<in> {Waiting, Preempted} \<and> blocks q = [] \<and> num_computed q = 0 \<and>
     num_cached_blocks q = 0 \<and> prefill_target q = length (tokens q) \<and>
     length (tokens q) < max_context c"

definition running_ok :: "bool \<Rightarrow> scheduler_config \<Rightarrow> block_pool \<Rightarrow> sequence \<Rightarrow> bool" where
  "running_ok due c p q \<longleftrightarrow>
     (if due then status q = Decoding \<and> num_computed q = length (tokens q)
      else (status q = Prefilling \<and> num_computed q < prefill_target q \<and>
              prefill_target q = length (tokens q)) \<or>
           (status q = Decoding \<and> num_computed q + 1 = length (tokens q) \<and>
              prefill_target q \<le> num_computed q)) \<and>
     length (tokens q) < max_context c \<and>
     num_computed q \<le> length (blocks q) * cfg_block_size c \<and>
     num_cached_blocks q \<le> num_computed q div cfg_block_size c \<and>
     exclusive p (cfg_block_size c) q"

definition finished_ok :: "sequence \<Rightarrow> bool" where
  "finished_ok q \<longleftrightarrow> is_finished (status q) \<and> blocks q = []"

definition role_ok ::
  "scheduler_config \<Rightarrow> block_pool \<Rightarrow> seq_id set \<Rightarrow> seq_id set \<Rightarrow> seq_id set \<Rightarrow> seq_id set \<Rightarrow> seq_id \<Rightarrow> sequence \<Rightarrow> bool"
  where
  "role_ok c p W R F D i q \<longleftrightarrow>
     tokens_ok q \<and> (i \<in> W \<longrightarrow> waiting_ok c q) \<and> (i \<in> R \<longrightarrow> running_ok (i \<in> D) c p q) \<and>
     (i \<in> F \<longrightarrow> finished_ok q)"

definition sinv :: "seq_id list \<Rightarrow> seq_id set \<Rightarrow> scheduler \<Rightarrow> bool" where
  "sinv R D s \<longleftrightarrow>
     pool_inv (pool s) \<and> block_size (pool s) = cfg_block_size (cfg s) \<and>
     rc (pool s) = seq_refs s \<and>
     distinct (waiting s @ R @ finished s) \<and>
     dom (seqs s) = set (waiting s) \<union> set R \<union> set (finished s) \<and>
     (\<forall>i \<in> dom (seqs s). i < next_id s) \<and>
     (\<forall>i q. seqs s i = Some q \<longrightarrow>
        role_ok (cfg s) (pool s) (set (waiting s)) (set R) (set (finished s)) D i q)"

definition sched_inv :: "scheduler \<Rightarrow> bool" where
  "sched_inv s \<longleftrightarrow> sinv (running s) {} s"

lemma sinv_pool: "sinv R D s \<Longrightarrow> pool_inv (pool s)"
  by (simp add: sinv_def)

lemma sinv_block_size:
  assumes "sinv R D s"
  shows "block_size (pool s) = cfg_block_size (cfg s)" "0 < cfg_block_size (cfg s)"
  using assms by (auto simp: sinv_def pool_inv_def pool_ok_def)

lemma sinv_rc: "sinv R D s \<Longrightarrow> rc (pool s) b = seq_refs s b"
  by (simp add: sinv_def)

lemma sinv_next_id: "sinv R D s \<Longrightarrow> seqs s i = Some q \<Longrightarrow> i < next_id s"
  by (auto simp: sinv_def)

lemma sinv_role:
  "sinv R D s \<Longrightarrow> seqs s i = Some q \<Longrightarrow>
   role_ok (cfg s) (pool s) (set (waiting s)) (set R) (set (finished s)) D i q"
  by (simp add: sinv_def)

lemma sinv_tokens: "sinv R D s \<Longrightarrow> seqs s i = Some q \<Longrightarrow> tokens_ok q"
  by (drule (1) sinv_role) (simp add: role_ok_def)

lemma sinv_running:
  "sinv R D s \<Longrightarrow> i \<in> set R \<Longrightarrow> \<exists>q. seqs s i = Some q \<and> running_ok (i \<in> D) (cfg s) (pool s) q"
proof -
  assume inv: "sinv R D s" and i: "i \<in> set R"
  then have "i \<in> dom (seqs s)" by (simp add: sinv_def)
  then obtain q where q: "seqs s i = Some q" by blast
  with sinv_role [OF inv q] i show ?thesis by (auto simp: role_ok_def)
qed

lemma sinv_count_le:
  assumes "sinv R D s" "seqs s i = Some q"
  shows "count_list (blocks q) b \<le> rc (pool s) b"
  using seq_refs_ge [of i s b] sinv_next_id [OF assms] assms by (simp add: sinv_def blocks_of_def)

text \<open>A block with one reference is listed by one sequence only.\<close>

lemma sinv_only_owner:
  assumes inv: "sinv R D s" and "seqs s i = Some q" "seqs s j = Some q'" "i \<noteq> j"
    and "rc (pool s) b = 1" "b \<in> set (blocks q)"
  shows "b \<notin> set (blocks q')"
proof
  assume "b \<in> set (blocks q')"
  then have "0 < count_list (blocks q') b" "0 < count_list (blocks q) b"
    using assms(6) by (metis count_list_0_iff gr0I)+
  moreover have "count_list (blocks q) b + count_list (blocks q') b \<le> seq_refs s b"
    using seq_refs_ge_two [of i s j b] assms sinv_next_id [OF inv] by (auto simp: blocks_of_def)
  ultimately show False using assms(5) sinv_rc [OF inv, of b] by linarith
qed

lemma exclusive_frame:
  assumes "exclusive p bs q"
    and "\<And>b. b \<in> set (blocks q) \<Longrightarrow> rc p b = 1 \<Longrightarrow> content p b = None \<Longrightarrow> rc p' b = 1 \<and> content p' b = None"
  shows "exclusive p' bs q"
  using assms unfolding exclusive_def by (metis nth_mem)

text \<open>
  The one lemma that every operation on a single sequence goes through: sequence \<open>i\<close> becomes
  \<open>q'\<close>, the pool becomes \<open>p'\<close>, each block's count changes by what \<open>i\<close> gained or lost, and
  no block that another sequence owns alone is touched.
\<close>

lemma sinv_update:
  assumes inv: "sinv R D s" and q: "seqs s i = Some q"
    and s': "seqs s' = (seqs s)(i \<mapsto> q')" "cfg s' = cfg s" "next_id s' = next_id s"
    and pool: "pool_inv (pool s')" "same_geometry (pool s) (pool s')"
    and cons: "\<And>b. rc (pool s') b + count_list (blocks q) b = rc (pool s) b + count_list (blocks q') b"
    and keep: "\<And>c. rc (pool s) c = 1 \<Longrightarrow> content (pool s) c = None \<Longrightarrow> c \<notin> set (blocks q) \<Longrightarrow>
      c \<notin> set (blocks q') \<and> content (pool s') c = None"
    and queues: "distinct (waiting s' @ R' @ finished s')"
      "set (waiting s') \<union> set R' \<union> set (finished s') = set (waiting s) \<union> set R \<union> set (finished s)"
      "\<And>j. j \<noteq> i \<Longrightarrow> (j \<in> set (waiting s') \<longleftrightarrow> j \<in> set (waiting s)) \<and> (j \<in> set R' \<longleftrightarrow> j \<in> set R) \<and>
         (j \<in> set (finished s') \<longleftrightarrow> j \<in> set (finished s)) \<and> (j \<in> D' \<longleftrightarrow> j \<in> D)"
    and role: "role_ok (cfg s) (pool s') (set (waiting s')) (set R') (set (finished s')) D' i q'"
  shows "sinv R' D' s'"
proof -
  have i: "i < next_id s" using inv q by (rule sinv_next_id)
  have refs: "rc (pool s') b = seq_refs s' b" for b
    using seq_refs_update [OF s'(1) q i s'(3), of b] cons [of b] sinv_rc [OF inv, of b] by simp
  have others: "role_ok (cfg s) (pool s') (set (waiting s')) (set R') (set (finished s')) D' j r"
    if r: "seqs s j = Some r" "j \<noteq> i" for j r
  proof -
    have "exclusive (pool s') (cfg_block_size (cfg s)) r" if e: "exclusive (pool s) (cfg_block_size (cfg s)) r"
    proof (rule exclusive_frame [OF e])
      fix b assume b: "b \<in> set (blocks r)" "rc (pool s) b = 1" "content (pool s) b = None"
      have nq: "b \<notin> set (blocks q)"
        using sinv_only_owner [OF inv r(1) q r(2) b(2,1)] .
      have "b \<notin> set (blocks q') \<and> content (pool s') b = None"
        by (rule keep [OF b(2,3) nq])
      with nq b cons [of b] show "rc (pool s') b = 1 \<and> content (pool s') b = None"
        by (simp add: count_list_0_iff)
    qed
    with sinv_role [OF inv r(1)] queues(3) [OF r(2)] show ?thesis
      by (auto simp: role_ok_def running_ok_def)
  qed
  have "dom (seqs s') = set (waiting s') \<union> set R' \<union> set (finished s')"
    using inv q s'(1) queues(2) by (auto simp: sinv_def)
  moreover have "\<forall>j \<in> dom (seqs s'). j < next_id s'"
    using inv s' i by (auto simp: sinv_def)
  moreover have "\<forall>j r. seqs s' j = Some r \<longrightarrow>
      role_ok (cfg s') (pool s') (set (waiting s')) (set R') (set (finished s')) D' j r"
    using others role s' by (auto split: if_splits)
  moreover have "block_size (pool s') = cfg_block_size (cfg s')"
    using sinv_block_size [OF inv] pool(2) s'(2) by (simp add: same_geometry_def)
  ultimately show ?thesis
    using pool(1) refs queues(1) by (auto simp: sinv_def fun_eq_iff)
qed

text \<open>The same for a sequence that is added under the next id.\<close>

lemma seq_refs_insert:
  assumes "seqs s' = (seqs s)(next_id s \<mapsto> q')" "next_id s' = Suc (next_id s)"
  shows "seq_refs s' b = seq_refs s b + count_list (blocks q') b"
proof -
  have "(\<Sum>i<next_id s. count_list (blocks_of s' i) b) = (\<Sum>i<next_id s. count_list (blocks_of s i) b)"
    using assms(1) by (intro sum.cong) (auto simp: blocks_of_def)
  then show ?thesis using assms by (simp add: seq_refs_def blocks_of_def)
qed

lemma sinv_insert:
  assumes inv: "sinv R D s"
    and s': "seqs s' = (seqs s)(next_id s \<mapsto> q')" "cfg s' = cfg s" "next_id s' = Suc (next_id s)"
    and pool: "pool_inv (pool s')" "same_geometry (pool s) (pool s')"
    and cons: "\<And>b. rc (pool s') b = rc (pool s) b + count_list (blocks q') b"
    and keep: "\<And>j r k. seqs s j = Some r \<Longrightarrow> num_computed r div cfg_block_size (cfg s) \<le> k \<Longrightarrow>
      k < length (blocks r) \<Longrightarrow> rc (pool s) (blocks r ! k) = 1 \<Longrightarrow> content (pool s) (blocks r ! k) = None \<Longrightarrow>
      blocks r ! k \<notin> set (blocks q') \<and> content (pool s') (blocks r ! k) = None"
    and queues: "distinct (waiting s' @ R' @ finished s')"
      "set (waiting s') \<union> set R' \<union> set (finished s') = insert (next_id s) (dom (seqs s))"
      "\<And>j. j \<noteq> next_id s \<Longrightarrow> (j \<in> set (waiting s') \<longleftrightarrow> j \<in> set (waiting s)) \<and>
         (j \<in> set R' \<longleftrightarrow> j \<in> set R) \<and> (j \<in> set (finished s') \<longleftrightarrow> j \<in> set (finished s)) \<and>
         (j \<in> D' \<longleftrightarrow> j \<in> D)"
    and role: "role_ok (cfg s) (pool s') (set (waiting s')) (set R') (set (finished s')) D' (next_id s) q'"
  shows "sinv R' D' s'"
proof -
  have refs: "rc (pool s') b = seq_refs s' b" for b
    using seq_refs_insert [OF s'(1,3)] cons [of b] sinv_rc [OF inv, of b] by simp
  have others: "role_ok (cfg s) (pool s') (set (waiting s')) (set R') (set (finished s')) D' j r"
    if r: "seqs s j = Some r" "j \<noteq> next_id s" for j r
  proof -
    have "exclusive (pool s') (cfg_block_size (cfg s)) r" if e: "exclusive (pool s) (cfg_block_size (cfg s)) r"
      unfolding exclusive_def
    proof (intro allI impI)
      fix k assume k: "num_computed r div cfg_block_size (cfg s) \<le> k \<and> k < length (blocks r)"
      then have b: "rc (pool s) (blocks r ! k) = 1" "content (pool s) (blocks r ! k) = None"
        using e by (auto simp: exclusive_def)
      with keep [OF r(1) _ _ b] k cons [of "blocks r ! k"]
      show "rc (pool s') (blocks r ! k) = 1 \<and> content (pool s') (blocks r ! k) = None"
        by (simp add: count_list_0_iff)
    qed
    with sinv_role [OF inv r(1)] queues(3) [OF r(2)] show ?thesis
      by (auto simp: role_ok_def running_ok_def)
  qed
  have "dom (seqs s') = set (waiting s') \<union> set R' \<union> set (finished s')"
    using s'(1) queues(2) by auto
  moreover have "\<forall>j \<in> dom (seqs s'). j < next_id s'"
    using inv s' by (auto simp: sinv_def less_SucI)
  moreover have "\<forall>j r. seqs s' j = Some r \<longrightarrow>
      role_ok (cfg s') (pool s') (set (waiting s')) (set R') (set (finished s')) D' j r"
    using others role s' by (auto split: if_splits)
  moreover have "block_size (pool s') = cfg_block_size (cfg s')"
    using sinv_block_size [OF inv] pool(2) s'(2) by (simp add: same_geometry_def)
  ultimately show ?thesis
    using pool(1) refs queues(1) by (auto simp: sinv_def fun_eq_iff)
qed

text \<open>Fields the invariant does not look at.\<close>

lemma sinv_cong:
  assumes "pool s' = pool s" "cfg s' = cfg s" "seqs s' = seqs s" "next_id s' = next_id s"
    "waiting s' = waiting s" "finished s' = finished s"
  shows "sinv R D s' = sinv R D s"
proof -
  have "seq_refs s' = seq_refs s"
    using assms by (simp add: seq_refs_def blocks_of_def fun_eq_iff)
  then show ?thesis using assms by (simp add: sinv_def)
qed

lemma sinv_tenants [simp]: "sinv R D (s\<lparr>tenants := t\<rparr>) = sinv R D s"
  by (rule sinv_cong) simp_all

lemma sinv_running_field [simp]: "sinv R D (s\<lparr>running := r\<rparr>) = sinv R D s"
  by (rule sinv_cong) simp_all

lemma sinv_pool_cong:
  assumes "sinv R D s" "pool_inv p" "same_geometry (pool s) p" "rc p = rc (pool s)"
    "content p = content (pool s)"
  shows "sinv R D (s\<lparr>pool := p\<rparr>)"
proof -
  have "seq_refs (s\<lparr>pool := p\<rparr>) = seq_refs s" by (simp add: seq_refs_def blocks_of_def fun_eq_iff)
  moreover have "exclusive p bs q = exclusive (pool s) bs q" for bs q
    using assms by (simp add: exclusive_def)
  then have "role_ok c p W Q F D i q = role_ok c (pool s) W Q F D i q" for c W Q F i q
    by (simp add: role_ok_def running_ok_def)
  ultimately show ?thesis
    using assms by (auto simp: sinv_def same_geometry_def)
qed

text \<open>\<open>namespace_for\<close> only remembers the namespace it derives.\<close>

lemma namespace_for_eq:
  obtains ns t where "namespace_for blake3 tenant s = (ns, s\<lparr>tenants := t\<rparr>)"
proof -
  have "snd (namespace_for blake3 tenant s) = s\<lparr>tenants := tenants (snd (namespace_for blake3 tenant s))\<rparr>"
    by (auto simp: namespace_for_def Let_def split: option.splits)
  then show thesis by (metis prod.collapse that)
qed

section \<open>finish, cancel, admit\<close>

text \<open>What \<open>finish\<close> leaves alone.\<close>

definition finish_frame :: "seq_id \<Rightarrow> scheduler \<Rightarrow> scheduler \<Rightarrow> bool" where
  "finish_frame i s s' \<longleftrightarrow>
     cfg s' = cfg s \<and> next_id s' = next_id s \<and> eos_tokens s' = eos_tokens s \<and>
     default_ns s' = default_ns s \<and> tenants s' = tenants s \<and> by_request s' = by_request s \<and>
     running s' = filter (\<lambda>r. r \<noteq> i) (running s) \<and> waiting s' = filter (\<lambda>r. r \<noteq> i) (waiting s) \<and>
     (\<forall>j. j \<noteq> i \<longrightarrow> seqs s' j = seqs s j) \<and> dom (seqs s') = dom (seqs s)"

lemma finished_not_queued:
  assumes "sinv R D s" "seqs s i = Some q" "is_finished (status q)"
  shows "i \<in> set (finished s)" "i \<notin> set R" "i \<notin> set (waiting s)"
proof -
  have "i \<in> set (waiting s) \<union> set R \<union> set (finished s)" using assms(1,2) by (auto simp: sinv_def)
  moreover have "i \<notin> set (waiting s)" "i \<notin> set R"
    using sinv_role [OF assms(1,2)] assms(3)
    by (auto simp: role_ok_def waiting_ok_def running_ok_def split: if_splits)
  ultimately show "i \<in> set (finished s)" "i \<notin> set R" "i \<notin> set (waiting s)" by auto
qed

lemma unfinished_queued:
  assumes "sinv R D s" "seqs s i = Some q" "\<not> is_finished (status q)"
  shows "i \<notin> set (finished s)" "i \<in> set R \<union> set (waiting s)"
proof -
  have "i \<in> set (waiting s) \<union> set R \<union> set (finished s)" using assms(1,2) by (auto simp: sinv_def)
  moreover show "i \<notin> set (finished s)"
    using sinv_role [OF assms(1,2)] assms(3) by (auto simp: role_ok_def finished_ok_def)
  ultimately show "i \<in> set R \<union> set (waiting s)" by auto
qed

lemma absent_not_queued:
  assumes "sinv R D s" "seqs s i = None"
  shows "i \<notin> set R" "i \<notin> set (waiting s)" "i \<notin> set (finished s)"
  using assms by (auto simp: sinv_def)

lemma release_blocks:
  assumes "sinv R D s" "seqs s i = Some q"
  shows "\<exists>p. free_all (blocks q) (pool s) = Some p \<and> pool_inv p \<and> same_geometry (pool s) p \<and>
      (\<forall>b. rc p b + count_list (blocks q) b = rc (pool s) b) \<and> content p = content (pool s)"
proof -
  obtain p where p: "for_each free (blocks q) (pool s) = Some p" "pool_inv p" "same_geometry (pool s) p"
      "rc p = (\<lambda>b. rc (pool s) b - count_list (blocks q) b)" "content p = content (pool s)"
    using bp.release_all [OF sinv_pool [OF assms(1)] sinv_count_le [OF assms]] by blast
  moreover have "rc p b + count_list (blocks q) b = rc (pool s) b" for b
    using p(4) sinv_count_le [OF assms, of b] by simp
  ultimately show ?thesis by (auto simp: free_all_def)
qed

text \<open>
  Finishing a live sequence that has become \<open>q2\<close> meanwhile, as when a sampled token was appended
  to it.
\<close>

lemma finish_live:
  assumes inv: "sinv (running s) D s" and q: "seqs s i = Some q" "\<not> is_finished (status q)"
    and q2: "blocks q2 = blocks q" "status q2 = status q" "tokens_ok q2"
  shows "\<exists>s'. finish i reason (s\<lparr>seqs := (seqs s)(i \<mapsto> q2)\<rparr>) = Some s' \<and> sinv (running s') (D - {i}) s' \<and>
      finish_frame i s s' \<and> seqs s' i = Some (q2\<lparr>status := Finished reason, blocks := []\<rparr>) \<and>
      finished s' = finished s @ [i] \<and> same_geometry (pool s) (pool s')"
proof -
  from release_blocks [OF inv q(1)] obtain p where p: "free_all (blocks q) (pool s) = Some p"
      "pool_inv p" "same_geometry (pool s) p" "\<forall>b. rc p b + count_list (blocks q) b = rc (pool s) b"
      "content p = content (pool s)" by blast
  let ?q = "q2\<lparr>status := Finished reason, blocks := []\<rparr>"
  let ?s = "s\<lparr>seqs := (seqs s)(i \<mapsto> ?q), pool := p, running := filter (\<lambda>r. r \<noteq> i) (running s),
      waiting := filter (\<lambda>r. r \<noteq> i) (waiting s), finished := finished s @ [i]\<rparr>"
  note u = unfinished_queued [OF inv q]
  have "sinv (running ?s) (D - {i}) ?s"
  proof (rule sinv_update [OF inv q(1), where q' = ?q])
    show "distinct (waiting ?s @ running ?s @ finished ?s)"
      using inv u by (auto simp: sinv_def)
    show "set (waiting ?s) \<union> set (running ?s) \<union> set (finished ?s)
        = set (waiting s) \<union> set (running s) \<union> set (finished s)"
      using u by auto
    show "role_ok (cfg s) (pool ?s) (set (waiting ?s)) (set (running ?s)) (set (finished ?s)) (D - {i}) i ?q"
      using q2(3) by (auto simp: role_ok_def tokens_ok_def finished_ok_def)
  qed (use p in auto)
  moreover have "finish i reason (s\<lparr>seqs := (seqs s)(i \<mapsto> q2)\<rparr>) = Some ?s"
    using q q2 p(1) by (simp add: finish_def)
  ultimately show ?thesis using q(1) p(3)
    by (intro exI [of _ ?s]) (auto simp: finish_frame_def)
qed

lemma finish_noop:
  assumes inv: "sinv (running s) D s" and "\<nexists>q. seqs s i = Some q \<and> \<not> is_finished (status q)"
  shows "finish i reason s = Some s \<and> finish_frame i s s"
proof -
  have "finish i reason s = Some s" using assms(2) by (auto simp: finish_def split: option.splits)
  moreover have "i \<notin> set (running s)" "i \<notin> set (waiting s)"
    using assms(2) finished_not_queued [OF inv] absent_not_queued [OF inv] by (cases "seqs s i", auto)+
  ultimately show ?thesis by (simp add: finish_frame_def)
qed

lemma sinv_due_cong:
  assumes "\<And>j. j \<in> set R \<Longrightarrow> j \<in> D' \<longleftrightarrow> j \<in> D"
  shows "sinv R D' s = sinv R D s"
proof -
  have "role_ok c p W (set R) F D' j q = role_ok c p W (set R) F D j q" for c p W F j q
    using assms [of j] by (cases "j \<in> set R") (simp_all add: role_ok_def)
  then show ?thesis by (simp add: sinv_def)
qed

lemma finish_ok:
  assumes inv: "sinv (running s) D s"
  shows "\<exists>s'. finish i reason s = Some s' \<and> sinv (running s') D s' \<and> finish_frame i s s' \<and>
      same_geometry (pool s) (pool s') \<and> (\<forall>q. seqs s' i = Some q \<longrightarrow> is_finished (status q)) \<and>
      (\<forall>q. seqs s i = Some q \<longrightarrow> (\<exists>st. seqs s' i = Some (q\<lparr>status := st, blocks := []\<rparr>)))"
proof (cases "\<exists>q. seqs s i = Some q \<and> \<not> is_finished (status q)")
  case False
  have "q\<lparr>status := status q, blocks := []\<rparr> = q" if "seqs s i = Some q" for q
  proof -
    have "blocks q = []"
      using False that finished_not_queued(1) [OF inv that] sinv_role [OF inv that]
      by (auto simp: role_ok_def finished_ok_def)
    then show ?thesis by simp
  qed
  then have "\<exists>st. seqs s i = Some (q\<lparr>status := st, blocks := []\<rparr>)" if "seqs s i = Some q" for q
    using that by metis
  with False finish_noop [OF inv False] inv show ?thesis by (intro exI [of _ s]) simp
next
  case True
  then obtain q where q: "seqs s i = Some q" "\<not> is_finished (status q)" by blast
  have "s\<lparr>seqs := (seqs s)(i \<mapsto> q)\<rparr> = s" using q(1) by (simp add: fun_upd_idem)
  with finish_live [OF inv q, of q reason] sinv_tokens [OF inv q(1)] obtain s' where
      s': "finish i reason s = Some s'" "sinv (running s') (D - {i}) s'" "finish_frame i s s'"
        "seqs s' i = Some (q\<lparr>status := Finished reason, blocks := []\<rparr>)" "same_geometry (pool s) (pool s')"
    by auto
  have "i \<notin> set (running s')" using s'(3) by (auto simp: finish_frame_def)
  then have "sinv (running s') D s' = sinv (running s') (D - {i}) s'" by (intro sinv_due_cong) auto
  with s'(2) have "sinv (running s') D s'" by simp
  with s' q show ?thesis by auto
qed

lemma admit_ok:
  assumes inv: "sinv R D s"
  shows "sinv R D (snd (admit rid prompt ps ns s))"
proof (cases "prompt = [] \<or> length prompt \<ge> max_context (cfg s)")
  case True
  then show ?thesis using inv by (auto simp: admit_def)
next
  case False
  let ?q = "sequence_new rid prompt ps ns"
  let ?s = "snd (admit rid prompt ps ns s)"
  have s: "?s = s\<lparr>next_id := next_id s + 1, by_request := push_request rid (next_id s) (by_request s),
      seqs := (seqs s)(next_id s \<mapsto> ?q), waiting := waiting s @ [next_id s]\<rparr>"
    using False by (simp add: admit_def Let_def)
  have new: "next_id s \<notin> dom (seqs s)" using inv by (auto simp: sinv_def)
  then have nq: "next_id s \<notin> set (waiting s)" "next_id s \<notin> set R" "next_id s \<notin> set (finished s)"
    using inv by (auto simp: sinv_def)
  show ?thesis
  proof (rule sinv_insert [OF inv, where q' = ?q])
    show "distinct (waiting ?s @ R @ finished ?s)"
      using inv nq by (auto simp: s sinv_def)
    show "set (waiting ?s) \<union> set R \<union> set (finished ?s) = insert (next_id s) (dom (seqs s))"
      using inv by (auto simp: s sinv_def)
    show "role_ok (cfg s) (pool ?s) (set (waiting ?s)) (set R) (set (finished ?s)) D (next_id s) ?q"
      using False nq
      by (simp add: s role_ok_def waiting_ok_def tokens_ok_def sequence_new_def)
  qed (use inv in \<open>auto simp: s sequence_new_def sinv_pool\<close>)
qed

lemma cancel_ok:
  assumes "sinv (running s) D s"
  shows "\<exists>r s'. cancel rid s = Some (r, s') \<and> sinv (running s') D s'"
proof (cases "by_request s rid")
  case None
  then show ?thesis using assms by (simp add: cancel_def)
next
  case (Some ids)
  have "\<exists>s'. for_each (\<lambda>i. finish i Cancelled) ids s = Some s' \<and> sinv (running s') D s'"
    by (rule for_each_total [where I = "\<lambda>_ s. sinv (running s) D s"]) (use assms finish_ok in blast)+
  with Some show ?thesis by (auto simp: cancel_def)
qed

lemma cancel_cfg:
  assumes "sched_inv s" "cancel rid s = Some (r, s')"
  shows "cfg s' = cfg s"
proof (cases "by_request s rid")
  case None
  then show ?thesis using assms(2) by (simp add: cancel_def)
next
  case (Some ids)
  let ?I = "\<lambda>_ t. sinv (running t) {} t \<and> cfg t = cfg s"
  have "\<exists>s'. for_each (\<lambda>i. finish i Cancelled) ids s = Some s' \<and> ?I [] s'"
  proof (rule for_each_total)
    show "\<exists>t'. finish j Cancelled t = Some t' \<and> ?I js t'" if "?I (j # js) t" for j js t
      using that finish_ok [of t "{}" j Cancelled] by (auto simp: finish_frame_def)
  qed (use assms(1) in \<open>simp add: sched_inv_def\<close>)
  then show ?thesis using Some assms(2) by (auto simp: cancel_def)
qed

section \<open>Draining\<close>

lemma seq_refs_remove:
  assumes "seqs s' = (seqs s)(i := None)" "next_id s' = next_id s" "blocks_of s i = []"
  shows "seq_refs s' = seq_refs s"
  using assms by (auto simp: seq_refs_def fun_eq_iff blocks_of_def intro!: sum.cong)

lemma drain_ok:
  assumes "sinv R D (s\<lparr>finished := is @ finished s\<rparr>)"
  shows "sinv R D (snd (drain is s))"
  using assms
proof (induction "is" arbitrary: s)
  case Nil
  then show ?case by (simp add: sinv_cong [of "s\<lparr>finished := finished s\<rparr>"])
next
  case (Cons i "is")
  then have "i \<in> dom (seqs s)" by (auto simp: sinv_def)
  then obtain q where q: "seqs s i = Some q" by blast
  let ?s = "s\<lparr>seqs := (seqs s)(i := None), by_request := drop_request (request_id q) i (by_request s)\<rparr>"
  have "blocks q = []"
    using sinv_role [OF Cons.prems, of i q] q by (auto simp: role_ok_def finished_ok_def)
  then have "seq_refs (?s\<lparr>finished := is @ finished ?s\<rparr>) = seq_refs (s\<lparr>finished := (i # is) @ finished s\<rparr>)"
    using q by (intro seq_refs_remove [of _ _ i]) (simp_all add: blocks_of_def)
  moreover have "role_ok c p W Q (set is \<union> F) D' j r"
    if "role_ok c p W Q (insert i (set is \<union> F)) D' j r" for c p W Q F D' j r
    using that by (auto simp: role_ok_def)
  ultimately have "sinv R D (?s\<lparr>finished := is @ finished ?s\<rparr>)"
    using Cons.prems unfolding sinv_def by (auto simp: dom_def)
  from Cons.IH [OF this] q show ?case
    by (simp add: Let_def case_prod_unfold)
qed

lemma drain_finished_ok:
  assumes "sinv R D s"
  shows "sinv R D (snd (drain_finished s))"
  unfolding drain_finished_def
  by (rule drain_ok) (use assms in \<open>simp add: sinv_cong [of "s\<lparr>finished := finished s\<rparr>"]\<close>)

lemma drain_frame:
  "running (snd (drain is s)) = running s \<and> waiting (snd (drain is s)) = waiting s \<and> cfg (snd (drain is s)) = cfg s \<and>
   pool (snd (drain is s)) = pool s \<and> finished (snd (drain is s)) = finished s \<and> next_id (snd (drain is s)) = next_id s"
  by (induction "is" arbitrary: s) (auto simp: Let_def case_prod_unfold split: option.splits)

lemma drain_finished_frame:
  "running (snd (drain_finished s)) = running s" "waiting (snd (drain_finished s)) = waiting s"
  "cfg (snd (drain_finished s)) = cfg s" "pool (snd (drain_finished s)) = pool s"
  "finished (snd (drain_finished s)) = []"
  by (simp_all add: drain_finished_def drain_frame)

section \<open>Growing and preempting a running sequence\<close>

lemma exclusive_extend:
  assumes "exclusive p bs q" "distinct new" "\<And>b. b \<in> set new \<Longrightarrow> rc p b = 0"
    and "rc p' = (\<lambda>b. rc p b + count_list new b)"
    and "content p' = (\<lambda>b. if b \<in> set new then None else content p b)"
  shows "exclusive p' bs (q\<lparr>blocks := blocks q @ new\<rparr>)"
  unfolding exclusive_def
proof (intro allI impI)
  fix j
  assume j: "num_computed (q\<lparr>blocks := blocks q @ new\<rparr>) div bs \<le> j \<and>
    j < length (blocks (q\<lparr>blocks := blocks q @ new\<rparr>))"
  let ?b = "(blocks q @ new) ! j"
  have "rc p' ?b = 1 \<and> content p' ?b = None"
  proof (cases "j < length (blocks q)")
    case True
    then have b: "rc p ?b = 1" "content p ?b = None"
      using assms(1) j by (auto simp: exclusive_def nth_append)
    then have "?b \<notin> set new" using assms(3) by force
    with b assms(4,5) show ?thesis by (simp add: count_list_0_iff)
  next
    case False
    then have "j - length (blocks q) < length new" using j by auto
    then have "?b \<in> set new" using False by (simp add: nth_append)
    with assms show ?thesis by (simp add: count_list_distinct)
  qed
  then show "rc p' (blocks (q\<lparr>blocks := blocks q @ new\<rparr>) ! j) = 1 \<and>
    content p' (blocks (q\<lparr>blocks := blocks q @ new\<rparr>) ! j) = None" by simp
qed

lemma try_extend_ok:
  assumes inv: "sinv R D s" and i: "i \<in> set R" and q: "seqs s i = Some q"
  shows "\<exists>fits new p. try_extend i n s =
        Some (fits, s\<lparr>seqs := (seqs s)(i \<mapsto> q\<lparr>blocks := blocks q @ new\<rparr>), pool := p\<rparr>) \<and>
      sinv R D (s\<lparr>seqs := (seqs s)(i \<mapsto> q\<lparr>blocks := blocks q @ new\<rparr>), pool := p\<rparr>) \<and>
      same_geometry (pool s) p \<and>
      (fits \<longrightarrow> num_computed q + n \<le> length (blocks q @ new) * cfg_block_size (cfg s)) \<and>
      (num_computed q + n \<le> length (blocks q) * cfg_block_size (cfg s) \<longrightarrow> fits)"
proof -
  let ?bs = "cfg_block_size (cfg s)"
  let ?k = "blocks_for (pool s) (num_computed q + n) - length (blocks q)"
  obtain e new p where p: "alloc_up_to allocate ?k (pool s) = Some (e, new, p)" "pool_inv p"
      "same_geometry (pool s) p" "e = None \<longleftrightarrow> ?k \<le> num_free (pool s)"
      "length new = min ?k (num_free (pool s))" "distinct new"
      "\<forall>b \<in> set new. b < num_blocks (pool s) \<and> rc (pool s) b = 0"
      "rc p = (\<lambda>b. rc (pool s) b + count_list new b)"
      "content p = (\<lambda>b. if b \<in> set new then None else content (pool s) b)"
    using bp.alloc_up_to_ok [OF sinv_pool [OF inv], of ?k] by blast
  let ?q = "q\<lparr>blocks := blocks q @ new\<rparr>"
  let ?s = "s\<lparr>seqs := (seqs s)(i \<mapsto> ?q), pool := p\<rparr>"
  have r: "role_ok (cfg s) (pool s) (set (waiting s)) (set R) (set (finished s)) D i q"
    by (rule sinv_role [OF inv q])
  have nw: "i \<notin> set (waiting s)" "i \<notin> set (finished s)" using inv i by (auto simp: sinv_def)
  have ex: "exclusive p ?bs ?q" if "exclusive (pool s) ?bs q"
    using that p(6) by (rule exclusive_extend) (use p in auto)
  have len: "num_computed q \<le> length (blocks q @ new) * ?bs" if "num_computed q \<le> length (blocks q) * ?bs"
    using that by (simp add: add_mult_distrib)
  have "sinv R D ?s"
  proof (rule sinv_update [OF inv q, where q' = ?q])
    show "role_ok (cfg s) (pool ?s) (set (waiting ?s)) (set R) (set (finished ?s)) D i ?q"
      using r ex len nw by (auto simp: role_ok_def running_ok_def tokens_ok_def)
    show "distinct (waiting ?s @ R @ finished ?s)" using inv by (simp add: sinv_def)
    show "c \<notin> set (blocks ?q) \<and> content (pool ?s) c = None"
      if "rc (pool s) c = 1" "content (pool s) c = None" "c \<notin> set (blocks q)" for c
      using that p(7,9) by auto
  qed (use p in auto)
  moreover have "try_extend i n s = Some (e = None, ?s)"
    using q p(1) by (simp add: try_extend_def)
  moreover have "num_computed q + n \<le> length (blocks q @ new) * ?bs" if "e = None"
  proof -
    have "div_ceil (num_computed q + n) ?bs \<le> length (blocks q @ new)"
      using that p(4,5) sinv_block_size [OF inv] by (simp add: blocks_for_def)
    then show ?thesis using sinv_block_size(2) [OF inv] by (simp add: div_ceil_le_iff)
  qed
  moreover have "e = None" if "num_computed q + n \<le> length (blocks q) * ?bs"
    using that p(4) sinv_block_size [OF inv] by (simp add: blocks_for_def div_ceil_le_iff)
  ultimately show ?thesis using p(3) by blast
qed

lemma preempt_ok:
  assumes inv: "sinv R D s" and i: "i \<in> set R" and q: "seqs s i = Some q"
  shows "\<exists>p. preempt i s = Some (s\<lparr>pool := p, seqs := (seqs s)(i \<mapsto> reset_for_recompute (q\<lparr>blocks := []\<rparr>)),
        running := filter (\<lambda>r. r \<noteq> i) (running s), waiting := i # waiting s\<rparr>) \<and>
      sinv (filter (\<lambda>r. r \<noteq> i) R) D
        (s\<lparr>pool := p, seqs := (seqs s)(i \<mapsto> reset_for_recompute (q\<lparr>blocks := []\<rparr>)),
           running := filter (\<lambda>r. r \<noteq> i) (running s), waiting := i # waiting s\<rparr>) \<and>
      same_geometry (pool s) p"
proof -
  from release_blocks [OF inv q] obtain p where p: "free_all (blocks q) (pool s) = Some p"
      "pool_inv p" "same_geometry (pool s) p" "\<forall>b. rc p b + count_list (blocks q) b = rc (pool s) b"
      "content p = content (pool s)" by blast
  let ?q = "reset_for_recompute (q\<lparr>blocks := []\<rparr>)"
  let ?s = "s\<lparr>pool := p, seqs := (seqs s)(i \<mapsto> ?q), running := filter (\<lambda>r. r \<noteq> i) (running s),
      waiting := i # waiting s\<rparr>"
  have "sinv (filter (\<lambda>r. r \<noteq> i) R) D ?s"
  proof (rule sinv_update [OF inv q, where q' = ?q])
    show "distinct (waiting ?s @ filter (\<lambda>r. r \<noteq> i) R @ finished ?s)"
      using inv i by (auto simp: sinv_def)
    show "set (waiting ?s) \<union> set (filter (\<lambda>r. r \<noteq> i) R) \<union> set (finished ?s)
        = set (waiting s) \<union> set R \<union> set (finished s)"
      using i by auto
    have "i \<notin> set (finished s)" using inv i by (auto simp: sinv_def)
    then show "role_ok (cfg s) (pool ?s) (set (waiting ?s)) (set (filter (\<lambda>r. r \<noteq> i) R))
        (set (finished ?s)) D i ?q"
      using sinv_role [OF inv q] i
      by (auto simp: role_ok_def running_ok_def tokens_ok_def waiting_ok_def reset_for_recompute_def)
  qed (use p in \<open>auto simp: reset_for_recompute_def\<close>)
  moreover have "preempt i s = Some ?s" using q p(1) by (simp add: preempt_def)
  ultimately show ?thesis using p(3) by blast
qed

end
