(* ===== verification/Scheduler_Plan.thy ===== *)
theory Scheduler_Plan
  imports Scheduler_Inv
begin

text \<open>
  The scheduling pass of \<open>vapi-engine/src/scheduler.rs\<close>: what batch a plan stands for, and
  that \<open>schedule\<close> ends, does not panic, keeps the invariant and builds exactly that batch.
\<close>

section \<open>The batch a plan stands for\<close>

text \<open>
  The contribution of each sequence in closed form: \<open>n\<close> tokens of \<open>q\<close> from \<open>num_computed q\<close>
  on.  \<open>push_seq_into_batch\<close> builds exactly this, row by row.
\<close>

fun cums :: "nat \<Rightarrow> nat list \<Rightarrow> nat list" where
  "cums a [] = [a]"
| "cums a (x # xs) = a # cums (a + x) xs"

definition row_span :: "sequence \<times> nat \<Rightarrow> nat list" where
  "row_span r = [num_computed (fst r)..<num_computed (fst r) + snd r]"

definition row_slots :: "nat \<Rightarrow> sequence \<times> nat \<Rightarrow> nat list" where
  "row_slots bs r = map (\<lambda>i. u32_of (blocks (fst r) ! (i div bs) * bs + i mod bs)) (row_span r)"

definition row_completes :: "sequence \<times> nat \<Rightarrow> bool" where
  "row_completes r \<longleftrightarrow> num_computed (fst r) + snd r \<ge> length (tokens (fst r))"

fun row_logits :: "nat \<Rightarrow> (sequence \<times> nat) list \<Rightarrow> nat list" where
  "row_logits a [] = []"
| "row_logits a (r # rs) =
     (if row_completes r then [u32_of (a + snd r - 1)] else []) @ row_logits (a + snd r) rs"

definition mk_batch :: "nat \<Rightarrow> (sequence \<times> nat) list \<Rightarrow> forward_batch" where
  "mk_batch bs rows =
     \<lparr>fb_tokens = concat (map (\<lambda>r. map (\<lambda>i. tokens (fst r) ! i) (row_span r)) rows),
      positions = concat (map (\<lambda>r. map u32_of (row_span r)) rows),
      cu_seqlens_q = (if rows = [] then [] else cums 0 (map (\<lambda>r. u32_of (snd r)) rows)),
      cu_seqlens_k = (if rows = [] then []
         else cums 0 (map (\<lambda>r. u32_of (num_computed (fst r) + snd r)) rows)),
      slot_mapping = concat (map (row_slots bs) rows),
      block_tables = map (\<lambda>r. blocks (fst r)) rows,
      logits_indices = row_logits 0 rows,
      max_seqlen_q = 0, max_seqlen_k = 0\<rparr>"

lemma cums_snoc: "cums a (xs @ [x]) = cums a xs @ [a + sum_list xs + x]"
  by (induction xs arbitrary: a) (auto simp: add.assoc)

lemma last_cums [simp]: "last (cums a xs) = a + sum_list xs"
  by (induction xs arbitrary: a) (auto split: list.splits elim: cums.elims)

lemma cums_not_Nil [simp]: "cums a xs \<noteq> []"
  by (cases xs) auto

lemma length_cums [simp]: "length (cums a xs) = Suc (length xs)"
  by (induction xs arbitrary: a) auto

lemma nth_cums: "i \<le> length xs \<Longrightarrow> cums a xs ! i = a + sum_list (take i xs)"
proof (induction xs arbitrary: a i)
  case (Cons x xs)
  then show ?case by (cases i) (auto simp: add.assoc)
qed simp

lemma row_logits_snoc:
  "row_logits a (rs @ [r]) =
     row_logits a rs @ (if row_completes r then [u32_of (a + sum_list (map snd rs) + snd r - 1)] else [])"
  by (induction rs arbitrary: a) (auto simp: add.assoc)

lemma length_row_span [simp]: "length (row_span r) = snd r"
  by (simp add: row_span_def)

lemma push_positions:
  assumes "0 < bs" "a + n \<le> length (tokens q)" "a + n \<le> length (blocks q) * bs"
  shows "for_each (push_position q bs) [a..<a + n] b =
    Some (b\<lparr>fb_tokens := fb_tokens b @ map (\<lambda>i. tokens q ! i) [a..<a + n],
            positions := positions b @ map u32_of [a..<a + n],
            slot_mapping := slot_mapping b
              @ map (\<lambda>i. u32_of (blocks q ! (i div bs) * bs + i mod bs)) [a..<a + n]\<rparr>)"
  using assms(2,3)
proof (induction n)
  case (Suc n)
  then have "(a + n) div bs < length (blocks q)"
    using assms(1) by (simp add: less_mult_imp_div_less)
  with Suc show ?case by (simp add: for_each_append push_position_def run_simps)
qed simp

text \<open>
  The plan under construction: entries \<open>(i, n)\<close> of running sequences, each with room in its tokens
  and in its blocks for the \<open>n\<close> positions it contributes.
\<close>

definition entry_ok :: "scheduler \<Rightarrow> seq_id list \<Rightarrow> seq_id \<times> nat \<Rightarrow> bool" where
  "entry_ok s R e \<longleftrightarrow>
     fst e \<in> set R \<and> 0 < snd e \<and>
     (\<exists>q. seqs s (fst e) = Some q \<and> num_computed q + snd e \<le> length (tokens q) \<and>
        num_computed q + snd e \<le> length (blocks q) * cfg_block_size (cfg s))"

definition rows_of :: "scheduler \<Rightarrow> (seq_id \<times> nat) list \<Rightarrow> (sequence \<times> nat) list" where
  "rows_of s es = map (\<lambda>e. (the (seqs s (fst e)), snd e)) es"

definition plan_rep :: "scheduler \<Rightarrow> seq_id list \<Rightarrow> (seq_id \<times> nat) list \<Rightarrow> step_plan \<Rightarrow> bool" where
  "plan_rep s R es plan \<longleftrightarrow>
     distinct (map fst es) \<and> (\<forall>e \<in> set es. entry_ok s R e) \<and>
     batch_seqs plan = map fst es \<and>
     batch plan = mk_batch (cfg_block_size (cfg s)) (rows_of s es) \<and>
     sampled_seqs plan = map fst (filter (\<lambda>e. row_completes (the (seqs s (fst e)), snd e)) es)"

lemma plan_rep_empty: "plan_rep s R [] empty_plan"
  by (simp add: plan_rep_def empty_plan_def mk_batch_def rows_of_def empty_batch_def)

lemma plan_rep_frame:
  assumes "plan_rep s R es plan" "cfg s' = cfg s"
    and "\<And>i n. (i, n) \<in> set es \<Longrightarrow> seqs s' i = seqs s i \<and> i \<in> set R'"
  shows "plan_rep s' R' es plan"
proof -
  have "rows_of s' es = rows_of s es" using assms(3) by (auto simp: rows_of_def)
  moreover have "filter (\<lambda>e. row_completes (the (seqs s' (fst e)), snd e)) es
      = filter (\<lambda>e. row_completes (the (seqs s (fst e)), snd e)) es"
    using assms(3) by (intro filter_cong) auto
  moreover have "\<forall>e \<in> set es. entry_ok s' R' e"
    using assms by (auto simp: plan_rep_def entry_ok_def)
  ultimately show ?thesis using assms(1,2) by (simp add: plan_rep_def)
qed

lemma plan_rep_mem: "plan_rep s R es plan \<Longrightarrow> (i, n) \<in> set es \<Longrightarrow> i \<in> set R"
  by (auto simp: plan_rep_def entry_ok_def)

lemma plan_rep_record [simp]:
  "plan_rep s R es (plan\<lparr>preempted := x\<rparr>) = plan_rep s R es plan"
  "plan_rep s R es (plan\<lparr>started := y\<rparr>) = plan_rep s R es plan"
  by (simp_all add: plan_rep_def)

lemma length_concat_span:
  "length (concat (map (\<lambda>r. map (f r) (row_span r)) rows)) = sum_list (map snd rows)"
  by (induction rows) auto

lemma u32_of_le: "u32_of n \<le> n"
  by (simp add: u32_of_def)

lemma sum_list_u32_of_le: "sum_list (map (\<lambda>r. u32_of (f r)) rows) \<le> sum_list (map f rows)"
  by (intro sum_list_mono u32_of_le)

definition keys_len :: "sequence \<times> nat \<Rightarrow> nat" where
  "keys_len r = num_computed (fst r) + snd r"

lemma push_seq_rep:
  assumes rep: "plan_rep s R es plan" and bs: "0 < cfg_block_size (cfg s)"
    and e: "entry_ok s R (i, n)" "i \<notin> fst ` set es" "seqs s i = Some q"
    and small: "sum_list (map snd (rows_of s es)) + n < 2 ^ 32"
      "sum_list (map keys_len (rows_of s es)) + (num_computed q + n) < 2 ^ 32"
  shows "\<exists>plan'. push_seq_into_batch i n s plan = Some plan' \<and> plan_rep s R (es @ [(i, n)]) plan' \<and>
      preempted plan' = preempted plan \<and> started plan' = started plan"
proof -
  let ?bs = "cfg_block_size (cfg s)" and ?a = "num_computed q"
  let ?rows = "rows_of s es" and ?r = "(q, n)"
  define b0 where "b0 = (if cu_seqlens_q (batch plan) = []
      then (batch plan)\<lparr>cu_seqlens_q := [0], cu_seqlens_k := cu_seqlens_k (batch plan) @ [0]\<rparr>
      else batch plan)"
  define b1 where "b1 = b0\<lparr>fb_tokens := fb_tokens b0 @ map (\<lambda>i. tokens q ! i) [?a..<?a + n],
      positions := positions b0 @ map u32_of [?a..<?a + n],
      slot_mapping := slot_mapping b0
        @ map (\<lambda>i. u32_of (blocks q ! (i div ?bs) * ?bs + i mod ?bs)) [?a..<?a + n]\<rparr>"
  define b2 where "b2 = b1\<lparr>cu_seqlens_q := cu_seqlens_q b1 @ [last (cu_seqlens_q b1) + u32_of n],
      cu_seqlens_k := cu_seqlens_k b1 @ [last (cu_seqlens_k b1) + u32_of (?a + n)],
      block_tables := block_tables b1 @ [blocks q]\<rparr>"
  define b3 where "b3 = (if row_completes ?r
      then b2\<lparr>logits_indices := logits_indices b2 @ [u32_of (length (fb_tokens b2) - 1)]\<rparr> else b2)"
  have rows: "rows_of s (es @ [(i, n)]) = ?rows @ [?r]" using e(3) by (simp add: rows_of_def)
  have b: "batch plan = mk_batch ?bs ?rows" using rep by (simp add: plan_rep_def)
  have q: "?a + n \<le> length (tokens q)" "?a + n \<le> length (blocks q) * ?bs" "0 < n"
    using e(1,3) by (auto simp: entry_ok_def)
  have b0: "b0 = (mk_batch ?bs ?rows)\<lparr>cu_seqlens_q := cums 0 (map (\<lambda>r. u32_of (snd r)) ?rows),
      cu_seqlens_k := cums 0 (map (\<lambda>r. u32_of (keys_len r)) ?rows)\<rparr>"
    by (auto simp: b0_def b mk_batch_def keys_len_def)
  have loop: "for_each (push_position q ?bs) [?a..<?a + n] b0 = Some b1"
    using push_positions [OF bs q(1,2), of b0] by (simp add: b1_def)
  have cu: "cu_seqlens_q b1 = cums 0 (map (\<lambda>r. u32_of (snd r)) ?rows)"
      "cu_seqlens_k b1 = cums 0 (map (\<lambda>r. u32_of (keys_len r)) ?rows)"
    by (simp_all add: b1_def b0)
  have add: "add_u32 (last (cu_seqlens_q b1)) (u32_of n) = Some (last (cu_seqlens_q b1) + u32_of n)"
    "add_u32 (last (cu_seqlens_k b1)) (u32_of (?a + n)) = Some (last (cu_seqlens_k b1) + u32_of (?a + n))"
    using cu small sum_list_u32_of_le [of snd ?rows] sum_list_u32_of_le [of keys_len ?rows]
      u32_of_le [of n] u32_of_le [of "?a + n"]
    by (auto intro!: add_u32_run)
  have len: "length (fb_tokens b2) = sum_list (map snd ?rows) + n"
    by (simp add: b2_def b1_def b0 mk_batch_def length_concat_span)
  have b3: "b3 = mk_batch ?bs (?rows @ [?r])"
    using len by (simp add: b3_def b2_def cu) (simp add: b1_def b0 mk_batch_def cums_snoc row_logits_snoc keys_len_def row_span_def row_slots_def)
  have "push_seq_into_batch i n s plan = Some (plan\<lparr>batch_seqs := batch_seqs plan @ [i],
      batch := b3, sampled_seqs := sampled_seqs plan @ (if row_completes ?r then [i] else [])\<rparr>)"
  proof -
    have ne: "ensure (cu_seqlens_q b1 \<noteq> [] \<and> cu_seqlens_k b1 \<noteq> []) = Some ()" using cu by simp
    have sub: "checked_sub (length (fb_tokens b2)) 1 = Some (length (fb_tokens b2) - 1)"
      using len q(3) by simp
    show ?thesis
      unfolding push_seq_into_batch_def Let_def e(3) bind.bind_lunit b0_def [symmetric] loop ne add
        b2_def [symmetric]
      using bs sub by (simp add: b3_def row_completes_def total_len_def run_simps)
  qed
  moreover have "\<forall>e \<in> set (es @ [(i, n)]). entry_ok s R e"
    using rep e(1) by (auto simp: plan_rep_def)
  ultimately show ?thesis
    using rep e rows b3 by (auto simp: plan_rep_def)
qed

section \<open>What a scheduling pass leaves alone\<close>

definition seq_frame :: "sequence \<Rightarrow> sequence \<Rightarrow> bool" where
  "seq_frame q q' \<longleftrightarrow>
     request_id q' = request_id q \<and> params q' = params q \<and> tokens q' = tokens q \<and>
     prompt_len q' = prompt_len q \<and> seq_namespace q' = seq_namespace q"

definition sched_frame :: "scheduler \<Rightarrow> scheduler \<Rightarrow> bool" where
  "sched_frame s s' \<longleftrightarrow>
     cfg s' = cfg s \<and> next_id s' = next_id s \<and> finished s' = finished s \<and>
     by_request s' = by_request s \<and> eos_tokens s' = eos_tokens s \<and> default_ns s' = default_ns s \<and>
     same_geometry (pool s) (pool s') \<and>
     (\<forall>i. rel_option seq_frame (seqs s i) (seqs s' i))"

lemma seq_frame_refl [simp]: "seq_frame q q"
  by (simp add: seq_frame_def)

lemma seq_frame_trans: "seq_frame q r \<Longrightarrow> seq_frame r t \<Longrightarrow> seq_frame q t"
  by (simp add: seq_frame_def)

lemma sched_frame_refl [simp]: "sched_frame s s"
  by (simp add: sched_frame_def option.rel_refl)

lemma sched_frame_trans [trans]:
  assumes "sched_frame s t" "sched_frame t u"
  shows "sched_frame s u"
proof -
  have "rel_option seq_frame (seqs s i) (seqs u i)" for i
  proof -
    have "rel_option seq_frame (seqs s i) (seqs t i)" "rel_option seq_frame (seqs t i) (seqs u i)"
      using assms by (auto simp: sched_frame_def)
    then show ?thesis
      by (cases "seqs s i"; cases "seqs t i"; cases "seqs u i") (auto intro: seq_frame_trans)
  qed
  with assms show ?thesis by (auto simp: sched_frame_def intro: same_geometry_trans)
qed

lemma sched_frame_update:
  assumes "seqs s i = Some q" "seq_frame q q'" "seqs s' = (seqs s)(i \<mapsto> q')" "cfg s' = cfg s"
    "next_id s' = next_id s" "finished s' = finished s" "by_request s' = by_request s"
    "eos_tokens s' = eos_tokens s" "default_ns s' = default_ns s" "same_geometry (pool s) (pool s')"
  shows "sched_frame s s'"
  using assms by (auto simp: sched_frame_def option.rel_refl)

lemma sched_frame_map:
  assumes "sched_frame s s'" "\<And>q q'. seq_frame q q' \<Longrightarrow> f q' = f q"
  shows "map_option f (seqs s' i) = map_option f (seqs s i)"
proof -
  have "rel_option seq_frame (seqs s i) (seqs s' i)" using assms(1) by (simp add: sched_frame_def)
  with assms(2) show ?thesis by (cases "seqs s i"; cases "seqs s' i") auto
qed

section \<open>The decode pass\<close>

text \<open>
  The invariant of the passes: the entries in the plan use up the part of the budget that is gone.
\<close>

definition pass_inv :: "seq_id list \<Rightarrow> (seq_id \<times> nat) list \<Rightarrow> pass \<Rightarrow> bool" where
  "pass_inv R es st \<longleftrightarrow>
     (case st of (s, plan, budget) \<Rightarrow>
        sinv R {} s \<and> plan_rep s R es plan \<and>
        sum_list (map snd es) + budget = max_batched_tokens (cfg s))"

text \<open>The \<open>u32\<close> sums of a batch cannot overflow.\<close>

definition cfg_wide :: "scheduler_config \<Rightarrow> bool" where
  "cfg_wide c \<longleftrightarrow> max_batched_tokens c * max_context c < 2 ^ 32"

lemma sum_list_le_length:
  assumes "\<And>x. x \<in> set xs \<Longrightarrow> f x \<le> (m :: nat)"
  shows "sum_list (map f xs) \<le> length xs * m"
  using assms by (induction xs) (auto simp: add_mono)

lemma length_le_sum_list:
  assumes "\<And>x. x \<in> set xs \<Longrightarrow> 0 < (f x :: nat)"
  shows "length xs \<le> sum_list (map f xs)"
  using assms by (induction xs) (auto simp: Suc_le_eq add_pos_nonneg, fastforce)

lemma entry_context:
  assumes "sinv R {} s" "entry_ok s R e"
  shows "keys_len (the (seqs s (fst e)), snd e) < max_context (cfg s)"
proof -
  from assms(2) obtain q where q: "fst e \<in> set R" "seqs s (fst e) = Some q"
      "num_computed q + snd e \<le> length (tokens q)" by (auto simp: entry_ok_def)
  with sinv_running [OF assms(1) q(1)] show ?thesis by (auto simp: running_ok_def keys_len_def)
qed

lemma entries_sums:
  assumes inv: "sinv R {} s" and w: "cfg_wide (cfg s)" and ok: "\<And>e. e \<in> set es \<Longrightarrow> entry_ok s R e"
    and sum: "sum_list (map snd es) \<le> max_batched_tokens (cfg s)"
  shows "sum_list (map snd (rows_of s es)) < 2 ^ 32" "sum_list (map keys_len (rows_of s es)) < 2 ^ 32"
proof -
  let ?M = "max_context (cfg s)"
  have "length es \<le> sum_list (map snd es)"
    by (rule length_le_sum_list) (use ok in \<open>auto simp: entry_ok_def\<close>)
  then have len: "length es \<le> max_batched_tokens (cfg s)" using sum by simp
  have "sum_list (map keys_len (rows_of s es)) \<le> length (rows_of s es) * ?M"
  proof (rule sum_list_le_length)
    fix x assume "x \<in> set (rows_of s es)"
    then obtain e where "e \<in> set es" "x = (the (seqs s (fst e)), snd e)"
      unfolding rows_of_def by (metis (no_types, lifting) imageE set_map)
    with entry_context [OF inv ok] show "keys_len x \<le> ?M" by (metis less_imp_le)
  qed
  also have "\<dots> \<le> max_batched_tokens (cfg s) * ?M" using len by (intro mult_le_mono1) (simp add: rows_of_def)
  finally show k: "sum_list (map keys_len (rows_of s es)) < 2 ^ 32" using w by (simp add: cfg_wide_def)
  have "sum_list (map snd (rows_of s es)) \<le> sum_list (map keys_len (rows_of s es))"
    by (intro sum_list_mono) (simp add: keys_len_def)
  with k show "sum_list (map snd (rows_of s es)) < 2 ^ 32" by linarith
qed

lemma plan_sums:
  assumes "pass_inv R es (s, plan, budget)" "cfg_wide (cfg s)"
  shows "sum_list (map snd (rows_of s es)) < 2 ^ 32" "sum_list (map keys_len (rows_of s es)) < 2 ^ 32"
  using entries_sums [of R s es] assms by (auto simp: pass_inv_def plan_rep_def)

lemma plan_small:
  assumes p: "pass_inv R es (s, plan, budget)" and w: "cfg_wide (cfg s)"
    and e: "entry_ok s R (i, n)" "seqs s i = Some q" "n \<le> budget"
  shows "sum_list (map snd (rows_of s es)) + n < 2 ^ 32"
    "sum_list (map keys_len (rows_of s es)) + (num_computed q + n) < 2 ^ 32"
proof -
  have "entry_ok s R x" if "x \<in> set (es @ [(i, n)])" for x
    using that p e(1) by (auto simp: pass_inv_def plan_rep_def)
  then have "sum_list (map snd (rows_of s (es @ [(i, n)]))) < 2 ^ 32 \<and>
      sum_list (map keys_len (rows_of s (es @ [(i, n)]))) < 2 ^ 32"
    using entries_sums [of R s "es @ [(i, n)]"] p w e(3) by (auto simp: pass_inv_def)
  then show "sum_list (map snd (rows_of s es)) + n < 2 ^ 32"
      "sum_list (map keys_len (rows_of s es)) + (num_computed q + n) < 2 ^ 32"
    using e(2) by (simp_all add: rows_of_def keys_len_def)
qed

lemma pass_push:
  assumes p: "pass_inv R es (s, plan, budget)" and w: "cfg_wide (cfg s)"
    and e: "entry_ok s R (i, n)" "i \<notin> fst ` set es" "n \<le> budget"
  shows "\<exists>plan'. push_seq_into_batch i n s plan = Some plan' \<and>
      pass_inv R (es @ [(i, n)]) (s, plan', budget - n) \<and>
      preempted plan' = preempted plan \<and> started plan' = started plan"
proof -
  from e(1) obtain q where q: "seqs s i = Some q" by (auto simp: entry_ok_def)
  have inv: "sinv R {} s" "plan_rep s R es plan" using p by (auto simp: pass_inv_def)
  from push_seq_rep [OF inv(2) sinv_block_size(2) [OF inv(1)] e(1,2) q plan_small [OF p w e(1) q e(3)]]
  show ?thesis using p e(3) by (auto simp: pass_inv_def)
qed

lemma pass_extend:
  assumes p: "pass_inv R es (s, plan, budget)" and i: "i \<in> set R" "i \<notin> fst ` set es"
    and q: "seqs s i = Some q"
  shows "\<exists>fits s' new. try_extend i n s = Some (fits, s') \<and> pass_inv R es (s', plan, budget) \<and>
      seqs s' = (seqs s)(i \<mapsto> q\<lparr>blocks := blocks q @ new\<rparr>) \<and> running s' = running s \<and>
      waiting s' = waiting s \<and> sched_frame s s' \<and>
      (fits \<longrightarrow> num_computed q + n \<le> length (blocks q @ new) * cfg_block_size (cfg s)) \<and>
      (num_computed q + n \<le> length (blocks q) * cfg_block_size (cfg s) \<longrightarrow> fits)"
proof -
  have inv: "sinv R {} s" "plan_rep s R es plan" using p by (auto simp: pass_inv_def)
  from try_extend_ok [OF inv(1) i(1) q] obtain fits new p' where
      t: "try_extend i n s = Some (fits, s\<lparr>seqs := (seqs s)(i \<mapsto> q\<lparr>blocks := blocks q @ new\<rparr>), pool := p'\<rparr>)"
        "sinv R {} (s\<lparr>seqs := (seqs s)(i \<mapsto> q\<lparr>blocks := blocks q @ new\<rparr>), pool := p'\<rparr>)"
        "same_geometry (pool s) p'"
        "fits \<longrightarrow> num_computed q + n \<le> length (blocks q @ new) * cfg_block_size (cfg s)"
        "num_computed q + n \<le> length (blocks q) * cfg_block_size (cfg s) \<longrightarrow> fits" by blast
  let ?s = "s\<lparr>seqs := (seqs s)(i \<mapsto> q\<lparr>blocks := blocks q @ new\<rparr>), pool := p'\<rparr>"
  have "plan_rep ?s R es plan"
    using inv(2) i(2) by (intro plan_rep_frame [OF inv(2)]) (force simp: plan_rep_def entry_ok_def)+
  then have "pass_inv R es (?s, plan, budget)" using p t(2) by (simp add: pass_inv_def)
  moreover have "sched_frame s ?s"
    by (rule sched_frame_update [OF q]) (use t in \<open>auto simp: seq_frame_def\<close>)
  ultimately show ?thesis using t by (intro exI [of _ fits] exI [of _ ?s] exI [of _ new]) simp
qed

lemma pass_preempt:
  assumes p: "pass_inv R es (s, plan, budget)" and i: "i \<in> set R" "i \<notin> fst ` set es"
    and q: "seqs s i = Some q"
  shows "\<exists>s'. preempt i s = Some s' \<and>
      pass_inv (filter (\<lambda>r. r \<noteq> i) R) es (s', plan\<lparr>preempted := preempted plan @ [i]\<rparr>, budget) \<and>
      (\<forall>j. j \<noteq> i \<longrightarrow> seqs s' j = seqs s j) \<and> running s' = filter (\<lambda>r. r \<noteq> i) (running s) \<and>
      waiting s' = i # waiting s \<and> sched_frame s s'"
proof -
  have inv: "sinv R {} s" "plan_rep s R es plan" using p by (auto simp: pass_inv_def)
  let ?q = "reset_for_recompute (q\<lparr>blocks := []\<rparr>)"
  from preempt_ok [OF inv(1) i(1) q] obtain p' where
      t: "preempt i s = Some (s\<lparr>pool := p', seqs := (seqs s)(i \<mapsto> ?q),
        running := filter (\<lambda>r. r \<noteq> i) (running s), waiting := i # waiting s\<rparr>)"
      "sinv (filter (\<lambda>r. r \<noteq> i) R) {} (s\<lparr>pool := p', seqs := (seqs s)(i \<mapsto> ?q),
        running := filter (\<lambda>r. r \<noteq> i) (running s), waiting := i # waiting s\<rparr>)"
      "same_geometry (pool s) p'" by blast
  let ?s = "s\<lparr>pool := p', seqs := (seqs s)(i \<mapsto> ?q),
      running := filter (\<lambda>r. r \<noteq> i) (running s), waiting := i # waiting s\<rparr>"
  have "plan_rep ?s (filter (\<lambda>r. r \<noteq> i) R) es plan"
    using inv(2) i(2) by (intro plan_rep_frame [OF inv(2)]) (force simp: plan_rep_def entry_ok_def)+
  then have "pass_inv (filter (\<lambda>r. r \<noteq> i) R) es (?s, plan\<lparr>preempted := preempted plan @ [i]\<rparr>, budget)"
    using p t(2) by (simp add: pass_inv_def)
  moreover have "sched_frame s ?s"
    by (rule sched_frame_update [OF q]) (use t in \<open>auto simp: seq_frame_def reset_for_recompute_def\<close>)
  ultimately show ?thesis using t by (intro exI [of _ ?s]) simp
qed

text \<open>
  The loop over the running queue.  The queue is \<open>survivors\<close> followed by the ids still to visit;
  the entries belong to survivors that are not prefilling.
\<close>

definition decode_inv :: "scheduler \<Rightarrow> seq_id list \<Rightarrow> pass \<times> seq_id list \<Rightarrow> bool" where
  "decode_inv s0 todo x \<longleftrightarrow>
     (case x of ((s, plan, budget), survivors) \<Rightarrow>
        running s = [] \<and> sched_frame s0 s \<and> length survivors + length todo \<le> length (running s0) \<and>
        started plan = [] \<and> waiting s = rev (preempted plan) @ waiting s0 \<and>
        (\<exists>es. pass_inv (survivors @ todo) es (s, plan, budget) \<and>
           (\<forall>e \<in> set es. snd e = 1 \<and> fst e \<in> set survivors \<and> \<not> needs_prefill (the (seqs s (fst e))))))"

lemma decode_invI:
  assumes "running s = []" "sched_frame s0 s" "length sv + length todo \<le> length (running s0)"
    "started plan = []" "waiting s = rev (preempted plan) @ waiting s0"
    "pass_inv (sv @ todo) es (s, plan, budget)"
    "\<And>j n. (j, n) \<in> set es \<Longrightarrow> n = 1 \<and> j \<in> set sv \<and> \<not> needs_prefill (the (seqs s j))"
  shows "decode_inv s0 todo ((s, plan, budget), sv)"
  using assms unfolding decode_inv_def by fastforce

lemma decode_one_ok:
  assumes d: "decode_inv s0 (i # todo) ((s, plan, budget), sv)" and w: "cfg_wide (cfg s0)"
  shows "\<exists>x'. decode_one i ((s, plan, budget), sv) = Some x' \<and> decode_inv s0 todo x'"
proof -
  from d obtain es where run: "running s = []" and fr: "sched_frame s0 s"
    and len: "length sv + length (i # todo) \<le> length (running s0)" and st: "started plan = []"
    and wt: "waiting s = rev (preempted plan) @ waiting s0"
    and pi: "pass_inv (sv @ i # todo) es (s, plan, budget)"
    and es: "\<And>j n. (j, n) \<in> set es \<Longrightarrow> n = 1 \<and> j \<in> set sv \<and> \<not> needs_prefill (the (seqs s j))"
    unfolding decode_inv_def by fastforce
  have inv: "sinv (sv @ i # todo) {} s" using pi by (simp add: pass_inv_def)
  have cfg: "cfg s = cfg s0" using fr by (simp add: sched_frame_def)
  have i: "i \<in> set (sv @ i # todo)" by simp
  have di: "i \<notin> set sv" "i \<notin> set todo" using inv by (auto simp: sinv_def)
  then have ies: "i \<notin> fst ` set es" using es by auto
  from sinv_running [OF inv i] obtain q where q: "seqs s i = Some q" "running_ok False (cfg s) (pool s) q"
    by auto
  have nf: "\<not> is_finished (status q)" using q(2) by (auto simp: running_ok_def)
  show ?thesis
  proof (cases "needs_prefill q \<or> budget = 0")
    case True
    have "decode_one i ((s, plan, budget), sv) = Some ((s, plan, budget), sv @ [i])"
      using q nf True by (auto simp: decode_one_def)
    moreover have "decode_inv s0 todo ((s, plan, budget), sv @ [i])"
      by (rule decode_invI [OF run fr _ st wt]) (use len pi es in auto)
    ultimately show ?thesis by blast
  next
    case False
    then have dec: "num_computed q + 1 = length (tokens q)" and b: "0 < budget"
      using q(2) by (auto simp: running_ok_def needs_prefill_iff)
    from pass_extend [OF pi i ies q(1), of 1] obtain fits s1 new where
        e: "try_extend i 1 s = Some (fits, s1)" "pass_inv (sv @ i # todo) es (s1, plan, budget)"
          "seqs s1 = (seqs s)(i \<mapsto> q\<lparr>blocks := blocks q @ new\<rparr>)" "running s1 = running s"
          "sched_frame s s1"
          "fits \<longrightarrow> num_computed q + 1 \<le> length (blocks q @ new) * cfg_block_size (cfg s)"
          "waiting s1 = waiting s" by auto
    have fr1: "sched_frame s0 s1" using fr e(5) by (rule sched_frame_trans)
    have cfg1: "cfg s1 = cfg s" using e(5) by (simp add: sched_frame_def)
    have same: "seqs s1 j = seqs s j" if "(j, n) \<in> set es" for j n
      using that es di e(3) by auto
    show ?thesis
    proof (cases fits)
      case True
      have ent: "entry_ok s1 (sv @ i # todo) (i, 1)"
        using e(3,6) True dec cfg1 by (auto simp: entry_ok_def)
      from pass_push [OF e(2) _ ent ies] w cfg cfg1 b obtain plan' where
          p: "push_seq_into_batch i 1 s1 plan = Some plan'"
            "pass_inv (sv @ i # todo) (es @ [(i, 1)]) (s1, plan', budget - 1)"
            "started plan' = started plan" "preempted plan' = preempted plan" by auto
      have "decode_inv s0 todo ((s1, plan', budget - 1), sv @ [i])"
      proof (rule decode_invI)
        show "pass_inv ((sv @ [i]) @ todo) (es @ [(i, 1)]) (s1, plan', budget - 1)" using p(2) by simp
        show "n = 1 \<and> j \<in> set (sv @ [i]) \<and> \<not> needs_prefill (the (seqs s1 j))"
          if "(j, n) \<in> set (es @ [(i, 1)])" for j n
          using that es same e(3) False by (auto simp: needs_prefill_iff)
      qed (use run fr1 len st wt e p in auto)
      moreover have "decode_one i ((s, plan, budget), sv) = Some ((s1, plan', budget - 1), sv @ [i])"
        using q nf False e(1) p(1) True by (simp add: decode_one_def)
      ultimately show ?thesis by blast
    next
      case nofit: False
      let ?plan = "plan\<lparr>preempted := preempted plan @ [i]\<rparr>"
      from pass_preempt [OF e(2) i ies] e(3) obtain s2 where
          p: "preempt i s1 = Some s2" "pass_inv (filter (\<lambda>r. r \<noteq> i) (sv @ i # todo)) es (s2, ?plan, budget)"
            "\<forall>j. j \<noteq> i \<longrightarrow> seqs s2 j = seqs s1 j" "running s2 = filter (\<lambda>r. r \<noteq> i) (running s1)"
            "sched_frame s1 s2" "waiting s2 = i # waiting s1" by auto
      have "filter (\<lambda>r. r \<noteq> i) (sv @ i # todo) = sv @ todo" using di by simp
      with p(2) have pi2: "pass_inv (sv @ todo) es (s2, ?plan, budget)" by simp
      have "decode_inv s0 todo ((s2, ?plan, budget), sv)"
      proof (rule decode_invI)
        show "sched_frame s0 s2" using fr1 p(5) by (rule sched_frame_trans)
        show "n = 1 \<and> j \<in> set sv \<and> \<not> needs_prefill (the (seqs s2 j))" if "(j, n) \<in> set es" for j n
          using that es [OF that] same [OF that] p(3) di by auto
      qed (use run len st wt e p pi2 in auto)
      moreover have "decode_one i ((s, plan, budget), sv) = Some ((s2, ?plan, budget), sv)"
        using q nf False e(1) p(1) nofit by (simp add: decode_one_def)
      ultimately show ?thesis by blast
    qed
  qed
qed

lemma schedule_decodes_ok:
  assumes inv: "sched_inv s" and w: "cfg_wide (cfg s)"
  shows "\<exists>s' plan budget es. schedule_decodes (s, empty_plan, max_batched_tokens (cfg s)) = Some (s', plan, budget) \<and>
      pass_inv (running s') es (s', plan, budget) \<and> sched_frame s s' \<and>
      length (running s') \<le> length (running s) \<and> started plan = [] \<and>
      waiting s' = rev (preempted plan) @ waiting s \<and>
      (\<forall>e \<in> set es. snd e = 1 \<and> \<not> needs_prefill (the (seqs s' (fst e))))"
proof -
  let ?x = "((s\<lparr>running := []\<rparr>, empty_plan, max_batched_tokens (cfg s)), [])"
  have "pass_inv (running s) [] (s\<lparr>running := []\<rparr>, empty_plan, max_batched_tokens (cfg s))"
    using inv by (simp add: pass_inv_def sched_inv_def plan_rep_empty)
  then have "decode_inv s (running s) ?x"
    by (intro decode_invI [where es = "[]"])
       (auto simp: sched_frame_def option.rel_refl empty_plan_def)
  then have "\<exists>x. for_each decode_one (running s) ?x = Some x \<and> decode_inv s [] x"
  proof (rule for_each_total)
    show "\<exists>y'. decode_one j y = Some y' \<and> decode_inv s js y'" if "decode_inv s (j # js) y" for j js y
      using decode_one_ok [of s j js] that w by (cases y) auto
  qed
  then obtain s1 plan budget sv es where l: "for_each decode_one (running s) ?x = Some ((s1, plan, budget), sv)"
      "sched_frame s s1" "length sv \<le> length (running s)" "started plan = []"
      "pass_inv sv es (s1, plan, budget)"
      and wt: "waiting s1 = rev (preempted plan) @ waiting s" and l6:
      "\<forall>e \<in> set es. snd e = 1 \<and> \<not> needs_prefill (the (seqs s1 (fst e)))"
    by (auto simp: decode_inv_def)
  have "plan_rep (s1\<lparr>running := sv\<rparr>) sv es plan"
  proof (rule plan_rep_frame)
    show rep: "plan_rep s1 sv es plan" using l(5) by (simp add: pass_inv_def)
    show "seqs (s1\<lparr>running := sv\<rparr>) i = seqs s1 i \<and> i \<in> set sv" if "(i, n) \<in> set es" for i n
      using plan_rep_mem [OF rep that] by simp
  qed simp
  then have "pass_inv sv es (s1\<lparr>running := sv\<rparr>, plan, budget)"
    using l(5) by (simp add: pass_inv_def)
  moreover have "sched_frame s (s1\<lparr>running := sv\<rparr>)" using l(2) by (simp add: sched_frame_def)
  moreover have "schedule_decodes (s, empty_plan, max_batched_tokens (cfg s)) = Some (s1\<lparr>running := sv\<rparr>, plan, budget)"
    using l(1) by (simp add: schedule_decodes_def)
  ultimately show ?thesis using l(3,4) l6 wt
    by (intro exI [of _ "s1\<lparr>running := sv\<rparr>"] exI [of _ plan] exI [of _ budget] exI [of _ es]) simp
qed

end
