(* ===== verification/Scheduler_Prefill.thy ===== *)
theory Scheduler_Prefill
  imports Scheduler_Plan
begin

text \<open>
  The prefill pass of \<open>vapi-engine/src/scheduler.rs\<close>: chunks of the prompts being prefilled,
  adoption of cached prefixes, and the admission loop over the waiting queue, which ends because a
  sequence that starts always has room for its first chunk.
\<close>

section \<open>One chunk\<close>

lemma prefill_chunk_ok:
  assumes p: "pass_inv (running s) es (s, plan, budget)" and w: "cfg_wide (cfg s)"
    and i: "i \<in> set (running s)" "i \<notin> fst ` set es" and q: "seqs s i = Some q" "needs_prefill q"
  shows "\<exists>s' plan' budget' es'. prefill_chunk i (s, plan, budget) = Some (s', plan', budget') \<and>
      pass_inv (running s') es' (s', plan', budget') \<and> sched_frame s s' \<and> started plan' = started plan \<and>
      (\<forall>j. j \<noteq> i \<longrightarrow> seqs s' j = seqs s j) \<and> set es \<subseteq> set es' \<and> fst ` set es' \<subseteq> insert i (fst ` set es) \<and>
      (running s' = running s \<and> waiting s' = waiting s \<and> preempted plan' = preempted plan \<or>
       running s' = filter (\<lambda>r. r \<noteq> i) (running s) \<and> waiting s' = i # waiting s \<and>
       preempted plan' = preempted plan @ [i] \<and>
       \<not> length (tokens q) \<le> length (blocks q) * cfg_block_size (cfg s)) \<and>
      (length (tokens q) \<le> length (blocks q) * cfg_block_size (cfg s) \<and> 0 < budget \<and>
       0 < prefill_chunk_tokens (cfg s) \<longrightarrow> es' \<noteq> [])"
proof -
  define n where "n = min (min (remaining_prefill q) (prefill_chunk_tokens (cfg s))) budget"
  have inv: "sinv (running s) {} s" using p by (simp add: pass_inv_def)
  from sinv_running [OF inv i(1)] q have "prefill_target q = length (tokens q)"
    by (auto simp: running_ok_def needs_prefill_iff)
  then have n: "num_computed q + n \<le> length (tokens q)" "n \<le> budget"
    using q(2) by (auto simp: n_def remaining_prefill_def needs_prefill_iff)
  have zero: "n = 0 \<longleftrightarrow> budget = 0 \<or> prefill_chunk_tokens (cfg s) = 0"
    using q(2) by (auto simp: n_def needs_prefill_def)
  have unf: "prefill_chunk i (s, plan, budget) =
      (if n = 0 then Some (s, plan, budget) else do {
         (fits, s) \<leftarrow> try_extend i n s;
         if \<not> fits then do {
           s \<leftarrow> preempt i s;
           Some (s, plan\<lparr>preempted := preempted plan @ [i]\<rparr>, budget) }
         else do {
           plan \<leftarrow> push_seq_into_batch i n s plan;
           Some (s, plan, budget - n) } })"
    using q(1) by (simp add: prefill_chunk_def n_def [symmetric])
  show ?thesis
  proof (cases "n = 0")
    case True
    then show ?thesis using unf p zero by (intro exI [of _ s] exI [of _ plan] exI [of _ budget] exI [of _ es]) auto
  next
    case False
    from pass_extend [OF p i q(1), of n] obtain fits s1 new where
        e: "try_extend i n s = Some (fits, s1)" "pass_inv (running s) es (s1, plan, budget)"
          "seqs s1 = (seqs s)(i \<mapsto> q\<lparr>blocks := blocks q @ new\<rparr>)" "running s1 = running s"
          "waiting s1 = waiting s" "sched_frame s s1"
          "fits \<longrightarrow> num_computed q + n \<le> length (blocks q @ new) * cfg_block_size (cfg s)"
          "num_computed q + n \<le> length (blocks q) * cfg_block_size (cfg s) \<longrightarrow> fits" by blast
    have cfg1: "cfg s1 = cfg s" using e(6) by (simp add: sched_frame_def)
    show ?thesis
    proof (cases fits)
      case True
      have ent: "entry_ok s1 (running s) (i, n)"
        using e(3,7) True n False cfg1 i(1) by (auto simp: entry_ok_def)
      from pass_push [OF e(2) _ ent i(2) n(2)] w cfg1 obtain plan' where
          pu: "push_seq_into_batch i n s1 plan = Some plan'"
            "pass_inv (running s) (es @ [(i, n)]) (s1, plan', budget - n)" "started plan' = started plan"
            "preempted plan' = preempted plan" by auto
      then show ?thesis
        using unf False True e
        by (intro exI [of _ s1] exI [of _ plan'] exI [of _ "budget - n"] exI [of _ "es @ [(i, n)]"]) auto
    next
      case nofit: False
      let ?plan = "plan\<lparr>preempted := preempted plan @ [i]\<rparr>"
      from pass_preempt [OF e(2) i] e(3) obtain s2 where
          pr: "preempt i s1 = Some s2" "pass_inv (filter (\<lambda>r. r \<noteq> i) (running s)) es (s2, ?plan, budget)"
            "\<forall>j. j \<noteq> i \<longrightarrow> seqs s2 j = seqs s1 j" "running s2 = filter (\<lambda>r. r \<noteq> i) (running s1)"
            "waiting s2 = i # waiting s1" "sched_frame s1 s2" by auto
      have "\<not> length (tokens q) \<le> length (blocks q) * cfg_block_size (cfg s)"
        using e(8) nofit n(1) by linarith
      moreover have "sched_frame s s2" using e(6) pr(6) by (rule sched_frame_trans)
      ultimately show ?thesis
        using unf False nofit e pr
        by (intro exI [of _ s2] exI [of _ ?plan] exI [of _ budget] exI [of _ es]) auto
    qed
  qed
qed

section \<open>The running prompts\<close>

definition chunks_inv :: "scheduler \<Rightarrow> seq_id list \<Rightarrow> seq_id list \<Rightarrow> pass \<Rightarrow> bool" where
  "chunks_inv s0 w0 todo st \<longleftrightarrow>
     (case st of (s, plan, budget) \<Rightarrow>
        sched_frame s0 s \<and> distinct todo \<and> set todo \<subseteq> set (running s) \<and>
        length (running s) \<le> length (running s0) \<and> started plan = [] \<and>
        waiting s = rev (preempted plan) @ w0 \<and>
        (\<exists>es. pass_inv (running s) es st \<and>
           (\<forall>j \<in> set todo. j \<in> fst ` set es \<longrightarrow> \<not> needs_prefill (the (seqs s j)))))"

lemma chunks_invI:
  assumes "sched_frame s0 s" "distinct todo" "set todo \<subseteq> set (running s)"
    "length (running s) \<le> length (running s0)" "started plan = []" "waiting s = rev (preempted plan) @ w0"
    "pass_inv (running s) es (s, plan, budget)"
    "\<And>j. j \<in> set todo \<Longrightarrow> j \<in> fst ` set es \<Longrightarrow> \<not> needs_prefill (the (seqs s j))"
  shows "chunks_inv s0 w0 todo (s, plan, budget)"
  using assms unfolding chunks_inv_def by blast

lemma prefill_running_one_ok:
  assumes c: "chunks_inv s0 w0 (i # todo) (s, plan, budget)" and w: "cfg_wide (cfg s0)"
  shows "\<exists>st'. prefill_running_one i (s, plan, budget) = Some st' \<and> chunks_inv s0 w0 todo st'"
proof -
  from c obtain es where fr: "sched_frame s0 s" and d: "distinct (i # todo)"
    and sub: "set (i # todo) \<subseteq> set (running s)" and len: "length (running s) \<le> length (running s0)"
    and st: "started plan = []" and wt: "waiting s = rev (preempted plan) @ w0"
    and pi: "pass_inv (running s) es (s, plan, budget)"
    and es: "\<forall>j \<in> set (i # todo). j \<in> fst ` set es \<longrightarrow> \<not> needs_prefill (the (seqs s j))"
    by (auto simp: chunks_inv_def)
  have inv: "sinv (running s) {} s" using pi by (simp add: pass_inv_def)
  have i: "i \<in> set (running s)" using sub by simp
  from sinv_running [OF inv i] obtain q where q: "seqs s i = Some q" "running_ok False (cfg s) (pool s) q"
    by auto
  have nf: "\<not> is_finished (status q)" using q(2) by (auto simp: running_ok_def)
  show ?thesis
  proof (cases "budget = 0 \<or> \<not> needs_prefill q")
    case True
    have "prefill_running_one i (s, plan, budget) = Some (s, plan, budget)"
      using q(1) True by (auto simp: prefill_running_one_def)
    moreover have "chunks_inv s0 w0 todo (s, plan, budget)"
      by (rule chunks_invI [OF fr _ _ len st wt pi]) (use d sub es in auto)
    ultimately show ?thesis by blast
  next
    case False
    then have ies: "i \<notin> fst ` set es" using es q(1) by auto
    have cw: "cfg_wide (cfg s)" using w fr by (simp add: sched_frame_def)
    from prefill_chunk_ok [OF pi cw i ies q(1)] False obtain s' plan' budget' es' where
        r: "prefill_chunk i (s, plan, budget) = Some (s', plan', budget')"
          "pass_inv (running s') es' (s', plan', budget')" "sched_frame s s'" "started plan' = started plan"
          "\<forall>j. j \<noteq> i \<longrightarrow> seqs s' j = seqs s j" "fst ` set es' \<subseteq> insert i (fst ` set es)"
          "running s' = running s \<or> running s' = filter (\<lambda>r. r \<noteq> i) (running s)"
          "waiting s' = waiting s \<and> preempted plan' = preempted plan \<or>
           waiting s' = i # waiting s \<and> preempted plan' = preempted plan @ [i]" by blast
    have "chunks_inv s0 w0 todo (s', plan', budget')"
    proof (rule chunks_invI [OF _ _ _ _ _ _ r(2)])
      show "sched_frame s0 s'" using fr r(3) by (rule sched_frame_trans)
      show "length (running s') \<le> length (running s0)"
        using r(7) len length_filter_le [of "\<lambda>r. r \<noteq> i" "running s"] by (metis le_trans)
      show "\<not> needs_prefill (the (seqs s' j))" if j: "j \<in> set todo" "j \<in> fst ` set es'" for j
      proof -
        have ji: "j \<noteq> i" using j(1) d by auto
        with j r(6) have "j \<in> fst ` set es" by auto
        with es j(1) ji r(5) show ?thesis by simp
      qed
    show "waiting s' = rev (preempted plan') @ w0" using r(8) wt by auto
    qed (use d sub r st in auto)
    moreover have "prefill_running_one i (s, plan, budget) = Some (s', plan', budget')"
      using q(1) nf False r(1) by (auto simp: prefill_running_one_def)
    ultimately show ?thesis by blast
  qed
qed

lemma prefill_running_ok:
  assumes "pass_inv (running s) es (s, plan, budget)" "cfg_wide (cfg s)" "started plan = []"
      "waiting s = rev (preempted plan) @ w0"
    and "\<And>e. e \<in> set es \<Longrightarrow> \<not> needs_prefill (the (seqs s (fst e)))"
  shows "\<exists>s' plan' budget' es'. for_each prefill_running_one (running s) (s, plan, budget) = Some (s', plan', budget') \<and>
      pass_inv (running s') es' (s', plan', budget') \<and> sched_frame s s' \<and>
      length (running s') \<le> length (running s) \<and> started plan' = [] \<and>
      waiting s' = rev (preempted plan') @ w0"
proof -
  have "distinct (running s)" using assms(1) by (simp add: pass_inv_def sinv_def)
  then have "chunks_inv s w0 (running s) (s, plan, budget)"
    by (intro chunks_invI [OF _ _ _ _ assms(3,4,1)]) (use assms(5) in auto)
  then have "\<exists>st. for_each prefill_running_one (running s) (s, plan, budget) = Some st \<and> chunks_inv s w0 [] st"
  proof (rule for_each_total)
    show "\<exists>y'. prefill_running_one j y = Some y' \<and> chunks_inv s w0 js y'" if "chunks_inv s w0 (j # js) y" for j js y
      using prefill_running_one_ok [of s w0 j js] that assms(2) by (cases y) auto
  qed
  then show ?thesis unfolding chunks_inv_def by fastforce
qed

section \<open>Adopting a cached prefix\<close>

lemma give_back_ok:
  assumes "pool_inv p" "\<And>b. count_list ms b \<le> rc p b" "0 < plen"
  shows "\<exists>k p'. give_back plen bs (rev ms) (length ms * bs) p = Some (take k ms, k * bs, p') \<and>
      k \<le> length ms \<and> k * bs < plen \<and> pool_inv p' \<and> same_geometry p p' \<and>
      (\<forall>b. rc p' b + count_list ms b = rc p b + count_list (take k ms) b) \<and> content p' = content p"
  using assms
proof (induction ms arbitrary: p rule: rev_induct)
  case Nil
  then show ?case by (intro exI [of _ 0]) auto
next
  case (snoc m ms)
  show ?case
  proof (cases "length (ms @ [m]) * bs < plen")
    case True
    then show ?thesis using snoc.prems by (intro exI [of _ "length (ms @ [m])"]) auto
  next
    case False
    have "0 < rc p m" using snoc.prems(2) [of m] by simp
    with bp.release_ok [OF snoc.prems(1)] obtain p1 where p1: "free m p = Some p1" "pool_inv p1"
        "same_geometry p p1" "rc p1 = (rc p)(m := rc p m - 1)" "content p1 = content p" by blast
    have "count_list ms b \<le> rc p1 b" for b
      using snoc.prems(2) [of b] p1(4) by auto
    from snoc.IH [OF p1(2) this snoc.prems(3)] obtain k p' where
        k: "give_back plen bs (rev ms) (length ms * bs) p1 = Some (take k ms, k * bs, p')"
          "k \<le> length ms" "k * bs < plen" "pool_inv p'" "same_geometry p1 p'"
          "\<forall>b. rc p' b + count_list ms b = rc p1 b + count_list (take k ms) b" "content p' = content p1"
      by blast
    have "rc p' b + count_list (ms @ [m]) b = rc p b + count_list (take k (ms @ [m])) b" for b
      using k(2) k(6) [rule_format, of b] p1(4) snoc.prems(2) [of b] by (auto split: if_splits)
    moreover have "same_geometry p p'" using p1(3) k(5) by (rule same_geometry_trans)
    ultimately show ?thesis
      using False p1 k by (intro exI [of _ k] exI [of _ p']) (auto simp: run_simps)
  qed
qed

lemma match_cached_ok:
  assumes inv: "pool_inv p" and toks: "plen = length toks" "0 < plen" and bs: "bs = block_size p"
  shows "\<exists>m p'. match_cached blake3 ns toks plen bs p = Some (m, length m * bs, p') \<and>
      prefix m (matched p (hash_block_chain blake3 ns toks bs)) \<and>
      length m * bs < plen \<and> pool_inv p' \<and> same_geometry p p' \<and>
      rc p' = (\<lambda>b. rc p b + count_list m b) \<and> content p' = content p"
proof -
  let ?hs = "hash_block_chain blake3 ns toks bs"
  let ?ms = "matched p ?hs"
  obtain xs where "pool_ok p xs" using inv by (auto simp: pool_inv_def)
  from match_prefix_ok [OF this, of ?hs] obtain q where q: "match_prefix ?hs p
        = Some (\<lparr>pm_blocks = ?ms, pm_tokens = length ?ms * block_size p\<rparr>, q)"
      "pool_inv q" "rc q = (\<lambda>j. rc p j + count_list ?ms j)" "content q = content p"
      "same_geometry p q" unfolding pool_inv_def by blast
  have "count_list ?ms b \<le> rc q b" for b using q(3) by simp
  from give_back_ok [OF q(2) this toks(2), of bs] obtain k p' where
      k: "give_back plen bs (rev ?ms) (length ?ms * bs) q = Some (take k ?ms, k * bs, p')"
        "k \<le> length ?ms" "k * bs < plen" "pool_inv p'" "same_geometry q p'"
        "\<forall>b. rc p' b + count_list ?ms b = rc q b + count_list (take k ?ms) b" "content p' = content q"
    by blast
  have "match_cached blake3 ns toks plen bs p = Some (take k ?ms, length (take k ?ms) * bs, p')"
    using toks(1) q(1) k(1,2) bs by (simp add: match_cached_def run_simps)
  moreover have "rc p' = (\<lambda>b. rc p b + count_list (take k ?ms) b)"
    using k(6) q(3) by (auto simp: fun_eq_iff)
  moreover have "same_geometry p p'" using q(5) k(5) by (rule same_geometry_trans)
  ultimately show ?thesis
    using k q(4) by (intro exI [of _ "take k ?ms"] exI [of _ p']) (auto simp: take_is_prefix)
qed

lemma matched_content:
  assumes "pool_inv p" "b \<in> set (matched p hs)"
  shows "content p b \<noteq> None"
proof -
  obtain xs where ok: "pool_ok p xs" using assms(1) by (auto simp: pool_inv_def)
  from assms(2) obtain h where "h \<in> set (takeWhile (\<lambda>h. by_hash p h \<noteq> None) hs)" "b = the (by_hash p h)"
    by (auto simp: matched_def)
  then have "by_hash p h \<noteq> None" "b = the (by_hash p h)" by (auto dest: set_takeWhileD)
  then show ?thesis by (metis not_None_eq option.distinct(1) option.sel pool_ok_by_hash [OF ok])
qed

text \<open>The blocks a sequence starts from, with or without the prefix cache.\<close>

lemma cached_step_ok:
  assumes inv: "pool_inv p0" and toks: "0 < length toks" and bs: "bs = block_size p0"
  obtains m p where "(if cache then match_cached blake3 ns toks (length toks) bs p0 else Some ([], 0, p0))
        = Some (m, length m * bs, p)"
      "\<And>b. b \<in> set m \<Longrightarrow> content p0 b \<noteq> None" "length m * bs < length toks" "pool_inv p"
      "same_geometry p0 p" "rc p = (\<lambda>b. rc p0 b + count_list m b)" "content p = content p0"
proof (cases cache)
  case True
  from match_cached_ok [OF inv refl toks bs, of blake3 ns] obtain m p where
      m: "match_cached blake3 ns toks (length toks) bs p0 = Some (m, length m * bs, p)"
        "prefix m (matched p0 (hash_block_chain blake3 ns toks bs))" "length m * bs < length toks"
        "pool_inv p" "same_geometry p0 p" "rc p = (\<lambda>b. rc p0 b + count_list m b)" "content p = content p0"
    by blast
  have "content p0 b \<noteq> None" if "b \<in> set m" for b
    using that set_mono_prefix [OF m(2)] matched_content [OF inv] by blast
  with m True that show thesis by simp
next
  case False
  with that [of "[]" p0] toks inv show thesis by simp
qed

text \<open>Referencing blocks takes at most that many out of the free list.\<close>

lemma num_free_after_match:
  assumes "pool_inv p" "pool_inv p'" "same_geometry p p'" "rc p' = (\<lambda>b. rc p b + count_list m b)"
  shows "num_free p \<le> num_free p' + length m"
proof -
  have "unreferenced p \<subseteq> unreferenced p' \<union> set m"
    using assms(3,4) by (auto simp: unreferenced_iff same_geometry_def count_list_0_iff)
  moreover have fin: "finite (unreferenced p')" by (simp add: unreferenced_def)
  ultimately have "card (unreferenced p) \<le> card (unreferenced p' \<union> set m)" by (intro card_mono) auto
  also have "\<dots> \<le> card (unreferenced p') + length m"
    using card_Un_le [of "unreferenced p'" "set m"] card_length [of m] by linarith
  finally show ?thesis using assms(1,2) by (simp add: pool_inv_num_free)
qed

text \<open>The sequence that adopts \<open>m\<close> cached blocks and owns the blocks \<open>new\<close>.\<close>

definition adopted :: "block_id list \<Rightarrow> block_id list \<Rightarrow> nat \<Rightarrow> sequence \<Rightarrow> sequence" where
  "adopted m new bs q =
     q\<lparr>num_cached_blocks := length m, cached_prefix_tokens := length m * bs,
       num_computed := length m * bs, blocks := m @ new, status := Prefilling\<rparr>"

lemma adopted_exclusive:
  assumes "0 < bs" "distinct new" "\<And>b. b \<in> set new \<Longrightarrow> rc p b = 1 \<and> content p b = None"
  shows "exclusive p bs (adopted m new bs q)"
  unfolding exclusive_def
proof (intro allI impI)
  let ?q = "adopted m new bs q"
  fix j assume j: "num_computed ?q div bs \<le> j \<and> j < length (blocks ?q)"
  then have "j - length m < length new" "\<not> j < length m"
    using assms(1) by (auto simp: adopted_def)
  then have "blocks ?q ! j \<in> set new" by (simp add: adopted_def nth_append)
  then show "rc p (blocks ?q ! j) = 1 \<and> content p (blocks ?q ! j) = None" using assms(3) by blast
qed

lemma adopt_sinv:
  assumes inv: "sinv R {} s" and i: "waiting s = i # rest" and q: "seqs s i = Some q"
    and m: "\<And>b. b \<in> set m \<Longrightarrow> content (pool s) b \<noteq> None" "length m * cfg_block_size (cfg s) < length (tokens q)"
    and new: "distinct new" "\<And>b. b \<in> set new \<Longrightarrow> rc (pool s) b + count_list m b = 0"
    and cover: "length (tokens q) \<le> (length m + length new) * cfg_block_size (cfg s)"
    and p: "pool_inv p" "same_geometry (pool s) p"
      "rc p = (\<lambda>b. rc (pool s) b + count_list m b + count_list new b)"
      "content p = (\<lambda>b. if b \<in> set new then None else content (pool s) b)"
  shows "sinv (R @ [i]) {} (s\<lparr>waiting := rest, tenants := t, pool := p,
      seqs := (seqs s)(i \<mapsto> adopted m new (cfg_block_size (cfg s)) q)\<rparr>)"
    (is "sinv _ _ ?s")
proof (rule sinv_update [OF inv q, where q' = "adopted m new (cfg_block_size (cfg s)) q"])
  let ?q = "adopted m new (cfg_block_size (cfg s)) q"
  have wq: "waiting_ok (cfg s) q" "tokens_ok q"
    using sinv_role [OF inv q] i by (auto simp: role_ok_def)
  have bs: "0 < cfg_block_size (cfg s)" by (rule sinv_block_size [OF inv])
  have d: "distinct (waiting s @ R @ finished s)" using inv by (simp add: sinv_def)
  then show "distinct (waiting ?s @ (R @ [i]) @ finished ?s)" using i by auto
  have "exclusive p (cfg_block_size (cfg s)) ?q"
    using bs new(1)
  proof (rule adopted_exclusive)
    show "rc p b = 1 \<and> content p b = None" if "b \<in> set new" for b
      using that new(2) [OF that] new(1) p(3,4) by (simp add: count_list_distinct)
  qed
  moreover have "i \<notin> set rest" "i \<notin> set (finished s)" using d i by auto
  ultimately show "role_ok (cfg s) (pool ?s) (set (waiting ?s)) (set (R @ [i])) (set (finished ?s)) {} i ?q"
    using wq cover m(2) bs
    by (auto simp: role_ok_def running_ok_def tokens_ok_def waiting_ok_def adopted_def)
  show "rc (pool ?s) b + count_list (blocks q) b = rc (pool s) b + count_list (blocks ?q) b" for b
    using p(3) wq(1) by (simp add: waiting_ok_def adopted_def)
  show "c \<notin> set (blocks ?q) \<and> content (pool ?s) c = None"
    if c: "rc (pool s) c = 1" "content (pool s) c = None" for c
  proof -
    have "c \<notin> set m" using c(2) m(1) by blast
    moreover have "c \<notin> set new" using c(1) new(2) by force
    ultimately show ?thesis using c(2) p(4) by (simp add: adopted_def)
  qed
qed (use i p in auto)

text \<open>Giving the matched blocks back leaves the scheduler as it was.\<close>

lemma unmatch_sinv:
  assumes inv: "sinv R {} s" and i: "waiting s = i # rest"
    and p: "pool_inv p" "same_geometry (pool s) p" "rc p = (\<lambda>b. rc (pool s) b + count_list m b)"
      "content p = content (pool s)"
  shows "\<exists>p'. free_all m p = Some p' \<and> sinv R {} (s\<lparr>tenants := t, pool := p', waiting := i # rest\<rparr>) \<and>
      same_geometry (pool s) p'"
proof -
  have "\<And>b. count_list m b \<le> rc p b" using p(3) by simp
  from bp.release_all [OF p(1) this] obtain p' where p': "for_each free m p = Some p'" "pool_inv p'"
      "same_geometry p p'" "rc p' = (\<lambda>b. rc p b - count_list m b)" "content p' = content p" by blast
  have g: "same_geometry (pool s) p'" using p(2) p'(3) by (rule same_geometry_trans)
  have "sinv R {} (s\<lparr>tenants := t, pool := p'\<rparr>)"
    using sinv_pool_cong [of R "{}" "s\<lparr>tenants := t\<rparr>" p'] inv p' p g by (simp add: fun_eq_iff)
  then have "sinv R {} (s\<lparr>tenants := t, pool := p', waiting := i # rest\<rparr>)"
    by (subst (asm) sinv_cong [of _ "s\<lparr>tenants := t, pool := p', waiting := i # rest\<rparr>"]) (simp_all add: i)
  with p'(1) g show ?thesis by (auto simp: free_all_def)
qed

text \<open>
  The outcome of \<open>try_start\<close> for the head of the waiting queue, which the caller has taken off.
  It starts unless the pool is short; then nothing has changed but the pool's counters and the
  order of its free list.
\<close>

lemma try_start_ok:
  assumes inv: "sinv R {} s" and i: "waiting s = i # rest" and q: "seqs s i = Some q"
  obtains (started) s' q' where "try_start blake3 i (s\<lparr>waiting := rest\<rparr>) = Some (True, s')"
      "sinv (R @ [i]) {} s'" "seqs s' = (seqs s)(i \<mapsto> q')" "seq_frame q q'" "needs_prefill q'"
      "length (tokens q') \<le> length (blocks q') * cfg_block_size (cfg s)"
      "waiting s' = rest" "running s' = running s" "sched_frame s s'"
    | (short) s' where "try_start blake3 i (s\<lparr>waiting := rest\<rparr>) = Some (False, s')"
      "sinv R {} (s'\<lparr>waiting := i # rest\<rparr>)" "seqs s' = seqs s" "waiting s' = rest"
      "running s' = running s" "sched_frame s s'"
      "num_free (pool s) < blocks_for (pool s) (length (tokens q) + 1) + watermark (pool s)"
proof -
  let ?bs = "cfg_block_size (cfg s)" and ?plen = "length (tokens q)"
  have "waiting_ok (cfg s) q" "tokens_ok q" using sinv_role [OF inv q] i by (auto simp: role_ok_def)
  then have qf: "prefill_target q = ?plen" "num_computed q = 0" "0 < ?plen"
    by (auto simp: waiting_ok_def tokens_ok_def)
  have bs: "block_size (pool s) = ?bs" "0 < ?bs" using sinv_block_size [OF inv] by auto
  have pinv: "pool_inv (pool s)" by (rule sinv_pool [OF inv])
  obtain ns t where ns: "namespace_for blake3 (seq_namespace q) (s\<lparr>waiting := rest\<rparr>)
      = (ns, s\<lparr>waiting := rest, tenants := t\<rparr>)" by (rule namespace_for_eq)
  let ?s1 = "s\<lparr>waiting := rest, tenants := t\<rparr>"
  obtain m p where m: "(if prefix_cache (cfg s) then match_cached blake3 ns (tokens q) ?plen ?bs (pool s)
        else Some ([], 0, pool s)) = Some (m, length m * ?bs, p)"
      "\<And>b. b \<in> set m \<Longrightarrow> content (pool s) b \<noteq> None" "length m * ?bs < ?plen" "pool_inv p"
      "same_geometry (pool s) p" "rc p = (\<lambda>b. rc (pool s) b + count_list m b)" "content p = content (pool s)"
    by (rule cached_step_ok [OF pinv qf(3) bs(1) [symmetric], of "prefix_cache (cfg s)" blake3 ns]) (rule that)
  define need where "need = blocks_for p (?plen + 1) - length m"
  have unf: "try_start blake3 i (s\<lparr>waiting := rest\<rparr>) =
    (if \<not> can_allocate p need then do {
       p \<leftarrow> free_all m p;
       Some (False, ?s1\<lparr>pool := p\<rparr>) }
     else do {
       (e, new, p) \<leftarrow> alloc_up_to allocate need p;
       case e of
         Some _ \<Rightarrow> do {
           p \<leftarrow> free_all (m @ new) p;
           Some (False, ?s1\<lparr>pool := p\<rparr>) }
       | None \<Rightarrow> do {
           q \<leftarrow> adopt_cached_prefix m (length m * ?bs) q;
           Some (True, ?s1\<lparr>pool := p,
             seqs := (seqs s)(i \<mapsto> q\<lparr>blocks := m @ new, status := Prefilling\<rparr>)\<rparr>) } })"
    using q ns m(1) qf(1) unfolding try_start_def need_def by (simp add: Let_def split del: if_split cong: if_cong option.case_cong)
  show thesis
  proof (cases "can_allocate p need")
    case False
    from unmatch_sinv [OF inv i m(4,5,6,7)] obtain p' where p': "free_all m p = Some p'"
        "sinv R {} (s\<lparr>tenants := t, pool := p', waiting := i # rest\<rparr>)" "same_geometry (pool s) p'" by blast
    have "length m * ?bs \<le> div_ceil (?plen + 1) ?bs * ?bs"
      using m(3) div_ceil_covers [OF bs(2), of "?plen + 1"] by linarith
    then have "length m \<le> div_ceil (?plen + 1) ?bs" using bs(2) by simp
    then have "num_free (pool s) < blocks_for (pool s) (?plen + 1) + watermark (pool s)"
      using bs False num_free_after_match [OF pinv m(4,5,6)] m(5)
      by (auto simp: can_allocate_def need_def blocks_for_def same_geometry_def)
    with p' unf False q show thesis
      by (intro short [of "?s1\<lparr>pool := p'\<rparr>"]) (auto simp: sched_frame_def option.rel_refl)
  next
    case True
    from bp.alloc_up_to_ok [OF m(4), of need] obtain e new p2 where
        p2: "alloc_up_to allocate need p = Some (e, new, p2)" "pool_inv p2" "same_geometry p p2"
          "e = None \<longleftrightarrow> need \<le> num_free p" "length new = min need (num_free p)" "distinct new"
          "\<forall>b \<in> set new. b < num_blocks p \<and> rc p b = 0"
          "rc p2 = (\<lambda>b. rc p b + count_list new b)"
          "content p2 = (\<lambda>b. if b \<in> set new then None else content p b)" by blast
    have e: "e = None" "length new = need" using True p2(4,5) by (auto simp: can_allocate_def)
    let ?q = "adopted m new ?bs q"
    let ?s = "s\<lparr>waiting := rest, tenants := t, pool := p2, seqs := (seqs s)(i \<mapsto> ?q)\<rparr>"
    have geo: "same_geometry (pool s) p2" using m(5) p2(3) by (rule same_geometry_trans)
    have "blocks_for p (?plen + 1) \<le> length m + need" by (simp add: need_def)
    then have "?plen + 1 \<le> (length m + need) * ?bs"
      using bs m(5) by (simp add: blocks_for_def same_geometry_def div_ceil_le_iff)
    then have cover: "?plen \<le> (length m + length new) * ?bs" using e(2) by simp
    have "sinv (R @ [i]) {} ?s"
      by (rule adopt_sinv [OF inv i q m(2,3) p2(6) _ cover p2(2) geo]) (use p2 m in auto)
    moreover have "sched_frame s ?s"
      by (rule sched_frame_update [OF q]) (use geo in \<open>auto simp: seq_frame_def adopted_def\<close>)
    moreover have "try_start blake3 i (s\<lparr>waiting := rest\<rparr>) = Some (True, ?s)"
      using unf True p2(1) e(1) qf m(3) by (simp add: adopt_cached_prefix_def run_simps adopted_def)
    ultimately show thesis
      using cover m(3) qf
      by (intro started [of ?s ?q]) (auto simp: seq_frame_def needs_prefill_iff adopted_def)
  qed
qed

section \<open>The admission loop\<close>

text \<open>
  Sequences start in the order of the waiting queue, each is appended to the running queue, and
  none is preempted on the way: \<open>ns\<close> lists them with the length of the prefix they adopted.
\<close>

definition admitted :: "scheduler \<Rightarrow> step_plan \<Rightarrow> scheduler \<Rightarrow> step_plan \<Rightarrow> bool" where
  "admitted s plan s' plan' \<longleftrightarrow>
     preempted plan' = preempted plan \<and>
     (\<exists>ns. started plan' = started plan @ ns \<and> waiting s = map fst ns @ waiting s' \<and>
        running s' = running s @ map fst ns)"

lemma admitted_refl [simp]: "admitted s plan s plan"
  by (simp add: admitted_def)

lemma admitted_step:
  assumes "admitted s1 plan1 s' plan'" "started plan1 = started plan @ [(i, n)]"
    "waiting s = i # waiting s1" "running s1 = running s @ [i]"
    "preempted plan1 = preempted plan"
  shows "admitted s plan s' plan'"
proof -
  from assms(1) obtain ns where "started plan' = started plan1 @ ns" "waiting s1 = map fst ns @ waiting s'"
      "running s' = running s1 @ map fst ns" by (auto simp: admitted_def)
  moreover have "preempted plan' = preempted plan" using assms(1,5) by (simp add: admitted_def)
  ultimately show ?thesis
    using assms(2-4) unfolding admitted_def by (intro conjI exI [of _ "(i, n) # ns"]) simp_all
qed

lemma start_waiting_idle:
  assumes "\<not> (0 < budget \<and> length (running s) < max_concurrent_seqs (cfg s)) \<or> waiting s = []"
  shows "start_waiting blake3 (s, plan, budget) = Some (s, plan, budget)"
  using assms by (subst start_waiting.simps) (auto split: list.splits)

lemma pass_inv_started:
  assumes p: "pass_inv (running s) es (s, plan, budget)" and i: "i \<notin> set (running s)"
    and s': "sinv (running s @ [i]) {} s'" "seqs s' = (seqs s)(i \<mapsto> q')" "cfg s' = cfg s"
  shows "pass_inv (running s @ [i]) es
    (s'\<lparr>running := running s @ [i]\<rparr>, plan\<lparr>started := st\<rparr>, budget)"
proof -
  have rep: "plan_rep s (running s) es plan" using p by (simp add: pass_inv_def)
  have "plan_rep (s'\<lparr>running := running s @ [i]\<rparr>) (running s @ [i]) es plan"
  proof (rule plan_rep_frame [OF rep])
    show "seqs (s'\<lparr>running := running s @ [i]\<rparr>) j = seqs s j \<and> j \<in> set (running s @ [i])"
      if "(j, n) \<in> set es" for j n
      using plan_rep_mem [OF rep that] i s'(2) by auto
  qed (use s'(3) in simp)
  then show ?thesis using p s' by (simp add: pass_inv_def)
qed

lemma start_waiting_ok:
  assumes "pass_inv (running s) es (s, plan, budget)" "cfg_wide (cfg s)"
  shows "\<exists>s' plan' budget' es'. start_waiting blake3 (s, plan, budget) = Some (s', plan', budget') \<and>
      pass_inv (running s') es' (s', plan', budget') \<and> sched_frame s s' \<and> admitted s plan s' plan' \<and>
      length (running s') \<le> max (length (running s)) (max_concurrent_seqs (cfg s)) \<and> set es \<subseteq> set es' \<and>
      (\<forall>i rest q. waiting s = i # rest \<and> seqs s i = Some q \<and>
         blocks_for (pool s) (length (tokens q) + 1) + watermark (pool s) \<le> num_free (pool s) \<and>
         0 < budget \<and> 0 < prefill_chunk_tokens (cfg s) \<and> length (running s) < max_concurrent_seqs (cfg s) \<longrightarrow>
         es' \<noteq> [])"
  using assms
proof (induction "length (waiting s)" arbitrary: s es plan budget)
  case 0
  then show ?case
    by (intro exI [of _ s] exI [of _ plan] exI [of _ budget] exI [of _ es]) (simp add: start_waiting_idle)
next
  case (Suc n)
  then obtain i rest where w: "waiting s = i # rest" by (cases "waiting s") auto
  have inv: "sinv (running s) {} s" using Suc.prems(1) by (simp add: pass_inv_def)
  then have "i \<in> dom (seqs s)" and ir: "i \<notin> set (running s)" using w by (auto simp: sinv_def)
  then obtain q where q: "seqs s i = Some q" by blast
  have nf: "\<not> is_finished (status q)"
    using sinv_role [OF inv q] w by (auto simp: role_ok_def waiting_ok_def)
  have ies: "i \<notin> fst ` set es" using Suc.prems(1) ir by (auto simp: pass_inv_def dest: plan_rep_mem)
  show ?case
  proof (cases "0 < budget \<and> length (running s) < max_concurrent_seqs (cfg s)")
    case False
    then show ?thesis using Suc.prems
      by (intro exI [of _ s] exI [of _ plan] exI [of _ budget] exI [of _ es]) (auto simp: start_waiting_idle)
  next
    case True
    have unf: "start_waiting blake3 (s, plan, budget) =
      do { (ok, s) \<leftarrow> try_start blake3 i (s\<lparr>waiting := rest\<rparr>);
           if \<not> ok then Some (s\<lparr>waiting := i # waiting s\<rparr>, plan, budget)
           else do {
             q \<leftarrow> seqs s i;
             let plan = plan\<lparr>started := started plan @ [(i, cached_prefix_tokens q)]\<rparr>;
             st \<leftarrow> prefill_chunk i (s\<lparr>running := running s @ [i]\<rparr>, plan, budget);
             start_waiting blake3 st } }"
      using True w q nf by (subst start_waiting.simps) (simp add: Let_def)
    show ?thesis
    proof (rule try_start_ok [OF inv w q, of blake3], goal_cases started short)
      case short: (short s')
      let ?s = "s'\<lparr>waiting := i # rest\<rparr>"
      have fr: "sched_frame s ?s" using short(6) by (simp add: sched_frame_def)
      have rep: "plan_rep s (running s) es plan" using Suc.prems(1) by (simp add: pass_inv_def)
      have "plan_rep ?s (running s) es plan"
        by (rule plan_rep_frame [OF rep])
           (use short(3) fr plan_rep_mem [OF rep] in \<open>auto simp: sched_frame_def\<close>)
      then have "pass_inv (running ?s) es (?s, plan, budget)"
        using Suc.prems(1) short(2,5) fr by (simp add: pass_inv_def sched_frame_def)
      moreover have "admitted s plan ?s plan" using w short(5) by (simp add: admitted_def)
      moreover have "start_waiting blake3 (s, plan, budget) = Some (?s, plan, budget)"
        using unf short(1,4) by simp
      ultimately show ?thesis
        using fr w q short(5,7)
        by (intro exI [of _ ?s] exI [of _ plan] exI [of _ budget] exI [of _ es]) auto
    next
      case started: (started s1 q')
      let ?s1 = "s1\<lparr>running := running s @ [i]\<rparr>"
      let ?plan = "plan\<lparr>started := step_plan.started plan @ [(i, cached_prefix_tokens q')]\<rparr>"
      have cfg1: "cfg s1 = cfg s" using started(9) by (simp add: sched_frame_def)
      have p1: "pass_inv (running ?s1) es (?s1, ?plan, budget)"
        using pass_inv_started [OF Suc.prems(1) ir started(2,3) cfg1] by simp
      have pre: "cfg_wide (cfg ?s1)" "i \<in> set (running ?s1)" "seqs ?s1 i = Some q'"
        using Suc.prems(2) cfg1 started(3) by auto
      from prefill_chunk_ok [OF p1 pre(1,2) ies pre(3) started(5)]
      obtain s2 plan2 budget2 es2 where
          c: "prefill_chunk i (?s1, ?plan, budget) = Some (s2, plan2, budget2)"
            "pass_inv (running s2) es2 (s2, plan2, budget2)" "sched_frame ?s1 s2"
            "step_plan.started plan2 = step_plan.started ?plan" "set es \<subseteq> set es2"
          and d: "running s2 = running ?s1 \<and> waiting s2 = waiting ?s1 \<and> preempted plan2 = preempted ?plan \<or>
            \<not> length (tokens q') \<le> length (blocks q') * cfg_block_size (cfg ?s1)"
            "length (tokens q') \<le> length (blocks q') * cfg_block_size (cfg ?s1) \<and> 0 < budget \<and>
             0 < prefill_chunk_tokens (cfg ?s1) \<longrightarrow> es2 \<noteq> []" by blast
      have d: "running s2 = running ?s1" "waiting s2 = waiting ?s1"
          "0 < budget \<Longrightarrow> 0 < prefill_chunk_tokens (cfg s) \<Longrightarrow> es2 \<noteq> []"
          "preempted plan2 = preempted plan"
        using d started(6) cfg1 by auto
      have fr: "sched_frame s s2"
        by (rule sched_frame_trans [OF _ c(3)]) (use started(9) in \<open>simp add: sched_frame_def\<close>)
      have "n = length (waiting s2)" "cfg_wide (cfg s2)"
        using Suc.hyps(2) Suc.prems(2) w d(2) started(7) fr by (auto simp: sched_frame_def)
      from Suc.hyps(1) [OF this(1) c(2) this(2)] obtain s' plan' budget' es' where
          r: "start_waiting blake3 (s2, plan2, budget2) = Some (s', plan', budget')"
            "pass_inv (running s') es' (s', plan', budget')" "sched_frame s2 s'" "admitted s2 plan2 s' plan'"
            "length (running s') \<le> max (length (running s2)) (max_concurrent_seqs (cfg s2))"
            "set es2 \<subseteq> set es'" by blast
      have "admitted s plan s' plan'"
        by (rule admitted_step [OF r(4)]) (use c d started w in auto)
      moreover have "length (running s') \<le> max (length (running s)) (max_concurrent_seqs (cfg s))"
        using r(5) d(1) True fr by (simp add: sched_frame_def)
      moreover have "sched_frame s s'" using fr r(3) by (rule sched_frame_trans)
      moreover have "es' \<noteq> []" if "0 < budget" "0 < prefill_chunk_tokens (cfg s)"
        using that d(3) r(6) by auto
      moreover have "start_waiting blake3 (s, plan, budget) = Some (s', plan', budget')"
        using unf started(1,3,8) c(1) r(1) by (simp add: Let_def)
      ultimately show ?thesis
        using r(2,6) c(5)
        by (intro exI [of _ s'] exI [of _ plan'] exI [of _ budget'] exI [of _ es']) auto
    qed
  qed
qed

end
