(* ===== verification/Batch_Valid.thy ===== *)
theory Batch_Valid
  imports Scheduler_Plan
begin

text \<open>
  The batch of a plan passes \<open>ForwardBatch::validate\<close> (\<open>vapi-engine/src/backend.rs\<close>): first for
  rows in general, then for the rows of a plan, where the slots written are pairwise different
  because a running sequence owns the blocks it writes to.
\<close>

section \<open>Concatenated rows\<close>

lemma nth_concat_rows:
  assumes "i < length rows" "k < length (f (rows ! i))" "\<And>r. r \<in> set rows \<Longrightarrow> length (f r) = g r"
  shows "concat (map f rows) ! (sum_list (take i (map g rows)) + k) = f (rows ! i) ! k"
  using assms
proof (induction rows arbitrary: i)
  case (Cons r rows)
  show ?case
  proof (cases i)
    case 0
    with Cons.prems show ?thesis by (simp add: nth_append)
  next
    case (Suc j)
    with Cons show ?thesis by (simp add: nth_append add.assoc)
  qed
qed simp

lemma sorted_cums: "sorted (cums a xs)"
proof -
  have "\<forall>x \<in> set (cums a xs). a \<le> x" for a xs
    by (induction xs arbitrary: a) (auto, fastforce)
  then show ?thesis by (induction xs arbitrary: a) (auto, fastforce)
qed

lemma hd_cums [simp]: "hd (cums a xs) = a"
  by (cases xs) auto

lemma cums_diff:
  assumes "i < length xs"
  shows "cums a xs ! Suc i - cums a xs ! i = xs ! i"
  using assms by (simp add: nth_cums take_Suc_conv_app_nth)

lemma row_logits_less:
  assumes "x \<in> set (row_logits a rows)" "\<And>r. r \<in> set rows \<Longrightarrow> 0 < snd r"
  shows "x < a + sum_list (map snd rows)"
  using assms
proof (induction rows arbitrary: a)
  case (Cons r rows)
  from Cons.prems(1) consider "x = u32_of (a + snd r - 1)" | "x \<in> set (row_logits (a + snd r) rows)"
    by (auto split: if_splits)
  then show ?case
  proof cases
    case 1
    then show ?thesis using u32_of_le [of "a + snd r - 1"] Cons.prems(2) [of r] by simp
  next
    case 2
    from Cons.IH [OF this] Cons.prems(2) show ?thesis by (simp add: add.assoc)
  qed
qed simp

section \<open>Rows that fit\<close>

definition rows_fit :: "nat \<Rightarrow> nat \<Rightarrow> (sequence \<times> nat) list \<Rightarrow> bool" where
  "rows_fit n bs rows \<longleftrightarrow>
     (\<forall>r \<in> set rows. 0 < snd r \<and> keys_len r \<le> length (blocks (fst r)) * bs \<and>
        (\<forall>b \<in> set (blocks (fst r)). b < n)) \<and>
     sum_list (map snd rows) < 2 ^ 32 \<and> sum_list (map keys_len rows) < 2 ^ 32 \<and>
     distinct (concat (map (row_slots bs) rows))"

lemma map_u32_of_id:
  assumes "sum_list (map f rows) < 2 ^ 32"
  shows "map (\<lambda>r. u32_of (f r)) rows = map f rows"
proof (rule map_cong [OF refl])
  fix r assume "r \<in> set rows"
  then have "f r \<le> sum_list (map f rows)" by (intro member_le_sum_list) auto
  with assms show "u32_of (f r) = f r" by simp
qed

lemma mk_batch_cu:
  assumes "rows_fit n bs rows"
  shows "cu_seqlens_q (mk_batch bs rows) = (if rows = [] then [] else cums 0 (map snd rows))"
    "cu_seqlens_k (mk_batch bs rows) = (if rows = [] then [] else cums 0 (map keys_len rows))"
proof -
  have "sum_list (map snd rows) < 2 ^ 32" "sum_list (map keys_len rows) < 2 ^ 32"
    using assms by (auto simp: rows_fit_def)
  then show "cu_seqlens_q (mk_batch bs rows) = (if rows = [] then [] else cums 0 (map snd rows))"
    "cu_seqlens_k (mk_batch bs rows) = (if rows = [] then [] else cums 0 (map keys_len rows))"
    by (simp_all only: mk_batch_def forward_batch.simps keys_len_def [symmetric] map_u32_of_id)
qed

lemma length_row_slots [simp]: "length (row_slots bs r) = snd r"
  by (simp add: row_slots_def)

lemma length_concat_slots: "length (concat (map (row_slots bs) rows)) = sum_list (map snd rows)"
  by (induction rows) auto

lemma row_slot_less:
  assumes "x \<in> set (row_slots bs r)" "keys_len r \<le> length (blocks (fst r)) * bs" "0 < bs"
    "\<And>b. b \<in> set (blocks (fst r)) \<Longrightarrow> b < n"
  shows "x < n * bs"
proof -
  from assms(1) obtain i where i: "i < keys_len r" "x = u32_of (blocks (fst r) ! (i div bs) * bs + i mod bs)"
    by (auto simp: row_slots_def row_span_def keys_len_def)
  then have "i div bs < length (blocks (fst r))"
    using assms(2) by (intro less_mult_imp_div_less) linarith
  then have "blocks (fst r) ! (i div bs) < n" using assms(4) by simp
  then have "Suc (blocks (fst r) ! (i div bs)) * bs \<le> n * bs" by (intro mult_le_mono1) simp
  moreover have "i mod bs < bs" using assms(3) by simp
  ultimately have "blocks (fst r) ! (i div bs) * bs + i mod bs < n * bs" unfolding mult_Suc by linarith
  with i(2) u32_of_le show ?thesis using order_le_less_trans by blast
qed

lemma row_positions_step:
  assumes "keys_len r < 2 ^ 32" "0 < k" "k < snd r"
  shows "map u32_of (row_span r) ! k = map u32_of (row_span r) ! (k - 1) + 1"
proof -
  have "num_computed (fst r) + k < 2 ^ 32" using assms by (simp add: keys_len_def)
  with assms show ?thesis by (simp add: row_span_def)
qed

lemma mk_batch_seq_wf:
  assumes fit: "rows_fit n bs rows" and bs: "0 < bs" and i: "i < length rows"
  shows "seq_wf (mk_batch bs rows) n bs i"
proof -
  let ?b = "mk_batch bs rows" and ?r = "rows ! i"
  have r: "?r \<in> set rows" using i by simp
  have "keys_len ?r \<le> sum_list (map keys_len rows)" using r by (intro member_le_sum_list) auto
  then have k32: "keys_len ?r < 2 ^ 32" using fit by (simp add: rows_fit_def)
  have ne: "rows \<noteq> []" using i by auto
  have cu: "cu_seqlens_q ?b = cums 0 (map snd rows)" "cu_seqlens_k ?b = cums 0 (map keys_len rows)"
    using ne mk_batch_cu [OF fit] by simp_all
  have d: "cu_seqlens_q ?b ! (i + 1) - cu_seqlens_q ?b ! i = snd ?r"
    "cu_seqlens_k ?b ! (i + 1) - cu_seqlens_k ?b ! i = keys_len ?r"
    using cums_diff [of i "map snd rows" 0] cums_diff [of i "map keys_len rows" 0] i by (simp_all add: cu)
  have lo: "cu_seqlens_q ?b ! i = sum_list (take i (map snd rows))" using i by (simp add: cu nth_cums)
  have "positions ?b ! j = positions ?b ! (j - 1) + 1"
    if j: "cu_seqlens_q ?b ! i < j" "j < cu_seqlens_q ?b ! (i + 1)" for j
  proof -
    define k where "k = j - cu_seqlens_q ?b ! i"
    have k: "0 < k" "k < snd ?r" "j = sum_list (take i (map snd rows)) + k"
        "j - 1 = sum_list (take i (map snd rows)) + (k - 1)"
      using j d(1) lo by (auto simp: k_def)
    have at: "positions ?b ! (sum_list (take i (map snd rows)) + m) = map u32_of (row_span ?r) ! m"
      if "m < snd ?r" for m
      using nth_concat_rows [of i rows m "\<lambda>r. map u32_of (row_span r)" snd] i that by (simp add: mk_batch_def)
    show ?thesis
      using at [of k] at [of "k - 1"] k row_positions_step [OF k32 k(1,2)] by simp
  qed
  moreover have "block_tables ?b ! i = blocks (fst ?r)" using i by (simp add: mk_batch_def)
  moreover have "snd ?r \<le> keys_len ?r" by (simp add: keys_len_def)
  ultimately show ?thesis
    using fit r bs d by (auto simp: seq_wf_def rows_fit_def div_ceil_le_iff)
qed

lemma mk_batch_wf:
  assumes fit: "rows_fit n bs rows" and bs: "0 < bs"
  shows "batch_wf (mk_batch bs rows) n bs"
proof -
  let ?b = "mk_batch bs rows"
  have len: "length (fb_tokens ?b) = sum_list (map snd rows)"
    by (simp add: mk_batch_def length_concat_span)
  note cu = mk_batch_cu [OF fit]
  have size: "batch_size ?b = length rows" by (auto simp: batch_size_def cu)
  have slots: "\<forall>x \<in> set (slot_mapping ?b). x < n * bs"
  proof
    fix x assume "x \<in> set (slot_mapping ?b)"
    then obtain r where "r \<in> set rows" "x \<in> set (row_slots bs r)" by (auto simp: mk_batch_def)
    with fit bs show "x < n * bs" by (intro row_slot_less [of x bs r]) (auto simp: rows_fit_def)
  qed
  have logits: "\<forall>x \<in> set (logits_indices ?b). x < length (fb_tokens ?b)"
    using row_logits_less [of _ 0 rows] fit len by (auto simp: mk_batch_def rows_fit_def)
  have lens: "length (positions ?b) = length (fb_tokens ?b)" "length (slot_mapping ?b) = length (fb_tokens ?b)"
    using length_concat_span [of "\<lambda>_. u32_of" rows] length_concat_slots [of bs rows]
    by (simp_all add: len) (simp_all add: mk_batch_def)
  have cu3: "cu_seqlens_q ?b \<noteq> [] \<longrightarrow> hd (cu_seqlens_q ?b) = 0 \<and> last (cu_seqlens_q ?b) = length (fb_tokens ?b)"
    by (simp add: cu len)
  have "length (block_tables ?b) = batch_size ?b" by (simp add: size) (simp add: mk_batch_def)
  moreover have "distinct (slot_mapping ?b)" using fit by (simp add: mk_batch_def rows_fit_def)
  moreover have "\<forall>i < batch_size ?b. seq_wf ?b n bs i"
    using mk_batch_seq_wf [OF fit bs] size by simp
  moreover have "sorted (cu_seqlens_q ?b)" "sorted (cu_seqlens_k ?b)"
      "length (cu_seqlens_k ?b) = length (cu_seqlens_q ?b)"
    by (simp_all add: cu sorted_cums)
  ultimately show ?thesis using lens cu3 slots logits unfolding batch_wf_def by blast
qed

section \<open>The slots of a plan\<close>

lemma distinct_concat_disjoint:
  assumes "distinct es" "\<And>e. e \<in> set es \<Longrightarrow> distinct (f e)"
    "\<And>e e'. e \<in> set es \<Longrightarrow> e' \<in> set es \<Longrightarrow> e \<noteq> e' \<Longrightarrow> set (f e) \<inter> set (f e') = {}"
  shows "distinct (concat (map f es))"
  using assms
proof (induction es)
  case (Cons e es)
  have "set (f e) \<inter> set (concat (map f es)) = {}"
  proof -
    have "set (f e) \<inter> set (f e') = {}" if "e' \<in> set es" for e'
      using that Cons.prems(1) by (intro Cons.prems(3)) auto
    then show ?thesis by auto
  qed
  with Cons show ?case by simp
qed simp

lemma slot_split:
  assumes "0 < bs" "(a :: nat) * bs + i mod bs = b * bs + j mod bs"
  shows "a = b" "i mod bs = j mod bs"
proof -
  have "(a * bs + i mod bs) div bs = a" "(b * bs + j mod bs) div bs = b" using assms(1) by simp_all
  with assms(2) show "a = b" by simp
  with assms(2) show "i mod bs = j mod bs" by simp
qed

text \<open>The block and offset behind a slot that a running sequence writes.\<close>

lemma slot_of_entry:
  assumes inv: "sinv R {} s" and e: "entry_ok s R e" "seqs s (fst e) = Some q"
    and n: "num_blocks (pool s) * cfg_block_size (cfg s) \<le> 2 ^ 32"
    and i: "i \<in> set (row_span (q, snd e))"
  shows "i div cfg_block_size (cfg s) < length (blocks q)"
    "rc (pool s) (blocks q ! (i div cfg_block_size (cfg s))) = 1"
    "u32_of (blocks q ! (i div cfg_block_size (cfg s)) * cfg_block_size (cfg s) + i mod cfg_block_size (cfg s))
       = blocks q ! (i div cfg_block_size (cfg s)) * cfg_block_size (cfg s) + i mod cfg_block_size (cfg s)"
proof -
  let ?bs = "cfg_block_size (cfg s)"
  have bs: "0 < ?bs" by (rule sinv_block_size [OF inv])
  from e obtain eR: "fst e \<in> set R" and fit: "num_computed q + snd e \<le> length (blocks q) * ?bs"
    by (auto simp: entry_ok_def)
  from sinv_running [OF inv eR] e(2) have ex: "exclusive (pool s) ?bs q" by (auto simp: running_ok_def)
  have i: "num_computed q \<le> i" "i < num_computed q + snd e" using i by (auto simp: row_span_def)
  then show l: "i div ?bs < length (blocks q)" using fit by (intro less_mult_imp_div_less) linarith
  moreover have "num_computed q div ?bs \<le> i div ?bs" using i by (intro div_le_mono)
  ultimately show one: "rc (pool s) (blocks q ! (i div ?bs)) = 1" using ex by (simp add: exclusive_def)
  then have "blocks q ! (i div ?bs) < num_blocks (pool s)" by (intro rc_pos_less) simp
  then have "Suc (blocks q ! (i div ?bs)) * ?bs \<le> num_blocks (pool s) * ?bs" by (intro mult_le_mono1) simp
  moreover have "i mod ?bs < ?bs" using bs by simp
  ultimately have "blocks q ! (i div ?bs) * ?bs + i mod ?bs < 2 ^ 32"
    using n unfolding mult_Suc by linarith
  then show "u32_of (blocks q ! (i div ?bs) * ?bs + i mod ?bs) = blocks q ! (i div ?bs) * ?bs + i mod ?bs"
    by simp
qed

lemma entry_slots_distinct:
  assumes inv: "sinv R {} s" and e: "entry_ok s R e" "seqs s (fst e) = Some q"
    and n: "num_blocks (pool s) * cfg_block_size (cfg s) \<le> 2 ^ 32"
  shows "distinct (row_slots (cfg_block_size (cfg s)) (q, snd e))"
proof -
  let ?bs = "cfg_block_size (cfg s)"
  have bs: "0 < ?bs" by (rule sinv_block_size [OF inv])
  note sl = slot_of_entry [OF inv e n]
  have "i = j" if i: "i \<in> set (row_span (q, snd e))" and j: "j \<in> set (row_span (q, snd e))"
    and eq: "u32_of (blocks q ! (i div ?bs) * ?bs + i mod ?bs) = u32_of (blocks q ! (j div ?bs) * ?bs + j mod ?bs)"
    for i j
  proof -
    have "blocks q ! (i div ?bs) * ?bs + i mod ?bs = blocks q ! (j div ?bs) * ?bs + j mod ?bs"
      using eq sl(3) [OF i] sl(3) [OF j] by simp
    note sp = slot_split [OF bs this]
    have "count_list (blocks q) (blocks q ! (i div ?bs)) \<le> 1"
      using sinv_count_le [OF inv e(2), of "blocks q ! (i div ?bs)"] sl(2) [OF i] by simp
    from unique_index [OF this sl(1) [OF i] sl(1) [OF j] sp(1)] sp(2) show "i = j"
      by (metis div_mult_mod_eq)
  qed
  then show ?thesis by (simp add: row_slots_def distinct_map inj_on_def) (simp add: row_span_def)
qed

lemma entry_slots_disjoint:
  assumes inv: "sinv R {} s" and n: "num_blocks (pool s) * cfg_block_size (cfg s) \<le> 2 ^ 32"
    and e: "entry_ok s R e" "seqs s (fst e) = Some q" and e': "entry_ok s R e'" "seqs s (fst e') = Some q'"
    and ne: "fst e \<noteq> fst e'"
  shows "set (row_slots (cfg_block_size (cfg s)) (q, snd e)) \<inter>
    set (row_slots (cfg_block_size (cfg s)) (q', snd e')) = {}"
proof -
  let ?bs = "cfg_block_size (cfg s)"
  have bs: "0 < ?bs" by (rule sinv_block_size [OF inv])
  note sl = slot_of_entry [OF inv e n] and sl' = slot_of_entry [OF inv e' n]
  have False if i: "i \<in> set (row_span (q, snd e))" and j: "j \<in> set (row_span (q', snd e'))"
    and eq: "u32_of (blocks q ! (i div ?bs) * ?bs + i mod ?bs) = u32_of (blocks q' ! (j div ?bs) * ?bs + j mod ?bs)"
    for i j
  proof -
    have "blocks q ! (i div ?bs) * ?bs + i mod ?bs = blocks q' ! (j div ?bs) * ?bs + j mod ?bs"
      using eq sl(3) [OF i] sl'(3) [OF j] by simp
    note sp = slot_split [OF bs this]
    have "blocks q ! (i div ?bs) \<notin> set (blocks q')"
      by (rule sinv_only_owner [OF inv e(2) e'(2) ne sl(2) [OF i]]) (simp add: sl(1) [OF i])
    with sp(1) sl'(1) [OF j] show False by simp
  qed
  then show ?thesis by (force simp: row_slots_def)
qed

lemma plan_slots_distinct:
  assumes inv: "sinv R {} s" and rep: "plan_rep s R es plan"
    and n: "num_blocks (pool s) * cfg_block_size (cfg s) \<le> 2 ^ 32"
  shows "distinct (concat (map (row_slots (cfg_block_size (cfg s))) (rows_of s es)))"
proof -
  let ?f = "\<lambda>e. row_slots (cfg_block_size (cfg s)) (the (seqs s (fst e)), snd e)"
  have ok: "entry_ok s R e" if "e \<in> set es" for e using rep that by (simp add: plan_rep_def)
  have d: "distinct (map fst es)" using rep by (simp add: plan_rep_def)
  have "distinct (concat (map ?f es))"
  proof (rule distinct_concat_disjoint)
    show "distinct es" using d by (simp add: distinct_map)
    show "distinct (?f e)" if "e \<in> set es" for e
      using entry_slots_distinct [OF inv ok [OF that] _ n] ok [OF that] by (auto simp: entry_ok_def)
    show "set (?f e) \<inter> set (?f e') = {}" if e: "e \<in> set es" "e' \<in> set es" "e \<noteq> e'" for e e'
    proof -
      obtain q q' where q: "seqs s (fst e) = Some q" "seqs s (fst e') = Some q'"
        using ok [OF e(1)] ok [OF e(2)] by (auto simp: entry_ok_def)
      have "fst e \<noteq> fst e'" using d e by (auto simp: distinct_map inj_on_def)
      with entry_slots_disjoint [OF inv n ok [OF e(1)] q(1) ok [OF e(2)] q(2)] q show ?thesis by simp
    qed
  qed
  then show ?thesis by (simp add: rows_of_def comp_def)
qed

lemma plan_rows_fit:
  assumes p: "pass_inv R es (s, plan, budget)" and w: "cfg_wide (cfg s)"
    and n: "num_blocks (pool s) * cfg_block_size (cfg s) \<le> 2 ^ 32"
  shows "rows_fit (num_blocks (pool s)) (cfg_block_size (cfg s)) (rows_of s es)"
proof -
  have inv: "sinv R {} s" and rep: "plan_rep s R es plan" using p by (auto simp: pass_inv_def)
  have rows: "0 < snd r \<and> keys_len r \<le> length (blocks (fst r)) * cfg_block_size (cfg s) \<and>
      (\<forall>b \<in> set (blocks (fst r)). b < num_blocks (pool s))" if "r \<in> set (rows_of s es)" for r
  proof -
    from that obtain i m where e: "(i, m) \<in> set es" "r = (the (seqs s i), m)" by (auto simp: rows_of_def)
    with rep obtain q where q: "seqs s i = Some q" "0 < m" "num_computed q + m \<le> length (blocks q) * cfg_block_size (cfg s)"
      by (fastforce simp: plan_rep_def entry_ok_def)
    have "b < num_blocks (pool s)" if "b \<in> set (blocks q)" for b
    proof (rule rc_pos_less)
      show "0 < rc (pool s) b"
        using that sinv_count_le [OF inv q(1), of b] by (metis count_list_0_iff gr0I le_zero_eq)
    qed
    with q e(2) show ?thesis by (auto simp: keys_len_def)
  qed
  have "sum_list (map snd (rows_of s es)) < 2 ^ 32 \<and> sum_list (map keys_len (rows_of s es)) < 2 ^ 32"
    using plan_sums [OF p w] by blast
  with rows plan_slots_distinct [OF inv rep n] show ?thesis by (simp add: rows_fit_def)
qed

end
