(* ===== verification/Scheduler_Step.thy ===== *)
theory Scheduler_Step
  imports Scheduler_Prefill Batch_Valid
begin

text \<open>
  One step of \<open>vapi-engine/src/scheduler.rs\<close> as a whole: \<open>schedule\<close> ends without a panic, keeps
  the invariant and hands the backend a batch it accepts; \<open>commit\<close> applies the result.
\<close>

section \<open>schedule\<close>

text \<open>
  A finished plan: the entries \<open>es\<close>, one per sequence in the batch, and the closed form of the
  batch with the two maxima filled in.
\<close>

definition plan_final :: "scheduler \<Rightarrow> (seq_id \<times> nat) list \<Rightarrow> step_plan \<Rightarrow> bool" where
  "plan_final s es plan \<longleftrightarrow>
     (\<exists>plan0. plan_rep s (running s) es plan0 \<and>
        plan = plan0\<lparr>batch := (batch plan0)\<lparr>max_seqlen_q := max_window (cu_seqlens_q (batch plan0)),
                                          max_seqlen_k := max_window (cu_seqlens_k (batch plan0))\<rparr>\<rparr>)"

lemma batch_wf_maxima [simp]:
  "batch_wf (b\<lparr>max_seqlen_q := x, max_seqlen_k := y\<rparr>) n bs = batch_wf b n bs"
  by (simp add: batch_wf_def seq_wf_def batch_size_def)

lemma schedule_ok:
  assumes inv: "sched_inv s" and w: "cfg_wide (cfg s)"
  shows "\<exists>plan s' es. schedule blake3 s = Some (plan, s') \<and> sched_inv s' \<and> sched_frame s s' \<and>
      plan_final s' es plan \<and> sum_list (map snd es) \<le> max_batched_tokens (cfg s) \<and>
      length (running s') \<le> max (length (running s)) (max_concurrent_seqs (cfg s)) \<and>
      map fst (started plan) @ waiting s' = rev (preempted plan) @ waiting s \<and>
      (num_blocks (pool s) * cfg_block_size (cfg s) \<le> 2 ^ 32 \<longrightarrow>
         validate (batch plan) (num_blocks (pool s)) (cfg_block_size (cfg s)) = Inr ())"
proof -
  from schedule_decodes_ok [OF inv w] obtain s1 plan1 b1 es1 where
      d: "schedule_decodes (s, empty_plan, max_batched_tokens (cfg s)) = Some (s1, plan1, b1)"
        "pass_inv (running s1) es1 (s1, plan1, b1)" "sched_frame s s1"
        "length (running s1) \<le> length (running s)" "started plan1 = []"
        "waiting s1 = rev (preempted plan1) @ waiting s"
        "\<forall>e \<in> set es1. snd e = 1 \<and> \<not> needs_prefill (the (seqs s1 (fst e)))" by blast
  have w1: "cfg_wide (cfg s1)" using w d(3) by (simp add: sched_frame_def)
  from prefill_running_ok [OF d(2) w1 d(5,6)] d(7) obtain s2 plan2 b2 es2 where
      r: "for_each prefill_running_one (running s1) (s1, plan1, b1) = Some (s2, plan2, b2)"
        "pass_inv (running s2) es2 (s2, plan2, b2)" "sched_frame s1 s2"
        "length (running s2) \<le> length (running s1)" "started plan2 = []"
        "waiting s2 = rev (preempted plan2) @ waiting s" by blast
  have w2: "cfg_wide (cfg s2)" using w1 r(3) by (simp add: sched_frame_def)
  from start_waiting_ok [OF r(2) w2] obtain s3 plan3 b3 es3 where
      a: "start_waiting blake3 (s2, plan2, b2) = Some (s3, plan3, b3)"
        "pass_inv (running s3) es3 (s3, plan3, b3)" "sched_frame s2 s3"
        "length (running s3) \<le> max (length (running s2)) (max_concurrent_seqs (cfg s2))"
        "admitted s2 plan2 s3 plan3" by blast
  have fr: "sched_frame s s3" using d(3) r(3) a(3) by (blast intro: sched_frame_trans)
  let ?b = "batch plan3"
  let ?plan = "plan3\<lparr>batch := ?b\<lparr>max_seqlen_q := max_window (cu_seqlens_q ?b),
      max_seqlen_k := max_window (cu_seqlens_k ?b)\<rparr>\<rparr>"
  have "schedule blake3 s = Some (?plan, s3)"
    using d(1) r(1) a(1) by (simp add: schedule_def schedule_prefills_def Let_def)
  moreover have "plan_final s3 es3 ?plan"
    unfolding plan_final_def using a(2) by (intro exI [of _ plan3]) (simp add: pass_inv_def)
  moreover have "sched_inv s3" "sum_list (map snd es3) \<le> max_batched_tokens (cfg s)"
    using a(2) fr by (auto simp: pass_inv_def sched_inv_def sched_frame_def)
  moreover have "length (running s3) \<le> max (length (running s)) (max_concurrent_seqs (cfg s))"
    using a(4) r(4) d(4) r(3) d(3) by (simp add: sched_frame_def)
  moreover have "map fst (started ?plan) @ waiting s3 = rev (preempted ?plan) @ waiting s"
    using a(5) r(5,6) by (auto simp: admitted_def)
  moreover have "validate (batch ?plan) (num_blocks (pool s)) (cfg_block_size (cfg s)) = Inr ()"
    if n: "num_blocks (pool s) * cfg_block_size (cfg s) \<le> 2 ^ 32"
  proof -
    have g: "cfg s3 = cfg s" "num_blocks (pool s3) = num_blocks (pool s)"
      using fr by (auto simp: sched_frame_def same_geometry_def)
    have "rows_fit (num_blocks (pool s)) (cfg_block_size (cfg s)) (rows_of s3 es3)"
      using plan_rows_fit [OF a(2)] w n g by simp
    moreover have "?b = mk_batch (cfg_block_size (cfg s)) (rows_of s3 es3)"
      using a(2) g by (simp add: pass_inv_def plan_rep_def)
    moreover have "0 < cfg_block_size (cfg s)" using inv by (auto simp: sched_inv_def dest: sinv_block_size)
    ultimately show ?thesis using mk_batch_wf by (simp add: validate_iff)
  qed
  ultimately show ?thesis using fr by blast
qed

text \<open>
  Progress: with nothing running, every block is free, so the oldest waiting sequence starts
  whenever the pool is large enough for it at all.
\<close>

lemma idle_all_free:
  assumes inv: "sinv [] {} s"
  shows "num_free (pool s) = num_blocks (pool s)"
proof -
  have "blocks q = []" if "seqs s i = Some q" for i q
  proof -
    have "i \<in> set (waiting s) \<union> set (finished s)" using inv that by (auto simp: sinv_def)
    with sinv_role [OF inv that] show ?thesis by (auto simp: role_ok_def waiting_ok_def finished_ok_def)
  qed
  then have "blocks_of s i = []" for i by (auto simp: blocks_of_def split: option.splits)
  then have "rc (pool s) b = 0" for b using sinv_rc [OF inv] by (simp add: seq_refs_def)
  then show ?thesis
    by (simp add: pool_inv_num_free [OF sinv_pool [OF inv]] unreferenced_def)
qed

lemma schedule_progress:
  assumes inv: "sched_inv s" and w: "cfg_wide (cfg s)" and idle: "running s = []"
    and i: "waiting s = i # rest" "seqs s i = Some q"
    and room: "blocks_for (pool s) (length (tokens q) + 1) + watermark (pool s) \<le> num_blocks (pool s)"
    and pos: "0 < max_batched_tokens (cfg s)" "0 < prefill_chunk_tokens (cfg s)" "0 < max_concurrent_seqs (cfg s)"
  shows "\<exists>plan s'. schedule blake3 s = Some (plan, s') \<and> \<not> batch_is_empty (batch plan)"
proof -
  let ?B = "max_batched_tokens (cfg s)"
  have p0: "pass_inv (running s) [] (s, empty_plan, ?B)"
    using inv by (simp add: pass_inv_def sched_inv_def plan_rep_empty)
  have dec: "schedule_decodes (s, empty_plan, ?B) = Some (s, empty_plan, ?B)"
    by (simp add: schedule_decodes_def idle)
  from start_waiting_ok [OF p0 w, of blake3] obtain s' plan' b' es' where
      a: "start_waiting blake3 (s, empty_plan, ?B) = Some (s', plan', b')"
        "pass_inv (running s') es' (s', plan', b')"
      and ne: "\<forall>i rest q. waiting s = i # rest \<and> seqs s i = Some q \<and>
         blocks_for (pool s) (length (tokens q) + 1) + watermark (pool s) \<le> num_free (pool s) \<and>
         0 < ?B \<and> 0 < prefill_chunk_tokens (cfg s) \<and> length (running s) < max_concurrent_seqs (cfg s) \<longrightarrow>
         es' \<noteq> []" by blast
  have "es' \<noteq> []"
    using ne i room pos idle idle_all_free [of s] inv by (simp add: sched_inv_def)
  moreover have rep: "plan_rep s' (running s') es' plan'" using a(2) by (simp add: pass_inv_def)
  ultimately have "0 < sum_list (map snd (rows_of s' es'))"
    by (cases es') (auto simp: plan_rep_def entry_ok_def rows_of_def)
  moreover have "length (fb_tokens (batch plan')) = sum_list (map snd (rows_of s' es'))"
    using rep by (simp add: plan_rep_def mk_batch_def length_concat_span)
  ultimately have "fb_tokens (batch plan') \<noteq> []" by (metis less_irrefl list.size(3))
  then show ?thesis
    using dec a(1) idle by (simp add: schedule_def schedule_prefills_def Let_def batch_is_empty_def)
qed

end
