(* ===== verification/Scheduler_Publish.thy ===== *)
theory Scheduler_Publish
  imports Scheduler_Inv
begin

text \<open>
  Publication of full blocks (\<open>publish_full_blocks\<close> of \<open>vapi-engine/src/scheduler.rs\<close>): every
  block that became full is published, and where another sequence was first with the same content
  its block replaces the own one, which is released.
\<close>

section \<open>Publishing a range of blocks\<close>

definition swap_ok :: "block_id list \<Rightarrow> nat \<Rightarrow> nat \<times> block_id \<times> block_id \<Rightarrow> bool" where
  "swap_ok bs hi sw \<longleftrightarrow> (case sw of (k, old, c) \<Rightarrow> k < length bs \<and> k < hi \<and> old = bs ! k)"

definition canon :: "(nat \<times> block_id \<times> block_id) list \<Rightarrow> block_id list" where
  "canon swaps = map (\<lambda>sw. snd (snd sw)) swaps"

text \<open>The blocks whose content the loop may set.\<close>

definition in_range :: "block_id list \<Rightarrow> nat \<Rightarrow> nat \<Rightarrow> block_id set" where
  "in_range bs lo hi = {bs ! j | j. lo \<le> j \<and> j < hi \<and> j < length bs}"

lemma in_range_mono: "lo \<le> lo' \<Longrightarrow> in_range bs lo' hi \<subseteq> in_range bs lo hi"
  by (auto simp: in_range_def)

lemma publish_block_ok:
  assumes inv: "pool_inv p" and b: "b < num_blocks p"
  shows "\<exists>c q. publish b h p = Some (c, q) \<and> pool_inv q \<and> same_geometry p q \<and>
      (c = b \<and> rc q = rc p \<or> c \<noteq> b \<and> content p c \<noteq> None \<and> rc q = (rc p)(c := rc p c + 1)) \<and>
      (\<forall>x. x \<noteq> b \<longrightarrow> content q x = content p x)"
proof -
  obtain xs where ok: "pool_ok p xs" using inv by (auto simp: pool_inv_def)
  show ?thesis
  proof (cases "\<exists>e. by_hash p h = Some e \<and> e \<noteq> b")
    case True
    then obtain e where e: "by_hash p h = Some e" "e \<noteq> b" by auto
    then have "content p e \<noteq> None" using pool_ok_by_hash [OF ok] by auto
    with publish_adopt_ok [OF ok e] e show ?thesis unfolding pool_inv_def by metis
  next
    case False
    then have "by_hash p h \<in> {None, Some b}" by (cases "by_hash p h") auto
    with publish_first_ok [OF ok b] show ?thesis unfolding pool_inv_def by (metis fun_upd_apply)
  qed
qed

lemma publish_range_ok:
  assumes "pool_inv p" "\<And>b. b \<in> set bs \<Longrightarrow> b < num_blocks p"
  shows "\<exists>swaps q. publish_range bs k hs p = Some (swaps, q) \<and> pool_inv q \<and> same_geometry p q \<and>
      rc q = (\<lambda>b. rc p b + count_list (canon swaps) b) \<and>
      (\<forall>x. x \<notin> in_range bs k (k + length hs) \<longrightarrow> content q x = content p x) \<and>
      (\<forall>sw \<in> set swaps. swap_ok bs (k + length hs) sw \<and> k \<le> fst sw) \<and> distinct (map fst swaps) \<and>
      (\<forall>c \<in> set (canon swaps). content p c \<noteq> None \<or> c \<in> in_range bs k (k + length hs))"
  using assms
proof (induction hs arbitrary: k p)
  case Nil
  then show ?case by (simp add: canon_def)
next
  case (Cons h hs)
  have sub: "in_range bs (Suc k) (Suc k + length hs) \<subseteq> in_range bs k (k + length (h # hs))"
    by (auto simp: in_range_def)
  show ?case
  proof (cases "k < length bs")
    case False
    from Cons.IH [of p "Suc k"] Cons.prems obtain swaps q where
        q: "publish_range bs (Suc k) hs p = Some (swaps, q)" "pool_inv q" "same_geometry p q"
          "rc q = (\<lambda>b. rc p b + count_list (canon swaps) b)"
          "\<forall>x. x \<notin> in_range bs (Suc k) (Suc k + length hs) \<longrightarrow> content q x = content p x"
          "\<forall>sw \<in> set swaps. swap_ok bs (Suc k + length hs) sw \<and> Suc k \<le> fst sw" "distinct (map fst swaps)"
          "\<forall>c \<in> set (canon swaps). content p c \<noteq> None \<or> c \<in> in_range bs (Suc k) (Suc k + length hs)" by blast
    then show ?thesis using False sub by (intro exI [of _ swaps] exI [of _ q]) auto
  next
    case True
    from publish_block_ok [OF Cons.prems(1), of "bs ! k" h] Cons.prems(2) True obtain c p1 where
        c: "publish (bs ! k) h p = Some (c, p1)" "pool_inv p1" "same_geometry p p1"
          "c = bs ! k \<and> rc p1 = rc p \<or> c \<noteq> bs ! k \<and> content p c \<noteq> None \<and> rc p1 = (rc p)(c := rc p c + 1)"
          "\<forall>x. x \<noteq> bs ! k \<longrightarrow> content p1 x = content p x" by auto
    have bnd: "\<And>b. b \<in> set bs \<Longrightarrow> b < num_blocks p1" using Cons.prems(2) c(3) by (simp add: same_geometry_def)
    from Cons.IH [OF c(2) bnd, of "Suc k"] obtain swaps q where
        q: "publish_range bs (Suc k) hs p1 = Some (swaps, q)" "pool_inv q" "same_geometry p1 q"
          "rc q = (\<lambda>b. rc p1 b + count_list (canon swaps) b)"
          "\<forall>x. x \<notin> in_range bs (Suc k) (Suc k + length hs) \<longrightarrow> content q x = content p1 x"
          "\<forall>sw \<in> set swaps. swap_ok bs (Suc k + length hs) sw \<and> Suc k \<le> fst sw" "distinct (map fst swaps)"
          "\<forall>c \<in> set (canon swaps). content p1 c \<noteq> None \<or> c \<in> in_range bs (Suc k) (Suc k + length hs)" by blast
    let ?swaps = "if c \<noteq> bs ! k then (k, bs ! k, c) # swaps else swaps"
    have bk: "bs ! k \<in> in_range bs k (k + length (h # hs))" using True by (auto simp: in_range_def)
    have "publish_range bs k (h # hs) p = Some (?swaps, q)" using True c(1) q(1) by simp
    moreover have "same_geometry p q" using c(3) q(3) by (rule same_geometry_trans)
    moreover have "rc q = (\<lambda>b. rc p b + count_list (canon ?swaps) b)"
      using q(4) c(4) by (auto simp: canon_def fun_eq_iff)
    moreover have "\<forall>x. x \<notin> in_range bs k (k + length (h # hs)) \<longrightarrow> content q x = content p x"
      using q(5) c(5) bk sub by (metis subsetD)
    moreover have "\<forall>sw \<in> set ?swaps. swap_ok bs (k + length (h # hs)) sw \<and> k \<le> fst sw"
      using q(6) True by (auto simp: swap_ok_def)
    moreover have "k \<notin> fst ` set swaps" using q(6) by force
    then have "distinct (map fst ?swaps)" using q(7) by auto
    moreover have "\<forall>x \<in> set (canon swaps). content p x \<noteq> None \<or> x \<in> in_range bs k (k + length (h # hs))"
      using q(8) c(5) bk sub by (metis subsetD)
    then have "\<forall>x \<in> set (canon ?swaps). content p x \<noteq> None \<or> x \<in> in_range bs k (k + length (h # hs))"
      using c(4) by (auto simp: canon_def)
    ultimately show ?thesis using q(2) by blast
  qed
qed

section \<open>Applying the swaps\<close>

definition swaps_inv ::
  "block_pool \<Rightarrow> block_id list \<Rightarrow> (block_id \<Rightarrow> nat) \<Rightarrow> nat set \<Rightarrow> block_id set \<Rightarrow>
   (nat \<times> block_id \<times> block_id) list \<Rightarrow> block_id list \<times> block_pool \<Rightarrow> bool" where
  "swaps_inv p0 bs base K C todo st \<longleftrightarrow>
     (case st of (cur, p) \<Rightarrow>
        pool_inv p \<and> same_geometry p0 p \<and> content p = content p0 \<and> length cur = length bs \<and>
        (\<forall>j. j \<notin> K \<longrightarrow> cur ! j = bs ! j) \<and> set cur \<subseteq> set bs \<union> C \<and>
        (\<forall>b. b \<notin> C \<longrightarrow> count_list cur b = count_list bs b) \<and>
        (\<forall>b. rc p b = base b + count_list cur b + count_list (canon todo) b) \<and>
        distinct (map fst todo) \<and>
        (\<forall>(k, old, c) \<in> set todo. k \<in> K \<and> k < length cur \<and> cur ! k = old \<and> old \<in> C \<and> c \<in> C))"

lemma apply_swap_ok:
  assumes I: "swaps_inv p0 bs base K C (sw # todo) st"
  shows "\<exists>st'. apply_swap sw st = Some st' \<and> swaps_inv p0 bs base K C todo st'"
proof -
  obtain k old c where sw: "sw = (k, old, c)" by (cases sw) auto
  obtain cur p where st: "st = (cur, p)" by fastforce
  from I have inv: "pool_inv p" "same_geometry p0 p" "content p = content p0" "length cur = length bs"
      "\<forall>j. j \<notin> K \<longrightarrow> cur ! j = bs ! j" "set cur \<subseteq> set bs \<union> C"
      "\<forall>b. rc p b = base b + count_list cur b + count_list (canon (sw # todo)) b"
      and d: "distinct (map fst (sw # todo))"
      and cc: "\<forall>b. b \<notin> C \<longrightarrow> count_list cur b = count_list bs b"
      and k: "k \<in> K" "k < length cur" "cur ! k = old" "c \<in> C" "old \<in> C"
      and todo: "\<forall>(k, old, c) \<in> set todo. k \<in> K \<and> k < length cur \<and> cur ! k = old \<and> old \<in> C \<and> c \<in> C"
    by (auto simp: swaps_inv_def st sw)
  have pos: "0 < count_list cur old" using k(2,3) by (metis count_list_0_iff gr0I nth_mem)
  then have "0 < rc p old" using inv(7) by simp
  with bp.release_ok [OF inv(1)] obtain p' where p': "free old p = Some p'" "pool_inv p'" "same_geometry p p'"
      "rc p' = (rc p)(old := rc p old - 1)" "content p' = content p" by blast
  have "rc p' b = base b + count_list (cur[k := c]) b + count_list (canon todo) b" for b
  proof -
    have "count_list (canon (sw # todo)) b = (if c = b then 1 else 0) + count_list (canon todo) b"
      by (simp add: canon_def sw)
    with count_list_update [OF k(2), of c b] k(3) inv(7) [rule_format, of b] p'(4) pos
    show ?thesis by (cases "b = old"; cases "b = c") simp_all
  qed
  moreover have "set (cur[k := c]) \<subseteq> set bs \<union> C"
    using set_update_subset_insert [of cur k c] inv(6) k(4) by auto
  moreover have "same_geometry p0 p'" using inv(2) p'(3) by (rule same_geometry_trans)
  moreover have "\<forall>(k', old', c') \<in> set todo. k' \<in> K \<and> k' < length (cur[k := c]) \<and> cur[k := c] ! k' = old' \<and> old' \<in> C \<and> c' \<in> C"
  proof -
    have "k' \<noteq> k" if "(k', old', c') \<in> set todo" for k' old' c'
      using that d by (force simp: sw)
    with todo show ?thesis by fastforce
  qed
  moreover have "count_list (cur[k := c]) b = count_list bs b" if "b \<notin> C" for b
  proof -
    have "c \<noteq> b" "cur ! k \<noteq> b" "count_list cur b = count_list bs b" using that k cc by auto
    with count_list_update [OF k(2), of c b] show ?thesis by simp
  qed
  moreover have "cur[k := c] ! j = bs ! j" if "j \<notin> K" for j
    using that k(1) inv(5) by (metis nth_list_update_neq)
  ultimately have "swaps_inv p0 bs base K C todo (cur[k := c], p')"
    using inv p' d k(1) by (auto simp: swaps_inv_def)
  moreover have "apply_swap sw st = Some (cur[k := c], p')"
    using p'(1) k(2) by (simp add: apply_swap_def sw st run_simps)
  ultimately show ?thesis by blast
qed

lemma apply_swaps_ok:
  assumes "pool_inv p" "\<And>b. rc p b = base b + count_list bs b + count_list (canon swaps) b"
    and "\<forall>sw \<in> set swaps. swap_ok bs hi sw" "distinct (map fst swaps)"
  shows "\<exists>bs' p'. for_each apply_swap swaps (bs, p) = Some (bs', p') \<and> pool_inv p' \<and> same_geometry p p' \<and>
      content p' = content p \<and> (\<forall>b. rc p' b = base b + count_list bs' b) \<and> length bs' = length bs \<and>
      (\<forall>j. hi \<le> j \<longrightarrow> bs' ! j = bs ! j) \<and> set bs' \<subseteq> set bs \<union> set (canon swaps) \<and>
      (\<forall>b. b \<notin> set (canon swaps) \<and> b \<notin> (\<lambda>sw. bs ! fst sw) ` set swaps \<longrightarrow> count_list bs' b = count_list bs b)"
proof -
  let ?O = "(\<lambda>sw. bs ! fst sw) ` set swaps"
  let ?I = "swaps_inv p bs base {..<hi} (set (canon swaps) \<union> ?O)"
  have O: "?O \<subseteq> set bs" using assms(3) by (auto simp: swap_ok_def)
  have "?I swaps (bs, p)"
    using assms by (force simp: swaps_inv_def swap_ok_def canon_def)
  then have "\<exists>st. for_each apply_swap swaps (bs, p) = Some st \<and> ?I [] st"
    by (rule for_each_total) (rule apply_swap_ok)
  then obtain bs' p' where l: "for_each apply_swap swaps (bs, p) = Some (bs', p')" "?I [] (bs', p')"
    by auto
  then have "set bs' \<subseteq> set bs \<union> (set (canon swaps) \<union> ?O)" by (simp add: swaps_inv_def)
  then have "set bs' \<subseteq> set bs \<union> set (canon swaps)" using O by blast
  with l show ?thesis by (intro exI [of _ bs'] exI [of _ p']) (simp add: swaps_inv_def canon_def)
qed

section \<open>Publishing the blocks of one sequence\<close>

definition publish_frame :: "scheduler \<Rightarrow> scheduler \<Rightarrow> bool" where
  "publish_frame s s' \<longleftrightarrow>
     cfg s' = cfg s \<and> next_id s' = next_id s \<and> finished s' = finished s \<and> waiting s' = waiting s \<and>
     running s' = running s \<and> by_request s' = by_request s \<and> eos_tokens s' = eos_tokens s \<and>
     default_ns s' = default_ns s \<and> same_geometry (pool s) (pool s') \<and>
     (\<forall>i. map_option tokens (seqs s' i) = map_option tokens (seqs s i))"

lemma publish_frame_refl [simp]: "publish_frame s s"
  by (simp add: publish_frame_def)

lemma publish_frame_trans: "publish_frame s t \<Longrightarrow> publish_frame t u \<Longrightarrow> publish_frame s u"
  unfolding publish_frame_def by (auto intro: same_geometry_trans)

text \<open>
  What the swaps do to the pool as a whole: the references move from the old to the canonical
  blocks, and only blocks in the range have been given content.
\<close>

lemma publish_swaps_ok:
  assumes inv: "pool_inv p" and cnt: "\<And>b. count_list bs b \<le> rc p b"
  shows "\<exists>swaps q bs' p'. publish_range bs k hs p = Some (swaps, q) \<and>
      for_each apply_swap swaps (bs, q) = Some (bs', p') \<and> pool_inv p' \<and> same_geometry p p' \<and>
      length bs' = length bs \<and> (\<forall>j. k + length hs \<le> j \<longrightarrow> bs' ! j = bs ! j) \<and>
      (\<forall>b. rc p' b + count_list bs b = rc p b + count_list bs' b) \<and>
      (\<forall>x. x \<notin> in_range bs k (k + length hs) \<longrightarrow> content p' x = content p x) \<and>
      (\<forall>c \<in> set bs'. c \<in> set bs \<or> content p c \<noteq> None) \<and>
      (\<forall>c. content p c = None \<and> c \<notin> in_range bs k (k + length hs) \<longrightarrow> count_list bs' c = count_list bs c)"
proof -
  have bnd: "b < num_blocks p" if "b \<in> set bs" for b
    using that cnt [of b] by (intro rc_pos_less) (metis count_list_0_iff gr0I le_zero_eq)
  from publish_range_ok [OF inv bnd, of bs k hs] obtain swaps q where
      q: "publish_range bs k hs p = Some (swaps, q)" "pool_inv q" "same_geometry p q"
        "rc q = (\<lambda>b. rc p b + count_list (canon swaps) b)"
        "\<forall>x. x \<notin> in_range bs k (k + length hs) \<longrightarrow> content q x = content p x"
        "\<forall>sw \<in> set swaps. swap_ok bs (k + length hs) sw \<and> k \<le> fst sw" "distinct (map fst swaps)"
        "\<forall>c \<in> set (canon swaps). content p c \<noteq> None \<or> c \<in> in_range bs k (k + length hs)" by blast
  have "rc q b = (rc p b - count_list bs b) + count_list bs b + count_list (canon swaps) b" for b
    using q(4) cnt [of b] by simp
  from apply_swaps_ok [OF q(2) this, of "k + length hs"] q(6,7) obtain bs' p' where
      a: "for_each apply_swap swaps (bs, q) = Some (bs', p')" "pool_inv p'" "same_geometry q p'"
        "content p' = content q" "\<forall>b. rc p' b = (rc p b - count_list bs b) + count_list bs' b"
        "length bs' = length bs" "\<forall>j. k + length hs \<le> j \<longrightarrow> bs' ! j = bs ! j"
        "set bs' \<subseteq> set bs \<union> set (canon swaps)"
        "\<forall>b. b \<notin> set (canon swaps) \<and> b \<notin> (\<lambda>sw. bs ! fst sw) ` set swaps \<longrightarrow> count_list bs' b = count_list bs b"
    by blast
  have "bs ! fst sw \<in> in_range bs k (k + length hs)" if "sw \<in> set swaps" for sw
    using q(6) that by (fastforce simp: in_range_def swap_ok_def)
  then have "\<forall>c. content p c = None \<and> c \<notin> in_range bs k (k + length hs) \<longrightarrow> count_list bs' c = count_list bs c"
    using a(9) q(8) by blast
  moreover have "rc p' b + count_list bs b = rc p b + count_list bs' b" for b using a(5) cnt [of b] by simp
  moreover have "in_range bs k (k + length hs) \<subseteq> set bs" by (auto simp: in_range_def)
  then have "\<forall>c \<in> set bs'. c \<in> set bs \<or> content p c \<noteq> None" using a(8) q(8) by blast
  moreover have "same_geometry p p'" using q(3) a(3) by (rule same_geometry_trans)
  ultimately show ?thesis
    using q a by (intro exI [of _ swaps] exI [of _ q] exI [of _ bs'] exI [of _ p']) simp
qed

lemma exclusive_publish:
  assumes ex: "exclusive p bsz q" and full: "full = num_computed q div bsz"
    and cnt: "\<And>b. count_list (blocks q) b \<le> rc p b"
    and keep: "length bs' = length (blocks q)" "\<And>j. full \<le> j \<Longrightarrow> bs' ! j = blocks q ! j"
    and cons: "\<And>b. rc p' b + count_list (blocks q) b = rc p b + count_list bs' b"
    and cont: "\<And>x. x \<notin> in_range (blocks q) lo full \<Longrightarrow> content p' x = content p x"
    and le1: "\<And>c. rc p c = 1 \<Longrightarrow> content p c = None \<Longrightarrow> c \<notin> in_range (blocks q) lo full \<Longrightarrow>
      count_list bs' c = count_list (blocks q) c"
  shows "exclusive p' bsz (q\<lparr>num_cached_blocks := full, blocks := bs'\<rparr>)"
  unfolding exclusive_def
proof (intro allI impI)
  fix j assume j: "num_computed (q\<lparr>num_cached_blocks := full, blocks := bs'\<rparr>) div bsz \<le> j \<and>
    j < length (blocks (q\<lparr>num_cached_blocks := full, blocks := bs'\<rparr>))"
  let ?b = "blocks q ! j"
  have jl: "full \<le> j" "j < length (blocks q)" using j keep(1) full by auto
  then have b: "rc p ?b = 1" "content p ?b = None" using ex full by (auto simp: exclusive_def)
  have nr: "?b \<notin> in_range (blocks q) lo full"
  proof
    assume "?b \<in> in_range (blocks q) lo full"
    then obtain i where "i < full" "i < length (blocks q)" "blocks q ! i = ?b" by (auto simp: in_range_def)
    moreover have "j = i"
      by (rule unique_index [of "blocks q"]) (use cnt [of ?b] b(1) jl calculation in simp_all)
    ultimately show False using jl(1) by simp
  qed
  have "rc p' ?b = 1 \<and> content p' ?b = None"
    using cons [of ?b] le1 [OF b nr] cont [OF nr] b by simp
  then show "rc p' (blocks (q\<lparr>num_cached_blocks := full, blocks := bs'\<rparr>) ! j) = 1 \<and>
      content p' (blocks (q\<lparr>num_cached_blocks := full, blocks := bs'\<rparr>) ! j) = None"
    using keep(2) [OF jl(1)] by simp
qed

lemma publish_one_sinv:
  assumes inv: "sinv R {} s" and q: "seqs s i = Some q"
    and full: "full = num_computed q div cfg_block_size (cfg s)" "num_cached_blocks q < full"
      "num_cached_blocks q + length hs = full"
  shows "\<exists>swaps p0 bs' p. publish_range (blocks q) (num_cached_blocks q) hs (pool s) = Some (swaps, p0) \<and>
      for_each apply_swap swaps (blocks q, p0) = Some (bs', p) \<and> same_geometry (pool s) p \<and>
      sinv R {} (s\<lparr>tenants := t, pool := p,
        seqs := (seqs s)(i \<mapsto> q\<lparr>num_cached_blocks := full, blocks := bs'\<rparr>)\<rparr>)"
proof -
  let ?lo = "num_cached_blocks q" and ?bs = "cfg_block_size (cfg s)"
  have cnt: "\<And>b. count_list (blocks q) b \<le> rc (pool s) b" by (rule sinv_count_le [OF inv q])
  from publish_swaps_ok [OF sinv_pool [OF inv] cnt, of ?lo hs] obtain swaps p0 bs' p where
      p: "publish_range (blocks q) ?lo hs (pool s) = Some (swaps, p0)"
        "for_each apply_swap swaps (blocks q, p0) = Some (bs', p)" "pool_inv p" "same_geometry (pool s) p"
        "length bs' = length (blocks q)" "\<forall>j. ?lo + length hs \<le> j \<longrightarrow> bs' ! j = blocks q ! j"
        "\<forall>b. rc p b + count_list (blocks q) b = rc (pool s) b + count_list bs' b"
        "\<forall>x. x \<notin> in_range (blocks q) ?lo (?lo + length hs) \<longrightarrow> content p x = content (pool s) x"
        "\<forall>c \<in> set bs'. c \<in> set (blocks q) \<or> content (pool s) c \<noteq> None"
        "\<forall>c. content (pool s) c = None \<and> c \<notin> in_range (blocks q) ?lo (?lo + length hs) \<longrightarrow>
           count_list bs' c = count_list (blocks q) c"
    by blast
  let ?q = "q\<lparr>num_cached_blocks := full, blocks := bs'\<rparr>"
  let ?s = "s\<lparr>tenants := t, pool := p, seqs := (seqs s)(i \<mapsto> ?q)\<rparr>"
  have ex: "exclusive p ?bs ?q" if "exclusive (pool s) ?bs q"
    by (rule exclusive_publish [OF that full(1) cnt p(5), where lo = ?lo]) (use p full(3) in auto)
  have "sinv R {} ?s"
  proof (rule sinv_update [OF inv q, where q' = ?q])
    show "role_ok (cfg s) (pool ?s) (set (waiting ?s)) (set R) (set (finished ?s)) {} i ?q"
      using sinv_role [OF inv q] ex p(5) full
      by (auto simp: role_ok_def running_ok_def tokens_ok_def waiting_ok_def finished_ok_def)
    show "c \<notin> set (blocks ?q) \<and> content (pool ?s) c = None"
      if "rc (pool s) c = 1" "content (pool s) c = None" "c \<notin> set (blocks q)" for c
    proof -
      have "c \<notin> in_range (blocks q) ?lo (?lo + length hs)" using that(3) by (auto simp: in_range_def)
      with that p(8,9) show ?thesis by auto
    qed
    show "distinct (waiting ?s @ R @ finished ?s)" using inv by (simp add: sinv_def)
  qed (use p in auto)
  with p show ?thesis by blast
qed

lemma publish_one_ok:
  assumes inv: "sinv R {} s"
  shows "\<exists>s'. publish_one blake3 i s = Some s' \<and> sinv R {} s' \<and> publish_frame s s'"
proof (cases "\<exists>q. seqs s i = Some q \<and> num_cached_blocks q < num_computed q div cfg_block_size (cfg s)")
  case False
  have "0 < cfg_block_size (cfg s)" by (rule sinv_block_size [OF inv])
  with False have "publish_one blake3 i s = Some s"
    by (auto simp: publish_one_def run_simps Let_def not_less split: option.splits)
  then show ?thesis using inv by simp
next
  case True
  then obtain q where q: "seqs s i = Some q" "num_cached_blocks q < num_computed q div cfg_block_size (cfg s)"
    by blast
  let ?bs = "cfg_block_size (cfg s)"
  let ?full = "num_computed q div ?bs"
  have bs: "0 < ?bs" by (rule sinv_block_size [OF inv])
  have tk: "num_computed q \<le> length (tokens q)" using sinv_tokens [OF inv q(1)] by (simp add: tokens_ok_def)
  have le: "?full * ?bs \<le> length (tokens q)"
    using tk by (metis div_times_less_eq_dividend le_trans)
  obtain ns t where ns: "namespace_for blake3 (seq_namespace q) s = (ns, s\<lparr>tenants := t\<rparr>)"
    by (rule namespace_for_eq)
  define hs where "hs = drop (num_cached_blocks q) (take ?full
      (hash_block_chain blake3 ns (take (?full * ?bs) (tokens q)) ?bs))"
  have "num_cached_blocks q + length hs = ?full"
    using q(2) le bs by (simp add: hs_def length_hash_block_chain)
  from publish_one_sinv [OF inv q(1) refl q(2) this, of t] obtain swaps p0 bs' p where
      p: "publish_range (blocks q) (num_cached_blocks q) hs (pool s) = Some (swaps, p0)"
        "for_each apply_swap swaps (blocks q, p0) = Some (bs', p)" "same_geometry (pool s) p"
        "sinv R {} (s\<lparr>tenants := t, pool := p,
          seqs := (seqs s)(i \<mapsto> q\<lparr>num_cached_blocks := ?full, blocks := bs'\<rparr>)\<rparr>)"
    by blast
  have "publish_one blake3 i s = Some (s\<lparr>tenants := t, pool := p,
      seqs := (seqs s)(i \<mapsto> q\<lparr>num_cached_blocks := ?full, blocks := bs'\<rparr>)\<rparr>)"
    using q ns le bs p(1,2) unfolding hs_def by (simp add: publish_one_def run_simps Let_def)
  with p(3,4) q(1) show ?thesis by (auto simp: publish_frame_def)
qed

lemma publish_full_blocks_ok:
  assumes "sched_inv s"
  shows "\<exists>s'. publish_full_blocks blake3 plan s = Some s' \<and> sched_inv s' \<and> publish_frame s s'"
proof (cases "prefix_cache (cfg s)")
  case False
  then show ?thesis using assms by (simp add: publish_full_blocks_def)
next
  case True
  let ?I = "\<lambda>_ s'. sinv (running s) {} s' \<and> publish_frame s s'"
  have "\<exists>s'. for_each (publish_one blake3) (batch_seqs plan) s = Some s' \<and> ?I [] s'"
  proof (rule for_each_total)
    show "?I (batch_seqs plan) s" using assms by (simp add: sched_inv_def)
    show "\<exists>t'. publish_one blake3 j t = Some t' \<and> ?I js t'" if "?I (j # js) t" for j js t
      using that publish_one_ok [of "running s" t blake3 j] publish_frame_trans by blast
  qed
  then show ?thesis using True by (auto simp: publish_full_blocks_def sched_inv_def publish_frame_def)
qed

end
