(* ===== verification/Scheduler_Commit.thy ===== *)
theory Scheduler_Commit
  imports Scheduler_Step Scheduler_Publish
begin

text \<open>
  \<open>commit\<close> of \<open>vapi-engine/src/scheduler.rs\<close>: progress of every sequence in the batch, the sampled
  tokens, retirement and publication.  Sequences may have been cancelled since the plan was made.
\<close>

section \<open>A plan that is still to be committed\<close>

definition pending_entry :: "scheduler \<Rightarrow> (seq_id \<times> nat \<Rightarrow> bool) \<Rightarrow> seq_id \<times> nat \<Rightarrow> bool" where
  "pending_entry s c e \<longleftrightarrow>
     0 < snd e \<and> fst e < next_id s \<and>
     (\<forall>q. seqs s (fst e) = Some q \<longrightarrow>
        num_computed q + snd e \<le> length (tokens q) \<and>
        (c e \<longleftrightarrow> length (tokens q) \<le> num_computed q + snd e) \<and>
        (\<not> is_finished (status q) \<longrightarrow>
           fst e \<in> set (running s) \<and> num_computed q + snd e \<le> length (blocks q) * cfg_block_size (cfg s)))"

text \<open>\<open>c\<close> marks the entries for which a token is sampled.\<close>

definition plan_pending ::
  "scheduler \<Rightarrow> (seq_id \<times> nat) list \<Rightarrow> (seq_id \<times> nat \<Rightarrow> bool) \<Rightarrow> step_plan \<Rightarrow> bool" where
  "plan_pending s es c plan \<longleftrightarrow>
     distinct (map fst es) \<and> batch_seqs plan = map fst es \<and>
     cu_seqlens_q (batch plan) = (if es = [] then [] else cums 0 (map snd es)) \<and>
     sampled_seqs plan = map fst (filter c es) \<and> (\<forall>e \<in> set es. pending_entry s c e)"

lemma plan_final_pending:
  assumes inv: "sched_inv s" and w: "cfg_wide (cfg s)" and f: "plan_final s es plan"
    and sum: "sum_list (map snd es) \<le> max_batched_tokens (cfg s)"
  shows "\<exists>c. plan_pending s es c plan"
proof -
  let ?c = "\<lambda>e. row_completes (the (seqs s (fst e)), snd e)"
  from f obtain plan0 where rep: "plan_rep s (running s) es plan0"
    and same: "batch_seqs plan = batch_seqs plan0" "sampled_seqs plan = sampled_seqs plan0"
      "cu_seqlens_q (batch plan) = cu_seqlens_q (batch plan0)"
    by (auto simp: plan_final_def)
  have sinv: "sinv (running s) {} s" using inv by (simp add: sched_inv_def)
  have ok: "\<And>e. e \<in> set es \<Longrightarrow> entry_ok s (running s) e" using rep by (simp add: plan_rep_def)
  have "sum_list (map snd (rows_of s es)) < 2 ^ 32" by (rule entries_sums(1) [OF sinv w ok sum])
  from map_u32_of_id [OF this] have "map (\<lambda>r. u32_of (snd r)) (rows_of s es) = map snd es"
    by (simp add: rows_of_def comp_def)
  then have cu: "cu_seqlens_q (batch plan) = (if es = [] then [] else cums 0 (map snd es))"
    using rep same(3) by (simp add: plan_rep_def mk_batch_def) (simp add: rows_of_def)
  have "pending_entry s ?c e" if e: "e \<in> set es" for e
  proof -
    from ok [OF e] obtain q where q: "seqs s (fst e) = Some q" "fst e \<in> set (running s)" "0 < snd e"
        "num_computed q + snd e \<le> length (tokens q)"
        "num_computed q + snd e \<le> length (blocks q) * cfg_block_size (cfg s)"
      by (auto simp: entry_ok_def)
    with sinv_next_id [OF sinv q(1)] show ?thesis by (simp add: pending_entry_def row_completes_def)
  qed
  with rep same cu show ?thesis by (auto simp: plan_pending_def plan_rep_def)
qed

text \<open>What may happen to the scheduler while the backend works keeps a plan pending.\<close>

lemma pending_entry_mono:
  assumes "pending_entry s c e" "cfg s' = cfg s" "next_id s \<le> next_id s'"
    and "\<And>q'. seqs s' (fst e) = Some q' \<Longrightarrow> \<exists>q. seqs s (fst e) = Some q \<and>
      num_computed q' = num_computed q \<and> tokens q' = tokens q \<and>
      (is_finished (status q') \<or> q' = q \<and> (fst e \<in> set (running s) \<longrightarrow> fst e \<in> set (running s')))"
  shows "pending_entry s' c e"
  using assms unfolding pending_entry_def by fastforce

lemma finish_pending:
  assumes "sched_inv s" "plan_pending s es c plan" "finish i reason s = Some s'"
  shows "plan_pending s' es c plan"
proof -
  from finish_ok [of s "{}" i reason] assms(1,3) have f: "finish_frame i s s'"
      "\<forall>q. seqs s' i = Some q \<longrightarrow> is_finished (status q)"
      "\<forall>q. seqs s i = Some q \<longrightarrow> (\<exists>st. seqs s' i = Some (q\<lparr>status := st, blocks := []\<rparr>))"
    by (auto simp: sched_inv_def)
  have "pending_entry s' c e" if "e \<in> set es" for e
  proof (rule pending_entry_mono)
    show "pending_entry s c e" using assms(2) that by (simp add: plan_pending_def)
    fix q' assume q': "seqs s' (fst e) = Some q'"
    then have "fst e \<in> dom (seqs s)" using f(1) by (auto simp: finish_frame_def)
    then obtain q where q: "seqs s (fst e) = Some q" by blast
    show "\<exists>q. seqs s (fst e) = Some q \<and> num_computed q' = num_computed q \<and> tokens q' = tokens q \<and>
        (is_finished (status q') \<or> q' = q \<and> (fst e \<in> set (running s) \<longrightarrow> fst e \<in> set (running s')))"
    proof (cases "fst e = i")
      case True
      then show ?thesis using q q' f(2,3) by fastforce
    next
      case False
      then show ?thesis using q q' f(1) by (auto simp: finish_frame_def)
    qed
  qed (use f(1) in \<open>simp_all add: finish_frame_def\<close>)
  with assms(2) show ?thesis by (simp add: plan_pending_def)
qed

lemma cancel_pending:
  assumes "sched_inv s" "plan_pending s es c plan" "cancel rid s = Some (r, s')"
  shows "plan_pending s' es c plan"
proof (cases "by_request s rid")
  case None
  then show ?thesis using assms by (simp add: cancel_def)
next
  case (Some ids)
  let ?I = "\<lambda>_ s. sched_inv s \<and> plan_pending s es c plan"
  have "\<exists>s'. for_each (\<lambda>i. finish i Cancelled) ids s = Some s' \<and> ?I [] s'"
  proof (rule for_each_total)
    show "\<exists>t'. finish j Cancelled t = Some t' \<and> ?I js t'" if "?I (j # js) t" for j js t
      using that finish_ok [of t "{}" j Cancelled] finish_pending [of t es c plan j Cancelled]
      by (auto simp: sched_inv_def)
  qed (use assms in simp)
  then show ?thesis using Some assms(3) by (auto simp: cancel_def)
qed

lemma admit_pending:
  assumes "plan_pending s es c plan"
  shows "plan_pending (snd (admit rid prompt ps ns s)) es c plan"
proof -
  have "pending_entry (snd (admit rid prompt ps ns s)) c e" if "e \<in> set es" for e
  proof (rule pending_entry_mono)
    show p: "pending_entry s c e" using assms that by (simp add: plan_pending_def)
    then have "fst e \<noteq> next_id s" by (auto simp: pending_entry_def)
    then show "\<exists>q. seqs s (fst e) = Some q \<and> num_computed q' = num_computed q \<and> tokens q' = tokens q \<and>
        (is_finished (status q') \<or>
         q' = q \<and> (fst e \<in> set (running s) \<longrightarrow> fst e \<in> set (running (snd (admit rid prompt ps ns s)))))"
      if "seqs (snd (admit rid prompt ps ns s)) (fst e) = Some q'" for q'
      using that by (auto simp: admit_def Let_def split: if_splits)
  qed (simp_all add: admit_def Let_def)
  with assms show ?thesis by (simp add: plan_pending_def)
qed

section \<open>Progress of the batch\<close>

definition advance_entry :: "seq_id \<times> nat \<Rightarrow> scheduler \<Rightarrow> scheduler option" where
  "advance_entry e s =
     (case seqs s (fst e) of
        None \<Rightarrow> Some s
      | Some q \<Rightarrow> do { q \<leftarrow> advance_one (snd e) q; Some (s\<lparr>seqs := (seqs s)(fst e \<mapsto> q)\<rparr>) })"

lemma advance_all_entries:
  assumes "cu = (if es = [] then [] else cums 0 (map snd es))"
  shows "advance_all cu (map fst es) s = for_each advance_entry es s"
proof -
  have "for_each (\<lambda>(k, i) s. do {
         hi \<leftarrow> index cu (k + 1);
         lo \<leftarrow> index cu k;
         n \<leftarrow> checked_sub hi lo;
         case seqs s i of
           None \<Rightarrow> Some s
         | Some q \<Rightarrow> do { q \<leftarrow> advance_one n q; Some (s\<lparr>seqs := (seqs s)(i \<mapsto> q)\<rparr>) } })
       (List.enumerate m (map fst xs)) s = for_each advance_entry xs s"
    if "\<And>j. j < length xs \<Longrightarrow> Suc (m + j) < length cu \<and> cu ! Suc (m + j) = cu ! (m + j) + snd (xs ! j)"
    for m xs s
    using that
  proof (induction xs arbitrary: m s)
    case (Cons x xs)
    have "index cu (m + 1) = Some (cu ! m + snd x)" "index cu m = Some (cu ! m)"
      using Cons.prems [of 0] by (auto simp: index_def)
    moreover have "Suc (Suc m + j) < length cu \<and> cu ! Suc (Suc m + j) = cu ! (Suc m + j) + snd (xs ! j)"
      if "j < length xs" for j
      using Cons.prems [of "Suc j"] that by simp
    ultimately show ?case
      using Cons.IH [of "Suc m"] by (auto simp: advance_entry_def run_simps split: Option.bind_split option.split)
  qed simp
  moreover have "Suc (0 + j) < length cu \<and> cu ! Suc (0 + j) = cu ! (0 + j) + snd (es ! j)"
    if "j < length es" for j
    using that assms by (auto simp: nth_cums take_Suc_conv_app_nth)
  ultimately show ?thesis unfolding advance_all_def by blast
qed

lemma advance_entry_ok:
  assumes inv: "sinv (running s) D s" and e: "pending_entry s c e" "fst e \<notin> D"
  shows "\<exists>s'. advance_entry e s = Some s' \<and>
      sinv (running s) (if c e then insert (fst e) D else D) s' \<and>
      (\<exists>m. s' = s\<lparr>seqs := m\<rparr> \<and> (\<forall>j. j \<noteq> fst e \<longrightarrow> m j = seqs s j))"
proof (cases "seqs s (fst e)")
  case None
  have "fst e \<notin> set (running s)" by (rule absent_not_queued [OF inv None])
  then have "sinv (running s) (if c e then insert (fst e) D else D) s = sinv (running s) D s"
    by (intro sinv_due_cong) auto
  with None inv show ?thesis by (intro exI [of _ s]) (simp add: advance_entry_def, metis scheduler.surjective scheduler.update_convs(5))
next
  case (Some q)
  let ?D = "if c e then insert (fst e) D else D"
  let ?q0 = "q\<lparr>num_computed := num_computed q + snd e\<rparr>"
  let ?q = "if \<not> needs_prefill ?q0 \<and> status q = Prefilling then ?q0\<lparr>status := Decoding\<rparr> else ?q0"
  have e1: "num_computed q + snd e \<le> length (tokens q)" "0 < snd e"
      "c e \<longleftrightarrow> length (tokens q) \<le> num_computed q + snd e"
      "\<not> is_finished (status q) \<Longrightarrow> fst e \<in> set (running s) \<and>
         num_computed q + snd e \<le> length (blocks q) * cfg_block_size (cfg s)"
    using e(1) Some by (auto simp: pending_entry_def)
  have div: "num_computed q div cfg_block_size (cfg s) \<le> (num_computed q + snd e) div cfg_block_size (cfg s)"
    by (rule div_le_mono) simp
  have ex: "exclusive p bs ?q" if "exclusive p bs q" for p bs
  proof -
    have "num_computed q div bs \<le> (num_computed q + snd e) div bs" by (rule div_le_mono) simp
    with that show ?thesis by (auto simp: exclusive_def)
  qed
  have run: "running_ok (fst e \<in> ?D) (cfg s) (pool s) ?q"
    if "running_ok False (cfg s) (pool s) q" "\<not> is_finished (status q)"
    using that e1 ex div e(2) le_trans [OF _ div]
    by (auto simp: running_ok_def needs_prefill_iff)
  let ?s = "s\<lparr>seqs := (seqs s)(fst e \<mapsto> ?q)\<rparr>"
  have r: "role_ok (cfg s) (pool s) (set (waiting s)) (set (running s)) (set (finished s)) D (fst e) q"
    by (rule sinv_role [OF inv Some])
  have "sinv (running s) ?D ?s"
  proof (rule sinv_update [OF inv Some, where q' = ?q])
    show "role_ok (cfg s) (pool ?s) (set (waiting ?s)) (set (running s)) (set (finished ?s)) ?D (fst e) ?q"
    proof (cases "is_finished (status q)")
      case True
      with finished_not_queued [OF inv Some True] r e1 show ?thesis
        by (auto simp: role_ok_def tokens_ok_def finished_ok_def)
    next
      case False
      with e1(4) unfinished_queued [OF inv Some False] inv
      have "fst e \<in> set (running s)" "fst e \<notin> set (waiting s)" "fst e \<notin> set (finished s)"
        by (auto simp: sinv_def)
      with r e(2) run False e1(1) show ?thesis by (simp add: role_ok_def tokens_ok_def)
    qed
    show "distinct (waiting ?s @ running s @ finished ?s)" using inv by (simp add: sinv_def)
  qed (use sinv_pool [OF inv] in auto)
  moreover have "advance_one (snd e) q = Some ?q"
    using e1(1) by (simp add: advance_one_def advance_computed_def run_simps Let_def)
  then have "advance_entry e s = Some ?s" using Some by (simp add: advance_entry_def)
  ultimately show ?thesis by (intro exI [of _ ?s]) auto
qed

text \<open>After the whole batch: the sequences of marked entries wait for their token.\<close>

lemma advance_entries_ok:
  assumes inv: "sched_inv s" and d: "distinct (map fst es)" and e: "\<forall>e \<in> set es. pending_entry s c e"
  shows "\<exists>s'. for_each advance_entry es s = Some s' \<and>
      sinv (running s) (fst ` set (filter c es)) s' \<and> (\<exists>m. s' = s\<lparr>seqs := m\<rparr>)"
proof -
  define I where "I = (\<lambda>todo t. sinv (running s) (fst ` set (filter c es) - fst ` set todo) t \<and>
      (\<exists>m. t = s\<lparr>seqs := m\<rparr> \<and> (\<forall>x \<in> set todo. m (fst x) = seqs s (fst x))) \<and>
      distinct (map fst todo) \<and> set todo \<subseteq> set es)"
  have "I es s"
  proof -
    have "fst ` set (filter c es) - fst ` set es = {}" by auto
    then have "sinv (running s) (fst ` set (filter c es) - fst ` set es) s"
      using inv by (simp only: sched_inv_def)
    moreover have "\<exists>m. s = s\<lparr>seqs := m\<rparr> \<and> (\<forall>x \<in> set es. m (fst x) = seqs s (fst x))"
      by (rule exI [of _ "seqs s"]) simp
    ultimately show ?thesis using d unfolding I_def by blast
  qed
  then have "\<exists>s'. for_each advance_entry es s = Some s' \<and> I [] s'"
  proof (rule for_each_total)
    fix x xs t assume I: "I (x # xs) t"
    let ?D = "fst ` set (filter c es) - fst ` set (x # xs)"
    from I obtain m where t: "t = s\<lparr>seqs := m\<rparr>" "\<forall>y \<in> set (x # xs). m (fst y) = seqs s (fst y)"
      and inv_t: "sinv (running t) ?D t" and dx: "distinct (map fst (x # xs))" "set (x # xs) \<subseteq> set es"
      by (auto simp: I_def)
    have px: "pending_entry t c x"
      using e dx(2) t by (auto simp: pending_entry_def)
    have nd: "fst x \<notin> ?D" by simp
    from advance_entry_ok [OF inv_t px nd] obtain t' m' where
        t': "advance_entry x t = Some t'" "sinv (running t) (if c x then insert (fst x) ?D else ?D) t'"
          "t' = t\<lparr>seqs := m'\<rparr>" "\<forall>j. j \<noteq> fst x \<longrightarrow> m' j = seqs t j" by blast
    have inj: "x' = x" if "x' \<in> set es" "fst x' = fst x" for x'
      using that d dx(2) by (metis distinct_map inj_on_eq_iff list.set_intros(1) subsetD)
    have "(if c x then insert (fst x) ?D else ?D) = fst ` set (filter c es) - fst ` set xs"
      using inj dx by (auto simp: image_iff)
    moreover have "fst y \<noteq> fst x" if "y \<in> set xs" for y using that dx(1) by (metis distinct.simps(2) image_eqI list.set_map list.simps(9))
    moreover have "\<exists>m. t' = s\<lparr>seqs := m\<rparr> \<and> (\<forall>y \<in> set xs. m (fst y) = seqs s (fst y))"
      using t' t calculation(2) by (intro exI [of _ m']) simp
    ultimately have "I xs t'" using t'(2) t(1) dx unfolding I_def by simp
    with t'(1) show "\<exists>t'. advance_entry x t = Some t' \<and> I xs t'" by blast
  qed
  then show ?thesis by (auto simp: I_def)
qed

section \<open>Sampled tokens\<close>

definition queue_frame :: "scheduler \<Rightarrow> scheduler \<Rightarrow> bool" where
  "queue_frame s s' \<longleftrightarrow>
     cfg s' = cfg s \<and> next_id s' = next_id s \<and> eos_tokens s' = eos_tokens s \<and>
     by_request s' = by_request s \<and> set (waiting s') \<subseteq> set (waiting s) \<and> dom (seqs s') = dom (seqs s) \<and>
     set (running s') \<subseteq> set (running s)"

lemma tokens_ok_push: "tokens_ok q \<Longrightarrow> tokens_ok (push_token t q)"
  by (simp add: tokens_ok_def push_token_def)

lemma append_running_ok:
  assumes inv: "sinv (running s) (insert i D) s" and i: "i \<notin> D" "i \<in> set (running s)"
    and q: "seqs s i = Some q"
  shows "\<exists>s'. append_sampled (i, t) s = Some s' \<and> sinv (running s') D s' \<and> queue_frame s s'"
proof -
  let ?q = "push_token t q"
  let ?s = "s\<lparr>seqs := (seqs s)(i \<mapsto> ?q)\<rparr>"
  from sinv_running [OF inv i(2)] q have r: "running_ok True (cfg s) (pool s) q" by auto
  then have nf: "\<not> is_finished (status q)" by (auto simp: running_ok_def)
  have tk: "tokens_ok ?q" "tokens_ok q" using sinv_tokens [OF inv q] by (auto intro: tokens_ok_push)
  have d: "distinct (waiting s @ running s @ finished s)" using inv by (simp add: sinv_def)
  show ?thesis
  proof (cases "check_finished (eos_tokens s) (max_context (cfg s)) ?q")
    case None
    have "length (tokens ?q) < max_context (cfg s)"
      by (rule check_finished_None_len [OF None]) (simp add: push_token_def)
    moreover have "exclusive (pool s) bs ?q" if "exclusive (pool s) bs q" for bs
      using that by (simp add: exclusive_def push_token_def)
    ultimately have run: "running_ok False (cfg s) (pool s) ?q"
      using r tk(2) by (auto simp: running_ok_def push_token_def tokens_ok_def)
    have "sinv (running s) D ?s"
    proof (rule sinv_update [OF inv q, where q' = ?q])
      have "i \<notin> set (waiting s)" "i \<notin> set (finished s)" using d i(2) by auto
      then show "role_ok (cfg s) (pool ?s) (set (waiting ?s)) (set (running s)) (set (finished ?s)) D i ?q"
        using tk(1) run i by (simp add: role_ok_def)
      show "distinct (waiting ?s @ running s @ finished ?s)" using d by simp
    qed (use sinv_pool [OF inv] in \<open>auto simp: push_token_def\<close>)
    moreover have "append_sampled (i, t) s = Some ?s"
      using q None by (simp add: append_sampled_def Let_def)
    ultimately show ?thesis using q by (auto simp: queue_frame_def)
  next
    case (Some reason)
    from finish_live [OF inv q nf, of ?q reason] tk(1) obtain s' where
        s': "finish i reason ?s = Some s'" "sinv (running s') (insert i D - {i}) s'" "finish_frame i s s'"
      by (auto simp: push_token_def)
    moreover have "append_sampled (i, t) s = Some s'"
      using q Some s'(1) by (simp add: append_sampled_def Let_def)
    moreover have "insert i D - {i} = D" using i(1) by simp
    ultimately show ?thesis by (auto simp: queue_frame_def finish_frame_def)
  qed
qed

lemma append_finished_ok:
  assumes inv: "sinv (running s) D s" and q: "seqs s i = Some q" "is_finished (status q)"
  shows "\<exists>s'. append_sampled (i, t) s = Some s' \<and> sinv (running s') D s' \<and> queue_frame s s'"
proof -
  let ?q = "push_token t q"
  let ?s = "s\<lparr>seqs := (seqs s)(i \<mapsto> ?q)\<rparr>"
  note nq = finished_not_queued [OF inv q]
  have st: "is_finished (status ?q)" "blocks ?q = blocks q" using q(2) by (auto simp: push_token_def)
  have "sinv (running s) D ?s"
  proof (rule sinv_update [OF inv q(1), where q' = ?q])
    show "role_ok (cfg s) (pool ?s) (set (waiting ?s)) (set (running s)) (set (finished ?s)) D i ?q"
      using nq sinv_role [OF inv q(1)] st tokens_ok_push by (auto simp: role_ok_def finished_ok_def)
    show "distinct (waiting ?s @ running s @ finished ?s)" using inv by (simp add: sinv_def)
  qed (use sinv_pool [OF inv] st in auto)
  moreover have "append_sampled (i, t) s = Some ?s"
    using q st by (auto simp: append_sampled_def Let_def finish_def split: option.splits)
  ultimately show ?thesis using q by (auto simp: queue_frame_def)
qed

lemma append_sampled_ok:
  assumes inv: "sinv (running s) (insert i D) s" and i: "i \<notin> D" "i \<notin> set (waiting s)"
  shows "\<exists>s'. append_sampled (i, t) s = Some s' \<and> sinv (running s') D s' \<and> queue_frame s s'"
proof (cases "i \<in> set (running s)")
  case True
  then obtain q where "seqs s i = Some q" using sinv_running [OF inv] by blast
  with append_running_ok [OF inv i(1) True] show ?thesis by blast
next
  case False
  then have eq: "sinv (running s) (insert i D) s = sinv (running s) D s" by (intro sinv_due_cong) auto
  show ?thesis
  proof (cases "seqs s i")
    case None
    then show ?thesis using inv eq by (simp add: append_sampled_def queue_frame_def)
  next
    case (Some q)
    have "is_finished (status q)" using unfinished_queued [OF inv Some] False i(2) by blast
    with append_finished_ok [of s D i q] Some inv eq show ?thesis by blast
  qed
qed

lemma append_all_ok:
  assumes "sinv (running s) (fst ` set its) s" "distinct (map fst its)"
    "\<forall>i \<in> fst ` set its. i \<notin> set (waiting s)"
  shows "\<exists>s'. for_each append_sampled its s = Some s' \<and> sched_inv s' \<and> queue_frame s s'"
proof -
  define I where "I = (\<lambda>(todo :: (seq_id \<times> token) list) t. sinv (running t) (fst ` set todo) t \<and> distinct (map fst todo) \<and>
      (\<forall>i \<in> fst ` set todo. i \<notin> set (waiting t)) \<and> queue_frame s t)"
  have "I its s" using assms by (simp add: I_def queue_frame_def)
  then have "\<exists>s'. for_each append_sampled its s = Some s' \<and> I [] s'"
  proof (rule for_each_total)
    fix x xs u assume I: "I (x # xs) u"
    obtain i t where x: "x = (i, t)" by fastforce
    from append_sampled_ok [of u i "fst ` set xs" t] I obtain u' where
        "append_sampled x u = Some u'" "sinv (running u') (fst ` set xs) u'" "queue_frame u u'"
      by (auto simp: I_def x)
    then show "\<exists>u'. append_sampled x u = Some u' \<and> I xs u'"
      using I by (intro exI [of _ u']) (auto simp: I_def queue_frame_def)
  qed
  then show ?thesis by (auto simp: I_def sched_inv_def)
qed

section \<open>commit\<close>

lemma commit_batch_ok:
  assumes inv: "sched_inv s" and p: "plan_pending s es c plan"
    and len: "length sampled = length (sampled_seqs plan)"
  shows "\<exists>s1 s2. for_each advance_entry es s = Some s1 \<and>
      for_each append_sampled (zip (sampled_seqs plan) sampled) s1 = Some s2 \<and> sched_inv s2 \<and>
      cfg s2 = cfg s \<and> next_id s2 = next_id s \<and> dom (seqs s2) = dom (seqs s)"
proof -
  have es: "distinct (map fst es)" "\<forall>e \<in> set es. pending_entry s c e"
      "sampled_seqs plan = map fst (filter c es)" using p by (auto simp: plan_pending_def)
  from advance_entries_ok [OF inv es(1,2)] obtain s1 m where
      a: "for_each advance_entry es s = Some s1" "sinv (running s) (fst ` set (filter c es)) s1" "s1 = s\<lparr>seqs := m\<rparr>"
    by blast
  let ?its = "zip (sampled_seqs plan) sampled"
  have z: "map fst ?its = sampled_seqs plan" using len by simp
  then have zs: "fst ` set ?its = fst ` set (filter c es)" using es(3) by (metis list.set_map)
  have dist: "distinct (map fst ?its)" using es(1,3) z by (simp add: distinct_map_filter)
  have sinv: "sinv (running s) {} s" using inv by (simp add: sched_inv_def)
  have nw: "i \<notin> set (waiting s1)" if "i \<in> fst ` set ?its" for i
  proof
    assume w: "i \<in> set (waiting s1)"
    from that zs obtain e where e: "e \<in> set es" "i = fst e" by auto
    from sinv w a(3) have "i \<in> dom (seqs s)" by (simp add: sinv_def)
    then obtain q where q: "seqs s i = Some q" by blast
    have "\<not> is_finished (status q)"
      using sinv_role [OF sinv q] w a(3) by (auto simp: role_ok_def waiting_ok_def)
    then have "i \<in> set (running s)" using es(2) e q by (auto simp: pending_entry_def)
    with sinv w a(3) show False by (auto simp: sinv_def)
  qed
  have "sinv (running s1) (fst ` set ?its) s1" using a(2,3) zs by simp
  from append_all_ok [OF this dist] nw obtain s2 where
      b: "for_each append_sampled ?its s1 = Some s2" "sched_inv s2" "queue_frame s1 s2" by blast
  moreover have "dom (seqs s1) = dom (seqs s)"
    using inv a(2,3) by (auto simp: sched_inv_def sinv_def)
  ultimately show ?thesis using a(1,3) by (auto simp: queue_frame_def)
qed

lemma commit_ok:
  assumes inv: "sched_inv s" and p: "plan_pending s es c plan"
    and len: "length sampled = length (sampled_seqs plan)"
  shows "\<exists>s'. commit blake3 plan sampled s = Some s' \<and> sched_inv s' \<and> cfg s' = cfg s \<and>
      next_id s' = next_id s \<and> dom (seqs s') = dom (seqs s)"
proof -
  have es: "batch_seqs plan = map fst es"
      "cu_seqlens_q (batch plan) = (if es = [] then [] else cums 0 (map snd es))"
    using p by (auto simp: plan_pending_def)
  from commit_batch_ok [OF assms] obtain s1 s2 where
      s: "for_each advance_entry es s = Some s1"
        "for_each append_sampled (zip (sampled_seqs plan) sampled) s1 = Some s2" "sched_inv s2"
        "cfg s2 = cfg s" "next_id s2 = next_id s" "dom (seqs s2) = dom (seqs s)" by blast
  from publish_full_blocks_ok [OF s(3), of blake3 plan] obtain s3 where
      c: "publish_full_blocks blake3 plan s2 = Some s3" "sched_inv s3" "publish_frame s2 s3" by blast
  have "commit blake3 plan sampled s = Some s3"
    using len s(1,2) c(1) es(1) advance_all_entries [OF es(2)] by (simp add: commit_def run_simps)
  moreover have "dom (seqs s3) = dom (seqs s2)"
    using c(3) unfolding publish_frame_def dom_def by (metis (no_types, lifting) map_option_is_None)
  ultimately show ?thesis using c s by (auto simp: publish_frame_def)
qed

section \<open>What commit does to the text\<close>

lemma advance_entry_tokens:
  "advance_entry e s = Some s' \<Longrightarrow> map_option tokens (seqs s' j) = map_option tokens (seqs s j)"
  by (auto simp: advance_entry_def advance_one_def advance_computed_def Let_def bind_eq_Some_conv
      split: option.splits if_splits)

lemma finish_tokens:
  "finish i reason s = Some s' \<Longrightarrow> map_option tokens (seqs s' j) = map_option tokens (seqs s j)"
  by (auto simp: finish_def bind_eq_Some_conv split: option.splits if_splits)

lemma append_sampled_tokens:
  assumes "append_sampled (i, t) s = Some s'"
  shows "map_option tokens (seqs s' j) = map_option (\<lambda>q. tokens q @ (if i = j then [t] else [])) (seqs s j)"
proof (cases "seqs s i")
  case None
  then show ?thesis using assms by (cases "i = j") (auto simp: append_sampled_def)
next
  case (Some q)
  let ?s = "s\<lparr>seqs := (seqs s)(i \<mapsto> push_token t q)\<rparr>"
  have "map_option tokens (seqs s' j) = map_option tokens (seqs ?s j)"
    using assms Some finish_tokens [of i _ ?s s' j]
    by (auto simp: append_sampled_def Let_def split: option.splits)
  then show ?thesis using Some by (cases "i = j") (auto simp: push_token_def)
qed

text \<open>The tokens sampled for sequence \<open>j\<close>.\<close>

definition sampled_for :: "seq_id \<Rightarrow> (seq_id \<times> token) list \<Rightarrow> token list" where
  "sampled_for j its = map snd (filter (\<lambda>x. fst x = j) its)"

lemma for_each_advance_tokens:
  "for_each advance_entry es s = Some s' \<Longrightarrow> map_option tokens (seqs s' j) = map_option tokens (seqs s j)"
proof (induction es arbitrary: s)
  case (Cons e es)
  from Cons.prems obtain s1 where "advance_entry e s = Some s1" "for_each advance_entry es s1 = Some s'"
    by (auto simp: bind_eq_Some_conv)
  with Cons.IH advance_entry_tokens show ?case by metis
qed simp

lemma for_each_append_tokens:
  "for_each append_sampled its s = Some s' \<Longrightarrow>
   map_option tokens (seqs s' j) = map_option (\<lambda>q. tokens q @ sampled_for j its) (seqs s j)"
proof (induction its arbitrary: s)
  case Nil
  then show ?case by (simp add: sampled_for_def)
next
  case (Cons x its)
  obtain i t where x: "x = (i, t)" by fastforce
  from Cons.prems obtain s1 where s1: "append_sampled (i, t) s = Some s1" "for_each append_sampled its s1 = Some s'"
    by (auto simp: x bind_eq_Some_conv)
  have "map_option tokens (seqs s' j) = map_option (\<lambda>ts. ts @ sampled_for j its) (map_option tokens (seqs s1 j))"
    using Cons.IH [OF s1(2)] by (simp add: option.map_comp comp_def)
  then show ?case
    unfolding append_sampled_tokens [OF s1(1)] by (simp add: x option.map_comp comp_def sampled_for_def)
qed

lemma commit_tokens:
  assumes inv: "sched_inv s" and p: "plan_pending s es c plan" and c: "commit blake3 plan sampled s = Some s'"
  shows "map_option tokens (seqs s' j)
    = map_option (\<lambda>q. tokens q @ sampled_for j (zip (sampled_seqs plan) sampled)) (seqs s j)"
proof -
  have len: "length sampled = length (sampled_seqs plan)" using c by (auto simp: commit_def ensure_def split: if_splits)
  have es: "batch_seqs plan = map fst es"
      "cu_seqlens_q (batch plan) = (if es = [] then [] else cums 0 (map snd es))"
    using p by (auto simp: plan_pending_def)
  from c obtain s1 s2 where s: "for_each advance_entry es s = Some s1"
      "for_each append_sampled (zip (sampled_seqs plan) sampled) s1 = Some s2"
      "publish_full_blocks blake3 plan s2 = Some s'"
    unfolding commit_def es(1) advance_all_entries [OF es(2)] by (auto simp: bind_eq_Some_conv)
  from commit_batch_ok [OF inv p len] s(1,2) have "sched_inv s2" by auto
  from publish_full_blocks_ok [OF this, of blake3 plan] s(3)
  have "map_option tokens (seqs s' j) = map_option tokens (seqs s2 j)" by (auto simp: publish_frame_def)
  also have "\<dots> = map_option (\<lambda>ts. ts @ sampled_for j (zip (sampled_seqs plan) sampled)) (map_option tokens (seqs s1 j))"
    using for_each_append_tokens [OF s(2)] by (simp add: option.map_comp comp_def)
  also have "\<dots> = map_option (\<lambda>q. tokens q @ sampled_for j (zip (sampled_seqs plan) sampled)) (seqs s j)"
    unfolding for_each_advance_tokens [OF s(1)] by (simp add: option.map_comp comp_def)
  finally show ?thesis .
qed

section \<open>What cancel does\<close>

lemma cancel_spec:
  assumes inv: "sched_inv s" and c: "cancel rid s = Some (r, s')"
  shows "sched_inv s' \<and>
    (\<forall>i \<in> set (sequences_of rid s). \<forall>q. seqs s' i = Some q \<longrightarrow> is_finished (status q) \<and> blocks q = []) \<and>
    (\<forall>j. j \<notin> set (sequences_of rid s) \<longrightarrow> seqs s' j = seqs s j)"
proof (cases "by_request s rid")
  case None
  then show ?thesis using inv c by (simp add: cancel_def sequences_of_def)
next
  case (Some ids)
  define I where "I = (\<lambda>todo t. sinv (running t) {} t \<and> set todo \<subseteq> set ids \<and>
      (\<forall>i \<in> set ids - set todo. \<forall>q. seqs t i = Some q \<longrightarrow> is_finished (status q)) \<and>
      (\<forall>j. j \<notin> set ids \<longrightarrow> seqs t j = seqs s j))"
  have "I ids s" using inv by (simp add: I_def sched_inv_def)
  then have "\<exists>t. for_each (\<lambda>i. finish i Cancelled) ids s = Some t \<and> I [] t"
  proof (rule for_each_total)
    fix x xs t assume x: "I (x # xs) t"
    then obtain t' where t': "finish x Cancelled t = Some t'" "sinv (running t') {} t'" "finish_frame x t t'"
        "\<forall>q. seqs t' x = Some q \<longrightarrow> is_finished (status q)"
      using finish_ok [of t "{}" x Cancelled] by (auto simp: I_def)
    have "is_finished (status q)" if "i \<in> set ids - set xs" "seqs t' i = Some q" for i q
      using that t'(3,4) x by (cases "i = x") (auto simp: I_def finish_frame_def)
    moreover have "seqs t' j = seqs s j" if "j \<notin> set ids" for j
      using that t'(3) x unfolding I_def finish_frame_def by (metis list.set_intros(1) subsetD)
    ultimately have "I xs t'" using t'(2) x by (auto simp: I_def)
    with t'(1) show "\<exists>t'. finish x Cancelled t = Some t' \<and> I xs t'" by blast
  qed
  then have I: "I [] s'" using c Some by (auto simp: cancel_def)
  have "blocks q = []" if "seqs s' i = Some q" "is_finished (status q)" for i q
  proof -
    have inv': "sinv (running s') {} s'" using I by (simp add: I_def)
    from finished_not_queued(1) [OF inv' that] sinv_role [OF inv' that(1)] show ?thesis
      by (simp add: role_ok_def finished_ok_def)
  qed
  with I Some show ?thesis by (auto simp: I_def sched_inv_def sequences_of_def)
qed

end
