(* ===== verification/Scheduler_Fork.thy ===== *)
theory Scheduler_Fork
  imports Scheduler_Commit
begin

text \<open>
  Forking a prefilled sequence into further choices (\<open>fork\<close> and \<open>seed_fork\<close> of
  \<open>vapi-engine/src/scheduler.rs\<close>): the full blocks are shared by reference, the open block is
  private, and between the two calls the children are due their first token.
\<close>

section \<open>Taking references\<close>

lemma incref_all_ok:
  assumes "pool_inv p" "\<And>b. b \<in> set bs \<Longrightarrow> 0 < rc p b"
  shows "\<exists>p'. for_each incref bs p = Some p' \<and> pool_inv p' \<and> same_geometry p p' \<and>
      rc p' = (\<lambda>b. rc p b + count_list bs b) \<and> content p' = content p \<and> num_free p' = num_free p"
  using assms
proof (induction bs arbitrary: p)
  case (Cons b bs)
  obtain xs where "pool_ok p xs" using Cons.prems(1) by (auto simp: pool_inv_def)
  with incref_ok [of p xs b] Cons.prems(2) obtain p1 where p1: "incref b p = Some p1" "pool_ok p1 xs"
      "rc p1 = (rc p)(b := rc p b + 1)" "content p1 = content p" "same_geometry p p1" by auto
  have nf: "num_free p1 = num_free p"
    using p1(2) \<open>pool_ok p xs\<close> by (simp add: pool_ok_def)
  have "pool_inv p1" "\<And>c. c \<in> set bs \<Longrightarrow> 0 < rc p1 c"
    using p1(2,3) Cons.prems(2) by (auto simp: pool_inv_def)
  from Cons.IH [OF this] obtain p' where "for_each incref bs p1 = Some p'" "pool_inv p'"
      "same_geometry p1 p'" "rc p' = (\<lambda>b. rc p1 b + count_list bs b)" "content p' = content p1"
      "num_free p' = num_free p1" by blast
  with p1 nf same_geometry_trans [OF p1(5)] show ?case
    by (intro exI [of _ p']) (auto simp: fun_eq_iff)
qed auto

lemma allocate_guarded_ok:
  assumes "pool_inv p"
  obtains (refused) e where "allocate_guarded p = Some (Inl e, p)" "\<not> can_allocate p 1"
    | (taken) b q where "allocate_guarded p = Some (Inr b, q)" "can_allocate p 1" "pool_inv q" "same_geometry p q"
      "b < num_blocks p" "rc p b = 0" "rc q = (rc p)(b := 1)" "content q = (content p)(b := None)"
proof (cases "can_allocate p 1")
  case False
  with refused show thesis by (simp add: allocate_guarded_def)
next
  case True
  then have "0 < num_free p" by (simp add: can_allocate_def)
  with bp.take_some [OF assms] True taken show thesis by (auto simp: allocate_guarded_def)
qed

section \<open>One child\<close>

text \<open>A parent that can be forked: running, its whole prompt computed, its first token sampled.\<close>

definition forkable :: "scheduler \<Rightarrow> seq_id list \<Rightarrow> seq_id set \<Rightarrow> seq_id \<Rightarrow> sequence \<Rightarrow> bool" where
  "forkable s R D i q \<longleftrightarrow>
     seqs s i = Some q \<and> i \<in> set R \<and> i \<notin> D \<and> \<not> needs_prefill q \<and> num_computed q = prompt_len q"

definition child_of :: "sequence \<Rightarrow> block_id list \<Rightarrow> sequence" where
  "child_of q bs = adopt_prefilled bs (num_computed q) (num_cached_blocks q)
     (sequence_new (request_id q) (take (prompt_len q) (tokens q)) (params q) (seq_namespace q))"

definition add_child :: "sequence \<Rightarrow> block_id list \<Rightarrow> block_pool \<Rightarrow> scheduler \<Rightarrow> scheduler" where
  "add_child q bs p s =
     s\<lparr>pool := p, next_id := next_id s + 1, seqs := (seqs s)(next_id s \<mapsto> child_of q bs),
       by_request := push_request (request_id q) (next_id s) (by_request s),
       running := running s @ [next_id s]\<rparr>"

text \<open>
  The blocks of a child: the full blocks of the parent, and one private block when the parent has
  an open one.
\<close>

definition shares_prefix :: "scheduler \<Rightarrow> sequence \<Rightarrow> block_id list \<Rightarrow> block_id list \<Rightarrow> bool" where
  "shares_prefix s q bs priv \<longleftrightarrow>
     (let full = num_computed q div cfg_block_size (cfg s) in
        bs = take full (blocks q) @ priv \<and> length priv = (if full < length (blocks q) then 1 else 0) \<and>
        (\<forall>b \<in> set priv. rc (pool s) b = 0))"

lemma forkable_running:
  assumes "sinv R D s" "forkable s R D i q"
  shows "running_ok False (cfg s) (pool s) q" "tokens_ok q"
    "num_computed q div cfg_block_size (cfg s) \<le> length (blocks q)"
proof -
  have q: "seqs s i = Some q" "i \<in> set R" "i \<notin> D" using assms(2) by (auto simp: forkable_def)
  from sinv_running [OF assms(1) q(2)] q show r: "running_ok False (cfg s) (pool s) q" by auto
  show "tokens_ok q" by (rule sinv_tokens [OF assms(1) q(1)])
  have "num_computed q \<le> length (blocks q) * cfg_block_size (cfg s)" using r by (simp add: running_ok_def)
  then have "num_computed q div cfg_block_size (cfg s)
      \<le> length (blocks q) * cfg_block_size (cfg s) div cfg_block_size (cfg s)" by (rule div_le_mono)
  then show "num_computed q div cfg_block_size (cfg s) \<le> length (blocks q)"
    using sinv_block_size(2) [OF assms(1)] by simp
qed

lemma child_cover:
  assumes inv: "sinv R D s" and par: "forkable s R D i q" and sh: "shares_prefix s q bs priv"
  shows "num_computed q \<le> length bs * cfg_block_size (cfg s)"
proof -
  let ?bs = "cfg_block_size (cfg s)" and ?full = "num_computed q div cfg_block_size (cfg s)"
  have b0: "0 < ?bs" by (rule sinv_block_size [OF inv])
  note f = forkable_running [OF inv par]
  show ?thesis
  proof (cases "?full < length (blocks q)")
    case True
    then have "length bs = Suc ?full" using sh by (simp add: shares_prefix_def Let_def)
    then show ?thesis
      using dividend_less_div_times [OF b0, of "num_computed q"] by (simp add: add.commute less_imp_le)
  next
    case False
    then have "length bs = length (blocks q)" using sh f(3) by (simp add: shares_prefix_def Let_def)
    then show ?thesis using f(1) by (simp add: running_ok_def)
  qed
qed

lemma child_exclusive:
  assumes inv: "sinv R D s" and par: "forkable s R D i q" and sh: "shares_prefix s q bs priv"
    and p: "rc p = (\<lambda>b. rc (pool s) b + count_list bs b)"
      "\<And>b. content p b = (if b \<in> set priv then None else content (pool s) b)"
  shows "exclusive p (cfg_block_size (cfg s)) (child_of q bs)"
  unfolding exclusive_def
proof (intro allI impI)
  let ?full = "num_computed q div cfg_block_size (cfg s)"
  have q: "seqs s i = Some q" using par by (simp add: forkable_def)
  have bs: "bs = take ?full (blocks q) @ priv" "length priv \<le> 1" "\<forall>b \<in> set priv. rc (pool s) b = 0"
    using sh by (auto simp: shares_prefix_def Let_def)
  fix j assume j: "num_computed (child_of q bs) div cfg_block_size (cfg s) \<le> j \<and> j < length (blocks (child_of q bs))"
  let ?b = "bs ! j"
  have "?full \<le> j" "j < length bs" using j by (auto simp: child_of_def adopt_prefilled_def)
  then have b: "?b \<in> set priv" using bs(1) forkable_running(3) [OF inv par] by (simp add: nth_append)
  then have "rc (pool s) ?b = 0" using bs(3) by blast
  then have "?b \<notin> set (take ?full (blocks q))"
    using sinv_count_le [OF inv q, of ?b] by (metis count_list_0_iff in_set_takeD le_zero_eq)
  moreover have "count_list priv ?b = 1" using b bs(2) by (cases priv) auto
  ultimately have "count_list bs ?b = 1" using bs(1) by (metis count_list_0_iff count_list_append plus_nat.add_0)
  with \<open>rc (pool s) ?b = 0\<close> b p
  show "rc p (blocks (child_of q bs) ! j) = 1 \<and> content p (blocks (child_of q bs) ! j) = None"
    by (simp add: child_of_def adopt_prefilled_def)
qed

lemma child_keeps_owners:
  assumes inv: "sinv R D s" and par: "forkable s R D i q" and sh: "shares_prefix s q bs priv"
    and x: "seqs s j = Some r" "num_computed r div cfg_block_size (cfg s) \<le> k" "k < length (blocks r)"
      "rc (pool s) (blocks r ! k) = 1"
  shows "blocks r ! k \<notin> set bs"
proof -
  let ?full = "num_computed q div cfg_block_size (cfg s)"
  have q: "seqs s i = Some q" using par by (simp add: forkable_def)
  have bs: "bs = take ?full (blocks q) @ priv" "\<forall>b \<in> set priv. rc (pool s) b = 0"
    using sh by (auto simp: shares_prefix_def Let_def)
  have "blocks r ! k \<notin> set (take ?full (blocks q))"
  proof (cases "j = i")
    case True
    then have rq: "r = q" using x(1) q by simp
    have cnt: "count_list (blocks q) (blocks q ! k) \<le> 1"
      using sinv_count_le [OF inv q, of "blocks q ! k"] x(4) rq by simp
    show ?thesis
    proof
      assume "blocks r ! k \<in> set (take ?full (blocks q))"
      then obtain m where m: "m < ?full" "m < length (blocks q)" "blocks q ! m = blocks q ! k"
        using rq by (auto simp: in_set_conv_nth)
      have "k = m" by (rule unique_index [OF cnt]) (use x(3) m rq in simp_all)
      with m(1) x(2) rq show False by simp
    qed
  next
    case False
    have "blocks r ! k \<notin> set (blocks q)"
      by (rule sinv_only_owner [OF inv x(1) q False x(4)]) (use x(3) in simp)
    then show ?thesis using in_set_takeD by fast
  qed
  moreover have "blocks r ! k \<notin> set priv" using bs(2) x(4) by force
  ultimately show ?thesis using bs(1) by simp
qed

text \<open>Adding such a child keeps the invariant; the child is due its token.\<close>

lemma add_child_ok:
  assumes inv: "sinv (running s) D s" and par: "forkable s (running s) D i q"
    and sh: "shares_prefix s q bs priv"
    and p: "pool_inv p" "same_geometry (pool s) p" "rc p = (\<lambda>b. rc (pool s) b + count_list bs b)"
      "\<And>b. content p b = (if b \<in> set priv then None else content (pool s) b)"
  shows "sinv (running (add_child q bs p s)) (insert (next_id s) D) (add_child q bs p s)"
proof (rule sinv_insert [OF inv, where q' = "child_of q bs"])
  let ?s = "add_child q bs p s"
  have "next_id s \<notin> dom (seqs s)" using inv by (auto simp: sinv_def)
  then have nq: "next_id s \<notin> set (waiting s)" "next_id s \<notin> set (running s)" "next_id s \<notin> set (finished s)"
    using inv by (auto simp: sinv_def)
  note f = forkable_running [OF inv par]
  have pq: "num_computed q = prompt_len q" "\<not> needs_prefill q" using par by (auto simp: forkable_def)
  show "distinct (waiting ?s @ running ?s @ finished ?s)"
    using inv nq by (auto simp: add_child_def sinv_def)
  show "set (waiting ?s) \<union> set (running ?s) \<union> set (finished ?s) = insert (next_id s) (dom (seqs s))"
    using inv by (auto simp: add_child_def sinv_def)
  have "running_ok True (cfg s) p (child_of q bs)"
    using f(1,2) pq child_cover [OF inv par sh] child_exclusive [OF inv par sh p(3,4)]
    by (auto simp: running_ok_def child_of_def adopt_prefilled_def sequence_new_def tokens_ok_def)
  moreover have "tokens_ok (child_of q bs)"
    using f(1,2) pq
    by (auto simp: running_ok_def child_of_def adopt_prefilled_def sequence_new_def tokens_ok_def needs_prefill_iff)
  ultimately show "role_ok (cfg s) (pool ?s) (set (waiting ?s)) (set (running ?s)) (set (finished ?s))
      (insert (next_id s) D) (next_id s) (child_of q bs)"
    using nq by (simp add: role_ok_def add_child_def)
  show "blocks r ! k \<notin> set (blocks (child_of q bs)) \<and> content (pool ?s) (blocks r ! k) = None"
    if x: "seqs s j = Some r" "num_computed r div cfg_block_size (cfg s) \<le> k" "k < length (blocks r)"
      "rc (pool s) (blocks r ! k) = 1" "content (pool s) (blocks r ! k) = None" for j r k
    using child_keeps_owners [OF inv par sh x(1-4)] x(5) p(4)
    by (simp add: child_of_def adopt_prefilled_def add_child_def)
qed (use p in \<open>auto simp: add_child_def child_of_def adopt_prefilled_def\<close>)

section \<open>fork\<close>

lemma fork_child_ok:
  assumes inv: "sinv (running s) D s" and par: "forkable s (running s) D i q"
  obtains (refused) p e where
      "fork_loop q (cfg_block_size (cfg s)) (Suc extra) out s = Some (Inl e, s\<lparr>pool := p\<rparr>)"
      "rc p = (\<lambda>b. rc (pool s) b + count_list (take (num_computed q div cfg_block_size (cfg s)) (blocks q)) b)"
      "\<not> can_allocate (pool s) 1" "same_geometry (pool s) p"
    | (added) bs priv p out' where
      "fork_loop q (cfg_block_size (cfg s)) (Suc extra) out s
         = fork_loop q (cfg_block_size (cfg s)) extra out' (add_child q bs p s)"
      "fork_ids out' = fork_ids out @ [next_id s]" "shares_prefix s q bs priv"
      "sinv (running (add_child q bs p s)) (insert (next_id s) D) (add_child q bs p s)"
      "same_geometry (pool s) p" "num_free p + length priv = num_free (pool s)"
      "priv \<noteq> [] \<Longrightarrow> can_allocate (pool s) 1"
proof -
  let ?bs = "cfg_block_size (cfg s)" and ?full = "num_computed q div cfg_block_size (cfg s)"
  let ?child = "take ?full (blocks q)"
  have q: "seqs s i = Some q" using par by (simp add: forkable_def)
  note lf = forkable_running(3) [OF inv par]
  have pos: "0 < rc (pool s) b" if "b \<in> set ?child" for b
    using that sinv_count_le [OF inv q, of b] by (metis count_list_0_iff gr0I in_set_takeD le_zero_eq)
  from incref_all_ok [OF sinv_pool [OF inv] pos] obtain p1 where
      p1: "for_each incref ?child (pool s) = Some p1" "pool_inv p1" "same_geometry (pool s) p1"
        "rc p1 = (\<lambda>b. rc (pool s) b + count_list ?child b)" "content p1 = content (pool s)"
        "num_free p1 = num_free (pool s)" by blast
  show thesis
  proof (cases "?full < length (blocks q)")
    case False
    have sh: "shares_prefix s q ?child []" using False by (simp add: shares_prefix_def Let_def)
    have "sinv (running (add_child q ?child p1 s)) (insert (next_id s) D) (add_child q ?child p1 s)"
      by (rule add_child_ok [OF inv par sh p1(2,3,4)]) (simp add: p1(5))
    moreover have "fork_loop q ?bs (Suc extra) out s = fork_loop q ?bs extra
        (out\<lparr>fork_ids := fork_ids out @ [next_id s], fork_copies := fork_copies out @ []\<rparr>) (add_child q ?child p1 s)"
      using p1(1) False lf by (simp add: fork_open_block_def Let_def add_child_def child_of_def min_absorb1)
    ultimately show thesis using sh p1(3,6) by (intro added) auto
  next
    case True
    from p1(2) show thesis
    proof (cases rule: allocate_guarded_ok)
      case (refused e)
      have "\<not> can_allocate (pool s) 1"
        using refused(2) p1(3,6) by (simp add: can_allocate_def same_geometry_def)
      moreover have "fork_loop q ?bs (Suc extra) out s
          = Some (Inl (Engine_error (''fork: '' @ alloc_error_text e)), s\<lparr>pool := p1\<rparr>)"
        using p1(1) True refused(1) lf by (simp add: fork_open_block_def Let_def min_absorb1)
      ultimately show thesis using p1(3,4) that(1) by blast
    next
      case (taken b p2)
      have b0: "rc (pool s) b = 0" "count_list ?child b = 0" using taken(6) p1(4) by auto
      have sh: "shares_prefix s q (?child @ [b]) [b]" using True b0(1) by (simp add: shares_prefix_def Let_def)
      have geo: "same_geometry (pool s) p2" using p1(3) taken(4) by (rule same_geometry_trans)
      have "sinv (running (add_child q (?child @ [b]) p2 s)) (insert (next_id s) D) (add_child q (?child @ [b]) p2 s)"
        by (rule add_child_ok [OF inv par sh taken(3) geo])
           (use taken(7,8) p1(4,5) b0 in \<open>auto simp: fun_eq_iff\<close>)
      moreover have "fork_loop q ?bs (Suc extra) out s = fork_loop q ?bs extra
          (out\<lparr>fork_ids := fork_ids out @ [next_id s], fork_copies := fork_copies out @
             (if num_computed q mod ?bs \<noteq> 0 then [(blocks q ! ?full, b)] else [])\<rparr>)
          (add_child q (?child @ [b]) p2 s)"
        using p1(1) True taken(1) lf
        by (simp add: fork_open_block_def Let_def min_absorb1 run_simps add_child_def child_of_def)
      moreover have "num_free p1 = Suc (num_free p2)"
        using bp.available_take [OF p1(2) taken(3-7)] .
      moreover have "can_allocate (pool s) 1"
        using taken(2) p1(3,6) by (simp add: can_allocate_def same_geometry_def)
      ultimately show thesis using sh geo p1(6) by (intro added) auto
    qed
  qed
qed

text \<open>
  \<open>fork\<close> on a forkable parent returns; when it succeeds there is one child per extra choice, each
  due its first token.
\<close>

definition child_due :: "scheduler \<Rightarrow> sequence \<Rightarrow> seq_id \<Rightarrow> bool" where
  "child_due s q j \<longleftrightarrow>
     (\<exists>bs. seqs s j = Some (child_of q bs) \<and>
        take (num_computed q div cfg_block_size (cfg s)) bs
          = take (num_computed q div cfg_block_size (cfg s)) (blocks q))"

lemma fork_loop_ok:
  assumes "sinv (running s) D s" "forkable s (running s) D i q"
  shows "\<exists>r s'. fork_loop q (cfg_block_size (cfg s)) extra out s = Some (r, s') \<and> cfg s' = cfg s \<and>
      (\<forall>k. k < next_id s \<longrightarrow> seqs s' k = seqs s k) \<and>
      (\<forall>out'. r = Inr out' \<longrightarrow>
         (\<exists>ids. fork_ids out' = fork_ids out @ ids \<and> ids = [next_id s..<next_id s + extra] \<and>
            sinv (running s') (D \<union> set ids) s' \<and> running s' = running s @ ids \<and>
            (\<forall>j \<in> set ids. child_due s' q j)))"
  using assms
proof (induction extra arbitrary: s D out)
  case 0
  then show ?case by simp
next
  case (Suc extra)
  show ?case
  proof (rule fork_child_ok [OF Suc.prems, of extra out], goal_cases refused added)
    case refused: (refused p e)
    then show ?case by auto
  next
    case added: (added bs priv p out1)
    let ?s = "add_child q bs p s"
    have f: "seqs s i = Some q" "i \<in> set (running s)" "i \<notin> D" using Suc.prems(2) by (auto simp: forkable_def)
    have "i < next_id s" by (rule sinv_next_id [OF Suc.prems(1) f(1)])
    then have "forkable ?s (running ?s) (insert (next_id s) D) i q"
      using Suc.prems(2) by (auto simp: forkable_def add_child_def)
    from Suc.IH [OF added(4) this, of out1] obtain r s' where
        r: "fork_loop q (cfg_block_size (cfg ?s)) extra out1 ?s = Some (r, s')" "cfg s' = cfg ?s"
          "\<forall>k. k < next_id ?s \<longrightarrow> seqs s' k = seqs ?s k"
          "\<forall>out'. r = Inr out' \<longrightarrow>
             (\<exists>ids. fork_ids out' = fork_ids out1 @ ids \<and> ids = [next_id ?s..<next_id ?s + extra] \<and>
                sinv (running s') (insert (next_id s) D \<union> set ids) s' \<and> running s' = running ?s @ ids \<and>
                (\<forall>j \<in> set ids. child_due s' q j))" by blast
    have c: "cfg ?s = cfg s" "next_id ?s = Suc (next_id s)" "running ?s = running s @ [next_id s]"
        "seqs ?s (next_id s) = Some (child_of q bs)" "\<And>k. k < next_id s \<Longrightarrow> seqs ?s k = seqs s k"
      by (auto simp: add_child_def)
    have first: "child_due s' q (next_id s)"
      unfolding child_due_def using r(2,3) c added(3) forkable_running(3) [OF Suc.prems] by (intro exI [of _ bs]) (auto simp: shares_prefix_def Let_def)
    have "\<exists>ids. fork_ids out' = fork_ids out @ ids \<and> ids = [next_id s..<next_id s + Suc extra] \<and>
        sinv (running s') (D \<union> set ids) s' \<and> running s' = running s @ ids \<and> (\<forall>j \<in> set ids. child_due s' q j)"
      if "r = Inr out'" for out'
    proof -
      from r(4) that obtain ids where i: "fork_ids out' = fork_ids out1 @ ids"
          "ids = [next_id ?s..<next_id ?s + extra]" "sinv (running s') (insert (next_id s) D \<union> set ids) s'"
          "running s' = running ?s @ ids" "\<forall>j \<in> set ids. child_due s' q j" by blast
      have e: "next_id s # ids = [next_id s..<next_id s + Suc extra]"
        using i(2) c(2) by (simp add: upt_conv_Cons del: upt_Suc)
      show ?thesis
        by (intro exI [of _ "next_id s # ids"] conjI e) (use i(1,3-5) c(3) added(2) first in simp_all)
    qed
    moreover have "fork_loop q (cfg_block_size (cfg s)) (Suc extra) out s = Some (r, s')"
      using added(1) r(1) c(1) by (simp only:)
    moreover have "\<forall>k. k < next_id s \<longrightarrow> seqs s' k = seqs s k" using r(3) c(2,5) by simp
    moreover have "cfg s' = cfg s" using r(2) c(1) by simp
    ultimately show ?case by blast
  qed
qed

lemma fork_ok:
  assumes inv: "sinv (running s) D s" and par: "forkable s (running s) D i q"
  shows "\<exists>r s'. fork i extra s = Some (r, s') \<and>
      (\<forall>out. r = Inr out \<longrightarrow>
         fork_ids out = [next_id s..<next_id s + extra] \<and> running s' = running s @ fork_ids out \<and>
         sinv (running s') (D \<union> set (fork_ids out)) s' \<and> (\<forall>j \<in> set (fork_ids out). child_due s' q j) \<and>
         cfg s' = cfg s \<and> (\<forall>k. k < next_id s \<longrightarrow> seqs s' k = seqs s k))"
proof -
  have q: "seqs s i = Some q" "\<not> needs_prefill q" using par by (auto simp: forkable_def)
  have "prompt_len q \<le> length (tokens q)" using sinv_tokens [OF inv q(1)] by (simp add: tokens_ok_def)
  moreover have "0 < cfg_block_size (cfg s)" by (rule sinv_block_size [OF inv])
  ultimately have "fork i extra s = fork_loop q (cfg_block_size (cfg s)) extra \<lparr>fork_ids = [], fork_copies = []\<rparr> s"
    using q by (simp add: fork_def run_simps)
  with fork_loop_ok [OF inv par, of extra "\<lparr>fork_ids = [], fork_copies = []\<rparr>"] show ?thesis by auto
qed

text \<open>
  When the pool refuses the private block, the references just taken on the shared blocks are not
  given back: no sequence accounts for them.
\<close>

lemma fork_refused:
  assumes inv: "sinv (running s) D s" and par: "forkable s (running s) D i q"
    and full: "0 < num_computed q div cfg_block_size (cfg s)"
      "num_computed q div cfg_block_size (cfg s) < length (blocks q)"
    and short: "\<not> can_allocate (pool s) 1" and extra: "0 < extra"
  shows "\<exists>e s'. fork i extra s = Some (Inl e, s') \<and> seqs s' = seqs s \<and>
      rc (pool s') (blocks q ! 0) = rc (pool s) (blocks q ! 0) +
        count_list (take (num_computed q div cfg_block_size (cfg s)) (blocks q)) (blocks q ! 0) \<and>
      seq_refs s' (blocks q ! 0) < rc (pool s') (blocks q ! 0)"
proof -
  obtain n where n: "extra = Suc n" using extra by (cases extra) auto
  have q: "seqs s i = Some q" "\<not> needs_prefill q" using par by (auto simp: forkable_def)
  have "prompt_len q \<le> length (tokens q)" using sinv_tokens [OF inv q(1)] by (simp add: tokens_ok_def)
  moreover have "0 < cfg_block_size (cfg s)" by (rule sinv_block_size [OF inv])
  ultimately have fk: "fork i extra s = fork_loop q (cfg_block_size (cfg s)) (Suc n) \<lparr>fork_ids = [], fork_copies = []\<rparr> s"
    using q n by (simp add: fork_def run_simps)
  let ?child = "take (num_computed q div cfg_block_size (cfg s)) (blocks q)"
  have mem: "blocks q ! 0 \<in> set ?child" using full by (auto simp: in_set_conv_nth intro!: exI [of _ 0])
  have "\<exists>e p. fork i extra s = Some (Inl e, s\<lparr>pool := p\<rparr>) \<and> rc p = (\<lambda>b. rc (pool s) b + count_list ?child b)"
  proof -
    have pos: "0 < rc (pool s) b" if "b \<in> set ?child" for b
      using that sinv_count_le [OF inv q(1), of b] by (metis count_list_0_iff gr0I in_set_takeD le_zero_eq)
    from incref_all_ok [OF sinv_pool [OF inv] pos] obtain p where
        p: "for_each incref ?child (pool s) = Some p" "same_geometry (pool s) p" "num_free p = num_free (pool s)"
          "rc p = (\<lambda>b. rc (pool s) b + count_list ?child b)" by blast
    have "\<not> can_allocate p 1" using short p(2,3) by (simp add: can_allocate_def same_geometry_def)
    then show ?thesis
      using fk p full forkable_running(3) [OF inv par]
      by (auto simp: fork_open_block_def allocate_guarded_def Let_def min_absorb1)
  qed
  then obtain e p where e: "fork i extra s = Some (Inl e, s\<lparr>pool := p\<rparr>)"
      "rc p = (\<lambda>b. rc (pool s) b + count_list ?child b)" by blast
  have "0 < count_list ?child (blocks q ! 0)" using mem by (metis count_list_0_iff gr0I)
  moreover have "seq_refs (s\<lparr>pool := p\<rparr>) = seq_refs s" by (simp add: seq_refs_def blocks_of_def fun_eq_iff)
  ultimately show ?thesis
    using e sinv_rc [OF inv, of "blocks q ! 0"] by (intro exI [of _ e] exI [of _ "s\<lparr>pool := p\<rparr>"]) simp
qed

section \<open>seed\_fork\<close>

lemma seed_fork_ok:
  assumes inv: "sinv (running s) D s" and i: "i \<in> D" "i \<in> set (running s)" and q: "seqs s i = Some q"
    and ctx: "length (tokens q) + 1 < max_context (cfg s)"
  shows "\<exists>r s'. seed_fork i t s = Some (r, s') \<and> sinv (running s') (D - {i}) s' \<and> running s' = running s \<and>
      cfg s' = cfg s \<and> (\<forall>j. j \<noteq> i \<longrightarrow> seqs s' j = seqs s j)"
proof -
  let ?q1 = "push_token t q"
  let ?k = "blocks_for (pool s) (num_computed ?q1 + 1) - length (blocks ?q1)"
  from guarded.alloc_some_ok [OF sinv_pool [OF inv], of ?k] obtain e new p where
      p: "alloc_up_to allocate_guarded ?k (pool s) = Some (e, new, p)" "pool_inv p" "same_geometry (pool s) p"
        "distinct new" "\<forall>b \<in> set new. rc (pool s) b = 0" "rc p = (\<lambda>b. rc (pool s) b + count_list new b)"
        "content p = (\<lambda>b. if b \<in> set new then None else content (pool s) b)" by blast
  let ?q = "?q1\<lparr>blocks := blocks ?q1 @ new\<rparr>"
  let ?s = "s\<lparr>seqs := (seqs s)(i \<mapsto> ?q), pool := p\<rparr>"
  from sinv_running [OF inv i(2)] q i(1) have r: "running_ok True (cfg s) (pool s) q" by auto
  have tk: "tokens_ok q" by (rule sinv_tokens [OF inv q])
  have "exclusive (pool s) (cfg_block_size (cfg s)) ?q1"
    using r by (simp add: running_ok_def exclusive_def push_token_def)
  then have ex: "exclusive p (cfg_block_size (cfg s)) ?q"
    by (rule exclusive_extend [OF _ p(4)]) (use p in auto)
  have "sinv (running s) (D - {i}) ?s"
  proof (rule sinv_update [OF inv q, where q' = ?q])
    have d: "distinct (waiting s @ running s @ finished s)" using inv by (simp add: sinv_def)
    then show "distinct (waiting ?s @ running s @ finished ?s)" by simp
    have "i \<notin> set (waiting s)" "i \<notin> set (finished s)" using d i(2) by auto
    moreover have "running_ok False (cfg s) p ?q"
      using r tk ctx ex by (auto simp: running_ok_def push_token_def tokens_ok_def add_mult_distrib)
    moreover have "tokens_ok ?q" using tk by (simp add: tokens_ok_def push_token_def)
    ultimately show "role_ok (cfg s) (pool ?s) (set (waiting ?s)) (set (running s)) (set (finished ?s)) (D - {i}) i ?q"
      by (simp add: role_ok_def)
    show "c \<notin> set (blocks ?q) \<and> content (pool ?s) c = None"
      if "rc (pool s) c = 1" "content (pool s) c = None" "c \<notin> set (blocks q)" for c
      using that p(5,7) by (auto simp: push_token_def)
  qed (use p in \<open>auto simp: push_token_def\<close>)
  moreover have "\<exists>r. seed_fork i t s = Some (r, ?s)"
    using q p(1) by (simp add: seed_fork_def Let_def)
  ultimately show ?thesis by force
qed

end
