(* ===== verification/Mock_Backend.thy ===== *)
theory Mock_Backend
  imports Forward_Batch
begin

text \<open>
  The execution backend's block interface and its in-repository implementation \<open>MockBackend\<close>
  (\<open>vapi-engine/src/backend.rs\<close>).  The contract that the spill tier relies on is the locale
  \<open>kv_device\<close>: bytes that were imported into a block are exported from it again, and importing into
  one block leaves the others alone.  The mock is interpreted as an instance.  Sleeping to simulate a
  slow device is left out.
\<close>

record logits =
  l_data :: "f32 list"
  l_vocab_size :: nat

definition logits_row :: "nat \<Rightarrow> logits \<Rightarrow> f32 list option" where
  "logits_row i l =
     (if (i + 1) * l_vocab_size l \<le> length (l_data l)
      then Some (take (l_vocab_size l) (drop (i * l_vocab_size l) (l_data l))) else None)"

definition logits_rows :: "logits \<Rightarrow> nat" where
  "logits_rows l = (if l_vocab_size l = 0 then 0 else length (l_data l) div l_vocab_size l)"

record mock_backend =
  mb_spec :: model_spec
  mb_num_blocks :: nat
  mb_block_size :: nat
  script :: "token list"
  mb_step :: nat
  batches_seen :: "forward_batch list"
  recording :: bool
  fail_on_step :: "nat option"
  block_store_of :: "nat \<rightharpoonup> bytes"
  mb_block_bytes :: nat

definition mock_new :: "nat \<Rightarrow> nat \<Rightarrow> mock_backend" where
  "mock_new n bs =
     \<lparr>mb_spec = tiny_spec, mb_num_blocks = n, mb_block_size = bs, script = [], mb_step = 0, batches_seen = [],
      recording = False, fail_on_step = None, block_store_of = Map.empty, mb_block_bytes = 0\<rparr>"

definition with_script :: "token list \<Rightarrow> mock_backend \<Rightarrow> mock_backend" where
  "with_script ts b = b\<lparr>script := ts\<rparr>"

definition with_movable_blocks :: "nat \<Rightarrow> mock_backend \<Rightarrow> mock_backend" where
  "with_movable_blocks n b = b\<lparr>mb_block_bytes := n\<rparr>"

definition with_recording :: "mock_backend \<Rightarrow> mock_backend" where
  "with_recording b = b\<lparr>recording := True\<rparr>"

definition with_spec :: "model_spec \<Rightarrow> mock_backend \<Rightarrow> mock_backend" where
  "with_spec sp b = b\<lparr>mb_spec := sp\<rparr>"

definition failing_at :: "nat \<Rightarrow> mock_backend \<Rightarrow> mock_backend" where
  "failing_at k b = b\<lparr>fail_on_step := Some k\<rparr>"

definition stamp :: "nat \<Rightarrow> mock_backend \<Rightarrow> bytes" where
  "stamp block b = map (\<lambda>i. word_of_nat (block + i + mb_step b)) [0..<mb_block_bytes b]"

text \<open>The arithmetic on \<open>u32\<close> and the remainder by an empty vocabulary can panic.\<close>

definition next_token :: "mock_backend \<Rightarrow> token option" where
  "next_token b =
     (if script b = [] then
        do {
          x \<leftarrow> ensure (u32_of (mb_step b) * 7 + 1 < 2 ^ 32);
          ensure (u32_of (vocab_size (mb_spec b)) \<noteq> 0);
          Some ((u32_of (mb_step b) * 7 + 1) mod u32_of (vocab_size (mb_spec b)))
        }
      else Some (script b ! (mb_step b mod length (script b))))"

datatype mock_error = BadBatch batch_error | InjectedFailure | NotMovable | WrongSize nat nat

definition mock_export :: "mock_backend \<Rightarrow> block_id \<Rightarrow> mock_error + bytes" where
  "mock_export b i =
     (if mb_block_bytes b = 0 then Inl NotMovable
      else Inr (case block_store_of b i of Some bs \<Rightarrow> bs | None \<Rightarrow> replicate (mb_block_bytes b) 0))"

definition mock_import :: "block_id \<Rightarrow> bytes \<Rightarrow> mock_backend \<Rightarrow> mock_error + mock_backend" where
  "mock_import i bs b =
     (if mb_block_bytes b = 0 then Inl NotMovable
      else if length bs \<noteq> mb_block_bytes b then Inl (WrongSize (mb_block_bytes b) (length bs))
      else Inr (b\<lparr>block_store_of := (block_store_of b)(i \<mapsto> bs)\<rparr>))"

text \<open>Stand in for writing K/V: stamp every block the batch touches.\<close>

definition write_kv :: "forward_batch \<Rightarrow> mock_backend \<Rightarrow> mock_backend option" where
  "write_kv batch b =
     (if mb_block_bytes b > 0 then
        for_each (\<lambda>slot b. do {
            ensure (u32_of (mb_block_size b) \<noteq> 0);
            (let block = slot div u32_of (mb_block_size b)
             in Some (b\<lparr>block_store_of := (block_store_of b)(block \<mapsto> stamp block b)\<rparr>)) })
          (slot_mapping batch) b
      else Some b)"

text \<open>One one-hot row per requested logit.\<close>

definition one_hot :: "nat \<Rightarrow> nat \<Rightarrow> f32 list" where
  "one_hot vocab t = (replicate vocab (Fin 0))[t := Fin 100]"

definition mock_forward :: "forward_batch \<Rightarrow> mock_backend \<Rightarrow> ((mock_error + logits) \<times> mock_backend) option" where
  "mock_forward batch b =
     (case validate batch (mb_num_blocks b) (mb_block_size b) of
        Inl e \<Rightarrow> Some (Inl (BadBatch e), b)
      | Inr _ \<Rightarrow>
          if fail_on_step b = Some (mb_step b) then Some (Inl InjectedFailure, b\<lparr>mb_step := mb_step b + 1\<rparr>)
          else do {
            let b1 = (if recording b then b\<lparr>batches_seen := batches_seen b @ [batch]\<rparr> else b);
            b2 \<leftarrow> write_kv batch b1;
            let vocab = vocab_size (mb_spec b2);
            rows \<leftarrow> (if logits_indices batch = [] then Some []
                      else do {
                        t \<leftarrow> next_token b2;
                        ensure (vocab \<noteq> 0);
                        Some (replicate (length (logits_indices batch)) (one_hot vocab (t mod vocab))) });
            Some (Inr \<lparr>l_data = concat rows, l_vocab_size = vocab\<rparr>, b2\<lparr>mb_step := mb_step b2 + 1\<rparr>)
          })"

section \<open>The block interface\<close>

locale kv_device =
  fixes export_block :: "'b \<Rightarrow> block_id \<Rightarrow> 'e + bytes"
    and import_block :: "block_id \<Rightarrow> bytes \<Rightarrow> 'b \<Rightarrow> 'e + 'b"
  assumes import_own: "import_block i bs d = Inr d' \<Longrightarrow> export_block d' i = Inr bs"
    and import_other: "import_block i bs d = Inr d' \<Longrightarrow> j \<noteq> i \<Longrightarrow> export_block d' j = export_block d j"

interpretation mock: kv_device mock_export mock_import
  by unfold_locales (auto simp: mock_import_def mock_export_def split: if_splits option.splits)

section \<open>The forward pass\<close>

lemma write_kv_ok:
  assumes "0 < mb_block_size b" "mb_block_size b < 2 ^ 32"
  shows "\<exists>m. write_kv batch b = Some (b\<lparr>block_store_of := m\<rparr>)"
proof -
  have "\<exists>m. for_each (\<lambda>slot b. do {
            ensure (u32_of (mb_block_size b) \<noteq> 0);
            (let block = slot div u32_of (mb_block_size b)
             in Some (b\<lparr>block_store_of := (block_store_of b)(block \<mapsto> stamp block b)\<rparr>)) }) slots (b\<lparr>block_store_of := m0\<rparr>)
          = Some (b\<lparr>block_store_of := m\<rparr>)" for slots m0
    by (induction slots arbitrary: m0) (use assms in \<open>auto simp: ensure_def Let_def\<close>)
  from this [of "slot_mapping batch" "block_store_of b"] show ?thesis
    by (auto simp: write_kv_def intro: exI [of _ "block_store_of b"])
qed

lemma concat_replicate_row:
  "i < n \<Longrightarrow> length xs = v \<Longrightarrow> take v (drop (i * v) (concat (replicate n xs))) = xs"
proof (induction i arbitrary: n)
  case 0
  then show ?case by (cases n) auto
next
  case (Suc i)
  then show ?case by (cases n) auto
qed

lemma length_one_hot [simp]: "length (one_hot v t) = v"
  by (simp add: one_hot_def)

lemma mock_forward_ok:
  assumes "0 < mb_block_size b" "mb_block_size b < 2 ^ 32" "0 < vocab_size (mb_spec b)" "script b \<noteq> []"
    "fail_on_step b \<noteq> Some (mb_step b)"
  shows "case validate batch (mb_num_blocks b) (mb_block_size b) of
      Inl e \<Rightarrow> mock_forward batch b = Some (Inl (BadBatch e), b)
    | Inr _ \<Rightarrow> \<exists>l b'. mock_forward batch b = Some (Inr l, b') \<and> mb_step b' = Suc (mb_step b) \<and>
        logits_rows l = length (logits_indices batch) \<and>
        (\<forall>i<length (logits_indices batch). logits_row i l =
           Some (one_hot (vocab_size (mb_spec b)) (script b ! (mb_step b mod length (script b)) mod vocab_size (mb_spec b))))"
proof (cases "validate batch (mb_num_blocks b) (mb_block_size b)")
  case (Inl e)
  then show ?thesis by (simp add: mock_forward_def)
next
  case (Inr u)
  define c where "c = (if recording b then b\<lparr>batches_seen := batches_seen b @ [batch]\<rparr> else b)"
  have c: "mb_block_size c = mb_block_size b" "mb_spec c = mb_spec b" "script c = script b" "mb_step c = mb_step b"
    by (simp_all add: c_def)
  let ?v = "vocab_size (mb_spec b)" and ?n = "length (logits_indices batch)"
  let ?row = "one_hot ?v (script b ! (mb_step b mod length (script b)) mod ?v)"
  obtain m where m: "write_kv batch c = Some (c\<lparr>block_store_of := m\<rparr>)"
    using write_kv_ok [of c batch] assms c(1) by auto
  let ?l = "\<lparr>l_data = concat (replicate ?n ?row), l_vocab_size = ?v\<rparr>"
  let ?b' = "c\<lparr>block_store_of := m, mb_step := mb_step b + 1\<rparr>"
  have "mock_forward batch b = Some (Inr ?l, ?b')"
    unfolding mock_forward_def c_def [symmetric] using Inr assms m c by (simp add: next_token_def run_simps Let_def)
  moreover have "logits_rows ?l = ?n" using assms(3) by (simp add: logits_rows_def length_concat sum_list_replicate)
  moreover have "logits_row i ?l = Some ?row" if "i < ?n" for i
  proof -
    have "(i + 1) * ?v \<le> ?n * ?v" using that by (intro mult_le_mono1) simp
    then show ?thesis using concat_replicate_row [OF that length_one_hot]
      by (simp add: logits_row_def length_concat sum_list_replicate)
  qed
  moreover have "mb_step ?b' = Suc (mb_step b)" by simp
  ultimately show ?thesis unfolding Inr sum.case by blast
qed

end
