(* ===== verification/Spill_Store.thy ===== *)
theory Spill_Store
  imports Block_Hash
begin

text \<open>
  The spill tier of \<open>vapi-cache/src/spill.rs\<close>: evicted blocks in host memory and, past a cap, on
  disk, both in order of use.  The directory is the map \<open>files\<close> from hashes to the bytes of their
  \<open>.kv\<close> files, passed along with the store.  What the operating system makes of a write or a removal
  is the parameter \<open>disk_io\<close>: a write may succeed, be refused before the file is opened, or fail half
  way and leave a partial file under its final name; a removal may fail and leave the file behind.  A
  read fails when the file is gone.  A missing directory behind a disk
  entry and a byte counter that would go below zero are panics, \<open>None\<close>.
\<close>

record spill_stats =
  hits :: nat
  misses :: nat
  writes :: nat
  drops :: nat
  errors :: nat

record spill_store =
  ram :: "block_hash \<rightharpoonup> bytes"
  ram_lru :: "block_hash list"
  ram_max :: nat
  ram_bytes :: nat
  has_dir :: bool
  disk :: "block_hash \<rightharpoonup> nat"
  disk_lru :: "block_hash list"
  disk_max :: nat
  disk_bytes :: nat
  spill_stats :: spill_stats

type_synonym files = "block_hash \<rightharpoonup> bytes"

definition path :: "spill_store \<Rightarrow> unit option" where
  "path s = ensure (has_dir s)"

text \<open>What the disk does to the operations of one call.\<close>

datatype write_outcome = Written | Refused | Partial bytes

record disk_io =
  on_write :: "block_hash \<Rightarrow> write_outcome"
  removes :: "block_hash \<Rightarrow> bool"

definition reliable_disk :: disk_io where
  "reliable_disk = \<lparr>on_write = (\<lambda>_. Written), removes = (\<lambda>_. True)\<rparr>"

definition unlink_file :: "disk_io \<Rightarrow> block_hash \<Rightarrow> files \<Rightarrow> files" where
  "unlink_file io h fs = (if removes io h then fs(h := None) else fs)"

section \<open>Eviction\<close>

fun evict_disk_loop :: "disk_io \<Rightarrow> block_hash list \<Rightarrow> spill_store \<Rightarrow> files \<Rightarrow> (spill_store \<times> files) option" where
  "evict_disk_loop io [] s fs = Some (s\<lparr>disk_lru := []\<rparr>, fs)"
| "evict_disk_loop io (h # hs) s fs =
     (if disk_bytes s > disk_max s then
        do {
          path s;
          (case disk s h of
             None \<Rightarrow> evict_disk_loop io hs s (unlink_file io h fs)
           | Some len \<Rightarrow>
               do { b \<leftarrow> checked_sub (disk_bytes s) len;
                    evict_disk_loop io hs (s\<lparr>disk := (disk s)(h := None), disk_bytes := b\<rparr>) (unlink_file io h fs) })
        }
      else Some (s\<lparr>disk_lru := h # hs\<rparr>, fs))"

definition evict_disk :: "disk_io \<Rightarrow> spill_store \<Rightarrow> files \<Rightarrow> (spill_store \<times> files) option" where
  "evict_disk io s fs = evict_disk_loop io (disk_lru s) s fs"

definition count_error :: "spill_store \<Rightarrow> spill_store" where
  "count_error s = s\<lparr>spill_stats := (spill_stats s)\<lparr>errors := errors (spill_stats s) + 1\<rparr>\<rparr>"

definition to_disk ::
  "disk_io \<Rightarrow> block_hash \<Rightarrow> bytes \<Rightarrow> spill_store \<Rightarrow> files \<Rightarrow> (spill_store \<times> files) option" where
  "to_disk io h b s fs =
     (if \<not> has_dir s \<or> length b > disk_max s then
        Some (s\<lparr>spill_stats := (spill_stats s)\<lparr>drops := drops (spill_stats s) + 1\<rparr>\<rparr>, fs)
      else do {
        path s;
        case on_write io h of
          Written \<Rightarrow>
            evict_disk io (s\<lparr>disk := (disk s)(h \<mapsto> length b), disk_lru := disk_lru s @ [h],
                          disk_bytes := disk_bytes s + length b\<rparr>) (fs(h \<mapsto> b))
        | Refused \<Rightarrow> Some (count_error s, fs)
        | Partial c \<Rightarrow> Some (count_error s, fs(h \<mapsto> c))
      })"

fun evict_ram_loop ::
  "disk_io \<Rightarrow> block_hash list \<Rightarrow> spill_store \<Rightarrow> files \<Rightarrow> (spill_store \<times> files) option" where
  "evict_ram_loop io [] s fs = Some (s\<lparr>ram_lru := []\<rparr>, fs)"
| "evict_ram_loop io (h # hs) s fs =
     (if ram_bytes s > ram_max s then
        (case ram s h of
           None \<Rightarrow> evict_ram_loop io hs s fs
         | Some b \<Rightarrow>
             do { n \<leftarrow> checked_sub (ram_bytes s) (length b);
                  (s', fs') \<leftarrow> to_disk io h b (s\<lparr>ram := (ram s)(h := None), ram_bytes := n\<rparr>) fs;
                  evict_ram_loop io hs s' fs' })
      else Some (s\<lparr>ram_lru := h # hs\<rparr>, fs))"

definition evict_ram :: "disk_io \<Rightarrow> spill_store \<Rightarrow> files \<Rightarrow> (spill_store \<times> files) option" where
  "evict_ram io s fs = evict_ram_loop io (ram_lru s) s fs"

section \<open>The interface\<close>

definition empty_store :: "nat \<Rightarrow> nat \<Rightarrow> spill_store" where
  "empty_store rmax dmax =
     \<lparr>ram = Map.empty, ram_lru = [], ram_max = rmax, ram_bytes = 0, has_dir = False, disk = Map.empty,
      disk_lru = [], disk_max = dmax, disk_bytes = 0,
      spill_stats = \<lparr>hits = 0, misses = 0, writes = 0, drops = 0, errors = 0\<rparr>\<rparr>"

text \<open>
  A directory entry: the stem of its name, when it is text, and its length, when the operating system
  reports it.  \<open>listing = None\<close> is a directory that cannot be created or read.
\<close>

type_synonym dir_entry = "string option \<times> nat option"

definition index_entry :: "dir_entry \<Rightarrow> spill_store \<Rightarrow> spill_store option" where
  "index_entry = (\<lambda>(stem, len) s.
     case Option.bind stem from_hex of
       None \<Rightarrow> Some s
     | Some h \<Rightarrow>
         map_option (\<lambda>n. s\<lparr>disk := (disk s)(h \<mapsto> n), disk_lru := disk_lru s @ [h], disk_bytes := disk_bytes s + n\<rparr>) len)"

text \<open>The result is a panic, an I/O error (\<open>Inl\<close>) or the store with the files left.\<close>

definition open_store ::
  "disk_io \<Rightarrow> dir_entry list option option \<Rightarrow> nat \<Rightarrow> nat \<Rightarrow> files \<Rightarrow> (unit + spill_store \<times> files) option" where
  "open_store io dir rmax dmax fs =
     (case dir of
        Some listing \<Rightarrow>
          if dmax > 0 then
            (case listing of
               None \<Rightarrow> Some (Inl ())
             | Some entries \<Rightarrow>
                 (case for_each index_entry entries (empty_store rmax dmax) of
                    None \<Rightarrow> Some (Inl ())
                  | Some s \<Rightarrow> map_option Inr (evict_disk io (s\<lparr>has_dir := True\<rparr>) fs)))
          else Some (Inr (empty_store rmax dmax, fs))
      | None \<Rightarrow> Some (Inr (empty_store rmax dmax, fs)))"

definition spill_contains :: "spill_store \<Rightarrow> block_hash \<Rightarrow> bool" where
  "spill_contains s h = (ram s h \<noteq> None \<or> disk s h \<noteq> None)"

definition put ::
  "disk_io \<Rightarrow> block_hash \<Rightarrow> bytes \<Rightarrow> spill_store \<Rightarrow> files \<Rightarrow> (spill_store \<times> files) option" where
  "put io h b s fs =
     (if spill_contains s h then Some (s, fs)
      else if length b > ram_max s \<and> length b > disk_max s then
        Some (s\<lparr>spill_stats := (spill_stats s)\<lparr>drops := drops (spill_stats s) + 1\<rparr>\<rparr>, fs)
      else evict_ram io
             (s\<lparr>ram := (ram s)(h \<mapsto> b), ram_lru := ram_lru s @ [h], ram_bytes := ram_bytes s + length b,
                spill_stats := (spill_stats s)\<lparr>writes := writes (spill_stats s) + 1\<rparr>\<rparr>) fs)"

definition touch_ram :: "block_hash \<Rightarrow> spill_store \<Rightarrow> spill_store" where
  "touch_ram h s = s\<lparr>ram_lru := filter (\<lambda>x. x \<noteq> h) (ram_lru s) @ [h]\<rparr>"

definition touch_disk :: "block_hash \<Rightarrow> spill_store \<Rightarrow> spill_store" where
  "touch_disk h s = s\<lparr>disk_lru := filter (\<lambda>x. x \<noteq> h) (disk_lru s) @ [h]\<rparr>"

definition forget_disk :: "block_hash \<Rightarrow> spill_store \<Rightarrow> spill_store option" where
  "forget_disk h s =
     (case disk s h of
        None \<Rightarrow> Some (s\<lparr>disk_lru := filter (\<lambda>x. x \<noteq> h) (disk_lru s)\<rparr>)
      | Some len \<Rightarrow>
          do { n \<leftarrow> checked_sub (disk_bytes s) len;
               Some (s\<lparr>disk := (disk s)(h := None), disk_lru := filter (\<lambda>x. x \<noteq> h) (disk_lru s), disk_bytes := n\<rparr>) })"

definition hit :: "spill_store \<Rightarrow> spill_store" where
  "hit s = s\<lparr>spill_stats := (spill_stats s)\<lparr>hits := hits (spill_stats s) + 1\<rparr>\<rparr>"

definition miss :: "spill_store \<Rightarrow> spill_store" where
  "miss s = s\<lparr>spill_stats := (spill_stats s)\<lparr>misses := misses (spill_stats s) + 1\<rparr>\<rparr>"

definition get :: "block_hash \<Rightarrow> spill_store \<Rightarrow> files \<Rightarrow> (bytes option \<times> spill_store) option" where
  "get h s fs =
     (case ram s h of
        Some b \<Rightarrow> Some (Some b, hit (touch_ram h s))
      | None \<Rightarrow>
          (case disk s h of
             None \<Rightarrow> Some (None, miss s)
           | Some _ \<Rightarrow>
               do {
                 path s;
                 (case fs h of
                    Some b \<Rightarrow> Some (Some b, hit (touch_disk h s))
                  | None \<Rightarrow>
                      do { s' \<leftarrow> forget_disk h s;
                           Some (None, miss (count_error s')) })
               }))"

section \<open>The invariant\<close>

definition disk_sum :: "(block_hash \<rightharpoonup> nat) \<Rightarrow> block_hash list \<Rightarrow> nat" where
  "disk_sum d hs = (\<Sum>h\<leftarrow>hs. the (d h))"

definition ram_sum :: "(block_hash \<rightharpoonup> bytes) \<Rightarrow> block_hash list \<Rightarrow> nat" where
  "ram_sum r hs = (\<Sum>h\<leftarrow>hs. length (the (r h)))"

definition disk_ok :: "block_hash list \<Rightarrow> spill_store \<Rightarrow> bool" where
  "disk_ok hs s = (distinct hs \<and> dom (disk s) = set hs \<and> disk_bytes s = disk_sum (disk s) hs \<and>
     (hs \<noteq> [] \<longrightarrow> has_dir s))"

definition ram_ok :: "block_hash list \<Rightarrow> spill_store \<Rightarrow> bool" where
  "ram_ok hs s = (distinct hs \<and> dom (ram s) = set hs \<and> ram_bytes s = ram_sum (ram s) hs)"

definition spill_ok :: "spill_store \<Rightarrow> bool" where
  "spill_ok s = (ram_ok (ram_lru s) s \<and> disk_ok (disk_lru s) s \<and> dom (ram s) \<inter> dom (disk s) = {} \<and>
     ram_bytes s \<le> ram_max s \<and> disk_bytes s \<le> disk_max s)"

lemma disk_sum_upd [simp]: "h \<notin> set hs \<Longrightarrow> disk_sum (d(h := x)) hs = disk_sum d hs"
  unfolding disk_sum_def by (rule arg_cong [of _ _ sum_list], rule map_cong) auto

lemma ram_sum_upd [simp]: "h \<notin> set hs \<Longrightarrow> ram_sum (r(h := x)) hs = ram_sum r hs"
  unfolding ram_sum_def by (rule arg_cong [of _ _ sum_list], rule map_cong) auto

lemma sum_simps [simp]:
  "disk_sum d [] = 0" "disk_sum d (h # hs) = the (d h) + disk_sum d hs" "disk_sum d (hs @ hs') = disk_sum d hs + disk_sum d hs'"
  "ram_sum r [] = 0" "ram_sum r (h # hs) = length (the (r h)) + ram_sum r hs" "ram_sum r (hs @ hs') = ram_sum r hs + ram_sum r hs'"
  by (simp_all add: disk_sum_def ram_sum_def)

lemma disk_sum_filter: "distinct hs \<Longrightarrow> h \<in> set hs \<Longrightarrow> disk_sum d (filter (\<lambda>x. x \<noteq> h) hs) + the (d h) = disk_sum d hs"
  by (induction hs) auto

lemma ram_sum_filter:
  "distinct hs \<Longrightarrow> h \<in> set hs \<Longrightarrow> ram_sum r (filter (\<lambda>x. x \<noteq> h) hs) + length (the (r h)) = ram_sum r hs"
  by (induction hs) auto

text \<open>What eviction from disk keeps: everything but disk entries that leave from the front.\<close>

definition disk_shrinks :: "spill_store \<Rightarrow> files \<Rightarrow> spill_store \<Rightarrow> files \<Rightarrow> bool" where
  "disk_shrinks s fs s' fs' =
     (ram s' = ram s \<and> ram_lru s' = ram_lru s \<and> ram_bytes s' = ram_bytes s \<and> ram_max s' = ram_max s \<and>
      disk_max s' = disk_max s \<and> has_dir s' = has_dir s \<and> disk s' \<subseteq>\<^sub>m disk s \<and>
      (\<forall>h. h \<in> dom (disk s') \<or> h \<notin> dom (disk s) \<longrightarrow> fs' h = fs h))"

lemma evict_disk_loop_ok:
  "disk_ok hs s \<Longrightarrow> \<exists>s' fs'. evict_disk_loop io hs s fs = Some (s', fs') \<and> disk_ok (disk_lru s') s' \<and>
     disk_bytes s' \<le> disk_max s' \<and> disk_shrinks s fs s' fs'"
proof (induction hs arbitrary: s fs)
  case Nil
  then show ?case by (auto simp: disk_ok_def disk_shrinks_def)
next
  case (Cons h hs)
  show ?case
  proof (cases "disk_bytes s > disk_max s")
    case False
    with Cons.prems show ?thesis by (auto simp: disk_ok_def disk_shrinks_def)
  next
    case True
    from Cons.prems obtain len where len: "disk s h = Some len" by (auto simp: disk_ok_def)
    let ?s = "s\<lparr>disk := (disk s)(h := None), disk_bytes := disk_bytes s - len\<rparr>"
    from Cons.prems len have le: "len \<le> disk_bytes s" and ok: "disk_ok hs ?s" and dir: "has_dir s"
      by (auto simp: disk_ok_def)
    from Cons.IH [OF ok, of "unlink_file io h fs"] obtain s' fs' where
      s': "evict_disk_loop io hs ?s (unlink_file io h fs) = Some (s', fs')" "disk_ok (disk_lru s') s'"
      "disk_bytes s' \<le> disk_max s'" "disk_shrinks ?s (unlink_file io h fs) s' fs'" by blast
    have "disk_shrinks s fs s' fs'"
      using s'(4) len unfolding disk_shrinks_def map_le_def unlink_file_def
      by (simp add: dom_def split: if_splits) (metis option.distinct(1))+
    with True len le dir s' show ?thesis by (auto simp: path_def ensure_def checked_sub_run)
  qed
qed

section \<open>What a block's bytes are\<close>

definition held_bytes :: "spill_store \<Rightarrow> files \<Rightarrow> block_hash \<Rightarrow> bytes option" where
  "held_bytes s fs h = (case ram s h of Some b \<Rightarrow> Some b | None \<Rightarrow> if disk s h = None then None else fs h)"

definition files_ok :: "spill_store \<Rightarrow> files \<Rightarrow> bool" where
  "files_ok s fs = (\<forall>h n. disk s h = Some n \<longrightarrow> (\<exists>b. fs h = Some b \<and> length b = n))"

text \<open>Nothing is held afterwards under a hash that was not held with the same bytes before.\<close>

definition forgets :: "spill_store \<Rightarrow> files \<Rightarrow> spill_store \<Rightarrow> files \<Rightarrow> bool" where
  "forgets s fs s' fs' = (\<forall>h b. held_bytes s' fs' h = Some b \<longrightarrow> held_bytes s fs h = Some b)"

definition store_ok :: "block_hash list \<Rightarrow> spill_store \<Rightarrow> files \<Rightarrow> bool" where
  "store_ok hs s fs = (ram_ok hs s \<and> disk_ok (disk_lru s) s \<and> dom (ram s) \<inter> dom (disk s) = {} \<and>
     disk_bytes s \<le> disk_max s \<and> files_ok s fs)"

lemma forgets_trans: "forgets s fs s1 fs1 \<Longrightarrow> forgets s1 fs1 s2 fs2 \<Longrightarrow> forgets s fs s2 fs2"
  by (auto simp: forgets_def)

lemma disk_shrinks_forgets:
  assumes "disk_shrinks s fs s' fs'"
  shows "forgets s fs s' fs'" "files_ok s fs \<Longrightarrow> files_ok s' fs'"
proof -
  have sub: "disk s' h = Some n \<Longrightarrow> disk s h = Some n \<and> fs' h = fs h" for h n
    using assms by (auto simp: disk_shrinks_def map_le_def dom_def)
  then show "forgets s fs s' fs'" using assms
    by (auto simp: forgets_def held_bytes_def disk_shrinks_def split: option.splits if_splits)
  show "files_ok s fs \<Longrightarrow> files_ok s' fs'" using sub by (auto simp: files_ok_def)
qed

text \<open>Moving a block out of memory: the memory side is untouched, the disk side may take it over.\<close>

lemma to_disk_ok:
  assumes ok: "store_ok hs s fs" and h: "ram s h = None" "disk s h = None"
  shows "\<exists>s' fs'. to_disk io h b s fs = Some (s', fs') \<and> store_ok hs s' fs' \<and> ram s' = ram s \<and>
    ram_max s' = ram_max s \<and> ram_bytes s' = ram_bytes s \<and> disk_max s' = disk_max s \<and>
    (\<forall>k c. held_bytes s' fs' k = Some c \<longrightarrow> held_bytes s fs k = Some c \<or> k = h \<and> c = b)"
proof -
  consider (drop) "\<not> has_dir s \<or> length b > disk_max s"
    | (err) "has_dir s" "length b \<le> disk_max s" "on_write io h \<noteq> Written"
    | (keep) "has_dir s" "length b \<le> disk_max s" "on_write io h = Written" by linarith
  then show ?thesis
  proof cases
    case drop
    with ok show ?thesis
      by (auto simp: to_disk_def store_ok_def ram_ok_def disk_ok_def files_ok_def held_bytes_def)
  next
    case err
    with ok h show ?thesis
      by (cases "on_write io h")
         (auto simp: to_disk_def count_error_def store_ok_def ram_ok_def disk_ok_def files_ok_def held_bytes_def path_def
           ensure_def split: option.splits if_splits)
  next
    case keep
    let ?s = "s\<lparr>disk := (disk s)(h \<mapsto> length b), disk_lru := disk_lru s @ [h], disk_bytes := disk_bytes s + length b\<rparr>"
    let ?fs = "fs(h \<mapsto> b)"
    have hn: "h \<notin> set (disk_lru s)"
      using ok h(2) unfolding store_ok_def disk_ok_def by (metis domD option.distinct(1))
    from ok hn keep have "disk_ok (disk_lru ?s) ?s" by (auto simp: store_ok_def disk_ok_def)
    from evict_disk_loop_ok [OF this, of io ?fs] obtain s' fs' where
      s': "evict_disk io ?s ?fs = Some (s', fs')" "disk_ok (disk_lru s') s'" "disk_bytes s' \<le> disk_max s'"
      "disk_shrinks ?s ?fs s' fs'" unfolding evict_disk_def by blast
    have fo: "files_ok ?s ?fs" using ok by (auto simp: store_ok_def files_ok_def)
    have sub: "dom (disk s') \<subseteq> insert h (dom (disk s))" using s'(4) by (auto simp: disk_shrinks_def dest!: map_le_implies_dom_le)
    have "store_ok hs s' fs'"
      using ok s' disk_shrinks_forgets(2) [OF s'(4) fo] sub h(1)
      by (auto simp: store_ok_def ram_ok_def disk_shrinks_def)
    moreover have "held_bytes s fs k = Some c \<or> k = h \<and> c = b" if "held_bytes s' fs' k = Some c" for k c
    proof -
      from disk_shrinks_forgets(1) [OF s'(4)] that have "held_bytes ?s ?fs k = Some c" by (auto simp: forgets_def)
      then show ?thesis using h by (auto simp: held_bytes_def split: option.splits if_splits)
    qed
    ultimately show ?thesis using keep s'(1,4)
      by (auto simp: to_disk_def path_def ensure_def disk_shrinks_def)
  qed
qed

lemma evict_ram_loop_ok:
  "store_ok hs s fs \<Longrightarrow> \<exists>s' fs'. evict_ram_loop io hs s fs = Some (s', fs') \<and> spill_ok s' \<and> files_ok s' fs' \<and>
     ram_max s' = ram_max s \<and> disk_max s' = disk_max s \<and> forgets s fs s' fs' \<and>
     (\<forall>b. hs \<noteq> [] \<and> ram s (last hs) = Some b \<and> length b \<le> ram_max s \<longrightarrow> ram s' (last hs) = Some b)"
proof (induction hs arbitrary: s fs)
  case Nil
  then show ?case
    by (auto simp: store_ok_def spill_ok_def ram_ok_def disk_ok_def forgets_def held_bytes_def files_ok_def)
next
  case (Cons h hs)
  show ?case
  proof (cases "ram_bytes s > ram_max s")
    case False
    with Cons.prems show ?thesis
      by (auto simp: store_ok_def spill_ok_def ram_ok_def disk_ok_def forgets_def held_bytes_def files_ok_def)
  next
    case True
    from Cons.prems obtain b where b: "ram s h = Some b"
      unfolding store_ok_def ram_ok_def by (metis domD list.set_intros(1))
    let ?s = "s\<lparr>ram := (ram s)(h := None), ram_bytes := ram_bytes s - length b\<rparr>"
    from Cons.prems b have le: "length b \<le> ram_bytes s" and ok: "store_ok hs ?s fs" and hd: "disk s h = None"
      by (auto simp: store_ok_def ram_ok_def disk_ok_def files_ok_def)
    from to_disk_ok [OF ok, of h io b] hd obtain s1 fs1 where
      s1: "to_disk io h b ?s fs = Some (s1, fs1)" "store_ok hs s1 fs1" "ram s1 = (ram s)(h := None)"
      "ram_max s1 = ram_max s" "disk_max s1 = disk_max s"
      "\<forall>k c. held_bytes s1 fs1 k = Some c \<longrightarrow> held_bytes ?s fs k = Some c \<or> k = h \<and> c = b"
      by auto
    have f1: "forgets s fs s1 fs1"
      unfolding forgets_def
    proof (intro allI impI)
      fix k c assume "held_bytes s1 fs1 k = Some c"
      with s1(6) have "held_bytes ?s fs k = Some c \<or> k = h \<and> c = b" by blast
      then show "held_bytes s fs k = Some c"
        using b hd by (cases "k = h") (auto simp: held_bytes_def split: option.splits if_splits)
    qed
    from Cons.IH [OF s1(2)] obtain s' fs' where
      s': "evict_ram_loop io hs s1 fs1 = Some (s', fs')" "spill_ok s'" "files_ok s' fs'"
      "ram_max s' = ram_max s" "disk_max s' = disk_max s" "forgets s1 fs1 s' fs'"
      "\<forall>b. hs \<noteq> [] \<and> ram s1 (last hs) = Some b \<and> length b \<le> ram_max s1 \<longrightarrow> ram s' (last hs) = Some b"
      using s1(4,5) by auto
    have "ram s' (last (h # hs)) = Some c" if "ram s (last (h # hs)) = Some c" "length c \<le> ram_max s" for c
    proof (cases "hs = []")
      case True
      with that b Cons.prems \<open>ram_bytes s > ram_max s\<close> show ?thesis by (auto simp: store_ok_def ram_ok_def)
    next
      case False
      then have "last hs \<noteq> h" using Cons.prems by (auto simp: store_ok_def ram_ok_def)
      with False that s'(7) s1(3,4) show ?thesis by auto
    qed
    moreover have "evict_ram_loop io (h # hs) s fs = Some (s', fs')"
      using True b le s1(1) s'(1) by (simp add: checked_sub_run)
    ultimately show ?thesis using s' forgets_trans [OF f1] by blast
  qed
qed

lemma put_ok:
  assumes "spill_ok s" "files_ok s fs"
  shows "\<exists>s' fs'. put io h b s fs = Some (s', fs') \<and> spill_ok s' \<and> files_ok s' fs' \<and>
    ram_max s' = ram_max s \<and> disk_max s' = disk_max s \<and>
    (\<forall>k c. held_bytes s' fs' k = Some c \<longrightarrow> held_bytes s fs k = Some c \<or> (k = h \<and> c = b \<and> \<not> spill_contains s h)) \<and>
    (\<not> spill_contains s h \<and> length b \<le> ram_max s \<longrightarrow> ram s' h = Some b)"
proof (cases "spill_contains s h \<or> (length b > ram_max s \<and> length b > disk_max s)")
  case True
  with assms show ?thesis
    by (auto simp: put_def spill_ok_def ram_ok_def disk_ok_def files_ok_def held_bytes_def)
next
  case False
  let ?s = "s\<lparr>ram := (ram s)(h \<mapsto> b), ram_lru := ram_lru s @ [h], ram_bytes := ram_bytes s + length b,
              spill_stats := (spill_stats s)\<lparr>writes := writes (spill_stats s) + 1\<rparr>\<rparr>"
  from False assms(1) have "h \<notin> set (ram_lru s)" "h \<notin> set (disk_lru s)"
    unfolding spill_ok_def ram_ok_def disk_ok_def spill_contains_def by (metis domD option.distinct(1))+
  with False assms have "store_ok (ram_lru s @ [h]) ?s fs"
    by (auto simp: store_ok_def spill_ok_def ram_ok_def disk_ok_def files_ok_def spill_contains_def)
  from evict_ram_loop_ok [OF this, of io] obtain s' fs' where
    s': "evict_ram io ?s fs = Some (s', fs')" "spill_ok s'" "files_ok s' fs'" "ram_max s' = ram_max s"
    "disk_max s' = disk_max s" "forgets ?s fs s' fs'" "length b \<le> ram_max s \<Longrightarrow> ram s' h = Some b"
    by (auto simp: evict_ram_def)
  have "held_bytes s fs k = Some c \<or> (k = h \<and> c = b)" if "held_bytes s' fs' k = Some c" for k c
  proof -
    from s'(6) that have "held_bytes ?s fs k = Some c" by (auto simp: forgets_def)
    then show ?thesis by (auto simp: held_bytes_def split: if_splits option.splits)
  qed
  with False s' show ?thesis by (auto simp: put_def)
qed

lemma get_ok:
  assumes "spill_ok s" "files_ok s fs"
  shows "\<exists>s'. get h s fs = Some (held_bytes s fs h, s') \<and> spill_ok s' \<and> files_ok s' fs \<and>
    ram s' = ram s \<and> disk s' = disk s \<and> ram_max s' = ram_max s"
proof -
  have r: "ram_sum r (filter (\<lambda>x. x \<noteq> h) (ram_lru s) @ [h]) = ram_sum r (ram_lru s)" if "h \<in> set (ram_lru s)" for r
    using ram_sum_filter [OF _ that] assms(1) by (simp add: spill_ok_def ram_ok_def)
  have d: "disk_sum d (filter (\<lambda>x. x \<noteq> h) (disk_lru s) @ [h]) = disk_sum d (disk_lru s)" if "h \<in> set (disk_lru s)" for d
    using disk_sum_filter [OF _ that] assms(1) by (simp add: spill_ok_def disk_ok_def)
  show ?thesis
  proof (cases "ram s h")
    case (Some b)
    then have h: "h \<in> set (ram_lru s)" using assms(1) by (auto simp: spill_ok_def ram_ok_def)
    have "spill_ok (hit (touch_ram h s))"
      using assms(1) h r [OF h] unfolding spill_ok_def ram_ok_def disk_ok_def hit_def touch_ram_def by auto
    with Some assms(2) show ?thesis by (auto simp: get_def held_bytes_def files_ok_def hit_def touch_ram_def)
  next
    case None
    show ?thesis
    proof (cases "disk s h")
      case N: None
      with None assms show ?thesis
        by (auto simp: get_def held_bytes_def miss_def spill_ok_def ram_ok_def disk_ok_def files_ok_def)
    next
      case (Some n)
      then have h: "h \<in> set (disk_lru s)" using assms(1) by (auto simp: spill_ok_def disk_ok_def)
      from Some assms(2) obtain b where b: "fs h = Some b" by (auto simp: files_ok_def)
      have "has_dir s" using assms(1) h by (auto simp: spill_ok_def disk_ok_def)
      moreover have "spill_ok (hit (touch_disk h s))"
        using assms(1) h d [OF h] unfolding spill_ok_def ram_ok_def disk_ok_def hit_def touch_disk_def by auto
      ultimately show ?thesis using Some None b assms(2)
        by (auto simp: get_def held_bytes_def files_ok_def hit_def touch_disk_def path_def ensure_def)
    qed
  qed
qed

lemma empty_store_ok: "spill_ok (empty_store rmax dmax)" "files_ok (empty_store rmax dmax) fs"
  by (simp_all add: spill_ok_def ram_ok_def disk_ok_def empty_store_def files_ok_def)

section \<open>Opening a directory\<close>

text \<open>
  A listing that describes the directory: the entries whose stems are hashes have distinct hashes and
  the length of the file of that hash.
\<close>

definition entry_hashes :: "dir_entry list \<Rightarrow> block_hash list" where
  "entry_hashes es = List.map_filter (\<lambda>e. Option.bind (fst e) from_hex) es"

definition listing_ok :: "dir_entry list \<Rightarrow> files \<Rightarrow> bool" where
  "listing_ok es fs =
     (distinct (entry_hashes es) \<and>
      (\<forall>(stem, len) \<in> set es. \<forall>h. Option.bind stem from_hex = Some h \<longrightarrow>
         (\<exists>b. fs h = Some b \<and> len = Some (length b))))"

lemma index_entries_ok:
  assumes "\<forall>(stem, len) \<in> set es. \<forall>h. Option.bind stem from_hex = Some h \<longrightarrow> (\<exists>b. fs h = Some b \<and> len = Some (length b))"
    "distinct (entry_hashes es)" "set (entry_hashes es) \<inter> set (disk_lru s) = {}" "has_dir s" "disk_ok (disk_lru s) s" "files_ok s fs"
  shows "\<exists>s'. for_each index_entry es s = Some s' \<and> disk_ok (disk_lru s') s' \<and> files_ok s' fs \<and>
    disk_lru s' = disk_lru s @ entry_hashes es \<and>
    s' = s\<lparr>disk := disk s', disk_lru := disk_lru s', disk_bytes := disk_bytes s'\<rparr>"
  using assms
proof (induction es arbitrary: s)
  case Nil
  then show ?case by (simp add: entry_hashes_def map_filter_simps)
next
  case (Cons e es)
  obtain stem len where e: "e = (stem, len)" by fastforce
  show ?case
  proof (cases "Option.bind stem from_hex")
    case None
    then have "entry_hashes (e # es) = entry_hashes es" by (simp add: entry_hashes_def map_filter_simps e)
    with Cons None show ?thesis by (auto simp: index_entry_def e)
  next
    case (Some h)
    then have eh: "entry_hashes (e # es) = h # entry_hashes es" by (simp add: entry_hashes_def map_filter_simps e)
    from Some Cons.prems(1) e obtain b where b: "fs h = Some b" "len = Some (length b)" by auto
    let ?s = "s\<lparr>disk := (disk s)(h \<mapsto> length b), disk_lru := disk_lru s @ [h], disk_bytes := disk_bytes s + length b\<rparr>"
    have run: "index_entry e s = Some ?s" using Some b by (simp add: index_entry_def e)
    have h: "h \<notin> set (disk_lru s)" using Cons.prems(3) eh by auto
    have "disk_ok (disk_lru ?s) ?s" using Cons.prems(4,5) h by (auto simp: disk_ok_def)
    moreover have "files_ok ?s fs" using Cons.prems(6) b by (auto simp: files_ok_def)
    moreover have "set (entry_hashes es) \<inter> set (disk_lru ?s) = {}" "distinct (entry_hashes es)" "has_dir ?s"
      using Cons.prems(2-4) eh by auto
    ultimately obtain s' where "for_each index_entry es ?s = Some s'" "disk_ok (disk_lru s') s'" "files_ok s' fs"
      "disk_lru s' = disk_lru ?s @ entry_hashes es"
      "s' = ?s\<lparr>disk := disk s', disk_lru := disk_lru s', disk_bytes := disk_bytes s'\<rparr>"
      using Cons.IH [of ?s] Cons.prems(1) by auto
    with run eh show ?thesis by auto
  qed
qed

lemma index_entries_dir:
  "for_each index_entry es (s\<lparr>has_dir := True\<rparr>) = map_option (\<lambda>s. s\<lparr>has_dir := True\<rparr>) (for_each index_entry es s)"
proof (induction es arbitrary: s)
  case (Cons e es)
  have "index_entry e (s\<lparr>has_dir := True\<rparr>) = map_option (\<lambda>s. s\<lparr>has_dir := True\<rparr>) (index_entry e s)"
    by (cases e; cases "snd e") (auto simp: index_entry_def split: option.splits)
  with Cons.IH show ?case by (cases "index_entry e s") auto
qed simp

lemma open_store_ok:
  assumes "listing_ok es fs" "0 < dmax"
  shows "\<exists>s fs'. open_store io (Some (Some es)) rmax dmax fs = Some (Inr (s, fs')) \<and> spill_ok s \<and> files_ok s fs' \<and>
    ram_max s = rmax \<and> disk_max s = dmax \<and>
    (\<forall>h b. held_bytes s fs' h = Some b \<longrightarrow> h \<in> set (entry_hashes es) \<and> fs h = Some b)"
proof -
  let ?e = "(empty_store rmax dmax)\<lparr>has_dir := True\<rparr>"
  have "disk_ok (disk_lru ?e) ?e" "files_ok ?e fs" "set (entry_hashes es) \<inter> set (disk_lru ?e) = {}"
    by (simp_all add: disk_ok_def files_ok_def empty_store_def)
  with index_entries_ok [of es fs ?e] assms(1) obtain s where s: "for_each index_entry es ?e = Some s"
    "disk_ok (disk_lru s) s" "files_ok s fs" "disk_lru s = entry_hashes es"
    "s = ?e\<lparr>disk := disk s, disk_lru := disk_lru s, disk_bytes := disk_bytes s\<rparr>"
    by (auto simp: listing_ok_def empty_store_def)
  from s(1) obtain s0 where s0: "for_each index_entry es (empty_store rmax dmax) = Some s0" "s = s0\<lparr>has_dir := True\<rparr>"
    by (auto simp: index_entries_dir)
  have m: "ram s = Map.empty" "ram_lru s = []" "ram_bytes s = 0" "ram_max s = rmax" "disk_max s = dmax"
    by (subst s(5), simp add: empty_store_def)+
  from evict_disk_loop_ok [OF s(2), of io fs] obtain s' fs' where s': "evict_disk io s fs = Some (s', fs')"
    "disk_ok (disk_lru s') s'" "disk_bytes s' \<le> disk_max s'" "disk_shrinks s fs s' fs'" unfolding evict_disk_def by blast
  have "spill_ok s'" using s'(2-4) m by (auto simp: spill_ok_def ram_ok_def disk_shrinks_def)
  moreover have "open_store io (Some (Some es)) rmax dmax fs = Some (Inr (s', fs'))"
    using assms(2) s0 s'(1) by (simp add: open_store_def)
  moreover have "h \<in> set (entry_hashes es) \<and> fs h = Some b" if "held_bytes s' fs' h = Some b" for h b
  proof -
    have "held_bytes s fs h = Some b" using that disk_shrinks_forgets(1) [OF s'(4)] by (auto simp: forgets_def)
    then show ?thesis using m(1) s(2,4) by (auto simp: held_bytes_def disk_ok_def split: if_splits)
  qed
  ultimately show ?thesis using disk_shrinks_forgets(2) [OF s'(4) s(3)] s'(4) m by (auto simp: disk_shrinks_def)
qed

section \<open>Runs of the store\<close>

text \<open>
  \<open>K h b\<close> says that the bytes \<open>b\<close> belong to the hash \<open>h\<close>.  \<open>store_coherent K\<close>: the invariant, and
  whatever is held under a hash belongs to it.  A run opens the store, on nothing or on a directory
  whose files are named after their content, and then puts and gets.
\<close>

definition store_coherent :: "(block_hash \<Rightarrow> bytes \<Rightarrow> bool) \<Rightarrow> spill_store \<Rightarrow> files \<Rightarrow> bool" where
  "store_coherent K s fs =
     (spill_ok s \<and> files_ok s fs \<and> (\<forall>h b. held_bytes s fs h = Some b \<longrightarrow> K h b))"

inductive spill_run :: "(block_hash \<Rightarrow> bytes \<Rightarrow> bool) \<Rightarrow> spill_store \<Rightarrow> files \<Rightarrow> bool" for K where
  run_empty: "open_store io None rmax dmax fs = Some (Inr (s, fs')) \<Longrightarrow> spill_run K s fs'"
| run_open: "listing_ok es fs \<Longrightarrow> \<forall>h\<in>set (entry_hashes es). \<forall>b. fs h = Some b \<longrightarrow> K h b \<Longrightarrow> 0 < dmax \<Longrightarrow>
    open_store io (Some (Some es)) rmax dmax fs = Some (Inr (s, fs')) \<Longrightarrow> spill_run K s fs'"
| run_put: "spill_run K s fs \<Longrightarrow> K h b \<Longrightarrow> put io h b s fs = Some (s', fs') \<Longrightarrow> spill_run K s' fs'"
| run_get: "spill_run K s fs \<Longrightarrow> get h s fs = Some (r, s') \<Longrightarrow> spill_run K s' fs"

lemma store_coherent_put:
  assumes "store_coherent K s fs" "K h b"
  shows "\<exists>s' fs'. put io h b s fs = Some (s', fs') \<and> store_coherent K s' fs'"
  using put_ok [of s fs io h b] assms unfolding store_coherent_def by blast

lemma store_coherent_get:
  assumes "store_coherent K s fs"
  shows "\<exists>r s'. get h s fs = Some (r, s') \<and> store_coherent K s' fs \<and> (\<forall>b. r = Some b \<longrightarrow> K h b) \<and>
    held_bytes s' fs = held_bytes s fs \<and> r = held_bytes s fs h"
proof -
  from assms get_ok [of s fs h] obtain s' where s': "get h s fs = Some (held_bytes s fs h, s')" "spill_ok s'" "files_ok s' fs"
    "ram s' = ram s" "disk s' = disk s" unfolding store_coherent_def by blast
  then have "held_bytes s' fs = held_bytes s fs" by (auto simp: held_bytes_def fun_eq_iff)
  with s' assms show ?thesis unfolding store_coherent_def by auto
qed

lemma spill_run_coherent: "spill_run K s fs \<Longrightarrow> store_coherent K s fs"
proof (induction rule: spill_run.induct)
  case (run_empty io rmax dmax fs s fs')
  then show ?case using empty_store_ok [of rmax dmax]
    by (auto simp: open_store_def store_coherent_def held_bytes_def empty_store_def)
next
  case (run_open es fs dmax io rmax s fs')
  from open_store_ok [OF run_open(1,3), of io rmax] run_open(4)
  have "spill_ok s" "files_ok s fs'" "\<forall>h b. held_bytes s fs' h = Some b \<longrightarrow> h \<in> set (entry_hashes es) \<and> fs h = Some b"
    by auto
  with run_open(2) show ?case unfolding store_coherent_def by blast
next
  case (run_put s fs h b io s' fs')
  then show ?case using store_coherent_put [of K s fs h b io] by auto
next
  case (run_get s fs h r s')
  then show ?case using store_coherent_get [of K s fs h] by auto
qed

end
