(* ===== verification/Spill_Tier.thy ===== *)
theory Spill_Tier
  imports Mock_Backend Spill_Store Pool_Refinement
begin

text \<open>
  How the worker moves blocks between the pool and the spill tier (\<open>spill_evicted\<close> and
  \<open>promote_from_spill\<close> of \<open>vapi-worker/src/engine.rs\<close>).  The backend is any device with the
  interface \<open>kv_device\<close>.  \<open>None\<close> is a panic in the pool or the store; log lines and metrics are left
  out.

  The theory shows that the tier never serves wrong bytes: if every cached block, every eviction not
  yet saved and every spilled block holds the content that belongs to its hash, it still does after
  each of the two operations, and promotion takes no reference.
\<close>

record 'b tier =
  t_pool :: block_pool
  t_spill :: "spill_store option"
  t_files :: files
  t_dev :: 'b

definition spill_one ::
  "('b \<Rightarrow> block_id \<Rightarrow> 'e + bytes) \<Rightarrow> disk_io \<Rightarrow> 'b \<Rightarrow> block_hash \<times> block_id \<Rightarrow>
   spill_store \<times> files \<Rightarrow> (spill_store \<times> files) option" where
  "spill_one ex io d = (\<lambda>(h, i) (s, fs).
     if spill_contains s h then Some (s, fs)
     else case ex d i of Inl _ \<Rightarrow> Some (s, fs) | Inr b \<Rightarrow> put io h b s fs)"

definition spill_evicted ::
  "('b \<Rightarrow> block_id \<Rightarrow> 'e + bytes) \<Rightarrow> disk_io \<Rightarrow> 'b tier \<Rightarrow> 'b tier option" where
  "spill_evicted ex io t =
     (case t_spill t of
        None \<Rightarrow> Some t
      | Some s \<Rightarrow>
          let (evicted, p) = take_evicted (t_pool t) in
          do { (s', fs') \<leftarrow> for_each (spill_one ex io (t_dev t)) evicted (s, t_files t);
               Some (t\<lparr>t_pool := p, t_spill := Some s', t_files := fs'\<rparr>) })"

fun promote_loop ::
  "('b \<Rightarrow> block_id \<Rightarrow> 'e + bytes) \<Rightarrow> (block_id \<Rightarrow> bytes \<Rightarrow> 'b \<Rightarrow> 'e + 'b) \<Rightarrow> disk_io \<Rightarrow>
   block_hash list \<Rightarrow> 'b tier \<Rightarrow> 'b tier option" where
  "promote_loop ex im io [] t = Some t"
| "promote_loop ex im io (h # hs) t =
     (if contains (t_pool t) h then promote_loop ex im io hs t
      else case t_spill t of
        None \<Rightarrow> Some t
      | Some s \<Rightarrow>
          do { (found, s) \<leftarrow> get h s (t_files t);
               let t = t\<lparr>t_spill := Some s\<rparr>;
               case found of
                 None \<Rightarrow> Some t
               | Some b \<Rightarrow>
                   if num_free (t_pool t) \<le> 1 then Some t
                   else do {
                     (r, p) \<leftarrow> allocate (t_pool t);
                     case r of
                       Inl _ \<Rightarrow> Some (t\<lparr>t_pool := p\<rparr>)
                     | Inr i \<Rightarrow> do {
                         t \<leftarrow> spill_evicted ex io (t\<lparr>t_pool := p\<rparr>);
                         case im i b (t_dev t) of
                           Inl _ \<Rightarrow> do { p \<leftarrow> free i (t_pool t); Some (t\<lparr>t_pool := p\<rparr>) }
                         | Inr d \<Rightarrow> do {
                             (canonical, p) \<leftarrow> publish i h (t_pool t);
                             p \<leftarrow> (if canonical \<noteq> i then free i p else Some p);
                             p \<leftarrow> free canonical p;
                             promote_loop ex im io hs (t\<lparr>t_pool := p, t_dev := d\<rparr>) } } } })"

definition promote_from_spill ::
  "(bytes \<Rightarrow> bytes) \<Rightarrow> ('b \<Rightarrow> block_id \<Rightarrow> 'e + bytes) \<Rightarrow> (block_id \<Rightarrow> bytes \<Rightarrow> 'b \<Rightarrow> 'e + 'b) \<Rightarrow>
   disk_io \<Rightarrow> cache_namespace \<Rightarrow> token list \<Rightarrow> 'b tier \<Rightarrow> 'b tier option" where
  "promote_from_spill blake3 ex im io ns toks t =
     (if t_spill t = None then Some t
      else let full_blocks = length toks div BLOCK_SIZE in
           if full_blocks = 0 then Some t
           else promote_loop ex im io
                  (hash_block_chain blake3 ns (take (full_blocks * BLOCK_SIZE) toks) BLOCK_SIZE) t)"

section \<open>Coherence\<close>

text \<open>
  \<open>K h b\<close> says that the bytes \<open>b\<close> belong to the hash \<open>h\<close>.  A block agrees with a hash when exporting it, if that
  succeeds, gives those bytes.
\<close>

definition agrees :: "('b \<Rightarrow> block_id \<Rightarrow> 'e + bytes) \<Rightarrow> (block_hash \<Rightarrow> bytes \<Rightarrow> bool) \<Rightarrow> 'b \<Rightarrow> block_hash \<Rightarrow> block_id \<Rightarrow> bool" where
  "agrees ex K d h i = (case ex d i of Inl _ \<Rightarrow> True | Inr b \<Rightarrow> K h b)"

definition coherent :: "('b \<Rightarrow> block_id \<Rightarrow> 'e + bytes) \<Rightarrow> (block_hash \<Rightarrow> bytes \<Rightarrow> bool) \<Rightarrow> 'b tier \<Rightarrow> bool" where
  "coherent ex K t =
     (pool_inv (t_pool t) \<and>
      (\<forall>i h. content (t_pool t) i = Some h \<longrightarrow> agrees ex K (t_dev t) h i) \<and>
      (\<forall>(h, i) \<in> set (evicted_content (t_pool t)). agrees ex K (t_dev t) h i) \<and>
      (\<forall>s. t_spill t = Some s \<longrightarrow> store_coherent K s (t_files t)))"

lemma spill_one_ok:
  assumes "store_coherent K s fs" "agrees ex K d h i"
  shows "\<exists>s' fs'. spill_one ex io d (h, i) (s, fs) = Some (s', fs') \<and> store_coherent K s' fs'"
  using assms store_coherent_put by (auto simp: spill_one_def agrees_def split: sum.splits)

lemma spill_all_ok:
  "store_coherent K s fs \<Longrightarrow> \<forall>(h, i) \<in> set es. agrees ex K d h i \<Longrightarrow>
   \<exists>s' fs'. for_each (spill_one ex io d) es (s, fs) = Some (s', fs') \<and> store_coherent K s' fs'"
proof (induction es arbitrary: s fs)
  case (Cons e es)
  obtain h i where e: "e = (h, i)" by fastforce
  from spill_one_ok [OF Cons.prems(1), of ex d h i io] Cons.prems(2) e obtain s1 fs1 where
    1: "spill_one ex io d (h, i) (s, fs) = Some (s1, fs1)" "store_coherent K s1 fs1" by auto
  from Cons.IH [OF 1(2)] Cons.prems(2) 1(1) e show ?case by auto
qed simp

lemma spill_evicted_ok:
  assumes "coherent ex K t"
  shows "\<exists>t'. spill_evicted ex io t = Some t' \<and> coherent ex K t' \<and> t_dev t' = t_dev t \<and>
    (t_spill t' = None \<longleftrightarrow> t_spill t = None) \<and>
    t_pool t' = (if t_spill t = None then t_pool t else (t_pool t)\<lparr>evicted_content := []\<rparr>)"
proof (cases "t_spill t")
  case None
  with assms show ?thesis by (simp add: spill_evicted_def)
next
  case (Some s)
  with assms have "store_coherent K s (t_files t)"
    "\<forall>(h, i) \<in> set (evicted_content (t_pool t)). agrees ex K (t_dev t) h i" by (simp_all add: coherent_def)
  from spill_all_ok [OF this, of io] Some assms show ?thesis
    by (auto simp: spill_evicted_def take_evicted_def coherent_def)
qed

text \<open>What the tier leaves as it is: the reference counts and the content of every block in use.\<close>

definition same_use :: "block_pool \<Rightarrow> block_pool \<Rightarrow> bool" where
  "same_use p q = (same_geometry p q \<and> rc q = rc p \<and> (\<forall>b. 0 < rc p b \<longrightarrow> content q b = content p b))"

lemma same_use_refl [simp]: "same_use p p"
  by (simp add: same_use_def)

lemma same_use_trans: "same_use p q \<Longrightarrow> same_use q r \<Longrightarrow> same_use p r"
  by (auto simp: same_use_def intro: same_geometry_trans)

lemma same_use_evicted [simp]: "same_use p (p\<lparr>evicted_content := x\<rparr>)"
  by (simp add: same_use_def same_geometry_def)

text \<open>One block comes back: what the pool does between the allocation and the release.\<close>

lemma restore_pool:
  assumes "pool_ok p (i # xs)" "\<not> contains p h"
  shows "\<exists>q. allocate p = Some (Inr i, q) \<and> pool_inv q \<and> rc q = (rc p)(i := 1) \<and> content q = (content p)(i := None) \<and>
    evicted_content q = evicted_content p @ evicted_entry p i \<and> \<not> contains q h \<and> rc p i = 0 \<and> same_geometry p q"
proof -
  from allocate_ok [OF assms(1)] obtain q where q: "allocate p = Some (Inr i, q)" "pool_ok q xs" "rc q = (rc p)(i := 1)"
    "content q = (content p)(i := None)" "evicted_content q = evicted_content p @ evicted_entry p i" "same_geometry p q" by blast
  have "rc p i = 0" using assms(1) by (auto simp: pool_ok_def unreferenced_def)
  moreover have "\<not> contains q h"
    using assms q(4) by (simp add: contains_def pool_ok_by_hash_None [OF q(2)] pool_ok_by_hash_None [OF assms(1)])
  ultimately show ?thesis using q by (auto simp: pool_inv_def)
qed

lemma publish_and_release:
  assumes "pool_inv p" "rc p i = 1" "\<not> contains p h"
  shows "\<exists>q q'. publish i h p = Some (i, q) \<and> free i q = Some q' \<and> pool_inv q' \<and> rc q' = (rc p)(i := 0) \<and>
    content q' = (content p)(i := Some h) \<and> evicted_content q' = evicted_content p \<and> same_geometry p q'"
proof -
  from assms obtain xs where ok: "pool_ok p xs" by (auto simp: pool_inv_def)
  have "i < num_blocks p" using assms(2) by (simp add: rc_pos_less)
  from publish_first_ok [OF ok this, of h] assms(3) obtain q where
    q: "publish i h p = Some (i, q)" "pool_ok q xs" "rc q = rc p" "content q = (content p)(i := Some h)"
      "evicted_content q = evicted_content p" "same_geometry p q" by (auto simp: contains_def)
  from free_last_ok [OF q(2), of i] q assms(2) same_geometry_trans [OF q(6)] show ?thesis by (auto simp: pool_inv_def)
qed

lemma release_unpublished:
  assumes "pool_inv p" "rc p i = 1"
  shows "\<exists>q. free i p = Some q \<and> pool_inv q \<and> rc q = (rc p)(i := 0) \<and> content q = content p \<and>
    evicted_content q = evicted_content p \<and> same_geometry p q"
  using free_last_ok [of p _ i] assms by (auto simp: pool_inv_def)

context kv_device
begin

lemma agrees_import:
  assumes "import_block i b d = Inr d'"
  shows "agrees export_block K d' h j = (if j = i then K h b else agrees export_block K d h j)"
  using import_own [OF assms] import_other [OF assms] by (simp add: agrees_def)

lemma promote_loop_ok:
  "coherent export_block K t \<Longrightarrow>
   \<exists>t'. promote_loop export_block import_block io hs t = Some t' \<and> coherent export_block K t' \<and>
        same_use (t_pool t) (t_pool t')"
proof (induction hs arbitrary: t)
  case Nil
  then show ?case by simp
next
  case (Cons h hs)
  show ?case
  proof (cases "contains (t_pool t) h \<or> t_spill t = None")
    case True
    with Cons show ?thesis by auto
  next
    case False
    then obtain s where s: "t_spill t = Some s" and nc: "\<not> contains (t_pool t) h" by auto
    from Cons.prems s have st: "store_coherent K s (t_files t)" by (simp add: coherent_def)
    from store_coherent_get [OF st, of h] obtain s1 where
      s1: "get h s (t_files t) = Some (held_bytes s (t_files t) h, s1)" "store_coherent K s1 (t_files t)" by auto
    let ?t = "t\<lparr>t_spill := Some s1\<rparr>"
    have coh: "coherent export_block K ?t" using Cons.prems s1 by (auto simp: coherent_def)
    show ?thesis
    proof (cases "held_bytes s (t_files t) h = None \<or> num_free (t_pool t) \<le> 1")
      case True
      with nc s s1 coh show ?thesis by (cases "held_bytes s (t_files t) h") auto
    next
      case go: False
      then obtain b where "held_bytes s (t_files t) h = Some b" by (cases "held_bytes s (t_files t) h") simp_all
      with st have b: "held_bytes s (t_files t) h = Some b" "K h b" by (auto simp: store_coherent_def)
      from Cons.prems obtain ys where ys: "pool_ok (t_pool t) ys" by (auto simp: coherent_def pool_inv_def)
      with go obtain i xs where "ys = i # xs" by (cases ys) (auto simp: pool_ok_def)
      with restore_pool [of "t_pool t" i xs h] ys nc obtain q where q: "allocate (t_pool t) = Some (Inr i, q)"
        "pool_inv q" "rc q = (rc (t_pool t))(i := 1)" "content q = (content (t_pool t))(i := None)"
        "evicted_content q = evicted_content (t_pool t) @ evicted_entry (t_pool t) i" "\<not> contains q h" "rc (t_pool t) i = 0"
        "same_geometry (t_pool t) q" by blast
      have cq: "coherent export_block K (?t\<lparr>t_pool := q\<rparr>)"
        using coh q(2) unfolding coherent_def by (auto simp: q(4,5) evicted_entry_def split: option.splits if_splits)
      from spill_evicted_ok [OF this, of io] obtain t2 where t2:
        "spill_evicted export_block io (?t\<lparr>t_pool := q\<rparr>) = Some t2" "coherent export_block K t2"
        "t_dev t2 = t_dev t" "t_spill t2 \<noteq> None" "t_pool t2 = q\<lparr>evicted_content := []\<rparr>" by auto
      have p2: "pool_inv (t_pool t2)" "rc (t_pool t2) i = 1" "\<not> contains (t_pool t2) h" "evicted_content (t_pool t2) = []"
        using t2(5) q by (auto simp: contains_def)
      have geo: "same_geometry (t_pool t) (t_pool t2)" using q(8) t2(5) by (simp add: same_geometry_def)
      have con: "content (t_pool t2) = (content (t_pool t))(i := None)" using q(4) t2(5) by simp
      have rc0: "(rc (t_pool t2))(i := 0) = rc (t_pool t)" using t2(5) q by auto
      show ?thesis
      proof (cases "import_block i b (t_dev t)")
        case (Inl e)
        from release_unpublished [OF p2(1,2)] obtain p where p: "free i (t_pool t2) = Some p" "pool_inv p"
          "rc p = rc (t_pool t)" "content p = content (t_pool t2)" "evicted_content p = []"
          "same_geometry (t_pool t2) p" using rc0 p2(4) by auto
        have "same_use (t_pool t) p" using p(3,4) con q(7) same_geometry_trans [OF geo p(6)] by (auto simp: same_use_def)
        moreover have "coherent export_block K (t2\<lparr>t_pool := p\<rparr>)" using t2(2) p by (auto simp: coherent_def)
        ultimately show ?thesis using Inl nc s s1(1) b go q(1) t2(1,3) p by auto
      next
        case (Inr d)
        from publish_and_release [OF p2(1,2,3)] obtain p1 p where p: "publish i h (t_pool t2) = Some (i, p1)"
          "free i p1 = Some p" "pool_inv p" "rc p = rc (t_pool t)" "content p = (content (t_pool t2))(i := Some h)"
          "evicted_content p = []" "same_geometry (t_pool t2) p" using rc0 p2(4) by auto
        have use: "same_use (t_pool t) p" using p(4,5) con q(7) same_geometry_trans [OF geo p(7)] by (auto simp: same_use_def)
        let ?t3 = "t2\<lparr>t_pool := p, t_dev := d\<rparr>"
        have "coherent export_block K ?t3"
          using t2(2,3) p b(2) agrees_import [OF Inr] by (auto simp: coherent_def)
        from Cons.IH [OF this] obtain t' where "promote_loop export_block import_block io hs ?t3 = Some t'"
          "coherent export_block K t'" "same_use (t_pool t) (t_pool t')" using same_use_trans [OF use] by auto
        with Inr nc s s1(1) b go q(1) t2(1,3) p(1,2) show ?thesis by auto
      qed
    qed
  qed
qed

lemma promote_from_spill_ok:
  assumes "coherent export_block K t"
  shows "\<exists>t'. promote_from_spill blake3 export_block import_block io ns toks t = Some t' \<and>
     coherent export_block K t' \<and> same_use (t_pool t) (t_pool t')"
  using promote_loop_ok [OF assms] assms by (auto simp: promote_from_spill_def Let_def)

end

end
