(* ===== verification/Scheduler_Reach.thy ===== *)
theory Scheduler_Reach
  imports Scheduler_Fork Spill_Tier
begin

text \<open>
  The protocol the worker follows with the scheduler (\<open>vapi-worker/src/engine.rs\<close>), as a step
  relation, and its invariant: no call panics, every block is accounted for, and every plan that is
  handed out can be committed.

  The steps are the calls the engine makes: admission and cancellation, the early end of a sequence,
  scheduling and committing, the fork of a running sequence and the first token of each child, the
  drain of the finished ones, and what the spill tier does with the pool between them.  A run of this
  relation is a run of the worker in which every fork succeeds and finds its parent still running.
  The engine logs a refused fork and goes on, and it also forks a leader that its first token has
  finished; neither is a step here, because both break the invariant: see \<open>fork_refused_leaks\<close>,
  \<open>fork_partial_failure_panics\<close> and \<open>fork_finished_parent_unbacked\<close> in \<open>Scheduler_Properties\<close>.
\<close>

text \<open>
  The state of the protocol: the scheduler, the children of a fork that have no token yet, and the
  plan the backend is working on.
\<close>

type_synonym protocol = "scheduler \<times> seq_id set \<times> step_plan option"

inductive sched_step :: "(bytes \<Rightarrow> bytes) \<Rightarrow> protocol \<Rightarrow> protocol \<Rightarrow> bool" for blake3 where
  admit: "sched_step blake3 (s, D, po) (snd (admit rid prompt ps ns s), D, po)"
| cancel: "cancel rid s = Some (r, s') \<Longrightarrow> sched_step blake3 (s, {}, po) (s', {}, po)"
| finish: "finish_with i reason s = Some s' \<Longrightarrow> sched_step blake3 (s, {}, po) (s', {}, po)"
| schedule: "schedule blake3 s = Some (plan, s') \<Longrightarrow> sched_step blake3 (s, {}, None) (s', {}, Some plan)"
| commit: "length sampled = length (sampled_seqs plan) \<Longrightarrow> commit blake3 plan sampled s = Some s' \<Longrightarrow>
    sched_step blake3 (s, {}, Some plan) (s', {}, None)"
| fork: "seqs s i = Some q \<Longrightarrow> i \<in> set (running s) \<Longrightarrow> \<not> needs_prefill q \<Longrightarrow> num_computed q = prompt_len q \<Longrightarrow>
    fork i extra s = Some (Inr out, s') \<Longrightarrow> sched_step blake3 (s, {}, None) (s', set (fork_ids out), None)"
| seed: "i \<in> D \<Longrightarrow> seed_fork i t s = Some (r, s') \<Longrightarrow> sched_step blake3 (s, D, None) (s', D - {i}, None)"
| drain: "drain_finished s = (out, s') \<Longrightarrow> sched_step blake3 (s, {}, None) (s', {}, None)"
| tier: "pool_inv p \<Longrightarrow> same_use (pool s) p \<Longrightarrow> sched_step blake3 (s, D, po) (s\<lparr>pool := p\<rparr>, D, po)"

inductive sched_reachable :: "(bytes \<Rightarrow> bytes) \<Rightarrow> protocol \<Rightarrow> bool" for blake3 where
  init: "n \<le> NONE \<Longrightarrow> pool_new n bs wm = Some p \<Longrightarrow> cfg_block_size c = bs \<Longrightarrow> cfg_wide c \<Longrightarrow>
    sched_reachable blake3 (scheduler_new c p ns eos, {}, None)"
| step: "sched_reachable blake3 st \<Longrightarrow> sched_step blake3 st st' \<Longrightarrow> sched_reachable blake3 st'"

inductive_cases sched_stepE: "sched_step blake3 st st'"

text \<open>
  The last step stands for the spill tier, which reaches into the pool while a prompt is admitted or
  a step begins: it may evict, publish and empty the eviction log, but it takes no reference and
  leaves the blocks in use alone.  Both of its operations are such a step.
\<close>

lemma spill_evicted_is_step:
  assumes "coherent ex K t" "t_pool t = pool s" "spill_evicted ex io t = Some t'"
  shows "sched_step blake3 (s, D, po) (s\<lparr>pool := t_pool t'\<rparr>, D, po)"
proof (rule sched_step.tier)
  from spill_evicted_ok [OF assms(1), of io] assms(3) have
    "coherent ex K t'" "t_pool t' = (if t_spill t = None then t_pool t else (t_pool t)\<lparr>evicted_content := []\<rparr>)" by auto
  then show "pool_inv (t_pool t')" "same_use (pool s) (t_pool t')" using assms(2) by (auto simp: coherent_def)
qed

context kv_device
begin

lemma promote_from_spill_is_step:
  assumes "coherent export_block K t" "t_pool t = pool s"
    "promote_from_spill blake3 export_block import_block io ns toks t = Some t'"
  shows "sched_step blake3 (s, D, po) (s\<lparr>pool := t_pool t'\<rparr>, D, po)"
  using promote_from_spill_ok [OF assms(1), of blake3 io ns toks] assms(2,3)
  by (auto intro: sched_step.tier simp: coherent_def)

end

lemma sinv_same_use:
  assumes "sinv R D s" "pool_inv p" "same_use (pool s) p"
  shows "sinv R D (s\<lparr>pool := p\<rparr>)"
proof -
  have p: "rc p = rc (pool s)" "block_size p = block_size (pool s)"
    and c: "\<And>b. 0 < rc (pool s) b \<Longrightarrow> content p b = content (pool s) b"
    using assms(3) by (auto simp: same_use_def same_geometry_def)
  have "running_ok d c' p q" if "running_ok d c' (pool s) q" for d c' q
  proof -
    have "exclusive p (cfg_block_size c') q"
      unfolding exclusive_def
    proof (intro allI impI)
      fix j assume j: "num_computed q div cfg_block_size c' \<le> j \<and> j < length (blocks q)"
      then have "rc (pool s) (blocks q ! j) = 1" "content (pool s) (blocks q ! j) = None"
        using that by (auto simp: running_ok_def exclusive_def)
      with c [of "blocks q ! j"] p(1) show "rc p (blocks q ! j) = 1 \<and> content p (blocks q ! j) = None" by simp
    qed
    with that show ?thesis by (auto simp: running_ok_def)
  qed
  moreover have "seq_refs (s\<lparr>pool := p\<rparr>) = seq_refs s" by (simp add: seq_refs_def blocks_of_def fun_eq_iff)
  ultimately show ?thesis using assms(1,2) p unfolding sinv_def role_ok_def by auto
qed


text \<open>The invariant; a due child can take its token without reaching the context limit.\<close>

definition protocol_inv :: "protocol \<Rightarrow> bool" where
  "protocol_inv st \<longleftrightarrow>
     (case st of (s, D, po) \<Rightarrow>
        sinv (running s) D s \<and> cfg_wide (cfg s) \<and> D \<subseteq> set (running s) \<and>
        (\<forall>i \<in> D. \<forall>q. seqs s i = Some q \<longrightarrow> length (tokens q) + 1 < max_context (cfg s)) \<and>
        (\<forall>plan. po = Some plan \<longrightarrow> (\<exists>es c. plan_pending s es c plan)))"

lemma scheduler_new_inv:
  assumes "pool_new n bs wm = Some p" "cfg_block_size c = bs" "n \<le> NONE"
  shows "sched_inv (scheduler_new c p ns eos)"
proof -
  have "0 < bs" using assms(1) by (auto simp: pool_new_def ensure_def split: if_splits)
  from pool_new_ok [OF this assms(3), of wm] assms(1)
  have p: "pool_inv p" "block_size p = bs" "\<And>b. rc p b = 0" by (auto simp: pool_inv_def)
  have "seq_refs (scheduler_new c p ns eos) b = 0" for b by (simp add: seq_refs_def scheduler_new_def)
  then show ?thesis
    using p assms(2) by (auto simp: sched_inv_def sinv_def scheduler_new_def fun_eq_iff)
qed

lemma protocol_step_inv:
  assumes "sched_step blake3 st st'" "protocol_inv st"
  shows "protocol_inv st'"
  using assms
proof (cases rule: sched_step.cases)
  case (admit s D po rid prompt ps ns)
  let ?s = "snd (admit rid prompt ps ns s)"
  have f: "running ?s = running s" "cfg ?s = cfg s" by (auto simp: admit_def Let_def)
  have d: "seqs ?s i = seqs s i" if "i \<in> dom (seqs s)" for i
    using that assms(2) admit(1) by (auto simp: protocol_inv_def sinv_def admit_def Let_def)
  have "D \<subseteq> dom (seqs s)" using assms(2) admit(1) by (auto simp: protocol_inv_def sinv_def)
  then show ?thesis
    using assms(2) admit f d admit_ok [of "running s" D s] admit_pending
    by (fastforce simp: protocol_inv_def)
next
  case (cancel rid s r s' po)
  have inv: "sched_inv s" using assms(2) cancel(1) by (simp add: protocol_inv_def sched_inv_def)
  with cancel_ok [of s "{}" rid] cancel(3) have "sched_inv s'" by (auto simp: sched_inv_def)
  moreover have "cfg s' = cfg s" by (rule cancel_cfg [OF inv cancel(3)])
  ultimately show ?thesis
    using assms(2) cancel(1,2) cancel_pending [OF inv _ cancel(3)]
    unfolding protocol_inv_def sched_inv_def by (simp, blast)
next
  case (finish i reason s s' po)
  have inv: "sched_inv s" using assms(2) finish(1) by (simp add: protocol_inv_def sched_inv_def)
  have f: "finish i reason s = Some s'" using finish(3) by (simp add: finish_with_def)
  with finish_ok [of s "{}" i reason] inv have "sched_inv s'" "cfg s' = cfg s"
    by (auto simp: sched_inv_def finish_frame_def)
  then show ?thesis
    using assms(2) finish(1,2) finish_pending [OF inv _ f]
    unfolding protocol_inv_def sched_inv_def by (simp, blast)
next
  case (schedule s plan s')
  have inv: "sched_inv s" "cfg_wide (cfg s)" using assms(2) schedule(1) by (auto simp: protocol_inv_def sched_inv_def)
  from schedule_ok [OF inv, of blake3] schedule(3) obtain es where
      r: "sched_inv s'" "sched_frame s s'" "plan_final s' es plan" "sum_list (map snd es) \<le> max_batched_tokens (cfg s)"
    by auto
  have c: "cfg s' = cfg s" using r(2) by (simp add: sched_frame_def)
  from plan_final_pending [OF r(1) _ r(3)] inv(2) c r(4) have "\<exists>c. plan_pending s' es c plan" by simp
  then show ?thesis using schedule(2) r(1) c inv(2) by (auto simp: protocol_inv_def sched_inv_def)
next
  case (commit sampled plan s s')
  have inv: "sched_inv s" using assms(2) commit(1) by (simp add: protocol_inv_def sched_inv_def)
  from assms(2) commit(1) obtain es c where "plan_pending s es c plan" by (auto simp: protocol_inv_def)
  from commit_ok [OF inv this commit(3), of blake3] commit(4) have "sched_inv s'" "cfg s' = cfg s" by auto
  then show ?thesis using assms(2) commit by (auto simp: protocol_inv_def sched_inv_def)
next
  case (fork s i q extra out s')
  have inv: "sinv (running s) {} s" using assms(2) fork(1) by (simp add: protocol_inv_def)
  have par: "forkable s (running s) {} i q" using fork by (simp add: forkable_def)
  from fork_ok [OF inv par, of extra] fork(7) have
      r: "fork_ids out = [next_id s..<next_id s + extra]" "running s' = running s @ fork_ids out"
        "sinv (running s') ({} \<union> set (fork_ids out)) s'" "\<forall>j \<in> set (fork_ids out). child_due s' q j"
        "cfg s' = cfg s" by auto
  have q: "num_computed q = prompt_len q" "running_ok False (cfg s) (pool s) q"
    using par forkable_running [OF inv par] by (auto simp: forkable_def)
  have "length (tokens q') + 1 < max_context (cfg s)"
    if j: "j \<in> set (fork_ids out)" and q': "seqs s' j = Some q'" for j q'
  proof -
    from r(4) j q' obtain bs where "q' = child_of q bs" unfolding child_due_def by fastforce
    then show ?thesis
      using q fork(5) by (auto simp: child_of_def adopt_prefilled_def sequence_new_def running_ok_def needs_prefill_iff)
  qed
  then show ?thesis using assms(2) fork(1,2) r by (simp add: protocol_inv_def)
next
  case (seed i D t s r s')
  have inv: "sinv (running s) D s" "D \<subseteq> set (running s)"
    using assms(2) seed(1) by (auto simp: protocol_inv_def)
  with seed(3) obtain q where q: "seqs s i = Some q" using sinv_running [OF inv(1), of i] by blast
  have "length (tokens q) + 1 < max_context (cfg s)" using assms(2) seed q by (simp add: protocol_inv_def)
  from seed_fork_ok [OF inv(1) seed(3) _ q this, of t] inv(2) seed(3,4) have
      "sinv (running s') (D - {i}) s'" "running s' = running s" "cfg s' = cfg s"
      "\<forall>j. j \<noteq> i \<longrightarrow> seqs s' j = seqs s j" by auto
  then show ?thesis using assms(2) seed(1,2) by (auto simp: protocol_inv_def)
next
  case (drain s out s')
  have inv: "sinv (running s) {} s" using assms(2) drain(1) by (simp add: protocol_inv_def)
  have s': "s' = snd (drain_finished s)" using drain(3) by simp
  have f: "running s' = running s" "cfg s' = cfg s" using s' by (auto simp: drain_finished_frame)
  then show ?thesis
    using assms(2) drain(1,2) drain_finished_ok [OF inv] s' by (simp add: protocol_inv_def)
next
  case (tier p s D po)
  then show ?thesis
    using assms(2) sinv_same_use [of "running s" D s p]
    by (auto simp: protocol_inv_def plan_pending_def pending_entry_def)
qed

lemma protocol_reachable_inv: "sched_reachable blake3 st \<Longrightarrow> protocol_inv st"
proof (induction rule: sched_reachable.induct)
  case (init n bs wm p c ns eos)
  with scheduler_new_inv [OF init(2,3,1)] show ?case
    by (simp add: protocol_inv_def sched_inv_def scheduler_new_def)
next
  case (step st st')
  then show ?case using protocol_step_inv by blast
qed

end
