(* ===== verification/Scheduler_Properties.thy ===== *)
theory Scheduler_Properties
  imports Scheduler_Reach
begin

text \<open>
  What the scheduler of \<open>vapi-engine\<close> guarantees, each property with an instance.  The instances
  start from a small concrete state: one request whose five-token prompt has been prefilled into two
  blocks of four and whose first token has been sampled, in a pool of three blocks.
\<close>

section \<open>A concrete state\<close>

definition demo_block_pool :: "nat \<Rightarrow> block_pool" where
  "demo_block_pool wm =
     \<lparr>block_size = 4, watermark = wm, refcount = [1, 1, 0], hash_of = [None, None, None],
      by_hash = Map.empty, prev_link = [NONE, NONE, NONE], next_link = [NONE, NONE, NONE],
      lru_head = 2, lru_tail = 2, num_free = 1, hit_tokens = 0, queried_tokens = 0, evictions = 0,
      evicted_content = [], tracking = False\<rparr>"

definition demo_cfg :: scheduler_config where
  "demo_cfg = \<lparr>max_concurrent_seqs = 4, max_batched_tokens = 8, prefill_chunk_tokens = 4,
     max_context = 16, cfg_block_size = 4, prefix_cache = True\<rparr>"

definition demo_seq :: sequence where
  "demo_seq = \<lparr>request_id = ''r'', params = default_params, status = Decoding, tokens = [11, 12, 13, 14, 15, 16],
     prompt_len = 5, num_computed = 5, prefill_target = 5, blocks = [0, 1], cached_prefix_tokens = 0,
     num_cached_blocks = 0, seq_namespace = ''t''\<rparr>"

definition demo_ns :: cache_namespace where
  "demo_ns = ns_new id ''m'' ''w'' F16 None ''t''"

definition demo_state :: "nat \<Rightarrow> scheduler" where
  "demo_state wm = \<lparr>cfg = demo_cfg, pool = demo_block_pool wm, default_ns = demo_ns, tenants = Map.empty,
     seqs = [0 \<mapsto> demo_seq], by_request = [''r'' \<mapsto> [0]], waiting = [], running = [0], finished = [],
     next_id = 1, eos_tokens = []\<rparr>"

lemma demo_pool_ok: "pool_ok (demo_block_pool wm) [2]"
proof -
  have "unreferenced (demo_block_pool wm) = {2}"
    by (auto simp: unreferenced_def rc_def num_blocks_def demo_block_pool_def less_Suc_eq numeral_3_eq_3)
  then show ?thesis
    by (auto simp: pool_ok_def lru_def links_len_def num_blocks_def demo_block_pool_def content_def NONE_def
        less_Suc_eq numeral_3_eq_3 nth_Cons')
qed

lemma demo_rc: "rc (demo_block_pool wm) b = (if b < 2 then 1 else 0)"
  by (auto simp: rc_def num_blocks_def demo_block_pool_def less_Suc_eq numeral_3_eq_3 numeral_2_eq_2)

lemma demo_content: "content (demo_block_pool wm) b = None"
  by (auto simp: content_def num_blocks_def demo_block_pool_def less_Suc_eq numeral_3_eq_3)

lemma demo_sched_inv: "sched_inv (demo_state wm)"
proof -
  have "seq_refs (demo_state wm) = rc (demo_block_pool wm)"
    by (auto simp: fun_eq_iff seq_refs_def blocks_of_def demo_state_def demo_seq_def demo_rc)
  moreover have "exclusive (demo_block_pool wm) 4 demo_seq"
    by (auto simp: exclusive_def demo_seq_def demo_rc demo_content less_Suc_eq numeral_2_eq_2 nth_Cons')
  then have "role_ok demo_cfg (demo_block_pool wm) {} {0} {} {} 0 demo_seq"
    by (simp add: role_ok_def running_ok_def tokens_ok_def demo_cfg_def) (simp add: demo_seq_def)
  moreover have "pool_inv (demo_block_pool wm)" "block_size (demo_block_pool wm) = 4"
    using demo_pool_ok by (auto simp: pool_inv_def demo_block_pool_def)
  ultimately show ?thesis
    by (auto simp: sched_inv_def sinv_def demo_state_def demo_cfg_def)
qed

lemma demo_wide: "cfg_wide (cfg (demo_state wm))"
  by (simp add: cfg_wide_def demo_state_def demo_cfg_def)

lemma demo_forkable: "forkable (demo_state wm) (running (demo_state wm)) {} 0 demo_seq"
  by (simp add: forkable_def demo_state_def needs_prefill_iff) (simp add: demo_seq_def)

lemma demo_sel:
  "running (demo_state wm) = [0]" "seqs (demo_state wm) = [0 \<mapsto> demo_seq]" "cfg (demo_state wm) = demo_cfg"
  "pool (demo_state wm) = demo_block_pool wm" "next_id (demo_state wm) = 1" "waiting (demo_state wm) = []"
  by (simp_all add: demo_state_def)

section \<open>The whole protocol\<close>

text \<open>
  C1: Along every run of the protocol between the worker and the scheduler in which each fork
  succeeds on a running parent, with the spill tier reaching into the pool at any time, no block leaks
  and none is freed while in use: the reference count of every block in the pool is exactly the number
  of times live sequences list it, the pool's own consistency check passes, and a block is on the free
  list exactly when no sequence holds it.  No count exceeds the number of blocks listed by sequences,
  so the counters of the code, which have 32 bits, do not overflow below that many entries.  A refused
  fork does leak, which is C17.
\<close>

theorem reachable_no_leak:
  assumes "sched_reachable blake3 (s, D, po)"
  shows "(\<forall>b. rc (pool s) b = seq_refs s b) \<and> check_invariants (pool s) \<and>
    (\<forall>b < num_blocks (pool s). b \<in> set (free_blocks (pool s)) \<longleftrightarrow> seq_refs s b = 0) \<and>
    (\<forall>b. rc (pool s) b \<le> (\<Sum>i<next_id s. length (blocks_of s i)))"
proof -
  have inv: "sinv (running s) D s"
    using protocol_reachable_inv [OF assms] by (simp add: protocol_inv_def)
  have ok: "pool_ok (pool s) (free_blocks (pool s))"
    using sinv_pool [OF inv] by (simp add: pool_inv_iff)
  then have "set (free_blocks (pool s)) = unreferenced (pool s)" by (simp add: pool_ok_def)
  moreover have "seq_refs s b \<le> (\<Sum>i<next_id s. length (blocks_of s i))" for b
    unfolding seq_refs_def by (intro sum_mono count_le_length)
  ultimately show ?thesis
    using pool_ok_check_invariants [OF ok] sinv_rc [OF inv] by (auto simp: unreferenced_def)
qed

lemma demo_reachable:
  "\<exists>s. sched_reachable id (s, {}, None) \<and> waiting s = [0] \<and> cfg s = demo_cfg"
proof -
  from pool_new_ok [of 4 3 0] obtain p where p: "pool_new 3 4 0 = Some p" by (auto simp: NONE_def)
  let ?s = "scheduler_new demo_cfg p demo_ns []"
  have "sched_reachable id (?s, {}, None)"
    by (rule sched_reachable.init [OF _ p]) (simp_all add: NONE_def demo_cfg_def cfg_wide_def)
  then have "sched_reachable id (snd (admit ''r'' [11, 12] default_params ''t'' ?s), {}, None)"
    by (rule sched_reachable.step) (rule sched_step.admit)
  moreover have "waiting (snd (admit ''r'' [11, 12] default_params ''t'' ?s)) = [0]"
      "cfg (snd (admit ''r'' [11, 12] default_params ''t'' ?s)) = demo_cfg"
    by (simp_all add: admit_def scheduler_new_def demo_cfg_def Let_def)
  ultimately show ?thesis by blast
qed

theorem reachable_no_leak_witness:
  "\<exists>s. waiting s = [0] \<and> (\<forall>b. rc (pool s) b = seq_refs s b) \<and> check_invariants (pool s)"
proof -
  obtain s where "sched_reachable id (s, {}, None)" "waiting s = [0]" using demo_reachable by blast
  with reachable_no_leak [of id s "{}" None] show ?thesis by blast
qed

text \<open>
  C2: No call of the protocol panics, and \<open>schedule\<close> always returns.  In every state of a run whose
  forks succeeded on running parents: with no child waiting for its first token and no plan out,
  \<open>schedule\<close> produces a plan and \<open>fork\<close> of a running sequence whose prompt has just been computed
  returns, whether it succeeds or is refused; \<open>commit\<close> accepts the plan that is out with one token per
  sampled sequence; \<open>cancel\<close> and \<open>finish_with\<close> succeed at any time; and every child that waits for its
  first token can be given it.  After a fork that was refused half way \<open>schedule\<close> can panic, which
  \<open>fork_partial_failure_panics\<close> shows.
\<close>

theorem reachable_no_panic:
  assumes "sched_reachable blake3 (s, D, po)"
  shows "(D = {} \<and> po = None \<longrightarrow> schedule blake3 s \<noteq> None) \<and>
    (\<forall>plan sampled. D = {} \<and> po = Some plan \<and> length sampled = length (sampled_seqs plan) \<longrightarrow>
       commit blake3 plan sampled s \<noteq> None) \<and>
    (D = {} \<longrightarrow> cancel rid s \<noteq> None \<and> finish_with i reason s \<noteq> None) \<and>
    (\<forall>j q. D = {} \<and> j \<in> set (running s) \<and> seqs s j = Some q \<and> \<not> needs_prefill q \<and> num_computed q = prompt_len q \<longrightarrow>
       fork j extra s \<noteq> None) \<and>
    (\<forall>j \<in> D. seed_fork j t s \<noteq> None)"
proof -
  have inv: "sinv (running s) D s" and w: "cfg_wide (cfg s)" and D: "D \<subseteq> set (running s)"
    and ctx: "\<And>j q. j \<in> D \<Longrightarrow> seqs s j = Some q \<Longrightarrow> length (tokens q) + 1 < max_context (cfg s)"
    and p: "\<And>plan. po = Some plan \<Longrightarrow> \<exists>es c. plan_pending s es c plan"
    using protocol_reachable_inv [OF assms] by (auto simp: protocol_inv_def)
  have si: "sched_inv s" if "D = {}" using inv that by (simp add: sched_inv_def)
  have "schedule blake3 s \<noteq> None" if "D = {}" using schedule_ok [OF si [OF that] w, of blake3] by auto
  moreover have "commit blake3 plan sampled s \<noteq> None"
    if "D = {}" "po = Some plan" "length sampled = length (sampled_seqs plan)" for plan sampled
    using p [OF that(2)] commit_ok [OF si [OF that(1)] _ that(3), of _ _ blake3] by fastforce
  moreover have "cancel rid s \<noteq> None" "finish_with i reason s \<noteq> None" if "D = {}"
    using cancel_ok [of s "{}" rid] finish_ok [of s "{}" i reason] si [OF that]
    by (auto simp: sched_inv_def finish_with_def)
  moreover have "fork j extra s \<noteq> None"
    if "D = {}" "j \<in> set (running s)" "seqs s j = Some q" "\<not> needs_prefill q" "num_computed q = prompt_len q" for j q
    using fork_ok [OF inv, of j q extra] that by (auto simp: forkable_def)
  moreover have "seed_fork j t s \<noteq> None" if j: "j \<in> D" for j
  proof -
    obtain q where "seqs s j = Some q" using sinv_running [OF inv, of j] subsetD [OF D j] by blast
    with seed_fork_ok [OF inv j _ this ctx [OF j this]] D j show ?thesis by fastforce
  qed
  ultimately show ?thesis by blast
qed

theorem reachable_no_panic_witness:
  "\<exists>s. waiting s = [0] \<and> schedule id s \<noteq> None \<and> cancel ''r'' s \<noteq> None"
proof -
  obtain s where "sched_reachable id (s, {}, None)" "waiting s = [0]" using demo_reachable by blast
  with reachable_no_panic [of id s "{}" None "''r''"] show ?thesis by blast
qed

section \<open>schedule\<close>

text \<open>
  C3: The batch that \<open>schedule\<close> builds always passes the backend's own structural check: equal
  lengths, cumulative lengths that start at zero and end at the token count, block tables that cover
  every key, in-range blocks, contiguous positions, and slots that are in range and never written
  twice.  This holds as long as the slot numbers fit \<open>u32\<close>.
\<close>

theorem schedule_batch_valid:
  assumes "sched_inv s" "cfg_wide (cfg s)" "num_blocks (pool s) * cfg_block_size (cfg s) \<le> 2 ^ 32"
    "schedule blake3 s = Some (plan, s')"
  shows "validate (batch plan) (num_blocks (pool s)) (cfg_block_size (cfg s)) = Inr ()"
  using schedule_ok [OF assms(1,2), of blake3] assms(3,4) by auto

theorem schedule_batch_valid_witness:
  "\<exists>plan s'. schedule id (demo_state 0) = Some (plan, s') \<and> validate (batch plan) 3 4 = Inr ()"
proof -
  obtain plan s' where "schedule id (demo_state 0) = Some (plan, s')"
    using schedule_ok [OF demo_sched_inv demo_wide, of id 0] by blast
  moreover have "num_blocks (pool (demo_state 0)) = 3" "cfg_block_size (cfg (demo_state 0)) = 4"
    by (simp_all add: demo_sel num_blocks_def demo_block_pool_def demo_cfg_def)
  ultimately show ?thesis using schedule_batch_valid [OF demo_sched_inv demo_wide, of 0 id plan s'] by simp
qed

text \<open>
  C4: A step stays within its limits and loses nothing: \<open>schedule\<close> keeps the invariant, forwards at
  most \<open>max_batched_tokens\<close> tokens, never raises the number of running sequences above
  \<open>max_concurrent_seqs\<close> (unless forks already had), and keeps every sequence with its text,
  parameters and owner, whatever it preempts.
\<close>

theorem schedule_within_limits:
  assumes "sched_inv s" "cfg_wide (cfg s)" "schedule blake3 s = Some (plan, s')"
  shows "sched_inv s' \<and> num_tokens (batch plan) \<le> max_batched_tokens (cfg s) \<and>
    length (running s') \<le> max (length (running s)) (max_concurrent_seqs (cfg s)) \<and>
    (\<forall>i. map_option tokens (seqs s' i) = map_option tokens (seqs s i)) \<and>
    (\<forall>i. map_option params (seqs s' i) = map_option params (seqs s i)) \<and>
    (\<forall>i. map_option request_id (seqs s' i) = map_option request_id (seqs s i)) \<and>
    finished s' = finished s \<and> by_request s' = by_request s"
proof -
  from schedule_ok [OF assms(1,2), of blake3] assms(3) obtain es where
      r: "sched_inv s'" "sched_frame s s'" "plan_final s' es plan"
        "sum_list (map snd es) \<le> max_batched_tokens (cfg s)"
        "length (running s') \<le> max (length (running s)) (max_concurrent_seqs (cfg s))" by auto
  from r(3) obtain plan0 where "plan_rep s' (running s') es plan0" "fb_tokens (batch plan) = fb_tokens (batch plan0)"
    by (auto simp: plan_final_def)
  then have "num_tokens (batch plan) = sum_list (map snd es)"
    by (simp add: plan_rep_def num_tokens_def mk_batch_def length_concat_span) (simp add: rows_of_def comp_def)
  then show ?thesis
    using r sched_frame_map [OF r(2), of tokens] sched_frame_map [OF r(2), of params]
      sched_frame_map [OF r(2), of request_id]
    by (simp add: sched_frame_def seq_frame_def)
qed

theorem schedule_within_limits_witness:
  "\<exists>plan s'. schedule id (demo_state 0) = Some (plan, s') \<and> num_tokens (batch plan) \<le> 8"
proof -
  obtain plan s' where p: "schedule id (demo_state 0) = Some (plan, s')"
    using schedule_ok [OF demo_sched_inv demo_wide, of id 0] by blast
  from schedule_within_limits [OF demo_sched_inv demo_wide p] p show ?thesis
    by (auto simp: demo_sel demo_cfg_def)
qed

text \<open>
  C5: The waiting queue is served in order and nothing is lost from it: the sequences a step starts,
  followed by what is still waiting, are the sequences the step preempted (the last one first)
  followed by the queue before the step.
\<close>

theorem schedule_queue_order:
  assumes "sched_inv s" "cfg_wide (cfg s)" "schedule blake3 s = Some (plan, s')"
  shows "map fst (started plan) @ waiting s' = rev (preempted plan) @ waiting s"
  using schedule_ok [OF assms(1,2), of blake3] assms(3) by auto

theorem schedule_queue_order_witness:
  "\<exists>plan s'. schedule id (demo_state 0) = Some (plan, s') \<and>
     map fst (started plan) @ waiting s' = rev (preempted plan)"
proof -
  obtain plan s' where p: "schedule id (demo_state 0) = Some (plan, s')"
    using schedule_ok [OF demo_sched_inv demo_wide, of id 0] by blast
  from schedule_queue_order [OF demo_sched_inv demo_wide p] p show ?thesis by (simp add: demo_sel)
qed

text \<open>
  C6: The scheduler is not stuck on a queue whose head fits: when nothing is running and the pool could
  hold the sequence at the head of the waiting queue above its reserve, the next step forwards at
  least one token.  The head is the one that counts: the code never starts a sequence ahead of it.
\<close>

theorem schedule_not_stuck:
  assumes "sched_inv s" "cfg_wide (cfg s)" "running s = []" "waiting s = i # rest" "seqs s i = Some q"
    "blocks_for (pool s) (length (tokens q) + 1) + watermark (pool s) \<le> num_blocks (pool s)"
    "0 < max_batched_tokens (cfg s)" "0 < prefill_chunk_tokens (cfg s)" "0 < max_concurrent_seqs (cfg s)"
  shows "\<exists>plan s'. schedule blake3 s = Some (plan, s') \<and> \<not> batch_is_empty (batch plan)"
  using assms by (rule schedule_progress)

definition demo_admitted :: scheduler where
  "demo_admitted = snd (admit ''r'' [11, 12] default_params ''t'' (scheduler_new demo_cfg (the (pool_new 3 4 0)) demo_ns []))"

lemma demo_admitted_facts:
  "sched_inv demo_admitted" "running demo_admitted = []" "waiting demo_admitted = [0]" "cfg demo_admitted = demo_cfg"
  "seqs demo_admitted 0 = Some (sequence_new ''r'' [11, 12] default_params ''t'')"
  "num_blocks (pool demo_admitted) = 3" "block_size (pool demo_admitted) = 4" "watermark (pool demo_admitted) = 0"
proof -
  from pool_new_ok [of 4 3 0] obtain p where p: "pool_new 3 4 0 = Some p" "num_blocks p = 3" "block_size p = 4" "watermark p = 0"
    by (auto simp: NONE_def)
  have "sched_inv (scheduler_new demo_cfg p demo_ns [])"
    by (rule scheduler_new_inv [OF p(1)]) (simp_all add: NONE_def demo_cfg_def)
  then show "sched_inv demo_admitted"
    using admit_ok [of "running (scheduler_new demo_cfg p demo_ns [])" "{}" "scheduler_new demo_cfg p demo_ns []" "''r''" "[11, 12]"]
    by (simp add: demo_admitted_def p(1) sched_inv_def) (simp add: admit_def scheduler_new_def demo_cfg_def Let_def)
  show "running demo_admitted = []" "waiting demo_admitted = [0]" "cfg demo_admitted = demo_cfg"
    "seqs demo_admitted 0 = Some (sequence_new ''r'' [11, 12] default_params ''t'')"
    "num_blocks (pool demo_admitted) = 3" "block_size (pool demo_admitted) = 4" "watermark (pool demo_admitted) = 0"
    using p by (simp_all add: demo_admitted_def admit_def scheduler_new_def demo_cfg_def Let_def)
qed

theorem schedule_not_stuck_witness:
  "\<exists>plan s'. schedule id demo_admitted = Some (plan, s') \<and> \<not> batch_is_empty (batch plan)"
  by (rule schedule_not_stuck [OF demo_admitted_facts(1) _ demo_admitted_facts(2,3,5)])
     (simp_all add: demo_admitted_facts cfg_wide_def demo_cfg_def blocks_for_def div_ceil_def sequence_new_def)

text \<open>With nothing running every block of the pool is free again, whatever happened before.\<close>

theorem idle_pool_is_free:
  assumes "sched_reachable blake3 (s, D, po)" "running s = []"
  shows "num_free (pool s) = num_blocks (pool s)"
proof -
  have inv: "sinv [] D s" "D \<subseteq> set (running s)"
    using protocol_reachable_inv [OF assms(1)] assms(2) by (auto simp: protocol_inv_def)
  then have "D = {}" using assms(2) by simp
  with inv(1) show ?thesis by (intro idle_all_free) simp
qed

theorem idle_pool_is_free_witness:
  "\<exists>s :: scheduler. running s = [] \<and> num_free (pool s) = num_blocks (pool s)"
proof -
  from pool_new_ok [of 4 3 0] obtain p where p: "pool_new 3 4 0 = Some p" by (auto simp: NONE_def)
  let ?s = "scheduler_new demo_cfg p demo_ns []"
  have "sched_reachable id (?s, {}, None)"
    by (rule sched_reachable.init [OF _ p]) (simp_all add: NONE_def demo_cfg_def cfg_wide_def)
  moreover have "running ?s = []" by (simp add: scheduler_new_def)
  ultimately show ?thesis using idle_pool_is_free [of id ?s "{}" None] by blast
qed

section \<open>commit\<close>

text \<open>
  C7: Committing a plan appends to every sequence exactly the token sampled for it and nothing to the
  others, keeps the invariant, and keeps every sequence known, even when sequences of the plan were
  cancelled while the backend worked.
\<close>

theorem commit_appends_sampled:
  assumes "sched_inv s" "plan_pending s es c plan" "length sampled = length (sampled_seqs plan)"
  shows "\<exists>s'. commit blake3 plan sampled s = Some s' \<and> sched_inv s' \<and>
    (\<forall>j. map_option tokens (seqs s' j)
      = map_option (\<lambda>q. tokens q @ sampled_for j (zip (sampled_seqs plan) sampled)) (seqs s j))"
  using commit_ok [OF assms, of blake3] commit_tokens [OF assms(1,2), of blake3 sampled] by blast

theorem commit_appends_sampled_witness:
  "\<exists>plan s s' sampled. schedule id (demo_state 0) = Some (plan, s) \<and> commit id plan sampled s = Some s' \<and>
     sched_inv s'"
proof -
  from schedule_ok [OF demo_sched_inv demo_wide, of id 0] obtain plan s es where
      r: "schedule id (demo_state 0) = Some (plan, s)" "sched_inv s" "sched_frame (demo_state 0) s"
        "plan_final s es plan" "sum_list (map snd es) \<le> max_batched_tokens (cfg (demo_state 0))" by blast
  have "cfg s = cfg (demo_state 0)" using r(3) by (simp add: sched_frame_def)
  with plan_final_pending [OF r(2) _ r(4)] demo_wide [of 0] r(5) obtain c where "plan_pending s es c plan" by auto
  from commit_appends_sampled [OF r(2) this, of "replicate (length (sampled_seqs plan)) 9" id] r(1)
  show ?thesis by auto
qed

section \<open>Admission and cancellation\<close>

text \<open>
  Admission refuses exactly the empty prompts and the prompts that leave no room for a token, with
  the matching error and no effect; otherwise the request is queued last under a fresh id with its
  prompt as text.
\<close>

theorem admit_spec:
  "admit rid prompt ps ns s =
     (if prompt = [] then (Inl (InvalidRequest ''empty prompt''), s)
      else if max_context (cfg s) \<le> length prompt
      then (Inl (ContextLengthExceeded (length prompt) (max_context (cfg s))), s)
      else (Inr (next_id s), snd (admit rid prompt ps ns s))) \<and>
   (prompt \<noteq> [] \<and> length prompt < max_context (cfg s) \<longrightarrow>
      (\<exists>q. seqs (snd (admit rid prompt ps ns s)) (next_id s) = Some q \<and> tokens q = prompt \<and>
         status q = Waiting \<and> request_id q = rid) \<and>
      waiting (snd (admit rid prompt ps ns s)) = waiting s @ [next_id s] \<and>
      next_id s \<in> set (sequences_of rid (snd (admit rid prompt ps ns s))))"
  by (auto simp: admit_def Let_def sequence_new_def sequences_of_def push_request_def split: option.splits)

theorem admit_spec_witness: "waiting (snd (admit ''x'' [1, 2] default_params ''t'' (demo_state 0))) = [1]"
  using admit_spec [of "''x''" "[1, 2]" default_params "''t''" "demo_state 0"]
  by (simp add: demo_sel demo_cfg_def)

text \<open>
  Cancelling a request finishes every sequence that serves it and takes all its blocks away from
  it, leaves the sequences of other requests exactly as they were, and keeps the invariant.
\<close>

theorem cancel_releases_request:
  assumes inv: "sched_inv s" and c: "cancel rid s = Some (r, s')"
  shows "sched_inv s' \<and>
    (\<forall>i \<in> set (sequences_of rid s). \<forall>q. seqs s' i = Some q \<longrightarrow> is_finished (status q) \<and> blocks q = []) \<and>
    (\<forall>j. j \<notin> set (sequences_of rid s) \<longrightarrow> seqs s' j = seqs s j)"
  by (rule cancel_spec [OF assms])

theorem cancel_releases_request_witness:
  "\<exists>s'. cancel ''r'' (demo_state 0) = Some (Some 0, s') \<and> sched_inv s' \<and>
     (\<forall>q. seqs s' 0 = Some q \<longrightarrow> blocks q = [])"
proof -
  from cancel_ok [of "demo_state 0" "{}" "''r''"] demo_sched_inv obtain r s' where
      c: "cancel ''r'' (demo_state 0) = Some (r, s')" by (auto simp: sched_inv_def)
  moreover have "r = Some 0" using c by (auto simp: cancel_def demo_state_def bind_eq_Some_conv)
  moreover have "0 \<in> set (sequences_of ''r'' (demo_state 0))" by (simp add: sequences_of_def demo_state_def)
  ultimately show ?thesis using cancel_releases_request [OF demo_sched_inv c] by blast
qed

section \<open>Forking\<close>

text \<open>
  C16: Forking a prefilled sequence: a successful call returns one fresh running child per extra choice,
  each with the parent's prompt already computed, sharing the parent's full blocks; the invariant
  holds with the children due their first token, and giving a child its token settles it.
\<close>

theorem fork_shares_prefix:
  assumes "sched_inv s" "forkable s (running s) {} i q" "fork i extra s = Some (Inr out, s')"
  shows "fork_ids out = [next_id s..<next_id s + extra] \<and> running s' = running s @ fork_ids out \<and>
    sinv (running s') (set (fork_ids out)) s' \<and> (\<forall>j \<in> set (fork_ids out). child_due s' q j) \<and>
    (\<forall>k < next_id s. seqs s' k = seqs s k)"
  using fork_ok [of s "{}" i q extra] assms by (auto simp: sched_inv_def)

theorem fork_shares_prefix_witness:
  "\<exists>out s'. fork 0 1 (demo_state 0) = Some (Inr out, s') \<and> fork_ids out = [1] \<and> child_due s' demo_seq 1"
proof -
  have inv: "sinv (running (demo_state 0)) {} (demo_state 0)" using demo_sched_inv by (simp add: sched_inv_def)
  have "\<exists>out s'. fork 0 1 (demo_state 0) = Some (Inr out, s')"
  proof (rule fork_child_ok [OF inv demo_forkable, of 0 "\<lparr>fork_ids = [], fork_copies = []\<rparr>"], goal_cases)
    case 1
    then show ?case by (simp add: can_allocate_def demo_sel demo_block_pool_def)
  next
    case (2 bs priv p out')
    then show ?case
      by (simp add: fork_def demo_sel needs_prefill_iff run_simps) (simp add: demo_seq_def demo_cfg_def run_simps)
  qed
  then obtain out s' where f: "fork 0 1 (demo_state 0) = Some (Inr out, s')" by blast
  from fork_shares_prefix [OF demo_sched_inv demo_forkable f] f show ?thesis by (auto simp: demo_sel)
qed

text \<open>
  C17: A refused fork leaks: when the pool refuses the private block of the first child, the references
  already taken on the shared full blocks are not given back, so the pool counts more references to
  the parent's first block than sequences hold and can never free it.
\<close>

theorem fork_refused_leaks:
  assumes "sched_inv s" "forkable s (running s) {} i q" "0 < num_computed q div cfg_block_size (cfg s)"
    "num_computed q div cfg_block_size (cfg s) < length (blocks q)" "\<not> can_allocate (pool s) 1" "0 < extra"
  shows "\<exists>e s'. fork i extra s = Some (Inl e, s') \<and> seqs s' = seqs s \<and>
    seq_refs s' (blocks q ! 0) < rc (pool s') (blocks q ! 0) \<and> \<not> sched_inv s'"
proof -
  from fork_refused [of s "{}" i q extra] assms obtain e s' where
      f: "fork i extra s = Some (Inl e, s')" "seqs s' = seqs s"
        "seq_refs s' (blocks q ! 0) < rc (pool s') (blocks q ! 0)" by (auto simp: sched_inv_def)
  then have "\<not> sched_inv s'" using sinv_rc [of "running s'" "{}" s' "blocks q ! 0"] by (auto simp: sched_inv_def)
  with f show ?thesis by blast
qed

theorem fork_refused_leaks_witness: "\<exists>e s'. fork 0 1 (demo_state 1) = Some (Inl e, s') \<and> \<not> sched_inv s'"
proof -
  have "\<exists>e s'. fork 0 1 (demo_state 1) = Some (Inl e, s') \<and> seqs s' = seqs (demo_state 1) \<and>
    seq_refs s' (blocks demo_seq ! 0) < rc (pool s') (blocks demo_seq ! 0) \<and> \<not> sched_inv s'"
    by (rule fork_refused_leaks [OF demo_sched_inv demo_forkable])
       (simp_all add: demo_sel demo_cfg_def demo_seq_def can_allocate_def demo_block_pool_def)
  then show ?thesis by blast
qed

lemma unseeded_child_panics:
  assumes q': "seqs s j = Some (child_of q bs)" "num_computed q = prompt_len q" "prompt_len q \<le> length (tokens q)"
    and bs: "block_size (pool s) = cfg_block_size (cfg s)" "0 < cfg_block_size (cfg s)"
      "num_computed q + 1 \<le> length bs * cfg_block_size (cfg s)"
    and budget: "0 < budget"
  shows "decode_one j ((s, plan, budget), sv) = None"
proof -
  let ?q = "child_of q bs"
  have q: "\<not> is_finished (status ?q)" "\<not> needs_prefill ?q" "num_computed ?q = num_computed q" "blocks ?q = bs"
      "length (tokens ?q) = num_computed q"
    using q'(2,3) by (auto simp: child_of_def adopt_prefilled_def sequence_new_def needs_prefill_iff)
  have "blocks_for (pool s) (num_computed ?q + 1) - length (blocks ?q) = 0"
    using bs q by (simp add: blocks_for_def div_ceil_le_iff)
  then have "try_extend j 1 s = Some (True, s\<lparr>seqs := (seqs s)(j \<mapsto> ?q)\<rparr>)"
    using q'(1) by (simp add: try_extend_def)
  moreover have "push_seq_into_batch j 1 (s\<lparr>seqs := (seqs s)(j \<mapsto> ?q)\<rparr>) plan = None"
  proof -
    have "push_position ?q b (num_computed ?q) x = None" for b x
      using q(3,5) by (simp add: push_position_def index_def)
    then show ?thesis using bs(2) by (simp add: push_seq_into_batch_def run_simps Let_def)
  qed
  ultimately show ?thesis using q'(1) q budget by (simp add: decode_one_def)
qed

text \<open>
  A fork that is refused half way leaves an unseeded child behind that makes the next step panic:
  with exactly one block above the reserve, a fork into at least two choices fails after the first
  child was put on the running queue, and the decode pass panics as soon as it reaches that child,
  because it has no token at the position it is to forward.
\<close>

theorem fork_partial_failure_panics:
  assumes inv: "sched_inv s" and par: "forkable s (running s) {} i q"
    and opn: "num_computed q div cfg_block_size (cfg s) < length (blocks q)"
    and one: "num_free (pool s) = watermark (pool s) + 1" and extra: "2 \<le> extra"
  shows "\<exists>e s'. fork i extra s = Some (Inl e, s') \<and> next_id s \<in> set (running s') \<and>
    (\<forall>plan budget sv. 0 < budget \<longrightarrow> decode_one (next_id s) ((s', plan, budget), sv) = None)"
proof -
  obtain n where n: "extra = Suc (Suc n)" using extra by (metis Suc_le_D le_SucE numeral_2_eq_2 Suc_le_mono)
  let ?bs = "cfg_block_size (cfg s)" and ?out = "\<lparr>fork_ids = [], fork_copies = []\<rparr>"
  have sinv: "sinv (running s) {} s" using inv by (simp add: sched_inv_def)
  have q: "seqs s i = Some q" "\<not> needs_prefill q" "num_computed q = prompt_len q" using par by (auto simp: forkable_def)
  have tk: "prompt_len q \<le> length (tokens q)" using sinv_tokens [OF sinv q(1)] by (simp add: tokens_ok_def)
  have b0: "0 < ?bs" by (rule sinv_block_size [OF sinv])
  have fk: "fork i extra s = fork_loop q ?bs (Suc (Suc n)) ?out s"
    using q tk b0 n by (simp add: fork_def run_simps)
  have can: "can_allocate (pool s) 1" using one by (simp add: can_allocate_def)
  show ?thesis
  proof (rule fork_child_ok [OF sinv par, of "Suc n" ?out], goal_cases refused added)
    case (refused p e)
    with can show ?case by simp
  next
    case (added bs priv p out')
    let ?s = "add_child q bs p s"
    have i: "i < next_id s" by (rule sinv_next_id [OF sinv q(1)])
    have par': "forkable ?s (running ?s) {next_id s} i q" using par i by (auto simp: forkable_def add_child_def)
    have cs: "cfg ?s = cfg s" by (simp add: add_child_def)
    have pinv: "pool_inv p" using sinv_pool [OF added(4)] by (simp add: add_child_def)
    have len: "length bs = Suc (num_computed q div ?bs)" "priv \<noteq> []" "\<forall>b \<in> set priv. rc (pool s) b = 0"
      using added(3) opn by (auto simp: shares_prefix_def Let_def)
    have short: "\<not> can_allocate (pool ?s) 1"
      using added(5,6) one len(2)
      by (cases priv) (auto simp: can_allocate_def same_geometry_def add_child_def)
    have "\<exists>e s'. fork_loop q ?bs (Suc n) out' ?s = Some (Inl e, s') \<and> running s' = running ?s \<and>
        seqs s' = seqs ?s \<and> cfg s' = cfg s \<and> block_size (pool s') = block_size (pool s)"
    proof (rule fork_child_ok [OF added(4) par', of n out'], goal_cases refused2 added2)
      case (refused2 p2 e)
      then show ?case using added(5) cs by (auto simp: same_geometry_def add_child_def)
    next
      case (added2 bs2 priv2 p2 out2)
      then have "priv2 \<noteq> []" using opn cs by (auto simp: shares_prefix_def Let_def)
      with added2(7) short show ?case by blast
    qed
    then obtain e s' where f: "fork_loop q ?bs (Suc n) out' ?s = Some (Inl e, s')" "running s' = running ?s"
        "seqs s' = seqs ?s" "cfg s' = cfg s" "block_size (pool s') = block_size (pool s)" by blast
    have "decode_one (next_id s) ((s', plan, budget), sv) = None" if "0 < budget" for plan budget sv
    proof (rule unseeded_child_panics [OF _ q(3) tk _ _ _ that])
      show "seqs s' (next_id s) = Some (child_of q bs)" using f(3) by (simp add: add_child_def)
      show "block_size (pool s') = cfg_block_size (cfg s')" "0 < cfg_block_size (cfg s')"
        using f(4,5) sinv_block_size [OF sinv] by simp_all
      have "num_computed q < Suc (num_computed q div ?bs) * ?bs"
        using dividend_less_div_times [OF b0, of "num_computed q"] by (simp add: add.commute)
      then show "num_computed q + 1 \<le> length bs * cfg_block_size (cfg s')" using len(1) f(4) by simp
    qed
    moreover have "fork i extra s = Some (Inl e, s')" using fk added(1) f(1) by simp
    moreover have "next_id s \<in> set (running s')" using f(2) by (simp add: add_child_def)
    ultimately show ?case by blast
  qed
qed

theorem fork_partial_failure_panics_witness:
  "\<exists>e s'. fork 0 2 (demo_state 0) = Some (Inl e, s') \<and> decode_one 1 ((s', empty_plan, 8), [0]) = None"
proof -
  have "\<exists>e s'. fork 0 2 (demo_state 0) = Some (Inl e, s') \<and> next_id (demo_state 0) \<in> set (running s') \<and>
    (\<forall>plan budget sv. 0 < budget \<longrightarrow> decode_one (next_id (demo_state 0)) ((s', plan, budget), sv) = None)"
    by (rule fork_partial_failure_panics [OF demo_sched_inv demo_forkable])
       (simp_all add: demo_sel demo_cfg_def demo_seq_def demo_block_pool_def)
  then show ?thesis by (auto simp: demo_sel)
qed

text \<open>
  Forking a parent that has already finished, as the worker does when the first sampled token ends
  the leader, gives a child that claims a computed prompt but holds no block for it: the keys and
  values it would attend to are not there, and the invariant is lost.
\<close>

theorem fork_finished_parent_unbacked:
  assumes inv: "sched_inv s" and q: "seqs s i = Some q" "is_finished (status q)" "\<not> needs_prefill q"
    "0 < num_computed q"
  shows "\<exists>out s' q'. fork i 1 s = Some (Inr out, s') \<and> next_id s \<in> set (running s') \<and>
    seqs s' (next_id s) = Some q' \<and> blocks q' = [] \<and> num_computed q' = num_computed q \<and> (\<forall>D. \<not> sinv (running s') D s')"
proof -
  have sinv: "sinv (running s) {} s" using inv by (simp add: sched_inv_def)
  have "blocks q = []"
    using finished_not_queued(1) [OF sinv q(1,2)] sinv_role [OF sinv q(1)] by (simp add: role_ok_def finished_ok_def)
  moreover have "prompt_len q \<le> length (tokens q)" using sinv_tokens [OF sinv q(1)] by (simp add: tokens_ok_def)
  ultimately have f: "fork i 1 s = Some (Inr \<lparr>fork_ids = [next_id s], fork_copies = []\<rparr>, add_child q [] (pool s) s)"
    using q sinv_block_size(2) [OF sinv]
    by (simp add: fork_def run_simps fork_open_block_def Let_def add_child_def child_of_def)
  have "\<not> sinv (running (add_child q [] (pool s) s)) D (add_child q [] (pool s) s)" for D
  proof
    assume a: "sinv (running (add_child q [] (pool s) s)) D (add_child q [] (pool s) s)"
    have "next_id s \<in> set (running (add_child q [] (pool s) s))" by (simp add: add_child_def)
    from sinv_running [OF a this] q(4) show False
      by (auto simp: add_child_def child_of_def adopt_prefilled_def running_ok_def)
  qed
  with f show ?thesis by (simp add: add_child_def child_of_def adopt_prefilled_def)
qed

definition demo_finished :: scheduler where
  "demo_finished = the (finish 0 Stop (demo_state 0))"

theorem fork_finished_parent_unbacked_witness:
  "\<exists>out s'. fork 0 1 demo_finished = Some (Inr out, s') \<and> (\<forall>D. \<not> sinv (running s') D s')"
proof -
  from finish_live [of "demo_state 0" "{}" 0 demo_seq demo_seq Stop] demo_sched_inv [of 0] obtain s' where
      f: "finish 0 Stop (demo_state 0) = Some s'" "sinv (running s') {} s'"
        "seqs s' 0 = Some (demo_seq\<lparr>status := Finished Stop, blocks := []\<rparr>)"
    by (auto simp: sched_inv_def demo_sel fun_upd_idem tokens_ok_def demo_state_def) (auto simp: demo_seq_def)
  then have "demo_finished = s'" by (simp add: demo_finished_def)
  with f fork_finished_parent_unbacked [of s' 0 "demo_seq\<lparr>status := Finished Stop, blocks := []\<rparr>"]
  show ?thesis by (auto simp: sched_inv_def needs_prefill_iff) (auto simp: demo_seq_def)
qed

end
