(* ===== verification/Unicode_Text.thy ===== *)
theory Unicode_Text
  imports Prelude
begin

text \<open>
  Text as Rust's \<open>char\<close>s: a character is its Unicode scalar value, a \<open>String\<close> the list of its
  characters, and \<open>utf8\<close> the bytes that \<open>as_bytes\<close> and \<open>len\<close> see.  The characters that the JSON
  components compare with have names here.
\<close>

type_synonym uchar = nat
type_synonym utext = "uchar list"

abbreviation c_quote :: uchar where "c_quote \<equiv> 34"
abbreviation c_plus :: uchar where "c_plus \<equiv> 43"
abbreviation c_comma :: uchar where "c_comma \<equiv> 44"
abbreviation c_minus :: uchar where "c_minus \<equiv> 45"
abbreviation c_dot :: uchar where "c_dot \<equiv> 46"
abbreviation c_slash :: uchar where "c_slash \<equiv> 47"
abbreviation c_colon :: uchar where "c_colon \<equiv> 58"
abbreviation c_lbracket :: uchar where "c_lbracket \<equiv> 91"
abbreviation c_backslash :: uchar where "c_backslash \<equiv> 92"
abbreviation c_rbracket :: uchar where "c_rbracket \<equiv> 93"
abbreviation c_lbrace :: uchar where "c_lbrace \<equiv> 123"
abbreviation c_rbrace :: uchar where "c_rbrace \<equiv> 125"
abbreviation c_E :: uchar where "c_E \<equiv> 69"
abbreviation c_b :: uchar where "c_b \<equiv> 98"
abbreviation c_e :: uchar where "c_e \<equiv> 101"
abbreviation c_f :: uchar where "c_f \<equiv> 102"
abbreviation c_n :: uchar where "c_n \<equiv> 110"
abbreviation c_r :: uchar where "c_r \<equiv> 114"
abbreviation c_t :: uchar where "c_t \<equiv> 116"
abbreviation c_u :: uchar where "c_u \<equiv> 117"

text \<open>A literal of the source, which is ASCII.\<close>

definition lit :: "string \<Rightarrow> utext" where
  "lit s = map of_char s"

definition is_digit :: "uchar \<Rightarrow> bool" where
  "is_digit c = (48 \<le> c \<and> c \<le> 57)"

definition is_ascii_hexdigit :: "uchar \<Rightarrow> bool" where
  "is_ascii_hexdigit c = (is_digit c \<or> (65 \<le> c \<and> c \<le> 70) \<or> (97 \<le> c \<and> c \<le> 102))"

text \<open>The UTF-8 encoding of a character and of a text, as byte values.\<close>

definition utf8_char :: "uchar \<Rightarrow> nat list" where
  "utf8_char c =
     (if c < 128 then [c]
      else if c < 2048 then [192 + c div 64, 128 + c mod 64]
      else if c < 65536 then [224 + c div 4096, 128 + c div 64 mod 64, 128 + c mod 64]
      else [240 + c div 262144, 128 + c div 4096 mod 64, 128 + c div 64 mod 64, 128 + c mod 64])"

definition utf8 :: "utext \<Rightarrow> nat list" where
  "utf8 t = concat (map utf8_char t)"

definition is_ascii :: "utext \<Rightarrow> bool" where
  "is_ascii t = list_all (\<lambda>c. c < 128) t"

lemma utf8_Nil [simp]: "utf8 [] = []"
  by (simp add: utf8_def)

lemma utf8_Cons [simp]: "utf8 (c # t) = utf8_char c @ utf8 t"
  by (simp add: utf8_def)

lemma utf8_append [simp]: "utf8 (s @ t) = utf8 s @ utf8 t"
  by (simp add: utf8_def)

lemma utf8_char_nonempty [simp]: "utf8_char c \<noteq> []"
  by (simp add: utf8_char_def)

lemma utf8_ascii: "is_ascii t \<Longrightarrow> utf8 t = t"
  by (induction t) (auto simp: is_ascii_def utf8_char_def)

lemma utf8_eq_Nil [simp]: "utf8 t = [] \<longleftrightarrow> t = []"
  by (cases t) auto

end
