(* ===== verification/Json_Schema.thy ===== *)
theory Json_Schema
  imports Unicode_Text
begin

text \<open>
  The first half of \<open>vapi-engine/src/structured.rs\<close>: compilation of a JSON schema into an arena
  of nodes.  A \<open>serde_json::Value\<close> is the datatype \<open>json\<close>; an object lists its members in the
  order in which the map yields them, a number is the text it was written as.  The compact
  printer \<open>serde_json::to_string\<close> is outside the repository and is the parameter \<open>canonical\<close>.
  An arena index is a natural number, and the value \<open>u32::MAX\<close> that marks a free-form container
  is \<open>free_node\<close>.
\<close>

datatype json =
    JNull
  | JBool bool
  | JNumber utext
  | JString utext
  | JArray "json list"
  | JObject "(utext \<times> json) list"

datatype node =
    AnyNode
  | ObjectNode (node_properties: "(utext \<times> nat) list") (node_required: "nat list") (node_additional: bool)
  | ArrayNode (node_items: nat)
  | StrNode
  | NumberNode (node_integer: bool)
  | BoolNode
  | NullNode
  | ChoiceNode (node_options: "utext list")

type_synonym schema = "node list"

definition free_node :: nat where
  "free_node = 4294967295"

datatype schema_error =
    TooDeep
  | NotAnObject json
  | UnsupportedKeyword utext
  | EnumNotArray
  | EnumEmpty
  | TypeList
  | TypeNotString json
  | PropertiesNotObject
  | RequiredNotArray
  | RequiredNotString
  | RequiredWithoutSchema utext
  | AdditionalNotBool
  | EmptyObjectOnly
  | UnsupportedType utext

definition schema_any :: schema where
  "schema_any = [AnyNode]"

definition MAX_DEPTH :: nat where
  "MAX_DEPTH = 32"

definition SUPPORTED :: "utext list" where
  "SUPPORTED = map lit
     [''type'', ''properties'', ''required'', ''additionalProperties'', ''items'', ''enum'', ''const'',
      ''title'', ''description'', ''$schema'', ''default'', ''examples'']"

text \<open>Lookup in an object and the position of a property.\<close>

definition jget :: "(utext \<times> json) list \<Rightarrow> string \<Rightarrow> json option" where
  "jget obj k = map_of obj (lit k)"

fun position :: "('a \<Rightarrow> bool) \<Rightarrow> 'a list \<Rightarrow> nat option" where
  "position P [] = None"
| "position P (x # xs) = (if P x then Some 0 else map_option Suc (position P xs))"

definition push_node :: "node \<Rightarrow> node list \<Rightarrow> schema_error + (nat \<times> node list)" where
  "push_node n ns = Inr (length ns, ns @ [n])"

definition unsupported_key :: "(utext \<times> json) list \<Rightarrow> utext option" where
  "unsupported_key obj = find (\<lambda>k. k \<notin> set SUPPORTED) (map fst obj)"

text \<open>The indices of the required properties.\<close>

fun required_indices :: "(utext \<times> nat) list \<Rightarrow> json list \<Rightarrow> schema_error + nat list" where
  "required_indices ps [] = Inr []"
| "required_indices ps (JString n # js) =
     (case position (\<lambda>p. fst p = n) ps of
        None \<Rightarrow> Inl (RequiredWithoutSchema n)
      | Some i \<Rightarrow>
          (case required_indices ps js of Inl e \<Rightarrow> Inl e | Inr is \<Rightarrow> Inr (i # is)))"
| "required_indices ps (j # js) = Inl RequiredNotString"

definition compile_required :: "(utext \<times> json) list \<Rightarrow> (utext \<times> nat) list \<Rightarrow> schema_error + nat list" where
  "compile_required obj ps =
     (case jget obj ''required'' of
        None \<Rightarrow> Inr []
      | Some (JArray js) \<Rightarrow> required_indices ps js
      | Some _ \<Rightarrow> Inl RequiredNotArray)"

definition compile_additional :: "(utext \<times> json) list \<Rightarrow> (utext \<times> nat) list \<Rightarrow> schema_error + bool" where
  "compile_additional obj ps =
     (case jget obj ''additionalProperties'' of
        None \<Rightarrow> Inr (ps = [])
      | Some (JBool b) \<Rightarrow> Inr b
      | Some _ \<Rightarrow> Inl AdditionalNotBool)"

definition object_node ::
  "(utext \<times> json) list \<Rightarrow> (utext \<times> nat) list \<Rightarrow> schema_error + node" where
  "object_node obj ps =
     (case compile_required obj ps of
        Inl e \<Rightarrow> Inl e
      | Inr required \<Rightarrow>
          (case compile_additional obj ps of
             Inl e \<Rightarrow> Inl e
           | Inr additional \<Rightarrow>
               if ps = [] \<and> \<not> additional then Inl EmptyObjectOnly
               else Inr (ObjectNode ps required additional)))"

text \<open>
  \<open>const\<close> and \<open>enum\<close> pin the value; then the type decides.  \<open>pinned\<close> is the part that comes
  before the type: \<open>None\<close> when neither keyword is there.
\<close>

definition pinned :: "(json \<Rightarrow> utext) \<Rightarrow> (utext \<times> json) list \<Rightarrow> (schema_error + node) option" where
  "pinned canonical obj =
     (case jget obj ''const'' of
        Some c \<Rightarrow> Some (Inr (ChoiceNode [canonical c]))
      | None \<Rightarrow>
          (case jget obj ''enum'' of
             Some (JArray js) \<Rightarrow>
               Some (if js = [] then Inl EnumEmpty else Inr (ChoiceNode (map canonical js)))
           | Some _ \<Rightarrow> Some (Inl EnumNotArray)
           | None \<Rightarrow> None))"

definition scalar_node :: "utext \<Rightarrow> node option" where
  "scalar_node ty =
     (if ty = lit ''string'' then Some StrNode
      else if ty = lit ''integer'' then Some (NumberNode True)
      else if ty = lit ''number'' then Some (NumberNode False)
      else if ty = lit ''boolean'' then Some BoolNode
      else if ty = lit ''null'' then Some NullNode
      else None)"

function (sequential) compile_node ::
    "(json \<Rightarrow> utext) \<Rightarrow> json \<Rightarrow> node list \<Rightarrow> nat \<Rightarrow> schema_error + (nat \<times> node list)"
  and compile_properties ::
    "(json \<Rightarrow> utext) \<Rightarrow> (utext \<times> json) list \<Rightarrow> node list \<Rightarrow> nat \<Rightarrow>
     schema_error + ((utext \<times> nat) list \<times> node list)" where
  "compile_node canonical schema ns depth =
     (if depth > MAX_DEPTH then Inl TooDeep
      else case schema of
        JBool True \<Rightarrow> push_node AnyNode ns
      | JObject obj \<Rightarrow>
          (case unsupported_key obj of
             Some k \<Rightarrow> Inl (UnsupportedKeyword k)
           | None \<Rightarrow>
          (case pinned canonical obj of
             Some (Inl e) \<Rightarrow> Inl e
           | Some (Inr n) \<Rightarrow> push_node n ns
           | None \<Rightarrow>
          (case jget obj ''type'' of
             None \<Rightarrow> push_node AnyNode ns
           | Some (JString ty) \<Rightarrow>
               (case scalar_node ty of
                  Some n \<Rightarrow> push_node n ns
                | None \<Rightarrow>
                    if ty = lit ''array'' then
                      (case jget obj ''items'' of
                         None \<Rightarrow> push_node (ArrayNode (length ns)) (ns @ [AnyNode])
                       | Some s \<Rightarrow>
                           (case compile_node canonical s ns (depth + 1) of
                              Inl e \<Rightarrow> Inl e
                            | Inr (items, ns') \<Rightarrow> push_node (ArrayNode items) ns'))
                    else if ty = lit ''object'' then
                      (case jget obj ''properties'' of
                         None \<Rightarrow>
                           (case object_node obj [] of Inl e \<Rightarrow> Inl e | Inr n \<Rightarrow> push_node n ns)
                       | Some (JObject props) \<Rightarrow>
                           (case compile_properties canonical props ns (depth + 1) of
                              Inl e \<Rightarrow> Inl e
                            | Inr (ps, ns') \<Rightarrow>
                                (case object_node obj ps of Inl e \<Rightarrow> Inl e | Inr n \<Rightarrow> push_node n ns'))
                       | Some _ \<Rightarrow> Inl PropertiesNotObject)
                    else Inl (UnsupportedType ty))
           | Some (JArray _) \<Rightarrow> Inl TypeList
           | Some other \<Rightarrow> Inl (TypeNotString other))))
      | other \<Rightarrow> Inl (NotAnObject other))"
| "compile_properties canonical [] ns depth = Inr ([], ns)"
| "compile_properties canonical ((name, sub) # props) ns depth =
     (case compile_node canonical sub ns depth of
        Inl e \<Rightarrow> Inl e
      | Inr (i, ns') \<Rightarrow>
          (case compile_properties canonical props ns' depth of
             Inl e \<Rightarrow> Inl e
           | Inr (ps, ns'') \<Rightarrow> Inr ((name, i) # ps, ns'')))"
  by pat_completeness auto
termination
  by (relation "measures
        [case_sum (\<lambda>(c, s, ns, d). MAX_DEPTH + 1 - d) (\<lambda>(c, ps, ns, d). MAX_DEPTH + 1 - d),
         case_sum (\<lambda>_. 0) (\<lambda>(c, ps, ns, d). Suc (length ps))]")
     auto

text \<open>The root is compiled last and moved to index 0, with every reference renamed.\<close>

definition swap_index :: "nat \<Rightarrow> nat \<Rightarrow> nat \<Rightarrow> nat" where
  "swap_index a b i = (if i = a then b else if i = b then a else i)"

fun remap_node :: "nat \<Rightarrow> nat \<Rightarrow> node \<Rightarrow> node" where
  "remap_node a b (ObjectNode ps req add) = ObjectNode (map (apsnd (swap_index a b)) ps) req add"
| "remap_node a b (ArrayNode i) = ArrayNode (swap_index a b i)"
| "remap_node a b n = n"

definition remap :: "node list \<Rightarrow> nat \<Rightarrow> nat \<Rightarrow> node list" where
  "remap ns a b = map (remap_node a b) ns"

definition compile :: "(json \<Rightarrow> utext) \<Rightarrow> json \<Rightarrow> schema_error + schema" where
  "compile canonical schema =
     (case compile_node canonical schema [] 0 of
        Inl e \<Rightarrow> Inl e
      | Inr (r, ns) \<Rightarrow>
          Inr (if r \<noteq> 0 then remap (ns[0 := ns ! r, r := ns ! 0]) 0 r else ns))"

definition with_any_node :: "schema \<Rightarrow> schema" where
  "with_any_node ns = (if AnyNode \<in> set ns then ns else ns @ [AnyNode])"

end
