(* ===== verification/Json_Machine.thy ===== *)
theory Json_Machine
  imports Json_Schema
begin

text \<open>
  The second half of \<open>vapi-engine/src/structured.rs\<close>: the machine that reads an answer one
  character at a time and says whether it is still on a path to a document of the schema.  The
  stack of frames is a list with its top first.  A handler that returns \<open>true\<close> yields \<open>Accept\<close>
  with the new machine, \<open>false\<close> is \<open>Refuse\<close> (the source leaves the machine unspecified then), and
  an index past the arena is \<open>Panic\<close>.
\<close>

section \<open>State\<close>

datatype obj_state = OStart | OKey | OColon | OValue | ONext | OKeyExpected
datatype arr_state = AStart | AValue | ANext | AValueExpected

datatype frame =
    FValue (f_node: nat)
  | FStr (f_escape: nat) (f_len: nat)
  | FNumber (f_integer: bool) (f_seen_digit: bool) (f_seen_dot: bool) (f_seen_exp: bool)
      (f_exp_digit: bool) (f_after_sign: bool) (f_number_len: nat)
  | FWord (f_alts: "utext list") (f_at: nat)
  | FObject (f_object: nat) (f_state: obj_state) (f_seen: "nat list") (f_key: utext) (f_key_escape: nat)
  | FArray (f_items: nat) (f_arr_state: arr_state)

record machine =
  m_schema :: schema
  stack :: "frame list"
  doc_done :: bool
  doc_started :: bool
  ws_run :: nat

datatype verdict = Panic | Refuse | Accept machine

definition MAX_WS_RUN :: nat where
  "MAX_WS_RUN = 16"

definition MAX_NUMBER_CHARS :: nat where
  "MAX_NUMBER_CHARS = 32"

definition MAX_STRING_CHARS :: nat where
  "MAX_STRING_CHARS = 8192"

definition is_json_ws :: "uchar \<Rightarrow> bool" where
  "is_json_ws c = (c = 32 \<or> c = 9 \<or> c = 10 \<or> c = 13)"

definition machine_new :: "schema \<Rightarrow> machine" where
  "machine_new ns = \<lparr>m_schema = ns, stack = [FValue 0], doc_done = False, doc_started = False, ws_run = 0\<rparr>"

definition machine_complete :: "machine \<Rightarrow> bool" where
  "machine_complete m =
     (doc_done m \<or>
      (case stack m of
         [FNumber _ seen_digit _ seen_exp exp_digit _ _] \<Rightarrow> seen_digit \<and> (\<not> seen_exp \<or> exp_digit)
       | _ \<Rightarrow> False))"

definition in_string_body :: "machine \<Rightarrow> bool" where
  "in_string_body m =
     (case stack m of
        FStr _ _ # _ \<Rightarrow> True
      | FObject _ OKey _ _ _ # _ \<Rightarrow> True
      | _ \<Rightarrow> False)"

definition depth :: "machine \<Rightarrow> nat" where
  "depth m = length (filter (\<lambda>f. case f of FObject _ _ _ _ _ \<Rightarrow> True | FArray _ _ \<Rightarrow> True | _ \<Rightarrow> False) (stack m))"

section \<open>Values\<close>

definition finish_value :: "machine \<Rightarrow> verdict" where
  "finish_value m =
     (case tl (stack m) of
        [] \<Rightarrow> Accept (m\<lparr>stack := [], doc_done := True\<rparr>)
      | FObject n _ seen key e # fs \<Rightarrow> Accept (m\<lparr>stack := FObject n ONext seen key e # fs\<rparr>)
      | FArray i _ # fs \<Rightarrow> Accept (m\<lparr>stack := FArray i ANext # fs\<rparr>)
      | _ \<Rightarrow> Refuse)"

definition set_top :: "frame \<Rightarrow> machine \<Rightarrow> machine" where
  "set_top f m = m\<lparr>stack := f # tl (stack m)\<rparr>"

definition settle_word :: "machine \<Rightarrow> verdict" where
  "settle_word m =
     (case stack m of
        FWord alts pos # _ \<Rightarrow>
          if list_ex (\<lambda>a. length (utf8 a) = pos) alts then finish_value m else Accept m
      | _ \<Rightarrow> Accept m)"

text \<open>The frame that a character opens for a node that is not a typed container or a choice.\<close>

definition allowed_start :: "node \<Rightarrow> uchar \<Rightarrow> frame option" where
  "allowed_start n c =
     (if n \<in> {AnyNode, StrNode} \<and> c = c_quote then Some (FStr 0 0)
      else if n = AnyNode \<and> c = c_lbrace then Some (FObject free_node OStart [] [] 0)
      else if n = AnyNode \<and> c = c_lbracket then Some (FArray free_node AStart)
      else if n \<in> {AnyNode, NumberNode True, NumberNode False} \<and> (c = c_minus \<or> is_digit c) then
        Some (FNumber (n = NumberNode True) (c \<noteq> c_minus) False False False (c = c_minus) 1)
      else if n \<in> {AnyNode, BoolNode} \<and> (c = c_t \<or> c = c_f) then
        Some (FWord [if c = c_t then lit ''true'' else lit ''false''] 1)
      else if n \<in> {AnyNode, NullNode} \<and> c = c_n then Some (FWord [lit ''null''] 1)
      else None)"

definition start_frame :: "nat \<Rightarrow> node \<Rightarrow> uchar \<Rightarrow> frame option" where
  "start_frame i n c =
     (case n of
        ObjectNode _ _ _ \<Rightarrow> if c = c_lbrace then Some (FObject i OStart [] [] 0) else None
      | ArrayNode items \<Rightarrow> if c = c_lbracket then Some (FArray items AStart) else None
      | ChoiceNode options \<Rightarrow>
          (let alts = filter (\<lambda>a. prefix [c] a) options
           in if alts = [] then None else Some (FWord alts 1))
      | _ \<Rightarrow> allowed_start n c)"

definition start_value :: "nat \<Rightarrow> uchar \<Rightarrow> machine \<Rightarrow> verdict" where
  "start_value i c m =
     (if is_json_ws c then Accept m
      else case index (m_schema m) i of
        None \<Rightarrow> Panic
      | Some n \<Rightarrow>
          (case start_frame i n c of None \<Rightarrow> Refuse | Some f \<Rightarrow> settle_word (set_top f m)))"

section \<open>Strings, numbers and words\<close>

definition escape_ok :: "nat \<Rightarrow> uchar \<Rightarrow> bool" where
  "escape_ok escape c =
     (if escape = 5
      then c \<in> {c_quote, c_backslash, c_slash, c_b, c_f, c_n, c_r, c_t, c_u}
      else is_ascii_hexdigit c)"

definition escape_next :: "nat \<Rightarrow> uchar \<Rightarrow> nat" where
  "escape_next escape c = (if escape = 5 then (if c = c_u then 4 else 0) else escape - 1)"

definition in_string :: "nat \<Rightarrow> nat \<Rightarrow> uchar \<Rightarrow> machine \<Rightarrow> verdict" where
  "in_string escape len c m =
     (if len \<ge> MAX_STRING_CHARS \<and> c \<noteq> c_quote then Refuse
      else if escape > 0 then
        (if escape_ok escape c then Accept (set_top (FStr (escape_next escape c) (len + 1)) m) else Refuse)
      else if c = c_quote then finish_value (set_top (FStr escape (len + 1)) m)
      else if c = c_backslash then Accept (set_top (FStr 5 (len + 1)) m)
      else if c < 32 then Refuse
      else Accept (set_top (FStr escape (len + 1)) m))"

text \<open>
  A number ends at the first character that cannot continue it, and that character belongs to what
  comes next: \<open>Inr\<close> is the machine on which the character is pushed again.
\<close>

definition in_number ::
  "bool \<Rightarrow> bool \<Rightarrow> bool \<Rightarrow> bool \<Rightarrow> bool \<Rightarrow> bool \<Rightarrow> nat \<Rightarrow> uchar \<Rightarrow> machine \<Rightarrow> verdict + machine" where
  "in_number integer seen_digit seen_dot seen_exp exp_digit after_sign len c m =
     (if len \<ge> MAX_NUMBER_CHARS \<and> (is_digit c \<or> c \<in> {c_dot, c_e, c_E, c_plus, c_minus}) then Inl Refuse
      else if is_digit c then
        Inl (Accept (set_top (FNumber integer (if seen_exp then seen_digit else True) seen_dot seen_exp
               (if seen_exp then True else exp_digit) False (len + 1)) m))
      else if c = c_dot \<and> \<not> integer \<and> \<not> seen_dot \<and> \<not> seen_exp \<and> seen_digit then
        Inl (Accept (set_top (FNumber integer False True seen_exp exp_digit after_sign (len + 1)) m))
      else if (c = c_e \<or> c = c_E) \<and> \<not> integer \<and> \<not> seen_exp \<and> seen_digit then
        Inl (Accept (set_top (FNumber integer seen_digit seen_dot True exp_digit False (len + 1)) m))
      else if (c = c_plus \<or> c = c_minus) \<and> seen_exp \<and> \<not> exp_digit \<and> \<not> after_sign then
        Inl (Accept (set_top (FNumber integer seen_digit seen_dot seen_exp exp_digit True (len + 1)) m))
      else if \<not> (seen_digit \<and> (\<not> seen_exp \<or> exp_digit)) then Inl Refuse
      else case finish_value (set_top
             (FNumber integer seen_digit seen_dot seen_exp exp_digit after_sign (len + 1)) m) of
        Accept m' \<Rightarrow> Inr m'
      | v \<Rightarrow> Inl v)"

definition in_word :: "utext list \<Rightarrow> nat \<Rightarrow> uchar \<Rightarrow> machine \<Rightarrow> verdict" where
  "in_word alts pos c m =
     (let alts' = filter (\<lambda>a. index (utf8 a) pos = Some c) alts
      in if alts' = [] then Refuse else settle_word (set_top (FWord alts' (pos + 1)) m))"

section \<open>Objects\<close>

definition close_object :: "nat \<Rightarrow> nat list \<Rightarrow> machine \<Rightarrow> verdict" where
  "close_object i seen m =
     (if i = free_node then finish_value m
      else case index (m_schema m) i of
        None \<Rightarrow> Panic
      | Some (ObjectNode _ required _) \<Rightarrow>
          if list_all (\<lambda>r. r \<in> set seen) required then finish_value m else Refuse
      | Some _ \<Rightarrow> finish_value m)"

definition keys_are_free :: "schema \<Rightarrow> nat \<Rightarrow> bool option" where
  "keys_are_free ns i =
     (if i = free_node then Some True
      else case index ns i of
        None \<Rightarrow> None
      | Some (ObjectNode _ _ additional) \<Rightarrow> Some additional
      | Some _ \<Rightarrow> Some False)"

text \<open>A property that has not been seen and whose name starts with the given text.\<close>

definition unseen_with_prefix :: "(utext \<times> nat) list \<Rightarrow> nat list \<Rightarrow> utext \<Rightarrow> bool" where
  "unseen_with_prefix ps seen partial =
     list_ex (\<lambda>(i, (name, _)). i \<notin> set seen \<and> prefix partial name) (enumerate 0 ps)"

definition key_possible :: "schema \<Rightarrow> nat \<Rightarrow> nat list \<Rightarrow> utext \<Rightarrow> bool option" where
  "key_possible ns i seen partial =
     (if i = free_node then Some True
      else case index ns i of
        None \<Rightarrow> None
      | Some (ObjectNode ps _ additional) \<Rightarrow> Some (additional \<or> unseen_with_prefix ps seen partial)
      | Some _ \<Rightarrow> Some False)"

text \<open>\<open>check_key\<close> closes a key: \<open>Some (Some seen')\<close> accepts it with the new list of seen properties.\<close>

definition check_key :: "schema \<Rightarrow> nat \<Rightarrow> nat list \<Rightarrow> utext \<Rightarrow> nat list option option" where
  "check_key ns i seen key =
     (if i = free_node then Some (Some seen)
      else case index ns i of
        None \<Rightarrow> None
      | Some (ObjectNode ps _ additional) \<Rightarrow>
          Some (case position (\<lambda>p. fst p = key) ps of
                  Some j \<Rightarrow> if j \<in> set seen then None else Some (seen @ [j])
                | None \<Rightarrow> if additional then Some seen else None)
      | Some _ \<Rightarrow> Some None)"

definition any_node :: "schema \<Rightarrow> nat" where
  "any_node ns = (case position (\<lambda>n. n = AnyNode) ns of Some i \<Rightarrow> i | None \<Rightarrow> free_node)"

definition value_node_for :: "schema \<Rightarrow> nat \<Rightarrow> utext \<Rightarrow> nat option option" where
  "value_node_for ns i key =
     (if i = free_node then Some (Some (any_node ns))
      else case index ns i of
        None \<Rightarrow> None
      | Some (ObjectNode ps _ additional) \<Rightarrow>
          Some (case find (\<lambda>p. fst p = key) ps of
                  Some (_, j) \<Rightarrow> Some j
                | None \<Rightarrow> if additional then Some (any_node ns) else None)
      | Some _ \<Rightarrow> Some None)"

definition in_key :: "nat \<Rightarrow> nat list \<Rightarrow> utext \<Rightarrow> nat \<Rightarrow> uchar \<Rightarrow> machine \<Rightarrow> verdict" where
  "in_key i seen key escape c m =
     (case keys_are_free (m_schema m) i of
        None \<Rightarrow> Panic
      | Some free \<Rightarrow>
          if escape > 0 then
            (if escape_ok escape c
             then Accept (set_top (FObject i OKey seen (key @ [c]) (escape_next escape c)) m)
             else Refuse)
          else if c = c_quote then
            (case check_key (m_schema m) i seen key of
               None \<Rightarrow> Panic
             | Some None \<Rightarrow> Refuse
             | Some (Some seen') \<Rightarrow> Accept (set_top (FObject i OColon seen' key escape) m))
          else if c = c_backslash then
            (if free then Accept (set_top (FObject i OKey seen (key @ [c]) 5) m) else Refuse)
          else if c < 32 then Refuse
          else
            (case key_possible (m_schema m) i seen (key @ [c]) of
               None \<Rightarrow> Panic
             | Some ok \<Rightarrow>
                 if ok then Accept (set_top (FObject i OKey seen (key @ [c]) escape) m) else Refuse))"

definition in_object ::
  "nat \<Rightarrow> obj_state \<Rightarrow> nat list \<Rightarrow> utext \<Rightarrow> nat \<Rightarrow> uchar \<Rightarrow> machine \<Rightarrow> verdict" where
  "in_object i st seen key escape c m =
     (if keys_are_free (m_schema m) i = None then Panic
      else case st of
        OKey \<Rightarrow> in_key i seen key escape c m
      | OColon \<Rightarrow>
          if is_json_ws c then Accept m
          else if c \<noteq> c_colon then Refuse
          else (case value_node_for (m_schema m) i key of
                  None \<Rightarrow> Panic
                | Some None \<Rightarrow> Refuse
                | Some (Some n) \<Rightarrow>
                    Accept (m\<lparr>stack := FValue n # FObject i OValue seen key escape # tl (stack m)\<rparr>))
      | OValue \<Rightarrow> Refuse
      | ONext \<Rightarrow>
          if is_json_ws c then Accept m
          else if c = c_comma then Accept (set_top (FObject i OKeyExpected seen key escape) m)
          else if c = c_rbrace then close_object i seen m
          else Refuse
      | _ \<Rightarrow>
          if is_json_ws c then Accept m
          else if c = c_rbrace \<and> st = OStart then close_object i seen m
          else if c \<noteq> c_quote then Refuse
          else Accept (set_top (FObject i OKey seen [] 0) m))"

section \<open>Arrays\<close>

definition in_array :: "nat \<Rightarrow> arr_state \<Rightarrow> uchar \<Rightarrow> machine \<Rightarrow> verdict + machine" where
  "in_array items st c m =
     (case st of
        AValue \<Rightarrow> Inl Refuse
      | ANext \<Rightarrow>
          if is_json_ws c then Inl (Accept m)
          else if c = c_comma then Inl (Accept (set_top (FArray items AValueExpected) m))
          else if c = c_rbracket then Inl (finish_value m)
          else Inl Refuse
      | _ \<Rightarrow>
          if is_json_ws c then Inl (Accept m)
          else if c = c_rbracket \<and> st = AStart then Inl (finish_value m)
          else let n = (if items = free_node then any_node (m_schema m) else items)
               in if n = free_node then Inl Refuse
                  else Inr (m\<lparr>stack := FValue n # FArray items AValue # tl (stack m)\<rparr>))"

section \<open>One character\<close>

text \<open>The whitespace guard at the head of \<open>push_char\<close>.\<close>

definition note_ws :: "uchar \<Rightarrow> machine \<Rightarrow> machine option" where
  "note_ws c m =
     (if is_json_ws c \<and> \<not> in_string_body m then
        (if \<not> doc_started m \<or> ws_run m \<ge> MAX_WS_RUN then None else Some (m\<lparr>ws_run := ws_run m + 1\<rparr>))
      else Some (m\<lparr>doc_started := True, ws_run := 0\<rparr>))"

text \<open>The dispatch on the top frame; \<open>Inr\<close> is a second \<open>push_char\<close> of the same character.\<close>

definition push_frame :: "uchar \<Rightarrow> machine \<Rightarrow> verdict + machine" where
  "push_frame c m =
     (case stack m of
        [] \<Rightarrow> Inl Refuse
      | FValue n # _ \<Rightarrow> Inl (start_value n c m)
      | FStr escape len # _ \<Rightarrow> Inl (in_string escape len c m)
      | FNumber i d dot e ed s len # _ \<Rightarrow> in_number i d dot e ed s len c m
      | FWord alts pos # _ \<Rightarrow> Inl (in_word alts pos c m)
      | FObject i st seen key escape # _ \<Rightarrow> Inl (in_object i st seen key escape c m)
      | FArray items st # _ \<Rightarrow> in_array items st c m)"

definition again_rank :: "machine \<Rightarrow> nat" where
  "again_rank m =
     (if doc_done m then 0
      else case stack m of
        FNumber _ _ _ _ _ _ _ # _ \<Rightarrow> 2
      | FArray _ st # _ \<Rightarrow> if st = ANext then 0 else 1
      | _ \<Rightarrow> 0)"

lemma finish_value_rank: "finish_value m = Accept m' \<Longrightarrow> again_rank m' = 0"
  by (auto simp: finish_value_def again_rank_def split: list.splits frame.splits)

lemma note_ws_Some:
  "note_ws c m = Some m' \<Longrightarrow>
   m_schema m' = m_schema m \<and> stack m' = stack m \<and> doc_done m' = doc_done m"
  by (auto simp: note_ws_def split: if_splits)

lemma push_frame_rank:
  assumes "push_frame c m = Inr m'" "\<not> doc_done m"
  shows "again_rank m' < again_rank m"
proof (cases "stack m")
  case Nil
  with assms show ?thesis by (simp add: push_frame_def)
next
  case (Cons f fs)
  show ?thesis
  proof (cases f)
    case FNumber
    with assms Cons have "again_rank m' = 0"
      by (auto simp: push_frame_def in_number_def dest!: finish_value_rank
            split: if_splits verdict.splits)
    with assms Cons FNumber show ?thesis by (simp add: again_rank_def)
  next
    case FArray
    with assms Cons show ?thesis
      by (auto simp: push_frame_def in_array_def again_rank_def Let_def
            split: if_splits arr_state.splits)
  qed (use assms Cons in \<open>simp_all add: push_frame_def\<close>)
qed

function push_char :: "uchar \<Rightarrow> machine \<Rightarrow> verdict" where
  "push_char c m =
     (case note_ws c m of
        None \<Rightarrow> Refuse
      | Some m1 \<Rightarrow>
          if doc_done m1 then (if is_json_ws c then Accept m1 else Refuse)
          else (case push_frame c m1 of Inl v \<Rightarrow> v | Inr m2 \<Rightarrow> push_char c m2))"
  by auto
termination
proof (relation "measure (\<lambda>(c, m). again_rank m)", goal_cases)
  case (2 c m m1 m2)
  then show ?case using push_frame_rank [of c m1 m2] note_ws_Some [of c m m1]
    by (simp add: again_rank_def)
qed simp

declare push_char.simps [simp del]

fun push :: "utext \<Rightarrow> machine \<Rightarrow> verdict" where
  "push [] m = Accept m"
| "push (c # cs) m = (case push_char c m of Accept m' \<Rightarrow> push cs m' | v \<Rightarrow> v)"

section \<open>Viability\<close>

definition object_viable :: "(utext \<times> nat) list \<Rightarrow> nat list \<Rightarrow> bool \<Rightarrow> obj_state \<Rightarrow> nat list \<Rightarrow> utext \<Rightarrow> bool" where
  "object_viable ps required additional st seen key =
     (let more_possible = additional \<or> list_ex (\<lambda>i. i \<notin> set seen) [0..<length ps];
          can_close = list_all (\<lambda>r. r \<in> set seen) required
      in case st of
           OKeyExpected \<Rightarrow> more_possible
         | OKey \<Rightarrow> additional \<or> unseen_with_prefix ps seen key
         | OColon \<Rightarrow> True
         | OValue \<Rightarrow> True
         | _ \<Rightarrow> can_close \<or> more_possible)"

definition frame_viable :: "schema \<Rightarrow> frame \<Rightarrow> bool option" where
  "frame_viable ns f =
     (case f of
        FWord alts _ \<Rightarrow> Some (alts \<noteq> [])
      | FObject i st seen key _ \<Rightarrow>
          if i = free_node then Some True
          else (case index ns i of
                  None \<Rightarrow> None
                | Some (ObjectNode ps required additional) \<Rightarrow>
                    Some (object_viable ps required additional st seen key)
                | Some _ \<Rightarrow> Some False)
      | _ \<Rightarrow> Some True)"

text \<open>\<open>Iterator::all\<close> with a test that may panic, from the bottom of the stack upwards.\<close>

fun all_frames :: "schema \<Rightarrow> frame list \<Rightarrow> bool option" where
  "all_frames ns [] = Some True"
| "all_frames ns (f # fs) =
     (case frame_viable ns f of None \<Rightarrow> None | Some b \<Rightarrow> if b then all_frames ns fs else Some False)"

definition viable :: "machine \<Rightarrow> bool option" where
  "viable m = (if doc_done m then Some True else all_frames (m_schema m) (rev (stack m)))"

definition allows :: "utext \<Rightarrow> machine \<Rightarrow> bool option" where
  "allows text m = (case push text m of Panic \<Rightarrow> None | Refuse \<Rightarrow> Some False | Accept m' \<Rightarrow> viable m')"

definition completes_with :: "utext \<Rightarrow> machine \<Rightarrow> bool option" where
  "completes_with text m =
     (case push text m of Panic \<Rightarrow> None | Refuse \<Rightarrow> Some False | Accept m' \<Rightarrow> Some (machine_complete m'))"

end
