(* ===== verification/Json_Invariant.thy ===== *)
theory Json_Invariant
  imports Json_Machine
begin

text \<open>
  The well-formed arenas and the invariant of the machine: every node a frame names exists, the
  frames below the top one are containers that wait for a value, and a finished document has an
  empty stack.  Under it no handler indexes past the arena (\<open>push_char_safe\<close>), and the case that
  the source calls impossible in \<open>finish_value\<close> is.
\<close>

section \<open>Arenas\<close>

fun node_wf :: "nat \<Rightarrow> node \<Rightarrow> bool" where
  "node_wf len (ObjectNode ps req add) =
     (list_all (\<lambda>p. snd p < len) ps \<and> list_all (\<lambda>r. r < length ps) req \<and> distinct (map fst ps) \<and>
      (ps = [] \<longrightarrow> add))"
| "node_wf len (ArrayNode k) = (k < len)"
| "node_wf len (ChoiceNode options) = (options \<noteq> [] \<and> [] \<notin> set options)"
| "node_wf len n = True"

definition arena_wf :: "schema \<Rightarrow> bool" where
  "arena_wf ns = (ns \<noteq> [] \<and> list_all (node_wf (length ns)) ns)"

definition schema_wf :: "schema \<Rightarrow> bool" where
  "schema_wf ns = (arena_wf ns \<and> AnyNode \<in> set ns \<and> length ns \<le> free_node)"

lemma position_Some: "position P xs = Some i \<Longrightarrow> i < length xs \<and> P (xs ! i)"
  by (induction xs arbitrary: i) (auto split: if_splits)

lemma position_None: "position P xs = None \<longleftrightarrow> (\<forall>x\<in>set xs. \<not> P x)"
  by (induction xs) auto

lemma find_position: "find P xs = map_option (\<lambda>i. xs ! i) (position P xs)"
  by (induction xs) (auto simp: option.map_comp comp_def)

lemma any_node_ok:
  assumes "schema_wf ns"
  shows "any_node ns < length ns" "any_node ns \<noteq> free_node" "ns ! any_node ns = AnyNode"
proof -
  from assms obtain i where "position (\<lambda>n. n = AnyNode) ns = Some i"
    by (cases "position (\<lambda>n. n = AnyNode) ns") (auto simp: schema_wf_def position_None)
  with position_Some [OF this] assms
  show "any_node ns < length ns" "any_node ns \<noteq> free_node" "ns ! any_node ns = AnyNode"
    by (auto simp: any_node_def schema_wf_def)
qed

lemma schema_wf_node: "schema_wf ns \<Longrightarrow> i < length ns \<Longrightarrow> node_wf (length ns) (ns ! i)"
  by (simp add: schema_wf_def arena_wf_def list_all_length)

lemma schema_wf_free: "schema_wf ns \<Longrightarrow> i < length ns \<Longrightarrow> i \<noteq> free_node"
  by (auto simp: schema_wf_def)

section \<open>Frames\<close>

definition is_object :: "schema \<Rightarrow> nat \<Rightarrow> bool" where
  "is_object ns i = (i = free_node \<or> (\<exists>ps req add. index ns i = Some (ObjectNode ps req add)))"

fun frame_ok :: "schema \<Rightarrow> frame \<Rightarrow> bool" where
  "frame_ok ns (FValue n) = (n < length ns)"
| "frame_ok ns (FObject i st seen key e) =
     (is_object ns i \<and> (st = OKey \<and> e > 0 \<longrightarrow> keys_are_free ns i = Some True))"
| "frame_ok ns (FArray k st) = (k = free_node \<or> k < length ns)"
| "frame_ok ns (FWord alts pos) = (alts \<noteq> [])"
| "frame_ok ns (FNumber i d dot e ed s len) = (ed \<longrightarrow> e)"
| "frame_ok ns f = True"

fun waiting :: "frame \<Rightarrow> bool" where
  "waiting (FObject i st seen key e) = (st = OValue)"
| "waiting (FArray k st) = (st = AValue)"
| "waiting f = False"

definition machine_ok :: "machine \<Rightarrow> bool" where
  "machine_ok m =
     (schema_wf (m_schema m) \<and> (doc_done m \<longleftrightarrow> stack m = []) \<and>
      list_all (frame_ok (m_schema m)) (stack m) \<and> list_all waiting (tl (stack m)))"

definition safe :: "verdict \<Rightarrow> bool" where
  "safe v = (v \<noteq> Panic \<and> (\<forall>m. v = Accept m \<longrightarrow> machine_ok m))"

lemma safe_simps [simp]: "safe Refuse" "safe (Accept m) \<longleftrightarrow> machine_ok m" "\<not> safe Panic"
  by (auto simp: safe_def)

lemma safe_if [simp]: "safe (if b then v else v') \<longleftrightarrow> (if b then safe v else safe v')"
  by simp

lemma machine_new_ok: "schema_wf ns \<Longrightarrow> machine_ok (machine_new ns)"
  by (simp add: machine_ok_def machine_new_def schema_wf_def arena_wf_def)

lemma machine_ok_cong:
  "machine_ok m \<Longrightarrow> m_schema m' = m_schema m \<Longrightarrow> stack m' = stack m \<Longrightarrow> doc_done m' = doc_done m \<Longrightarrow> machine_ok m'"
  by (simp add: machine_ok_def)

lemma set_top_ok:
  "machine_ok m \<Longrightarrow> stack m \<noteq> [] \<Longrightarrow> frame_ok (m_schema m) f \<Longrightarrow> machine_ok (set_top f m)"
  by (cases "stack m") (auto simp: machine_ok_def set_top_def)

lemma set_top_sel [simp]:
  "stack (set_top f m) = f # tl (stack m)" "m_schema (set_top f m) = m_schema m"
  "doc_done (set_top f m) = doc_done m"
  by (simp_all add: set_top_def)

lemma finish_value_ok:
  assumes "machine_ok m" "stack m \<noteq> []"
  shows "\<exists>m'. finish_value m = Accept m' \<and> machine_ok m'"
proof -
  from assms(2) obtain f fs where st: "stack m = f # fs" by (cases "stack m") auto
  show ?thesis
  proof (cases fs)
    case Nil
    with st assms show ?thesis by (auto simp: finish_value_def machine_ok_def)
  next
    case (Cons g gs)
    with st assms have "waiting g" by (simp add: machine_ok_def)
    with Cons st assms show ?thesis by (cases g) (auto simp: finish_value_def machine_ok_def)
  qed
qed

lemma finish_value_safe [intro]: "machine_ok m \<Longrightarrow> stack m \<noteq> [] \<Longrightarrow> safe (finish_value m)"
  using finish_value_ok by fastforce

lemma settle_word_safe: "machine_ok m \<Longrightarrow> stack m \<noteq> [] \<Longrightarrow> safe (settle_word m)"
  by (auto simp: settle_word_def split: list.splits frame.splits)

section \<open>The handlers\<close>

lemma start_frame_ok:
  assumes "schema_wf ns" "index ns i = Some n" "start_frame i n c = Some f"
  shows "frame_ok ns f"
proof (cases n)
  case (ArrayNode k)
  with assms schema_wf_node [of ns i] show ?thesis by (auto simp: start_frame_def split: if_splits)
qed (use assms in \<open>auto simp: start_frame_def allowed_start_def is_object_def Let_def split: if_splits\<close>)

lemma start_value_safe:
  assumes "machine_ok m" "stack m = FValue i # fs"
  shows "safe (start_value i c m)"
proof -
  from assms have i: "i < length (m_schema m)" by (simp add: machine_ok_def)
  show ?thesis
  proof (cases "is_json_ws c")
    case True
    with assms show ?thesis by (simp add: start_value_def)
  next
    case False
    show ?thesis
    proof (cases "start_frame i (m_schema m ! i) c")
      case None
      with False i show ?thesis by (simp add: start_value_def index_run)
    next
      case (Some f)
      with assms i have "frame_ok (m_schema m) f"
        using start_frame_ok [of "m_schema m" i "m_schema m ! i" c f] by (simp add: machine_ok_def)
      with assms have "machine_ok (set_top f m)" by (simp add: set_top_ok)
      with Some False i show ?thesis by (simp add: start_value_def index_run settle_word_safe)
    qed
  qed
qed

lemma in_string_safe: "machine_ok m \<Longrightarrow> stack m \<noteq> [] \<Longrightarrow> safe (in_string e l c m)"
  by (auto simp: in_string_def set_top_ok)

lemma in_word_safe: "machine_ok m \<Longrightarrow> stack m \<noteq> [] \<Longrightarrow> safe (in_word alts pos c m)"
  by (auto simp: in_word_def Let_def set_top_ok intro!: settle_word_safe)

definition safe_or_again :: "verdict + machine \<Rightarrow> bool" where
  "safe_or_again r = (case r of Inl v \<Rightarrow> safe v | Inr m \<Rightarrow> machine_ok m)"

lemma in_number_safe:
  assumes "machine_ok m" "stack m = FNumber i d dot e ed s len # fs"
  shows "safe_or_again (in_number i d dot e ed s len c m)"
proof -
  from assms have "ed \<longrightarrow> e" by (simp add: machine_ok_def)
  note assms = assms this
  have "\<exists>m'. finish_value (set_top (FNumber i d dot e ed s (len + 1)) m) = Accept m' \<and> machine_ok m'"
    by (intro finish_value_ok set_top_ok) (use assms in auto)
  with assms show ?thesis by (auto simp: in_number_def safe_or_again_def set_top_ok)
qed

lemma object_index:
  assumes "is_object ns i" "i \<noteq> free_node"
  obtains ps req add where "index ns i = Some (ObjectNode ps req add)"
  using assms by (auto simp: is_object_def)

lemma keys_are_free_total: "is_object ns i \<Longrightarrow> \<exists>free. keys_are_free ns i = Some free"
  by (cases "i = free_node") (auto simp: keys_are_free_def is_object_def index_run)

lemma close_object_safe:
  "machine_ok m \<Longrightarrow> stack m \<noteq> [] \<Longrightarrow> is_object (m_schema m) i \<Longrightarrow> safe (close_object i seen m)"
  by (auto simp: close_object_def is_object_def index_run)

lemma in_key_safe:
  assumes "machine_ok m" "stack m = FObject i OKey seen key e # fs"
  shows "safe (in_key i seen key e c m)"
proof -
  from assms have ob: "is_object (m_schema m) i" "e > 0 \<Longrightarrow> keys_are_free (m_schema m) i = Some True"
    and ne: "stack m \<noteq> []" by (auto simp: machine_ok_def)
  have top: "machine_ok (set_top (FObject i st seen' key' e') m)"
    if "st = OKey \<and> e' > 0 \<longrightarrow> keys_are_free (m_schema m) i = Some True" for st seen' key' e'
    by (rule set_top_ok) (use assms(1) ne ob(1) that in auto)
  obtain free where fr: "keys_are_free (m_schema m) i = Some free"
    using keys_are_free_total [OF ob(1)] by blast
  have ck: "check_key (m_schema m) i seen key \<noteq> None" and kp: "key_possible (m_schema m) i seen (key @ [c]) \<noteq> None"
    using ob(1) by (auto simp: check_key_def key_possible_def is_object_def index_run)
  have esc: "e > 0 \<Longrightarrow> free" using ob(2) fr by simp
  show ?thesis
  proof (cases "e > 0")
    case True
    with fr esc top show ?thesis by (simp add: in_key_def)
  next
    case False
    with fr ck kp top show ?thesis
      by (cases "check_key (m_schema m) i seen key"; cases "the (check_key (m_schema m) i seen key)") (auto simp: in_key_def)
  qed
qed

lemma value_node_ok:
  assumes "schema_wf ns" "is_object ns i" "value_node_for ns i key = r"
  shows "\<exists>o'. r = Some o' \<and> (\<forall>n. o' = Some n \<longrightarrow> n < length ns)"
proof (cases "i = free_node")
  case True
  with assms any_node_ok show ?thesis by (auto simp: value_node_for_def)
next
  case False
  with assms(2) obtain ps req add where ix: "index ns i = Some (ObjectNode ps req add)"
    by (rule object_index)
  then have "list_all (\<lambda>p. snd p < length ns) ps" using schema_wf_node [OF assms(1), of i] by auto
  then have "snd p < length ns" if "find (\<lambda>p. fst p = key) ps = Some p" for p
    using that by (auto simp: find_Some_iff list_all_length)
  with ix False assms(3) any_node_ok [OF assms(1)] show ?thesis
    by (cases "find (\<lambda>p. fst p = key) ps") (auto simp: value_node_for_def index_run)
qed

lemma in_object_safe:
  assumes "machine_ok m" "stack m = FObject i st seen key e # fs"
  shows "safe (in_object i st seen key e c m)"
proof -
  from assms have ob: "is_object (m_schema m) i" and ne: "stack m \<noteq> []" and wf: "schema_wf (m_schema m)"
    by (auto simp: machine_ok_def)
  then have fr: "keys_are_free (m_schema m) i \<noteq> None"
    using keys_are_free_total by auto
  have top: "machine_ok (set_top (FObject i st' seen' key' e') m)" if "st' = OKey \<longrightarrow> e' = 0" for st' seen' key' e'
    by (rule set_top_ok) (use assms(1) ne ob that in auto)
  show ?thesis
  proof (cases st)
    case OKey
    with assms fr in_key_safe show ?thesis by (simp add: in_object_def)
  next
    case OColon
    obtain o' where o': "value_node_for (m_schema m) i key = Some o'"
      "\<And>n. o' = Some n \<Longrightarrow> n < length (m_schema m)"
      using value_node_ok [OF wf ob refl] by blast
    have "machine_ok (m\<lparr>stack := FValue n # FObject i OValue seen key e # tl (stack m)\<rparr>)"
      if "o' = Some n" for n
      using assms o'(2) [OF that] ob by (simp add: machine_ok_def)
    with OColon o'(1) fr assms(1) show ?thesis by (auto simp: in_object_def split: option.splits)
  qed (use fr assms(1) ne ob top close_object_safe in \<open>simp_all add: in_object_def\<close>)
qed

lemma in_array_safe:
  assumes "machine_ok m" "stack m = FArray k st # fs"
  shows "safe_or_again (in_array k st c m)"
proof -
  from assms have wf: "schema_wf (m_schema m)" and k: "k = free_node \<or> k < length (m_schema m)"
    and ne: "stack m \<noteq> []" by (auto simp: machine_ok_def)
  have n: "(if k = free_node then any_node (m_schema m) else k) < length (m_schema m)"
    using k any_node_ok [OF wf] by auto
  have "machine_ok (m\<lparr>stack := FValue n # FArray k AValue # tl (stack m)\<rparr>)" if "n < length (m_schema m)" for n
    using assms that k by (simp add: machine_ok_def)
  moreover have "machine_ok (set_top (FArray k AValueExpected) m)"
    by (rule set_top_ok) (use assms(1) ne k in auto)
  moreover have "safe (finish_value m)" using assms(1) ne by auto
  ultimately show ?thesis using assms(1) n
    by (cases st) (simp_all add: in_array_def safe_or_again_def Let_def)
qed

lemma push_frame_safe:
  assumes "machine_ok m" "\<not> doc_done m"
  shows "safe_or_again (push_frame c m)"
proof -
  from assms obtain f fs where st: "stack m = f # fs" by (cases "stack m") (auto simp: machine_ok_def)
  then show ?thesis
    using assms(1) start_value_safe [of m] in_string_safe [of m] in_number_safe [of m] in_word_safe [of m]
      in_object_safe [of m] in_array_safe [of m]
    by (cases f) (auto simp: push_frame_def safe_or_again_def)
qed

lemma push_char_safe: "machine_ok m \<Longrightarrow> safe (push_char c m)"
proof (induction c m rule: push_char.induct)
  case (1 c m)
  show ?case
  proof (cases "note_ws c m")
    case None
    then show ?thesis by (simp add: push_char.simps [of c m])
  next
    case (Some m1)
    from note_ws_Some [OF Some] have ok: "machine_ok m1" using 1(2) by (auto intro: machine_ok_cong)
    show ?thesis
    proof (cases "doc_done m1")
      case True
      with Some ok show ?thesis by (simp add: push_char.simps [of c m])
    next
      case False
      with push_frame_safe [OF ok False, of c] Some ok 1(1) [OF Some False] show ?thesis
        by (auto simp: push_char.simps [of c m] safe_or_again_def split: sum.splits)
    qed
  qed
qed

lemma push_safe: "machine_ok m \<Longrightarrow> safe (push t m)"
proof (induction t m rule: push.induct)
  case (2 c cs m)
  then show ?case using push_char_safe [of m c] by (cases "push_char c m") auto
qed simp

lemma all_frames_total:
  "list_all (frame_ok ns) fs \<Longrightarrow> all_frames ns fs \<noteq> None"
proof (induction fs)
  case (Cons f fs)
  then have "frame_viable ns f \<noteq> None"
    by (cases f) (auto simp: frame_viable_def is_object_def index_run)
  with Cons show ?case by auto
qed simp

lemma viable_total: "machine_ok m \<Longrightarrow> \<exists>b. viable m = Some b"
  using all_frames_total [of "m_schema m" "rev (stack m)"] by (auto simp: viable_def machine_ok_def)

lemma allows_total: "machine_ok m \<Longrightarrow> \<exists>b. allows t m = Some b"
  using push_safe [of m t] viable_total by (cases "push t m") (auto simp: allows_def)

section \<open>The schema never changes\<close>

lemma finish_value_schema: "finish_value m = Accept m' \<Longrightarrow> m_schema m' = m_schema m"
  by (auto simp: finish_value_def split: list.splits frame.splits)

lemma settle_word_schema: "settle_word m = Accept m' \<Longrightarrow> m_schema m' = m_schema m"
  by (auto simp: settle_word_def dest: finish_value_schema split: list.splits frame.splits if_splits)

lemma close_object_schema: "close_object i seen m = Accept m' \<Longrightarrow> m_schema m' = m_schema m"
  by (auto simp: close_object_def dest: finish_value_schema split: if_splits option.splits node.splits)

lemma in_key_schema: "in_key i seen key e c m = Accept m' \<Longrightarrow> m_schema m' = m_schema m"
  by (auto simp: in_key_def split: if_splits option.splits)

lemma in_object_schema: "in_object i st seen key e c m = Accept m' \<Longrightarrow> m_schema m' = m_schema m"
  by (cases st)
     (auto simp: in_object_def dest: close_object_schema in_key_schema split: if_splits option.splits)

lemma push_frame_schema:
  assumes "push_frame c m = Inl (Accept m') \<or> push_frame c m = Inr m'"
  shows "m_schema m' = m_schema m"
proof (cases "stack m")
  case Nil
  with assms show ?thesis by (simp add: push_frame_def)
next
  case (Cons f fs)
  show ?thesis
  proof (cases f)
    case FValue
    with Cons assms show ?thesis
      by (auto simp: push_frame_def start_value_def dest!: settle_word_schema split: if_splits option.splits)
  next
    case FStr
    with Cons assms show ?thesis
      by (auto simp: push_frame_def in_string_def dest!: finish_value_schema split: if_splits)
  next
    case FNumber
    with Cons assms show ?thesis
      by (auto simp: push_frame_def in_number_def dest!: finish_value_schema split: if_splits verdict.splits)
  next
    case FWord
    with Cons assms show ?thesis
      by (auto simp: push_frame_def in_word_def Let_def dest!: settle_word_schema split: if_splits)
  next
    case FObject
    with Cons assms show ?thesis by (auto simp: push_frame_def dest: in_object_schema)
  next
    case (FArray k st)
    with Cons assms show ?thesis
      by (cases st) (auto simp: push_frame_def in_array_def Let_def dest!: finish_value_schema split: if_splits)
  qed
qed

lemma push_char_schema: "push_char c m = Accept m' \<Longrightarrow> m_schema m' = m_schema m"
proof (induction c m rule: push_char.induct)
  case (1 c m)
  from 1(2) obtain m1 where m1: "note_ws c m = Some m1"
    by (auto simp: push_char.simps [of c m] split: option.splits)
  have "m_schema m' = m_schema m1"
  proof (cases "doc_done m1")
    case True
    with 1(2) m1 show ?thesis by (simp add: push_char.simps [of c m] split: if_splits)
  next
    case False
    show ?thesis
    proof (cases "push_frame c m1")
      case (Inl v)
      with 1(2) m1 False have "v = Accept m'" by (simp add: push_char.simps [of c m])
      with Inl push_frame_schema show ?thesis by blast
    next
      case (Inr m2)
      with 1(2) m1 False have "push_char c m2 = Accept m'" by (simp add: push_char.simps [of c m])
      with 1(1) [OF m1 False Inr] Inr push_frame_schema show ?thesis by metis
    qed
  qed
  with note_ws_Some [OF m1] show ?case by simp
qed

lemma push_schema: "push t m = Accept m' \<Longrightarrow> m_schema m' = m_schema m"
  by (induction t m rule: push.induct) (auto dest: push_char_schema split: verdict.splits)

end
