(* ===== verification/Json_Compile.thy ===== *)
theory Json_Compile
  imports Json_Invariant
begin

text \<open>
  What compilation guarantees: the arena it builds is well-formed (every reference in range, names
  of an object distinct, required properties declared), so the machine runs on it without a panic.
  A \<open>serde_json\<close> map has distinct keys and its printer never yields the empty text; both are
  hypotheses.
\<close>

fun keys_distinct :: "json \<Rightarrow> bool" where
  "keys_distinct (JArray js) = list_all keys_distinct js"
| "keys_distinct (JObject ms) = (distinct (map fst ms) \<and> list_all (\<lambda>p. keys_distinct (snd p)) ms)"
| "keys_distinct j = True"

lemma keys_distinct_jget: "keys_distinct (JObject obj) \<Longrightarrow> jget obj k = Some j \<Longrightarrow> keys_distinct j"
  by (auto simp: jget_def list_all_iff dest!: map_of_SomeD)

lemma node_wf_mono: "node_wf a n \<Longrightarrow> a \<le> b \<Longrightarrow> node_wf b n"
  by (cases n) (auto simp: list_all_iff)

definition wf_nodes :: "node list \<Rightarrow> bool" where
  "wf_nodes ns = list_all (node_wf (length ns)) ns"

definition extends :: "node list \<Rightarrow> node list \<Rightarrow> bool" where
  "extends ns ns' = (prefix ns ns' \<and> wf_nodes ns')"

lemma extends_trans: "extends ns ns' \<Longrightarrow> extends ns' ns'' \<Longrightarrow> extends ns ns''"
  by (auto simp: extends_def)

lemma push_node_extends:
  assumes "push_node n ns = Inr (i, ns')" "wf_nodes ns" "node_wf (Suc (length ns)) n"
  shows "extends ns ns' \<and> Suc i = length ns'"
proof -
  have "node_wf (Suc (length ns)) x" if "x \<in> set ns" for x
    using assms(2) that node_wf_mono [of "length ns" x] by (simp add: wf_nodes_def list_all_iff)
  with assms(1,3) show ?thesis by (auto simp: push_node_def extends_def wf_nodes_def list_all_iff)
qed

lemma required_indices_ok: "required_indices ps js = Inr is \<Longrightarrow> list_all (\<lambda>r. r < length ps) is"
  by (induction ps js arbitrary: "is" rule: required_indices.induct)
     (auto split: option.splits sum.splits dest: position_Some)

lemma object_node_ok:
  assumes "object_node obj ps = Inr n" "list_all (\<lambda>p. snd p < len) ps" "distinct (map fst ps)"
  shows "node_wf len n"
  using assms required_indices_ok
  by (auto simp: object_node_def compile_required_def split: sum.splits option.splits json.splits if_splits)

lemma pinned_ok:
  "pinned canonical obj = Some (Inr n) \<Longrightarrow> (\<forall>j. canonical j \<noteq> []) \<Longrightarrow> node_wf len n"
  by (auto simp: pinned_def split: option.splits json.splits if_splits) (metis+)

lemma scalar_node_ok: "scalar_node ty = Some n \<Longrightarrow> node_wf len n"
  by (auto simp: scalar_node_def split: if_splits)

text \<open>The ways in which a node comes about.\<close>

lemma compile_node_cases:
  assumes "compile_node canonical s ns d = Inr (i, ns')"
  obtains (leaf) n where "push_node n ns = Inr (i, ns')"
      "n = AnyNode \<or> (\<exists>obj. pinned canonical obj = Some (Inr n)) \<or> (\<exists>ty. scalar_node ty = Some n)"
    | (items) obj where "s = JObject obj" "push_node (ArrayNode (length ns)) (ns @ [AnyNode]) = Inr (i, ns')"
    | (array) obj s' k ns1 where "s = JObject obj" "jget obj ''items'' = Some s'"
        "compile_node canonical s' ns (Suc d) = Inr (k, ns1)" "push_node (ArrayNode k) ns1 = Inr (i, ns')"
    | (empty) obj n where "s = JObject obj" "object_node obj [] = Inr n" "push_node n ns = Inr (i, ns')"
    | (object) obj props ps ns1 n where "s = JObject obj" "jget obj ''properties'' = Some (JObject props)"
        "compile_properties canonical props ns (Suc d) = Inr (ps, ns1)" "object_node obj ps = Inr n"
        "push_node n ns1 = Inr (i, ns')"
proof -
  note run = assms [unfolded compile_node.simps [of canonical s ns d]]
  show ?thesis
  proof (cases s)
    case (JBool b)
    with run show ?thesis by (cases b) (auto split: if_splits intro: leaf [of AnyNode])
  next
    case (JObject obj)
    with run have pin: "unsupported_key obj = None" by (auto split: if_splits option.splits)
    show ?thesis
    proof (cases "pinned canonical obj")
      case (Some r)
      with run JObject pin show ?thesis by (cases r) (auto split: if_splits intro: leaf)
    next
      case None
      note run = run JObject pin None
      show ?thesis
      proof (cases "\<exists>ty. jget obj ''type'' = Some (JString ty)")
        case True
        then obtain ty where ty: "jget obj ''type'' = Some (JString ty)" by blast
        show ?thesis
        proof (cases "scalar_node ty")
          case (Some n)
          with run ty show ?thesis by (auto split: if_splits intro: leaf)
        next
          case None
          with run ty consider
            (a) "ty = lit ''array''" | (o) "ty \<noteq> lit ''array''" "ty = lit ''object''" by (auto split: if_splits)
          then show ?thesis
          proof cases
            case a
            with run ty None show ?thesis
              by (auto split: if_splits option.splits sum.splits intro: items array)
          next
            case o
            with run ty None show ?thesis
              by (auto split: if_splits option.splits sum.splits json.splits intro: empty object)
          qed
        qed
      next
        case False
        with run show ?thesis by (auto split: if_splits option.splits json.splits intro: leaf)
      qed
    qed
  qed (use run in \<open>auto split: if_splits\<close>)
qed

definition compiled :: "node list \<Rightarrow> nat \<Rightarrow> node list \<Rightarrow> bool" where
  "compiled ns i ns' = (extends ns ns' \<and> Suc i = length ns')"

lemma compile_properties_ok:
  assumes "\<And>s ns i ns'. compile_node canonical s ns d = Inr (i, ns') \<Longrightarrow> keys_distinct s \<Longrightarrow> wf_nodes ns \<Longrightarrow>
             compiled ns i ns'"
  shows "compile_properties canonical props ns d = Inr (ps, ns') \<Longrightarrow> list_all (\<lambda>p. keys_distinct (snd p)) props \<Longrightarrow>
         wf_nodes ns \<Longrightarrow> extends ns ns' \<and> map fst ps = map fst props \<and> list_all (\<lambda>p. snd p < length ns') ps"
proof (induction props arbitrary: ns ps)
  case Nil
  then show ?case by (auto simp: extends_def)
next
  case (Cons p props)
  obtain name sub where p: "p = (name, sub)" by (cases p)
  with Cons.prems(1) obtain i ns1 ps1 where
    1: "compile_node canonical sub ns d = Inr (i, ns1)" "compile_properties canonical props ns1 d = Inr (ps1, ns')"
       "ps = (name, i) # ps1"
    by (auto split: sum.splits)
  from assms [OF 1(1)] Cons.prems p have c: "extends ns ns1" "Suc i = length ns1" by (auto simp: compiled_def)
  from Cons.IH [OF 1(2)] Cons.prems c have "extends ns1 ns'" "map fst ps1 = map fst props"
    "list_all (\<lambda>p. snd p < length ns') ps1" by (auto simp: extends_def)
  moreover from this(1) c(2) have "i < length ns'" by (auto simp: extends_def prefix_def)
  ultimately show ?case using 1(3) p c(1) extends_trans by auto
qed

lemma compile_node_ok:
  assumes "\<forall>j. canonical j \<noteq> []"
  shows "compile_node canonical s ns d = Inr (i, ns') \<Longrightarrow> keys_distinct s \<Longrightarrow> wf_nodes ns \<Longrightarrow> compiled ns i ns'"
proof (induction "MAX_DEPTH + 1 - d" arbitrary: d s ns i ns' rule: less_induct)
  case less
  have "\<not> MAX_DEPTH < d" using less.prems(1) by (auto simp: compile_node.simps [of canonical s])
  then have IH: "compiled ns i ns'"
    if "compile_node canonical s ns (Suc d) = Inr (i, ns')" "keys_distinct s" "wf_nodes ns" for s ns i ns'
    using less.hyps [OF _ that] by simp
  from less.prems(1) show ?case
  proof (cases rule: compile_node_cases)
    case (leaf n)
    then have "node_wf (Suc (length ns)) n" using pinned_ok assms scalar_node_ok by auto
    with leaf(1) push_node_extends less.prems(3) show ?thesis by (simp add: compiled_def)
  next
    case (items obj)
    have "extends ns (ns @ [AnyNode])"
      using push_node_extends [of AnyNode ns "length ns" "ns @ [AnyNode]"] less.prems(3) by (simp add: push_node_def)
    moreover from this items(2) have "extends (ns @ [AnyNode]) ns' \<and> Suc i = length ns'"
      using push_node_extends [of "ArrayNode (length ns)" "ns @ [AnyNode]" i ns'] by (simp add: extends_def)
    ultimately show ?thesis using extends_trans by (auto simp: compiled_def)
  next
    case (array obj s' k ns1)
    with less.prems keys_distinct_jget have "compiled ns k ns1" by (intro IH) auto
    with array(4) push_node_extends [of "ArrayNode k" ns1 i ns'] extends_trans show ?thesis
      by (auto simp: compiled_def extends_def)
  next
    case (empty obj n)
    with object_node_ok [of obj "[]" n "Suc (length ns)"] push_node_extends [of n ns i ns'] less.prems(3)
    show ?thesis by (simp add: compiled_def)
  next
    case (object obj props ps ns1 n)
    have kd: "keys_distinct (JObject props)" using less.prems(2) object(1,2) keys_distinct_jget by blast
    with compile_properties_ok [OF IH object(3)] less.prems(3)
    have "extends ns ns1" "map fst ps = map fst props" "list_all (\<lambda>p. snd p < length ns1) ps" by auto
    moreover from this kd have "node_wf (length ns1) n" by (intro object_node_ok [OF object(4)]) simp_all
    ultimately show ?thesis
      using object(5) push_node_extends [of n ns1 i ns'] node_wf_mono [of "length ns1" n] extends_trans
      by (auto simp: compiled_def extends_def)
  qed
qed

lemma remap_node_wf: "node_wf len n \<Longrightarrow> a < len \<Longrightarrow> b < len \<Longrightarrow> node_wf len (remap_node a b n)"
  by (cases n) (auto simp: swap_index_def list_all_iff)

lemma compile_arena_wf:
  assumes "\<forall>j. canonical j \<noteq> []" "keys_distinct s" "compile canonical s = Inr ns"
  shows "arena_wf ns"
proof -
  from assms(3) obtain r ns0 where 0: "compile_node canonical s [] 0 = Inr (r, ns0)"
    and ns: "ns = (if r \<noteq> 0 then remap (ns0[0 := ns0 ! r, r := ns0 ! 0]) 0 r else ns0)"
    by (auto simp: compile_def split: sum.splits)
  from compile_node_ok [OF assms(1) 0 assms(2)]
  have r: "r < length ns0" and wf: "list_all (node_wf (length ns0)) ns0"
    by (auto simp: compiled_def extends_def wf_nodes_def)
  from r have "0 < length ns0" by (cases ns0) auto
  with r wf ns show ?thesis
    by (auto simp: arena_wf_def remap_def list_all_length nth_list_update intro!: remap_node_wf)
qed

lemma with_any_node_wf:
  assumes "arena_wf ns" "length ns < free_node"
  shows "schema_wf (with_any_node ns)"
  using assms by (auto simp: schema_wf_def arena_wf_def with_any_node_def list_all_iff
    intro: node_wf_mono [of "length ns"])

end
