(* ===== verification/Json_Grammar.thy ===== *)
theory Json_Grammar
  imports Json_Invariant
begin

text \<open>
  A reference grammar for the documents of a compiled schema, and the soundness of the machine
  against it.  The grammar knows nothing of frames: it has productions for strings, numbers, words,
  arrays and objects over the arena.  What a state of the machine may still read is a language too
  (\<open>doc_rest\<close>), and one accepted character is a derivative step on it (\<open>push_char_sound\<close>): whatever
  may follow after the character may follow, with the character in front, before it.
\<close>

section \<open>The grammar\<close>

abbreviation ws :: "utext \<Rightarrow> bool" where
  "ws s \<equiv> list_all is_json_ws s"

abbreviation digits :: "utext \<Rightarrow> bool" where
  "digits s \<equiv> list_all is_digit s"

text \<open>The inside of a string: plain characters and escapes.\<close>

inductive str_body :: "utext \<Rightarrow> bool" where
  body_nil: "str_body []"
| body_plain: "str_body b \<Longrightarrow> 32 \<le> c \<Longrightarrow> c \<noteq> c_quote \<Longrightarrow> c \<noteq> c_backslash \<Longrightarrow> str_body (c # b)"
| body_escape:
    "str_body b \<Longrightarrow> x \<in> {c_quote, c_backslash, c_slash, c_b, c_f, c_n, c_r, c_t} \<Longrightarrow>
     str_body (c_backslash # x # b)"
| body_unicode:
    "str_body b \<Longrightarrow> length hs = 4 \<Longrightarrow> list_all is_ascii_hexdigit hs \<Longrightarrow>
     str_body (c_backslash # c_u # hs @ b)"

text \<open>
  Numbers: sign, digits, fraction and exponent; an integer has neither of the last two.  In JSON the
  digits before the point have no superfluous leading zero (\<open>is_number\<close>); the machine tolerates them
  (\<open>padded_number\<close>).  The grammar takes the rule for numbers as a parameter, so that one set of
  productions gives the documents JSON has and the ones the machine accepts.
\<close>

definition exponent :: "utext \<Rightarrow> bool" where
  "exponent w =
     (w = [] \<or> (\<exists>e sg ds. w = e # sg @ ds \<and> e \<in> {c_e, c_E} \<and> sg \<in> {[], [c_plus], [c_minus]} \<and>
                ds \<noteq> [] \<and> digits ds))"

definition fraction :: "utext \<Rightarrow> bool" where
  "fraction w = (w = [] \<or> (\<exists>ds. w = c_dot # ds \<and> ds \<noteq> [] \<and> digits ds))"

definition padded_number :: "bool \<Rightarrow> utext \<Rightarrow> bool" where
  "padded_number integer w =
     (\<exists>sg ds fr ex. w = sg @ ds @ fr @ ex \<and> sg \<in> {[], [c_minus]} \<and> ds \<noteq> [] \<and> digits ds \<and>
        fraction fr \<and> exponent ex \<and> (integer \<longrightarrow> fr = [] \<and> ex = []))"

definition is_number :: "bool \<Rightarrow> utext \<Rightarrow> bool" where
  "is_number integer w =
     (\<exists>sg ds fr ex. w = sg @ ds @ fr @ ex \<and> sg \<in> {[], [c_minus]} \<and> ds \<noteq> [] \<and> digits ds \<and>
        (hd ds = 48 \<longrightarrow> tl ds = []) \<and>
        fraction fr \<and> exponent ex \<and> (integer \<longrightarrow> fr = [] \<and> ex = []))"

text \<open>What an object says about a key: the node of its value and the properties seen after it.\<close>

definition closes :: "schema \<Rightarrow> nat \<Rightarrow> nat list \<Rightarrow> bool" where
  "closes ns i seen =
     (i = free_node \<or> (\<exists>ps req add. index ns i = Some (ObjectNode ps req add) \<and> set req \<subseteq> set seen))"

definition key_member :: "schema \<Rightarrow> nat \<Rightarrow> nat list \<Rightarrow> utext \<Rightarrow> nat list \<Rightarrow> nat \<Rightarrow> bool" where
  "key_member ns i seen k seen' n =
     (if i = free_node then str_body k \<and> seen' = seen \<and> n = any_node ns
      else \<exists>ps req add. index ns i = Some (ObjectNode ps req add) \<and>
        (if add then str_body k else list_all (\<lambda>c. 32 \<le> c \<and> c \<noteq> c_quote \<and> c \<noteq> c_backslash) k) \<and>
        ((\<exists>j<length ps. fst (ps ! j) = k \<and> j \<notin> set seen \<and> seen' = seen @ [j] \<and> n = snd (ps ! j)) \<or>
         (k \<notin> fst ` set ps \<and> add \<and> seen' = seen \<and> n = any_node ns)))"

definition container :: "schema \<Rightarrow> nat \<Rightarrow> nat" where
  "container ns i = (if ns ! i = AnyNode then free_node else i)"

definition item_node :: "schema \<Rightarrow> nat \<Rightarrow> nat" where
  "item_node ns i = (if i = free_node then any_node ns else i)"

inductive gval :: "(bool \<Rightarrow> utext \<Rightarrow> bool) \<Rightarrow> schema \<Rightarrow> nat \<Rightarrow> utext \<Rightarrow> bool"
  and gmembers :: "(bool \<Rightarrow> utext \<Rightarrow> bool) \<Rightarrow> schema \<Rightarrow> nat \<Rightarrow> nat list \<Rightarrow> utext \<Rightarrow> bool"
  and gnext :: "(bool \<Rightarrow> utext \<Rightarrow> bool) \<Rightarrow> schema \<Rightarrow> nat \<Rightarrow> nat list \<Rightarrow> utext \<Rightarrow> bool"
  and gelems :: "(bool \<Rightarrow> utext \<Rightarrow> bool) \<Rightarrow> schema \<Rightarrow> nat \<Rightarrow> utext \<Rightarrow> bool"
  and gelems_next :: "(bool \<Rightarrow> utext \<Rightarrow> bool) \<Rightarrow> schema \<Rightarrow> nat \<Rightarrow> utext \<Rightarrow> bool" for num ns where
  val_str:
    "index ns i = Some n \<Longrightarrow> n \<in> {AnyNode, StrNode} \<Longrightarrow> str_body b \<Longrightarrow>
     gval num ns i (c_quote # b @ [c_quote])"
| val_num:
    "index ns i = Some n \<Longrightarrow> n \<in> {AnyNode, NumberNode True, NumberNode False} \<Longrightarrow>
     num (n = NumberNode True) w \<Longrightarrow> gval num ns i w"
| val_bool:
    "index ns i = Some n \<Longrightarrow> n \<in> {AnyNode, BoolNode} \<Longrightarrow> w \<in> {lit ''true'', lit ''false''} \<Longrightarrow> gval num ns i w"
| val_null: "index ns i = Some n \<Longrightarrow> n \<in> {AnyNode, NullNode} \<Longrightarrow> gval num ns i (lit ''null'')"
| val_choice: "index ns i = Some (ChoiceNode options) \<Longrightarrow> a \<in> set options \<Longrightarrow> gval num ns i a"
| val_array_empty:
    "index ns i = Some n \<Longrightarrow> n = AnyNode \<or> n = ArrayNode k \<Longrightarrow> ws s \<Longrightarrow>
     gval num ns i (c_lbracket # s @ [c_rbracket])"
| val_array:
    "index ns i = Some n \<Longrightarrow> n = AnyNode \<and> k = free_node \<or> n = ArrayNode k \<Longrightarrow>
     gelems num ns (item_node ns k) w \<Longrightarrow> gval num ns i (c_lbracket # w)"
| val_object_empty:
    "index ns i = Some n \<Longrightarrow> n = AnyNode \<or> n = ObjectNode ps req add \<Longrightarrow>
     closes ns (container ns i) [] \<Longrightarrow> ws s \<Longrightarrow> gval num ns i (c_lbrace # s @ [c_rbrace])"
| val_object:
    "index ns i = Some n \<Longrightarrow> n = AnyNode \<or> n = ObjectNode ps req add \<Longrightarrow>
     gmembers num ns (container ns i) [] w \<Longrightarrow> gval num ns i (c_lbrace # w)"
| members:
    "ws s1 \<Longrightarrow> key_member ns i seen k seen' n \<Longrightarrow> ws s2 \<Longrightarrow> ws s3 \<Longrightarrow> gval num ns n v \<Longrightarrow> gnext num ns i seen' r \<Longrightarrow>
     gmembers num ns i seen (s1 @ c_quote # k @ c_quote # s2 @ c_colon # s3 @ v @ r)"
| next_close: "ws s \<Longrightarrow> closes ns i seen \<Longrightarrow> gnext num ns i seen (s @ [c_rbrace])"
| next_more: "ws s \<Longrightarrow> gmembers num ns i seen r \<Longrightarrow> gnext num ns i seen (s @ c_comma # r)"
| elems: "ws s \<Longrightarrow> gval num ns k v \<Longrightarrow> gelems_next num ns k r \<Longrightarrow> gelems num ns k (s @ v @ r)"
| elems_close: "ws s \<Longrightarrow> gelems_next num ns k (s @ [c_rbracket])"
| elems_more: "ws s \<Longrightarrow> gelems num ns k r \<Longrightarrow> gelems_next num ns k (s @ c_comma # r)"

text \<open>A document: a value of the root, followed by whitespace.\<close>

definition gdocument :: "(bool \<Rightarrow> utext \<Rightarrow> bool) \<Rightarrow> schema \<Rightarrow> utext \<Rightarrow> bool" where
  "gdocument num ns w = (\<exists>v t. w = v @ t \<and> gval num ns 0 v \<and> ws t)"

text \<open>The documents JSON has, and those with padded numbers as well.\<close>

definition jdocument :: "schema \<Rightarrow> utext \<Rightarrow> bool" where
  "jdocument = gdocument is_number"

definition padded_document :: "schema \<Rightarrow> utext \<Rightarrow> bool" where
  "padded_document = gdocument padded_number"

abbreviation "jval \<equiv> gval padded_number"
abbreviation "jmembers \<equiv> gmembers padded_number"
abbreviation "jnext \<equiv> gnext padded_number"
abbreviation "jelems \<equiv> gelems padded_number"
abbreviation "jelems_next \<equiv> gelems_next padded_number"

section \<open>What a state may still read\<close>

text \<open>The rest of an escape: after the backslash, or with some hexadecimal digits to come.\<close>

fun escape_tail :: "nat \<Rightarrow> utext \<Rightarrow> bool" where
  "escape_tail 0 p = (p = [])"
| "escape_tail (Suc e) [] = False"
| "escape_tail (Suc e) (x # p) = (escape_ok (Suc e) x \<and> escape_tail (escape_next (Suc e) x) p)"

definition num_rest :: "bool \<Rightarrow> bool \<Rightarrow> bool \<Rightarrow> bool \<Rightarrow> bool \<Rightarrow> bool \<Rightarrow> utext \<Rightarrow> bool" where
  "num_rest integer seen_digit seen_dot seen_exp exp_digit after_sign w =
     (if seen_exp then
        (\<exists>sg ds. w = sg @ ds \<and> digits ds \<and> (exp_digit \<or> ds \<noteq> []) \<and>
           sg \<in> {[], [c_plus], [c_minus]} \<and> (exp_digit \<or> after_sign \<longrightarrow> sg = []))
      else
        (\<exists>ds fr ex. w = ds @ fr @ ex \<and> digits ds \<and> (seen_digit \<or> ds \<noteq> []) \<and> fraction fr \<and> exponent ex \<and>
           (seen_dot \<longrightarrow> fr = []) \<and> (integer \<longrightarrow> fr = [] \<and> ex = [])))"

definition key_rest :: "schema \<Rightarrow> nat \<Rightarrow> nat list \<Rightarrow> utext \<Rightarrow> nat \<Rightarrow> utext \<Rightarrow> bool" where
  "key_rest ns i seen key escape w =
     (\<exists>p b s2 s3 v r seen' n.
        w = p @ b @ c_quote # s2 @ c_colon # s3 @ v @ r \<and> escape_tail escape p \<and>
        (escape > 0 \<longrightarrow> keys_are_free ns i = Some True) \<and>
        (if keys_are_free ns i = Some True then str_body b
         else list_all (\<lambda>c. 32 \<le> c \<and> c \<noteq> c_quote \<and> c \<noteq> c_backslash) b) \<and>
        check_key ns i seen (key @ p @ b) = Some (Some seen') \<and>
        value_node_for ns i (key @ p @ b) = Some (Some n) \<and>
        ws s2 \<and> ws s3 \<and> jval ns n v \<and> jnext ns i seen' r)"

fun frame_rest :: "schema \<Rightarrow> frame \<Rightarrow> utext \<Rightarrow> bool" where
  "frame_rest ns (FValue n) w = (\<exists>s v. w = s @ v \<and> ws s \<and> jval ns n v)"
| "frame_rest ns (FStr e _) w = (\<exists>p b. w = p @ b @ [c_quote] \<and> escape_tail e p \<and> str_body b)"
| "frame_rest ns (FNumber i d dot e ed s _) w = num_rest i d dot e ed s w"
| "frame_rest ns (FWord alts pos) w = (\<exists>a \<in> set alts. w = drop pos (utf8 a))"
| "frame_rest ns (FObject i OStart seen key e) w =
     (jmembers ns i seen w \<or> (\<exists>s. w = s @ [c_rbrace] \<and> ws s \<and> closes ns i seen))"
| "frame_rest ns (FObject i OKeyExpected seen key e) w = jmembers ns i seen w"
| "frame_rest ns (FObject i OKey seen key e) w = key_rest ns i seen key e w"
| "frame_rest ns (FObject i OColon seen key e) w =
     (\<exists>n s2 s3 v r. w = s2 @ c_colon # s3 @ v @ r \<and> value_node_for ns i key = Some (Some n) \<and>
        ws s2 \<and> ws s3 \<and> jval ns n v \<and> jnext ns i seen r)"
| "frame_rest ns (FObject i _ seen key e) w = jnext ns i seen w"
| "frame_rest ns (FArray k AStart) w =
     (jelems ns (item_node ns k) w \<or> (\<exists>s. w = s @ [c_rbracket] \<and> ws s))"
| "frame_rest ns (FArray k AValueExpected) w = jelems ns (item_node ns k) w"
| "frame_rest ns (FArray k _) w = jelems_next ns (item_node ns k) w"

text \<open>The frames below the top one wait for their value to finish, which moves them to \<open>Next\<close>.\<close>

fun below :: "schema \<Rightarrow> frame list \<Rightarrow> utext \<Rightarrow> bool" where
  "below ns [] w = ws w"
| "below ns (FObject i _ seen key e # fs) w = (\<exists>u v. w = u @ v \<and> jnext ns i seen u \<and> below ns fs v)"
| "below ns (FArray k _ # fs) w = (\<exists>u v. w = u @ v \<and> jelems_next ns (item_node ns k) u \<and> below ns fs v)"
| "below ns (_ # fs) w = False"

definition doc_rest :: "machine \<Rightarrow> utext \<Rightarrow> bool" where
  "doc_rest m w =
     (if doc_done m then ws w
      else case stack m of
        [] \<Rightarrow> False
      | f # fs \<Rightarrow> (\<exists>u v. w = u @ v \<and> frame_rest (m_schema m) f u \<and> below (m_schema m) fs v))"

section \<open>One character is a derivative step\<close>

lemma doc_rest_top:
  "stack m = f # fs \<Longrightarrow> \<not> doc_done m \<Longrightarrow>
   doc_rest m w \<longleftrightarrow> (\<exists>u v. w = u @ v \<and> frame_rest (m_schema m) f u \<and> below (m_schema m) fs v)"
  by (simp add: doc_rest_def)

lemma frame_rest_colonI:
  "value_node_for ns i key = Some (Some n) \<Longrightarrow> ws s2 \<Longrightarrow> ws s3 \<Longrightarrow> jval ns n v \<Longrightarrow> jnext ns i seen r \<Longrightarrow>
   frame_rest ns (FObject i OColon seen key e) (s2 @ c_colon # s3 @ v @ r)"
  by simp blast

lemma doc_restI:
  assumes "stack m = f # fs" "\<not> doc_done m" "frame_rest (m_schema m) f u" "below (m_schema m) fs v"
  shows "doc_rest m (u @ v)"
  using assms by (auto simp: doc_rest_def)

lemma frame_rest_valueI: "ws s \<Longrightarrow> jval ns n v \<Longrightarrow> frame_rest ns (FValue n) (s @ v)"
  by auto

lemma frame_rest_strI: "escape_tail e p \<Longrightarrow> str_body b \<Longrightarrow> frame_rest ns (FStr e l) (p @ b @ [c_quote])"
  by auto

lemma num_rest_expI:
  "digits ds \<Longrightarrow> ed \<or> ds \<noteq> [] \<Longrightarrow> sg \<in> {[], [c_plus], [c_minus]} \<Longrightarrow> (ed \<or> s \<longrightarrow> sg = []) \<Longrightarrow>
   num_rest i d dot True ed s (sg @ ds)"
  unfolding num_rest_def by auto

lemma num_rest_plainI:
  "digits ds \<Longrightarrow> d \<or> ds \<noteq> [] \<Longrightarrow> fraction fr \<Longrightarrow> exponent ex \<Longrightarrow> (dot \<longrightarrow> fr = []) \<Longrightarrow>
   (i \<longrightarrow> fr = [] \<and> ex = []) \<Longrightarrow> num_rest i d dot False ed s (ds @ fr @ ex)"
  unfolding num_rest_def by auto

lemma doc_rest_set_top:
  "stack m = g # fs \<Longrightarrow> \<not> doc_done m \<Longrightarrow>
   doc_rest (set_top f m) w \<longleftrightarrow> (\<exists>u v. w = u @ v \<and> frame_rest (m_schema m) f u \<and> below (m_schema m) fs v)"
  by (simp add: doc_rest_def set_top_def)

lemma finish_value_sound:
  assumes "finish_value m = Accept m'" "stack m = f # fs" "\<not> doc_done m" "doc_rest m' w"
  shows "below (m_schema m) fs w"
  using assms by (fastforce simp: finish_value_def doc_rest_def split: list.splits frame.splits)

lemma escape_tail_hex: "e \<le> 4 \<Longrightarrow> escape_tail e p \<Longrightarrow> length p = e \<and> list_all is_ascii_hexdigit p"
  by (induction e p rule: escape_tail.induct) (auto simp: escape_ok_def escape_next_def)

lemma body_of_escape:
  assumes "escape_tail 5 p" "str_body b"
  shows "str_body (c_backslash # p @ b)"
proof -
  from assms(1) obtain x q where p: "p = x # q" "escape_ok 5 x" "escape_tail (escape_next 5 x) q"
    by (cases p) (auto simp: numeral_eq_Suc)
  show ?thesis
  proof (cases "x = c_u")
    case True
    with p(3) have "escape_tail 4 q" by (simp add: escape_next_def)
    then have "length q = 4" "list_all is_ascii_hexdigit q" using escape_tail_hex [of 4 q] by auto
    with True p(1) assms(2) show ?thesis using body_unicode by simp
  next
    case False
    with p have "q = []" by (simp add: escape_next_def)
    with False p assms(2) show ?thesis using body_escape [of b x] by (auto simp: escape_ok_def)
  qed
qed

lemma escape_tail_Cons:
  "0 < e \<Longrightarrow> escape_ok e c \<Longrightarrow> escape_tail (escape_next e c) p \<Longrightarrow> escape_tail e (c # p)"
  by (cases e) auto

lemma settle_word_sound:
  assumes "settle_word m = Accept m'" "stack m = f # fs" "\<not> doc_done m" "doc_rest m' w"
  shows "\<exists>u v. w = u @ v \<and> frame_rest (m_schema m) f u \<and> below (m_schema m) fs v"
proof (cases "\<exists>alts pos. f = FWord alts pos \<and> list_ex (\<lambda>a. length (utf8 a) = pos) alts")
  case True
  then obtain alts pos a where f: "f = FWord alts pos" "a \<in> set alts" "length (utf8 a) = pos"
    by (auto simp: list_ex_iff)
  with assms have "finish_value m = Accept m'" by (auto simp: settle_word_def list_ex_iff split: if_splits)
  from finish_value_sound [OF this assms(2-4)] f show ?thesis
    by (intro exI [of _ "[]"] exI [of _ w]) (auto intro!: bexI [of _ a])
next
  case False
  with assms have "m' = m" by (auto simp: settle_word_def split: frame.splits if_splits)
  with assms show ?thesis by (simp add: doc_rest_top)
qed

lemma exponent_Cons:
  "e \<in> {c_e, c_E} \<Longrightarrow> sg \<in> {[], [c_plus], [c_minus]} \<Longrightarrow> ds \<noteq> [] \<Longrightarrow> digits ds \<Longrightarrow> exponent (e # sg @ ds)"
  unfolding exponent_def by blast

lemma num_rest_start:
  assumes "num_rest integer (c \<noteq> c_minus) False False False (c = c_minus) u" "c = c_minus \<or> is_digit c"
  shows "padded_number integer (c # u)"
proof -
  from assms(1) obtain ds fr ex where u: "u = ds @ fr @ ex" "digits ds" "c \<noteq> c_minus \<or> ds \<noteq> []"
    "fraction fr" "exponent ex" "integer \<longrightarrow> fr = [] \<and> ex = []"
    by (auto simp: num_rest_def)
  show ?thesis
  proof (cases "c = c_minus")
    case True
    with u show ?thesis
      unfolding padded_number_def by (intro exI [of _ "[c]"] exI [of _ ds] exI [of _ fr] exI [of _ ex]) auto
  next
    case False
    with u assms(2) show ?thesis
      unfolding padded_number_def by (intro exI [of _ "[]"] exI [of _ "c # ds"] exI [of _ fr] exI [of _ ex]) auto
  qed
qed

definition schema_ascii :: "schema \<Rightarrow> bool" where
  "schema_ascii ns = list_all (\<lambda>n. case n of ChoiceNode options \<Rightarrow> list_all is_ascii options | _ \<Rightarrow> True) ns"

lemma schema_asciiD:
  "schema_ascii ns \<Longrightarrow> index ns i = Some (ChoiceNode options) \<Longrightarrow> a \<in> set options \<Longrightarrow> utf8 a = a"
  by (rule utf8_ascii) (auto simp: schema_ascii_def list_all_iff split: node.splits dest!: bspec [OF _ nth_mem])

lemma lit_words: "lit ''true'' = [116, 114, 117, 101]" "lit ''false'' = [102, 97, 108, 115, 101]"
  "lit ''null'' = [110, 117, 108, 108]"
  by (simp_all add: lit_def)

lemma allowed_start_sound:
  assumes "index ns i = Some n" "allowed_start n c = Some f" "frame_rest ns f u"
  shows "jval ns i (c # u)"
proof -
  consider (s) "n \<in> {AnyNode, StrNode}" "c = c_quote" "f = FStr 0 0"
    | (ob) "n = AnyNode" "c = c_lbrace" "f = FObject free_node OStart [] [] 0"
    | (ar) "n = AnyNode" "c = c_lbracket" "f = FArray free_node AStart"
    | (nu) "n \<in> {AnyNode, NumberNode True, NumberNode False}" "c = c_minus \<or> is_digit c"
        "f = FNumber (n = NumberNode True) (c \<noteq> c_minus) False False False (c = c_minus) 1"
    | (bo) "n \<in> {AnyNode, BoolNode}" "c = c_t \<or> c = c_f"
        "f = FWord [if c = c_t then lit ''true'' else lit ''false''] 1"
    | (nl) "n \<in> {AnyNode, NullNode}" "c = c_n" "f = FWord [lit ''null''] 1"
    using assms(2) by (auto simp: allowed_start_def split: if_splits)
  then show ?thesis
  proof cases
    case s
    with assms show ?thesis using val_str [of ns i n] by auto
  next
    case ob
    with assms show ?thesis
      using val_object [of ns i n _ _ _ _ u] val_object_empty [of ns i n] by (auto simp: container_def)
  next
    case ar
    with assms show ?thesis
      using val_array [of ns i n free_node _ u] val_array_empty [of ns i n] by auto
  next
    case nu
    with assms num_rest_start show ?thesis by (intro val_num [of ns i n]) auto
  next
    case bo
    with assms show ?thesis by (intro val_bool [of ns i n]) (auto simp: lit_words utf8_char_def)
  next
    case nl
    with assms have "u = tl (lit ''null'')" by (simp add: lit_words utf8_char_def)
    with nl assms val_null [of ns i n] show ?thesis by (simp add: lit_words)
  qed
qed

lemma start_frame_sound:
  assumes "schema_ascii ns" "index ns i = Some n" "start_frame i n c = Some f" "frame_rest ns f u"
  shows "jval ns i (c # u)"
proof (cases n)
  case (ObjectNode ps req add)
  with assms show ?thesis
    using val_object [of ns i n ps req add _ u] val_object_empty [of ns i n ps req add]
    by (auto simp: start_frame_def container_def split: if_splits)
next
  case (ArrayNode k)
  with assms show ?thesis
    using val_array [of ns i n k _ u] val_array_empty [of ns i n k]
    by (auto simp: start_frame_def split: if_splits)
next
  case (ChoiceNode options)
  with assms obtain a where a: "a \<in> set options" "prefix [c] a" "u = drop 1 (utf8 a)"
    by (auto simp: start_frame_def Let_def split: if_splits)
  have "utf8 a = a" using schema_asciiD assms(1,2) ChoiceNode a(1) by blast
  with a have "c # u = a" by (auto simp: prefix_def)
  then show ?thesis using val_choice [of ns i options a] assms(2) ChoiceNode a(1) by simp
qed (use assms allowed_start_sound [of ns i n c f u] in \<open>simp_all add: start_frame_def\<close>)

lemma start_value_sound:
  assumes "schema_ascii (m_schema m)" "start_value i c m = Accept m'" "stack m = FValue i # fs"
    "\<not> doc_done m" "doc_rest m' w"
  shows "doc_rest m (c # w)"
proof (cases "is_json_ws c")
  case True
  with assms obtain s v r where "w = (s @ v) @ r" "ws s" "jval (m_schema m) i v" "below (m_schema m) fs r"
    by (auto simp: start_value_def doc_rest_top)
  moreover from this True have "frame_rest (m_schema m) (FValue i) (c # s @ v)"
    using frame_rest_valueI [of "c # s"] by simp
  ultimately show ?thesis using doc_restI [OF assms(3,4), of "c # s @ v" r] by simp
next
  case False
  with assms(2) obtain n f where f: "index (m_schema m) i = Some n" "start_frame i n c = Some f"
    "settle_word (set_top f m) = Accept m'"
    by (auto simp: start_value_def split: option.splits)
  from settle_word_sound [OF f(3) _ _ assms(5), of f fs] assms
  obtain u v where uv: "w = u @ v" "frame_rest (m_schema m) f u" "below (m_schema m) fs v"
    by (auto simp: set_top_def)
  from start_frame_sound [OF assms(1) f(1,2) uv(2)]
  have "frame_rest (m_schema m) (FValue i) (c # u)"
    using frame_rest_valueI [of "[]"] by simp
  with uv show ?thesis using doc_restI [OF assms(3,4), of "c # u" v] by simp
qed

lemma top_step:
  assumes "stack m = f # fs" "\<not> doc_done m" "doc_rest (set_top g m) w"
    and "\<And>u. frame_rest (m_schema m) g u \<Longrightarrow> frame_rest (m_schema m) f (c # u)"
  shows "doc_rest m (c # w)"
proof -
  from assms(1-3) obtain u v where "w = u @ v" "frame_rest (m_schema m) g u" "below (m_schema m) fs v"
    by (auto simp: doc_rest_set_top)
  with assms(4) [of u] doc_restI [OF assms(1,2), of "c # u" v] show ?thesis by simp
qed

lemma close_step:
  assumes "finish_value m1 = Accept m'" "stack m1 = g # fs" "m_schema m1 = m_schema m" "doc_done m1 = doc_done m"
    and "stack m = f # fs" "\<not> doc_done m" "doc_rest m' w" "frame_rest (m_schema m) f u"
  shows "doc_rest m (u @ w)"
  using finish_value_sound [OF assms(1,2) _ assms(7)] doc_restI [OF assms(5,6,8)] assms(3,4,6) by simp

lemma in_string_sound:
  assumes "in_string e l c m = Accept m'" "stack m = FStr e l # fs" "\<not> doc_done m" "doc_rest m' w"
  shows "doc_rest m (c # w)"
proof -
  consider (esc) "0 < e" "escape_ok e c" "m' = set_top (FStr (escape_next e c) (l + 1)) m"
    | (close) "e = 0" "c = c_quote" "finish_value (set_top (FStr e (l + 1)) m) = Accept m'"
    | (bs) "e = 0" "c = c_backslash" "m' = set_top (FStr 5 (l + 1)) m"
    | (plain) "e = 0" "c \<noteq> c_quote" "c \<noteq> c_backslash" "32 \<le> c" "m' = set_top (FStr e (l + 1)) m"
    using assms(1) by (auto simp: in_string_def split: if_splits)
  then show ?thesis
  proof cases
    case esc
    show ?thesis
      by (rule top_step [OF assms(2,3) assms(4) [unfolded esc(3)]])
         (use frame_rest_strI [of e "c # _"] escape_tail_Cons [OF esc(1,2)] in auto)
  next
    case close
    then show ?thesis
      using close_step [OF close(3) _ _ _ assms(2,3,4), of "FStr e (l + 1)" "[c]"] assms(2) body_nil by simp
  next
    case bs
    show ?thesis
      by (rule top_step [OF assms(2,3) assms(4) [unfolded bs(3)]])
         (use frame_rest_strI [of e "[]" "c # _ @ _"] body_of_escape bs in auto)
  next
    case plain
    show ?thesis
      by (rule top_step [OF assms(2,3) assms(4) [unfolded plain(5)]])
         (use frame_rest_strI [of e "[]" "c # _"] body_plain plain in auto)
  qed
qed

lemma in_word_sound:
  assumes "in_word alts pos c m = Accept m'" "stack m = FWord alts pos # fs" "\<not> doc_done m" "doc_rest m' w"
  shows "doc_rest m (c # w)"
proof -
  define alts' where "alts' = filter (\<lambda>a. index (utf8 a) pos = Some c) alts"
  from assms(1) have "settle_word (set_top (FWord alts' (pos + 1)) m) = Accept m'"
    by (auto simp: in_word_def alts'_def Let_def split: if_splits)
  from settle_word_sound [OF this _ _ assms(4), of "FWord alts' (pos + 1)" fs] assms(2,3)
  obtain u v where uv: "w = u @ v" "frame_rest (m_schema m) (FWord alts' (pos + 1)) u"
    "below (m_schema m) fs v" by (auto simp: set_top_def)
  then obtain a where a: "a \<in> set alts" "pos < length (utf8 a)" "utf8 a ! pos = c" "u = drop (Suc pos) (utf8 a)"
    by (auto simp: alts'_def)
  then have "c # u = drop pos (utf8 a)" using Cons_nth_drop_Suc [of pos "utf8 a"] by simp
  with a(1) have "frame_rest (m_schema m) (FWord alts pos) (c # u)" by auto
  from doc_restI [OF assms(2,3) this uv(3)] uv(1) show ?thesis by simp
qed

lemma num_rest_digit:
  assumes "num_rest i (if e then d else True) dot e (if e then True else ed) False u" "is_digit c"
  shows "num_rest i d dot e ed s (c # u)"
proof (cases e)
  case True
  with assms have "digits u" by (auto simp: num_rest_def)
  with True assms(2) show ?thesis using num_rest_expI [of "c # u" ed "[]"] by simp
next
  case False
  with assms(1) obtain ds fr ex where u: "u = ds @ fr @ ex" "digits ds" "fraction fr" "exponent ex"
    "dot \<longrightarrow> fr = []" "i \<longrightarrow> fr = [] \<and> ex = []" by (auto simp: num_rest_def)
  with False assms(2) show ?thesis
    using num_rest_plainI [of "c # ds" d fr ex] by simp
qed

lemma num_rest_dot:
  assumes "num_rest i False True False ed s u" "\<not> i" "d" "\<not> dot"
  shows "num_rest i d dot False ed s (c_dot # u)"
proof -
  from assms(1) obtain ds ex where u: "u = ds @ ex" "digits ds" "ds \<noteq> []" "exponent ex"
    by (auto simp: num_rest_def)
  then have "fraction (c_dot # ds)" by (simp add: fraction_def)
  with u assms(2-4) show ?thesis
    using num_rest_plainI [of "[]" d "c_dot # ds" ex] by simp
qed

lemma num_rest_exp:
  assumes "num_rest i d dot True ed False u" "c \<in> {c_e, c_E}" "\<not> i" "d" "\<not> ed"
  shows "num_rest i d dot False ed s (c # u)"
proof -
  from assms(1,5) obtain sg ds where u: "u = sg @ ds" "digits ds" "ds \<noteq> []" "sg \<in> {[], [c_plus], [c_minus]}"
    by (auto simp: num_rest_def)
  then have "exponent (c # u)" using assms(2) exponent_Cons [of c sg ds] by simp
  with assms(3,4) show ?thesis
    using num_rest_plainI [of "[]" d "[]" "c # u"] by (simp add: fraction_def)
qed

lemma num_rest_sign:
  assumes "num_rest i d dot True False True u" "c \<in> {c_plus, c_minus}"
  shows "num_rest i d dot True False False (c # u)"
  using assms num_rest_expI [of u False "[c]"] by (auto simp: num_rest_def)

lemma in_number_sound:
  assumes "in_number i d dot e ed s l c m = Inl (Accept m')" "stack m = FNumber i d dot e ed s l # fs"
    "ed \<longrightarrow> e" "\<not> doc_done m" "doc_rest m' w"
  shows "doc_rest m (c # w)"
proof -
  from assms(1) obtain d' dot' e' ed' s' where
    m': "m' = set_top (FNumber i d' dot' e' ed' s' (l + 1)) m" and
    num: "\<And>u. num_rest i d' dot' e' ed' s' u \<Longrightarrow> num_rest i d dot e ed s (c # u)"
  proof (cases "is_digit c")
    case True
    with assms(1) show ?thesis
      by (intro that [of "if e then d else True" dot e "if e then True else ed" False])
         (auto simp: in_number_def intro: num_rest_digit split: if_splits)
  next
    case False
    with assms(1) consider
        (dot) "c = c_dot" "\<not> i" "\<not> dot" "\<not> e" "d" "m' = set_top (FNumber i False True e ed s (l + 1)) m"
      | (ex) "c = c_e \<or> c = c_E" "\<not> i" "\<not> e" "d" "m' = set_top (FNumber i d dot True ed False (l + 1)) m"
      | (sg) "c = c_plus \<or> c = c_minus" "e" "\<not> ed" "\<not> s" "m' = set_top (FNumber i d dot e ed True (l + 1)) m"
      by (auto simp: in_number_def split: if_splits verdict.splits)
    then show ?thesis
    proof cases
      case dot
      with num_rest_dot show ?thesis by (intro that [OF dot(6)]) simp
    next
      case ex
      with assms(3) num_rest_exp [of i d dot ed] show ?thesis by (intro that [OF ex(5)]) auto
    next
      case sg
      with num_rest_sign [of i d dot] show ?thesis by (intro that [OF sg(5)]) auto
    qed
  qed
  show ?thesis by (rule top_step [OF assms(2,4) assms(5) [unfolded m']]) (simp add: num)
qed

lemma num_rest_end: "d \<and> (\<not> e \<or> ed) \<Longrightarrow> num_rest i d dot e ed s []"
  using num_rest_plainI [of "[]" d "[]" "[]" dot i ed s] num_rest_expI [of "[]" ed "[]" s i d dot]
  by (cases e) (simp_all add: fraction_def exponent_def)

lemma in_number_again:
  assumes "in_number i d dot e ed s l c m = Inr m'" "stack m = FNumber i d dot e ed s l # fs"
    "\<not> doc_done m" "doc_rest m' w"
  shows "doc_rest m w"
proof -
  from assms(1) have fin: "finish_value (set_top (FNumber i d dot e ed s (l + 1)) m) = Accept m'"
    and "d \<and> (\<not> e \<or> ed)"
    by (auto simp: in_number_def split: if_splits verdict.splits)
  from this(2) have "frame_rest (m_schema m) (FNumber i d dot e ed s l) []" by (simp add: num_rest_end)
  then show ?thesis using close_step [OF fin _ _ _ assms(2-4), of "FNumber i d dot e ed s (l + 1)" "[]"] assms(2) by simp
qed

section \<open>Objects and arrays\<close>

lemma key_memberI:
  assumes "is_object ns i" "check_key ns i seen k = Some (Some seen')" "value_node_for ns i k = Some (Some n)"
    "if keys_are_free ns i = Some True then str_body k
     else list_all (\<lambda>c. 32 \<le> c \<and> c \<noteq> c_quote \<and> c \<noteq> c_backslash) k"
  shows "key_member ns i seen k seen' n"
proof (cases "i = free_node")
  case True
  with assms show ?thesis by (simp add: key_member_def check_key_def value_node_for_def keys_are_free_def)
next
  case False
  with assms(1) obtain ps req add where ix: "index ns i = Some (ObjectNode ps req add)"
    by (rule object_index)
  with False have fr: "keys_are_free ns i = Some add" by (auto simp: keys_are_free_def index_run)
  show ?thesis
  proof (cases "position (\<lambda>p. fst p = k) ps")
    case None
    with assms(2,3) ix False have "add" "seen' = seen" "n = any_node ns"
      by (auto simp: check_key_def value_node_for_def find_position index_run split: if_splits)
    with None ix fr False assms(4) show ?thesis by (auto simp: key_member_def position_None)
  next
    case (Some j)
    with position_Some [OF Some] assms(2,3) ix False
    have "j < length ps" "fst (ps ! j) = k" "j \<notin> set seen" "seen' = seen @ [j]" "n = snd (ps ! j)"
      by (auto simp: check_key_def value_node_for_def find_position index_run
            split: if_splits prod.splits)
    with ix fr False assms(4) show ?thesis by (auto simp: key_member_def)
  qed
qed

lemma key_rest_members:
  assumes "is_object ns i" "key_rest ns i seen [] 0 u"
  shows "jmembers ns i seen (c_quote # u)"
proof -
  from assms(2) obtain b s2 s3 v r seen' n where
    u: "u = b @ c_quote # s2 @ c_colon # s3 @ v @ r" and
    b: "if keys_are_free ns i = Some True then str_body b
        else list_all (\<lambda>c. 32 \<le> c \<and> c \<noteq> c_quote \<and> c \<noteq> c_backslash) b" and
    k: "check_key ns i seen b = Some (Some seen')" "value_node_for ns i b = Some (Some n)" and
    r: "ws s2" "ws s3" "jval ns n v" "jnext ns i seen' r"
    by (auto simp: key_rest_def)
  from key_memberI [OF assms(1) k b] r show ?thesis using members [of "[]" ns i seen b seen' n s2 s3 _ v r] u by simp
qed

lemma key_restI:
  assumes "escape_tail escape p" "escape > 0 \<longrightarrow> keys_are_free ns i = Some True"
    "if keys_are_free ns i = Some True then str_body b
     else list_all (\<lambda>c. 32 \<le> c \<and> c \<noteq> c_quote \<and> c \<noteq> c_backslash) b"
    "check_key ns i seen (key @ p @ b) = Some (Some seen')"
    "value_node_for ns i (key @ p @ b) = Some (Some n)"
    "ws s2" "ws s3" "jval ns n v" "jnext ns i seen' r"
  shows "key_rest ns i seen key escape (p @ b @ c_quote # s2 @ c_colon # s3 @ v @ r)"
  using assms unfolding key_rest_def by blast

lemma key_restE:
  assumes "key_rest ns i seen key escape w"
  obtains p b s2 s3 v r seen' n where
    "w = p @ b @ c_quote # s2 @ c_colon # s3 @ v @ r" "escape_tail escape p"
    "if keys_are_free ns i = Some True then str_body b
     else list_all (\<lambda>c. 32 \<le> c \<and> c \<noteq> c_quote \<and> c \<noteq> c_backslash) b"
    "check_key ns i seen (key @ p @ b) = Some (Some seen')"
    "value_node_for ns i (key @ p @ b) = Some (Some n)"
    "ws s2" "ws s3" "jval ns n v" "jnext ns i seen' r"
  using assms unfolding key_rest_def by blast

lemma in_key_sound:
  assumes "in_key i seen key e c m = Accept m'" "stack m = FObject i OKey seen key e # fs"
    "is_object (m_schema m) i" "e > 0 \<longrightarrow> keys_are_free (m_schema m) i = Some True" "\<not> doc_done m" "doc_rest m' w"
  shows "doc_rest m (c # w)"
proof -
  let ?ns = "m_schema m"
  from assms(3) obtain free where fr: "keys_are_free ?ns i = Some free" using keys_are_free_total by blast
  consider (esc) "e > 0" "escape_ok e c" "m' = set_top (FObject i OKey seen (key @ [c]) (escape_next e c)) m"
    | (close) seen' where "e = 0" "c = c_quote" "check_key ?ns i seen key = Some (Some seen')"
        "m' = set_top (FObject i OColon seen' key e) m"
    | (bs) "e = 0" "c = c_backslash" free "m' = set_top (FObject i OKey seen (key @ [c]) 5) m"
    | (plain) "e = 0" "c \<noteq> c_quote" "c \<noteq> c_backslash" "32 \<le> c"
        "m' = set_top (FObject i OKey seen (key @ [c]) e) m"
    using assms(1) fr by (auto simp: in_key_def split: if_splits option.splits)
  then show ?thesis
  proof cases
    case esc
    show ?thesis
    proof (rule top_step [OF assms(2,5) assms(6) [unfolded esc(3)]])
      fix u assume "frame_rest ?ns (FObject i OKey seen (key @ [c]) (escape_next e c)) u"
      then show "frame_rest ?ns (FObject i OKey seen key e) (c # u)"
        using key_restI [of e "c # _" ?ns i _ seen key] escape_tail_Cons [OF esc(1,2)] assms(4) esc(1)
        by (auto elim!: key_restE)
    qed
  next
    case close
    show ?thesis
    proof (rule top_step [OF assms(2,5) assms(6) [unfolded close(4)]])
      fix u assume "frame_rest ?ns (FObject i OColon seen' key e) u"
      then show "frame_rest ?ns (FObject i OKey seen key e) (c # u)"
        using key_restI [of e "[]" ?ns i "[]" seen key seen'] close body_nil by auto
    qed
  next
    case bs
    show ?thesis
    proof (rule top_step [OF assms(2,5) assms(6) [unfolded bs(4)]])
      fix u assume "frame_rest ?ns (FObject i OKey seen (key @ [c]) 5) u"
      then show "frame_rest ?ns (FObject i OKey seen key e) (c # u)"
        using key_restI [of e "[]" ?ns i "c # _ @ _" seen key] bs fr body_of_escape by (auto elim!: key_restE)
    qed
  next
    case plain
    show ?thesis
    proof (rule top_step [OF assms(2,5) assms(6) [unfolded plain(5)]])
      fix u assume "frame_rest ?ns (FObject i OKey seen (key @ [c]) e) u"
      then show "frame_rest ?ns (FObject i OKey seen key e) (c # u)"
        using key_restI [of e "[]" ?ns i "c # _" seen key] plain body_plain
        by (auto elim!: key_restE split: if_splits)
    qed
  qed
qed

lemma close_object_sound:
  assumes "close_object i seen m = Accept m'" "stack m = f # fs" "is_object (m_schema m) i"
    "\<not> doc_done m" "doc_rest m' w"
  shows "closes (m_schema m) i seen \<and> below (m_schema m) fs w"
proof -
  from assms(1,3) have "finish_value m = Accept m'" "closes (m_schema m) i seen"
    by (auto simp: close_object_def is_object_def closes_def list_all_iff index_run split: if_splits)
  with finish_value_sound [OF this(1) assms(2,4,5)] show ?thesis by simp
qed

lemma ws_step:
  assumes "is_json_ws c" "stack m = f # fs" "\<not> doc_done m" "doc_rest m w"
    "\<And>u. frame_rest (m_schema m) f u \<Longrightarrow> frame_rest (m_schema m) f (c # u)"
  shows "doc_rest m (c # w)"
proof -
  have "set_top f m = m" using assms(2) by (simp add: set_top_def)
  with assms show ?thesis by (intro top_step [OF assms(2,3), of f]) simp_all
qed

lemma jnext_ws: "is_json_ws c \<Longrightarrow> jnext ns i seen u \<Longrightarrow> jnext ns i seen (c # u)"
  by (erule gnext.cases) (metis append_Cons list.pred_inject(2) next_close, metis append_Cons list.pred_inject(2) next_more)

lemma jmembers_ws: "is_json_ws c \<Longrightarrow> jmembers ns i seen u \<Longrightarrow> jmembers ns i seen (c # u)"
  by (erule gmembers.cases) (metis append_Cons list.pred_inject(2) members)

lemma jelems_ws: "is_json_ws c \<Longrightarrow> jelems ns k u \<Longrightarrow> jelems ns k (c # u)"
  by (erule gelems.cases) (metis append_Cons list.pred_inject(2) elems)

lemma jelems_next_ws: "is_json_ws c \<Longrightarrow> jelems_next ns k u \<Longrightarrow> jelems_next ns k (c # u)"
  by (erule gelems_next.cases)
     (metis append_Cons list.pred_inject(2) elems_close, metis append_Cons list.pred_inject(2) elems_more)

lemma container_ws:
  assumes "is_json_ws c" "frame_rest ns f u"
    "(\<exists>i st seen key e. f = FObject i st seen key e \<and> st \<noteq> OKey) \<or> (\<exists>k st. f = FArray k st)"
  shows "frame_rest ns f (c # u)"
proof -
  have close: "\<exists>s. c # t @ [x] = s @ [x] \<and> ws s" if "ws t" for t x
    using that assms(1) by (intro exI [of _ "c # t"]) simp
  have colon: "\<exists>s2. c # t @ r = s2 @ r \<and> ws s2" if "ws t" for t r
    using that assms(1) by (intro exI [of _ "c # t"]) simp
  from assms(3) show ?thesis
  proof (elim disjE exE conjE)
    fix i st seen key e assume f: "f = FObject i st seen key e" "st \<noteq> OKey"
    show ?thesis
    proof (cases st)
      case OColon
      with f assms(2) colon show ?thesis by simp (metis append_Cons list.pred_inject(2) assms(1))
    qed (use f assms(1,2) close jmembers_ws jnext_ws in auto)
  next
    fix k st assume "f = FArray k st"
    with assms(1,2) close jelems_ws jelems_next_ws show ?thesis by (cases st) auto
  qed
qed

lemma in_object_sound:
  assumes "in_object i st seen key e c m = Accept m'" "stack m = FObject i st seen key e # fs"
    "frame_ok (m_schema m) (FObject i st seen key e)" "\<not> doc_done m" "doc_rest m' w"
  shows "doc_rest m (c # w)"
proof -
  let ?ns = "m_schema m"
  from assms(3) have ob: "is_object ?ns i" and esc: "st = OKey \<Longrightarrow> e > 0 \<longrightarrow> keys_are_free ?ns i = Some True"
    by auto
  from keys_are_free_total [OF ob] have fr: "keys_are_free ?ns i \<noteq> None" by auto
  have closing: ?thesis if "close_object i seen m = Accept m'" "c = c_rbrace" "st = OStart \<or> st = ONext"
  proof -
    from close_object_sound [OF that(1) assms(2) ob assms(4,5)]
    have cl: "closes ?ns i seen" and bel: "below ?ns fs w" by auto
    from cl have "frame_rest ?ns (FObject i st seen key e) [c]"
      using that(2,3) next_close [of "[]" ?ns i seen] by auto
    with doc_restI [OF assms(2,4) this bel] show ?thesis by simp
  qed
  have spaces: ?thesis if "is_json_ws c" "m' = m" "st \<noteq> OKey"
    by (rule ws_step [OF that(1) assms(2,4) assms(5) [unfolded that(2)]])
       (use container_ws [OF that(1)] that(3) in auto)
  show ?thesis
  proof (cases st)
    case OKey
    with assms fr have "in_key i seen key e c m = Accept m'" by (simp add: in_object_def)
    from in_key_sound [OF this _ ob esc assms(4,5)] OKey assms(2) show ?thesis by simp
  next
    case OValue
    with assms(1) fr show ?thesis by (simp add: in_object_def)
  next
    case OColon
    show ?thesis
    proof (cases "is_json_ws c")
      case True
      with assms(1) fr OColon have "m' = m" by (simp add: in_object_def)
      with True OColon show ?thesis by (intro spaces) simp_all
    next
      case False
      with assms(1) fr OColon obtain n where n: "c = c_colon" "value_node_for ?ns i key = Some (Some n)"
        and m': "m' = m\<lparr>stack := FValue n # FObject i OValue seen key e # tl (stack m)\<rparr>"
        by (auto simp: in_object_def split: if_splits option.splits)
      from assms(2,4,5) m' obtain s3 v r x where w: "w = (s3 @ v) @ r @ x" "ws s3" "jval ?ns n v"
        "jnext ?ns i seen r" "below ?ns fs x"
        by (auto simp: doc_rest_def)
      have "frame_rest ?ns (FObject i OColon seen key e) ([] @ c_colon # s3 @ v @ r)"
        by (rule frame_rest_colonI [OF n(2) _ w(2-4)]) simp
      with OColon n(1) have "frame_rest ?ns (FObject i st seen key e) (c # s3 @ v @ r)"
        by (simp only: append_Nil)
      from doc_restI [OF assms(2,4) this w(5)] w(1) show ?thesis by simp
    qed
  next
    case ONext
    with assms(1) fr consider (ws) "is_json_ws c" "m' = m"
      | (comma) "c = c_comma" "m' = set_top (FObject i OKeyExpected seen key e) m"
      | (close) "c = c_rbrace" "close_object i seen m = Accept m'"
      by (auto simp: in_object_def split: if_splits)
    then show ?thesis
    proof cases
      case comma
      show ?thesis
        by (rule top_step [OF assms(2,4) assms(5) [unfolded comma(2)]])
           (use next_more [of "[]" _ ?ns i seen] comma(1) ONext in simp)
    qed (use spaces closing ONext in auto)
  next
    case OStart
    with assms(1) fr consider (ws) "is_json_ws c" "m' = m"
      | (close) "c = c_rbrace" "close_object i seen m = Accept m'"
      | (quote) "c = c_quote" "m' = set_top (FObject i OKey seen [] 0) m"
      by (auto simp: in_object_def split: if_splits)
    then show ?thesis
    proof cases
      case quote
      show ?thesis
        by (rule top_step [OF assms(2,4) assms(5) [unfolded quote(2)]])
           (use key_rest_members [OF ob] quote(1) OStart in simp)
    qed (use spaces closing OStart in auto)
  next
    case OKeyExpected
    with assms(1) fr consider (ws) "is_json_ws c" "m' = m"
      | (quote) "c = c_quote" "m' = set_top (FObject i OKey seen [] 0) m"
      by (auto simp: in_object_def split: if_splits)
    then show ?thesis
    proof cases
      case quote
      show ?thesis
        by (rule top_step [OF assms(2,4) assms(5) [unfolded quote(2)]])
           (use key_rest_members [OF ob] quote(1) OKeyExpected in simp)
    qed (use spaces OKeyExpected in auto)
  qed
qed

lemma in_array_sound:
  assumes "in_array k st c m = Inl (Accept m')" "stack m = FArray k st # fs" "\<not> doc_done m" "doc_rest m' w"
  shows "doc_rest m (c # w)"
proof -
  let ?ns = "m_schema m"
  from assms(1) consider (ws) "is_json_ws c" "m' = m"
    | (close) "c = c_rbracket" "finish_value m = Accept m'" "st = AStart \<or> st = ANext"
    | (comma) "c = c_comma" "m' = set_top (FArray k AValueExpected) m" "st = ANext"
    by (cases st) (auto simp: in_array_def Let_def split: if_splits)
  then show ?thesis
  proof cases
    case ws
    show ?thesis
      by (rule ws_step [OF ws(1) assms(2,3) assms(4) [unfolded ws(2)]]) (use container_ws [OF ws(1)] in auto)
  next
    case close
    then have "frame_rest ?ns (FArray k st) [c]" using elems_close [of "[]"] by auto
    with close_step [OF close(2) assms(2) refl refl assms(2-4) this] show ?thesis by simp
  next
    case comma
    show ?thesis
      by (rule top_step [OF assms(2,3) assms(4) [unfolded comma(2)]])
         (use comma elems_more [of "[]"] in auto)
  qed
qed

lemma in_array_again:
  assumes "in_array k st c m = Inr m'" "stack m = FArray k st # fs" "\<not> doc_done m" "doc_rest m' w"
  shows "doc_rest m w"
proof -
  let ?ns = "m_schema m" and ?n = "item_node (m_schema m) k"
  from assms(1,2) have m': "m' = m\<lparr>stack := FValue ?n # FArray k AValue # fs\<rparr>" and st: "st = AStart \<or> st = AValueExpected"
    by (cases st; auto simp: in_array_def Let_def item_node_def split: if_splits)+
  with assms(3,4) obtain s v r x where
    w: "w = (s @ v) @ r @ x" "ws s" "jval ?ns ?n v" "jelems_next ?ns ?n r" "below ?ns fs x"
    by (auto simp: doc_rest_def)
  then have "frame_rest ?ns (FArray k st) (s @ v @ r)" using st elems [of s _ ?ns ?n v r] by auto
  from doc_restI [OF assms(2,3) this w(5)] w(1) show ?thesis by simp
qed

section \<open>Soundness\<close>

lemma doc_rest_cong:
  "m_schema m' = m_schema m \<Longrightarrow> stack m' = stack m \<Longrightarrow> doc_done m' = doc_done m \<Longrightarrow> doc_rest m' w = doc_rest m w"
  by (cases "stack m") (simp_all add: doc_rest_def)

lemma push_frame_sound:
  assumes "machine_ok m" "schema_ascii (m_schema m)" "\<not> doc_done m"
  shows "push_frame c m = Inl (Accept m') \<Longrightarrow> doc_rest m' w \<Longrightarrow> doc_rest m (c # w)"
    and "push_frame c m = Inr m' \<Longrightarrow> doc_rest m' w \<Longrightarrow> doc_rest m w"
proof -
  from assms obtain f fs where st: "stack m = f # fs" by (cases "stack m") (auto simp: machine_ok_def)
  from st assms(1) have ok: "frame_ok (m_schema m) f" by (simp add: machine_ok_def)
  show "doc_rest m (c # w)" if "push_frame c m = Inl (Accept m')" "doc_rest m' w"
    using that st ok assms(2,3)
    by (cases f)
       (auto simp: push_frame_def intro: start_value_sound in_string_sound in_number_sound in_word_sound
          in_object_sound in_array_sound simp del: frame_ok.simps(2))
  show "doc_rest m w" if "push_frame c m = Inr m'" "doc_rest m' w"
    using that st assms(3)
    by (cases f) (auto simp: push_frame_def intro: in_number_again in_array_again)
qed

lemma push_char_sound:
  assumes "machine_ok m" "schema_ascii (m_schema m)" "push_char c m = Accept m'" "doc_rest m' w"
  shows "doc_rest m (c # w)"
  using assms
proof (induction c m rule: push_char.induct)
  case (1 c m)
  from 1(4) obtain m1 where m1: "note_ws c m = Some m1"
    by (auto simp: push_char.simps [of c m] split: option.splits)
  note same = note_ws_Some [OF m1]
  from same 1(2,3) have ok: "machine_ok m1" "schema_ascii (m_schema m1)" by (auto intro: machine_ok_cong)
  have "doc_rest m1 (c # w)"
  proof (cases "doc_done m1")
    case True
    with 1(4,5) m1 show ?thesis
      by (auto simp: push_char.simps [of c m] doc_rest_def split: if_splits)
  next
    case False
    show ?thesis
    proof (cases "push_frame c m1")
      case (Inl v)
      with 1(4) m1 False have "v = Accept m'" by (simp add: push_char.simps [of c m])
      with push_frame_sound(1) [OF ok False] Inl 1(5) show ?thesis by simp
    next
      case (Inr m2)
      with 1(4) m1 False have "push_char c m2 = Accept m'" by (simp add: push_char.simps [of c m])
      moreover have "machine_ok m2"
        using push_frame_safe [OF ok(1) False, of c] Inr by (simp add: safe_or_again_def)
      ultimately have "doc_rest m2 (c # w)"
        using 1(1) [OF m1 False Inr] push_frame_schema [of c m1 m2] Inr ok(2) 1(5) by simp
      with push_frame_sound(2) [OF ok False Inr] show ?thesis by simp
    qed
  qed
  with same show ?case using doc_rest_cong [of m1 m] by simp
qed

lemma push_sound:
  "machine_ok m \<Longrightarrow> schema_ascii (m_schema m) \<Longrightarrow> push t m = Accept m' \<Longrightarrow> doc_rest m' w \<Longrightarrow> doc_rest m (t @ w)"
proof (induction t arbitrary: m)
  case (Cons c t)
  then obtain m1 where m1: "push_char c m = Accept m1" "push t m1 = Accept m'"
    by (auto split: verdict.splits)
  with Cons.prems push_char_safe [of m c] have "machine_ok m1" by simp
  moreover have "m_schema m1 = m_schema m" by (rule push_char_schema [OF m1(1)])
  ultimately show ?case using Cons.IH [of m1] Cons.prems m1 push_char_sound [of m c m1 "t @ w"] by simp
qed simp

lemma complete_rest: "machine_ok m \<Longrightarrow> machine_complete m \<Longrightarrow> doc_rest m []"
  by (auto simp: machine_complete_def doc_rest_def num_rest_end split: list.splits frame.splits)

lemma machine_sound:
  assumes "schema_wf ns" "schema_ascii ns" "push t (machine_new ns) = Accept m" "machine_complete m"
  shows "padded_document ns t"
proof -
  have ok: "machine_ok (machine_new ns)" by (rule machine_new_ok [OF assms(1)])
  moreover have "machine_ok m" using push_safe [OF ok, of t] assms(3) by simp
  ultimately have "doc_rest (machine_new ns) (t @ [])"
    using push_sound complete_rest assms by (metis machine_new_def machine.select_convs(1))
  then obtain s v r where t: "t = s @ v @ r" "ws s" "jval ns 0 v" "ws r"
    by (auto simp: doc_rest_def machine_new_def)
  have "s = []"
  proof (cases s)
    case (Cons c s')
    with t(2) have "push_char c (machine_new ns) = Refuse"
      by (simp add: push_char.simps note_ws_def machine_new_def in_string_body_def)
    with assms(3) t(1) Cons show ?thesis by simp
  qed
  with t show ?thesis by (auto simp: padded_document_def gdocument_def)
qed

section \<open>Documents without padded numbers\<close>

text \<open>
  Where a value can begin: at the start of the text, after white space, a colon, a comma or an opening
  bracket.  A zero is superfluous when a number begins with it, perhaps after a minus sign, and a digit
  follows.  A text without one is read the same way by both rules for numbers.
\<close>

definition value_start :: "utext \<Rightarrow> bool" where
  "value_start u = (u = [] \<or> is_json_ws (last u) \<or> last u \<in> {c_colon, c_comma, c_lbracket})"

definition number_start :: "utext \<Rightarrow> bool" where
  "number_start u = (value_start u \<or> (u \<noteq> [] \<and> last u = c_minus \<and> value_start (butlast u)))"

definition unpadded :: "utext \<Rightarrow> bool" where
  "unpadded t = (\<forall>i<length t - 1. t ! i = 48 \<and> is_digit (t ! Suc i) \<longrightarrow> \<not> number_start (take i t))"

lemma unpaddedD: "unpadded (u @ 48 # d # v) \<Longrightarrow> is_digit d \<Longrightarrow> \<not> number_start u"
  unfolding unpadded_def by (drule spec [of _ "length u"]) (simp add: nth_append)

lemma unpadded_no_zero: "48 \<notin> set t \<Longrightarrow> unpadded t"
  unfolding unpadded_def by (metis add_lessD1 less_diff_conv nth_mem)

lemma value_start_ws: "value_start u \<Longrightarrow> ws s \<Longrightarrow> value_start (u @ s)"
  by (cases s rule: rev_cases) (auto simp: value_start_def)

lemma unpadded_number:
  assumes "padded_number integer w" "value_start u" "unpadded (u @ w @ v)"
  shows "is_number integer w"
proof -
  from assms(1) obtain sg ds fr ex where w: "w = sg @ ds @ fr @ ex" "sg \<in> {[], [c_minus]}" "ds \<noteq> []" "digits ds"
    "fraction fr" "exponent ex" "integer \<longrightarrow> fr = [] \<and> ex = []" unfolding padded_number_def by blast
  have "number_start (u @ sg)" using assms(2) w(2) by (auto simp: number_start_def)
  then have "hd ds = 48 \<longrightarrow> tl ds = []"
    using unpaddedD [of "u @ sg" "hd (tl ds)" "tl (tl ds) @ fr @ ex @ v"] assms(3) w(1,3,4)
    by (cases ds; cases "tl ds") auto
  with w show ?thesis unfolding is_number_def by blast
qed

lemma unpadded_grammar:
  "jval ns i w \<Longrightarrow> value_start u \<Longrightarrow> unpadded (u @ w @ v) \<Longrightarrow> gval is_number ns i w"
  "jmembers ns j seen w \<Longrightarrow> unpadded (u @ w @ v) \<Longrightarrow> gmembers is_number ns j seen w"
  "jnext ns j seen w \<Longrightarrow> unpadded (u @ w @ v) \<Longrightarrow> gnext is_number ns j seen w"
  "jelems ns k w \<Longrightarrow> value_start u \<Longrightarrow> unpadded (u @ w @ v) \<Longrightarrow> gelems is_number ns k w"
  "jelems_next ns k w \<Longrightarrow> unpadded (u @ w @ v) \<Longrightarrow> gelems_next is_number ns k w"
proof (induction arbitrary: u v and u v and u v and u v and u v rule: gval_gmembers_gnext_gelems_gelems_next.inducts)
  case (val_num i n w)
  then show ?case using gval_gmembers_gnext_gelems_gelems_next.val_num unpadded_number by blast
next
  case (val_array i n k w)
  have "value_start (u @ [c_lbracket])" by (simp add: value_start_def)
  from val_array(3) [OF this, of v] val_array(1,4,6) show ?case
    by (intro gval_gmembers_gnext_gelems_gelems_next.val_array) simp_all
next
  case (val_object i n ps req add w)
  from val_object(3) [of "u @ [c_lbrace]" v] val_object(1,4,6) show ?case
    by (intro gval_gmembers_gnext_gelems_gelems_next.val_object) simp_all
next
  case (members s1 i seen k seen' n s2 s3 x r)
  let ?u = "u @ s1 @ c_quote # k @ c_quote # s2 @ [c_colon]"
  have "value_start (?u @ s3)" by (rule value_start_ws [OF _ members(3)]) (simp add: value_start_def)
  from members(6) [OF this, of "r @ v"] members(8) [of "?u @ s3 @ x" v] members(9)
  show ?case using gval_gmembers_gnext_gelems_gelems_next.members [OF members(1,4,2,3)] by simp
next
  case (next_more s i seen r)
  from next_more(3) [of "u @ s @ [c_comma]" v] next_more(1,4) show ?case
    using gval_gmembers_gnext_gelems_gelems_next.next_more by simp
next
  case (elems s k x r)
  from elems(3) [OF value_start_ws [OF elems(6,1)], of "r @ v"] elems(5) [of "u @ s @ x" v] elems(7)
  show ?case using gval_gmembers_gnext_gelems_gelems_next.elems [OF elems(1)] by simp
next
  case (elems_more s k r)
  have "value_start (u @ s @ [c_comma])" by (simp add: value_start_def)
  from elems_more(3) [OF this, of v] elems_more(1,4) show ?case
    using gval_gmembers_gnext_gelems_gelems_next.elems_more by simp
qed (blast intro: gval_gmembers_gnext_gelems_gelems_next.intros)+

lemma padded_is_json:
  assumes "padded_document ns t" "unpadded t"
  shows "jdocument ns t"
proof -
  from assms(1) obtain x s where t: "t = x @ s" "jval ns 0 x" "ws s"
    by (auto simp: padded_document_def gdocument_def)
  have "gval is_number ns 0 x" by (rule unpadded_grammar(1) [OF t(2), of "[]" s]) (use t(1) assms(2) in \<open>simp_all add: value_start_def\<close>)
  with t show ?thesis by (auto simp: jdocument_def gdocument_def)
qed

end
