(* ===== verification/Token_Masker.thy ===== *)
theory Token_Masker
  imports Json_Invariant Core_Types
begin

text \<open>
  \<open>TokenMasker\<close> of \<open>vapi-engine/src/structured.rs\<close>: the vocabulary bucketed by first byte, the mask
  over the logits of one step, and the mask that closes a document that runs out of budget.  A
  bucket map is an association list; the source iterates a \<open>HashMap\<close> in an unspecified order, and
  \<open>mask_exact\<close> shows that the result does not depend on it.  \<open>None\<close> is a panic.
\<close>

record token_masker =
  tm_texts :: "utext list"
  by_first :: "(nat \<times> nat list) list"

fun bucket_push :: "nat \<Rightarrow> nat \<Rightarrow> (nat \<times> nat list) list \<Rightarrow> (nat \<times> nat list) list" where
  "bucket_push b i [] = [(b, [i])]"
| "bucket_push b i ((b', ids) # bs) = (if b = b' then (b', ids @ [i]) # bs else (b', ids) # bucket_push b i bs)"

definition add_token :: "nat \<times> utext \<Rightarrow> (nat \<times> nat list) list \<Rightarrow> (nat \<times> nat list) list" where
  "add_token = (\<lambda>(i, t) bs. case utf8 t of [] \<Rightarrow> bs | b # _ \<Rightarrow> bucket_push b (u32_of i) bs)"

definition masker_new :: "utext list \<Rightarrow> token_masker" where
  "masker_new texts = \<lparr>tm_texts = texts, by_first = fold add_token (enumerate 0 texts) []\<rparr>"

definition masker_vocab_size :: "token_masker \<Rightarrow> nat" where
  "masker_vocab_size tm = length (tm_texts tm)"

definition eos_logits_of :: "nat list \<Rightarrow> f32 list \<Rightarrow> (nat \<times> f32) list" where
  "eos_logits_of eos logits = List.map_filter (\<lambda>e. map_option (Pair e) (index logits e)) eos"

text \<open>Everything masked but the end-of-sequence tokens.\<close>

definition only_eos :: "nat list \<Rightarrow> f32 list \<Rightarrow> f32 list" where
  "only_eos eos logits =
     fold (\<lambda>(i, original) ls. ls[i := original]) (eos_logits_of eos logits) (map (\<lambda>_. NegInf) logits)"

definition try_token :: "token_masker \<Rightarrow> machine \<Rightarrow> nat \<Rightarrow> bool list \<Rightarrow> bool list option" where
  "try_token tm m i allowed =
     (if i < length allowed then
        do { t \<leftarrow> index (tm_texts tm) i; ok \<leftarrow> allows t m; Some (if ok then allowed[i := True] else allowed) }
      else Some allowed)"

definition try_bucket :: "token_masker \<Rightarrow> machine \<Rightarrow> nat \<times> nat list \<Rightarrow> bool list \<Rightarrow> bool list option" where
  "try_bucket tm m = (\<lambda>(byte, ids) allowed.
     do { worth_trying \<leftarrow> (if byte \<ge> 128 then Some True else allows [byte] m);
          if worth_trying then for_each (try_token tm m) ids allowed else Some allowed })"

definition try_closing :: "token_masker \<Rightarrow> machine \<Rightarrow> nat \<Rightarrow> bool list \<Rightarrow> bool list option" where
  "try_closing tm m i allowed =
     (if i \<ge> length allowed then Some allowed
      else do {
        t \<leftarrow> index (tm_texts tm) i;
        (case push t m of
           Panic \<Rightarrow> None
         | Refuse \<Rightarrow> Some allowed
         | Accept probe \<Rightarrow>
             do { ok \<leftarrow> viable probe;
                  Some (if ok \<and> (depth probe < depth m \<or> machine_complete probe) then allowed[i := True] else allowed) })
      })"

definition mask_closing :: "token_masker \<Rightarrow> machine \<Rightarrow> bool list \<Rightarrow> bool list option" where
  "mask_closing tm m allowed = for_each (\<lambda>(_, ids). for_each (try_closing tm m) ids) (by_first tm) allowed"

text \<open>Keep the allowed logits and mask the rest, end-of-sequence tokens included.\<close>

definition keep_allowed :: "nat list \<Rightarrow> bool list \<Rightarrow> f32 list \<Rightarrow> f32 list" where
  "keep_allowed eos allowed logits =
     fold (\<lambda>i ls. if i < length ls then ls[i := NegInf] else ls) eos
       (map2 (\<lambda>a l. if a then l else NegInf) allowed logits)"

definition mask_logits :: "token_masker \<Rightarrow> machine \<Rightarrow> nat list \<Rightarrow> f32 list \<Rightarrow> f32 list option" where
  "mask_logits tm m eos logits =
     (if machine_complete m then Some (only_eos eos logits)
      else do {
        tried \<leftarrow> for_each (try_bucket tm m) (by_first tm) (replicate (length logits) False);
        allowed \<leftarrow> (if list_ex id tried then Some tried else mask_closing tm m tried);
        Some (if list_ex id allowed then keep_allowed (map fst (eos_logits_of eos logits)) allowed logits
              else only_eos eos logits)
      })"

definition mask_finishing :: "token_masker \<Rightarrow> machine \<Rightarrow> nat list \<Rightarrow> f32 list \<Rightarrow> f32 list option" where
  "mask_finishing tm m eos logits =
     (if machine_complete m then mask_logits tm m eos logits
      else do {
        allowed \<leftarrow> mask_closing tm m (replicate (length logits) False);
        if list_ex id allowed then Some (keep_allowed eos allowed logits) else mask_logits tm m eos logits
      })"

section \<open>A state that is not viable stays so\<close>

lemma unseen_with_prefix_iff:
  "unseen_with_prefix ps seen k \<longleftrightarrow> (\<exists>i<length ps. i \<notin> set seen \<and> prefix k (fst (ps ! i)))"
proof -
  have "enumerate 0 ps = map (\<lambda>i. (i, ps ! i)) [0..<length ps]"
    by (rule nth_equalityI) (simp_all add: nth_enumerate_eq)
  then show ?thesis by (auto simp: unseen_with_prefix_def list_ex_iff split_beta)
qed

lemma unseen_mono: "prefix k k' \<Longrightarrow> unseen_with_prefix ps seen k' \<Longrightarrow> unseen_with_prefix ps seen k"
  by (auto simp: unseen_with_prefix_iff intro: prefix_order.trans)

lemma unseen_more: "unseen_with_prefix ps seen k \<Longrightarrow> list_ex (\<lambda>i. i \<notin> set seen) [0..<length ps]"
  by (auto simp: unseen_with_prefix_iff list_ex_iff)

lemma unseen_position:
  "position (\<lambda>p. fst p = k) ps = Some j \<Longrightarrow> j \<notin> set seen \<Longrightarrow> unseen_with_prefix ps seen k"
  by (auto simp: unseen_with_prefix_iff dest!: position_Some)

definition dead_top :: "machine \<Rightarrow> bool" where
  "dead_top m = (\<exists>i st seen key e fs ps req add.
     stack m = FObject i st seen key e # fs \<and> i \<noteq> free_node \<and>
     index (m_schema m) i = Some (ObjectNode ps req add) \<and> \<not> object_viable ps req add st seen key)"

lemma all_frames_Some:
  "list_all (frame_ok ns) fs \<Longrightarrow> all_frames ns fs = Some (list_all (\<lambda>f. frame_viable ns f = Some True) fs)"
proof (induction fs)
  case (Cons f fs)
  then have "frame_viable ns f \<noteq> None"
    by (cases f) (auto simp: frame_viable_def is_object_def index_run)
  with Cons show ?case by auto
qed simp

lemma waiting_viable: "waiting f \<Longrightarrow> frame_ok ns f \<Longrightarrow> frame_viable ns f = Some True"
  by (cases f) (auto simp: frame_viable_def object_viable_def is_object_def index_run Let_def)

lemma viable_dead_top:
  assumes "machine_ok m"
  shows "viable m = Some (\<not> dead_top m)"
proof (cases "stack m")
  case Nil
  with assms show ?thesis by (auto simp: viable_def machine_ok_def dead_top_def)
next
  case (Cons f fs)
  with assms have ok: "list_all (frame_ok (m_schema m)) fs" "list_all waiting fs" "frame_ok (m_schema m) f"
    "\<not> doc_done m" by (auto simp: machine_ok_def)
  then have fs: "list_all (\<lambda>f. frame_viable (m_schema m) f = Some True) fs"
    by (auto simp: list_all_iff waiting_viable)
  have "viable m = Some (frame_viable (m_schema m) f = Some True)"
    using ok fs Cons all_frames_Some [of "m_schema m" "rev (f # fs)"] by (simp add: viable_def list_all_rev)
  also have "frame_viable (m_schema m) f = Some True \<longleftrightarrow> \<not> dead_top m"
    using ok(3) Cons by (cases f) (auto simp: frame_viable_def dead_top_def is_object_def index_run)
  finally show ?thesis .
qed

lemma dead_step:
  assumes "machine_ok m" "dead_top m" "push_char c m = Accept m'"
  shows "dead_top m'"
proof -
  from assms(2) obtain i st seen key e fs ps req add where
    st: "stack m = FObject i st seen key e # fs" "i \<noteq> free_node" and
    ix: "index (m_schema m) i = Some (ObjectNode ps req add)" and
    dead: "\<not> object_viable ps req add st seen key"
    unfolding dead_top_def by blast
  from st assms(1) have "\<not> doc_done m" "st = OKey \<and> e > 0 \<longrightarrow> keys_are_free (m_schema m) i = Some True"
    by (auto simp: machine_ok_def)
  note ok = this
  have fr: "keys_are_free (m_schema m) i = Some add" using ix st(2) by (auto simp: keys_are_free_def index_run)
  from dead have add: "\<not> add" by (cases st) (auto simp: object_viable_def Let_def)
  obtain m1 where m1: "note_ws c m = Some m1" using assms(3) by (auto simp: push_char.simps [of c m] split: option.splits)
  note same = note_ws_Some [OF m1]
  from assms(3) m1 same ok st have run: "in_object i st seen key e c m1 = Accept m'"
    by (simp add: push_char.simps [of c m] push_frame_def)
  have stay: ?thesis if "m' = set_top (FObject i st' seen key' e') m1 \<or> m' = m1 \<and> st' = st \<and> key' = key \<and> e' = e"
    "\<not> object_viable ps req add st' seen key'" for st' key' e'
    using that st ix same unfolding dead_top_def by auto
  show ?thesis
  proof (cases st)
    case OKey
    with ok fr add have e: "e = 0" by auto
    from OKey dead add have np: "\<not> unseen_with_prefix ps seen key" by (simp add: object_viable_def Let_def)
    then have "\<not> unseen_with_prefix ps seen (key @ [c])" using unseen_mono [of key "key @ [c]"] by auto
    with run OKey e fr add np ix st(2) same show ?thesis
      by (auto simp: in_object_def in_key_def check_key_def key_possible_def index_run
            dest: unseen_position split: if_splits option.splits)
  next
    case ONext
    with run fr same ix st(2) dead consider "m' = m1" | "m' = set_top (FObject i OKeyExpected seen key e) m1"
      by (auto simp: in_object_def close_object_def object_viable_def index_run split: if_splits)
    with ONext dead show ?thesis
      using stay [of ONext key e] stay [of OKeyExpected key e] by cases (auto simp: object_viable_def Let_def)
  next
    case OStart
    with dead have np: "\<not> unseen_with_prefix ps seen []" using unseen_more by (auto simp: object_viable_def Let_def)
    from OStart run fr same ix st(2) dead consider "m' = m1" | "m' = set_top (FObject i OKey seen [] 0) m1"
      by (auto simp: in_object_def close_object_def object_viable_def index_run split: if_splits)
    with OStart dead np add show ?thesis
      using stay [of OStart key e] stay [of OKey "[]" 0] by cases (auto simp: object_viable_def Let_def)
  next
    case OKeyExpected
    with dead have np: "\<not> unseen_with_prefix ps seen []" using unseen_more by (auto simp: object_viable_def Let_def)
    from OKeyExpected run fr same consider "m' = m1" | "m' = set_top (FObject i OKey seen [] 0) m1"
      by (auto simp: in_object_def split: if_splits)
    with OKeyExpected dead np add show ?thesis
      using stay [of OKeyExpected key e] stay [of OKey "[]" 0] by cases (auto simp: object_viable_def Let_def)
  qed (use dead in \<open>simp_all add: object_viable_def Let_def\<close>)
qed

lemma dead_push: "machine_ok m \<Longrightarrow> dead_top m \<Longrightarrow> push t m = Accept m' \<Longrightarrow> dead_top m'"
proof (induction t arbitrary: m)
  case (Cons c t)
  then obtain m1 where "push_char c m = Accept m1" "push t m1 = Accept m'" by (auto split: verdict.splits)
  with Cons push_char_safe [of m c] dead_step [of m c m1] show ?case by simp
qed simp

text \<open>What a text may do, its first character may do: the filter on first bytes loses nothing.\<close>

lemma allows_first:
  assumes "machine_ok m" "allows (c # t) m = Some True"
  shows "allows [c] m = Some True"
proof -
  from assms(2) obtain m1 m2 where p: "push_char c m = Accept m1" "push t m1 = Accept m2" "viable m2 = Some True"
    by (auto simp: allows_def split: verdict.splits)
  have ok1: "machine_ok m1" using push_char_safe [OF assms(1), of c] p(1) by simp
  have ok2: "machine_ok m2" using push_safe [OF ok1, of t] p(2) by simp
  have "\<not> dead_top m1" using dead_push [OF ok1 _ p(2)] p(3) viable_dead_top [OF ok2] by auto
  with viable_dead_top [OF ok1] p(1) show ?thesis by (simp add: allows_def)
qed

section \<open>The mask is exact\<close>

text \<open>The ids a masker tries: those of the tokens that have a text, each under its first byte.\<close>

definition buckets_ok :: "token_masker \<Rightarrow> bool" where
  "buckets_ok tm = (\<forall>b i. (\<exists>ids. (b, ids) \<in> set (by_first tm) \<and> i \<in> set ids) \<longleftrightarrow>
     i < length (tm_texts tm) \<and> (\<exists>bs. utf8 (tm_texts tm ! i) = b # bs))"

lemma bucket_push_mem:
  "(\<exists>ids. (b, ids) \<in> set (bucket_push b' j bs) \<and> i \<in> set ids) \<longleftrightarrow>
   (b = b' \<and> i = j) \<or> (\<exists>ids. (b, ids) \<in> set bs \<and> i \<in> set ids)"
  by (induction b' j bs rule: bucket_push.induct) auto

lemma masker_new_ok:
  assumes "length texts < 2 ^ 32"
  shows "buckets_ok (masker_new texts)"
proof -
  have "(\<exists>ids. (b, ids) \<in> set (fold add_token (zip ks ts) bs) \<and> i \<in> set ids) \<longleftrightarrow>
        (\<exists>ids. (b, ids) \<in> set bs \<and> i \<in> set ids) \<or> (\<exists>t r. (i, t) \<in> set (zip ks ts) \<and> utf8 t = b # r)"
    if "\<forall>k\<in>set ks. k < 2 ^ 32" for ks :: "nat list" and ts b i bs
    using that
  proof (induction ks ts arbitrary: bs rule: list_induct2')
    case (4 k ks t ts)
    show ?case
    proof (cases "utf8 t")
      case Nil
      with 4 show ?thesis by (auto simp: add_token_def)
    next
      case (Cons b' r)
      have step: "add_token (k, t) bs = bucket_push b' k bs" using Cons 4 by (simp add: add_token_def)
      show ?thesis using Cons 4 by (auto simp: step bucket_push_mem)
    qed
  qed auto
  note fold_mem = this
  have zip_mem: "(i, t) \<in> set (zip [0..<length texts] texts) \<longleftrightarrow> i < length texts \<and> t = texts ! i" for i t
    by (auto simp: in_set_zip intro!: exI [of _ i])
  have "(\<exists>ids. (b, ids) \<in> set (by_first (masker_new texts)) \<and> i \<in> set ids) \<longleftrightarrow>
        (\<exists>t r. (i, t) \<in> set (zip [0..<length texts] texts) \<and> utf8 t = b # r)" for b i
    using fold_mem [of "[0..<length texts]" b texts "[]" i] assms
    by (simp add: masker_new_def enumerate_eq_zip)
  then show ?thesis unfolding buckets_ok_def zip_mem by (simp add: masker_new_def)
qed

lemma for_each_marks:
  assumes "\<And>x a. x \<in> set xs \<Longrightarrow> \<exists>a'. f x a = Some a' \<and> length a' = length a \<and>
             (\<forall>i<length a. a' ! i \<longleftrightarrow> a ! i \<or> M x i)"
  shows "\<exists>a'. for_each f xs a = Some a' \<and> length a' = length a \<and>
           (\<forall>i<length a. a' ! i \<longleftrightarrow> a ! i \<or> (\<exists>x\<in>set xs. M x i))"
  using assms
proof (induction xs arbitrary: a)
  case (Cons x xs)
  from Cons.prems [of x a] obtain a1 where a1: "f x a = Some a1" "length a1 = length a"
    "\<forall>i<length a. a1 ! i \<longleftrightarrow> a ! i \<or> M x i" by auto
  from Cons.IH [of a1] Cons.prems obtain a2 where "for_each f xs a1 = Some a2" "length a2 = length a1"
    "\<forall>i<length a1. a2 ! i \<longleftrightarrow> a1 ! i \<or> (\<exists>x\<in>set xs. M x i)" by auto
  with a1 show ?case by auto
qed simp

lemma for_each_buckets:
  assumes "\<And>b ids i a. (b, ids) \<in> set bs \<Longrightarrow> i \<in> set ids \<Longrightarrow>
             \<exists>a'. f i a = Some a' \<and> length a' = length a \<and> (\<forall>j<length a. a' ! j \<longleftrightarrow> a ! j \<or> j = i \<and> M i)"
    and "\<And>b ids. (b, ids) \<in> set bs \<Longrightarrow> \<exists>w. g b = Some w"
  shows "\<exists>a'. for_each (\<lambda>(b, ids) a. do { w \<leftarrow> g b; if w then for_each f ids a else Some a }) bs a = Some a' \<and>
           length a' = length a \<and>
           (\<forall>j<length a. a' ! j \<longleftrightarrow> a ! j \<or> (\<exists>b ids. (b, ids) \<in> set bs \<and> j \<in> set ids \<and> g b = Some True \<and> M j))"
proof -
  let ?h = "\<lambda>(b, ids) a. do { w \<leftarrow> g b; if w then for_each f ids a else Some a }"
  let ?M = "\<lambda>(b, ids) j. g b = Some True \<and> (\<exists>i\<in>set ids. j = i \<and> M i)"
  have "\<exists>a'. ?h x a = Some a' \<and> length a' = length a \<and> (\<forall>j<length a. a' ! j \<longleftrightarrow> a ! j \<or> ?M x j)"
    if x: "x \<in> set bs" for x a
  proof -
    obtain b ids where b: "x = (b, ids)" by (cases x)
    with assms(2) [of b ids] x obtain w where w: "g b = Some w" by auto
    show ?thesis
    proof (cases w)
      case True
      have "\<exists>a'. for_each f ids a = Some a' \<and> length a' = length a \<and>
              (\<forall>j<length a. a' ! j \<longleftrightarrow> a ! j \<or> (\<exists>i\<in>set ids. j = i \<and> M i))"
        by (rule for_each_marks) (use assms(1) x b in auto)
      with True w b show ?thesis by simp
    next
      case False
      with w b show ?thesis by simp
    qed
  qed
  from for_each_marks [of bs ?h ?M a, OF this] show ?thesis by (fastforce simp: split_beta)
qed

text \<open>The tokens that may follow, and those of them that close something.\<close>

definition may_follow :: "token_masker \<Rightarrow> machine \<Rightarrow> nat \<Rightarrow> bool" where
  "may_follow tm m i = (i < length (tm_texts tm) \<and> tm_texts tm ! i \<noteq> [] \<and> allows (tm_texts tm ! i) m = Some True)"

definition may_close :: "token_masker \<Rightarrow> machine \<Rightarrow> nat \<Rightarrow> bool" where
  "may_close tm m i = (i < length (tm_texts tm) \<and> tm_texts tm ! i \<noteq> [] \<and>
     (\<exists>m'. push (tm_texts tm ! i) m = Accept m' \<and> viable m' = Some True \<and> (depth m' < depth m \<or> machine_complete m')))"

lemma may_close_follow: "may_close tm m i \<Longrightarrow> may_follow tm m i"
  by (auto simp: may_close_def may_follow_def allows_def)

lemma first_byte: "utf8 (c # t) = b # bs \<Longrightarrow> (c < 128 \<and> b = c) \<or> 128 \<le> b"
  by (auto simp: utf8_char_def split: if_splits)

lemma bucket_index: "buckets_ok tm \<Longrightarrow> (b, ids) \<in> set (by_first tm) \<Longrightarrow> i \<in> set ids \<Longrightarrow> i < length (tm_texts tm)"
  unfolding buckets_ok_def by blast

lemma tried_exact:
  assumes "machine_ok m" "buckets_ok tm"
  shows "\<exists>a. for_each (try_bucket tm m) (by_first tm) (replicate n False) = Some a \<and> length a = n \<and>
           (\<forall>i<n. a ! i \<longleftrightarrow> may_follow tm m i)"
proof -
  let ?g = "\<lambda>b. if b \<ge> 128 then Some True else allows [b] m"
  have tb: "try_bucket tm m = (\<lambda>(b, ids) a. do { w \<leftarrow> ?g b; if w then for_each (try_token tm m) ids a else Some a })"
    by (simp add: try_bucket_def fun_eq_iff split_beta)
  have f: "\<exists>a'. try_token tm m i a = Some a' \<and> length a' = length a \<and>
      (\<forall>j<length a. a' ! j \<longleftrightarrow> a ! j \<or> j = i \<and> allows (tm_texts tm ! i) m = Some True)"
    if "(b, ids) \<in> set (by_first tm)" "i \<in> set ids" for b ids i a
    using bucket_index [OF assms(2) that] allows_total [OF assms(1), of "tm_texts tm ! i"]
    by (auto simp: try_token_def index_run nth_list_update)
  have g: "\<exists>w. ?g b = Some w" for b using allows_total [OF assms(1), of "[b]"] by auto
  have "\<exists>a. for_each (try_bucket tm m) (by_first tm) (replicate n False) = Some a \<and> length a = length (replicate n False) \<and>
    (\<forall>j<length (replicate n False). a ! j \<longleftrightarrow> replicate n False ! j \<or> (\<exists>b ids. (b, ids) \<in> set (by_first tm) \<and>
        j \<in> set ids \<and> ?g b = Some True \<and> allows (tm_texts tm ! j) m = Some True))"
    unfolding tb by (rule for_each_buckets) (rule f, assumption+, rule g)
  then obtain a where a: "for_each (try_bucket tm m) (by_first tm) (replicate n False) = Some a" "length a = n"
    "\<forall>j<n. a ! j \<longleftrightarrow> (\<exists>b ids. (b, ids) \<in> set (by_first tm) \<and> j \<in> set ids \<and> ?g b = Some True \<and>
        allows (tm_texts tm ! j) m = Some True)"
    by auto
  have "(\<exists>b ids. (b, ids) \<in> set (by_first tm) \<and> j \<in> set ids \<and> ?g b = Some True \<and>
        allows (tm_texts tm ! j) m = Some True) \<longleftrightarrow> may_follow tm m j" for j
  proof
    assume "\<exists>b ids. (b, ids) \<in> set (by_first tm) \<and> j \<in> set ids \<and> ?g b = Some True \<and> allows (tm_texts tm ! j) m = Some True"
    then obtain b ids where j: "(b, ids) \<in> set (by_first tm)" "j \<in> set ids" "allows (tm_texts tm ! j) m = Some True" by blast
    with assms(2) obtain bs where "j < length (tm_texts tm)" "utf8 (tm_texts tm ! j) = b # bs"
      unfolding buckets_ok_def by blast
    with j(3) show "may_follow tm m j" by (auto simp: may_follow_def)
  next
    assume mf: "may_follow tm m j"
    then obtain c t where ct: "tm_texts tm ! j = c # t" by (auto simp: may_follow_def neq_Nil_conv)
    obtain b bs where b: "utf8 (c # t) = b # bs" by (cases "utf8 (c # t)") auto
    with assms(2) mf ct obtain ids where "(b, ids) \<in> set (by_first tm)" "j \<in> set ids"
      unfolding buckets_ok_def may_follow_def by metis
    moreover have "?g b = Some True"
      using first_byte [OF b] allows_first [OF assms(1), of c t] mf ct by (auto simp: may_follow_def)
    ultimately show "\<exists>b ids. (b, ids) \<in> set (by_first tm) \<and> j \<in> set ids \<and> ?g b = Some True \<and> allows (tm_texts tm ! j) m = Some True"
      using mf unfolding may_follow_def by blast
  qed
  with a show ?thesis by auto
qed

lemma closing_exact:
  assumes "machine_ok m" "buckets_ok tm"
  shows "\<exists>a'. mask_closing tm m a = Some a' \<and> length a' = length a \<and>
           (\<forall>i<length a. a' ! i \<longleftrightarrow> a ! i \<or> may_close tm m i)"
proof -
  let ?M = "\<lambda>i. \<exists>m'. push (tm_texts tm ! i) m = Accept m' \<and> viable m' = Some True \<and> (depth m' < depth m \<or> machine_complete m')"
  have mc: "(\<lambda>(_, ids). for_each (try_closing tm m) ids) =
      (\<lambda>(b :: nat, ids) a. do { w \<leftarrow> Some True; if w then for_each (try_closing tm m) ids a else Some a })"
    by (simp add: fun_eq_iff split_beta)
  have f: "\<exists>a'. try_closing tm m i a = Some a' \<and> length a' = length a \<and> (\<forall>j<length a. a' ! j \<longleftrightarrow> a ! j \<or> j = i \<and> ?M i)"
    if "(b, ids) \<in> set (by_first tm)" "i \<in> set ids" for b ids i a
  proof (cases "push (tm_texts tm ! i) m")
    case (Accept m')
    with push_safe [OF assms(1), of "tm_texts tm ! i"] viable_total obtain v where "viable m' = Some v" by fastforce
    with Accept bucket_index [OF assms(2) that] show ?thesis
      by (auto simp: try_closing_def index_run nth_list_update)
  qed (use push_safe [OF assms(1), of "tm_texts tm ! i"] bucket_index [OF assms(2) that] in
        \<open>auto simp: try_closing_def index_run\<close>)
  have "\<exists>a'. mask_closing tm m a = Some a' \<and> length a' = length a \<and>
      (\<forall>j<length a. a' ! j \<longleftrightarrow> a ! j \<or> (\<exists>b ids. (b, ids) \<in> set (by_first tm) \<and> j \<in> set ids \<and> Some True = Some True \<and> ?M j))"
    unfolding mask_closing_def mc by (rule for_each_buckets) (rule f, assumption+, rule exI, rule refl)
  then have "\<exists>a'. mask_closing tm m a = Some a' \<and> length a' = length a \<and>
      (\<forall>j<length a. a' ! j \<longleftrightarrow> a ! j \<or> (\<exists>b ids. (b, ids) \<in> set (by_first tm) \<and> j \<in> set ids \<and> ?M j))"
    by simp
  moreover have "(\<exists>b ids. (b, ids) \<in> set (by_first tm) \<and> j \<in> set ids \<and> ?M j) \<longleftrightarrow> may_close tm m j" for j
  proof -
    have "(\<exists>b ids. (b, ids) \<in> set (by_first tm) \<and> j \<in> set ids) \<longleftrightarrow>
        j < length (tm_texts tm) \<and> (\<exists>b bs. utf8 (tm_texts tm ! j) = b # bs)"
      using assms(2) unfolding buckets_ok_def by blast
    moreover have "(\<exists>b bs. utf8 t = b # bs) \<longleftrightarrow> t \<noteq> []" for t by (cases "utf8 t") auto
    ultimately show ?thesis unfolding may_close_def by blast
  qed
  ultimately show ?thesis by simp
qed

lemma list_ex_nth: "list_ex id a \<longleftrightarrow> (\<exists>i<length a. a ! i)"
  by (auto simp: list_ex_length)

lemma eos_restore:
  "i < length logits \<Longrightarrow>
   fold (\<lambda>(i, v) ls. ls[i := v]) (eos_logits_of eos logits) ls ! i = (if i \<in> set eos then logits ! i else ls ! i)"
  if "length ls = length logits"
  using that
proof (induction eos arbitrary: ls)
  case (Cons e eos)
  then show ?case by (cases "e < length logits") (auto simp: eos_logits_of_def map_filter_simps index_def nth_list_update)
qed (simp add: eos_logits_of_def map_filter_simps)

lemma length_restore:
  "length (fold (\<lambda>(i, v) ls. ls[i := v]) es ls) = length (ls :: f32 list)"
  by (induction es arbitrary: ls) auto

lemma only_eos_nth:
  "length (only_eos eos logits) = length logits"
  "i < length logits \<Longrightarrow> only_eos eos logits ! i = (if i \<in> set eos then logits ! i else NegInf)"
  by (simp_all add: only_eos_def length_restore eos_restore)

lemma keep_allowed_nth:
  assumes "length allowed = length logits"
  shows "length (keep_allowed eos allowed logits) = length logits"
    "i < length logits \<Longrightarrow>
     keep_allowed eos allowed logits ! i = (if allowed ! i \<and> i \<notin> set eos then logits ! i else NegInf)"
proof -
  have "length (fold (\<lambda>i ls. if i < length ls then ls[i := NegInf] else ls) eos ls) = length ls \<and>
      (i < length ls \<longrightarrow>
       fold (\<lambda>i ls. if i < length ls then ls[i := NegInf] else ls) eos ls ! i = (if i \<in> set eos then NegInf else ls ! i))"
    for ls and i
    by (induction eos arbitrary: ls) (auto simp: nth_list_update)
  from this [of "map2 (\<lambda>a l. if a then l else NegInf) allowed logits" i] assms
  show "length (keep_allowed eos allowed logits) = length logits"
    "i < length logits \<Longrightarrow>
     keep_allowed eos allowed logits ! i = (if allowed ! i \<and> i \<notin> set eos then logits ! i else NegInf)"
    by (auto simp: keep_allowed_def)
qed

lemma eos_in_range: "i < length logits \<Longrightarrow> i \<in> fst ` set (eos_logits_of eos logits) \<longleftrightarrow> i \<in> set eos"
  by (induction eos) (auto simp: eos_logits_of_def map_filter_simps index_def split: option.splits)

text \<open>
  The mask in closed form.  The fallback that closes open containers never adds a token: what closes
  something may also follow, and it is only tried when nothing may.
\<close>

definition masked :: "token_masker \<Rightarrow> machine \<Rightarrow> nat list \<Rightarrow> f32 list \<Rightarrow> nat \<Rightarrow> f32" where
  "masked tm m eos logits i =
     (if (if machine_complete m \<or> \<not> (\<exists>j<length logits. may_follow tm m j) then i \<in> set eos
          else may_follow tm m i \<and> i \<notin> set eos)
      then logits ! i else NegInf)"

lemma mask_closed_form:
  assumes "machine_ok m" "buckets_ok tm"
  shows "\<exists>out. mask_logits tm m eos logits = Some out \<and> length out = length logits \<and>
           (\<forall>i<length logits. out ! i = masked tm m eos logits i)"
proof (cases "machine_complete m")
  case True
  then show ?thesis by (simp add: mask_logits_def masked_def only_eos_nth)
next
  case False
  obtain a where a: "for_each (try_bucket tm m) (by_first tm) (replicate (length logits) False) = Some a"
    "length a = length logits" "\<forall>i<length logits. a ! i \<longleftrightarrow> may_follow tm m i"
    using tried_exact [OF assms] by blast
  show ?thesis
  proof (cases "\<exists>j<length logits. may_follow tm m j")
    case True
    with a have "list_ex id a" by (auto simp: list_ex_nth)
    with False True a show ?thesis by (auto simp: mask_logits_def masked_def keep_allowed_nth eos_in_range)
  next
    case none: False
    obtain a' where a': "mask_closing tm m a = Some a'" "length a' = length a"
      "\<forall>i<length a. a' ! i \<longleftrightarrow> a ! i \<or> may_close tm m i" using closing_exact [OF assms, of a] by blast
    with none a may_close_follow have "\<not> list_ex id a" "\<not> list_ex id a'" by (auto simp: list_ex_nth)
    with False none a(1) a'(1) show ?thesis by (auto simp: mask_logits_def masked_def only_eos_nth)
  qed
qed

lemma mask_finishing_closed_form:
  assumes "machine_ok m" "buckets_ok tm"
  shows "\<exists>out. mask_finishing tm m eos logits = Some out \<and> length out = length logits \<and>
           (\<forall>i<length logits. out ! i =
              (if \<not> machine_complete m \<and> (\<exists>j<length logits. may_close tm m j)
               then (if may_close tm m i \<and> i \<notin> set eos then logits ! i else NegInf)
               else masked tm m eos logits i))"
proof -
  obtain a where a: "mask_closing tm m (replicate (length logits) False) = Some a" "length a = length logits"
      "\<forall>i<length logits. a ! i \<longleftrightarrow> may_close tm m i"
    using closing_exact [OF assms, of "replicate (length logits) False"] by auto
  show ?thesis
  proof (cases "\<not> machine_complete m \<and> list_ex id a")
    case True
    with a show ?thesis by (auto simp: mask_finishing_def keep_allowed_nth list_ex_nth)
  next
    case False
    with a have none: "\<not> (\<not> machine_complete m \<and> (\<exists>j<length logits. may_close tm m j))" by (auto simp: list_ex_nth)
    have "mask_finishing tm m eos logits = mask_logits tm m eos logits"
      using False a(1) by (auto simp: mask_finishing_def)
    with mask_closed_form [OF assms, of eos logits] show ?thesis unfolding if_not_P [OF none] by simp
  qed
qed

end
