(* ===== verification/Json_Properties.thy ===== *)
theory Json_Properties
  imports Json_Compile Json_Grammar Token_Masker
begin

text \<open>
  The properties of constrained decoding: what compilation, the machine and the mask guarantee
  together, and the inputs on which they do not do what their comments say.
\<close>

named_theorems machine_run

lemmas [machine_run] =
  lit_def machine_new_def schema_any_def push_char.simps note_ws_def is_json_ws_def in_string_body_def
  push_frame_def start_value_def index_def start_frame_def allowed_start_def is_digit_def settle_word_def
  set_top_def in_array_def free_node_def any_node_def in_number_def finish_value_def machine_complete_def
  in_string_def in_word_def in_object_def in_key_def keys_are_free_def check_key_def key_possible_def
  value_node_for_def close_object_def escape_ok_def escape_next_def unseen_with_prefix_def
  MAX_NUMBER_CHARS_def MAX_STRING_CHARS_def MAX_WS_RUN_def utf8_char_def Let_def

text \<open>A small schema: an object with one required integer property.\<close>

definition demo_schema :: json where
  "demo_schema = JObject
     [(lit ''type'', JString (lit ''object'')),
      (lit ''properties'', JObject [(lit ''a'', JObject [(lit ''type'', JString (lit ''integer''))])]),
      (lit ''required'', JArray [JString (lit ''a'')])]"

definition demo_arena :: schema where
  "demo_arena = [ObjectNode [([97], 1)] [0] False, NumberNode True, AnyNode]"

definition demo_canonical :: "json \<Rightarrow> utext" where
  "demo_canonical j = lit ''null''"

lemma demo_compile: "compile demo_canonical demo_schema = Inr [ObjectNode [([97], 1)] [0] False, NumberNode True]"
  by code_simp

lemma demo_with_any: "with_any_node [ObjectNode [([97], 1)] [0] False, NumberNode True] = demo_arena"
  by (simp add: with_any_node_def demo_arena_def)

lemma demo_hyps:
  "\<forall>j. demo_canonical j \<noteq> []" "keys_distinct demo_schema"
  by (simp_all add: demo_canonical_def demo_schema_def lit_def)

lemma demo_wf: "schema_wf demo_arena" "schema_ascii demo_arena"
  by (simp_all add: schema_wf_def arena_wf_def demo_arena_def free_node_def schema_ascii_def)

text \<open>
  Compiling a schema yields a well-formed arena with its root at index 0: every reference of a
  node is in range, the names of an object are distinct, every required property is declared, a
  choice has an option and no option is empty; with the free-form node added the machine can use it.
\<close>

theorem compile_well_formed:
  assumes "\<forall>j. canonical j \<noteq> []" "keys_distinct s" "compile canonical s = Inr ns" "length ns < free_node"
  shows "arena_wf ns \<and> schema_wf (with_any_node ns)"
  using compile_arena_wf [OF assms(1-3)] with_any_node_wf assms(4) by blast

theorem compile_well_formed_witness: "schema_wf demo_arena"
  using compile_well_formed [OF demo_hyps demo_compile] unfolding demo_with_any by (simp add: free_node_def)

text \<open>
  C12: On a compiled schema the machine never indexes past its arena, whatever text it is fed: pushing
  a text gives a verdict, every machine it accepts keeps the invariant, and the questions whether the
  state is viable and whether a continuation is allowed have answers.
\<close>

theorem machine_never_panics:
  assumes "\<forall>j. canonical j \<noteq> []" "keys_distinct s" "compile canonical s = Inr ns" "length ns < free_node"
  shows "push t (machine_new (with_any_node ns)) \<noteq> Panic \<and>
         (\<forall>m. push t (machine_new (with_any_node ns)) = Accept m \<longrightarrow>
            machine_ok m \<and> viable m \<noteq> None \<and> allows u m \<noteq> None)"
proof -
  have ok: "machine_ok (machine_new (with_any_node ns))"
    by (intro machine_new_ok with_any_node_wf compile_arena_wf [OF assms(1-3)] assms(4))
  from push_safe [OF ok, of t] viable_total allows_total show ?thesis by (fastforce simp: safe_def)
qed

theorem machine_never_panics_witness: "push (lit ''{x'') (machine_new demo_arena) \<noteq> Panic"
  using machine_never_panics [OF demo_hyps demo_compile, of "lit ''{x''"]
  unfolding demo_with_any by (simp add: free_node_def)


definition demo_done :: machine where
  "demo_done = \<lparr>m_schema = demo_arena, stack = [], doc_done = True, doc_started = True, ws_run = 0\<rparr>"



text \<open>
  C11: The mask is exact although it tries only the tokens whose first byte may follow: when the
  document is complete, or nothing in the vocabulary continues it, the end-of-sequence tokens alone
  keep their logits; otherwise exactly the tokens with a text that the machine allows keep theirs.
\<close>

theorem mask_exact:
  assumes "machine_ok m" "length texts < 2 ^ 32"
  shows "\<exists>out. mask_logits (masker_new texts) m eos logits = Some out \<and> length out = length logits \<and>
    (\<forall>i<length logits. out ! i =
       (if (if machine_complete m \<or> \<not> (\<exists>j<length logits. may_follow (masker_new texts) m j) then i \<in> set eos
            else may_follow (masker_new texts) m i \<and> i \<notin> set eos)
        then logits ! i else NegInf))"
  using mask_closed_form [OF assms(1) masker_new_ok [OF assms(2)], of eos logits] by (simp add: masked_def)

theorem mask_exact_witness:
  "\<exists>out. mask_logits (masker_new [lit ''x'', []]) demo_done [1] [Fin 0, Fin 1] = Some out \<and>
         length out = 2 \<and> out ! 0 = NegInf \<and> out ! 1 = Fin 1"
proof -
  have "machine_ok demo_done" using demo_wf by (simp add: machine_ok_def demo_done_def)
  from mask_exact [OF this, of "[lit ''x'', []]" "[1]" "[Fin 0, Fin 1]"] show ?thesis
    by (fastforce simp: demo_done_def machine_complete_def)
qed

text \<open>
  Near the end of the budget only tokens that close a container or complete the document keep
  their logits, when the vocabulary has one; otherwise the finishing mask is the ordinary one.
\<close>

theorem mask_finishing_closes:
  assumes "machine_ok m" "length texts < 2 ^ 32" "\<not> machine_complete m"
    "j < length logits" "may_close (masker_new texts) m j"
  shows "\<exists>out. mask_finishing (masker_new texts) m eos logits = Some out \<and>
    (\<forall>i<length logits. out ! i =
       (if may_close (masker_new texts) m i \<and> i \<notin> set eos then logits ! i else NegInf))"
proof -
  have ex: "\<not> machine_complete m \<and> (\<exists>j<length logits. may_close (masker_new texts) m j)" using assms(3-5) by blast
  from mask_finishing_closed_form [OF assms(1) masker_new_ok [OF assms(2)], of eos logits] show ?thesis
    unfolding if_P [OF ex] by blast
qed

definition demo_open :: machine where
  "demo_open = \<lparr>m_schema = demo_arena, stack = [FObject 0 ONext [0] [97] 0], doc_done = False,
                doc_started = True, ws_run = 0\<rparr>"

theorem mask_finishing_closes_witness:
  "\<exists>out. mask_finishing (masker_new [[125], [44]]) demo_open [] [Fin 0, Fin 1] = Some out \<and> out ! 0 = Fin 0"
proof -
  have ok: "machine_ok demo_open"
    using demo_wf by (auto simp: machine_ok_def demo_open_def is_object_def demo_arena_def)
  have "push [125] demo_open = Accept (demo_open\<lparr>stack := [], doc_done := True\<rparr>)"
    by (simp add: machine_run demo_arena_def demo_open_def)
  then have close: "may_close (masker_new [[125], [44]]) demo_open 0"
    by (simp add: may_close_def masker_new_def viable_def machine_complete_def)
  have "\<not> machine_complete demo_open" by (simp add: demo_open_def machine_complete_def)
  from mask_finishing_closes [OF ok _ this _ close, of "[Fin 0, Fin 1]" "[]"] close show ?thesis by auto
qed

section \<open>Where the machine and its comments disagree\<close>

text \<open>
  The machine accepts numbers that are not JSON: it takes \<open>01\<close> as a complete document under the
  schema that accepts any JSON value, and a JSON number has no superfluous leading zero.
\<close>

theorem leading_zero_accepted:
  "(\<exists>m. push (lit ''01'') (machine_new schema_any) = Accept m \<and> machine_complete m) \<and>
   padded_number False (lit ''01'') \<and> \<not> is_number False (lit ''01'')"
proof -
  have w: "lit ''01'' = [48, 49]" by (simp add: lit_def)
  have "padded_number False [48, 49]"
    unfolding padded_number_def
    by (intro exI [of _ "[]"] exI [of _ "[48, 49]"]) (simp add: fraction_def exponent_def is_digit_def)
  moreover have "\<not> is_number False [48, 49]"
  proof
    assume "is_number False [48, 49]"
    then obtain sg ds fr ex where n: "[48, 49] = sg @ ds @ fr @ ex" "sg \<in> {[], [c_minus]}" "ds \<noteq> []"
      "hd ds = 48 \<longrightarrow> tl ds = []" "fraction fr" "exponent ex" unfolding is_number_def by blast
    then have "sg = []" by (auto simp: Cons_eq_append_conv)
    with n(1,3,4) have "[49] = fr @ ex" by (cases ds) auto
    with n(5,6) show False by (auto simp: fraction_def exponent_def Cons_eq_append_conv)
  qed
  ultimately show ?thesis by (simp add: w) (simp add: machine_run)
qed

text \<open>
  A choice whose one option starts another cannot be written in full: with the options \<open>1\<close> and
  \<open>12\<close> the machine finishes the value at the first complete match and refuses the second character of
  \<open>12\<close>, which is a document of the schema.
\<close>

theorem choice_prefix_unreachable:
  "jdocument [ChoiceNode [lit ''1'', lit ''12''], AnyNode] (lit ''12'') \<and>
   push (lit ''12'') (machine_new [ChoiceNode [lit ''1'', lit ''12''], AnyNode]) = Refuse"
proof
  show "jdocument [ChoiceNode [lit ''1'', lit ''12''], AnyNode] (lit ''12'')"
    unfolding jdocument_def gdocument_def
    by (rule exI [of _ "lit ''12''"], rule exI [of _ "[]"])
       (simp add: val_choice [of _ 0 "[lit ''1'', lit ''12'']"])
  show "push (lit ''12'') (machine_new [ChoiceNode [lit ''1'', lit ''12''], AnyNode]) = Refuse"
    by (simp add: machine_run)
qed

text \<open>
  A state can be viable and stuck: after 31 digits and a decimal point the number is at its cap,
  so no digit may follow, and without one it is not complete, so nothing else may follow either;
  \<open>viable\<close> says that numbers can always be finished.
\<close>

theorem number_cap_stuck:
  "\<exists>m. push (replicate 31 49 @ [c_dot]) (machine_new schema_any) = Accept m \<and> viable m = Some True \<and>
       \<not> machine_complete m \<and> (\<forall>c. push_char c m = Refuse)"
proof -
  define m where "m = \<lparr>m_schema = schema_any, stack = [FNumber False False True False False False 32],
    doc_done = False, doc_started = True, ws_run = 0\<rparr>"
  have "push (replicate 31 49 @ [c_dot]) (machine_new schema_any) = Accept m"
    by (simp add: machine_run m_def numeral_eq_Suc replicate_Suc)
  moreover have "viable m = Some True" by (simp add: m_def viable_def frame_viable_def)
  moreover have "\<not> machine_complete m" by (simp add: m_def machine_complete_def)
  moreover have "push_char c m = Refuse" for c
    by (auto simp: m_def push_char.simps note_ws_def push_frame_def in_number_def MAX_NUMBER_CHARS_def
          in_string_body_def split: option.splits)
  ultimately show ?thesis by blast
qed

end
