(* ===== verification/Stream_Output.thy ===== *)
theory Stream_Output
  imports Core_Types
begin

text \<open>
  Turning sampled tokens into streamed text: the incremental detokenizer of
  \<open>vapi-engine/src/detokenize.rs\<close> and the emission with stop strings of
  \<open>vapi-worker/src/engine.rs\<close>.  A \<open>String\<close> is its UTF-8 bytes.  The tokenizer's \<open>decode\<close> is outside
  these files and is a parameter; an offset that \<open>str::find\<close> returns is a character boundary, as the
  standard library documents.
\<close>

section \<open>The incremental detokenizer\<close>

record detokenizer =
  dt_tokens :: "token list"
  prefix_offset :: nat
  read_offset :: nat
  emitted :: string

definition detok_new :: detokenizer where
  "detok_new = \<lparr>dt_tokens = [], prefix_offset = 0, read_offset = 0, emitted = []\<rparr>"

definition with_prompt :: "token list \<Rightarrow> detokenizer" where
  "with_prompt prompt =
     \<lparr>dt_tokens = prompt, prefix_offset = length prompt, read_offset = length prompt, emitted = []\<rparr>"

definition is_continuation :: "char \<Rightarrow> bool" where
  "is_continuation c = (128 \<le> (of_char c :: nat) \<and> (of_char c :: nat) < 192)"

definition is_char_boundary :: "string \<Rightarrow> nat \<Rightarrow> bool" where
  "is_char_boundary s i = (i = 0 \<or> i = length s \<or> (i < length s \<and> \<not> is_continuation (s ! i)))"

text \<open>The bytes of the replacement character U+FFFD.\<close>

definition replacement :: string where
  "replacement = [CHR 0xEF, CHR 0xBF, CHR 0xBD]"

definition detok_push :: "(token list \<Rightarrow> string) \<Rightarrow> token \<Rightarrow> detokenizer \<Rightarrow> (string \<times> detokenizer) option" where
  "detok_push decode token d =
     (let tokens = dt_tokens d @ [token] in
      do {
        read \<leftarrow> slice tokens (prefix_offset d) (read_offset d);
        rest \<leftarrow> slice tokens (prefix_offset d) (length tokens);
        (let prefix_text = decode read; new_text = decode rest in
         if length new_text \<le> length prefix_text \<or> suffix replacement new_text
         then Some ([], d\<lparr>dt_tokens := tokens\<rparr>)
         else if is_char_boundary new_text (length prefix_text) then
           (let delta = drop (length prefix_text) new_text in
            Some (delta, d\<lparr>dt_tokens := tokens, prefix_offset := read_offset d,
                           read_offset := length tokens, emitted := emitted d @ delta\<rparr>))
         else None)
      })"

fun detok_all :: "(token list \<Rightarrow> string) \<Rightarrow> token list \<Rightarrow> detokenizer \<Rightarrow> (string \<times> detokenizer) option" where
  "detok_all decode [] d = Some ([], d)"
| "detok_all decode (t # ts) d =
     do { (a, d') \<leftarrow> detok_push decode t d; (b, d'') \<leftarrow> detok_all decode ts d'; Some (a @ b, d'') }"

section \<open>Emission with stop strings\<close>

record stream_state =
  held :: string
  stopped :: bool

function back_to_boundary :: "string \<Rightarrow> nat \<Rightarrow> nat" where
  "back_to_boundary s pos = (if is_char_boundary s pos then pos else back_to_boundary s (pos - 1))"
  by auto
termination
  by (relation "measure snd") (auto simp: is_char_boundary_def)

declare back_to_boundary.simps [simp del]

definition nonempty :: "string \<Rightarrow> string option" where
  "nonempty s = (if s = [] then None else Some s)"

definition emit_with_stop_strings ::
  "stop_condition \<Rightarrow> string \<Rightarrow> stream_state \<Rightarrow> string option \<times> stream_state" where
  "emit_with_stop_strings sc body st =
     (if stop_strings sc = [] then (nonempty body, st)
      else
        let h = held st @ body in
        case find_stop_string sc h of
          Some pos \<Rightarrow> (nonempty (take pos h), st\<lparr>held := [], stopped := True\<rparr>)
        | None \<Rightarrow>
            let keep = max_stop_len sc - 1 in
            if length h \<le> keep then (None, st\<lparr>held := h\<rparr>)
            else let pos = back_to_boundary h (length h - keep) in
                 if pos = 0 then (None, st\<lparr>held := h\<rparr>)
                 else (Some (take pos h), st\<lparr>held := drop pos h\<rparr>))"

text \<open>The texts of a sequence go through it one by one until a stop string ends the sequence.\<close>

fun emit_all :: "stop_condition \<Rightarrow> string list \<Rightarrow> stream_state \<Rightarrow> string \<times> stream_state" where
  "emit_all sc [] st = ([], st)"
| "emit_all sc (t # ts) st =
     (if stopped st then ([], st)
      else let (a, st') = emit_with_stop_strings sc t st; (b, st'') = emit_all sc ts st'
           in (case a of None \<Rightarrow> b | Some s \<Rightarrow> s @ b, st''))"

section \<open>Where stop strings occur\<close>

definition hit_at :: "stop_condition \<Rightarrow> string \<Rightarrow> nat \<Rightarrow> bool" where
  "hit_at sc body i = (\<exists>s\<in>set (stop_strings sc). s \<noteq> [] \<and> i \<le> length body \<and> prefix s (drop i body))"

lemma map_filter_eq_Nil: "List.map_filter f xs = [] \<longleftrightarrow> (\<forall>x\<in>set xs. f x = None)"
  by (induction xs) (auto simp: map_filter_simps split: option.splits)

lemma map_filter_cong: "(\<And>x. x \<in> set xs \<Longrightarrow> f x = g x) \<Longrightarrow> List.map_filter f xs = List.map_filter g xs"
  by (induction xs) (auto simp: map_filter_simps split: option.splits)

lemma map_filter_map: "List.map_filter (\<lambda>x. map_option g (f x)) xs = map g (List.map_filter f xs)"
  by (induction xs) (auto simp: map_filter_simps split: option.splits)

lemma min_list_option_add: "min_list_option (map ((+) n) xs) = map_option ((+) n) (min_list_option xs)"
  by (induction xs) (auto split: option.splits)

lemma find_stop_None: "find_stop_string sc body = None \<longleftrightarrow> (\<forall>i. \<not> hit_at sc body i)"
  by (auto simp: find_stop_string_def min_list_option_None map_filter_eq_Nil str_find_None hit_at_def)

lemma str_find_shift:
  assumes "\<forall>i<length a. \<not> prefix s (drop i (a @ h))"
  shows "str_find s (a @ h) = map_option ((+) (length a)) (str_find s h)"
  using assms
proof (induction a)
  case Nil
  then show ?case by (cases "str_find s h") auto
next
  case (Cons c a)
  from Cons.prems have "\<not> prefix s (c # a @ h)" "\<forall>i<length a. \<not> prefix s (drop i (a @ h))" by force+
  with Cons.IH show ?case by (cases "str_find s h") auto
qed

lemma find_stop_shift:
  assumes "\<forall>i<length a. \<not> hit_at sc (a @ h) i"
  shows "find_stop_string sc (a @ h) = map_option ((+) (length a)) (find_stop_string sc h)"
proof -
  let ?c = "\<lambda>s i. if include_stop_str sc then i + length s else i"
  have "map_option (?c s) (str_find s (a @ h)) = map_option ((+) (length a)) (map_option (?c s) (str_find s h))"
    if "s \<in> set (filter (\<lambda>s. s \<noteq> []) (stop_strings sc))" for s
  proof -
    have "\<forall>i<length a. \<not> prefix s (drop i (a @ h))" using assms that by (auto simp: hit_at_def)
    from str_find_shift [OF this] show ?thesis by (cases "str_find s h") auto
  qed
  then show ?thesis
    unfolding find_stop_string_def
    by (subst map_filter_cong [where g = "\<lambda>s. map_option ((+) (length a)) (map_option (?c s) (str_find s h))"])
       (simp_all only: map_filter_map min_list_option_add)
qed

lemma find_stop_le: "find_stop_string sc body = Some pos \<Longrightarrow> pos \<le> length body"
proof -
  assume "find_stop_string sc body = Some pos"
  then have "pos \<in> set (List.map_filter
      (\<lambda>s. map_option (\<lambda>i. if include_stop_str sc then i + length s else i) (str_find s body))
      (filter (\<lambda>s. s \<noteq> []) (stop_strings sc)))"
    by (simp add: find_stop_string_def min_list_option_Some)
  then obtain s i where "str_find s body = Some i" "pos = (if include_stop_str sc then i + length s else i)"
    by (auto simp: List.map_filter_def)
  then show ?thesis by (auto simp: str_find_Some prefix_def) (metis add_le_cancel_left le_add1 le_add_diff_inverse length_append length_drop)
qed

text \<open>A stop string that starts before the held text would already have been seen.\<close>

lemma hit_needs_room:
  assumes "hit_at sc (w @ y) i" "\<forall>j. \<not> hit_at sc w j" "i + max_stop_len sc \<le> length w"
  shows False
proof -
  from assms(1) obtain s where s: "s \<in> set (stop_strings sc)" "s \<noteq> []" "prefix s (drop i (w @ y))"
    by (auto simp: hit_at_def)
  have room: "i + length s \<le> length w" using max_stop_len_ge [OF s(1)] assms(3) by simp
  have "s = take (length s) (drop i (w @ y))" using s(3) by (metis append_eq_conv_conj prefixE)
  also have "\<dots> = take (length s) (drop i w)" using room by simp
  finally have "prefix s (drop i w)" by (metis take_is_prefix)
  moreover have "i \<le> length w" using room by simp
  ultimately have "hit_at sc w i" using s(1,2) by (auto simp: hit_at_def)
  with assms(2) show False by simp
qed

text \<open>What the stream guarantees after every text: see \<open>emit_all_inv\<close>.\<close>

definition stream_inv :: "stop_condition \<Rightarrow> string \<Rightarrow> string \<Rightarrow> stream_state \<Rightarrow> bool" where
  "stream_inv sc w out st =
     (out @ held st = w \<and> (\<forall>i. \<not> hit_at sc w i) \<and> (out = [] \<or> max_stop_len sc - 1 \<le> length (held st)))"

lemma back_to_boundary_le: "back_to_boundary s k \<le> k"
proof (induction s k rule: back_to_boundary.induct)
  case (1 s k)
  then show ?case by (subst back_to_boundary.simps) (auto intro: le_trans)
qed

lemma no_early_hit:
  assumes "stream_inv sc w out st" "i < length out" "stop_strings sc \<noteq> []"
  shows "\<not> hit_at sc (w @ y) i"
proof
  assume hit: "hit_at sc (w @ y) i"
  then obtain s where "s \<in> set (stop_strings sc)" "s \<noteq> []" by (auto simp: hit_at_def)
  then have "0 < max_stop_len sc" using max_stop_len_ge [of s sc] by (metis length_greater_0_conv less_le_trans)
  moreover have "length w = length out + length (held st)" using assms(1) by (auto simp: stream_inv_def)
  moreover have "max_stop_len sc - 1 \<le> length (held st)" using assms(1,2) by (auto simp: stream_inv_def)
  ultimately have "i + max_stop_len sc \<le> length w" using assms(2) by linarith
  with hit hit_needs_room assms(1) show False by (auto simp: stream_inv_def)
qed

lemma emit_step:
  assumes inv: "stream_inv sc w out st" and ne: "stop_strings sc \<noteq> []"
    and run: "emit_with_stop_strings sc t st = (a, st')" and ns: "\<not> stopped st"
  defines "d \<equiv> (case a of None \<Rightarrow> [] | Some s \<Rightarrow> s)"
  shows "(\<not> stopped st' \<and> stream_inv sc (w @ t) (out @ d) st') \<or>
         (stopped st' \<and> (\<exists>pos. find_stop_string sc (w @ t) = Some pos \<and> out @ d = take pos (w @ t)))"
proof -
  have w: "w @ t = out @ held st @ t" using inv by (auto simp: stream_inv_def)
  have shift: "find_stop_string sc (w @ t) = map_option ((+) (length out)) (find_stop_string sc (held st @ t))"
    unfolding w by (rule find_stop_shift) (use no_early_hit [OF inv _ ne, of _ t] w in auto)
  show ?thesis
  proof (cases "find_stop_string sc (held st @ t)")
    case (Some pos)
    with run ne have a: "d = take pos (held st @ t)" "stopped st'"
      by (auto simp: emit_with_stop_strings_def nonempty_def d_def split: if_splits)
    from Some shift have "find_stop_string sc (w @ t) = Some (length out + pos)" by simp
    moreover have "out @ d = take (length out + pos) (w @ t)" by (simp add: w a(1))
    ultimately show ?thesis using a(2) by blast
  next
    case None
    with shift have nohit: "\<forall>i. \<not> hit_at sc (w @ t) i" by (simp add: find_stop_None [symmetric])
    let ?h = "held st @ t" and ?keep = "max_stop_len sc - 1"
    let ?k = "back_to_boundary ?h (length ?h - ?keep)"
    have k: "?k \<le> length ?h - ?keep" by (rule back_to_boundary_le)
    from run ne None ns consider
        "d = []" "st' = st\<lparr>held := ?h\<rparr>"
      | "length ?h > ?keep" "d = take ?k ?h" "st' = st\<lparr>held := drop ?k ?h\<rparr>"
      by (auto simp: emit_with_stop_strings_def d_def Let_def split: if_splits)
    then show ?thesis
    proof cases
      case 1
      with nohit inv w ns show ?thesis by (auto simp: stream_inv_def)
    next
      case 2
      have "?keep \<le> length (drop ?k ?h)" unfolding length_drop using k 2(1) by linarith
      moreover have "(out @ d) @ drop ?k ?h = w @ t" unfolding 2(2) w by (simp only: append_assoc append_take_drop_id)
      ultimately show ?thesis using 2(3) nohit ns unfolding stream_inv_def by simp
    qed
  qed
qed

text \<open>The stream as a whole.\<close>

lemma emit_all_inv:
  assumes "stream_inv sc w out st" "stop_strings sc \<noteq> []" "\<not> stopped st" "emit_all sc ts st = (b, st')"
  shows "(\<not> stopped st' \<and> stream_inv sc (w @ concat ts) (out @ b) st') \<or>
         (stopped st' \<and> (\<exists>k<length ts. \<exists>pos.
            find_stop_string sc (w @ concat (take k ts)) = None \<and>
            find_stop_string sc (w @ concat (take (Suc k) ts)) = Some pos \<and>
            out @ b = take pos (w @ concat (take (Suc k) ts))))"
  using assms
proof (induction ts arbitrary: w out st b)
  case Nil
  then show ?case by simp
next
  case (Cons t ts)
  obtain a st1 where a: "emit_with_stop_strings sc t st = (a, st1)" by fastforce
  obtain b1 where b1: "emit_all sc ts st1 = (b1, st')" and b: "b = (case a of None \<Rightarrow> [] | Some s \<Rightarrow> s) @ b1"
    using Cons.prems(3,4) a by (auto split: prod.splits option.splits)
  let ?d = "case a of None \<Rightarrow> [] | Some s \<Rightarrow> s"
  from emit_step [OF Cons.prems(1,2) a Cons.prems(3)]
  show ?case
  proof
    assume go: "\<not> stopped st1 \<and> stream_inv sc (w @ t) (out @ ?d) st1"
    then have "stream_inv sc (w @ t) (out @ ?d) st1" "\<not> stopped st1" by auto
    from Cons.IH [OF this(1) Cons.prems(2) this(2) b1] show ?thesis
    proof (elim disjE conjE exE)
      fix k pos
      assume k: "stopped st'" "k < length ts" "find_stop_string sc ((w @ t) @ concat (take k ts)) = None"
        "find_stop_string sc ((w @ t) @ concat (take (Suc k) ts)) = Some pos"
        "(out @ ?d) @ b1 = take pos ((w @ t) @ concat (take (Suc k) ts))"
      then show ?thesis unfolding b by (intro disjI2 conjI exI [of _ "Suc k"] exI [of _ pos]) simp_all
    qed (simp_all add: b)
  next
    assume halt: "stopped st1 \<and> (\<exists>pos. find_stop_string sc (w @ t) = Some pos \<and> out @ ?d = take pos (w @ t))"
    then have "b1 = []" "st' = st1" using b1 by (cases ts; simp)+
    moreover have "find_stop_string sc w = None" using Cons.prems(1) by (simp add: find_stop_None stream_inv_def)
    moreover obtain pos where "find_stop_string sc (w @ t) = Some pos" "out @ ?d = take pos (w @ t)" using halt by blast
    ultimately show ?thesis using halt b by (intro disjI2 conjI exI [of _ 0] exI [of _ pos]) simp_all
  qed
qed

section \<open>What the detokenizer emits\<close>

text \<open>
  The tokenizer's \<open>decode\<close> yields a Rust \<open>String\<close>, which never starts inside a character, and the
  text of a token sequence that does not break off inside a character does not depend on what
  follows it.
\<close>

definition decode_ok :: "(token list \<Rightarrow> string) \<Rightarrow> bool" where
  "decode_ok decode =
     (decode [] = [] \<and>
      (\<forall>xs. decode xs \<noteq> [] \<longrightarrow> \<not> is_continuation (hd (decode xs))) \<and>
      (\<forall>xs ys. \<not> suffix replacement (decode xs) \<longrightarrow> decode (xs @ ys) = decode xs @ decode ys))"

lemma replacement_suffix:
  assumes "suffix replacement (a @ r)" "r \<noteq> []" "\<not> is_continuation (hd r)"
  shows "suffix replacement r"
proof (rule ccontr)
  assume "\<not> suffix replacement r"
  with assms(1) obtain us where us: "replacement = us @ r" "us \<noteq> []"
    by (auto simp: suffix_def append_eq_append_conv2) (metis append_Nil)
  then have "r = [CHR 0xBF, CHR 0xBD] \<or> r = [CHR 0xBD]" using assms(2)
    by (auto simp: replacement_def Cons_eq_append_conv)
  with assms(3) show False by (auto simp: is_continuation_def)
qed

definition detok_inv :: "(token list \<Rightarrow> string) \<Rightarrow> token list \<Rightarrow> token list \<Rightarrow> detokenizer \<Rightarrow> bool" where
  "detok_inv decode prompt ts d =
     (\<exists>a chunk rest. ts = a @ chunk @ rest \<and> dt_tokens d = prompt @ ts \<and>
        prefix_offset d = length prompt + length a \<and> read_offset d = length prompt + length a + length chunk \<and>
        emitted d = decode (a @ chunk) \<and> \<not> suffix replacement (decode (a @ chunk)) \<and>
        \<not> suffix replacement (decode chunk) \<and> (decode rest = [] \<or> suffix replacement (decode rest)))"

lemma detok_push_inv:
  assumes ok: "decode_ok decode" and inv: "detok_inv decode prompt ts d"
  shows "\<exists>delta d'. detok_push decode t d = Some (delta, d') \<and> emitted d' = emitted d @ delta \<and>
           detok_inv decode prompt (ts @ [t]) d'"
proof -
  from inv obtain a chunk rest where ts: "ts = a @ chunk @ rest" and d: "dt_tokens d = prompt @ ts"
    "prefix_offset d = length prompt + length a" "read_offset d = length prompt + length a + length chunk"
    "emitted d = decode (a @ chunk)" and c: "\<not> suffix replacement (decode (a @ chunk))" "\<not> suffix replacement (decode chunk)"
    unfolding detok_inv_def by blast
  let ?R = "decode (rest @ [t])"
  have new: "decode (chunk @ rest @ [t]) = decode chunk @ ?R" "decode (a @ chunk @ rest @ [t]) = decode (a @ chunk) @ ?R"
    using ok c unfolding decode_ok_def by (blast, metis append_assoc)
  have sl: "slice (dt_tokens d @ [t]) (prefix_offset d) (read_offset d) = Some chunk"
    "slice (dt_tokens d @ [t]) (prefix_offset d) (length (dt_tokens d @ [t])) = Some (chunk @ rest @ [t])"
    by (simp_all add: slice_def d ts)
  show ?thesis
  proof (cases "?R = [] \<or> suffix replacement ?R")
    case True
    then have "length (decode (chunk @ rest @ [t])) \<le> length (decode chunk) \<or> suffix replacement (decode (chunk @ rest @ [t]))"
      using new(1) by (auto intro: suffix_appendI)
    then have "detok_push decode t d = Some ([], d\<lparr>dt_tokens := dt_tokens d @ [t]\<rparr>)"
      unfolding detok_push_def Let_def sl by simp
    moreover have "detok_inv decode prompt (ts @ [t]) (d\<lparr>dt_tokens := dt_tokens d @ [t]\<rparr>)"
      unfolding detok_inv_def
      by (rule exI [of _ a], rule exI [of _ chunk], rule exI [of _ "rest @ [t]"]) (use d ts c True in simp)
    ultimately show ?thesis by simp
  next
    case False
    have hd: "\<not> is_continuation (hd ?R)" using ok False by (auto simp: decode_ok_def)
    have nr: "\<not> suffix replacement (decode chunk @ ?R)" "\<not> suffix replacement (decode (a @ chunk) @ ?R)"
      using replacement_suffix hd False by blast+
    have bd: "is_char_boundary (decode chunk @ ?R) (length (decode chunk))"
      using False hd by (cases ?R) (auto simp: is_char_boundary_def)
    let ?d = "d\<lparr>dt_tokens := dt_tokens d @ [t], prefix_offset := read_offset d,
      read_offset := length (dt_tokens d @ [t]), emitted := emitted d @ ?R\<rparr>"
    have "detok_push decode t d = Some (?R, ?d)"
      unfolding detok_push_def Let_def sl using False nr(1) bd new(1) by simp
    moreover have "detok_inv decode prompt (ts @ [t]) ?d"
      unfolding detok_inv_def
      by (rule exI [of _ "a @ chunk"], rule exI [of _ "rest @ [t]"], rule exI [of _ "[]"])
         (use d ts new nr False ok in \<open>simp add: decode_ok_def\<close>)
    ultimately show ?thesis by simp
  qed
qed

lemma detok_all_inv:
  assumes "decode_ok decode"
  shows "detok_inv decode prompt ts d \<Longrightarrow>
    \<exists>out d'. detok_all decode us d = Some (out, d') \<and> emitted d' = emitted d @ out \<and> detok_inv decode prompt (ts @ us) d'"
proof (induction us arbitrary: ts d)
  case (Cons u us)
  from detok_push_inv [OF assms Cons.prems, of u] obtain delta d1 where
    1: "detok_push decode u d = Some (delta, d1)" "emitted d1 = emitted d @ delta" "detok_inv decode prompt (ts @ [u]) d1"
    by blast
  from Cons.IH [OF 1(3)] 1(1,2) show ?case by fastforce
qed simp

lemma detok_inv_text:
  assumes "decode_ok decode" "detok_inv decode prompt ts d"
  shows "\<exists>k\<le>length ts. emitted d = decode (take k ts)" "\<not> suffix replacement (decode ts) \<Longrightarrow> emitted d = decode ts"
proof -
  from assms(2) obtain a chunk rest where i: "ts = (a @ chunk) @ rest" "emitted d = decode (a @ chunk)"
    "\<not> suffix replacement (decode (a @ chunk))" "decode rest = [] \<or> suffix replacement (decode rest)"
    unfolding detok_inv_def by force
  then show "\<exists>k\<le>length ts. emitted d = decode (take k ts)" by (intro exI [of _ "length (a @ chunk)"]) simp
  have "decode ts = decode (a @ chunk) @ decode rest" using assms(1) i(1,3) unfolding decode_ok_def by blast
  then show "\<not> suffix replacement (decode ts) \<Longrightarrow> emitted d = decode ts"
    using i(2,4) by (auto simp: suffix_appendI)
qed

lemma with_prompt_inv: "decode_ok decode \<Longrightarrow> detok_inv decode prompt [] (with_prompt prompt)"
  by (auto simp: detok_inv_def with_prompt_def decode_ok_def replacement_def)

end
