(* ===== verification/Worker_Properties.thy ===== *)
theory Worker_Properties
  imports Spill_Tier Stream_Output
begin

text \<open>
  The properties of the worker's streaming output, of the spill tier and of the mock backend.
\<close>

section \<open>Streaming\<close>

text \<open>
  C13: The stream of a sequence with stop strings is exact.  While none has occurred in the generated
  text, what was sent followed by what is held back is that text; with the first text that makes one
  occur the sequence stops, and what was sent is the text up to the cut that
  \<open>find_stop_string\<close> makes in the whole text, however the stop string was split over tokens.
\<close>

theorem stream_stops_exactly:
  assumes "stop_strings sc \<noteq> []" "emit_all sc ts \<lparr>held = [], stopped = False\<rparr> = (out, st)"
  shows "if stopped st then
           \<exists>k pos. k < length ts \<and> find_stop_string sc (concat (take k ts)) = None \<and>
             find_stop_string sc (concat (take (Suc k) ts)) = Some pos \<and> out = take pos (concat (take (Suc k) ts))
         else find_stop_string sc (concat ts) = None \<and> out @ held st = concat ts"
proof -
  have "stream_inv sc [] [] \<lparr>held = [], stopped = False\<rparr>" by (auto simp: stream_inv_def hit_at_def)
  from emit_all_inv [OF this assms(1) _ assms(2)] show ?thesis
    by (auto simp: stream_inv_def find_stop_None)
qed

definition demo_stop :: stop_condition where
  "demo_stop = \<lparr>stop_token_ids = [], stop_strings = [''ab''], include_stop_str = False\<rparr>"

lemma demo_emit: "emit_all demo_stop [''xa'', ''b''] \<lparr>held = [], stopped = False\<rparr> = (''x'', \<lparr>held = [], stopped = True\<rparr>)"
  by code_simp

theorem stream_stops_exactly_witness:
  "\<exists>k pos. k < length [''xa'', ''b''] \<and> find_stop_string demo_stop (concat (take (Suc k) [''xa'', ''b''])) = Some pos \<and>
           ''x'' = take pos (concat (take (Suc k) [''xa'', ''b'']))"
proof -
  have "stop_strings demo_stop \<noteq> []" by (simp add: demo_stop_def)
  from stream_stops_exactly [OF this demo_emit, unfolded stream_state.select_convs if_True] show ?thesis by blast
qed

text \<open>
  The incremental detokenizer never panics and streams the text of the generated tokens: what it
  has emitted is always the text of a prefix of them, and all of it whenever the text does not end
  inside a character.  The prompt before them does not show.
\<close>

theorem detokenizer_streams_text:
  assumes "decode_ok decode"
  shows "\<exists>out d. detok_all decode ts (with_prompt prompt) = Some (out, d) \<and> emitted d = out \<and>
    (\<exists>k\<le>length ts. out = decode (take k ts)) \<and> (\<not> suffix replacement (decode ts) \<longrightarrow> out = decode ts)"
proof -
  from detok_all_inv [OF assms with_prompt_inv [OF assms], of ts prompt] obtain out d where
    d: "detok_all decode ts (with_prompt prompt) = Some (out, d)" "emitted d = out" "detok_inv decode prompt ts d"
    by (auto simp: with_prompt_def)
  from detok_inv_text [OF assms d(3)] d(1,2) show ?thesis by blast
qed

text \<open>A tokenizer whose tokens are ASCII characters.\<close>

definition ascii_decode :: "token list \<Rightarrow> string" where
  "ascii_decode ts = map char_of (filter (\<lambda>t. t < 128) ts)"

lemma ascii_decode_ok: "decode_ok ascii_decode"
proof -
  have "\<not> is_continuation (hd (ascii_decode xs))" if "ascii_decode xs \<noteq> []" for xs
  proof -
    have "hd (filter (\<lambda>t. t < 128) xs) < 128" using that hd_in_set [of "filter (\<lambda>t. t < 128) xs"]
      by (auto simp: ascii_decode_def)
    with that show ?thesis by (auto simp: ascii_decode_def hd_map is_continuation_def)
  qed
  then show ?thesis by (simp add: decode_ok_def) (simp add: ascii_decode_def)
qed

theorem detokenizer_streams_text_witness:
  "\<exists>d. detok_all ascii_decode [104, 105] (with_prompt [7]) = Some (''hi'', d)"
proof -
  have "ascii_decode [104, 105] = ''hi''" "\<not> suffix replacement ''hi''" by code_simp+
  with detokenizer_streams_text [OF ascii_decode_ok, of "[104, 105]" "[7]"] show ?thesis by fastforce
qed

section \<open>The spill tier\<close>


text \<open>
  The instance: a directory with a file for one block, a memory cap of two bytes and a disk cap of four,
  and two blocks put.  The second sends the first to disk, whose write fails half way there.
\<close>

definition demo_hash :: "nat \<Rightarrow> block_hash" where
  "demo_hash n = BlockHash (replicate 32 (of_nat n))"

definition demo_io :: disk_io where
  "demo_io = \<lparr>on_write = (\<lambda>_. Partial [9]), removes = (\<lambda>_. False)\<rparr>"



lemma demo_hash_simps [simp]: "demo_hash 0 \<noteq> demo_hash (Suc 0)" "demo_hash 0 \<noteq> demo_hash 2" "demo_hash (Suc 0) \<noteq> demo_hash 2"
  "demo_hash 2 \<noteq> demo_hash (Suc 0)" "demo_hash (Suc 0) \<noteq> demo_hash 0" "demo_hash 2 \<noteq> demo_hash 0"
  by (simp_all add: demo_hash_def replicate_eq_replicate)



text \<open>
  A block that fits in host memory comes back: \<open>get\<close> after \<open>put\<close> returns the bytes that were put.
\<close>

theorem spill_put_get:
  assumes "spill_ok s" "files_ok s fs" "\<not> spill_contains s h" "length b \<le> ram_max s"
  shows "\<exists>s' fs' s''. put io h b s fs = Some (s', fs') \<and> get h s' fs' = Some (Some b, s'')"
proof -
  from put_ok [OF assms(1,2), of io h b] assms(3,4) obtain s' fs' where
    "put io h b s fs = Some (s', fs')" "ram s' h = Some b" by blast
  then show ?thesis by (simp add: get_def)
qed

theorem spill_put_get_witness:
  "\<exists>s' fs' s''. put demo_io (BlockHash []) [1, 2] (empty_store 64 0) Map.empty = Some (s', fs') \<and>
     get (BlockHash []) s' fs' = Some (Some [1, 2], s'')"
  by (rule spill_put_get [OF empty_store_ok]) (simp_all add: spill_contains_def empty_store_def)

text \<open>
  C14: Promotion from the spill tier never serves wrong content.  On a device that gives back what was
  imported, if every cached block, every eviction that is not saved yet and every spilled block holds
  the bytes that belong to its hash, then the same is true after \<open>promote_from_spill\<close>, which does not
  panic and leaves every reference count as it was, whichever exports, imports and writes fail.
\<close>

theorem promotion_coherent:
  assumes "kv_device ex im" "coherent ex K t"
  shows "\<exists>t'. promote_from_spill blake3 ex im io ns toks t = Some t' \<and> coherent ex K t' \<and>
    rc (t_pool t') = rc (t_pool t)"
  using kv_device.promote_from_spill_ok [OF assms] unfolding same_use_def by blast

text \<open>A tier with an empty pool of four blocks over the mock device.\<close>

definition demo_tier :: "block_pool \<Rightarrow> mock_backend tier" where
  "demo_tier p = \<lparr>t_pool = p, t_spill = Some (empty_store 64 0), t_files = Map.empty,
                  t_dev = with_movable_blocks 2 (mock_new 4 16)\<rparr>"

lemma demo_tier_coherent: "\<exists>p. pool_new 4 16 0 = Some p \<and> coherent mock_export K (demo_tier p)"
proof -
  from pool_new_ok [of 16 4 0] obtain p where
    "pool_new 4 16 0 = Some p" "pool_ok p [0..<4]" "content p = (\<lambda>_. None)" "evicted_content p = []"
    by (auto simp: NONE_def)
  then show ?thesis
    using empty_store_ok by (auto simp: coherent_def demo_tier_def pool_inv_def store_coherent_def held_bytes_def empty_store_def)
qed

theorem promotion_coherent_witness:
  "\<forall>ns. \<exists>p t'. pool_new 4 16 0 = Some p \<and>
     promote_from_spill (\<lambda>b. b) mock_export mock_import reliable_disk ns
       (replicate 40 7) (demo_tier p) = Some t' \<and> coherent mock_export (\<lambda>_ b. b = [1, 2]) t'"
proof -
  from demo_tier_coherent obtain p where p: "pool_new 4 16 0 = Some p" "coherent mock_export (\<lambda>_ b. b = [1, 2]) (demo_tier p)"
    by blast
  from promotion_coherent [OF mock.kv_device_axioms p(2)] p(1) show ?thesis by blast
qed

text \<open>
  Opening a directory in which two files have one stem counts the block twice: the store holds one
  block of five bytes, accounts ten and keeps its hash twice in the order of use.
\<close>

theorem open_counts_twice:
  "\<exists>s h. open_store io (Some (Some [(Some (replicate 64 CHR ''0''), Some 5), (Some (replicate 64 CHR ''0''), Some 5)]))
        0 100 fs = Some (Inr (s, fs)) \<and>
      disk s = [h \<mapsto> 5] \<and> disk_bytes s = 10 \<and> disk_lru s = [h, h] \<and> \<not> spill_ok s"
proof -
  have h: "from_hex (replicate 64 CHR ''0'') = Some (BlockHash (replicate 32 0))" by code_simp
  show ?thesis
    by (simp add: open_store_def index_entry_def h empty_store_def evict_disk_def spill_ok_def disk_ok_def)
qed

section \<open>The mock backend\<close>

text \<open>
  The mock backend refuses an invalid batch and keeps its state; on a valid one it returns one row
  per requested logit, each with the scripted token of the step on top and zero elsewhere, and moves to
  the next step.
\<close>

theorem mock_forward_scripted:
  assumes "0 < mb_block_size b" "mb_block_size b < 2 ^ 32" "0 < vocab_size (mb_spec b)" "script b \<noteq> []"
    "fail_on_step b \<noteq> Some (mb_step b)"
  shows "case validate batch (mb_num_blocks b) (mb_block_size b) of
      Inl e \<Rightarrow> mock_forward batch b = Some (Inl (BadBatch e), b)
    | Inr _ \<Rightarrow> \<exists>l b'. mock_forward batch b = Some (Inr l, b') \<and> mb_step b' = Suc (mb_step b) \<and>
        logits_rows l = length (logits_indices batch) \<and>
        (\<forall>i<length (logits_indices batch). logits_row i l =
           Some (one_hot (vocab_size (mb_spec b)) (script b ! (mb_step b mod length (script b)) mod vocab_size (mb_spec b))))"
  by (rule mock_forward_ok [OF assms])

definition demo_mock :: mock_backend where
  "demo_mock = with_script [3] (mock_new 4 16)"

definition demo_batch :: forward_batch where
  "demo_batch = \<lparr>fb_tokens = [5], positions = [0], cu_seqlens_q = [0, 1], cu_seqlens_k = [0, 1], slot_mapping = [0],
     block_tables = [[0]], logits_indices = [0], max_seqlen_q = 1, max_seqlen_k = 1\<rparr>"

theorem mock_forward_scripted_witness:
  "\<exists>l b'. mock_forward demo_batch demo_mock = Some (Inr l, b') \<and> logits_rows l = 1"
proof -
  have "validate demo_batch (mb_num_blocks demo_mock) (mb_block_size demo_mock) = Inr ()" by code_simp
  moreover have "length (logits_indices demo_batch) = 1" by (simp add: demo_batch_def)
  moreover have "0 < mb_block_size demo_mock" "mb_block_size demo_mock < 2 ^ 32" "0 < vocab_size (mb_spec demo_mock)"
    "script demo_mock \<noteq> []" "fail_on_step demo_mock \<noteq> Some (mb_step demo_mock)"
    by (simp_all add: demo_mock_def mock_new_def with_script_def tiny_spec_def)
  ultimately show ?thesis using mock_forward_scripted [of demo_mock demo_batch] by auto
qed

end
