(* ===== verification/Worker_Constraint.thy ===== *)
theory Worker_Constraint
  imports Token_Masker Stream_Output
begin

text \<open>
  The response-format constraint of one sequence (\<open>Constraint\<close> and \<open>RowConstraint\<close> of
  \<open>vapi-worker/src/engine.rs\<close>) and what it does to the logits of a step.  A constraint may wait for a
  marker in the output, the end of a reasoning block, before it takes effect.  Text is a list of
  characters here; the byte lengths that the source compares are those of \<open>utf8\<close>.
\<close>

section \<open>Text\<close>

text \<open>The characters with the Unicode property \<open>White_Space\<close>, which \<open>str::trim_start\<close> removes.\<close>

definition is_whitespace :: "uchar \<Rightarrow> bool" where
  "is_whitespace c =
     ((9 \<le> c \<and> c \<le> 13) \<or> c \<in> {32, 133, 160, 5760, 8232, 8233, 8239, 8287, 12288} \<or> (8192 \<le> c \<and> c \<le> 8202))"

definition trim_start :: "utext \<Rightarrow> utext" where
  "trim_start t = dropWhile is_whitespace t"

definition byte_len :: "utext \<Rightarrow> nat" where
  "byte_len t = length (utf8 t)"

text \<open>A text as the bytes of a \<open>String\<close>, and back.\<close>

definition utf8_string :: "utext \<Rightarrow> string" where
  "utf8_string t = map char_of (utf8 t)"

fun utf8_decode :: "nat list \<Rightarrow> utext" where
  "utf8_decode [] = []"
| "utf8_decode (b # bs) =
     (if b < 128 then b # utf8_decode bs
      else if b < 224 then ((b - 192) * 64 + (bs ! 0 - 128)) # utf8_decode (drop 1 bs)
      else if b < 240 then
        ((b - 224) * 4096 + (bs ! 0 - 128) * 64 + (bs ! 1 - 128)) # utf8_decode (drop 2 bs)
      else ((b - 240) * 262144 + (bs ! 0 - 128) * 4096 + (bs ! 1 - 128) * 64 + (bs ! 2 - 128)) #
             utf8_decode (drop 3 bs))"

definition text_of :: "string \<Rightarrow> utext" where
  "text_of s = utf8_decode (map of_char s)"

lemma utf8_decode_utf8: "list_all (\<lambda>c. c < 0x110000) t \<Longrightarrow> utf8_decode (utf8 t) = t"
proof (induction t)
  case (Cons c t)
  have e: "c div 4096 = c div 64 div 64" "c div 262144 = c div 4096 div 64" by (simp_all flip: div_mult2_eq)
  have d: "c = c div 64 * 64 + c mod 64" "c div 64 = c div 4096 * 64 + c div 64 mod 64"
    "c div 4096 = c div 262144 * 64 + c div 4096 mod 64"
    unfolding e by simp_all
  have d3: "c div 4096 * 4096 + c div 64 mod 64 * 64 + c mod 64 = c" using d(1,2) by linarith
  have d4: "c div 262144 * 262144 + c div 4096 mod 64 * 4096 + c div 64 mod 64 * 64 + c mod 64 = c" using d3 d(3) by linarith
  consider "c < 128" | "128 \<le> c" "c < 2048" | "2048 \<le> c" "c < 65536" | "65536 \<le> c" "c < 0x110000"
    using Cons.prems by fastforce
  then have "utf8_decode (utf8_char c @ utf8 t) = c # utf8_decode (utf8 t)"
  proof cases
    case 2
    then have "192 + c div 64 < 224" by (simp add: div_less_iff_less_mult)
    with 2 show ?thesis by (simp add: utf8_char_def)
  next
    case 3
    then have "224 + c div 4096 < 240" by (simp add: div_less_iff_less_mult)
    with 3 d3 show ?thesis by (simp add: utf8_char_def numeral_2_eq_2)
  next
    case 4
    with d4 show ?thesis by (simp add: utf8_char_def numeral_2_eq_2 numeral_3_eq_3)
  qed (simp add: utf8_char_def)
  with Cons show ?case by simp
qed simp

text \<open>The number of characters before the last character boundary at or before byte \<open>n\<close>.\<close>

fun boundary_chars :: "utext \<Rightarrow> nat \<Rightarrow> nat" where
  "boundary_chars [] n = 0"
| "boundary_chars (c # cs) n =
     (let k = length (utf8_char c) in if k \<le> n then Suc (boundary_chars cs (n - k)) else 0)"

section \<open>The constraint\<close>

datatype constraint =
    CWaiting (marker: utext) (close_token: "token option") (waiting_tail: utext) (waiting_schema: schema)
  | CActive (active_machine: machine)

datatype row_constraint = RowActive machine bool | RowWaiting "token option" bool

fun constraint_machine :: "constraint \<Rightarrow> machine option" where
  "constraint_machine (CActive m) = Some m"
| "constraint_machine (CWaiting _ _ _ _) = None"

fun constraint_row :: "bool \<Rightarrow> constraint \<Rightarrow> row_constraint" where
  "constraint_row out_of_patience (CActive m) = RowActive m False"
| "constraint_row out_of_patience (CWaiting _ close _ _) = RowWaiting close out_of_patience"

text \<open>The caller then notes whether the budget is nearly gone.\<close>

fun with_finishing :: "bool \<Rightarrow> row_constraint \<Rightarrow> row_constraint" where
  "with_finishing fin (RowActive m _) = RowActive m fin"
| "with_finishing fin other = other"

text \<open>
  Advance with the text of a token: a panic, a refusal (\<open>Some None\<close>) or the constraint after it.
\<close>

definition machine_result :: "verdict \<Rightarrow> constraint option option" where
  "machine_result v = (case v of Panic \<Rightarrow> None | Refuse \<Rightarrow> Some None | Accept m \<Rightarrow> Some (Some (CActive m)))"

fun constraint_push :: "utext \<Rightarrow> constraint \<Rightarrow> constraint option option" where
  "constraint_push text (CActive m) = machine_result (push text m)"
| "constraint_push text (CWaiting mk close tail ns) =
     (let tail = tail @ text in
      case str_find mk tail of
        None \<Rightarrow>
          (let keep = byte_len mk - 1 in
           Some (Some (CWaiting mk close
             (if byte_len tail > keep then drop (boundary_chars tail (byte_len tail - keep)) tail else tail) ns)))
      | Some pos \<Rightarrow> machine_result (push (trim_start (drop (pos + length mk) tail)) (machine_new ns)))"

definition CLOSING_BUDGET :: nat where
  "CLOSING_BUDGET = 16"

definition f32_gt :: "f32 \<Rightarrow> f32 \<Rightarrow> bool" where
  "f32_gt a b = (f32_le b a \<and> \<not> f32_le a b)"

definition argmax :: "f32 list \<Rightarrow> nat option" where
  "argmax logits =
     map_option (\<lambda>(i, _). u32_of i)
       (fold (\<lambda>(i, l) best. case best of
                None \<Rightarrow> Some (i, l)
              | Some (_, b) \<Rightarrow> if f32_gt l b then Some (i, l) else best)
          (enumerate 0 logits) None)"

section \<open>The row of logits\<close>

definition keep_only :: "nat \<Rightarrow> f32 list \<Rightarrow> f32 list" where
  "keep_only k logits = map (\<lambda>(i, l). if i \<noteq> k then NegInf else l) (enumerate 0 logits)"

definition forbid :: "token list \<Rightarrow> f32 list \<Rightarrow> f32 list" where
  "forbid eos logits = fold (\<lambda>e ls. if e < length ls then ls[e := NegInf] else ls) eos logits"

definition apply_constraint ::
  "row_constraint option \<Rightarrow> token_masker option \<Rightarrow> token list \<Rightarrow> f32 list \<Rightarrow> f32 list option" where
  "apply_constraint rc masker eos logits =
     (case rc of
        None \<Rightarrow> Some logits
      | Some (RowActive m finishing) \<Rightarrow>
          (case masker of
             None \<Rightarrow> Some logits
           | Some tm \<Rightarrow> if finishing then mask_finishing tm m eos logits else mask_logits tm m eos logits)
      | Some (RowWaiting close out_of_patience) \<Rightarrow>
          (let wants_to_stop = out_of_patience \<or> (case argmax logits of Some t \<Rightarrow> t \<in> set eos | None \<Rightarrow> False) in
           Some (case (wants_to_stop, close) of
                   (True, Some t) \<Rightarrow> keep_only t logits
                 | _ \<Rightarrow> forbid eos logits)))"

section \<open>The constraint is never broken by what the mask leaves\<close>

definition constraint_ok :: "constraint \<Rightarrow> bool" where
  "constraint_ok c = (case c of CActive m \<Rightarrow> machine_ok m | CWaiting _ _ _ ns \<Rightarrow> schema_wf ns)"

lemma machine_result_ok:
  "safe v \<Longrightarrow> \<exists>r. machine_result v = Some r \<and> (\<forall>c. r = Some c \<longrightarrow> constraint_ok c)"
  by (cases v) (auto simp: machine_result_def constraint_ok_def)

lemma constraint_push_ok:
  assumes "constraint_ok c"
  shows "\<exists>r. constraint_push t c = Some r \<and> (\<forall>c'. r = Some c' \<longrightarrow> constraint_ok c')"
proof (cases c)
  case (CActive m)
  with assms have "machine_ok m" by (simp add: constraint_ok_def)
  from machine_result_ok [OF push_safe [OF this]] CActive show ?thesis by simp
next
  case (CWaiting mk close tail ns)
  with assms have "schema_wf ns" by (simp add: constraint_ok_def)
  with CWaiting show ?thesis
    using machine_result_ok [OF push_safe [OF machine_new_ok]]
    by (auto simp: Let_def constraint_ok_def split: option.splits)
qed

lemma length_forbid [simp]: "length (forbid eos logits) = length logits"
  by (induction eos arbitrary: logits) (auto simp: forbid_def)

lemma apply_constraint_total:
  assumes "\<forall>m fin. rc = Some (RowActive m fin) \<longrightarrow> machine_ok m" "\<forall>tm. masker = Some tm \<longrightarrow> buckets_ok tm"
  shows "\<exists>out. apply_constraint rc masker eos logits = Some out \<and> length out = length logits"
proof (cases "\<exists>m fin tm. rc = Some (RowActive m fin) \<and> masker = Some tm")
  case True
  then obtain m fin tm where 1: "rc = Some (RowActive m fin)" "masker = Some tm" by blast
  with assms mask_closed_form [of m tm eos logits] mask_finishing_closed_form [of m tm eos logits] show ?thesis
    by (auto simp: apply_constraint_def)
next
  case False
  then show ?thesis
    by (auto simp: apply_constraint_def keep_only_def Let_def split: option.splits row_constraint.splits prod.splits bool.splits)
qed

lemma active_row_fits:
  assumes "machine_ok m" "buckets_ok tm" "apply_constraint (Some (RowActive m fin)) (Some tm) eos logits = Some out"
    "t < length logits" "out ! t \<noteq> NegInf" "t \<notin> set eos"
  shows "may_follow tm m t"
  using assms mask_closed_form [of m tm eos logits] mask_finishing_closed_form [of m tm eos logits]
  by (auto simp: apply_constraint_def masked_def may_close_follow split: if_splits)

lemma may_follow_push:
  assumes "machine_ok m" "may_follow tm m t"
  shows "\<exists>m'. push (tm_texts tm ! t) m = Accept m' \<and> machine_ok m' \<and> viable m' = Some True"
  using assms push_safe [of m "tm_texts tm ! t"] by (auto simp: may_follow_def allows_def safe_def split: verdict.splits)

section \<open>When a waiting constraint starts\<close>

lemma byte_len_append [simp]: "byte_len (s @ t) = byte_len s + byte_len t"
  by (simp add: byte_len_def)

lemma byte_len_Cons [simp]: "byte_len (c # t) = length (utf8_char c) + byte_len t"
  by (simp add: byte_len_def)

lemma byte_len_Nil [simp]: "byte_len [] = 0"
  by (simp add: byte_len_def)

lemma byte_len_pos: "t \<noteq> [] \<Longrightarrow> 0 < byte_len t"
  by (simp add: byte_len_def)

lemma boundary_chars_le: "boundary_chars t n \<le> length t \<and> byte_len (take (boundary_chars t n) t) \<le> n"
  by (induction t n rule: boundary_chars.induct) (auto simp: Let_def)

lemma drop_boundary: "keep < byte_len t \<Longrightarrow> keep \<le> byte_len (drop (boundary_chars t (byte_len t - keep)) t)"
proof -
  assume keep: "keep < byte_len t"
  let ?n = "boundary_chars t (byte_len t - keep)"
  have "byte_len (take ?n t) + byte_len (drop ?n t) = byte_len t" by (metis append_take_drop_id byte_len_append)
  with keep boundary_chars_le [of t "byte_len t - keep"] show ?thesis by linarith
qed

fun constraint_run :: "utext list \<Rightarrow> constraint \<Rightarrow> constraint option option" where
  "constraint_run [] c = Some (Some c)"
| "constraint_run (t # ts) c =
     (case constraint_push t c of Some (Some c') \<Rightarrow> constraint_run ts c' | r \<Rightarrow> r)"

text \<open>A marker that starts before the tail would have been seen.\<close>

lemma marker_needs_tail:
  assumes "\<forall>j\<le>length (pre @ tail). \<not> prefix mk (drop j (pre @ tail))" "pre = [] \<or> byte_len mk - 1 \<le> byte_len tail"
    "mk \<noteq> []" "i < length pre"
  shows "\<not> prefix mk (drop i (pre @ tail @ t))"
proof
  assume "prefix mk (drop i (pre @ tail @ t))"
  moreover have "drop i (pre @ tail @ t) = drop i (pre @ tail) @ t" using assms(4) by simp
  ultimately have "prefix mk (drop i (pre @ tail)) \<or> (\<exists>r. mk = drop i (pre @ tail) @ r \<and> r \<noteq> [])"
    by (auto simp: prefix_append)
  moreover have "\<not> prefix mk (drop i (pre @ tail))" using assms(1,4) by (metis le_add1 length_append less_imp_le_nat le_trans)
  ultimately obtain r where r: "mk = drop i pre @ tail @ r" "r \<noteq> []" using assms(4) by auto
  have "drop i pre \<noteq> []" using assms(4) by simp
  then have "0 < byte_len (drop i pre)" "0 < byte_len r" using r(2) by (simp_all add: byte_len_pos)
  moreover have "byte_len mk = byte_len (drop i pre) + byte_len tail + byte_len r" by (subst r(1)) simp
  ultimately show False using assms(2,4) by auto
qed

lemma constraint_run_waits:
  assumes "mk \<noteq> []" "str_find mk (pre @ tail) = None" "pre = [] \<or> byte_len mk - 1 \<le> byte_len tail"
  shows "(case str_find mk (pre @ tail @ concat ts) of
     None \<Rightarrow> \<exists>tail'. constraint_run ts (CWaiting mk close tail ns) = Some (Some (CWaiting mk close tail' ns))
   | Some _ \<Rightarrow> \<exists>k pos. k < length ts \<and> str_find mk (pre @ tail @ concat (take k ts)) = None \<and>
       str_find mk (pre @ tail @ concat (take (Suc k) ts)) = Some pos \<and>
       constraint_run ts (CWaiting mk close tail ns) =
         (case machine_result (push (trim_start (drop (pos + length mk) (pre @ tail @ concat (take (Suc k) ts)))) (machine_new ns)) of
            Some (Some c) \<Rightarrow> constraint_run (drop (Suc k) ts) c | r \<Rightarrow> r))"
  using assms
proof (induction ts arbitrary: pre tail)
  case Nil
  then show ?case by simp
next
  case (Cons t ts)
  have shift: "str_find mk (pre @ tail @ t) = map_option ((+) (length pre)) (str_find mk (tail @ t))"
    by (rule str_find_shift) (use marker_needs_tail [OF _ Cons.prems(3,1)] Cons.prems(2) in \<open>auto simp: str_find_None\<close>)
  show ?case
  proof (cases "str_find mk (tail @ t)")
    case (Some p)
    let ?w = "pre @ tail @ t"
    have w: "str_find mk ?w = Some (length pre + p)" using Some shift by simp
    then have "prefix mk (drop (length pre + p) ?w)" "length pre + p \<le> length ?w" by (auto simp: str_find_Some)
    then have "prefix mk (drop (length pre + p) (?w @ concat ts))" "length pre + p \<le> length (?w @ concat ts)"
      unfolding drop_append by (blast intro: prefix_prefix, simp)
    then have "str_find mk (?w @ concat ts) \<noteq> None" unfolding str_find_None by blast
    then obtain p' where p': "str_find mk (pre @ tail @ concat (t # ts)) = Some p'" by auto
    have "\<exists>k pos. k < length (t # ts) \<and> str_find mk (pre @ tail @ concat (take k (t # ts))) = None \<and>
       str_find mk (pre @ tail @ concat (take (Suc k) (t # ts))) = Some pos \<and>
       constraint_run (t # ts) (CWaiting mk close tail ns) =
         (case machine_result (push (trim_start (drop (pos + length mk) (pre @ tail @ concat (take (Suc k) (t # ts))))) (machine_new ns)) of
            Some (Some c) \<Rightarrow> constraint_run (drop (Suc k) (t # ts)) c | r \<Rightarrow> r)"
      by (rule exI [of _ 0], rule exI [of _ "length pre + p"]) (use Some w Cons.prems(2) in \<open>simp add: add.assoc Let_def cong: option.case_cong\<close>)
    then show ?thesis using p' by simp
  next
    case None
    let ?T = "tail @ t" and ?keep = "byte_len mk - 1"
    let ?n = "if byte_len ?T > ?keep then boundary_chars ?T (byte_len ?T - ?keep) else 0"
    have push: "constraint_push t (CWaiting mk close tail ns) = Some (Some (CWaiting mk close (drop ?n ?T) ns))"
      using None by (simp add: Let_def)
    have split: "(pre @ take ?n ?T) @ drop ?n ?T = pre @ tail @ t" by (simp only: append_assoc append_take_drop_id)
    have "str_find mk ((pre @ take ?n ?T) @ drop ?n ?T) = None" unfolding split using None shift by simp
    moreover have "pre @ take ?n ?T = [] \<or> ?keep \<le> byte_len (drop ?n ?T)"
    proof (cases "byte_len ?T > ?keep")
      case True
      from drop_boundary [OF this] show ?thesis unfolding if_P [OF True] by blast
    qed (use Cons.prems(3) in auto)
    ultimately have ih: "(case str_find mk ((pre @ take ?n ?T) @ drop ?n ?T @ concat ts) of
       None \<Rightarrow> \<exists>tail'. constraint_run ts (CWaiting mk close (drop ?n ?T) ns) = Some (Some (CWaiting mk close tail' ns))
     | Some _ \<Rightarrow> \<exists>k pos. k < length ts \<and> str_find mk ((pre @ take ?n ?T) @ drop ?n ?T @ concat (take k ts)) = None \<and>
       str_find mk ((pre @ take ?n ?T) @ drop ?n ?T @ concat (take (Suc k) ts)) = Some pos \<and>
       constraint_run ts (CWaiting mk close (drop ?n ?T) ns) =
         (case machine_result (push (trim_start (drop (pos + length mk) ((pre @ take ?n ?T) @ drop ?n ?T @ concat (take (Suc k) ts)))) (machine_new ns)) of
            Some (Some c) \<Rightarrow> constraint_run (drop (Suc k) ts) c | r \<Rightarrow> r))"
      by (intro Cons.IH Cons.prems(1))
    have join: "(pre @ take ?n ?T) @ drop ?n ?T @ u = pre @ tail @ t @ u" for u
      using split by (metis append_assoc)
    have run: "constraint_run (t # ts) (CWaiting mk close tail ns) = constraint_run ts (CWaiting mk close (drop ?n ?T) ns)"
      using push by simp
    show ?thesis
    proof (cases "str_find mk (pre @ tail @ t @ concat ts)")
      case N: None
      with ih run show ?thesis unfolding join by simp
    next
      case (Some x)
      from ih [unfolded join Some option.case] obtain k pos where k: "k < length ts"
        "str_find mk (pre @ tail @ t @ concat (take k ts)) = None"
        "str_find mk (pre @ tail @ t @ concat (take (Suc k) ts)) = Some pos"
        "constraint_run ts (CWaiting mk close (drop ?n ?T) ns) =
         (case machine_result (push (trim_start (drop (pos + length mk) (pre @ tail @ t @ concat (take (Suc k) ts)))) (machine_new ns)) of
            Some (Some c) \<Rightarrow> constraint_run (drop (Suc k) ts) c | r \<Rightarrow> r)" by blast
      have w: "str_find mk (pre @ tail @ concat (t # ts)) = Some x" using Some by simp
      show ?thesis unfolding w option.case(2) run
        by (rule exI [of _ "Suc k"], rule exI [of _ pos])
           (use k in \<open>simp only: take_Suc_Cons concat.simps append_assoc drop_Suc_Cons length_Cons Suc_less_eq simp_thms\<close>)
    qed
  qed
qed

end
