(* ===== verification/Wire_Protocol.thy ===== *)
theory Wire_Protocol
  imports Block_Hash
begin

text \<open>
  What gateways and workers exchange: the question types and their calibration
  (\<open>vapi-core/src/decision.rs\<close>), the messages (\<open>vapi-proto/src/envelope.rs\<close>) and the subjects they
  travel on (\<open>vapi-proto/src/subjects.rs\<close>).  The serialised form is \<open>serde\<close>'s and is left out;
  \<open>u64\<close> hash arithmetic is on \<open>64 word\<close>, where it wraps as the source's \<open>wrapping_mul\<close> does.
\<close>

section \<open>Decision questions\<close>

datatype question_type = Choice | Score | Noul

fun qt_index :: "question_type \<Rightarrow> nat" where
  "qt_index Choice = 0"
| "qt_index Score = 1"
| "qt_index Noul = 2"

fun qt_as_str :: "question_type \<Rightarrow> string" where
  "qt_as_str Choice = ''choice''"
| "qt_as_str Score = ''score''"
| "qt_as_str Noul = ''noul''"

definition qt_from_index :: "nat \<Rightarrow> question_type option" where
  "qt_from_index i =
     (if i = 0 then Some Choice else if i = 1 then Some Score else if i = 2 then Some Noul else None)"

definition temperature_bucket :: "question_type \<Rightarrow> nat \<Rightarrow> string" where
  "temperature_bucket q options =
     qt_as_str q @ '':'' @
     (if options \<le> 2 then ''2'' else if options \<le> 5 then ''3-5'' else if options \<le> 10 then ''6-10'' else ''11+'')"

record calibration =
  per_type :: "f32 list"
  by_bucket :: "string \<rightharpoonup> f32"

definition default_calibration :: calibration where
  "default_calibration = \<lparr>per_type = replicate 3 (Fin 1), by_bucket = Map.empty\<rparr>"

record decision_config =
  dc_max_len :: nat
  dc_head_max_len :: nat
  dc_calibration :: calibration

definition default_decision_config :: decision_config where
  "default_decision_config = \<lparr>dc_max_len = 512, dc_head_max_len = 192, dc_calibration = default_calibration\<rparr>"

text \<open>The configuration that the checkpoint's file gives, once parsed.\<close>

definition override :: "'a list \<Rightarrow> 'a list \<Rightarrow> 'a list" where
  "override xs ys = take (length xs) ys @ drop (length ys) xs"

definition decision_config_of ::
  "nat option \<Rightarrow> nat option \<Rightarrow> f32 list option \<Rightarrow> (string \<rightharpoonup> f32) option \<Rightarrow> decision_config" where
  "decision_config_of max_len head_max_len temps by_options =
     (let d = default_decision_config in
      \<lparr>dc_max_len = (case max_len of Some n \<Rightarrow> n | None \<Rightarrow> dc_max_len d),
       dc_head_max_len = (case head_max_len of Some n \<Rightarrow> n | None \<Rightarrow> dc_head_max_len d),
       dc_calibration =
         \<lparr>per_type = (case temps of
                        Some t \<Rightarrow> override (per_type (dc_calibration d)) t
                      | None \<Rightarrow> per_type (dc_calibration d)),
          by_bucket = (case by_options of Some m \<Rightarrow> m | None \<Rightarrow> Map.empty)\<rparr>\<rparr>)"

definition state_budget :: "decision_config \<Rightarrow> nat" where
  "state_budget c = dc_max_len c - dc_head_max_len c"

fun usable :: "f32 \<Rightarrow> bool" where
  "usable (Fin t) = (t > 0)"
| "usable _ = False"

definition calibration_temperature :: "calibration \<Rightarrow> question_type \<Rightarrow> nat \<Rightarrow> f32 option" where
  "calibration_temperature c q options =
     (case by_bucket c (temperature_bucket q options) of
        Some t \<Rightarrow> if usable t then Some t
                  else map_option (\<lambda>t. if usable t then t else Fin 1) (index (per_type c) (qt_index q))
      | None \<Rightarrow> map_option (\<lambda>t. if usable t then t else Fin 1) (index (per_type c) (qt_index q)))"

section \<open>Messages\<close>

datatype job_kind = Chat | Completion | Decision | Transcription

record decision_row =
  row_len :: nat
  markers :: "nat list"
  qtype :: question_type

record audio_clip =
  sample_rate :: nat
  pcm :: string

definition audio_samples :: "audio_clip \<Rightarrow> nat" where
  "audio_samples a = length (pcm a) div 4 * 3 div 2"

record job =
  job_request_id :: string
  job_model :: string
  job_kind :: job_kind
  prompt_tokens :: "token list"
  job_params :: sampling_params
  job_namespace :: string
  reply_to :: string
  enqueued_at_ms :: nat
  job_rows :: "decision_row list"
  job_audio :: "audio_clip option"

datatype row_error = RowPastEnd nat nat nat | TokensLeftOver nat nat

fun split_rows ::
  "token list \<Rightarrow> nat \<Rightarrow> decision_row list \<Rightarrow> row_error + (token list \<times> decision_row) list \<times> nat" where
  "split_rows ts pos [] = Inr ([], pos)"
| "split_rows ts pos (r # rs) =
     (let stop_at = pos + row_len r in
      if stop_at > length ts then Inl (RowPastEnd pos stop_at (length ts))
      else case split_rows ts stop_at rs of
             Inl e \<Rightarrow> Inl e
           | Inr (out, fin) \<Rightarrow> Inr ((drop pos (take stop_at ts), r) # out, fin))"

definition decision_rows :: "job \<Rightarrow> row_error + (token list \<times> decision_row) list" where
  "decision_rows j =
     (case split_rows (prompt_tokens j) 0 (job_rows j) of
        Inl e \<Rightarrow> Inl e
      | Inr (out, fin) \<Rightarrow>
          if fin \<noteq> length (prompt_tokens j)
          then Inl (TokensLeftOver (length (prompt_tokens j) - fin) (length (job_rows j)))
          else Inr out)"

record token_logprob =
  tl_token_id :: token
  tl_logprob :: f32

record row_scores =
  rs_logits :: "f32 list"
  rs_act :: f32

datatype delta =
    Started (worker_id: string) (cached_prefix: nat)
  | Token (choice: nat) (token_text: string) (token_id: token) (logprob: "f32 option")
      (top_logprobs: "token_logprob list option")
  | Done (choice: nat) (reason: finish_reason) (done_prompt_tokens: nat) (completion_tokens: nat)
  | Decided "row_scores list" nat
  | Transcribed string nat f32
  | Failed string

fun is_terminal :: "delta \<Rightarrow> bool" where
  "is_terminal (Done _ _ _ _) = True"
| "is_terminal (Decided _ _) = True"
| "is_terminal (Transcribed _ _ _) = True"
| "is_terminal (Failed _) = True"
| "is_terminal _ = False"

record delta_msg =
  dm_seq :: nat
  dm_delta :: delta

type_synonym delta_seq = nat

definition delta_next :: "delta \<Rightarrow> delta_seq \<Rightarrow> delta_msg \<times> delta_seq" where
  "delta_next d s = (\<lparr>dm_seq = s, dm_delta = d\<rparr>, s + 1)"

record delta_seq_check =
  expected :: nat
  gaps :: nat

definition fresh_check :: delta_seq_check where
  "fresh_check = \<lparr>expected = 0, gaps = 0\<rparr>"

definition observe :: "nat \<Rightarrow> delta_seq_check \<Rightarrow> nat option \<times> delta_seq_check" where
  "observe s c =
     (let missing = s - expected c; c = c\<lparr>expected := s + 1\<rparr> in
      if missing > 0 then (Some missing, c\<lparr>gaps := gaps c + missing\<rparr>) else (None, c))"

section \<open>Subjects\<close>

definition fnv_byte :: "u8 \<Rightarrow> 64 word \<Rightarrow> 64 word" where
  "fnv_byte b h = xor h (ucast b) * 0x100000001b3"

definition fnv_mix :: "64 word \<Rightarrow> 64 word" where
  "fnv_mix h =
     (let h = xor h (drop_bit 33 h);
          h = h * 0xff51afd7ed558ccd;
          h = xor h (drop_bit 33 h);
          h = h * 0xc4ceb9fe1a85ec53
      in xor h (drop_bit 33 h))"

definition partition_for :: "token list \<Rightarrow> nat \<Rightarrow> nat \<Rightarrow> nat" where
  "partition_for toks block_size partitions =
     (if partitions \<le> 1 then 0
      else let head = take (min (length toks) block_size) toks;
               h = fold fnv_byte (concat (map (le_bytes 4) head)) 0xcbf29ce484222325
           in unat (fnv_mix h) mod partitions)"

definition jobs :: "string \<Rightarrow> string" where
  "jobs model = ''vapi.jobs.'' @ subject_token model"

definition jobs_partition :: "string \<Rightarrow> nat \<Rightarrow> string" where
  "jobs_partition model p = ''vapi.jobs.'' @ subject_token model @ ''.p'' @ show_nat p"

definition jobs_for :: "string \<Rightarrow> token list \<Rightarrow> nat \<Rightarrow> nat \<Rightarrow> string" where
  "jobs_for model toks block_size partitions =
     (if partitions \<le> 1 then jobs model
      else jobs_partition model (partition_for toks block_size partitions))"

definition stream_subject :: "string \<Rightarrow> string" where
  "stream_subject rid = ''vapi.stream.'' @ rid"

definition cancel_subject :: "string \<Rightarrow> string" where
  "cancel_subject rid = ''vapi.cancel.'' @ rid"

definition worker_ctl :: "string \<Rightarrow> string" where
  "worker_ctl w = ''vapi.ctl.worker.'' @ w"

definition consumer_name :: "string \<Rightarrow> string" where
  "consumer_name model = ''vapi-workers-'' @ subject_token model"

section \<open>What they guarantee\<close>

lemma split_rows_ok:
  "split_rows ts pos rs = Inr (out, fin) \<Longrightarrow> pos \<le> length ts \<Longrightarrow>
   fin = pos + (\<Sum>r\<leftarrow>rs. row_len r) \<and> fin \<le> length ts \<and> map snd out = rs \<and>
   list_all (\<lambda>(t, r). length t = row_len r) out \<and> concat (map fst out) = drop pos (take fin ts)"
proof (induction rs arbitrary: pos out fin)
  case (Cons r rs)
  then obtain out' where 1: "split_rows ts (pos + row_len r) rs = Inr (out', fin)" "pos + row_len r \<le> length ts"
    "out = (drop pos (take (pos + row_len r) ts), r) # out'"
    by (auto simp: Let_def split: if_splits sum.splits)
  from Cons.IH [OF 1(1,2)] have ih: "fin = pos + row_len r + (\<Sum>r\<leftarrow>rs. row_len r)" "fin \<le> length ts"
    "map snd out' = rs" "list_all (\<lambda>(t, r). length t = row_len r) out'"
    "concat (map fst out') = drop (pos + row_len r) (take fin ts)" by auto
  have "drop pos (take (pos + row_len r) ts) @ drop (pos + row_len r) (take fin ts) = drop pos (take fin ts)"
  proof -
    let ?u = "take fin ts" and ?k = "row_len r"
    have "take (pos + ?k) ts = take (pos + ?k) ?u" using ih(1) by (simp add: min_def)
    then have "drop pos (take (pos + ?k) ts) = take ?k (drop pos ?u)" by (simp only: drop_take diff_add_inverse)
    moreover have "drop (pos + ?k) ?u = drop ?k (drop pos ?u)" by (simp add: add.commute)
    ultimately show ?thesis by (metis append_take_drop_id)
  qed
  with ih 1(2,3) show ?case by auto
qed auto

lemma split_rows_total:
  "pos + (\<Sum>r\<leftarrow>rs. row_len r) \<le> length ts \<Longrightarrow> \<exists>out fin. split_rows ts pos rs = Inr (out, fin)"
proof (induction rs arbitrary: pos)
  case (Cons r rs)
  from Cons.IH [of "pos + row_len r"] Cons.prems show ?case by (auto simp: add.assoc)
qed auto

text \<open>The numbers that reach the gateway are an increasing selection of those that were sent.\<close>

lemma observe_fold:
  assumes "sorted_wrt (<) ns" "\<forall>n\<in>set ns. expected c \<le> n"
  shows "let c' = fold (\<lambda>n c. snd (observe n c)) ns c in
    (ns \<noteq> [] \<longrightarrow> expected c' = Suc (last ns)) \<and>
    gaps c' + length ns = gaps c + (if ns = [] then 0 else Suc (last ns) - expected c)"
  using assms
proof (induction ns arbitrary: c)
  case (Cons n ns)
  let ?c = "snd (observe n c)"
  have c: "expected ?c = Suc n" "gaps ?c = gaps c + (n - expected c)"
    by (auto simp: observe_def Let_def)
  have "\<forall>m\<in>set ns. expected ?c \<le> m" using Cons.prems(1) c(1) by auto
  from Cons.IH [OF _ this] Cons.prems(1) have
    ih: "ns \<noteq> [] \<longrightarrow> expected (fold (\<lambda>n c. snd (observe n c)) ns ?c) = Suc (last ns)"
     "gaps (fold (\<lambda>n c. snd (observe n c)) ns ?c) + length ns = gaps ?c + (if ns = [] then 0 else Suc (last ns) - expected ?c)"
    by (auto simp: Let_def)
  show ?case
  proof (cases "ns = []")
    case True
    with c Cons.prems show ?thesis by auto
  next
    case False
    then have "n < last ns" "expected c \<le> n" using Cons.prems by auto
    with False ih c show ?thesis by (simp add: Let_def)
  qed
qed simp

lemma partition_for_less: "0 < partitions \<Longrightarrow> partition_for toks bs partitions < partitions"
  by (auto simp: partition_for_def Let_def)

lemma partition_for_prefix:
  "bs \<le> length toks \<Longrightarrow> partition_for (toks @ xs) bs partitions = partition_for toks bs partitions"
  by (simp add: partition_for_def min_absorb2)

end
