(* ===== verification/Worker_Runner.thy ===== *)
theory Worker_Runner
  imports Wire_Protocol
begin

text \<open>
  The engine thread (\<open>vapi-worker/src/runner.rs\<close>): commands in, step results out, every delta stamped
  with its number in the stream of its request.  The trait \<open>WorkerEngine\<close> is the record
  \<open>worker_engine\<close> of its methods, and the locale \<open>worker\<close> is its contract; the decoder, the decision
  engine and the transcription engine are its three interpretations.  An error is the text it prints
  as, and \<open>None\<close> is a panic.
\<close>

section \<open>The trait\<close>

record step_output =
  events :: "(string \<times> delta) list"
  completed :: "string list"
  did_work :: bool

record 'e worker_engine =
  w_admit :: "job \<Rightarrow> 'e \<Rightarrow> ((string + unit) \<times> 'e) option"
  w_cancel :: "string \<Rightarrow> 'e \<Rightarrow> (bool \<times> 'e) option"
  w_fail_all :: "string \<Rightarrow> 'e \<Rightarrow> (step_output \<times> 'e) option"
  w_step :: "'e \<Rightarrow> ((string + step_output) \<times> 'e) option"
  w_is_idle :: "'e \<Rightarrow> bool"
  w_headroom :: "'e \<Rightarrow> nat"
  w_sequence :: "string \<Rightarrow> delta \<Rightarrow> 'e \<Rightarrow> delta_msg \<times> 'e"
  w_forget :: "string \<Rightarrow> 'e \<Rightarrow> 'e"

text \<open>The counters the three engines keep: \<open>delta_seq.entry(rid).or_default().next(delta)\<close>.\<close>

definition stamp_with :: "string \<Rightarrow> delta \<Rightarrow> (string \<rightharpoonup> delta_seq) \<Rightarrow> delta_msg \<times> (string \<rightharpoonup> delta_seq)" where
  "stamp_with rid d m = (let (msg, n) = delta_next d (case m rid of Some n \<Rightarrow> n | None \<Rightarrow> 0) in (msg, m(rid \<mapsto> n)))"

definition next_seq :: "(string \<rightharpoonup> delta_seq) \<Rightarrow> string \<Rightarrow> nat" where
  "next_seq m rid = (case m rid of Some n \<Rightarrow> n | None \<Rightarrow> 0)"

lemma stamp_with_msg: "fst (stamp_with rid d m) = \<lparr>dm_seq = next_seq m rid, dm_delta = d\<rparr>"
  by (simp add: stamp_with_def delta_next_def next_seq_def)

lemma next_seq_stamp: "next_seq (snd (stamp_with rid d m)) = (next_seq m)(rid := next_seq m rid + 1)"
  by (auto simp: stamp_with_def delta_next_def next_seq_def)

lemma next_seq_remove: "next_seq (m(rid := None)) = (next_seq m)(rid := 0)"
  by (auto simp: next_seq_def)

text \<open>How a job kind prints in an error.\<close>

fun kind_text :: "job_kind \<Rightarrow> string" where
  "kind_text Chat = ''Chat''"
| "kind_text Completion = ''Completion''"
| "kind_text Decision = ''Decision''"
| "kind_text Transcription = ''Transcription''"

section \<open>The thread\<close>

record report =
  rep_deltas :: "(string \<times> delta_msg) list"
  rep_completed :: "string list"

datatype command = Admit job | Cancel string | FailAll string

definition stamp_one :: "'e worker_engine \<Rightarrow> string \<times> delta \<Rightarrow> 'e \<times> report \<Rightarrow> 'e \<times> report" where
  "stamp_one w = (\<lambda>(rid, d) (e, rep).
     let (m, e) = w_sequence w rid d e in (e, rep\<lparr>rep_deltas := rep_deltas rep @ [(rid, m)]\<rparr>))"

definition forget_one :: "'e worker_engine \<Rightarrow> string \<Rightarrow> 'e \<times> report \<Rightarrow> 'e \<times> report" where
  "forget_one w rid = (\<lambda>(e, rep). (w_forget w rid e, rep\<lparr>rep_completed := rep_completed rep @ [rid]\<rparr>))"

text \<open>The events of a step are stamped, then its completed requests are forgotten.\<close>

definition publish_output :: "'e worker_engine \<Rightarrow> step_output \<Rightarrow> 'e \<times> report \<Rightarrow> 'e \<times> report" where
  "publish_output w out st = fold (forget_one w) (completed out) (fold (stamp_one w) (events out) st)"

definition handle :: "'e worker_engine \<Rightarrow> command \<Rightarrow> 'e \<times> report \<Rightarrow> ('e \<times> report) option" where
  "handle w cmd = (\<lambda>(e, rep).
     case cmd of
       Admit j \<Rightarrow> do {
         (r, e) \<leftarrow> w_admit w j e;
         Some (case r of
                 Inr _ \<Rightarrow> (e, rep)
               | Inl msg \<Rightarrow>
                   let rid = job_request_id j; (m, e) = w_sequence w rid (Failed msg) e
                   in (w_forget w rid e,
                       rep\<lparr>rep_deltas := rep_deltas rep @ [(rid, m)], rep_completed := rep_completed rep @ [rid]\<rparr>)) }
     | Cancel rid \<Rightarrow> do { (_, e) \<leftarrow> w_cancel w rid e; Some (w_forget w rid e, rep) }
     | FailAll msg \<Rightarrow> do { (out, e) \<leftarrow> w_fail_all w msg e; Some (publish_output w out (e, rep)) })"

text \<open>
  One turn of the loop: the commands that have arrived, then a step unless the engine is idle; a
  failed step fails every request.  The number counts failures in a row, and \<open>True\<close> means that the
  thread goes on.
\<close>

definition turn ::
  "'e worker_engine \<Rightarrow> nat \<Rightarrow> command list \<Rightarrow> 'e \<times> nat \<Rightarrow> (bool \<times> report \<times> 'e \<times> nat) option" where
  "turn w max_step_failures cmds = (\<lambda>(e, failures). do {
     (e, rep) \<leftarrow> for_each (handle w) cmds (e, \<lparr>rep_deltas = [], rep_completed = []\<rparr>);
     if w_is_idle w e then Some (True, rep, e, failures)
     else do {
       (r, e) \<leftarrow> w_step w e;
       case r of
         Inr out \<Rightarrow> (case publish_output w out (e, rep) of (e, rep) \<Rightarrow> Some (True, rep, e, 0))
       | Inl msg \<Rightarrow> do {
           (out, e) \<leftarrow> w_fail_all w (''engine step failed: '' @ msg) e;
           (case publish_output w out (e, rep) of
              (e, rep) \<Rightarrow>
                Some (\<not> (max_step_failures > 0 \<and> failures + 1 \<ge> max_step_failures), rep, e, failures + 1)) } } })"

text \<open>A run of the thread on jobs of one kind: the engine and the count of failures after any number of turns.\<close>

fun command_served :: "(job \<Rightarrow> bool) \<Rightarrow> command \<Rightarrow> bool" where
  "command_served served (Admit j) = served j"
| "command_served served _ = True"

inductive worker_run :: "'e worker_engine \<Rightarrow> nat \<Rightarrow> (job \<Rightarrow> bool) \<Rightarrow> 'e \<Rightarrow> 'e \<times> nat \<Rightarrow> bool" for w m served e0 where
  spawn: "worker_run w m served e0 (e0, 0)"
| turns: "worker_run w m served e0 st \<Longrightarrow> list_all (command_served served) cmds \<Longrightarrow>
    turn w m cmds st = Some (True, rep, st') \<Longrightarrow> worker_run w m served e0 st'"

text \<open>The deltas of one request in a list, in order.\<close>

definition deltas_of :: "string \<Rightarrow> (string \<times> 'd) list \<Rightarrow> 'd list" where
  "deltas_of rid xs = map snd (filter (\<lambda>x. fst x = rid) xs)"

lemma deltas_of_simps [simp]:
  "deltas_of rid [] = []" "deltas_of rid ((r, d) # xs) = (if r = rid then d # deltas_of rid xs else deltas_of rid xs)"
  "deltas_of rid (xs @ ys) = deltas_of rid xs @ deltas_of rid ys"
  by (simp_all add: deltas_of_def)

text \<open>Deltas numbered from \<open>n\<close>.\<close>

fun numbered :: "nat \<Rightarrow> delta list \<Rightarrow> delta_msg list" where
  "numbered n [] = []"
| "numbered n (d # ds) = \<lparr>dm_seq = n, dm_delta = d\<rparr> # numbered (Suc n) ds"

lemma numbered_append: "numbered n (ds @ ds') = numbered n ds @ numbered (n + length ds) ds'"
  by (induction n ds rule: numbered.induct) simp_all

lemma forget_one_apply: "forget_one w rid (e, rep) = (w_forget w rid e, rep\<lparr>rep_completed := rep_completed rep @ [rid]\<rparr>)"
  by (simp add: forget_one_def)

text \<open>Commands about other requests: one that admits or cancels the request itself, or fails all, is not.\<close>

fun command_spares :: "string \<Rightarrow> command \<Rightarrow> bool" where
  "command_spares rid (Admit j) = (job_request_id j \<noteq> rid)"
| "command_spares rid (Cancel r) = (r \<noteq> rid)"
| "command_spares rid (FailAll _) = False"

section \<open>The contract\<close>

text \<open>
  \<open>inv\<close> is the engine's invariant, \<open>served\<close> the jobs it is built for, \<open>counter\<close> its numbering.  No
  method panics, \<open>fail_all\<close> leaves the engine idle, and the counter of a request moves by the two methods
  that stamp and forget, and when the request is admitted.
\<close>

locale worker =
  fixes w :: "'e worker_engine" and inv :: "'e \<Rightarrow> bool" and served :: "job \<Rightarrow> bool"
    and counter :: "'e \<Rightarrow> string \<Rightarrow> nat"
  assumes admit_ok: "inv e \<Longrightarrow> served j \<Longrightarrow> \<exists>r e'. w_admit w j e = Some (r, e') \<and> inv e'"
    and admit_counter: "inv e \<Longrightarrow> w_admit w j e = Some (r, e') \<Longrightarrow> rid \<noteq> job_request_id j \<Longrightarrow> counter e' rid = counter e rid"
    and cancel_ok: "inv e \<Longrightarrow> \<exists>r e'. w_cancel w rid e = Some (r, e') \<and> inv e' \<and> counter e' = counter e"
    and fail_all_ok: "inv e \<Longrightarrow> \<exists>out e'. w_fail_all w msg e = Some (out, e') \<and> inv e' \<and> w_is_idle w e' \<and> counter e' = counter e"
    and step_ok: "inv e \<Longrightarrow> \<exists>r e'. w_step w e = Some (r, e') \<and> inv e' \<and> counter e' = counter e"
    and sequence_inv: "inv e \<Longrightarrow> inv (snd (w_sequence w rid d e))"
    and sequence_msg: "fst (w_sequence w rid d e) = \<lparr>dm_seq = counter e rid, dm_delta = d\<rparr>"
    and sequence_counter: "counter (snd (w_sequence w rid d e)) = (counter e)(rid := counter e rid + 1)"
    and sequence_idle: "w_is_idle w (snd (w_sequence w rid d e)) = w_is_idle w e"
    and forget_inv: "inv e \<Longrightarrow> inv (w_forget w rid e)"
    and forget_counter: "counter (w_forget w rid e) = (counter e)(rid := 0)"
    and forget_idle: "w_is_idle w (w_forget w rid e) = w_is_idle w e"
begin

lemma stamp_all:
  assumes "inv e" "fold (stamp_one w) evs (e, rep) = (e', rep')"
  shows "inv e' \<and> w_is_idle w e' = w_is_idle w e \<and> rep_completed rep' = rep_completed rep \<and>
    counter e' rid = counter e rid + length (deltas_of rid evs) \<and>
    map fst (rep_deltas rep') = map fst (rep_deltas rep) @ map fst evs \<and>
    deltas_of rid (rep_deltas rep') = deltas_of rid (rep_deltas rep) @
      numbered (counter e rid) (deltas_of rid evs)"
  using assms
proof (induction evs arbitrary: e rep)
  case (Cons x evs)
  obtain r d where x: "x = (r, d)" by fastforce
  obtain m e1 where s: "w_sequence w r d e = (m, e1)" by fastforce
  have 1: "inv e1" "m = \<lparr>dm_seq = counter e r, dm_delta = d\<rparr>" "counter e1 = (counter e)(r := counter e r + 1)"
    "w_is_idle w e1 = w_is_idle w e"
    using sequence_inv [OF Cons.prems(1), of r d] sequence_msg [of r d e] sequence_counter [of r d e] sequence_idle [of r d e] s
    by simp_all
  let ?rep = "rep\<lparr>rep_deltas := rep_deltas rep @ [(r, m)]\<rparr>"
  have "fold (stamp_one w) evs (e1, ?rep) = (e', rep')" using Cons.prems(2) s x by (simp add: stamp_one_def)
  from Cons.IH [OF 1(1) this] 1 x show ?case by auto
qed simp

lemma forget_all:
  assumes "inv e" "fold (forget_one w) rids (e, rep) = (e', rep')"
  shows "inv e' \<and> w_is_idle w e' = w_is_idle w e \<and> rep_deltas rep' = rep_deltas rep \<and>
    rep_completed rep' = rep_completed rep @ rids \<and> counter e' = (\<lambda>r. if r \<in> set rids then 0 else counter e r)"
  using assms
proof (induction rids arbitrary: e rep)
  case (Cons r rids)
  let ?rep = "rep\<lparr>rep_completed := rep_completed rep @ [r]\<rparr>"
  have "fold (forget_one w) rids (w_forget w r e, ?rep) = (e', rep')" using Cons.prems(2) by (simp add: forget_one_apply)
  from Cons.IH [OF forget_inv [OF Cons.prems(1)] this] show ?case
    by (auto simp: forget_counter forget_idle fun_eq_iff)
qed simp

lemma publish_ok:
  assumes "inv e" "publish_output w out (e, rep) = (e', rep')"
  shows "inv e' \<and> w_is_idle w e' = w_is_idle w e"
proof -
  obtain e1 rep1 where 1: "fold (stamp_one w) (events out) (e, rep) = (e1, rep1)" by fastforce
  with assms(2) have 2: "fold (forget_one w) (completed out) (e1, rep1) = (e', rep')" by (simp add: publish_output_def)
  from stamp_all [OF assms(1) 1] forget_all [OF _ 2] show ?thesis by simp
qed

lemma handle_ok:
  assumes "inv e" "command_served served cmd"
  shows "\<exists>e' rep'. handle w cmd (e, rep) = Some (e', rep') \<and> inv e'"
proof (cases cmd)
  case (Admit j)
  with assms admit_ok [of e j] obtain r e1 where 1: "w_admit w j e = Some (r, e1)" "inv e1" by auto
  have "inv (snd (w_sequence w rid d e1))" for rid d by (rule sequence_inv [OF 1(2)])
  with 1 Admit show ?thesis
    by (cases r) (auto simp: handle_def Let_def case_prod_unfold intro: forget_inv)
next
  case (Cancel rid)
  with cancel_ok [OF assms(1), of rid] forget_inv show ?thesis by (auto simp: handle_def)
next
  case (FailAll msg)
  from fail_all_ok [OF assms(1), of msg] obtain out e1 where 1: "w_fail_all w msg e = Some (out, e1)" "inv e1" by blast
  obtain e2 rep2 where "publish_output w out (e1, rep) = (e2, rep2)" by fastforce
  with 1 FailAll publish_ok [OF 1(2) this] show ?thesis by (auto simp: handle_def)
qed

lemma handle_all_ok:
  assumes "inv e" "list_all (command_served served) cmds"
  shows "\<exists>e' rep'. for_each (handle w) cmds (e, rep) = Some (e', rep') \<and> inv e'"
  using assms
proof (induction cmds arbitrary: e rep)
  case (Cons cmd cmds)
  then obtain e1 rep1 where "handle w cmd (e, rep) = Some (e1, rep1)" "inv e1" using handle_ok [of e cmd rep] by auto
  with Cons show ?case by auto
qed simp

text \<open>A turn returns whatever the commands and the device do, and a turn whose step failed leaves the engine idle.\<close>

lemma turn_ok:
  assumes i: "inv e" and c: "list_all (command_served served) cmds"
  shows "\<exists>go rep e' n. turn w max_failures cmds (e, failures) = Some (go, rep, e', n) \<and> inv e' \<and>
    (n = failures + 1 \<longrightarrow> w_is_idle w e') \<and> (\<not> go \<longrightarrow> 0 < max_failures \<and> max_failures \<le> n)"
proof -
  from handle_all_ok [OF i c] obtain e1 rep1 where
    1: "for_each (handle w) cmds (e, \<lparr>rep_deltas = [], rep_completed = []\<rparr>) = Some (e1, rep1)" "inv e1" by blast
  show ?thesis
  proof (cases "w_is_idle w e1")
    case True
    with 1 show ?thesis by (auto simp: turn_def)
  next
    case False
    from step_ok [OF 1(2)] obtain r e2 where 2: "w_step w e1 = Some (r, e2)" "inv e2" by blast
    show ?thesis
    proof (cases r)
      case (Inr out)
      obtain e3 rep3 where "publish_output w out (e2, rep1) = (e3, rep3)" by fastforce
      with 1(1) 2 False Inr publish_ok [OF 2(2) this] show ?thesis by (auto simp: turn_def)
    next
      case (Inl msg)
      from fail_all_ok [OF 2(2), of "''engine step failed: '' @ msg"] obtain out e3 where
        3: "w_fail_all w (''engine step failed: '' @ msg) e2 = Some (out, e3)" "inv e3" "w_is_idle w e3" by blast
      obtain e4 rep4 where 4: "publish_output w out (e3, rep1) = (e4, rep4)" by fastforce
      with 1(1) 2(1) 3 False Inl publish_ok [OF 3(2) 4] show ?thesis by (auto simp: turn_def)
    qed
  qed
qed

text \<open>
  A step's deltas reach the report in order, numbered from the counter of their request without a
  gap, and its completed requests start again from zero.
\<close>

lemma publish_numbers:
  assumes "inv e" "publish_output w out (e, rep) = (e', rep')"
  shows "deltas_of rid (rep_deltas rep') = deltas_of rid (rep_deltas rep) @
      numbered (counter e rid) (deltas_of rid (events out))"
    "counter e' rid = (if rid \<in> set (completed out) then 0 else counter e rid + length (deltas_of rid (events out)))"
    "rep_completed rep' = rep_completed rep @ completed out"
proof -
  obtain e1 rep1 where 1: "fold (stamp_one w) (events out) (e, rep) = (e1, rep1)" by fastforce
  with assms(2) have 2: "fold (forget_one w) (completed out) (e1, rep1) = (e', rep')" by (simp add: publish_output_def)
  note s = stamp_all [OF assms(1) 1, of rid] and f = forget_all [OF _ 2]
  from s f show "deltas_of rid (rep_deltas rep') = deltas_of rid (rep_deltas rep) @
      numbered (counter e rid) (deltas_of rid (events out))"
    "counter e' rid = (if rid \<in> set (completed out) then 0 else counter e rid + length (deltas_of rid (events out)))"
    "rep_completed rep' = rep_completed rep @ completed out" by simp_all
qed

lemma handle_spares:
  assumes i: "inv e" "command_served served cmd" "command_spares rid cmd" and h: "handle w cmd (e, rep) = Some (e', rep')"
  shows "counter e' rid = counter e rid \<and> deltas_of rid (rep_deltas rep') = deltas_of rid (rep_deltas rep) \<and>
    (rid \<in> set (rep_completed rep') \<longleftrightarrow> rid \<in> set (rep_completed rep))"
proof (cases cmd)
  case (Admit j)
  with i admit_ok [of e j] obtain r e1 where 1: "w_admit w j e = Some (r, e1)" by auto
  have c: "counter e1 rid = counter e rid" "job_request_id j \<noteq> rid"
    using admit_counter [OF i(1) 1, of rid] i(3) Admit by auto
  show ?thesis
  proof (cases r)
    case (Inl msg)
    obtain m e2 where s: "w_sequence w (job_request_id j) (Failed msg) e1 = (m, e2)" by fastforce
    have "counter e2 rid = counter e1 rid"
      using sequence_counter [of "job_request_id j" "Failed msg" e1] s c(2) by simp
    then show ?thesis using h 1 Admit Inl s c by (auto simp: handle_def Let_def forget_counter)
  qed (use h 1 Admit c in \<open>auto simp: handle_def\<close>)
next
  case (Cancel r)
  with cancel_ok [OF i(1), of r] h i(3) show ?thesis by (auto simp: handle_def forget_counter)
qed (use i(3) in simp)

lemma handle_all_spares:
  assumes "inv e" "list_all (command_served served) cmds" "list_all (command_spares rid) cmds"
    "for_each (handle w) cmds (e, rep) = Some (e', rep')"
  shows "inv e' \<and> counter e' rid = counter e rid \<and> deltas_of rid (rep_deltas rep') = deltas_of rid (rep_deltas rep) \<and>
    (rid \<in> set (rep_completed rep') \<longleftrightarrow> rid \<in> set (rep_completed rep))"
  using assms
proof (induction cmds arbitrary: e rep)
  case (Cons cmd cmds)
  from handle_ok [OF Cons.prems(1), of cmd rep] Cons.prems(2) obtain e1 rep1 where
    1: "handle w cmd (e, rep) = Some (e1, rep1)" "inv e1" by auto
  with Cons.prems(4) have "for_each (handle w) cmds (e1, rep1) = Some (e', rep')" by simp
  with Cons.IH [OF 1(2), of rep1] handle_spares [OF Cons.prems(1) _ _ 1(1)] Cons.prems(2,3) show ?case by simp
qed simp

lemma turn_numbers:
  assumes i: "inv e" and cmds: "list_all (command_served served) cmds" "list_all (command_spares rid) cmds"
    and t: "turn w max_failures cmds (e, failures) = Some (go, rep, e', n)"
  shows "\<exists>ds. deltas_of rid (rep_deltas rep) = numbered (counter e rid) ds \<and>
    counter e' rid = (if rid \<in> set (rep_completed rep) then 0 else counter e rid + length ds)"
proof -
  from handle_all_ok [OF i cmds(1)] obtain e0 rep0 where
    h: "for_each (handle w) cmds (e, \<lparr>rep_deltas = [], rep_completed = []\<rparr>) = Some (e0, rep0)" by blast
  from handle_all_spares [OF i cmds h] have
    0: "inv e0" "counter e0 rid = counter e rid" "deltas_of rid (rep_deltas rep0) = []" "rid \<notin> set (rep_completed rep0)"
    by simp_all
  show ?thesis
  proof (cases "w_is_idle w e0")
    case True
    with t h 0 show ?thesis by (intro exI [of _ "[]"]) (auto simp: turn_def)
  next
    case False
    from step_ok [OF 0(1)] obtain r e1 where 1: "w_step w e0 = Some (r, e1)" "inv e1" "counter e1 = counter e0" by blast
    show ?thesis
    proof (cases r)
      case (Inr out)
      then have "publish_output w out (e1, rep0) = (e', rep)" using False 1(1) t h by (auto simp: turn_def split: prod.splits)
      from publish_numbers(1,2) [OF 1(2) this, of rid] publish_numbers(3) [OF 1(2) this] 1(3) 0 show ?thesis by auto
    next
      case (Inl msg)
      from fail_all_ok [OF 1(2), of "''engine step failed: '' @ msg"] obtain out e2 where
        2: "w_fail_all w (''engine step failed: '' @ msg) e1 = Some (out, e2)" "inv e2" "counter e2 = counter e1" by blast
      then have "publish_output w out (e2, rep0) = (e', rep)" using False 1(1) Inl t h by (auto simp: turn_def split: prod.splits)
      from publish_numbers(1,2) [OF 2(2) this, of rid] publish_numbers(3) [OF 2(2) this] 1(3) 2(3) 0 show ?thesis by auto
    qed
  qed
qed

lemma run_inv:
  assumes "inv e0" "worker_run w m served e0 st"
  shows "inv (fst st)"
  using assms(2,1)
proof (induction rule: worker_run.induct)
  case (turns st cmds rep st')
  obtain e n where st: "st = (e, n)" by fastforce
  have "inv e" using turns.IH turns.prems st by simp
  from turn_ok [OF this turns.hyps(2), of m n] turns.hyps(3) st show ?case by auto
qed simp

end

end
