(* ===== verification/Worker_Engine.thy ===== *)
theory Worker_Engine
  imports Scheduler_Reach Spill_Tier Worker_Constraint Worker_Runner
begin

text \<open>
  The worker's engine (\<open>vapi-worker/src/engine.rs\<close>): admission, the step that schedules, forwards,
  samples, streams and commits, the forks of a request with several choices, completion, cancellation
  and failure, and the engine thread's loop body (\<open>vapi-worker/src/runner.rs\<close>).

  What the engine calls outside these files is the record \<open>env\<close>: the backend's forward pass and block
  moves, the tokenizer, the parser and printer of schemas, and the sampler with its floating-point
  arithmetic and random draws.  The backend has the default \<open>forward_greedy\<close> and
  \<open>forward_candidates\<close> of the trait, as the mock does, so every row comes to the host in full.
  Metrics, log lines and timings are left out.  \<open>None\<close> is a panic.
\<close>

section \<open>State\<close>

record ('b, 'r) env =
  en_blake3 :: "bytes \<Rightarrow> bytes"
  en_export :: "'b \<Rightarrow> block_id \<Rightarrow> error + bytes"
  en_import :: "block_id \<Rightarrow> bytes \<Rightarrow> 'b \<Rightarrow> error + 'b"
  en_disk :: disk_io
  en_forward :: "forward_batch \<Rightarrow> 'b \<Rightarrow> (error + logits) \<times> 'b"
  en_copy_blocks :: "(block_id \<times> block_id) list \<Rightarrow> 'b \<Rightarrow> error + 'b"
  en_spec :: model_spec
  en_tokenizer_eos :: "token list"
  en_decode :: "token list \<Rightarrow> utext"
  en_token_id :: "utext \<Rightarrow> token option"
  en_json :: "string \<Rightarrow> json"
  en_canonical :: "json \<Rightarrow> utext"
  en_new_sampler :: "64 word option \<Rightarrow> 'r"
  en_sample :: "f32 list \<Rightarrow> sampling_params \<Rightarrow> 'r \<Rightarrow> token \<times> 'r"
  en_observe :: "token \<Rightarrow> 'r \<Rightarrow> 'r"
  en_logprobs :: "f32 list \<Rightarrow> nat \<Rightarrow> token \<Rightarrow> f32 \<times> token_logprob list"

record 'r seq_stream =
  ss_detok :: detokenizer
  ss_sampler :: 'r
  ss_out :: stream_state
  ss_last_token :: token
  ss_constraint :: "constraint option"

text \<open>
  The map from sequences to requests is an association list, because \<open>fail_all\<close> iterates it; the
  order of a \<open>HashMap\<close> is unspecified.
\<close>

record ('b, 'r) engine =
  e_sched :: scheduler
  e_backend :: 'b
  e_streams :: "seq_id \<rightharpoonup> 'r seq_stream"
  e_requests :: "(seq_id \<times> string) list"
  e_choice_of :: "seq_id \<rightharpoonup> nat"
  e_pending_forks :: "seq_id \<rightharpoonup> nat"
  e_open_choices :: "string \<rightharpoonup> nat"
  e_delta_seq :: "string \<rightharpoonup> delta_seq"
  e_worker_id :: string
  e_spill :: "spill_store option"
  e_files :: files
  e_masker :: "token_masker option"
  e_schemas :: "string \<rightharpoonup> schema"
  e_namespace :: cache_namespace

datatype engine_error = CoreError error | BadSchema schema_error

definition assoc_insert :: "'k \<Rightarrow> 'v \<Rightarrow> ('k \<times> 'v) list \<Rightarrow> ('k \<times> 'v) list" where
  "assoc_insert k v m = (k, v) # filter (\<lambda>p. fst p \<noteq> k) m"

definition assoc_remove :: "'k \<Rightarrow> ('k \<times> 'v) list \<Rightarrow> ('k \<times> 'v) list" where
  "assoc_remove k m = filter (\<lambda>p. fst p \<noteq> k) m"

definition request_of :: "('b, 'r) engine \<Rightarrow> seq_id \<Rightarrow> string option" where
  "request_of e i = map_of (e_requests e) i"

definition decode_bytes :: "('b, 'r) env \<Rightarrow> token list \<Rightarrow> string" where
  "decode_bytes env ts = utf8_string (en_decode env ts)"

definition eos_ids :: "('b, 'r) env \<Rightarrow> token list" where
  "eos_ids env = (if eos_token_ids (en_spec env) = [] then en_tokenizer_eos env else eos_token_ids (en_spec env))"

section \<open>Constraints\<close>

definition get_masker :: "('b, 'r) env \<Rightarrow> ('b, 'r) engine \<Rightarrow> token_masker \<times> ('b, 'r) engine" where
  "get_masker env e =
     (case e_masker e of
        Some tm \<Rightarrow> (tm, e)
      | None \<Rightarrow>
          let tm = masker_new (map (\<lambda>i. en_decode env [i]) [0..<u32_of (vocab_size (en_spec env))])
          in (tm, e\<lparr>e_masker := Some tm\<rparr>))"

definition compile_format ::
  "('b, 'r) env \<Rightarrow> response_format \<Rightarrow> ('b, 'r) engine \<Rightarrow> (engine_error + schema) \<times> ('b, 'r) engine" where
  "compile_format env f e =
     (let key = (case f of JsonObject \<Rightarrow> ''{}'' | JsonSchema s \<Rightarrow> s) in
      case e_schemas e key of
        Some ns \<Rightarrow> (Inr ns, e)
      | None \<Rightarrow>
          (case (case f of
                   JsonObject \<Rightarrow> Inr schema_any
                 | JsonSchema s \<Rightarrow> map_sum id with_any_node (compile (en_canonical env) (en_json env s))) of
             Inl err \<Rightarrow> (Inl (BadSchema err), e)
           | Inr ns \<Rightarrow> (Inr ns, e\<lparr>e_schemas := (e_schemas e)(key \<mapsto> ns)\<rparr>)))"

definition job_constraint ::
  "('b, 'r) env \<Rightarrow> sampling_params \<Rightarrow> ('b, 'r) engine \<Rightarrow> (engine_error + constraint option) \<times> ('b, 'r) engine" where
  "job_constraint env ps e =
     (case resp_format ps of
        None \<Rightarrow> (Inr None, e)
      | Some f \<Rightarrow>
          (case compile_format env f e of
             (Inl err, e) \<Rightarrow> (Inl err, e)
           | (Inr ns, e) \<Rightarrow>
               let e = snd (get_masker env e) in
               (Inr (Some (case constraint_starts_after ps of
                             Some mk \<Rightarrow>
                               if mk \<noteq> [] then CWaiting (text_of mk) (en_token_id env (text_of mk)) [] ns
                               else CActive (machine_new ns)
                           | None \<Rightarrow> CActive (machine_new ns))), e)))"

section \<open>The spill tier\<close>

definition tier_of :: "('b, 'r) engine \<Rightarrow> 'b tier" where
  "tier_of e = \<lparr>t_pool = pool (e_sched e), t_spill = e_spill e, t_files = e_files e, t_dev = e_backend e\<rparr>"

definition with_tier :: "'b tier \<Rightarrow> ('b, 'r) engine \<Rightarrow> ('b, 'r) engine" where
  "with_tier t e =
     e\<lparr>e_sched := (e_sched e)\<lparr>pool := t_pool t\<rparr>, e_spill := t_spill t, e_files := t_files t, e_backend := t_dev t\<rparr>"

definition engine_spill_evicted :: "('b, 'r) env \<Rightarrow> ('b, 'r) engine \<Rightarrow> ('b, 'r) engine option" where
  "engine_spill_evicted env e =
     map_option (\<lambda>t. with_tier t e) (spill_evicted (en_export env) (en_disk env) (tier_of e))"

definition engine_promote :: "('b, 'r) env \<Rightarrow> token list \<Rightarrow> ('b, 'r) engine \<Rightarrow> ('b, 'r) engine option" where
  "engine_promote env prompt e =
     map_option (\<lambda>t. with_tier t e)
       (promote_from_spill (en_blake3 env) (en_export env) (en_import env) (en_disk env) (e_namespace e) prompt (tier_of e))"

section \<open>Admission\<close>

definition new_stream :: "token list \<Rightarrow> 'r \<Rightarrow> constraint option \<Rightarrow> 'r seq_stream" where
  "new_stream prompt smp c =
     \<lparr>ss_detok = with_prompt prompt, ss_sampler = smp, ss_out = \<lparr>held = [], stopped = False\<rparr>,
      ss_last_token = 0, ss_constraint = c\<rparr>"

definition choices_of :: "sampling_params \<Rightarrow> nat" where
  "choices_of ps = (if is_greedy ps then 1 else max (n_choices ps) 1)"

definition engine_admit ::
  "('b, 'r) env \<Rightarrow> job \<Rightarrow> ('b, 'r) engine \<Rightarrow> ((engine_error + seq_id) \<times> ('b, 'r) engine) option" where
  "engine_admit env j e =
     (case job_constraint env (job_params j) e of
        (Inl err, e) \<Rightarrow> Some (Inl err, e)
      | (Inr c, e) \<Rightarrow> do {
          e \<leftarrow> engine_promote env (prompt_tokens j) e;
          (case admit (job_request_id j) (prompt_tokens j) (job_params j) (job_namespace j) (e_sched e) of
             (Inl err, s) \<Rightarrow> Some (Inl (CoreError err), e\<lparr>e_sched := s\<rparr>)
           | (Inr i, s) \<Rightarrow>
               let st = new_stream (prompt_tokens j) (en_new_sampler env (seed (job_params j))) c;
                   n = choices_of (job_params j)
               in Some (Inr i,
                    e\<lparr>e_sched := s, e_streams := (e_streams e)(i \<mapsto> st),
                      e_requests := assoc_insert i (job_request_id j) (e_requests e),
                      e_choice_of := (e_choice_of e)(i \<mapsto> 0),
                      e_pending_forks := (if n > 1 then (e_pending_forks e)(i \<mapsto> n - 1) else e_pending_forks e),
                      e_open_choices := (e_open_choices e)(job_request_id j \<mapsto> n),
                      e_delta_seq := (e_delta_seq e)(job_request_id j \<mapsto> 0)\<rparr>)) })"

section \<open>Sampling a row\<close>

text \<open>What the sampling loop collects: forks to make, tokens and log-probabilities.\<close>

type_synonym fork_todo = "seq_id \<times> nat \<times> f32 list \<times> sampling_params"
type_synonym row_logprob = "(f32 \<times> token_logprob list) option"
type_synonym ('b, 'r) sampling = "('b, 'r) engine \<times> fork_todo list \<times> token list \<times> row_logprob list"

definition params_of :: "('b, 'r) engine \<Rightarrow> seq_id \<Rightarrow> sampling_params" where
  "params_of e i = (case seqs (e_sched e) i of Some q \<Rightarrow> params q | None \<Rightarrow> default_params)"

definition out_of_patience :: "('b, 'r) engine \<Rightarrow> seq_id \<Rightarrow> bool" where
  "out_of_patience e i =
     (case seqs (e_sched e) i of Some q \<Rightarrow> num_generated q * 4 \<ge> max_tokens (params q) * 3 | None \<Rightarrow> False)"

definition finishing :: "('b, 'r) engine \<Rightarrow> seq_id \<Rightarrow> bool" where
  "finishing e i =
     (case seqs (e_sched e) i of
        Some q \<Rightarrow> max_tokens (params q) - num_generated q \<le> CLOSING_BUDGET | None \<Rightarrow> False)"

definition row_constraint_of :: "('b, 'r) engine \<Rightarrow> seq_id \<Rightarrow> row_constraint option" where
  "row_constraint_of e i =
     map_option (\<lambda>c. with_finishing (finishing e i) (constraint_row (out_of_patience e i) c))
       (Option.bind (e_streams e i) ss_constraint)"

definition sample_row ::
  "('b, 'r) env \<Rightarrow> logits \<Rightarrow> token_masker option \<Rightarrow> nat \<times> seq_id \<Rightarrow> ('b, 'r) sampling \<Rightarrow> ('b, 'r) sampling option" where
  "sample_row env l masker = (\<lambda>(k, i) (e, forks, sampled, lps). do {
     let ps = params_of e i;
     st \<leftarrow> e_streams e i;
     row \<leftarrow> logits_row k l;
     row \<leftarrow> apply_constraint (row_constraint_of e i) masker (eos_ids env) row;
     let (t, smp) = en_sample env row ps (ss_sampler st);
     let forks = (case e_pending_forks e i of Some extra \<Rightarrow> forks @ [(i, extra, row, ps)] | None \<Rightarrow> forks);
     c \<leftarrow> (case ss_constraint st of None \<Rightarrow> Some None | Some c \<Rightarrow> constraint_push (en_decode env [t]) c);
     lp \<leftarrow> (case logprobs ps of
               None \<Rightarrow> Some None
             | Some n \<Rightarrow> do { ensure (t < length row); Some (Some (en_logprobs env row n t)) });
     Some (e\<lparr>e_streams := (e_streams e)(i \<mapsto> st\<lparr>ss_sampler := en_observe env t smp, ss_constraint := c\<rparr>)\<rparr>,
           forks, sampled @ [t], lps @ [lp]) })"

section \<open>Streaming a row\<close>

definition emit_row ::
  "('b, 'r) env \<Rightarrow> row_logprob list \<Rightarrow> nat \<times> seq_id \<times> token \<Rightarrow>
   ('b, 'r) engine \<times> (string \<times> delta) list \<times> seq_id list \<Rightarrow>
   (('b, 'r) engine \<times> (string \<times> delta) list \<times> seq_id list) option" where
  "emit_row env lps = (\<lambda>(k, i, t) (e, evs, halted).
     if t \<in> set (eos_ids env) then Some (e, evs, halted)
     else case request_of e i of
       None \<Rightarrow> Some (e, evs, halted)
     | Some rid \<Rightarrow>
         (case e_streams e i of
            None \<Rightarrow> Some (e, evs, halted)
          | Some st \<Rightarrow> do {
              let sc = (case seqs (e_sched e) i of Some q \<Rightarrow> stop (params q) | None \<Rightarrow> default_stop);
              (text, d) \<leftarrow> detok_push (decode_bytes env) t (ss_detok st);
              let (txo, so) = emit_with_stop_strings sc text (ss_out st);
              let lp = (if k < length lps then lps ! k else None);
              Some (e\<lparr>e_streams := (e_streams e)(i \<mapsto> st\<lparr>ss_detok := d, ss_last_token := t, ss_out := so\<rparr>)\<rparr>,
                    (case txo of
                       None \<Rightarrow> evs
                     | Some txt \<Rightarrow> evs @ [(rid, Token (case e_choice_of e i of Some c \<Rightarrow> c | None \<Rightarrow> 0) txt t
                                              (map_option fst lp) (map_option snd lp))]),
                    if stopped so then halted @ [i] else halted) }))"

section \<open>Forking\<close>

definition fork_child ::
  "('b, 'r) env \<Rightarrow> string \<Rightarrow> token list \<Rightarrow> f32 list \<Rightarrow> sampling_params \<Rightarrow> nat \<times> seq_id \<Rightarrow>
   ('b, 'r) engine \<times> (string \<times> delta) list \<Rightarrow> ((error + unit) \<times> ('b, 'r) engine \<times> (string \<times> delta) list) option" where
  "fork_child env rid prompt row ps = (\<lambda>(k, i) (e, evs). do {
     let ch = u32_of k + 1;
     let (t, smp) = en_sample env row ps (en_new_sampler env (seed_for ps ch));
     let smp = en_observe env t smp;
     (r, s) \<leftarrow> seed_fork i t (e_sched e);
     let e = e\<lparr>e_sched := s\<rparr>;
     case r of
       Inl err \<Rightarrow> Some (Inl err, e, evs)
     | Inr _ \<Rightarrow> do {
         let st = (new_stream prompt smp None)\<lparr>ss_last_token := t\<rparr>;
         (text, d) \<leftarrow> detok_push (decode_bytes env) t (ss_detok st);
         let st = st\<lparr>ss_detok := d\<rparr>;
         let (txo, so) = (if t \<in> set (eos_ids env) then (None, ss_out st)
                        else emit_with_stop_strings (stop ps) text (ss_out st));
         Some (Inr (),
               e\<lparr>e_streams := (e_streams e)(i \<mapsto> st\<lparr>ss_out := so\<rparr>),
                 e_requests := assoc_insert i rid (e_requests e),
                 e_choice_of := (e_choice_of e)(i \<mapsto> ch)\<rparr>,
               (case txo of None \<Rightarrow> evs | Some txt \<Rightarrow> evs @ [(rid, Token ch txt t None None)])) } })"

fun fork_children ::
  "('b, 'r) env \<Rightarrow> string \<Rightarrow> token list \<Rightarrow> f32 list \<Rightarrow> sampling_params \<Rightarrow> (nat \<times> seq_id) list \<Rightarrow>
   ('b, 'r) engine \<times> (string \<times> delta) list \<Rightarrow> ((error + unit) \<times> ('b, 'r) engine \<times> (string \<times> delta) list) option" where
  "fork_children env rid prompt row ps [] (e, evs) = Some (Inr (), e, evs)"
| "fork_children env rid prompt row ps (c # cs) (e, evs) = do {
     (r, e, evs) \<leftarrow> fork_child env rid prompt row ps c (e, evs);
     case r of Inl err \<Rightarrow> Some (Inl err, e, evs) | Inr _ \<Rightarrow> fork_children env rid prompt row ps cs (e, evs) }"

definition fork_request ::
  "('b, 'r) env \<Rightarrow> fork_todo \<Rightarrow> ('b, 'r) engine \<times> (string \<times> delta) list \<Rightarrow>
   ((error + unit) \<times> ('b, 'r) engine \<times> (string \<times> delta) list) option" where
  "fork_request env = (\<lambda>(leader, extra, row, ps) (e, evs).
     case request_of e leader of
       None \<Rightarrow> Some (Inr (), e, evs)
     | Some rid \<Rightarrow> do {
         (r, s) \<leftarrow> fork leader extra (e_sched e);
         let e = e\<lparr>e_sched := s\<rparr>;
         case r of
           Inl err \<Rightarrow> Some (Inl err, e, evs)
         | Inr f \<Rightarrow>
             (case (if fork_copies f \<noteq> [] then en_copy_blocks env (fork_copies f) (e_backend e) else Inr (e_backend e)) of
                Inl err \<Rightarrow> Some (Inl err, e, evs)
              | Inr dev \<Rightarrow> do {
                  let e = e\<lparr>e_backend := dev\<rparr>;
                  prompt \<leftarrow> (case seqs (e_sched e) leader of
                               None \<Rightarrow> Some [] | Some q \<Rightarrow> slice_to (tokens q) (prompt_len q));
                  fork_children env rid prompt row ps (enumerate 0 (fork_ids f)) (e, evs) }) })"

definition fork_one ::
  "('b, 'r) env \<Rightarrow> fork_todo \<Rightarrow> ('b, 'r) engine \<times> (string \<times> delta) list \<Rightarrow>
   (('b, 'r) engine \<times> (string \<times> delta) list) option" where
  "fork_one env = (\<lambda>(leader, extra, row, ps) (e, evs).
     let forget = (\<lambda>e. e\<lparr>e_pending_forks := (e_pending_forks e)(leader := None)\<rparr>);
         one_choice = (\<lambda>e. case request_of e leader of
                              Some rid \<Rightarrow> e\<lparr>e_open_choices := (e_open_choices e)(rid \<mapsto> 1)\<rparr> | None \<Rightarrow> e)
     in if extra = 0 then Some (forget (one_choice e), evs)
        else do {
          (r, e, evs) \<leftarrow> fork_request env (leader, extra, row, ps) (e, evs);
          case r of
            Inr _ \<Rightarrow> Some (forget e, evs)
          | Inl _ \<Rightarrow>
              Some (forget (one_choice e),
                    (case request_of e leader of
                       None \<Rightarrow> evs
                     | Some rid \<Rightarrow> evs @ map (\<lambda>ch. (rid, Done ch FinishError 0 0)) [1..<u32_of extra + 1])) })"

section \<open>Completion\<close>

definition drain_one ::
  "seq_id \<times> sequence \<Rightarrow> ('b, 'r) engine \<times> step_output \<Rightarrow> ('b, 'r) engine \<times> step_output" where
  "drain_one = (\<lambda>(i, q) (e, out).
     let why = (case status q of Finished r \<Rightarrow> r | _ \<Rightarrow> FinishError);
         stream = e_streams e i;
         ch = (case e_choice_of e i of Some c \<Rightarrow> c | None \<Rightarrow> 0);
         rid = request_of e i;
         e = e\<lparr>e_streams := (e_streams e)(i := None), e_choice_of := (e_choice_of e)(i := None),
               e_pending_forks := (e_pending_forks e)(i := None), e_requests := assoc_remove i (e_requests e)\<rparr>;
         out = out\<lparr>did_work := True\<rparr>
     in case rid of
          None \<Rightarrow> (e, out)
        | Some rid \<Rightarrow>
            let flush = (case stream of
                           Some st \<Rightarrow>
                             if held (ss_out st) \<noteq> [] \<and> why \<noteq> Cancelled
                             then [(rid, Token ch (held (ss_out st)) (ss_last_token st) None None)] else []
                         | None \<Rightarrow> []);
                evs = events out @ flush @ [(rid, Done ch why (prompt_len q) (num_generated q))];
                (left, open) = (case e_open_choices e rid of
                                  Some n \<Rightarrow> (n - 1, (e_open_choices e)(rid \<mapsto> n - 1))
                                | None \<Rightarrow> (0, e_open_choices e))
            in if left = 0
               then (e\<lparr>e_open_choices := open(rid := None)\<rparr>,
                     out\<lparr>events := evs, completed := completed out @ [rid]\<rparr>)
               else (e\<lparr>e_open_choices := open\<rparr>, out\<lparr>events := evs\<rparr>))"

definition drain_all :: "('b, 'r) engine \<times> step_output \<Rightarrow> ('b, 'r) engine \<times> step_output" where
  "drain_all = (\<lambda>(e, out).
     let (fin, s) = drain_finished (e_sched e) in fold drain_one fin (e\<lparr>e_sched := s\<rparr>, out))"

section \<open>The step\<close>

definition started_events :: "('b, 'r) engine \<Rightarrow> step_plan \<Rightarrow> (string \<times> delta) list" where
  "started_events e plan =
     List.map_filter (\<lambda>(i, cached). map_option (\<lambda>rid. (rid, Started (e_worker_id e) cached)) (request_of e i))
       (started plan)"

definition needs_mask :: "('b, 'r) engine \<Rightarrow> step_plan \<Rightarrow> bool" where
  "needs_mask e plan =
     list_ex (\<lambda>i. Option.bind (Option.bind (e_streams e i) ss_constraint) constraint_machine \<noteq> None) (sampled_seqs plan)"

text \<open>
  From the logits of a plan to the state after its commit and its forks; the events come out in the
  order of the source.
\<close>

definition apply_plan ::
  "('b, 'r) env \<Rightarrow> step_plan \<Rightarrow> logits \<Rightarrow> (string \<times> delta) list \<Rightarrow> ('b, 'r) engine \<Rightarrow>
   (('b, 'r) engine \<times> (string \<times> delta) list) option" where
  "apply_plan env plan l evs e = do {
     let (masker, e) = (if needs_mask e plan then (case get_masker env e of (tm, e) \<Rightarrow> (Some tm, e)) else (None, e));
     (e, forks, sampled, lps) \<leftarrow>
       for_each (sample_row env l masker) (enumerate 0 (sampled_seqs plan)) (e, [], [], []);
     (e, evs, halted) \<leftarrow>
       for_each (emit_row env lps) (enumerate 0 (zip (sampled_seqs plan) sampled)) (e, evs, []);
     s \<leftarrow> for_each (\<lambda>i. finish_with i Stop) halted (e_sched e);
     s \<leftarrow> commit (en_blake3 env) plan sampled s;
     for_each (fork_one env) forks (e\<lparr>e_sched := s\<rparr>, evs) }"

definition engine_step ::
  "('b, 'r) env \<Rightarrow> ('b, 'r) engine \<Rightarrow> ((error + step_output) \<times> ('b, 'r) engine) option" where
  "engine_step env e = do {
     (plan, s) \<leftarrow> schedule (en_blake3 env) (e_sched e);
     e \<leftarrow> engine_spill_evicted env (e\<lparr>e_sched := s\<rparr>);
     let evs = started_events e plan;
     if batch_is_empty (batch plan) then
       (let (e, out) = drain_all (e, \<lparr>events = evs, completed = [], did_work = False\<rparr>) in Some (Inr out, e))
     else
       (case en_forward env (batch plan) (e_backend e) of
          (Inl err, dev) \<Rightarrow> Some (Inl err, e\<lparr>e_backend := dev\<rparr>)
        | (Inr l, dev) \<Rightarrow> do {
            (e, evs) \<leftarrow> apply_plan env plan l evs (e\<lparr>e_backend := dev\<rparr>);
            (let (e, out) = drain_all (e, \<lparr>events = evs, completed = [], did_work = True\<rparr>) in Some (Inr out, e)) }) }"

section \<open>Cancellation, failure and the engine thread\<close>

definition engine_cancel :: "string \<Rightarrow> ('b, 'r) engine \<Rightarrow> (bool \<times> ('b, 'r) engine) option" where
  "engine_cancel rid e = do {
     (r, s) \<leftarrow> cancel rid (e_sched e);
     Some (r \<noteq> None, e\<lparr>e_sched := s\<rparr>) }"

definition fail_all :: "string \<Rightarrow> ('b, 'r) engine \<Rightarrow> (step_output \<times> ('b, 'r) engine) option" where
  "fail_all msg e = do {
     let rids = map snd (e_requests e);
     s \<leftarrow> for_each (\<lambda>rid s. do { (_, s) \<leftarrow> cancel rid s; Some s }) rids (e_sched e);
     let (fin, s) = drain_finished s;
     Some (\<lparr>events = map (\<lambda>rid. (rid, Failed msg)) rids, completed = rids, did_work = True\<rparr>,
           e\<lparr>e_sched := s, e_streams := Map.empty, e_requests := []\<rparr>) }"

definition is_idle :: "('b, 'r) engine \<Rightarrow> bool" where
  "is_idle e = (num_running (e_sched e) = 0 \<and> num_waiting (e_sched e) = 0 \<and> \<not> has_finished (e_sched e))"

definition headroom :: "('b, 'r) engine \<Rightarrow> nat" where
  "headroom e = admission_headroom (e_sched e)"

text \<open>The methods \<open>sequence\<close> and \<open>forget\<close>.\<close>

definition stamp_delta :: "string \<Rightarrow> delta \<Rightarrow> ('b, 'r) engine \<Rightarrow> delta_msg \<times> ('b, 'r) engine" where
  "stamp_delta rid d e = (case stamp_with rid d (e_delta_seq e) of (m, sq) \<Rightarrow> (m, e\<lparr>e_delta_seq := sq\<rparr>))"

definition forget_stream :: "string \<Rightarrow> ('b, 'r) engine \<Rightarrow> ('b, 'r) engine" where
  "forget_stream rid e = e\<lparr>e_delta_seq := (e_delta_seq e)(rid := None)\<rparr>"

text \<open>The decoder behind the trait; \<open>show_error\<close> prints an error.\<close>

definition engine_ops :: "('b, 'r) env \<Rightarrow> (engine_error \<Rightarrow> string) \<Rightarrow> ('b, 'r) engine worker_engine" where
  "engine_ops env show_error =
     \<lparr>w_admit = (\<lambda>j e. map_option (\<lambda>(r, e). (map_sum show_error (\<lambda>_. ()) r, e)) (engine_admit env j e)),
      w_cancel = engine_cancel, w_fail_all = fail_all,
      w_step = (\<lambda>e. map_option (\<lambda>(r, e). (map_sum (\<lambda>err. show_error (CoreError err)) id r, e)) (engine_step env e)),
      w_is_idle = is_idle, w_headroom = headroom, w_sequence = stamp_delta, w_forget = forget_stream\<rparr>"

section \<open>Construction\<close>

text \<open>
  What \<open>Engine::new\<close> reads of the configuration and of the backend.  \<open>set_watermark\<close> is the reserve
  in blocks, rounded up from the configured fraction; \<open>set_fingerprint\<close> is the fingerprint of the
  weights, absent without a model directory; \<open>set_listing\<close> is what reading the spill directory gives.
\<close>

record engine_settings =
  set_model_id :: string
  set_fingerprint :: "string option"
  set_dtype :: dtype
  set_default_namespace :: string
  set_max_context :: nat
  set_max_concurrent_seqs :: nat
  set_max_batched_tokens :: nat
  set_prefill_chunk_tokens :: nat
  set_prefix_cache :: bool
  set_watermark :: nat
  set_spill :: bool
  set_spill_ram_bytes :: nat
  set_spill_max_bytes :: nat
  set_listing :: "dir_entry list option"
  set_num_blocks :: nat
  set_block_bytes :: nat

definition engine_new ::
  "('b, 'r) env \<Rightarrow> engine_settings \<Rightarrow> files \<Rightarrow> 'b \<Rightarrow> string \<Rightarrow> ('b, 'r) engine option" where
  "engine_new env st fs dev wid = do {
     let spec = en_spec env;
     let ns = ns_new (en_blake3 env) (set_model_id st)
                (case set_fingerprint st of Some f \<Rightarrow> f | None \<Rightarrow> ''unversioned'') (set_dtype st) None
                (set_default_namespace st);
     let c = \<lparr>max_concurrent_seqs = set_max_concurrent_seqs st, max_batched_tokens = set_max_batched_tokens st,
              prefill_chunk_tokens = set_prefill_chunk_tokens st,
              max_context = min (set_max_context st) (spec_max_context spec), cfg_block_size = BLOCK_SIZE,
              prefix_cache = set_prefix_cache st\<rparr>;
     p \<leftarrow> pool_new (set_num_blocks st) BLOCK_SIZE (set_watermark st);
     (spill, p, fs) \<leftarrow>
       (if set_spill st \<and> set_block_bytes st \<noteq> 0 then do {
          r \<leftarrow> open_store (en_disk env) (if set_spill_max_bytes st > 0 then Some (set_listing st) else None)
                 (set_spill_ram_bytes st) (set_spill_max_bytes st) fs;
          Some (case r of Inr (s, fs) \<Rightarrow> (Some s, track_evictions True p, fs) | Inl _ \<Rightarrow> (None, p, fs)) }
        else Some (None, p, fs));
     Some \<lparr>e_sched = scheduler_new c p ns (eos_ids env), e_backend = dev, e_streams = Map.empty,
           e_requests = [], e_choice_of = Map.empty, e_pending_forks = Map.empty, e_open_choices = Map.empty,
           e_delta_seq = Map.empty, e_worker_id = wid, e_spill = spill, e_files = fs, e_masker = None,
           e_schemas = Map.empty, e_namespace = ns\<rparr> }"

end
