(* ===== verification/Engine_Inv.thy ===== *)
theory Engine_Inv
  imports Worker_Engine Json_Compile
begin

text \<open>
  The invariant of the worker's engine and its preservation by admission, the step, cancellation and
  failure, for engines that serve one choice per request: no call panics, whatever the forward pass
  answers and whichever tokens the sampler picks.
\<close>

section \<open>What the environment promises\<close>

text \<open>
  The device gives back what was imported, the tokenizer satisfies \<open>decode_ok\<close>, the printer of schema
  values is not empty, a parsed object has distinct keys, a compiled schema fits its index type, a
  successful forward has a row of the vocabulary's size for each requested index, and the sampler
  picks an index of the row.
\<close>

definition env_ok :: "('b, 'r) env \<Rightarrow> bool" where
  "env_ok env =
     (kv_device (en_export env) (en_import env) \<and> decode_ok (decode_bytes env) \<and>
      (\<forall>j. en_canonical env j \<noteq> []) \<and> (\<forall>s. keys_distinct (en_json env s)) \<and>
      (\<forall>s ns. compile (en_canonical env) (en_json env s) = Inr ns \<longrightarrow> length ns < free_node) \<and>
      (\<forall>b d l d'. en_forward env b d = (Inr l, d') \<longrightarrow>
         0 < l_vocab_size l \<and> length (l_data l) = length (logits_indices b) * l_vocab_size l) \<and>
      (\<forall>row ps r. row \<noteq> [] \<longrightarrow> fst (en_sample env row ps r) < length row))"

definition env_masker :: "('b, 'r) env \<Rightarrow> token_masker" where
  "env_masker env = masker_new (map (\<lambda>i. en_decode env [i]) [0..<u32_of (vocab_size (en_spec env))])"

lemma env_masker_ok: "buckets_ok (env_masker env)"
  unfolding env_masker_def by (rule masker_new_ok) (simp add: u32_of_def)

section \<open>The invariant\<close>

definition stream_ok :: "('b, 'r) env \<Rightarrow> 'r seq_stream \<Rightarrow> bool" where
  "stream_ok env st =
     ((\<exists>prompt ts. detok_inv (decode_bytes env) prompt ts (ss_detok st)) \<and>
      (\<forall>c. ss_constraint st = Some c \<longrightarrow> constraint_ok c))"

text \<open>The part that does not concern the scheduler.\<close>

definition streams_inv :: "('b, 'r) env \<Rightarrow> ('b, 'r) engine \<Rightarrow> bool" where
  "streams_inv env e =
     ((\<forall>i st. e_streams e i = Some st \<longrightarrow> stream_ok env st) \<and>
      (\<forall>tm. e_masker e = Some tm \<longrightarrow> tm = env_masker env) \<and>
      (\<forall>k ns. e_schemas e k = Some ns \<longrightarrow> schema_wf ns) \<and>
      e_pending_forks e = Map.empty)"

abbreviation any_bytes :: "block_hash \<Rightarrow> bytes \<Rightarrow> bool" where
  "any_bytes \<equiv> \<lambda>_ _. True"

text \<open>Every live sequence is listed under its request, by the engine and by the scheduler.\<close>

definition requests_ok :: "('b, 'r) engine \<Rightarrow> bool" where
  "requests_ok e =
     (\<forall>i q. seqs (e_sched e) i = Some q \<longrightarrow>
        request_of e i = Some (request_id q) \<and> i \<in> set (sequences_of (request_id q) (e_sched e)))"

definition engine_inv :: "('b, 'r) env \<Rightarrow> ('b, 'r) engine \<Rightarrow> bool" where
  "engine_inv env e =
     (sched_inv (e_sched e) \<and> cfg_wide (cfg (e_sched e)) \<and> dom (seqs (e_sched e)) \<subseteq> dom (e_streams e) \<and>
      requests_ok e \<and> streams_inv env e \<and> (\<forall>s. e_spill e = Some s \<longrightarrow> store_coherent any_bytes s (e_files e)))"

section \<open>The spill tier\<close>

lemma tier_coherent:
  assumes "sched_inv (e_sched e)" "\<forall>s. e_spill e = Some s \<longrightarrow> store_coherent any_bytes s (e_files e)"
  shows "coherent ex any_bytes (tier_of e)"
  using assms by (auto simp: coherent_def tier_of_def agrees_def sched_inv_def sinv_def split: sum.splits)

lemma with_tier_fields [simp]:
  "e_streams (with_tier t e) = e_streams e" "e_requests (with_tier t e) = e_requests e"
  "e_choice_of (with_tier t e) = e_choice_of e" "e_pending_forks (with_tier t e) = e_pending_forks e"
  "e_open_choices (with_tier t e) = e_open_choices e" "e_masker (with_tier t e) = e_masker e"
  "e_schemas (with_tier t e) = e_schemas e" "e_sched (with_tier t e) = (e_sched e)\<lparr>pool := t_pool t\<rparr>"
  "e_spill (with_tier t e) = t_spill t" "e_files (with_tier t e) = t_files t" "e_delta_seq (with_tier t e) = e_delta_seq e"
  "e_namespace (with_tier t e) = e_namespace e" "e_worker_id (with_tier t e) = e_worker_id e"
  by (simp_all add: with_tier_def)

lemma with_tier_inv:
  assumes "engine_inv env e" "coherent ex any_bytes t" "same_use (pool (e_sched e)) (t_pool t)"
  shows "engine_inv env (with_tier t e)"
proof -
  have "sched_inv ((e_sched e)\<lparr>pool := t_pool t\<rparr>)"
    using sinv_same_use [of "running (e_sched e)" "{}" "e_sched e" "t_pool t"] assms
    by (simp add: sched_inv_def engine_inv_def coherent_def)
  with assms(1,2) show ?thesis
    by (auto simp: engine_inv_def streams_inv_def coherent_def requests_ok_def request_of_def sequences_of_def)
qed

lemma engine_spill_evicted_ok:
  assumes "engine_inv env e"
  shows "\<exists>t. engine_spill_evicted env e = Some (with_tier t e) \<and> engine_inv env (with_tier t e) \<and>
    pool_inv (t_pool t) \<and> same_use (pool (e_sched e)) (t_pool t)"
proof -
  have coh: "coherent (en_export env) any_bytes (tier_of e)" by (rule tier_coherent) (use assms in \<open>simp_all add: engine_inv_def\<close>)
  from spill_evicted_ok [OF coh, of "en_disk env"] obtain t where
    t: "spill_evicted (en_export env) (en_disk env) (tier_of e) = Some t" "coherent (en_export env) any_bytes t"
      "t_pool t = (if e_spill e = None then pool (e_sched e) else (pool (e_sched e))\<lparr>evicted_content := []\<rparr>)"
    by (auto simp: tier_of_def)
  have "same_use (pool (e_sched e)) (t_pool t)" using t(3) by simp
  with with_tier_inv [OF assms t(2)] t show ?thesis by (auto simp: engine_spill_evicted_def coherent_def)
qed

lemma engine_promote_ok:
  assumes "env_ok env" "engine_inv env e"
  shows "\<exists>t. engine_promote env prompt e = Some (with_tier t e) \<and> engine_inv env (with_tier t e)"
proof -
  have coh: "coherent (en_export env) any_bytes (tier_of e)" by (rule tier_coherent) (use assms in \<open>simp_all add: engine_inv_def\<close>)
  have dev: "kv_device (en_export env) (en_import env)" using assms(1) by (simp add: env_ok_def)
  from kv_device.promote_from_spill_ok [OF dev coh, of "en_blake3 env" "en_disk env" "e_namespace e" prompt] obtain t where
    t: "promote_from_spill (en_blake3 env) (en_export env) (en_import env) (en_disk env) (e_namespace e) prompt (tier_of e) = Some t"
      "coherent (en_export env) any_bytes t" "same_use (pool (e_sched e)) (t_pool t)" by (auto simp: tier_of_def)
  with with_tier_inv [OF assms(2) t(2,3)] show ?thesis by (auto simp: engine_promote_def)
qed

section \<open>Admission\<close>

lemma get_masker_ok:
  assumes "streams_inv env e"
  shows "\<exists>e'. get_masker env e = (env_masker env, e') \<and> streams_inv env e' \<and> e' = e\<lparr>e_masker := e_masker e'\<rparr>"
  using assms by (auto simp: get_masker_def streams_inv_def env_masker_def Let_def split: option.splits)

lemma compile_format_ok:
  assumes "env_ok env" "streams_inv env e" "compile_format env f e = (r, e')"
  shows "streams_inv env e' \<and> e' = e\<lparr>e_schemas := e_schemas e'\<rparr> \<and> (\<forall>ns. r = Inr ns \<longrightarrow> schema_wf ns)"
proof -
  have any: "schema_wf schema_any" by (simp add: schema_wf_def arena_wf_def schema_any_def free_node_def)
  have wf: "schema_wf (with_any_node ns)" if "compile (en_canonical env) (en_json env s) = Inr ns" for s ns
    using assms(1) that compile_arena_wf [of "en_canonical env" "en_json env s" ns] with_any_node_wf [of ns]
    by (simp add: env_ok_def)
  define key where "key = (case f of JsonObject \<Rightarrow> ''{}'' | JsonSchema s \<Rightarrow> s)"
  define x where "x = (case f of JsonObject \<Rightarrow> Inr schema_any
    | JsonSchema s \<Rightarrow> map_sum id with_any_node (compile (en_canonical env) (en_json env s)))"
  have x: "\<forall>ns. x = Inr ns \<longrightarrow> schema_wf ns"
  proof (cases f)
    case (JsonSchema s)
    then show ?thesis using wf [of s] by (cases "compile (en_canonical env) (en_json env s)") (simp_all add: x_def)
  qed (simp add: x_def any)
  have "compile_format env f e = (case e_schemas e key of Some ns \<Rightarrow> (Inr ns, e) | None \<Rightarrow>
      (case x of Inl err \<Rightarrow> (Inl (BadSchema err), e) | Inr ns \<Rightarrow> (Inr ns, e\<lparr>e_schemas := (e_schemas e)(key \<mapsto> ns)\<rparr>)))"
    unfolding compile_format_def Let_def key_def x_def ..
  with assms(2,3) x show ?thesis by (auto simp: streams_inv_def split: option.splits sum.splits if_splits)
qed

lemma job_constraint_ok:
  assumes "env_ok env" "streams_inv env e" "job_constraint env ps e = (r, e')"
  shows "streams_inv env e' \<and> e' = e\<lparr>e_schemas := e_schemas e', e_masker := e_masker e'\<rparr> \<and>
    (\<forall>k. r = Inr (Some k) \<longrightarrow> constraint_ok k)"
proof (cases "resp_format ps")
  case None
  with assms show ?thesis by (auto simp: job_constraint_def)
next
  case (Some f)
  obtain r1 e1 where 1: "compile_format env f e = (r1, e1)" by fastforce
  from compile_format_ok [OF assms(1,2) 1] have e1: "streams_inv env e1" "e1 = e\<lparr>e_schemas := e_schemas e1\<rparr>"
    "\<forall>ns. r1 = Inr ns \<longrightarrow> schema_wf ns" by auto
  from get_masker_ok [OF e1(1)] obtain e2 where
    e2: "get_masker env e1 = (env_masker env, e2)" "streams_inv env e2" "e2 = e1\<lparr>e_masker := e_masker e2\<rparr>" by blast
  have "e_schemas e2 = e_schemas e1" by (subst e2(3)) simp
  then have e12: "e2 = e\<lparr>e_schemas := e_schemas e2, e_masker := e_masker e2\<rparr>" using e1(2) e2(3) by metis
  show ?thesis
  proof (cases r1)
    case (Inl err)
    with assms(3) Some 1 e1 show ?thesis by (auto simp: job_constraint_def)
  next
    case (Inr ns)
    with assms(3) Some 1 e2(1) have "e' = e2" "\<forall>k. r = Inr (Some k) \<longrightarrow> constraint_ok k"
      using e1(3) by (auto simp: job_constraint_def constraint_ok_def machine_new_ok split: option.splits if_splits)
    with e2(2) e12 show ?thesis by blast
  qed
qed

lemma new_stream_ok:
  assumes "env_ok env" "\<forall>k. c = Some k \<longrightarrow> constraint_ok k"
  shows "stream_ok env (new_stream prompt smp c)"
  using assms with_prompt_inv [of "decode_bytes env" prompt] by (auto simp: stream_ok_def new_stream_def env_ok_def)

lemma engine_inv_other_fields:
  assumes "engine_inv env e" "streams_inv env e'" "e_sched e' = e_sched e" "e_streams e' = e_streams e"
    "e_spill e' = e_spill e" "e_files e' = e_files e" "e_requests e' = e_requests e"
  shows "engine_inv env e'"
  using assms by (simp add: engine_inv_def requests_ok_def request_of_def)

lemma map_of_assoc_insert [simp]: "map_of (assoc_insert k v m) = (map_of m)(k \<mapsto> v)"
  by (auto simp: assoc_insert_def map_of_filter_in fun_eq_iff) (induction m; auto)

lemma map_of_assoc_remove [simp]: "map_of (assoc_remove k m) = (map_of m)(k := None)"
  by (rule ext, induction m) (auto simp: assoc_remove_def)

lemma in_push_request:
  assumes "by_request s' = push_request rid k (by_request s)"
  shows "i \<in> set (sequences_of r s') \<longleftrightarrow> i \<in> set (sequences_of r s) \<or> (i = k \<and> r = rid)"
  using assms by (auto simp: sequences_of_def push_request_def split: option.splits)

lemma admit_requests_ok:
  assumes "requests_ok e" "admit rid prompt ps ns (e_sched e) = (Inr i, s)" "e_sched e' = s"
    "e_requests e' = assoc_insert i rid (e_requests e)" "sched_inv (e_sched e)"
  shows "requests_ok e'"
proof -
  have s: "seqs s = (seqs (e_sched e))(i \<mapsto> sequence_new rid prompt ps ns)" "i = next_id (e_sched e)"
    "by_request s = push_request rid i (by_request (e_sched e))"
    using assms(2) by (auto simp: admit_def Let_def split: if_splits)
  with assms show ?thesis
    by (auto simp: requests_ok_def request_of_def in_push_request [OF s(3)] sequence_new_def)
qed

lemma engine_admit_ok:
  fixes env :: "('b, 'r) env"
  assumes env: "env_ok env" and inv: "engine_inv env e" and one: "choices_of (job_params j) \<le> 1"
  shows "\<exists>r e'. engine_admit env j e = Some (r, e') \<and> engine_inv env e'"
proof -
  obtain r1 e1 where 1: "job_constraint env (job_params j) e = (r1, e1)" by fastforce
  have "streams_inv env e" using inv by (simp add: engine_inv_def)
  from job_constraint_ok [OF env this 1] have s1: "streams_inv env e1"
    "e1 = e\<lparr>e_schemas := e_schemas e1, e_masker := e_masker e1\<rparr>" "\<forall>k. r1 = Inr (Some k) \<longrightarrow> constraint_ok k" by auto
  have f1: "e_sched e1 = e_sched e" "e_streams e1 = e_streams e" "e_spill e1 = e_spill e" "e_files e1 = e_files e"
    "e_requests e1 = e_requests e" by (subst s1(2), simp)+
  have inv1: "engine_inv env e1" by (rule engine_inv_other_fields [OF inv s1(1) f1])
  show ?thesis
  proof (cases r1)
    case (Inl err)
    with 1 inv1 show ?thesis by (simp add: engine_admit_def)
  next
    case (Inr c)
    from engine_promote_ok [OF env inv1, of "prompt_tokens j"] obtain t where
      t: "engine_promote env (prompt_tokens j) e1 = Some (with_tier t e1)" "engine_inv env (with_tier t e1)" by blast
    let ?e = "with_tier t e1"
    let ?a = "admit (job_request_id j) (prompt_tokens j) (job_params j) (job_namespace j) (e_sched ?e)"
    have sinv: "sched_inv (snd ?a)"
    proof -
      have "running (snd ?a) = running (e_sched ?e)" by (auto simp: admit_def Let_def)
      moreover have "sinv (running (e_sched ?e)) {} (e_sched ?e)" using t(2) by (simp add: engine_inv_def sched_inv_def)
      ultimately show ?thesis unfolding sched_inv_def by (metis admit_ok)
    qed
    have ok: "stream_ok env (new_stream (prompt_tokens j) smp c)" for smp
      using s1(3) Inr by (intro new_stream_ok [OF env]) auto
    show ?thesis
    proof (cases "prompt_tokens j = [] \<or> length (prompt_tokens j) \<ge> max_context (cfg (e_sched ?e))")
      case True
      then have "\<exists>err. ?a = (Inl err, e_sched ?e)" by (cases "prompt_tokens j = []") (simp_all add: admit_def)
      then obtain err where "?a = (Inl err, e_sched ?e)" by blast
      with 1 Inr t show ?thesis by (auto simp: engine_admit_def engine_inv_def streams_inv_def requests_ok_def request_of_def sequences_of_def)
    next
      case False
      then obtain i s where a: "?a = (Inr i, s)" "dom (seqs s) = insert i (dom (seqs (e_sched ?e)))" "cfg s = cfg (e_sched ?e)"
        by (auto simp: admit_def Let_def)
      have "\<not> 1 < choices_of (job_params j)" using one by simp
      moreover have "requests_ok e'" if "e_sched e' = s" "e_requests e' = assoc_insert i (job_request_id j) (e_requests ?e)" for e' :: "('b, 'r) engine"
        using admit_requests_ok [OF _ a(1) that] t(2) by (simp add: engine_inv_def)
      ultimately show ?thesis
        using 1 Inr t a sinv ok [of "en_new_sampler env (seed (job_params j))"]
        by (auto simp: engine_admit_def engine_inv_def streams_inv_def Let_def)
    qed
  qed
qed

section \<open>Sampling\<close>

lemma row_of_logits:
  assumes "length (l_data l) = n * l_vocab_size l" "k < n"
  shows "\<exists>row. logits_row k l = Some row \<and> length row = l_vocab_size l"
proof -
  have "(k + 1) * l_vocab_size l \<le> n * l_vocab_size l" using assms(2) by (intro mult_le_mono1) simp
  with assms(1) show ?thesis by (auto simp: logits_row_def)
qed

text \<open>What sampling keeps: everything but the streams.\<close>

definition only_streams :: "('b, 'r) engine \<Rightarrow> ('b, 'r) engine \<Rightarrow> bool" where
  "only_streams e e' = (e' = e\<lparr>e_streams := e_streams e'\<rparr> \<and> dom (e_streams e') = dom (e_streams e))"

lemma only_streams_refl [simp]: "only_streams e e"
  by (simp add: only_streams_def)

lemma only_streams_upd:
  assumes "only_streams e0 e" "i \<in> dom (e_streams e)"
  shows "only_streams e0 (e\<lparr>e_streams := (e_streams e)(i \<mapsto> st)\<rparr>)"
proof -
  have "e = e0\<lparr>e_streams := e_streams e\<rparr>" using assms(1) by (simp add: only_streams_def)
  then have "e\<lparr>e_streams := (e_streams e)(i \<mapsto> st)\<rparr> = e0\<lparr>e_streams := (e_streams e)(i \<mapsto> st)\<rparr>"
    by (metis engine.update_convs(3) engine.surjective)
  with assms show ?thesis by (auto simp: only_streams_def)
qed

lemma only_streams_fields:
  assumes "only_streams e e'"
  shows "e_sched e' = e_sched e" "e_masker e' = e_masker e" "e_schemas e' = e_schemas e" "e_requests e' = e_requests e"
    "e_pending_forks e' = e_pending_forks e" "e_spill e' = e_spill e" "e_files e' = e_files e" "e_choice_of e' = e_choice_of e"
    "e_open_choices e' = e_open_choices e" "e_backend e' = e_backend e" "e_delta_seq e' = e_delta_seq e"
    "dom (e_streams e') = dom (e_streams e)"
proof -
  have e: "e' = e\<lparr>e_streams := e_streams e'\<rparr>" using assms by (simp add: only_streams_def)
  show "e_sched e' = e_sched e" "e_masker e' = e_masker e" "e_schemas e' = e_schemas e" "e_requests e' = e_requests e"
    "e_pending_forks e' = e_pending_forks e" "e_spill e' = e_spill e" "e_files e' = e_files e" "e_choice_of e' = e_choice_of e"
    "e_open_choices e' = e_open_choices e" "e_backend e' = e_backend e" "e_delta_seq e' = e_delta_seq e"
    by (subst e, simp)+
  show "dom (e_streams e') = dom (e_streams e)" using assms by (simp add: only_streams_def)
qed

lemma constraint_row_machine:
  assumes "stream_ok env st" "ss_constraint st = Some c" "with_finishing f (constraint_row p c) = RowActive m fin"
  shows "c = CActive m" "machine_ok m"
  using assms by (cases c; auto simp: stream_ok_def constraint_ok_def)+

lemma sample_row_ok:
  assumes env: "env_ok env" and st: "e_streams e i = Some st" "stream_ok env st"
    and l: "length (l_data l) = n * l_vocab_size l" "k < n" "0 < l_vocab_size l"
    and mk: "\<forall>tm. masker = Some tm \<longrightarrow> tm = env_masker env"
    and pend: "e_pending_forks e i = None"
  shows "\<exists>st' t lp. sample_row env l masker (k, i) (e, forks, sampled, lps) =
      Some (e\<lparr>e_streams := (e_streams e)(i \<mapsto> st')\<rparr>, forks, sampled @ [t], lps @ [lp]) \<and> stream_ok env st' \<and>
      ss_detok st' = ss_detok st \<and> ss_out st' = ss_out st"
proof -
  from row_of_logits [OF l(1,2)] obtain row where row: "logits_row k l = Some row" "length row = l_vocab_size l" by blast
  have "\<forall>m fin. row_constraint_of e i = Some (RowActive m fin) \<longrightarrow> machine_ok m"
    using constraint_row_machine(2) [OF st(2)] st(1) by (auto simp: row_constraint_of_def)
  moreover have "\<forall>tm. masker = Some tm \<longrightarrow> buckets_ok tm" using mk env_masker_ok by metis
  ultimately obtain row' where r': "apply_constraint (row_constraint_of e i) masker (eos_ids env) row = Some row'"
    "length row' = length row" using apply_constraint_total by blast
  obtain t smp where t: "en_sample env row' (params_of e i) (ss_sampler st) = (t, smp)" by fastforce
  have "row' \<noteq> []" using r'(2) row(2) l(3) by auto
  then have lt: "t < length row'" using env t unfolding env_ok_def by (metis fst_conv)
  obtain c where c: "(case ss_constraint st of None \<Rightarrow> Some None | Some c \<Rightarrow> constraint_push (en_decode env [t]) c) = Some c"
    "\<forall>k. c = Some k \<longrightarrow> constraint_ok k"
    using st(2) constraint_push_ok [of _ "en_decode env [t]"] by (cases "ss_constraint st") (auto simp: stream_ok_def)
  let ?st = "st\<lparr>ss_sampler := en_observe env t smp, ss_constraint := c\<rparr>"
  have "stream_ok env ?st" using st(2) c(2) by (simp add: stream_ok_def)
  then show ?thesis
    using st(1) row(1) r'(1) t c(1) lt pend
    by (cases "logprobs (params_of e i)") (auto simp: sample_row_def Let_def run_simps)
qed

end
