(* ===== verification/Engine_Step.thy ===== *)
theory Engine_Step
  imports Engine_Inv
begin

text \<open>
  The engine's invariant through the step, cancellation, failure and the engine thread's turn
  (\<open>vapi-worker/src/engine.rs\<close>, \<open>vapi-worker/src/runner.rs\<close>), for requests with one choice.
\<close>

section \<open>What the scheduler keeps\<close>

text \<open>The index of requests, the request of every live sequence, and the configuration.\<close>

definition owners :: "scheduler \<Rightarrow> (string \<rightharpoonup> seq_id list) \<times> (seq_id \<rightharpoonup> string) \<times> scheduler_config" where
  "owners s = (by_request s, \<lambda>i. map_option request_id (seqs s i), cfg s)"

lemma for_each_keeps:
  assumes "\<And>x s s'. f x s = Some s' \<Longrightarrow> g s' = g s" "for_each f xs s = Some s'"
  shows "g s' = g s"
  using assms(2) by (induction xs arbitrary: s) (auto simp: bind_eq_Some_conv dest: assms(1))

lemma finish_owners: "finish i r s = Some s' \<Longrightarrow> owners s' = owners s"
  by (auto simp: finish_def owners_def fun_eq_iff bind_eq_Some_conv split: option.splits if_splits)

lemma cancel_owners: "cancel rid s = Some (r, s') \<Longrightarrow> owners s' = owners s"
  using for_each_keeps [of "\<lambda>i. finish i Cancelled" owners] finish_owners
  by (auto simp: cancel_def bind_eq_Some_conv split: option.splits)

lemma append_sampled_owners: "append_sampled x s = Some s' \<Longrightarrow> owners s' = owners s"
proof (cases x)
  case (Pair i t)
  have upd: "owners (s\<lparr>seqs := (seqs s)(i \<mapsto> push_token t q)\<rparr>) = owners s" if "seqs s i = Some q" for q
    using that by (auto simp: owners_def push_token_def fun_eq_iff)
  assume "append_sampled x s = Some s'"
  then show ?thesis
    using Pair upd by (auto simp: append_sampled_def Let_def split: option.splits dest!: finish_owners)
qed

lemma advance_all_owners: "advance_all cu ids s = Some s' \<Longrightarrow> owners s' = owners s"
  unfolding advance_all_def
  by (erule for_each_keeps [rotated])
    (auto simp: advance_one_def advance_computed_def owners_def fun_eq_iff bind_eq_Some_conv Let_def
      split: option.splits if_splits)

lemma publish_one_owners: "publish_one blake3 i s = Some s' \<Longrightarrow> owners s' = owners s"
  by (auto simp: publish_one_def owners_def fun_eq_iff bind_eq_Some_conv Let_def namespace_for_def
      split: option.splits if_splits prod.splits)

lemma commit_owners:
  assumes "commit blake3 plan sampled s = Some s'"
  shows "owners s' = owners s"
proof -
  from assms obtain s1 s2 where s: "advance_all (cu_seqlens_q (batch plan)) (batch_seqs plan) s = Some s1"
    "for_each append_sampled (zip (sampled_seqs plan) sampled) s1 = Some s2" "publish_full_blocks blake3 plan s2 = Some s'"
    by (auto simp: commit_def bind_eq_Some_conv)
  have "owners s1 = owners s" by (rule advance_all_owners [OF s(1)])
  moreover have "owners s2 = owners s1" by (rule for_each_keeps [OF append_sampled_owners s(2)])
  moreover have "owners s' = owners s2"
    using s(3) for_each_keeps [OF publish_one_owners] by (auto simp: publish_full_blocks_def split: if_splits)
  ultimately show ?thesis by simp
qed

lemma sched_frame_owners:
  assumes "sched_frame s s'"
  shows "owners s' = owners s"
proof -
  have "map_option request_id (seqs s' i) = map_option request_id (seqs s i)" for i
    using assms unfolding sched_frame_def by (metis (no_types, lifting) option.rel_cases option.simps(8,9) seq_frame_def)
  with assms show ?thesis by (simp add: owners_def sched_frame_def fun_eq_iff)
qed

lemma owners_dom: "owners s' = owners s \<Longrightarrow> dom (seqs s') = dom (seqs s) \<and> cfg s' = cfg s"
  by (auto simp: owners_def fun_eq_iff dom_def) (metis map_option_is_None option.distinct(1) not_None_eq)+

text \<open>So the engine's invariant survives whatever keeps them.\<close>

lemma owners_requests_ok:
  assumes "requests_ok e" "owners (e_sched e') = owners (e_sched e)" "e_requests e' = e_requests e"
  shows "requests_ok e'"
  unfolding requests_ok_def
proof (intro allI impI)
  fix i q assume q: "seqs (e_sched e') i = Some q"
  have o: "by_request (e_sched e') = by_request (e_sched e)"
    "map_option request_id (seqs (e_sched e) i) = map_option request_id (seqs (e_sched e') i)"
    using assms(2) by (simp_all add: owners_def fun_eq_iff)
  then obtain q0 where "seqs (e_sched e) i = Some q0" "request_id q0 = request_id q" using q by auto
  moreover have "sequences_of r (e_sched e') = sequences_of r (e_sched e)" for r using o(1) by (simp add: sequences_of_def)
  ultimately show "request_of e' i = Some (request_id q) \<and> i \<in> set (sequences_of (request_id q) (e_sched e'))"
    using assms(1,3) unfolding requests_ok_def request_of_def by metis
qed

lemma engine_inv_sched:
  assumes "engine_inv env e" "sched_inv s" "owners s = owners (e_sched e)"
  shows "engine_inv env (e\<lparr>e_sched := s\<rparr>)"
  using assms owners_requests_ok [of e "e\<lparr>e_sched := s\<rparr>"] owners_dom [OF assms(3)]
  by (simp add: engine_inv_def streams_inv_def)

lemma engine_inv_streams:
  assumes "engine_inv env e" "only_streams e e'" "streams_inv env e'"
  shows "engine_inv env e'"
proof -
  note f = only_streams_fields [OF assms(2)]
  have "requests_ok e'" by (rule owners_requests_ok [of e]) (use assms(1) f in \<open>simp_all add: engine_inv_def\<close>)
  with assms(1,3) f show ?thesis by (simp add: engine_inv_def)
qed

text \<open>What a step leaves alone until it drains.\<close>

definition kept :: "('b, 'r) engine \<Rightarrow> ('b, 'r) engine \<Rightarrow> bool" where
  "kept e e' =
     (e_open_choices e' = e_open_choices e \<and> e_choice_of e' = e_choice_of e \<and> e_requests e' = e_requests e \<and>
      e_delta_seq e' = e_delta_seq e \<and> owners (e_sched e') = owners (e_sched e))"

lemma kept_refl [simp]: "kept e e"
  by (simp add: kept_def)

lemma kept_trans: "kept e e1 \<Longrightarrow> kept e1 e2 \<Longrightarrow> kept e e2"
  by (simp add: kept_def)

lemma kept_sched: "owners s = owners (e_sched e) \<Longrightarrow> kept e (e\<lparr>e_sched := s\<rparr>)"
  by (simp add: kept_def)

lemma kept_streams: "only_streams e e' \<Longrightarrow> kept e e'"
  by (simp add: kept_def only_streams_fields)

lemma kept_tier [simp]: "kept e (with_tier t e)"
  by (simp add: kept_def owners_def)

lemma kept_backend [simp]: "kept e (e\<lparr>e_backend := dev\<rparr>)"
  by (simp add: kept_def)

section \<open>The sampling and streaming loops\<close>

lemma only_streams_trans: "only_streams e e1 \<Longrightarrow> only_streams e1 e2 \<Longrightarrow> only_streams e e2"
  unfolding only_streams_def
  by (metis (no_types, lifting) engine.ext_inject engine.surjective engine.update_convs(3))

lemma streams_inv_upd:
  "streams_inv env e \<Longrightarrow> stream_ok env st \<Longrightarrow> streams_inv env (e\<lparr>e_streams := (e_streams e)(i \<mapsto> st)\<rparr>)"
  by (auto simp: streams_inv_def)

lemma sample_rows_ok:
  assumes env: "env_ok env" and l: "length (l_data l) = n * l_vocab_size l" "0 < l_vocab_size l"
    and mk: "\<forall>tm. masker = Some tm \<longrightarrow> tm = env_masker env"
    and "streams_inv env e" "set is \<subseteq> dom (e_streams e)" "k + length is \<le> n"
  shows "\<exists>e' ts lps'. for_each (sample_row env l masker) (enumerate k is) (e, forks, sampled, lps) =
      Some (e', forks, sampled @ ts, lps @ lps') \<and> length ts = length is \<and> only_streams e e' \<and> streams_inv env e'"
  using assms(5-)
proof (induction "is" arbitrary: k e sampled lps)
  case (Cons i "is")
  from Cons.prems(2) obtain st where st: "e_streams e i = Some st" by auto
  then have ok: "stream_ok env st" using Cons.prems(1) by (auto simp: streams_inv_def)
  have kn: "k < n" "e_pending_forks e i = None" using Cons.prems by (simp_all add: streams_inv_def)
  from sample_row_ok [OF env st ok l(1) kn(1) l(2) mk kn(2)] obtain st' t lp where
    1: "sample_row env l masker (k, i) (e, forks, sampled, lps) =
      Some (e\<lparr>e_streams := (e_streams e)(i \<mapsto> st')\<rparr>, forks, sampled @ [t], lps @ [lp])" "stream_ok env st'" by blast
  let ?e = "e\<lparr>e_streams := (e_streams e)(i \<mapsto> st')\<rparr>"
  have os: "only_streams e ?e" using st by (intro only_streams_upd) auto
  have s: "streams_inv env ?e" by (rule streams_inv_upd [OF Cons.prems(1) 1(2)])
  have d: "set is \<subseteq> dom (e_streams ?e)" using Cons.prems(2) by auto
  have n: "Suc k + length is \<le> n" using Cons.prems(3) by simp
  from Cons.IH [OF s d n, of "sampled @ [t]" "lps @ [lp]"] obtain e' ts lps' where
    2: "for_each (sample_row env l masker) (enumerate (Suc k) is) (?e, forks, sampled @ [t], lps @ [lp]) =
      Some (e', forks, (sampled @ [t]) @ ts, (lps @ [lp]) @ lps')" "length ts = length is" "only_streams ?e e'" "streams_inv env e'" by blast
  have "only_streams e e'" by (rule only_streams_trans [OF os 2(3)])
  with 1(1) 2 show ?case by (intro exI [of _ e'] exI [of _ "t # ts"] exI [of _ "lp # lps'"]) simp
qed simp

lemma emit_row_ok:
  assumes env: "env_ok env" and s: "streams_inv env e"
  shows "\<exists>e' evs' halted'. emit_row env lps x (e, evs, halted) = Some (e', evs', halted') \<and>
    only_streams e e' \<and> streams_inv env e' \<and> (\<forall>y \<in> set evs'. y \<in> set evs \<or> \<not> is_terminal (snd y))"
proof -
  obtain k i t where x: "x = (k, i, t)" by (cases x)
  show ?thesis
  proof (cases "t \<in> set (eos_ids env) \<or> request_of e i = None \<or> e_streams e i = None")
    case True
    with s show ?thesis by (auto simp: emit_row_def x split: option.splits)
  next
    case False
    then obtain rid st where st: "request_of e i = Some rid" "e_streams e i = Some st" by auto
    then have "stream_ok env st" using s by (auto simp: streams_inv_def)
    then obtain p ts where d: "detok_inv (decode_bytes env) p ts (ss_detok st)" "\<forall>c. ss_constraint st = Some c \<longrightarrow> constraint_ok c"
      by (auto simp: stream_ok_def)
    have "decode_ok (decode_bytes env)" using env by (simp add: env_ok_def)
    from detok_push_inv [OF this d(1), of t] obtain delta d' where
      d': "detok_push (decode_bytes env) t (ss_detok st) = Some (delta, d')" "detok_inv (decode_bytes env) p (ts @ [t]) d'" by blast
    have ok: "stream_ok env (st\<lparr>ss_detok := d', ss_last_token := t, ss_out := so\<rparr>)" for so
      using d' d(2) by (auto simp: stream_ok_def)
    show ?thesis
      using False st d'(1) streams_inv_upd [OF s ok, of i] only_streams_upd [of e e i]
      by (cases "fst (emit_with_stop_strings (case seqs (e_sched e) i of Some q \<Rightarrow> stop (params q) | None \<Rightarrow> default_stop)
          delta (ss_out st))") (auto simp: emit_row_def x Let_def split: prod.splits)
  qed
qed

lemma emit_rows_ok:
  fixes env :: "('b, 'r) env"
  assumes env: "env_ok env" and "streams_inv env e"
  shows "\<exists>e' evs' halted'. for_each (emit_row env lps) xs (e, evs, halted) = Some (e', evs', halted') \<and>
    only_streams e e' \<and> streams_inv env e' \<and> (\<forall>y \<in> set evs'. y \<in> set evs \<or> \<not> is_terminal (snd y))"
proof -
  let ?I = "\<lambda>_ (e', evs' :: (string \<times> delta) list, _ :: seq_id list). only_streams e e' \<and> streams_inv env e' \<and>
    (\<forall>y \<in> set evs'. y \<in> set evs \<or> \<not> is_terminal (snd y))"
  have "\<exists>r. for_each (emit_row env lps) xs (e, evs, halted) = Some r \<and> ?I [] r"
  proof (rule for_each_total [where I = ?I])
    fix x xs' r assume I: "?I (x # xs') r"
    obtain e1 ev1 h1 where r: "r = (e1, ev1, h1)" by (cases r)
    with I have 1: "only_streams e e1" "streams_inv env e1" "\<forall>y \<in> set ev1. y \<in> set evs \<or> \<not> is_terminal (snd y)" by auto
    from emit_row_ok [OF env 1(2), of lps x ev1 h1] only_streams_trans [OF 1(1)] 1(3)
    show "\<exists>r'. emit_row env lps x r = Some r' \<and> ?I xs' r'" unfolding r by fastforce
  qed (use assms(2) in simp)
  then show ?thesis by auto
qed

section \<open>Applying a plan\<close>

lemma length_row_logits: "length (row_logits a rows) = length (filter row_completes rows)"
  by (induction a rows rule: row_logits.induct) auto

lemma plan_final_sampled:
  assumes "plan_final s es plan"
  shows "length (logits_indices (batch plan)) = length (sampled_seqs plan)" "set (sampled_seqs plan) \<subseteq> dom (seqs s)"
proof -
  from assms obtain plan0 where rep: "plan_rep s (running s) es plan0"
    and p: "sampled_seqs plan = sampled_seqs plan0" "logits_indices (batch plan) = logits_indices (batch plan0)"
    by (auto simp: plan_final_def)
  show "length (logits_indices (batch plan)) = length (sampled_seqs plan)"
    using rep p by (simp add: plan_rep_def mk_batch_def length_row_logits rows_of_def filter_map comp_def)
  show "set (sampled_seqs plan) \<subseteq> dom (seqs s)" using rep p(1) by (fastforce simp: plan_rep_def entry_ok_def)
qed

lemma finish_all_ok:
  assumes "sched_inv s" "plan_pending s es c plan"
  shows "\<exists>s'. for_each (\<lambda>i. finish_with i r) is s = Some s' \<and> sched_inv s' \<and> plan_pending s' es c plan \<and> owners s' = owners s"
proof -
  let ?I = "\<lambda>_ t. sched_inv t \<and> plan_pending t es c plan \<and> owners t = owners s"
  have "\<exists>s'. for_each (\<lambda>i. finish_with i r) is s = Some s' \<and> ?I [] s'"
  proof (rule for_each_total [where I = ?I])
    fix i js t assume I: "?I (i # js) t"
    then obtain t' where t': "finish i r t = Some t'" "sched_inv t'"
      using finish_ok [of t "{}" i r] by (auto simp: sched_inv_def)
    with I finish_pending [of t es c plan i r t'] finish_owners [OF t'(1)]
    show "\<exists>t'. finish_with i r t = Some t' \<and> ?I js t'" by (auto simp: finish_with_def)
  qed (use assms in simp)
  then show ?thesis by blast
qed

lemma get_masker_engine_inv:
  assumes "engine_inv env e"
  shows "\<exists>e'. get_masker env e = (env_masker env, e') \<and> engine_inv env e' \<and> e_sched e' = e_sched e \<and> kept e e'"
proof -
  have "streams_inv env e" using assms by (simp add: engine_inv_def)
  from get_masker_ok [OF this] obtain e' where
    e': "get_masker env e = (env_masker env, e')" "streams_inv env e'" "e' = e\<lparr>e_masker := e_masker e'\<rparr>" by blast
  have f: "e_sched e' = e_sched e" "e_streams e' = e_streams e" "e_spill e' = e_spill e" "e_files e' = e_files e"
    "e_requests e' = e_requests e" by (subst e'(3), simp)+
  have "e_delta_seq e' = e_delta_seq e" "e_open_choices e' = e_open_choices e" "e_choice_of e' = e_choice_of e"
    by (subst e'(3), simp)+
  then have "kept e e'" using f by (simp add: kept_def)
  with f e'(1) engine_inv_other_fields [OF assms e'(2) f] show ?thesis by blast
qed

lemma apply_plan_ok:
  assumes env: "env_ok env" and inv: "engine_inv env e" and p: "plan_pending (e_sched e) es c plan"
    and l: "length (l_data l) = length (sampled_seqs plan) * l_vocab_size l" "0 < l_vocab_size l"
    and sub: "set (sampled_seqs plan) \<subseteq> dom (seqs (e_sched e))"
  shows "\<exists>e' evs'. apply_plan env plan l evs e = Some (e', evs') \<and> engine_inv env e' \<and> kept e e' \<and>
    (\<forall>y \<in> set evs'. y \<in> set evs \<or> \<not> is_terminal (snd y))"
proof -
  define me where "me = (if needs_mask e plan then (case get_masker env e of (tm, e) \<Rightarrow> (Some tm, e)) else (None, e))"
  obtain masker e1 where me: "me = (masker, e1)" by fastforce
  from get_masker_engine_inv [OF inv] have 1: "engine_inv env e1" "e_sched e1 = e_sched e"
    "\<forall>tm. masker = Some tm \<longrightarrow> tm = env_masker env" "kept e e1"
    using me inv by (auto simp: me_def split: if_splits)
  have s1: "streams_inv env e1" "set (sampled_seqs plan) \<subseteq> dom (e_streams e1)"
    using 1(1,2) sub by (auto simp: engine_inv_def)
  from sample_rows_ok [OF env l 1(3) s1, of 0 "[]" "[]" "[]"] obtain e2 ts lps where
    2: "for_each (sample_row env l masker) (enumerate 0 (sampled_seqs plan)) (e1, [], [], []) = Some (e2, [], ts, lps)"
      "length ts = length (sampled_seqs plan)" "only_streams e1 e2" "streams_inv env e2" by auto
  from emit_rows_ok [OF env 2(4), of lps "enumerate 0 (zip (sampled_seqs plan) ts)" evs "[]"] obtain e3 evs3 halted where
    3: "for_each (emit_row env lps) (enumerate 0 (zip (sampled_seqs plan) ts)) (e2, evs, []) = Some (e3, evs3, halted)"
      "only_streams e2 e3" "streams_inv env e3" "\<forall>y \<in> set evs3. y \<in> set evs \<or> \<not> is_terminal (snd y)" by blast
  have os: "only_streams e1 e3" by (rule only_streams_trans [OF 2(3) 3(2)])
  have inv3: "engine_inv env e3" by (rule engine_inv_streams [OF 1(1) os 3(3)])
  have sch: "e_sched e3 = e_sched e" using only_streams_fields [OF os] 1(2) by simp
  have "sched_inv (e_sched e3)" using inv3 by (simp add: engine_inv_def)
  from finish_all_ok [OF this, of es c plan Stop halted] p sch obtain s4 where
    4: "for_each (\<lambda>i. finish_with i Stop) halted (e_sched e3) = Some s4" "sched_inv s4" "plan_pending s4 es c plan"
      "owners s4 = owners (e_sched e3)" by auto
  from commit_ok [OF 4(2,3) 2(2), of "en_blake3 env"] obtain s5 where
    5: "commit (en_blake3 env) plan ts s4 = Some s5" "sched_inv s5" by blast
  have "engine_inv env (e3\<lparr>e_sched := s5\<rparr>)"
    by (rule engine_inv_sched [OF inv3 5(2)]) (use commit_owners [OF 5(1)] 4(4) in simp)
  moreover have "apply_plan env plan l evs e = Some (e3\<lparr>e_sched := s5\<rparr>, evs3)"
    using 2(1) 3(1) 4(1) 5(1) me unfolding apply_plan_def me_def [symmetric] by simp
  moreover have "owners s5 = owners (e_sched e3)" using commit_owners [OF 5(1)] 4(4) by simp
  then have "kept e (e3\<lparr>e_sched := s5\<rparr>)" using kept_trans [OF kept_trans [OF 1(4) kept_streams [OF os]] kept_sched] by blast
  ultimately show ?thesis using 3(4) by auto
qed

section \<open>Draining\<close>

lemma drain_seqs:
  "seqs (snd (drain is s)) i = (if i \<in> fst ` set (fst (drain is s)) then None else seqs s i)"
  by (induction "is" arbitrary: s) (auto simp: Let_def case_prod_unfold split: option.splits)

lemma drain_sequences_of:
  "i \<notin> fst ` set (fst (drain is s)) \<Longrightarrow> i \<in> set (sequences_of r (snd (drain is s))) \<longleftrightarrow> i \<in> set (sequences_of r s)"
proof (induction "is" arbitrary: s)
  case (Cons j "is")
  show ?case
  proof (cases "seqs s j")
    case (Some q)
    let ?s = "s\<lparr>seqs := (seqs s)(j := None), by_request := drop_request (request_id q) j (by_request s)\<rparr>"
    have ij: "i \<noteq> j" "i \<notin> fst ` set (fst (drain is ?s))" using Cons.prems Some by (auto simp: Let_def case_prod_unfold)
    have "i \<in> set (sequences_of r ?s) \<longleftrightarrow> i \<in> set (sequences_of r s)"
      using ij(1) by (auto simp: sequences_of_def drop_request_def Let_def filter_empty_conv split: option.splits)
    with Cons.IH [OF ij(2)] Some show ?thesis by (simp add: Let_def case_prod_unfold)
  qed (use Cons in simp)
qed simp

lemma drain_one_keeps:
  "drain_one (i, q) (e, out) = (e', out') \<Longrightarrow>
   e_sched e' = e_sched e \<and> e_masker e' = e_masker e \<and> e_schemas e' = e_schemas e \<and> e_spill e' = e_spill e \<and>
   e_files e' = e_files e \<and> e_backend e' = e_backend e \<and> e_delta_seq e' = e_delta_seq e \<and>
   e_streams e' = (e_streams e)(i := None) \<and> e_pending_forks e' = (e_pending_forks e)(i := None) \<and>
   e_choice_of e' = (e_choice_of e)(i := None) \<and> e_requests e' = assoc_remove i (e_requests e)"
  by (auto simp: drain_one_def Let_def split: option.splits if_splits prod.splits)

lemma drain_fold_keeps:
  "fold drain_one fin (e, out) = (e', out') \<Longrightarrow>
   e_sched e' = e_sched e \<and> e_masker e' = e_masker e \<and> e_schemas e' = e_schemas e \<and> e_spill e' = e_spill e \<and>
   e_files e' = e_files e \<and> e_streams e' = (\<lambda>i. if i \<in> fst ` set fin then None else e_streams e i) \<and>
   e_pending_forks e' = (\<lambda>i. if i \<in> fst ` set fin then None else e_pending_forks e i) \<and>
   request_of e' = (\<lambda>i. if i \<in> fst ` set fin then None else request_of e i)"
proof (induction fin arbitrary: e out)
  case (Cons x fin)
  obtain i q where x: "x = (i, q)" by fastforce
  obtain e1 out1 where 1: "drain_one (i, q) (e, out) = (e1, out1)" by fastforce
  from Cons.IH [of e1 out1] Cons.prems 1 drain_one_keeps [OF 1] show ?case
    by (auto simp: x request_of_def fun_eq_iff)
qed (auto simp: request_of_def fun_eq_iff)

lemma drain_fold_delta: "e_delta_seq (fst (fold drain_one fin st)) = e_delta_seq (fst st)"
proof (induction fin arbitrary: st)
  case (Cons x fin)
  obtain i q e out where x: "x = (i, q)" "st = (e, out)" by fastforce
  obtain e1 out1 where 1: "drain_one (i, q) (e, out) = (e1, out1)" by fastforce
  from Cons.IH [of "(e1, out1)"] drain_one_keeps [OF 1] 1 x show ?case by simp
qed simp

lemma drain_all_delta: "drain_all (e, out) = (e', out') \<Longrightarrow> e_delta_seq e' = e_delta_seq e"
  using drain_fold_delta [of "fst (drain_finished (e_sched e))" "(e\<lparr>e_sched := snd (drain_finished (e_sched e))\<rparr>, out)"]
  by (simp add: drain_all_def Let_def case_prod_unfold)

lemma drain_all_ok:
  assumes inv: "engine_inv env e" and d: "drain_all (e, out) = (e', out')"
  shows "engine_inv env e'"
proof -
  let ?s = "e_sched e"
  let ?fin = "fst (drain_finished ?s)" and ?s' = "snd (drain_finished ?s)"
  have "fold drain_one ?fin (e\<lparr>e_sched := ?s'\<rparr>, out) = (e', out')" using d by (simp add: drain_all_def case_prod_unfold Let_def)
  note k = drain_fold_keeps [OF this]
  have sinv: "sinv (running ?s) {} ?s" using inv by (simp add: engine_inv_def sched_inv_def)
  have "sched_inv ?s'" using drain_finished_ok [OF sinv] by (simp add: sched_inv_def drain_finished_frame)
  moreover have sq: "seqs ?s' i = (if i \<in> fst ` set ?fin then None else seqs ?s i)" for i
    unfolding drain_finished_def using drain_seqs [of "finished ?s" "?s\<lparr>finished := []\<rparr>" i] by simp
  moreover have "i \<in> set (sequences_of r ?s') \<longleftrightarrow> i \<in> set (sequences_of r ?s)" if "i \<notin> fst ` set ?fin" for i r
    using that drain_sequences_of [of i "finished ?s" "?s\<lparr>finished := []\<rparr>" r] unfolding drain_finished_def
    by (simp add: sequences_of_def)
  moreover have "dom (seqs ?s') \<subseteq> dom (e_streams e')"
  proof
    fix i assume "i \<in> dom (seqs ?s')"
    then have "i \<notin> fst ` set ?fin" "i \<in> dom (seqs ?s)" using sq [of i] by (auto split: if_splits)
    with inv k show "i \<in> dom (e_streams e')" by (auto simp: engine_inv_def)
  qed
  ultimately show ?thesis
    using inv k by (auto simp: engine_inv_def streams_inv_def requests_ok_def request_of_def drain_finished_frame split: if_splits)
qed

section \<open>The step\<close>

lemma plan_pending_pool [simp]: "plan_pending (s\<lparr>pool := p\<rparr>) es c plan = plan_pending s es c plan"
  by (simp add: plan_pending_def pending_entry_def)

lemma engine_inv_backend: "engine_inv env (e\<lparr>e_backend := dev\<rparr>) = engine_inv env e"
  by (simp add: engine_inv_def streams_inv_def requests_ok_def request_of_def)

lemma env_forward:
  assumes "env_ok env" "en_forward env b d = (Inr l, d')"
  shows "0 < l_vocab_size l" "length (l_data l) = length (logits_indices b) * l_vocab_size l"
  using assms unfolding env_ok_def by blast+

lemma started_events_open: "x \<in> set (started_events e plan) \<Longrightarrow> \<not> is_terminal (snd x)"
  by (auto simp: started_events_def map_filter_def)

text \<open>A step fails with the forward pass, or it comes to drain a state that still owes every report.\<close>

lemma engine_step_split:
  assumes env: "env_ok env" and inv: "engine_inv env e"
  shows "(\<exists>err e'. engine_step env e = Some (Inl err, e') \<and> engine_inv env e' \<and> kept e e') \<or>
    (\<exists>e1 evs wk out e'. engine_step env e = Some (Inr out, e') \<and> engine_inv env e1 \<and> kept e e1 \<and>
       (\<forall>y \<in> set evs. \<not> is_terminal (snd y)) \<and> drain_all (e1, \<lparr>events = evs, completed = [], did_work = wk\<rparr>) = (e', out))"
proof -
  have s: "sched_inv (e_sched e)" "cfg_wide (cfg (e_sched e))" using inv by (simp_all add: engine_inv_def)
  from schedule_ok [OF s, of "en_blake3 env"] obtain plan s1 es where
    1: "schedule (en_blake3 env) (e_sched e) = Some (plan, s1)" "sched_inv s1" "sched_frame (e_sched e) s1"
      "plan_final s1 es plan" "sum_list (map snd es) \<le> max_batched_tokens (cfg (e_sched e))" by blast
  have own: "owners s1 = owners (e_sched e)" by (rule sched_frame_owners [OF 1(3)])
  have inv1: "engine_inv env (e\<lparr>e_sched := s1\<rparr>)" by (rule engine_inv_sched [OF inv 1(2) own])
  have "cfg s1 = cfg (e_sched e)" using 1(3) by (simp add: sched_frame_def)
  with plan_final_pending [OF 1(2) _ 1(4)] s(2) 1(5) obtain c where p: "plan_pending s1 es c plan" by auto
  from engine_spill_evicted_ok [OF inv1] obtain t where
    2: "engine_spill_evicted env (e\<lparr>e_sched := s1\<rparr>) = Some (with_tier t (e\<lparr>e_sched := s1\<rparr>))"
      "engine_inv env (with_tier t (e\<lparr>e_sched := s1\<rparr>))" by blast
  let ?e = "with_tier t (e\<lparr>e_sched := s1\<rparr>)" and ?evs = "started_events (with_tier t (e\<lparr>e_sched := s1\<rparr>)) plan"
  have k: "kept e ?e" by (rule kept_trans [OF kept_sched [OF own] kept_tier])
  show ?thesis
  proof (cases "batch_is_empty (batch plan)")
    case True
    obtain e' out where d: "drain_all (?e, \<lparr>events = ?evs, completed = [], did_work = False\<rparr>) = (e', out)" by fastforce
    then have "engine_step env e = Some (Inr out, e')" using True 1(1) 2(1) by (simp add: engine_step_def)
    with d 2(2) k started_events_open show ?thesis by blast
  next
    case False
    obtain r dev where f: "en_forward env (batch plan) (e_backend ?e) = (r, dev)" by fastforce
    have inv2: "engine_inv env (?e\<lparr>e_backend := dev\<rparr>)" using 2(2) by (simp add: engine_inv_backend)
    have k2: "kept e (?e\<lparr>e_backend := dev\<rparr>)" by (rule kept_trans [OF k kept_backend])
    show ?thesis
    proof (cases r)
      case (Inl err)
      with 1(1) 2(1) False f inv2 k2 show ?thesis by (simp add: engine_step_def Let_def)
    next
      case (Inr l)
      then have "0 < l_vocab_size l" "length (l_data l) = length (sampled_seqs plan) * l_vocab_size l"
        using env_forward [OF env] f plan_final_sampled(1) [OF 1(4)] by simp_all
      from apply_plan_ok [OF env inv2 _ this(2,1), of es c ?evs] p plan_final_sampled(2) [OF 1(4)]
      obtain e3 evs3 where 3: "apply_plan env plan l ?evs (?e\<lparr>e_backend := dev\<rparr>) = Some (e3, evs3)" "engine_inv env e3"
        "kept (?e\<lparr>e_backend := dev\<rparr>) e3" "\<forall>y \<in> set evs3. y \<in> set ?evs \<or> \<not> is_terminal (snd y)" by auto
      obtain e' out where d: "drain_all (e3, \<lparr>events = evs3, completed = [], did_work = True\<rparr>) = (e', out)" by fastforce
      have "engine_step env e = Some (Inr out, e')" using 1(1) 2(1) False f Inr 3(1) d by (simp add: engine_step_def Let_def)
      moreover have "\<forall>y \<in> set evs3. \<not> is_terminal (snd y)" using 3(4) started_events_open by blast
      ultimately show ?thesis using d 3(2) kept_trans [OF k2 3(3)] by blast
    qed
  qed
qed

lemma engine_step_ok:
  assumes "env_ok env" "engine_inv env e"
  shows "\<exists>r e'. engine_step env e = Some (r, e') \<and> engine_inv env e' \<and> e_delta_seq e' = e_delta_seq e"
  using engine_step_split [OF assms]
proof (elim disjE exE conjE)
  fix e1 evs wk out e'
  assume "engine_step env e = Some (Inr out, e')" "engine_inv env e1" "kept e e1"
    "drain_all (e1, \<lparr>events = evs, completed = [], did_work = wk\<rparr>) = (e', out)"
  with drain_all_ok drain_all_delta show ?thesis by (metis kept_def)
qed (auto simp: kept_def)

section \<open>Cancellation, failure and the turn\<close>

lemma cancel_sched_ok:
  assumes "sched_inv s"
  shows "\<exists>r s'. cancel rid s = Some (r, s') \<and> sched_inv s' \<and> owners s' = owners s"
  using cancel_ok [of s "{}" rid] assms cancel_owners by (auto simp: sched_inv_def)

lemma engine_cancel_ok:
  assumes "engine_inv env e"
  shows "\<exists>r e'. engine_cancel rid e = Some (r, e') \<and> engine_inv env e' \<and> e_delta_seq e' = e_delta_seq e"
proof -
  have "sched_inv (e_sched e)" using assms by (simp add: engine_inv_def)
  from cancel_sched_ok [OF this, of rid] obtain r s' where
    "cancel rid (e_sched e) = Some (r, s')" "sched_inv s'" "owners s' = owners (e_sched e)" by blast
  with engine_inv_sched [OF assms] show ?thesis by (simp add: engine_cancel_def)
qed

lemma drain_removes: "i \<in> set is \<Longrightarrow> seqs (snd (drain is s)) i = None"
proof (induction "is" arbitrary: s)
  case (Cons j "is")
  have "seqs (snd (drain is t)) i = None" if "seqs t i = None" for t using that by (simp add: drain_seqs)
  with Cons show ?case by (auto simp: Let_def case_prod_unfold split: option.splits)
qed simp

lemma cancel_all_ok:
  assumes inv: "sched_inv s" and own: "\<And>i q. seqs s i = Some q \<Longrightarrow> request_id q \<in> set rids \<and> i \<in> set (sequences_of (request_id q) s)"
  shows "\<exists>s'. for_each (\<lambda>rid s. do { (_, s) \<leftarrow> cancel rid s; Some s }) rids s = Some s' \<and> sched_inv s' \<and>
    owners s' = owners s \<and> (\<forall>i q. seqs s' i = Some q \<longrightarrow> is_finished (status q))"
proof -
  let ?I = "\<lambda>todo t. sched_inv t \<and> owners t = owners s \<and>
    (\<forall>i q. seqs t i = Some q \<longrightarrow> request_id q \<notin> set todo \<longrightarrow> is_finished (status q))"
  have "\<exists>s'. for_each (\<lambda>rid s. do { (_, s) \<leftarrow> cancel rid s; Some s }) rids s = Some s' \<and> ?I [] s'"
  proof (rule for_each_total [where I = ?I])
    fix rid todo t assume I: "?I (rid # todo) t"
    from I cancel_sched_ok [of t rid] obtain r t' where
      t': "cancel rid t = Some (r, t')" "sched_inv t'" "owners t' = owners t" by blast
    have fin: "is_finished (status q)" if q: "seqs t' i = Some q" "request_id q \<notin> set todo" for i q
    proof (cases "i \<in> set (sequences_of rid t)")
      case True
      with cancel_spec [OF _ t'(1)] I q show ?thesis by blast
    next
      case False
      then have same: "seqs t i = Some q" using cancel_spec [OF _ t'(1)] I q by auto
      have o: "owners t = owners s" using I by simp
      then have "map_option request_id (seqs s i) = Some (request_id q)" 
        using same unfolding owners_def by (metis (no_types, lifting) option.simps(9) prod.inject)
      then obtain q0 where "seqs s i = Some q0" "request_id q0 = request_id q" by auto
      with own [of i q0] o have "i \<in> set (sequences_of (request_id q) t)" by (simp add: sequences_of_def owners_def)
      with False have "request_id q \<noteq> rid" by auto
      with I same q(2) show ?thesis by auto
    qed
    then show "\<exists>t'. (do { (_, s) \<leftarrow> cancel rid t; Some s }) = Some t' \<and> ?I todo t'" using t' I by auto
  qed (use assms in auto)
  then show ?thesis by auto
qed

lemma fail_all_ok:
  assumes inv: "engine_inv env e"
  shows "\<exists>out e'. fail_all msg e = Some (out, e') \<and> engine_inv env e' \<and> is_idle e' \<and> seqs (e_sched e') = Map.empty \<and>
    e_delta_seq e' = e_delta_seq e"
proof -
  have s: "sched_inv (e_sched e)" using inv by (simp add: engine_inv_def)
  have "request_id q \<in> set (map snd (e_requests e)) \<and> i \<in> set (sequences_of (request_id q) (e_sched e))"
    if "seqs (e_sched e) i = Some q" for i q
    using inv that by (force simp: engine_inv_def requests_ok_def request_of_def dest: map_of_SomeD)
  from cancel_all_ok [OF s this] obtain s1 where
    1: "for_each (\<lambda>rid s. do { (_, s) \<leftarrow> cancel rid s; Some s }) (map snd (e_requests e)) (e_sched e) = Some s1" "sched_inv s1"
      "owners s1 = owners (e_sched e)" "\<forall>i q. seqs s1 i = Some q \<longrightarrow> is_finished (status q)" by blast
  let ?s = "snd (drain_finished s1)"
  have sinv: "sinv (running s1) {} s1" using 1(2) by (simp add: sched_inv_def)
  have "seqs ?s i = None" for i
  proof (cases "seqs s1 i")
    case (Some q)
    with 1(4) finished_not_queued(1) [OF sinv Some] have "i \<in> set (finished s1)" by blast
    then show ?thesis by (simp add: drain_finished_def drain_removes)
  qed (simp add: drain_finished_def drain_seqs)
  then have empty: "seqs ?s = Map.empty" by auto
  have inv': "sched_inv ?s" using drain_finished_ok [OF sinv] by (simp add: sched_inv_def drain_finished_frame)
  then have "running ?s = []" "scheduler.waiting ?s = []" "finished ?s = []"
    using empty by (auto simp: sched_inv_def sinv_def)
  moreover have "cfg ?s = cfg (e_sched e)" using owners_dom [OF 1(3)] by (simp add: drain_finished_frame)
  ultimately show ?thesis
    using 1(1) inv inv' empty
    by (auto simp: fail_all_def Let_def case_prod_unfold engine_inv_def streams_inv_def requests_ok_def is_idle_def
        num_running_def num_waiting_def has_finished_def)
qed

lemma engine_inv_delta [simp]: "engine_inv env (e\<lparr>e_delta_seq := m\<rparr>) = engine_inv env e"
  by (simp add: engine_inv_def streams_inv_def requests_ok_def request_of_def)

lemma stamp_delta_inv: "engine_inv env e \<Longrightarrow> engine_inv env (snd (stamp_delta rid d e))"
  by (simp add: stamp_delta_def case_prod_unfold)

lemma forget_stream_inv [simp]: "engine_inv env (forget_stream rid e) = engine_inv env e"
  by (simp add: forget_stream_def)

text \<open>The decoder keeps the contract of the trait.\<close>

definition one_choice :: "job \<Rightarrow> bool" where
  "one_choice j = (choices_of (job_params j) \<le> 1)"

lemma engine_admit_counter:
  assumes env: "env_ok env" and inv: "engine_inv env e" and a: "engine_admit env j e = Some (r, e')"
    and rid: "rid \<noteq> job_request_id j"
  shows "e_delta_seq e' rid = e_delta_seq e rid"
proof -
  obtain r0 e0 where 0: "job_constraint env (job_params j) e = (r0, e0)" by fastforce
  have st: "streams_inv env e" using inv by (simp add: engine_inv_def)
  from job_constraint_ok [OF env st 0] have j: "streams_inv env e0" "e0 = e\<lparr>e_schemas := e_schemas e0, e_masker := e_masker e0\<rparr>"
    by auto
  have f0: "e_sched e0 = e_sched e" "e_streams e0 = e_streams e" "e_spill e0 = e_spill e" "e_files e0 = e_files e"
    "e_requests e0 = e_requests e" "e_delta_seq e0 = e_delta_seq e" by (subst j(2), simp)+
  have inv0: "engine_inv env e0" by (rule engine_inv_other_fields [OF inv j(1) f0(1-5)])
  from engine_promote_ok [OF env inv0, of "prompt_tokens j"] obtain t where
    t: "engine_promote env (prompt_tokens j) e0 = Some (with_tier t e0)" by blast
  with a 0 rid f0(6) show ?thesis by (auto simp: engine_admit_def Let_def split: sum.splits prod.splits)
qed

interpretation decoder: worker "engine_ops env show_error" "\<lambda>e. env_ok env \<and> engine_inv env e" one_choice
  "\<lambda>e. next_seq (e_delta_seq e)" for env show_error
proof
  fix e :: "('a, 'b) engine" and j rid msg d
  assume inv: "env_ok env \<and> engine_inv env e"
  show "\<exists>r e'. w_admit (engine_ops env show_error) j e = Some (r, e') \<and> env_ok env \<and> engine_inv env e'" if "one_choice j"
    using engine_admit_ok [of env e j] inv that by (auto simp: engine_ops_def one_choice_def)
  show "next_seq (e_delta_seq e') rid = next_seq (e_delta_seq e) rid"
    if "w_admit (engine_ops env show_error) j e = Some (r, e')" "rid \<noteq> job_request_id j" for r e'
    using engine_admit_counter [of env e j _ e' rid] inv that by (auto simp: engine_ops_def next_seq_def bind_eq_Some_conv)
  show "\<exists>r e'. w_cancel (engine_ops env show_error) rid e = Some (r, e') \<and> (env_ok env \<and> engine_inv env e') \<and>
      next_seq (e_delta_seq e') = next_seq (e_delta_seq e)"
    using engine_cancel_ok [of env e rid] inv by (auto simp: engine_ops_def)
  show "\<exists>out e'. w_fail_all (engine_ops env show_error) msg e = Some (out, e') \<and> (env_ok env \<and> engine_inv env e') \<and>
      w_is_idle (engine_ops env show_error) e' \<and> next_seq (e_delta_seq e') = next_seq (e_delta_seq e)"
    using fail_all_ok [of env e msg] inv by (auto simp: engine_ops_def)
  show "\<exists>r e'. w_step (engine_ops env show_error) e = Some (r, e') \<and> (env_ok env \<and> engine_inv env e') \<and>
      next_seq (e_delta_seq e') = next_seq (e_delta_seq e)"
    using engine_step_ok [of env e] inv by (auto simp: engine_ops_def)
qed (auto simp: engine_ops_def stamp_delta_def forget_stream_def stamp_with_msg next_seq_stamp next_seq_remove
    case_prod_unfold is_idle_def)

section \<open>A new engine\<close>

text \<open>
  The settings the invariant asks for: the batch fits the batch's index type, the pool its block ids,
  and the spill directory, when it can be read, lists its files with their lengths.
\<close>

definition settings_ok :: "('b, 'r) env \<Rightarrow> engine_settings \<Rightarrow> files \<Rightarrow> bool" where
  "settings_ok env st fs =
     (set_max_batched_tokens st * min (set_max_context st) (spec_max_context (en_spec env)) < 2 ^ 32 \<and>
      set_num_blocks st \<le> NONE \<and> (\<forall>es. set_listing st = Some es \<longrightarrow> listing_ok es fs))"

lemma open_store_total:
  assumes "\<forall>es. dir = Some (Some es) \<longrightarrow> listing_ok es fs"
  shows "\<exists>r. open_store io dir rmax dmax fs = Some r \<and>
    (\<forall>s fs'. r = Inr (s, fs') \<longrightarrow> store_coherent any_bytes s fs')"
proof (cases "\<exists>es. dir = Some (Some es) \<and> 0 < dmax")
  case True
  with assms open_store_ok [of _ fs dmax io rmax] show ?thesis by (fastforce simp: store_coherent_def)
next
  case False
  with empty_store_ok [of rmax dmax] show ?thesis by (auto simp: open_store_def store_coherent_def split: option.splits)
qed

lemma engine_new_ok:
  assumes "settings_ok env st fs"
  shows "\<exists>e. engine_new env st fs dev wid = Some e \<and> engine_inv env e"
proof -
  have "0 < BLOCK_SIZE" "set_num_blocks st \<le> NONE" using assms by (simp_all add: settings_ok_def BLOCK_SIZE_def)
  from pool_new_ok [OF this, of "set_watermark st"] obtain p where
    p: "pool_new (set_num_blocks st) BLOCK_SIZE (set_watermark st) = Some p" by blast
  have inv: "sched_inv (scheduler_new c p ns eos)" if "cfg_block_size c = BLOCK_SIZE" for c ns eos
    by (rule scheduler_new_inv [OF p]) (use that assms in \<open>simp_all add: settings_ok_def\<close>)
  have inv': "sched_inv (scheduler_new c (track_evictions True p) ns eos)" if c: "cfg_block_size c = BLOCK_SIZE" for c ns eos
    using inv [OF c, of ns eos]
    by (auto simp: sched_inv_def scheduler_new_def track_evictions_def sinv_def pool_inv_def seq_refs_def)
  have dir: "\<forall>es. (if set_spill_max_bytes st > 0 then Some (set_listing st) else None) = Some (Some es) \<longrightarrow> listing_ok es fs"
    using assms by (auto simp: settings_ok_def)
  from open_store_total [OF dir, of "en_disk env" "set_spill_ram_bytes st" "set_spill_max_bytes st"] obtain r where
    r: "open_store (en_disk env) (if set_spill_max_bytes st > 0 then Some (set_listing st) else None) (set_spill_ram_bytes st)
      (set_spill_max_bytes st) fs = Some r" "\<forall>s fs'. r = Inr (s, fs') \<longrightarrow> store_coherent any_bytes s fs'" by blast
  show ?thesis
  proof (cases "set_spill st \<and> set_block_bytes st \<noteq> 0")
    case True
    then show ?thesis using p r inv inv' assms
      by (cases r) (auto simp: engine_new_def Let_def engine_inv_def streams_inv_def requests_ok_def settings_ok_def
          cfg_wide_def scheduler_new_def)
  next
    case False
    then show ?thesis using p inv assms
      by (auto simp: engine_new_def Let_def engine_inv_def streams_inv_def requests_ok_def settings_ok_def
          cfg_wide_def scheduler_new_def)
  qed
qed

end
