(* ===== verification/Engine_Report.thy ===== *)
theory Engine_Report
  imports Engine_Step
begin

text \<open>
  What the decoder reports (\<open>vapi-worker/src/engine.rs\<close>, the end of \<open>step\<close>): the terminal event of
  every sequence that leaves, and the requests that are complete.
\<close>

section \<open>Requests with one choice\<close>

definition singles :: "('b, 'r) engine \<Rightarrow> bool" where
  "singles e = ((\<forall>rid n. e_open_choices e rid = Some n \<longrightarrow> n = 1) \<and> (\<forall>i c. e_choice_of e i = Some c \<longrightarrow> c = 0))"

definition ending :: "seq_id \<times> sequence \<Rightarrow> string \<times> delta" where
  "ending = (\<lambda>(i, q). (request_id q,
     Done 0 (case status q of Finished r \<Rightarrow> r | _ \<Rightarrow> FinishError) (prompt_len q) (num_generated q)))"

abbreviation terminal_events :: "(string \<times> delta) list \<Rightarrow> (string \<times> delta) list" where
  "terminal_events \<equiv> filter (\<lambda>x. is_terminal (snd x))"

lemma drain_one_report:
  assumes s: "singles e" and r: "request_of e i = Some (request_id q)" and d: "drain_one (i, q) (e, out) = (e', out')"
  shows "singles e'" "completed out' = completed out @ [request_id q]"
    "terminal_events (events out') = terminal_events (events out) @ [ending (i, q)]" "did_work out'"
proof -
  have c: "(case e_choice_of e i of Some c \<Rightarrow> c | None \<Rightarrow> 0) = 0" using s by (auto simp: singles_def split: option.splits)
  have o: "e_open_choices e (request_id q) = None \<or> e_open_choices e (request_id q) = Some 1"
    using s by (cases "e_open_choices e (request_id q)") (auto simp: singles_def)
  have s': "\<forall>rid n. e_open_choices e rid = Some n \<longrightarrow> n = 1" "\<forall>i c. e_choice_of e i = Some c \<longrightarrow> c = 0"
    using s by (auto simp: singles_def)
  have "e_open_choices e' = (e_open_choices e)(request_id q := None)"
    using d r o by (auto simp: drain_one_def Let_def split: if_splits option.splits)
  moreover have "e_choice_of e' = (e_choice_of e)(i := None)" using drain_one_keeps [OF d] by blast
  ultimately show "singles e'" using s' by (auto simp: singles_def)
  show "completed out' = completed out @ [request_id q]" "did_work out'"
    "terminal_events (events out') = terminal_events (events out) @ [ending (i, q)]"
    using d r o c by (auto simp: drain_one_def Let_def ending_def split: if_splits option.splits)
qed

lemma drain_fold_report:
  assumes "singles e" "distinct (map fst fin)" "\<forall>(i, q) \<in> set fin. request_of e i = Some (request_id q)"
    "fold drain_one fin (e, out) = (e', out')"
  shows "singles e' \<and> completed out' = completed out @ map (request_id \<circ> snd) fin \<and>
    terminal_events (events out') = terminal_events (events out) @ map ending fin"
  using assms
proof (induction fin arbitrary: e out)
  case (Cons x fin)
  obtain i q where x: "x = (i, q)" by fastforce
  obtain e1 out1 where 1: "drain_one (i, q) (e, out) = (e1, out1)" by fastforce
  have "request_of e i = Some (request_id q)" using Cons.prems(3) x by simp
  note r = drain_one_report [OF Cons.prems(1) this 1]
  have "\<forall>(j, p) \<in> set fin. request_of e1 j = Some (request_id p)"
    using Cons.prems(2,3) drain_one_keeps [OF 1] x by (force simp: request_of_def)
  moreover have "fold drain_one fin (e1, out1) = (e', out')" using Cons.prems(4) 1 x by simp
  ultimately show ?case using Cons.IH [OF r(1)] Cons.prems(2) r(2,3) x by simp
qed simp

section \<open>The sequences that leave\<close>

lemma drain_members:
  assumes "distinct is"
  shows "distinct (map fst (fst (drain is s)))" "set (map fst (fst (drain is s))) = set is \<inter> dom (seqs s)"
    "(i, q) \<in> set (fst (drain is s)) \<Longrightarrow> seqs s i = Some q"
proof -
  have "distinct (map fst (fst (drain is s))) \<and> set (map fst (fst (drain is s))) = set is \<inter> dom (seqs s) \<and>
    (\<forall>(i, q) \<in> set (fst (drain is s)). seqs s i = Some q)"
    using assms
  proof (induction "is" arbitrary: s)
    case (Cons j "is")
    show ?case
    proof (cases "seqs s j")
      case None
      with Cons show ?thesis by auto
    next
      case (Some q)
      let ?s = "s\<lparr>seqs := (seqs s)(j := None), by_request := drop_request (request_id q) j (by_request s)\<rparr>"
      have "j \<notin> set is" "distinct is" using Cons.prems by auto
      with Cons.IH [of ?s] Some show ?thesis by (auto simp: Let_def case_prod_unfold split: if_splits)
    qed
  qed simp
  then show "distinct (map fst (fst (drain is s)))" "set (map fst (fst (drain is s))) = set is \<inter> dom (seqs s)"
    "(i, q) \<in> set (fst (drain is s)) \<Longrightarrow> seqs s i = Some q" by auto
qed

lemma drain_finished_members:
  assumes "sched_inv s"
  shows "distinct (map fst (fst (drain_finished s)))" "set (map fst (fst (drain_finished s))) = set (finished s)"
    "(i, q) \<in> set (fst (drain_finished s)) \<Longrightarrow> seqs s i = Some q \<and> is_finished (status q)"
    "dom (seqs (snd (drain_finished s))) = dom (seqs s) - set (finished s)"
proof -
  have d: "distinct (finished s)" "set (finished s) \<subseteq> dom (seqs s)" using assms by (auto simp: sched_inv_def sinv_def)
  note m = drain_members(1,2) [OF d(1), of "s\<lparr>finished := []\<rparr>"] and m3 = drain_members(3) [OF d(1)]
  show "distinct (map fst (fst (drain_finished s)))" using m(1) by (simp add: drain_finished_def)
  show f: "set (map fst (fst (drain_finished s))) = set (finished s)" using m(2) d(2) by (auto simp: drain_finished_def)
  show "(i, q) \<in> set (fst (drain_finished s)) \<Longrightarrow> seqs s i = Some q \<and> is_finished (status q)"
  proof -
    assume iq: "(i, q) \<in> set (fst (drain_finished s))"
    then have q: "seqs s i = Some q" using m3 by (fastforce simp: drain_finished_def)
    have "i \<in> set (map fst (fst (drain_finished s)))" using iq by force
    then have "i \<in> set (finished s)" using f by blast
    with assms q show ?thesis by (auto simp: sched_inv_def sinv_def role_ok_def finished_ok_def)
  qed
  have "seqs (snd (drain_finished s)) j = (if j \<in> set (finished s) then None else seqs s j)" for j
    using drain_seqs [of "finished s" "s\<lparr>finished := []\<rparr>" j] f by (simp add: drain_finished_def)
  then show "dom (seqs (snd (drain_finished s))) = dom (seqs s) - set (finished s)" by (auto split: if_splits)
qed

text \<open>
  A successful step ends the streams of exactly the sequences that leave, each with its \<open>Done\<close>, and
  completes their requests in the same order.
\<close>

lemma engine_step_reports:
  assumes env: "env_ok env" and inv: "engine_inv env e" and s: "singles e"
    and step: "engine_step env e = Some (Inr out, e')"
  shows "singles e' \<and> (\<exists>fin. terminal_events (events out) = map ending fin \<and> completed out = map (request_id \<circ> snd) fin \<and>
    distinct (map fst fin) \<and> set (map fst fin) = dom (seqs (e_sched e)) - dom (seqs (e_sched e')) \<and>
    dom (seqs (e_sched e')) \<subseteq> dom (seqs (e_sched e)) \<and>
    (\<forall>(i, q) \<in> set fin. is_finished (status q) \<and> request_of e i = Some (request_id q)))"
proof -
  from engine_step_split [OF env inv] step obtain e1 evs wk where
    1: "engine_inv env e1" "kept e e1" "\<forall>y \<in> set evs. \<not> is_terminal (snd y)"
      "drain_all (e1, \<lparr>events = evs, completed = [], did_work = wk\<rparr>) = (e', out)" by auto
  let ?s = "e_sched e1"
  have sinv: "sched_inv ?s" and rq: "requests_ok e1" using 1(1) by (simp_all add: engine_inv_def)
  note m = drain_finished_members [OF sinv]
  define fin where "fin = fst (drain_finished ?s)"
  have f: "fold drain_one fin (e1\<lparr>e_sched := snd (drain_finished ?s)\<rparr>, \<lparr>events = evs, completed = [], did_work = wk\<rparr>) = (e', out)"
    using 1(4) by (simp add: drain_all_def fin_def Let_def case_prod_unfold)
  have req: "request_of e1 i = Some (request_id q)" if "(i, q) \<in> set fin" for i q
    using m(3) [of i q] that rq by (auto simp: fin_def requests_ok_def)
  have "singles (e1\<lparr>e_sched := snd (drain_finished ?s)\<rparr>)" using s 1(2) by (simp add: singles_def kept_def)
  moreover have "\<forall>(i, q) \<in> set fin. request_of (e1\<lparr>e_sched := snd (drain_finished ?s)\<rparr>) i = Some (request_id q)"
    using req by (auto simp: request_of_def)
  moreover have "terminal_events evs = []" using 1(3) by (simp add: filter_empty_conv)
  ultimately have r: "singles e'" "completed out = map (request_id \<circ> snd) fin" "terminal_events (events out) = map ending fin"
    using drain_fold_report [OF _ _ _ f] m(1) by (auto simp: fin_def)
  have sch: "e_sched e' = snd (drain_finished ?s)" using drain_fold_keeps [OF f] by simp
  have own: "owners ?s = owners (e_sched e)" "e_requests e1 = e_requests e" using 1(2) by (simp_all add: kept_def)
  have dom: "dom (seqs ?s) = dom (seqs (e_sched e))" using owners_dom [OF own(1)] by simp
  have "set (finished ?s) \<subseteq> dom (seqs ?s)" using sinv by (auto simp: sched_inv_def sinv_def)
  then have "set (map fst fin) = dom (seqs (e_sched e)) - dom (seqs (e_sched e'))" "dom (seqs (e_sched e')) \<subseteq> dom (seqs (e_sched e))"
    using m(2,4) sch dom by (auto simp: fin_def)
  moreover have "is_finished (status q) \<and> request_of e i = Some (request_id q)" if "(i, q) \<in> set fin" for i q
    using m(3) [of i q] req [OF that] that own(2) by (auto simp: fin_def request_of_def)
  moreover have "distinct (map fst fin)" using m(1) by (simp add: fin_def)
  ultimately show ?thesis using r by blast
qed

lemma engine_admit_singles:
  assumes "singles e" "one_choice j" "engine_admit env j e = Some (r, e')"
  shows "singles e'"
proof -
  have one: "choices_of (job_params j) = 1" using assms(2) by (auto simp: one_choice_def choices_of_def)
  obtain r1 e1 where 1: "job_constraint env (job_params j) e = (r1, e1)" by fastforce
  have c: "e_open_choices e1 = e_open_choices e" "e_choice_of e1 = e_choice_of e"
    using 1 by (auto simp: job_constraint_def compile_format_def get_masker_def Let_def split: option.splits sum.splits if_splits prod.splits)
  then have s1: "singles e1" using assms(1) by (simp add: singles_def)
  show ?thesis
  proof (cases r1)
    case (Inl err)
    with 1 assms(3) s1 show ?thesis by (simp add: engine_admit_def)
  next
    case (Inr k)
    then obtain t where "engine_promote env (prompt_tokens j) e1 = Some (with_tier t e1)"
      using assms(3) 1 by (auto simp: engine_admit_def engine_promote_def bind_eq_Some_conv)
    with assms(3) 1 Inr s1 one show ?thesis
      by (auto simp: engine_admit_def singles_def Let_def split: sum.splits prod.splits if_splits)
  qed
qed

section \<open>Failing everything\<close>

text \<open>
  After \<open>fail_all\<close> nothing is left, every request that had a live sequence is told so, and nobody is
  told anything else.
\<close>

lemma fail_all_reports:
  assumes inv: "engine_inv env e" and f: "fail_all msg e = Some (out, e')"
  shows "completed out = map fst (events out) \<and> (\<forall>x \<in> set (events out). snd x = Failed msg) \<and>
    (\<forall>i q. seqs (e_sched e) i = Some q \<longrightarrow> request_id q \<in> set (completed out)) \<and>
    seqs (e_sched e') = Map.empty \<and> is_idle e' \<and> (\<forall>b. rc (pool (e_sched e')) b = 0)"
proof -
  from fail_all_ok [OF inv, of msg] f have e': "engine_inv env e'" "is_idle e'" "seqs (e_sched e') = Map.empty" by auto
  have "rc (pool (e_sched e')) b = 0" for b
    using e' by (simp add: engine_inv_def sched_inv_def sinv_def seq_refs_def blocks_of_def)
  moreover have "request_id q \<in> set (map snd (e_requests e))" if "seqs (e_sched e) i = Some q" for i q
    using inv that by (force simp: engine_inv_def requests_ok_def request_of_def dest: map_of_SomeD)
  moreover have "events out = map (\<lambda>rid. (rid, Failed msg)) (map snd (e_requests e))" "completed out = map snd (e_requests e)"
    using f by (auto simp: fail_all_def Let_def bind_eq_Some_conv case_prod_unfold comp_def)
  ultimately show ?thesis using e' by (auto simp: comp_def)
qed

lemma engine_admit_fresh_counter:
  assumes "engine_admit env j e = Some (Inr i, e')"
  shows "e_delta_seq e' (job_request_id j) = Some 0"
proof -
  obtain c e0 where 0: "job_constraint env (job_params j) e = (Inr c, e0)"
    using assms by (cases "job_constraint env (job_params j) e") (auto simp: engine_admit_def split: sum.splits)
  then obtain e1 where 1: "engine_promote env (prompt_tokens j) e0 = Some e1"
    using assms by (auto simp: engine_admit_def bind_eq_Some_conv)
  obtain k s where "admit (job_request_id j) (prompt_tokens j) (job_params j) (job_namespace j) (e_sched e1) = (k, s)" by fastforce
  with assms 0 1 show ?thesis by (cases k) (auto simp: engine_admit_def Let_def)
qed

section \<open>A cancelled request with several choices\<close>

lemma schedule_quiet:
  assumes "running s = []" "scheduler.waiting s = []"
  shows "\<exists>plan. schedule blake3 s = Some (plan, s) \<and> batch_is_empty (batch plan) \<and> started plan = []"
proof -
  have "schedule_decodes (s, empty_plan, b) = Some (s, empty_plan, b)" for b
    using assms(1) by (simp add: schedule_decodes_def)
  moreover have "start_waiting blake3 (s, empty_plan, b) = Some (s, empty_plan, b)" for b
    using assms(2) by (subst start_waiting.simps) simp
  ultimately show ?thesis
    using assms(1) by (simp add: schedule_def schedule_prefills_def Let_def batch_is_empty_def empty_plan_def empty_batch_def)
qed

lemma cancel_alone:
  assumes inv: "sched_inv s" and c: "cancel rid s = Some (r, s')" and sq: "seqs s = [i \<mapsto> q]" "i \<in> set (sequences_of rid s)"
  shows "sched_inv s'" "running s' = []" "scheduler.waiting s' = []" "finished s' = [i]" "dom (seqs s') = {i}"
proof -
  note sp = cancel_spec [OF inv c]
  show inv': "sched_inv s'" using sp by blast
  show d: "dom (seqs s') = {i}" using owners_dom [OF cancel_owners [OF c]] sq(1) by simp
  then obtain q' where q': "seqs s' i = Some q'" by auto
  have sinv: "sinv (running s') {} s'" using inv' by (simp add: sched_inv_def)
  have "is_finished (status q')" using sp sq(2) q' by blast
  note nq = finished_not_queued [OF sinv q' this]
  have all: "set (scheduler.waiting s') \<union> set (running s') \<union> set (finished s') = {i}" and dist: "distinct (finished s')"
    using sinv d by (auto simp: sinv_def)
  have "set (running s') \<subseteq> {i}" "set (scheduler.waiting s') \<subseteq> {i}" using all by blast+
  then show "running s' = []" "scheduler.waiting s' = []" using nq(2,3) by (metis last_in_set singletonD subsetD)+
  have "set (finished s') \<subseteq> {i}" using all by blast
  then have fin: "set (finished s') = {i}" using nq(1) by blast
  then have "length (finished s') = 1" using distinct_card [OF dist] by simp
  with fin show "finished s' = [i]" by (auto simp: length_Suc_conv)
qed

text \<open>
  A request that is cancelled before its first token, alone in the engine: the next step drains its one
  sequence and sends the terminal event.  The admission counts \<open>n\<close> choices at once, but the sequences of
  the others come to be only after the first token, so for more than one choice \<open>n - 1\<close> stay open: its
  completion is never reported and its entry never removed.
\<close>

lemma cancel_then_step:
  assumes env: "env_ok env" and inv: "engine_inv env e" and idle: "seqs (e_sched e) = Map.empty"
    and n: "choices_of (job_params j) \<ge> 1" and adm: "engine_admit env j e = Some (Inr i, e1)"
  shows "\<exists>r e2 out e3. engine_cancel (job_request_id j) e1 = Some (r, e2) \<and> engine_step env e2 = Some (Inr out, e3) \<and>
    dom (seqs (e_sched e2)) = {i} \<and> e_open_choices e2 (job_request_id j) = Some (choices_of (job_params j)) \<and>
    completed out = (if choices_of (job_params j) = 1 then [job_request_id j] else []) \<and>
    map fst (terminal_events (events out)) = [job_request_id j] \<and>
    (choices_of (job_params j) > 1 \<longrightarrow> e_open_choices e3 (job_request_id j) = Some (choices_of (job_params j) - 1)) \<and>
    seqs (e_sched e3) = Map.empty \<and> is_idle e3"
proof -
  let ?rid = "job_request_id j" and ?n = "choices_of (job_params j)"
  obtain r0 e0 where 0: "job_constraint env (job_params j) e = (r0, e0)" by fastforce
  have st: "streams_inv env e" using inv by (simp add: engine_inv_def)
  from job_constraint_ok [OF env st 0] have j: "streams_inv env e0" "e0 = e\<lparr>e_schemas := e_schemas e0, e_masker := e_masker e0\<rparr>" by auto
  have f0: "e_sched e0 = e_sched e" "e_streams e0 = e_streams e" "e_spill e0 = e_spill e" "e_files e0 = e_files e"
    "e_requests e0 = e_requests e" by (subst j(2), simp)+
  have inv0: "engine_inv env e0" by (rule engine_inv_other_fields [OF inv j(1) f0])
  from engine_promote_ok [OF env inv0, of "prompt_tokens j"] obtain t where
    t: "engine_promote env (prompt_tokens j) e0 = Some (with_tier t e0)" "engine_inv env (with_tier t e0)" by blast
  let ?e = "with_tier t e0"
  obtain c where c: "r0 = Inr c" using adm 0 by (cases r0) (auto simp: engine_admit_def)
  define a where "a = admit ?rid (prompt_tokens j) (job_params j) (job_namespace j) (e_sched ?e)"
  from adm 0 c t(1) obtain s where s: "a = (Inr i, s)" by (auto simp: engine_admit_def a_def Let_def split: sum.splits prod.splits)
  then have "admit ?rid (prompt_tokens j) (job_params j) (job_namespace j) ((e_sched e0)\<lparr>pool := t_pool t\<rparr>) = (Inr i, s)"
    by (simp add: a_def)
  with adm 0 c t(1) n have e1: "e_sched e1 = s" "request_of e1 i = Some ?rid" "e_open_choices e1 ?rid = Some ?n"
    "e_spill e1 = t_spill t" "e_files e1 = t_files t"
    by (auto simp: engine_admit_def Let_def request_of_def)
  have sinv: "sched_inv s"
  proof -
    have "sinv (running (e_sched ?e)) {} (e_sched ?e)" using t(2) by (simp add: engine_inv_def sched_inv_def)
    from admit_ok [OF this, of ?rid "prompt_tokens j" "job_params j" "job_namespace j"]
    have "sinv (running (e_sched ?e)) {} s" using s by (simp add: a_def)
    moreover have "running s = running (e_sched ?e)" using s by (auto simp: a_def admit_def Let_def split: if_splits)
    ultimately show ?thesis by (simp add: sched_inv_def)
  qed
  have sq: "seqs s = [i \<mapsto> sequence_new ?rid (prompt_tokens j) (job_params j) (job_namespace j)]"
    "by_request s = push_request ?rid i (by_request (e_sched ?e))"
    using s idle f0(1) by (auto simp: a_def admit_def Let_def split: if_splits)
  have mem: "i \<in> set (sequences_of ?rid s)" using in_push_request [OF sq(2)] by simp
  from cancel_sched_ok [OF sinv, of ?rid] obtain r s2 where s2: "cancel ?rid s = Some (r, s2)" by blast
  note q = cancel_alone [OF sinv s2 sq(1) mem]
  let ?e2 = "e1\<lparr>e_sched := s2\<rparr>"
  from schedule_quiet [OF q(2,3), of "en_blake3 env"] obtain plan where
    p: "schedule (en_blake3 env) s2 = Some (plan, s2)" "batch_is_empty (batch plan)" "started plan = []" by blast
  have "\<forall>sp. e_spill ?e2 = Some sp \<longrightarrow> store_coherent any_bytes sp (e_files ?e2)" using t(2) e1(4,5) by (simp add: engine_inv_def)
  from spill_evicted_ok [OF tier_coherent [OF _ this], of "en_export env" "en_disk env"] q(1) obtain t2 where
    t2: "engine_spill_evicted env ?e2 = Some (with_tier t2 ?e2)" by (auto simp: engine_spill_evicted_def)
  let ?e3 = "with_tier t2 ?e2"
  obtain q2 where q2: "seqs s2 i = Some q2" using q(5) by auto
  have d: "drain_finished (e_sched ?e3) = ([(i, q2)], snd (drain_finished (e_sched ?e3)))"
    "seqs (snd (drain_finished (e_sched ?e3))) = Map.empty"
    using q(4,5) q2 by (auto simp: drain_finished_def Let_def fun_eq_iff dom_def)
  obtain e4 out where d1: "drain_one (i, q2) (?e3\<lparr>e_sched := snd (drain_finished (e_sched ?e3))\<rparr>,
      \<lparr>events = [], completed = [], did_work = False\<rparr>) = (e4, out)" by fastforce
  have "drain_all (?e3, \<lparr>events = [], completed = [], did_work = False\<rparr>) = (e4, out)"
    unfolding drain_all_def prod.case Let_def by (subst d(1)) (use d1 in simp)
  then have step: "engine_step env ?e2 = Some (Inr out, e4)"
    using p t2 by (simp add: engine_step_def started_events_def map_filter_def Let_def)
  have "completed out = (if ?n = 1 then [?rid] else [])" "map fst (terminal_events (events out)) = [?rid]"
      "?n > 1 \<longrightarrow> e_open_choices e4 ?rid = Some (?n - 1)"
    using d1 e1(2,3) n by (auto simp: drain_one_def Let_def request_of_def split: if_splits option.splits)
  moreover have "e_sched e4 = snd (drain_finished (e_sched ?e3))" using drain_one_keeps [OF d1] by simp
  then have "seqs (e_sched e4) = Map.empty" "is_idle e4"
    using d(2) q(2,3) by (simp_all add: is_idle_def num_running_def num_waiting_def has_finished_def drain_finished_frame)
  moreover have "engine_cancel ?rid e1 = Some (r \<noteq> None, ?e2)" using e1(1) s2 by (simp add: engine_cancel_def)
  moreover have "dom (seqs (e_sched ?e2)) = {i}" "e_open_choices ?e2 ?rid = Some ?n" using q(5) e1(3) by simp_all
  ultimately show ?thesis
    by (intro exI [of _ "r \<noteq> None"] exI [of _ ?e2] exI [of _ out] exI [of _ e4] conjI step)
qed

lemma cancelled_choices_stay_open:
  assumes "env_ok env" "engine_inv env e" "seqs (e_sched e) = Map.empty" "choices_of (job_params j) > 1"
    "engine_admit env j e = Some (Inr i, e1)"
  shows "\<exists>r e2 out e3. engine_cancel (job_request_id j) e1 = Some (r, e2) \<and> engine_step env e2 = Some (Inr out, e3) \<and>
    completed out = [] \<and> map fst (terminal_events (events out)) = [job_request_id j] \<and>
    e_open_choices e3 (job_request_id j) = Some (choices_of (job_params j) - 1) \<and> seqs (e_sched e3) = Map.empty \<and> is_idle e3"
  using cancel_then_step [OF assms(1-3) _ assms(5)] assms(4) by fastforce

end
