(* ===== verification/Engine_Properties.thy ===== *)
theory Engine_Properties
  imports Engine_Report Mock_Backend
begin

text \<open>
  What the decoder guarantees behind the engine thread, each property with an instance.  The instances
  run a small environment: the mock's device, a tokenizer that prints every token as one letter, a
  forward pass that answers zeros, and a sampler that always picks the first token.
\<close>

section \<open>A concrete environment\<close>

definition demo_export :: "mock_backend \<Rightarrow> block_id \<Rightarrow> error + bytes" where
  "demo_export d b = map_sum (\<lambda>_. Engine_error ''mock'') id (mock_export d b)"

definition demo_import :: "block_id \<Rightarrow> bytes \<Rightarrow> mock_backend \<Rightarrow> error + mock_backend" where
  "demo_import b x d = map_sum (\<lambda>_. Engine_error ''mock'') id (mock_import b x d)"

lemma demo_device: "kv_device demo_export demo_import"
  by unfold_locales
    (auto simp: demo_export_def demo_import_def mock_import_def mock_export_def split: if_splits option.splits)

definition demo_decode :: "token list \<Rightarrow> utext" where
  "demo_decode ts = map (\<lambda>t. 97 + t mod 26) ts"

definition demo_env :: "(mock_backend, unit) env" where
  "demo_env =
     \<lparr>en_blake3 = id, en_export = demo_export, en_import = demo_import, en_disk = reliable_disk,
      en_forward = (\<lambda>b d. (Inr \<lparr>l_data = replicate (length (logits_indices b) * 4) (Fin 0), l_vocab_size = 4\<rparr>, d)),
      en_copy_blocks = (\<lambda>_ d. Inr d), en_spec = tiny_spec, en_tokenizer_eos = [], en_decode = demo_decode,
      en_token_id = (\<lambda>_. None), en_json = (\<lambda>_. JNull), en_canonical = (\<lambda>_. [110]), en_new_sampler = (\<lambda>_. ()),
      en_sample = (\<lambda>_ _ r. (0, r)), en_observe = (\<lambda>_ r. r), en_logprobs = (\<lambda>_ _ _. (Fin 0, []))\<rparr>"

lemma demo_bytes: "decode_bytes demo_env ts = map (\<lambda>t. char_of (97 + t mod 26)) ts"
  by (induction ts) (simp_all add: decode_bytes_def demo_env_def demo_decode_def utf8_string_def utf8_char_def)

lemma demo_decode_ok: "decode_ok (decode_bytes demo_env)"
proof -
  have "\<not> is_continuation (char_of (97 + t mod 26))" for t :: nat
    by (simp add: is_continuation_def of_char_of take_bit_nat_eq_self)
  then show ?thesis unfolding decode_ok_def demo_bytes by (auto simp: hd_map)
qed

lemma demo_env_ok: "env_ok demo_env"
proof -
  have "keys_distinct JNull" by simp
  moreover have "compile c JNull = Inr ns \<Longrightarrow> length ns < free_node" for c ns
    by (simp add: compile_def)
  ultimately show ?thesis
    using demo_device demo_decode_ok by (auto simp: env_ok_def) (auto simp: demo_env_def)
qed

definition demo_settings :: engine_settings where
  "demo_settings =
     \<lparr>set_model_id = ''m'', set_fingerprint = None, set_dtype = F16, set_default_namespace = ''t'', set_max_context = 128,
      set_max_concurrent_seqs = 4, set_max_batched_tokens = 64, set_prefill_chunk_tokens = 32, set_prefix_cache = True,
      set_watermark = 0, set_spill = False, set_spill_ram_bytes = 0, set_spill_max_bytes = 0, set_listing = None,
      set_num_blocks = 8, set_block_bytes = 0\<rparr>"

definition demo_engine :: "(mock_backend, unit) engine" where
  "demo_engine = the (engine_new demo_env demo_settings Map.empty (mock_new 8 32) ''w'')"

lemma demo_settings_ok: "settings_ok demo_env demo_settings Map.empty"
  by (simp add: settings_ok_def demo_settings_def demo_env_def tiny_spec_def NONE_def)

lemma demo_engine_new:
  "engine_new demo_env demo_settings Map.empty (mock_new 8 32) ''w'' = Some demo_engine" "engine_inv demo_env demo_engine"
  using engine_new_ok [OF demo_settings_ok, of "mock_new 8 32" "''w''"] by (auto simp: demo_engine_def)

lemma engine_new_fields:
  assumes "engine_new env st fs dev wid = Some e"
  shows "seqs (e_sched e) = Map.empty" "e_open_choices e = Map.empty" "e_choice_of e = Map.empty" "e_delta_seq e = Map.empty"
    "next_id (e_sched e) = 0" "max_context (cfg (e_sched e)) = min (set_max_context st) (spec_max_context (en_spec env))"
  using assms by (auto simp: engine_new_def Let_def bind_eq_Some_conv scheduler_new_def split: if_splits)

lemmas demo_engine_fields = engine_new_fields [OF demo_engine_new(1)]

definition demo_job :: "nat \<Rightarrow> job" where
  "demo_job n =
     \<lparr>job_request_id = ''r'', job_model = ''m'', job_kind = Chat, prompt_tokens = [1, 2, 3],
      job_params = default_params\<lparr>n_choices := n\<rparr>, job_namespace = ''t'', reply_to = ''vapi.stream.r'',
      enqueued_at_ms = 0, job_rows = [], job_audio = None\<rparr>"

lemma demo_job_choices: "choices_of (job_params (demo_job n)) = max n 1"
  by (simp add: choices_of_def demo_job_def default_params_def is_greedy_def f32_epsilon_def)

text \<open>The engine after the request was admitted, and after it was then cancelled.\<close>

lemma demo_admitted:
  assumes "engine_admit demo_env (demo_job n) demo_engine = Some (r, e1)"
  shows "r = Inr 0" "seqs (e_sched e1) = [0 \<mapsto> sequence_new ''r'' [1, 2, 3] (default_params\<lparr>n_choices := n\<rparr>) ''t'']"
proof -
  have c: "job_constraint demo_env (job_params (demo_job n)) demo_engine = (Inr None, demo_engine)"
    by (simp add: job_constraint_def demo_job_def default_params_def)
  from engine_promote_ok [OF demo_env_ok demo_engine_new(2), of "prompt_tokens (demo_job n)"] obtain t where
    t: "engine_promote demo_env (prompt_tokens (demo_job n)) demo_engine = Some (with_tier t demo_engine)" by blast
  have "max_context (cfg (e_sched demo_engine)) = 128" "next_id (e_sched demo_engine) = 0"
    by (simp_all add: demo_engine_fields demo_settings_def demo_env_def tiny_spec_def)
  with assms c t show "r = Inr 0" "seqs (e_sched e1) = [0 \<mapsto> sequence_new ''r'' [1, 2, 3] (default_params\<lparr>n_choices := n\<rparr>) ''t'']"
    by (auto simp: engine_admit_def admit_def Let_def demo_engine_fields demo_job_def)
qed

lemma demo_admits: "\<exists>e1. engine_admit demo_env (demo_job n) demo_engine = Some (Inr 0, e1)"
proof -
  from engine_promote_ok [OF demo_env_ok demo_engine_new(2), of "prompt_tokens (demo_job n)"] obtain t where
    t: "engine_promote demo_env (prompt_tokens (demo_job n)) demo_engine = Some (with_tier t demo_engine)" by blast
  have c: "job_constraint demo_env (job_params (demo_job n)) demo_engine = (Inr None, demo_engine)"
    by (simp add: job_constraint_def demo_job_def default_params_def)
  obtain r e1 where "engine_admit demo_env (demo_job n) demo_engine = Some (r, e1)"
    using t c by (cases "admit (job_request_id (demo_job n)) (prompt_tokens (demo_job n)) (job_params (demo_job n))
        (job_namespace (demo_job n)) (e_sched (with_tier t demo_engine))"; cases "fst (admit (job_request_id (demo_job n))
        (prompt_tokens (demo_job n)) (job_params (demo_job n)) (job_namespace (demo_job n)) (e_sched (with_tier t demo_engine)))")
      (auto simp: engine_admit_def Let_def)
  with demo_admitted show ?thesis by blast
qed

lemma demo_cancelled:
  obtains e1 r e2 out e3 where "engine_admit demo_env (demo_job 1) demo_engine = Some (Inr 0, e1)"
    "engine_cancel ''r'' e1 = Some (r, e2)" "engine_step demo_env e2 = Some (Inr out, e3)" "engine_inv demo_env e2" "singles e2"
    "dom (seqs (e_sched e2)) = {0}" "seqs (e_sched e3) = Map.empty" "completed out = [''r'']"
    "map fst (terminal_events (events out)) = [''r'']" "\<not> is_idle e2" "e_delta_seq e2 ''r'' = Some 0"
proof -
  from demo_admits obtain e1 where a: "engine_admit demo_env (demo_job 1) demo_engine = Some (Inr 0, e1)" by blast
  have n: "choices_of (job_params (demo_job 1)) = 1" "job_request_id (demo_job 1) = ''r''"
    by (simp_all add: demo_job_choices, simp add: demo_job_def)
  from engine_admit_ok [OF demo_env_ok demo_engine_new(2), of "demo_job 1"] n(1) a have i1: "engine_inv demo_env e1" by auto
  from cancel_then_step [OF demo_env_ok demo_engine_new(2) demo_engine_fields(1) _ a] n obtain r e2 out e3 where
    c: "engine_cancel ''r'' e1 = Some (r, e2)" "engine_step demo_env e2 = Some (Inr out, e3)" "dom (seqs (e_sched e2)) = {0}"
      "completed out = [''r'']" "map fst (terminal_events (events out)) = [''r'']" "seqs (e_sched e3) = Map.empty" by auto
  from engine_cancel_ok [OF i1, of "''r''"] c(1) have i2: "engine_inv demo_env e2" "e_delta_seq e2 = e_delta_seq e1" by auto
  have f: "e_open_choices e2 = e_open_choices e1" "e_choice_of e2 = e_choice_of e1"
    using c(1) by (auto simp: engine_cancel_def bind_eq_Some_conv)
  have "one_choice (demo_job 1)" by (simp add: one_choice_def demo_job_choices)
  moreover have "singles demo_engine" by (simp add: singles_def demo_engine_fields)
  ultimately have "singles e1" using engine_admit_singles a by blast
  then have s2: "singles e2" using f by (simp add: singles_def)
  have d1: "e_delta_seq e1 ''r'' = Some 0"
    using engine_admit_fresh_counter [OF a] n(2) by simp
  have "sinv (running (e_sched e2)) {} (e_sched e2)" using i2(1) by (simp add: engine_inv_def sched_inv_def)
  then have "set (scheduler.waiting (e_sched e2)) \<union> set (running (e_sched e2)) \<union> set (finished (e_sched e2)) = {0}"
    using c(3) by (auto simp: sinv_def)
  then have "scheduler.waiting (e_sched e2) \<noteq> [] \<or> running (e_sched e2) \<noteq> [] \<or> finished (e_sched e2) \<noteq> []" by force
  then have "\<not> is_idle e2" unfolding is_idle_def num_running_def num_waiting_def has_finished_def by simp
  moreover have "e_delta_seq e2 ''r'' = Some 0" using d1 i2(2) by metis
  ultimately show thesis by (rule that [OF a c(1,2) i2(1) s2 c(3,6,4,5)])
qed

section \<open>The engine thread\<close>

text \<open>
  C18: The decoder never panics.  From a new engine, after any number of turns of the engine thread on
  requests with one choice, with commands that arrive in any order, steps that fail and spill files
  that cannot be written, the next turn returns, the scheduler's blocks are all accounted for, a turn
  whose step failed leaves the engine idle, and the thread gives up only after the configured number of
  failures in a row.
\<close>

theorem engine_never_panics:
  assumes "env_ok env" "settings_ok env st fs" "engine_new env st fs dev wid = Some e0"
    "worker_run (engine_ops env show_error) m one_choice e0 (e, failures)" "list_all (command_served one_choice) cmds"
  shows "\<exists>go rep e' n. turn (engine_ops env show_error) m cmds (e, failures) = Some (go, rep, e', n) \<and>
    sched_inv (e_sched e') \<and> (n = failures + 1 \<longrightarrow> is_idle e') \<and> (\<not> go \<longrightarrow> 0 < m \<and> m \<le> n)"
proof -
  from engine_new_ok [OF assms(2), of dev wid] assms(3) have "engine_inv env e0" by auto
  with assms(1) have "env_ok env \<and> engine_inv env e0" by simp
  from decoder.run_inv [OF this assms(4)] have "env_ok env \<and> engine_inv env e" by simp
  from decoder.turn_ok [OF this assms(5), of show_error m failures] show ?thesis
    by (auto simp: engine_inv_def engine_ops_def)
qed

theorem engine_never_panics_witness:
  "\<exists>go rep e' n. turn (engine_ops demo_env (\<lambda>_. ''error'')) 3 [Admit (demo_job 1), Cancel ''q''] (demo_engine, 0) =
     Some (go, rep, e', n) \<and> sched_inv (e_sched e')"
proof -
  have "list_all (command_served one_choice) [Admit (demo_job 1), Cancel ''q'']"
    by (simp add: one_choice_def demo_job_choices)
  from engine_never_panics [OF demo_env_ok demo_settings_ok demo_engine_new(1) worker_run.spawn this, of "\<lambda>_. ''error''" 3]
  show ?thesis by blast
qed

lemma observe_numbered:
  "fold (\<lambda>m c. snd (observe (dm_seq m) c)) (numbered (expected c) ds) c = c\<lparr>expected := expected c + length ds\<rparr>"
proof (induction ds arbitrary: c)
  case (Cons d ds)
  have "snd (observe (expected c) c) = c\<lparr>expected := Suc (expected c)\<rparr>" by (simp add: observe_def)
  with Cons.IH [of "c\<lparr>expected := Suc (expected c)\<rparr>"] show ?case by simp
qed simp

text \<open>
  C19: What the gateway receives of one turn has no gap.  In a turn whose commands are about other
  requests (they neither admit nor cancel this one, nor fail all), the deltas of a request are numbered
  from its counter in the order they were made, so a check that has seen all earlier ones counts none
  missing and expects exactly the number the engine goes on with; a completed request starts again from
  zero.  A turn that cancels the request forgets its counter first, and its last delta is numbered from
  zero again: \<open>cancelled_delta_restarts\<close>.
\<close>

theorem turn_leaves_no_gap:
  assumes "env_ok env" "engine_inv env e" "list_all (command_served one_choice) cmds" "list_all (command_spares rid) cmds"
    "turn (engine_ops env show_error) m cmds (e, failures) = Some (go, rep, e', n)"
    "expected c = next_seq (e_delta_seq e) rid"
  shows "let ms = deltas_of rid (rep_deltas rep); c' = fold (\<lambda>msg c. snd (observe (dm_seq msg) c)) ms c in
    gaps c' = gaps c \<and> expected c' = expected c + length ms \<and>
    next_seq (e_delta_seq e') rid = (if rid \<in> set (rep_completed rep) then 0 else expected c')"
proof -
  from decoder.turn_numbers [OF conjI [OF assms(1,2)] assms(3-5)] obtain ds where
    d: "deltas_of rid (rep_deltas rep) = numbered (next_seq (e_delta_seq e) rid) ds"
      "next_seq (e_delta_seq e') rid = (if rid \<in> set (rep_completed rep) then 0 else next_seq (e_delta_seq e) rid + length ds)" by blast
  have "length (numbered k ds) = length ds" for k by (induction k ds rule: numbered.induct) simp_all
  with d observe_numbered [of c ds] assms(6) show ?thesis by (simp add: Let_def)
qed

text \<open>The instance: the turn that drains a cancelled request and sends its last delta.\<close>

lemma demo_turn:
  obtains e2 rep e' where "engine_inv demo_env e2" "next_seq (e_delta_seq e2) ''r'' = 0"
    "turn (engine_ops demo_env (\<lambda>_. ''error'')) 3 [] (e2, 0) = Some (True, rep, e', 0)"
    "deltas_of ''r'' (rep_deltas rep) \<noteq> []" "rep_completed rep = [''r'']"
proof -
  obtain e1 r e2 out e3 where c: "engine_step demo_env e2 = Some (Inr out, e3)" "engine_inv demo_env e2" "\<not> is_idle e2"
    "completed out = [''r'']" "map fst (terminal_events (events out)) = [''r'']" "e_delta_seq e2 ''r'' = Some 0"
    by (rule demo_cancelled)
  let ?w = "engine_ops demo_env (\<lambda>_. ''error'')" and ?rep = "\<lparr>rep_deltas = [], rep_completed = []\<rparr>"
  from engine_step_ok [OF demo_env_ok c(2)] c(1) have i3: "env_ok demo_env \<and> engine_inv demo_env e3" by (simp add: demo_env_ok)
  obtain e4 rep where p: "publish_output ?w out (e3, ?rep) = (e4, rep)" by fastforce
  have t: "turn ?w 3 [] (e2, 0) = Some (True, rep, e4, 0)"
    using c(1,3) p by (simp add: turn_def engine_ops_def)
  note d = decoder.publish_numbers(1) [OF i3 p, of "''r''"] decoder.publish_numbers(3) [OF i3 p]
  have "''r'' \<in> set (map fst (terminal_events (events out)))" unfolding c(5) by simp
  then obtain x where "x \<in> set (events out)" "fst x = ''r''" by auto
  then have "deltas_of ''r'' (events out) \<noteq> []" by (auto simp: deltas_of_def filter_empty_conv)
  then have "deltas_of ''r'' (rep_deltas rep) \<noteq> []"
    using d(1) by (cases "deltas_of ''r'' (events out)") simp_all
  moreover have "rep_completed rep = [''r'']" using d(2) c(4) by simp
  moreover have "next_seq (e_delta_seq e2) ''r'' = 0" using c(6) by (simp add: next_seq_def)
  ultimately show thesis using that c(2) t by blast
qed

theorem turn_leaves_no_gap_witness:
  "\<exists>e2 rep e'. turn (engine_ops demo_env (\<lambda>_. ''error'')) 3 [] (e2, 0) = Some (True, rep, e', 0) \<and>
     (let ms = deltas_of ''r'' (rep_deltas rep); c' = fold (\<lambda>msg c. snd (observe (dm_seq msg) c)) ms fresh_check in
      ms \<noteq> [] \<and> gaps c' = gaps fresh_check \<and> expected c' = length ms)"
proof -
  obtain e2 rep e' where t: "engine_inv demo_env e2" "next_seq (e_delta_seq e2) ''r'' = 0"
    "turn (engine_ops demo_env (\<lambda>_. ''error'')) 3 [] (e2, 0) = Some (True, rep, e', 0)"
    "deltas_of ''r'' (rep_deltas rep) \<noteq> []" by (rule demo_turn)
  have e: "expected fresh_check = next_seq (e_delta_seq e2) ''r''" using t(2) by (simp add: fresh_check_def)
  have "list_all (command_served one_choice) []" "list_all (command_spares ''r'') []" by simp_all
  from turn_leaves_no_gap [OF demo_env_ok t(1) this t(3) e] t show ?thesis by (auto simp: Let_def fresh_check_def)
qed

text \<open>
  A cancel forgets the counter before the sequence is drained: whatever was sent before, the next
  delta of the request, its \<open>Done\<close>, is numbered zero.
\<close>

lemma cancelled_delta_restarts:
  assumes "env_ok env" "engine_inv env e"
  shows "\<exists>e'. handle (engine_ops env show_error) (Cancel rid) (e, rep) = Some (e', rep) \<and>
    fst (w_sequence (engine_ops env show_error) rid d e') = \<lparr>dm_seq = 0, dm_delta = d\<rparr>"
proof -
  let ?w = "engine_ops env show_error"
  from decoder.cancel_ok [OF conjI [OF assms], of show_error rid] obtain r e1 where
    "w_cancel ?w rid e = Some (r, e1)" by blast
  moreover have "next_seq (e_delta_seq (w_forget ?w rid e1)) rid = 0" by (simp add: decoder.forget_counter)
  ultimately show ?thesis by (simp add: handle_def decoder.sequence_msg)
qed

section \<open>What a step reports\<close>



text \<open>
  Failing everything leaves nobody waiting.  After \<open>fail_all\<close> the engine holds no sequence and no
  block and is idle; every request that had a live sequence is completed, with \<open>Failed\<close> as its
  event, and there is no other event.
\<close>

theorem fail_all_tells_everyone:
  assumes "engine_inv env e" "fail_all msg e = Some (out, e')"
  shows "completed out = map fst (events out) \<and> (\<forall>x \<in> set (events out). snd x = Failed msg) \<and>
    (\<forall>i q. seqs (e_sched e) i = Some q \<longrightarrow> request_id q \<in> set (completed out)) \<and>
    seqs (e_sched e') = Map.empty \<and> is_idle e' \<and> (\<forall>b. rc (pool (e_sched e')) b = 0)"
  by (rule fail_all_reports [OF assms])

theorem fail_all_tells_everyone_witness:
  "\<exists>e1 out e'. engine_admit demo_env (demo_job 1) demo_engine = Some (Inr 0, e1) \<and>
     fail_all ''gone'' e1 = Some (out, e') \<and> ''r'' \<in> set (completed out) \<and> is_idle e'"
proof -
  from engine_admit_ok [OF demo_env_ok demo_engine_new(2), of "demo_job 1"] demo_job_choices obtain r e1 where
    1: "engine_admit demo_env (demo_job 1) demo_engine = Some (r, e1)" "engine_inv demo_env e1" by auto
  note a = demo_admitted [OF 1(1)]
  from fail_all_ok [OF 1(2), of "''gone''"] obtain out e' where f: "fail_all ''gone'' e1 = Some (out, e')" by blast
  from fail_all_tells_everyone [OF 1(2) f] have
    t: "\<forall>i q. seqs (e_sched e1) i = Some q \<longrightarrow> request_id q \<in> set (completed out)" "is_idle e'" by auto
  have "''r'' \<in> set (completed out)" using t(1) [rule_format, of 0] a(2) by (simp add: sequence_new_def)
  with 1(1) f a(1) t(2) show ?thesis by blast
qed

text \<open>
  C21: A request with several choices that is cancelled before its first token is never completed: the
  step that drains its only sequence sends the terminal event of one choice, reports no completed
  request, and leaves the other choices counted as open in an engine that is idle.
\<close>

theorem cancelled_choices_never_complete:
  assumes "env_ok env" "engine_inv env e" "seqs (e_sched e) = Map.empty" "choices_of (job_params j) > 1"
    "engine_admit env j e = Some (Inr i, e1)"
  shows "\<exists>r e2 out e3. engine_cancel (job_request_id j) e1 = Some (r, e2) \<and> engine_step env e2 = Some (Inr out, e3) \<and>
    completed out = [] \<and> map fst (terminal_events (events out)) = [job_request_id j] \<and>
    e_open_choices e3 (job_request_id j) = Some (choices_of (job_params j) - 1) \<and> seqs (e_sched e3) = Map.empty \<and> is_idle e3"
  by (rule cancelled_choices_stay_open [OF assms])

theorem cancelled_choices_never_complete_witness:
  "\<exists>e1 r e2 out e3. engine_admit demo_env (demo_job 2) demo_engine = Some (Inr 0, e1) \<and>
     engine_cancel ''r'' e1 = Some (r, e2) \<and> engine_step demo_env e2 = Some (Inr out, e3) \<and> completed out = [] \<and>
     e_open_choices e3 ''r'' = Some 1 \<and> is_idle e3"
proof -
  from demo_admits obtain e1 where a: "engine_admit demo_env (demo_job 2) demo_engine = Some (Inr 0, e1)" by blast
  have n: "choices_of (job_params (demo_job 2)) = 2" "job_request_id (demo_job 2) = ''r''" "1 < choices_of (job_params (demo_job 2))"
    by (simp_all add: demo_job_choices, simp add: demo_job_def)
  from cancelled_choices_never_complete [OF demo_env_ok demo_engine_new(2) demo_engine_fields(1) n(3) a] a n(1,2)
  show ?thesis by auto
qed

end
