(* ===== verification/Decision_Engine.thy ===== *)
theory Decision_Engine
  imports Worker_Runner Block_Hash
begin

text \<open>
  The single-pass path: the encoder's batch and its mock (\<open>vapi-engine/src/encoder.rs\<close>) and the
  engine that answers sets of questions (\<open>vapi-worker/src/decision.rs\<close>).  The backend is a function
  of its state; it may answer with any number of rows, or with an error.
\<close>

section \<open>The encoder's batch\<close>

record encoder_spec =
  enc_hidden_size :: nat
  enc_max_context :: nat
  enc_head_context :: nat
  enc_pad_token_id :: token

definition tiny_encoder :: encoder_spec where
  "tiny_encoder = \<lparr>enc_hidden_size = 16, enc_max_context = 128, enc_head_context = 48, enc_pad_token_id = 0\<rparr>"

record encoder_row =
  er_tokens :: "token list"
  er_markers :: "nat list"
  er_qtype :: question_type

definition er_options :: "encoder_row \<Rightarrow> nat" where
  "er_options r = length (er_markers r)"

type_synonym encoder_batch = "encoder_row list"

definition er_num_tokens :: "encoder_batch \<Rightarrow> nat" where
  "er_num_tokens b = (\<Sum>r\<leftarrow>b. length (er_tokens r))"

definition max_len :: "encoder_batch \<Rightarrow> nat" where
  "max_len b = fold (\<lambda>r m. max m (length (er_tokens r))) b 0"

definition max_options :: "encoder_batch \<Rightarrow> nat" where
  "max_options b = fold (\<lambda>r m. max m (er_options r)) b 0"

fun check_markers :: "nat \<Rightarrow> nat \<Rightarrow> nat option \<Rightarrow> nat list \<Rightarrow> error + unit" where
  "check_markers i n prev [] = Inr ()"
| "check_markers i n prev (m # ms) =
     (if m \<ge> n then
        Inl (Engine_error (''row '' @ show_nat i @ '' marker at '' @ show_nat m @ '' is past its '' @ show_nat n @ '' tokens''))
      else if (case prev of Some l \<Rightarrow> m \<le> l | None \<Rightarrow> False) then
        Inl (Engine_error (''row '' @ show_nat i @ '' markers are not strictly increasing''))
      else check_markers i n (Some m) ms)"

definition check_row :: "nat \<Rightarrow> nat \<Rightarrow> encoder_row \<Rightarrow> error + unit" where
  "check_row max_context i r =
     (if er_tokens r = [] then Inl (Engine_error (''row '' @ show_nat i @ '' has no tokens''))
      else if length (er_tokens r) > max_context then
        Inl (Engine_error (''row '' @ show_nat i @ '' is '' @ show_nat (length (er_tokens r)) @ '' tokens, over the ''
          @ show_nat max_context @ '' the encoder accepts''))
      else if length (er_markers r) < 2 then
        Inl (Engine_error (''row '' @ show_nat i @ '' has '' @ show_nat (length (er_markers r))
          @ '' option markers; every question has at least two''))
      else check_markers i (length (er_tokens r)) None (er_markers r))"

fun check_rows :: "nat \<Rightarrow> nat \<Rightarrow> encoder_batch \<Rightarrow> error + unit" where
  "check_rows max_context i [] = Inr ()"
| "check_rows max_context i (r # rs) =
     (case check_row max_context i r of Inl e \<Rightarrow> Inl e | Inr _ \<Rightarrow> check_rows max_context (Suc i) rs)"

definition encoder_validate :: "nat \<Rightarrow> encoder_batch \<Rightarrow> error + unit" where
  "encoder_validate max_context b = check_rows max_context 0 b"

section \<open>The mock encoder\<close>

text \<open>
  The score is exact: 24 bits of the hash, scaled by a power of two, less four.
\<close>

record mock_encoder =
  me_spec :: encoder_spec
  me_fail_on_call :: "nat option"
  me_calls :: nat
  me_batches_seen :: "encoder_batch list"
  me_record :: bool

definition mock_encoder_new :: mock_encoder where
  "mock_encoder_new =
     \<lparr>me_spec = tiny_encoder, me_fail_on_call = None, me_calls = 0, me_batches_seen = [], me_record = False\<rparr>"

definition mock_score :: "encoder_row \<Rightarrow> nat \<Rightarrow> f32" where
  "mock_score r k =
     (let h = fold fnv_byte (concat (map (le_bytes 4) (er_tokens r))) 0xcbf29ce484222325;
          h = xor h (of_nat k * 0x9e3779b97f4a7c15);
          h = h * 0x100000001b3
      in Fin (of_nat (unat (drop_bit 40 h)) / 16777216 * 8 - 4))"

definition mock_encoder_forward :: "encoder_batch \<Rightarrow> mock_encoder \<Rightarrow> (error + row_scores list) \<times> mock_encoder" where
  "mock_encoder_forward b m =
     (case encoder_validate (enc_max_context (me_spec m)) b of
        Inl e \<Rightarrow> (Inl e, m)
      | Inr _ \<Rightarrow>
          let call = me_calls m;
              m = m\<lparr>me_calls := call + 1, me_batches_seen := (if me_record m then me_batches_seen m @ [b] else me_batches_seen m)\<rparr>
          in if me_fail_on_call m = Some call
             then (Inl (Engine_error (''mock encoder failing on call '' @ show_nat call)), m)
             else (Inr (map (\<lambda>r. \<lparr>rs_logits = map (mock_score r) [0..<er_options r], rs_act = Fin (3 / 4)\<rparr>) b), m))"

section \<open>The engine\<close>

record pending_decision =
  pd_request_id :: string
  pd_rows :: "encoder_row list"
  pd_scores :: "row_scores option list"
  pd_prompt_tokens :: nat

definition unanswered :: "pending_decision \<Rightarrow> nat list" where
  "unanswered p = filter (\<lambda>i. pd_scores p ! i = None) [0..<length (pd_rows p)]"

definition pd_complete :: "pending_decision \<Rightarrow> bool" where
  "pd_complete p = list_all (\<lambda>s. s \<noteq> None) (pd_scores p)"

record 'b decision_engine =
  de_backend :: 'b
  de_queue :: "pending_decision list"
  de_delta_seq :: "string \<rightharpoonup> delta_seq"
  de_max_requests :: nat
  de_max_rows :: nat
  de_max_batched_tokens :: nat
  de_worker_id :: string

definition decision_new :: "'b \<Rightarrow> nat \<Rightarrow> nat \<Rightarrow> nat \<Rightarrow> string \<Rightarrow> 'b decision_engine" where
  "decision_new dev max_requests max_rows max_batched wid =
     \<lparr>de_backend = dev, de_queue = [], de_delta_seq = Map.empty, de_max_requests = max max_requests 1,
      de_max_rows = max max_rows 1, de_max_batched_tokens = max max_batched 1, de_worker_id = wid\<rparr>"

fun row_error_text :: "row_error \<Rightarrow> string" where
  "row_error_text (RowPastEnd a b n) =
     ''decision row needs tokens '' @ show_nat a @ ''..'' @ show_nat b @ '' of '' @ show_nat n"
| "row_error_text (TokensLeftOver k n) =
     show_nat k @ '' tokens left over after '' @ show_nat n @ '' decision rows''"

definition decision_admit :: "nat \<Rightarrow> job \<Rightarrow> 'b decision_engine \<Rightarrow> (error + unit) \<times> 'b decision_engine" where
  "decision_admit max_context j e =
     (if job_kind j \<noteq> Decision then
        (Inl (InvalidRequest (''this worker serves decisions; it was handed a '' @ kind_text (job_kind j) @ '' job'')), e)
      else case decision_rows j of
        Inl err \<Rightarrow> (Inl (InvalidRequest (''malformed decision job: '' @ row_error_text err)), e)
      | Inr parts \<Rightarrow>
          if parts = [] then (Inl (InvalidRequest ''decision job has no questions''), e)
          else
            let rows = map (\<lambda>(ts, r). \<lparr>er_tokens = ts, er_markers = markers r, er_qtype = qtype r\<rparr>) parts
            in case encoder_validate max_context rows of
                 Inl err \<Rightarrow> (Inl err, e)
               | Inr _ \<Rightarrow>
                   (Inr (), e\<lparr>de_queue := de_queue e @
                      [\<lparr>pd_request_id = job_request_id j, pd_rows = rows, pd_scores = replicate (length rows) None,
                        pd_prompt_tokens = length (prompt_tokens j)\<rparr>]\<rparr>))"

definition decision_cancel :: "string \<Rightarrow> 'b decision_engine \<Rightarrow> bool \<times> 'b decision_engine" where
  "decision_cancel rid e =
     (let q = filter (\<lambda>p. pd_request_id p \<noteq> rid) (de_queue e)
      in (length (de_queue e) \<noteq> length q, e\<lparr>de_queue := q\<rparr>))"

definition decision_fail_all :: "string \<Rightarrow> 'b decision_engine \<Rightarrow> step_output \<times> 'b decision_engine" where
  "decision_fail_all msg e =
     (let rids = map pd_request_id (de_queue e)
      in (\<lparr>events = map (\<lambda>rid. (rid, Failed msg)) rids, completed = rids, did_work = (rids \<noteq> [])\<rparr>, e\<lparr>de_queue := []\<rparr>))"

definition decision_is_idle :: "'b decision_engine \<Rightarrow> bool" where
  "decision_is_idle e = (de_queue e = [])"

definition decision_headroom :: "'b decision_engine \<Rightarrow> nat" where
  "decision_headroom e = de_max_requests e - length (de_queue e)"

definition decision_stats :: "'b decision_engine \<Rightarrow> nat \<times> nat" where
  "decision_stats e =
     (let started = length (filter (\<lambda>p. list_ex (\<lambda>s. s \<noteq> None) (pd_scores p)) (de_queue e))
      in (started, length (de_queue e) - started))"

text \<open>
  The rows of the next pass: the unanswered rows in arrival order, with their lengths, as long as
  the budget allows; the first one always.
\<close>

fun select_loop ::
  "nat \<Rightarrow> nat \<Rightarrow> ((nat \<times> nat) \<times> nat) list \<Rightarrow> nat \<Rightarrow> (nat \<times> nat) list \<Rightarrow> (nat \<times> nat) list" where
  "select_loop max_rows budget [] width picked = picked"
| "select_loop max_rows budget ((qr, len) # rest) width picked =
     (let next_width = max width len; cost = (length picked + 1) * next_width in
      if picked \<noteq> [] \<and> (length picked \<ge> max_rows \<or> cost > budget) then picked
      else select_loop max_rows budget rest next_width (picked @ [qr]))"

definition candidates :: "pending_decision list \<Rightarrow> ((nat \<times> nat) \<times> nat) list" where
  "candidates queue =
     concat (map (\<lambda>(q, p). map (\<lambda>r. ((q, r), length (er_tokens (pd_rows p ! r)))) (unanswered p)) (enumerate 0 queue))"

definition select :: "'b decision_engine \<Rightarrow> (nat \<times> nat) list" where
  "select e = select_loop (de_max_rows e) (de_max_batched_tokens e) (candidates (de_queue e)) 0 []"

definition store_score :: "(nat \<times> nat) \<times> row_scores \<Rightarrow> pending_decision list \<Rightarrow> pending_decision list option" where
  "store_score = (\<lambda>((q, r), sc) queue. do {
     p \<leftarrow> index queue q;
     ensure (r < length (pd_scores p));
     Some (queue[q := p\<lparr>pd_scores := (pd_scores p)[r := Some sc]\<rparr>]) })"

definition decision_answer :: "pending_decision \<Rightarrow> string \<times> delta" where
  "decision_answer p = (pd_request_id p, Decided (map the (filter (\<lambda>s. s \<noteq> None) (pd_scores p))) (pd_prompt_tokens p))"

definition picked_row :: "pending_decision list \<Rightarrow> nat \<times> nat \<Rightarrow> encoder_row option" where
  "picked_row queue = (\<lambda>(q, r). do { p \<leftarrow> index queue q; index (pd_rows p) r })"

definition starts :: "pending_decision list \<Rightarrow> nat \<times> nat \<Rightarrow> bool option" where
  "starts queue = (\<lambda>(q, r). do { p \<leftarrow> index queue q; Some (list_all (\<lambda>s. s = None) (pd_scores p) \<and> r = 0) })"

fun started_requests :: "string \<Rightarrow> pending_decision list \<Rightarrow> (nat \<times> nat) list \<Rightarrow> (string \<times> delta) list option" where
  "started_requests wid queue [] = Some []"
| "started_requests wid queue (qr # rest) = do {
     new \<leftarrow> starts queue qr;
     p \<leftarrow> index queue (fst qr);
     evs \<leftarrow> started_requests wid queue rest;
     Some (if new then (pd_request_id p, Started wid 0) # evs else evs) }"

fun all_rows :: "pending_decision list \<Rightarrow> (nat \<times> nat) list \<Rightarrow> encoder_row list option" where
  "all_rows queue [] = Some []"
| "all_rows queue (qr # rest) = do { r \<leftarrow> picked_row queue qr; rs \<leftarrow> all_rows queue rest; Some (r # rs) }"

definition decision_step ::
  "(encoder_batch \<Rightarrow> 'b \<Rightarrow> (error + row_scores list) \<times> 'b) \<Rightarrow> 'b decision_engine \<Rightarrow>
   ((error + step_output) \<times> 'b decision_engine) option" where
  "decision_step forward e =
     (let picked = select e in
      if picked = [] then Some (Inr \<lparr>events = [], completed = [], did_work = False\<rparr>, e)
      else do {
        evs \<leftarrow> started_requests (de_worker_id e) (de_queue e) picked;
        rows \<leftarrow> all_rows (de_queue e) picked;
        case forward rows (de_backend e) of
          (Inl err, dev) \<Rightarrow> Some (Inl err, e\<lparr>de_backend := dev\<rparr>)
        | (Inr answers, dev) \<Rightarrow>
            if length answers \<noteq> length rows then
              Some (Inl (Engine_error (''backend answered '' @ show_nat (length answers) @ '' of ''
                @ show_nat (length rows) @ '' rows'')), e\<lparr>de_backend := dev\<rparr>)
            else do {
              queue \<leftarrow> for_each store_score (zip picked answers) (de_queue e);
              let fin = filter pd_complete queue;
              Some (Inr \<lparr>events = evs @ map decision_answer fin, completed = map pd_request_id fin, did_work = True\<rparr>,
                    e\<lparr>de_backend := dev, de_queue := filter (\<lambda>p. \<not> pd_complete p) queue\<rparr>) } })"

definition decision_sequence :: "string \<Rightarrow> delta \<Rightarrow> 'b decision_engine \<Rightarrow> delta_msg \<times> 'b decision_engine" where
  "decision_sequence rid d e = (case stamp_with rid d (de_delta_seq e) of (m, sq) \<Rightarrow> (m, e\<lparr>de_delta_seq := sq\<rparr>))"

definition decision_forget :: "string \<Rightarrow> 'b decision_engine \<Rightarrow> 'b decision_engine" where
  "decision_forget rid e = e\<lparr>de_delta_seq := (de_delta_seq e)(rid := None)\<rparr>"

definition decision_ops ::
  "(encoder_batch \<Rightarrow> 'b \<Rightarrow> (error + row_scores list) \<times> 'b) \<Rightarrow> nat \<Rightarrow> (error \<Rightarrow> string) \<Rightarrow> 'b decision_engine worker_engine" where
  "decision_ops forward max_context show_error =
     \<lparr>w_admit = (\<lambda>j e. Some (map_prod (map_sum show_error id) id (decision_admit max_context j e))),
      w_cancel = (\<lambda>rid e. Some (decision_cancel rid e)), w_fail_all = (\<lambda>msg e. Some (decision_fail_all msg e)),
      w_step = (\<lambda>e. map_option (map_prod (map_sum show_error id) id) (decision_step forward e)),
      w_is_idle = decision_is_idle, w_headroom = decision_headroom, w_sequence = decision_sequence,
      w_forget = decision_forget\<rparr>"

section \<open>The batch that is validated\<close>

lemma check_markers_ok:
  "check_markers i n prev ms = Inr () \<longleftrightarrow>
   (\<forall>m \<in> set ms. m < n) \<and> sorted_wrt (<) ms \<and> (\<forall>l. prev = Some l \<longrightarrow> (\<forall>m \<in> set ms. l < m))"
  by (induction i n prev ms rule: check_markers.induct) (auto split: option.splits)

definition row_ok :: "nat \<Rightarrow> encoder_row \<Rightarrow> bool" where
  "row_ok max_context r =
     (er_tokens r \<noteq> [] \<and> length (er_tokens r) \<le> max_context \<and> 2 \<le> length (er_markers r) \<and>
      (\<forall>m \<in> set (er_markers r). m < length (er_tokens r)) \<and> sorted_wrt (<) (er_markers r))"

lemma check_rows_ok: "check_rows max_context i rs = Inr () \<longleftrightarrow> list_all (row_ok max_context) rs"
proof (induction max_context i rs rule: check_rows.induct)
  case (2 max_context i r rs)
  have "check_row max_context i r = Inr () \<longleftrightarrow> row_ok max_context r"
    by (auto simp: check_row_def row_ok_def check_markers_ok not_less)
  with 2 show ?case by (cases "check_row max_context i r") auto
qed simp

lemma encoder_validate_ok: "encoder_validate max_context b = Inr () \<longleftrightarrow> list_all (row_ok max_context) b"
  by (simp add: encoder_validate_def check_rows_ok)

section \<open>Selection\<close>

lemma candidates_iff:
  "((q, r), len) \<in> set (candidates queue) \<longleftrightarrow>
   q < length queue \<and> r < length (pd_rows (queue ! q)) \<and> pd_scores (queue ! q) ! r = None \<and>
   len = length (er_tokens (pd_rows (queue ! q) ! r))"
proof -
  have "((q, r), len) \<in> set (candidates queue) \<longleftrightarrow>
      (\<exists>p. (q, p) \<in> set (enumerate 0 queue) \<and> r \<in> set (unanswered p) \<and> len = length (er_tokens (pd_rows p ! r)))"
    by (fastforce simp: candidates_def)
  also have "\<dots> = (q < length queue \<and> r \<in> set (unanswered (queue ! q)) \<and> len = length (er_tokens (pd_rows (queue ! q) ! r)))"
    by (auto simp: in_set_enumerate_eq)
  finally show ?thesis by (simp add: unanswered_def)
qed

text \<open>The cost of a pass: its rows times its widest row.\<close>

definition pass_width :: "((nat \<times> nat) \<times> nat) list \<Rightarrow> nat" where
  "pass_width cs = fold (\<lambda>c m. max m (snd c)) cs 0"

lemma select_loop_prefix:
  assumes "picked = [] \<or> (length picked \<le> max_rows \<and> (length picked = 1 \<or> length picked * width \<le> budget))" "0 < max_rows"
  shows "\<exists>k. k \<le> length cs \<and> select_loop max_rows budget cs width picked = picked @ map fst (take k cs) \<and>
    (picked = [] \<and> cs \<noteq> [] \<longrightarrow> 0 < k) \<and> length picked + k \<le> max max_rows (length picked) \<and>
    (1 < length picked + k \<longrightarrow> (length picked + k) * fold (\<lambda>c m. max m (snd c)) (take k cs) width \<le> budget)"
  using assms
proof (induction max_rows budget cs width picked rule: select_loop.induct)
  case (1 max_rows budget width picked)
  then show ?case by auto
next
  case (2 max_rows budget qr len rest width picked)
  let ?w = "max width len"
  show ?case
  proof (cases "picked \<noteq> [] \<and> (length picked \<ge> max_rows \<or> (length picked + 1) * ?w > budget)")
    case True
    with 2(2) show ?thesis by (intro exI [of _ 0]) (auto simp: Let_def)
  next
    case False
    then have "picked @ [qr] = [] \<or> (length (picked @ [qr]) \<le> max_rows \<and> (length (picked @ [qr]) = 1 \<or> length (picked @ [qr]) * ?w \<le> budget))"
      using 2(2,3) by auto
    from 2(1) [OF refl refl _ this 2(3)] False obtain k where
      k: "k \<le> length rest" "select_loop max_rows budget rest ?w (picked @ [qr]) = (picked @ [qr]) @ map fst (take k rest)"
        "length (picked @ [qr]) + k \<le> max max_rows (length (picked @ [qr]))"
        "1 < length (picked @ [qr]) + k \<longrightarrow> (length (picked @ [qr]) + k) * fold (\<lambda>c m. max m (snd c)) (take k rest) ?w \<le> budget"
      by auto
    have "length picked < max_rows" using False 2(3) by auto
    with False k show ?thesis by (intro exI [of _ "Suc k"]) (auto simp: Let_def)
  qed
qed

section \<open>Storing scores\<close>

text \<open>\<open>A r s\<close> says that \<open>s\<close> is a correct answer to the row \<open>r\<close>; it is the backend's promise.\<close>

definition scores_ok :: "(encoder_row \<Rightarrow> row_scores \<Rightarrow> bool) \<Rightarrow> pending_decision \<Rightarrow> bool" where
  "scores_ok A p =
     (pd_rows p \<noteq> [] \<and> length (pd_scores p) = length (pd_rows p) \<and>
      (\<forall>r sc. r < length (pd_rows p) \<longrightarrow> pd_scores p ! r = Some sc \<longrightarrow> A (pd_rows p ! r) sc))"

definition grown :: "pending_decision \<Rightarrow> pending_decision \<Rightarrow> bool" where
  "grown p p' =
     (pd_request_id p' = pd_request_id p \<and> pd_rows p' = pd_rows p \<and> pd_prompt_tokens p' = pd_prompt_tokens p \<and>
      length (pd_scores p') = length (pd_scores p) \<and> (\<forall>r. pd_scores p ! r \<noteq> None \<longrightarrow> r < length (pd_scores p) \<longrightarrow> pd_scores p' ! r \<noteq> None))"

lemma grown_refl [simp]: "grown p p"
  by (simp add: grown_def)

lemma grown_trans: "grown p q \<Longrightarrow> grown q r \<Longrightarrow> grown p r"
  by (simp add: grown_def)

lemma grown_list_trans: "list_all2 grown ps qs \<Longrightarrow> list_all2 grown qs rs \<Longrightarrow> list_all2 grown ps rs"
  by (rule list_all2_trans [where ?P1.0 = grown and ?P2.0 = grown]) (auto intro: grown_trans)

definition fits :: "(encoder_row \<Rightarrow> row_scores \<Rightarrow> bool) \<Rightarrow> pending_decision list \<Rightarrow> (nat \<times> nat) \<times> row_scores \<Rightarrow> bool" where
  "fits A queue = (\<lambda>((q, r), sc). q < length queue \<and> r < length (pd_rows (queue ! q)) \<and> A (pd_rows (queue ! q) ! r) sc)"

lemma fits_grown:
  assumes "list_all2 grown queue queue'" "fits A queue x"
  shows "fits A queue' x"
proof -
  obtain q r sc where x: "x = ((q, r), sc)" by (metis surj_pair)
  have "q < length queue" using assms(2) x by (simp add: fits_def)
  then have "grown (queue ! q) (queue' ! q)" "length queue' = length queue"
    using assms(1) by (auto simp: list_all2_conv_all_nth)
  then show ?thesis using assms(2) by (simp add: fits_def x grown_def)
qed

lemma store_score_ok:
  assumes "fits A queue ((q, r), sc)" "\<forall>p \<in> set queue. scores_ok A p"
  shows "\<exists>queue'. store_score ((q, r), sc) queue = Some queue' \<and> list_all2 grown queue queue' \<and>
    (\<forall>p \<in> set queue'. scores_ok A p) \<and> pd_scores (queue' ! q) ! r \<noteq> None"
proof -
  let ?p = "queue ! q"
  let ?p' = "?p\<lparr>pd_scores := (pd_scores ?p)[r := Some sc]\<rparr>"
  have q: "q < length queue" "r < length (pd_rows ?p)" "A (pd_rows ?p ! r) sc" using assms(1) by (simp_all add: fits_def)
  have p: "scores_ok A ?p" using assms(2) q(1) by simp
  then have len: "length (pd_scores ?p) = length (pd_rows ?p)" by (simp add: scores_ok_def)
  have "scores_ok A ?p'" using p q(2,3) unfolding scores_ok_def by (auto simp: nth_list_update)
  moreover have "grown ?p ?p'" using q(2) len by (auto simp: grown_def nth_list_update)
  then have "list_all2 grown queue (queue[q := ?p'])"
    using q(1) by (auto simp: list_all2_conv_all_nth nth_list_update)
  ultimately show ?thesis
    using q(1,2) len assms(2) by (auto simp: store_score_def index_def ensure_def dest!: set_mp [OF set_update_subset_insert])
qed

lemma store_all_ok:
  assumes "\<forall>x \<in> set xs. fits A queue x" "\<forall>p \<in> set queue. scores_ok A p"
  shows "\<exists>queue'. for_each store_score xs queue = Some queue' \<and> list_all2 grown queue queue' \<and>
    (\<forall>p \<in> set queue'. scores_ok A p) \<and> (\<forall>((q, r), sc) \<in> set xs. pd_scores (queue' ! q) ! r \<noteq> None)"
  using assms
proof (induction xs arbitrary: queue)
  case Nil
  then show ?case by (simp add: list_all2_refl)
next
  case (Cons x xs)
  obtain q r sc where x: "x = ((q, r), sc)" by (metis surj_pair)
  from Cons.prems store_score_ok [of A queue q r sc] x obtain q1 where
    1: "store_score x queue = Some q1" "list_all2 grown queue q1" "\<forall>p \<in> set q1. scores_ok A p" "pd_scores (q1 ! q) ! r \<noteq> None" by auto
  have "\<forall>y \<in> set xs. fits A q1 y" using Cons.prems(1) fits_grown [OF 1(2)] by simp
  from Cons.IH [OF this 1(3)] obtain q2 where
    2: "for_each store_score xs q1 = Some q2" "list_all2 grown q1 q2" "\<forall>p \<in> set q2. scores_ok A p"
      "\<forall>((q, r), sc) \<in> set xs. pd_scores (q2 ! q) ! r \<noteq> None" by blast
  have "fits A q1 x" by (rule fits_grown [OF 1(2)]) (use Cons.prems(1) in simp)
  then have "q < length q1" "r < length (pd_scores (q1 ! q))" using x 1(3) by (auto simp: fits_def scores_ok_def)
  moreover from this(1) have "grown (q1 ! q) (q2 ! q)" using 2(2) by (simp add: list_all2_conv_all_nth)
  ultimately have "pd_scores (q2 ! q) ! r \<noteq> None" using 1(4) by (simp add: grown_def)
  with 1(1) 2 grown_list_trans [OF 1(2) 2(2)] x show ?case by auto
qed

section \<open>The step\<close>

definition decision_inv :: "(encoder_row \<Rightarrow> row_scores \<Rightarrow> bool) \<Rightarrow> 'b decision_engine \<Rightarrow> bool" where
  "decision_inv A e = (0 < de_max_rows e \<and> (\<forall>p \<in> set (de_queue e). scores_ok A p \<and> \<not> pd_complete p))"

text \<open>The rows still to be scored.\<close>

definition rows_left :: "pending_decision list \<Rightarrow> nat" where
  "rows_left queue = (\<Sum>p\<leftarrow>queue. length (unanswered p))"

lemma started_requests_total:
  "\<forall>qr \<in> set picked. fst qr < length queue \<Longrightarrow>
   \<exists>evs. started_requests wid queue picked = Some evs \<and> (\<forall>x \<in> set evs. snd x = Started wid 0)"
proof (induction picked)
  case (Cons qr picked)
  then obtain evs where "started_requests wid queue picked = Some evs" "\<forall>x \<in> set evs. snd x = Started wid 0" by auto
  with Cons.prems show ?case by (cases qr) (auto simp: starts_def index_def)
qed simp

lemma all_rows_total:
  "\<forall>(q, r) \<in> set picked. q < length queue \<and> r < length (pd_rows (queue ! q)) \<Longrightarrow>
   all_rows queue picked = Some (map (\<lambda>(q, r). pd_rows (queue ! q) ! r) picked)"
  by (induction queue picked rule: all_rows.induct) (auto simp: picked_row_def index_def)

lemma select_ok:
  assumes "0 < de_max_rows e"
  shows "\<forall>(q, r) \<in> set (select e). q < length (de_queue e) \<and> r < length (pd_rows (de_queue e ! q)) \<and>
      pd_scores (de_queue e ! q) ! r = None"
    "select e = [] \<longleftrightarrow> candidates (de_queue e) = []"
proof -
  from select_loop_prefix [of "[]" "de_max_rows e" 0 "de_max_batched_tokens e" "candidates (de_queue e)"] assms obtain k where
    k: "select e = map fst (take k (candidates (de_queue e)))" "candidates (de_queue e) \<noteq> [] \<longrightarrow> 0 < k"
    by (auto simp: select_def)
  show "\<forall>(q, r) \<in> set (select e). q < length (de_queue e) \<and> r < length (pd_rows (de_queue e ! q)) \<and>
      pd_scores (de_queue e ! q) ! r = None"
    using k(1) candidates_iff [of _ _ _ "de_queue e"] by (auto dest!: in_set_takeD)
  show "select e = [] \<longleftrightarrow> candidates (de_queue e) = []" using k by auto
qed

lemma incomplete_unanswered:
  assumes "scores_ok A p"
  shows "pd_complete p \<longleftrightarrow> unanswered p = []"
  using assms by (auto simp: scores_ok_def pd_complete_def unanswered_def filter_empty_conv list_all_length)

lemma candidates_empty:
  assumes "decision_inv A e"
  shows "candidates (de_queue e) = [] \<longleftrightarrow> de_queue e = []"
proof
  assume c: "candidates (de_queue e) = []"
  show "de_queue e = []"
  proof (rule ccontr)
    assume "de_queue e \<noteq> []"
    then have "de_queue e ! 0 \<in> set (de_queue e)" by simp
    with assms incomplete_unanswered [of A "de_queue e ! 0"] have "unanswered (de_queue e ! 0) \<noteq> []"
      by (auto simp: decision_inv_def)
    then obtain r where "r \<in> set (unanswered (de_queue e ! 0))" using hd_in_set by blast
    then have "((0, r), length (er_tokens (pd_rows (de_queue e ! 0) ! r))) \<in> set (candidates (de_queue e))"
      using \<open>de_queue e \<noteq> []\<close> by (simp add: candidates_iff unanswered_def)
    with c show False by simp
  qed
qed (simp add: candidates_def)

lemma grown_unanswered:
  assumes "grown p p'" "scores_ok A p"
  shows "set (unanswered p') \<subseteq> set (unanswered p)"
  using assms by (auto simp: grown_def unanswered_def scores_ok_def)

lemma length_unanswered: "length (unanswered p) = card (set (unanswered p))"
proof -
  have "distinct (unanswered p)" by (simp add: unanswered_def)
  then show ?thesis by (simp add: distinct_card)
qed

lemma grown_rows_left:
  assumes "list_all2 grown queue queue'" "\<forall>p \<in> set queue. scores_ok A p"
  shows "rows_left queue' \<le> rows_left queue" "q < length queue \<Longrightarrow> r < length (pd_rows (queue ! q)) \<Longrightarrow>
    pd_scores (queue ! q) ! r = None \<Longrightarrow> pd_scores (queue' ! q) ! r \<noteq> None \<Longrightarrow> rows_left queue' < rows_left queue"
proof -
  have le: "length (unanswered p') \<le> length (unanswered p)" if "grown p p'" "scores_ok A p" for p p'
    using grown_unanswered [OF that] by (simp add: length_unanswered card_mono)
  have len: "length queue' = length queue" and nth: "\<And>i. i < length queue \<Longrightarrow> grown (queue ! i) (queue' ! i)"
    using assms(1) by (auto simp: list_all2_conv_all_nth)
  have pt: "length (unanswered (queue' ! i)) \<le> length (unanswered (queue ! i))" if "i < length queue" for i
    using le [OF nth [OF that]] assms(2) that by simp
  have sums: "rows_left queue = (\<Sum>i<length queue. length (unanswered (queue ! i)))"
    "rows_left queue' = (\<Sum>i<length queue. length (unanswered (queue' ! i)))"
    using len by (simp_all add: rows_left_def sum_list_sum_nth atLeast0LessThan)
  show "rows_left queue' \<le> rows_left queue" unfolding sums by (rule sum_mono) (use pt in simp)
  assume q: "q < length queue" "r < length (pd_rows (queue ! q))" "pd_scores (queue ! q) ! r = None" "pd_scores (queue' ! q) ! r \<noteq> None"
  have sub: "set (unanswered (queue' ! q)) \<subseteq> set (unanswered (queue ! q))"
    by (rule grown_unanswered [OF nth [OF q(1)], of A]) (use assms(2) q(1) in simp)
  have "r \<in> set (unanswered (queue ! q))" "r \<notin> set (unanswered (queue' ! q))" using q by (auto simp: unanswered_def)
  with sub have "set (unanswered (queue' ! q)) \<subset> set (unanswered (queue ! q))" by blast
  then have "length (unanswered (queue' ! q)) < length (unanswered (queue ! q))"
    by (simp add: length_unanswered psubset_card_mono)
  then show "rows_left queue' < rows_left queue"
    unfolding sums by (intro sum_strict_mono_ex1) (use pt q(1) in auto)
qed

lemma rows_left_partition: "rows_left (filter P queue) \<le> rows_left queue"
  by (induction queue) (auto simp: rows_left_def)

lemma complete_answers:
  assumes "scores_ok A p" "pd_complete p"
  shows "list_all2 A (pd_rows p) (map the (filter (\<lambda>s. s \<noteq> None) (pd_scores p)))"
proof -
  have f: "filter (\<lambda>s. s \<noteq> None) (pd_scores p) = pd_scores p"
    using assms(2) by (simp add: pd_complete_def list_all_iff)
  have "A (pd_rows p ! i) (the (pd_scores p ! i))" if "i < length (pd_rows p)" for i
  proof -
    have "i < length (pd_scores p)" using assms(1) that by (simp add: scores_ok_def)
    then obtain sc where "pd_scores p ! i = Some sc" using assms(2) by (auto simp: pd_complete_def list_all_length)
    with assms(1) that show ?thesis by (simp add: scores_ok_def)
  qed
  with f assms(1) show ?thesis by (simp add: list_all2_conv_all_nth scores_ok_def)
qed

text \<open>The answers of the complete requests, each with the request as it was queued.\<close>

lemma completed_rows:
  assumes "list_all2 grown q0 queue" "\<forall>p \<in> set queue. scores_ok A p"
  shows "\<exists>fin. map (\<lambda>(p, scs). (pd_request_id p, Decided scs (pd_prompt_tokens p))) fin = map decision_answer (filter pd_complete queue) \<and>
    map (\<lambda>x. pd_request_id (fst x)) fin = map pd_request_id (filter pd_complete queue) \<and>
    (\<forall>(p, scs) \<in> set fin. p \<in> set q0 \<and> list_all2 A (pd_rows p) scs)"
  using assms
proof (induction rule: list_all2_induct)
  case (Cons p q0 p' queue)
  have "\<forall>p \<in> set queue. scores_ok A p" using Cons.prems by simp
  from Cons.IH [OF this] obtain fin where f: "map (\<lambda>(p, scs). (pd_request_id p, Decided scs (pd_prompt_tokens p))) fin = map decision_answer (filter pd_complete queue)"
    "map (\<lambda>x. pd_request_id (fst x)) fin = map pd_request_id (filter pd_complete queue)"
    "\<forall>(p, scs) \<in> set fin. p \<in> set q0 \<and> list_all2 A (pd_rows p) scs" by blast
  show ?case
  proof (cases "pd_complete p'")
    case True
    let ?scs = "map the (filter (\<lambda>s. s \<noteq> None) (pd_scores p'))"
    have "list_all2 A (pd_rows p) ?scs" using complete_answers [of A p'] True Cons.prems Cons.hyps(1) by (simp add: grown_def)
    with True f Cons.hyps(1) show ?thesis
      by (intro exI [of _ "(p, ?scs) # fin"]) (auto simp: decision_answer_def grown_def)
  next
    case False
    with f show ?thesis by (intro exI [of _ fin]) auto
  qed
qed simp

text \<open>
  The backend's promise: the answers of a successful pass, when there is one per row, are correct for
  their rows.
\<close>

definition answers :: "(encoder_batch \<Rightarrow> 'b \<Rightarrow> (error + row_scores list) \<times> 'b) \<Rightarrow> (encoder_row \<Rightarrow> row_scores \<Rightarrow> bool) \<Rightarrow> bool" where
  "answers forward A = (\<forall>b d as d'. forward b d = (Inr as, d') \<longrightarrow> length as = length b \<longrightarrow> list_all2 A b as)"

text \<open>
  A step returns; a failed one keeps the queue; a successful one answers the requests whose rows are
  all scored, loses none of the others, and gets closer to an empty queue.
\<close>

lemma decision_step_ok:
  assumes inv: "decision_inv A e" and fw: "answers forward A"
  shows "\<exists>r e'. decision_step forward e = Some (r, e') \<and> decision_inv A e' \<and> de_delta_seq e' = de_delta_seq e \<and>
    (\<forall>err. r = Inl err \<longrightarrow> de_queue e' = de_queue e) \<and>
    (\<forall>out. r = Inr out \<longrightarrow> (de_queue e = [] \<and> e' = e \<and> events out = [] \<and> completed out = []) \<or>
       (rows_left (de_queue e') < rows_left (de_queue e) \<and>
        (\<exists>evs queue. events out = evs @ map decision_answer (filter pd_complete queue) \<and> (\<forall>x \<in> set evs. snd x = Started (de_worker_id e) 0) \<and>
           completed out = map pd_request_id (filter pd_complete queue) \<and> de_queue e' = filter (\<lambda>p. \<not> pd_complete p) queue \<and>
           list_all2 grown (de_queue e) queue \<and> (\<forall>p \<in> set queue. scores_ok A p))))"
proof (cases "select e = []")
  case True
  then have "de_queue e = []" using select_ok(2) [of e] candidates_empty [OF inv] inv by (simp add: decision_inv_def)
  with True inv show ?thesis by (simp add: decision_step_def)
next
  case False
  let ?q = "de_queue e"
  have mr: "0 < de_max_rows e" and ok: "\<forall>p \<in> set ?q. scores_ok A p" using inv by (auto simp: decision_inv_def)
  note sel = select_ok(1) [OF mr]
  from started_requests_total [of "select e" ?q "de_worker_id e"] sel obtain evs where
    evs: "started_requests (de_worker_id e) ?q (select e) = Some evs" "\<forall>x \<in> set evs. snd x = Started (de_worker_id e) 0" by force
  define rows where "rows = map (\<lambda>(q, r). pd_rows (?q ! q) ! r) (select e)"
  have rows: "all_rows ?q (select e) = Some rows" unfolding rows_def by (rule all_rows_total) (use sel in auto)
  obtain res dev where f: "forward rows (de_backend e) = (res, dev)" by fastforce
  show ?thesis
  proof (cases "\<exists>as. res = Inr as \<and> length as = length rows")
    case False
    then have "\<exists>err. decision_step forward e = Some (Inl err, e\<lparr>de_backend := dev\<rparr>)"
      using \<open>select e \<noteq> []\<close> evs(1) rows f by (cases res) (auto simp: decision_step_def Let_def)
    with inv show ?thesis by (auto simp: decision_inv_def)
  next
    case True
    then obtain as where as: "res = Inr as" "length as = length rows" by blast
    then have A: "list_all2 A rows as" using fw f unfolding answers_def by blast
    have "fits A ?q x" if "x \<in> set (zip (select e) as)" for x
    proof -
      obtain q r sc where x: "x = ((q, r), sc)" by (metis surj_pair)
      from that x obtain i where i: "i < length (select e)" "i < length as" "select e ! i = (q, r)" "as ! i = sc"
        by (auto simp: set_zip)
      then have "A (pd_rows (?q ! q) ! r) sc" using A by (auto simp: list_all2_conv_all_nth rows_def)
      moreover have "(q, r) \<in> set (select e)" using i by (metis nth_mem)
      ultimately show ?thesis using sel x by (auto simp: fits_def)
    qed
    with store_all_ok [of "zip (select e) as" A ?q] ok obtain queue where
      s: "for_each store_score (zip (select e) as) ?q = Some queue" "list_all2 grown ?q queue" "\<forall>p \<in> set queue. scores_ok A p"
        "\<forall>((q, r), sc) \<in> set (zip (select e) as). pd_scores (queue ! q) ! r \<noteq> None" by blast
    obtain q r where hd: "select e ! 0 = (q, r)" by fastforce
    have len: "length as = length (select e)" using as(2) by (simp add: rows_def)
    have "((q, r), as ! 0) \<in> set (zip (select e) as)" using hd \<open>select e \<noteq> []\<close> len by (force simp: set_zip)
    then have new: "pd_scores (queue ! q) ! r \<noteq> None" using s(4) by blast
    have "(q, r) \<in> set (select e)" using hd \<open>select e \<noteq> []\<close> by (metis length_greater_0_conv nth_mem)
    then have "q < length ?q" "r < length (pd_rows (?q ! q))" "pd_scores (?q ! q) ! r = None" using sel by auto
    from grown_rows_left(2) [OF s(2) ok this new] have "rows_left queue < rows_left ?q" .
    with rows_left_partition [of "\<lambda>p. \<not> pd_complete p" queue]
    have lt: "rows_left (filter (\<lambda>p. \<not> pd_complete p) queue) < rows_left ?q" by simp
    have "decision_step forward e = Some (Inr \<lparr>events = evs @ map decision_answer (filter pd_complete queue),
        completed = map pd_request_id (filter pd_complete queue), did_work = True\<rparr>,
        e\<lparr>de_backend := dev, de_queue := filter (\<lambda>p. \<not> pd_complete p) queue\<rparr>)"
      using \<open>select e \<noteq> []\<close> evs(1) rows f as s(1) by (simp add: decision_step_def Let_def)
    with inv lt s(2,3) evs(2) show ?thesis by (auto simp: decision_inv_def)
  qed
qed

lemma decision_admit_inv:
  assumes "decision_inv A e"
  shows "decision_inv A (snd (decision_admit max_context j e))"
  using assms
  by (auto simp: decision_admit_def decision_inv_def scores_ok_def pd_complete_def Let_def list_all_iff split: sum.splits)

interpretation decisions: worker "decision_ops forward max_context show_error"
  "\<lambda>e. answers forward A \<and> decision_inv A e" "\<lambda>_. True" "\<lambda>e. next_seq (de_delta_seq e)"
  for forward max_context show_error A
proof
  fix e :: "'a decision_engine" and j rid msg d
  assume inv: "answers forward A \<and> decision_inv A e"
  show "\<exists>r e'. w_admit (decision_ops forward max_context show_error) j e = Some (r, e') \<and> answers forward A \<and> decision_inv A e'"
    using inv decision_admit_inv [of A e max_context j]
    by (cases "decision_admit max_context j e") (auto simp: decision_ops_def)
  show "next_seq (de_delta_seq e') rid = next_seq (de_delta_seq e) rid"
    if "w_admit (decision_ops forward max_context show_error) j e = Some (r, e')" for r e'
    using that by (auto simp: decision_ops_def decision_admit_def Let_def split: sum.splits if_splits)
  show "\<exists>r e'. w_step (decision_ops forward max_context show_error) e = Some (r, e') \<and> (answers forward A \<and> decision_inv A e') \<and>
      next_seq (de_delta_seq e') = next_seq (de_delta_seq e)"
    using inv decision_step_ok [of A e forward] by (auto simp: decision_ops_def)
qed (auto simp: decision_ops_def decision_sequence_def decision_forget_def decision_cancel_def decision_fail_all_def
    decision_is_idle_def decision_inv_def stamp_with_msg next_seq_stamp next_seq_remove case_prod_unfold Let_def)

end
