(* ===== verification/Audio_Wav.thy ===== *)
theory Audio_Wav
  imports Block_Hash
begin

unbundle bit_operations_syntax

text \<open>
  The WAV reader and the 16-bit wire format (\<open>vapi-audio/src/wav.rs\<close>).  A byte is an \<open>8 word\<close>; the
  samples are exact \<open>f32\<close> values, because every conversion but that of 32-bit integers is exact, and
  that one rounds to the nearest value with 24 significant bits, ties to even.
\<close>

section \<open>Numbers from bytes\<close>

record pcm_audio =
  pcm_samples :: "f32 list"
  pcm_sample_rate :: nat
  pcm_channels :: nat

definition wav_error :: "string \<Rightarrow> error" where
  "wav_error m = InvalidRequest (''wav: '' @ m)"

definition le16 :: "bytes \<Rightarrow> nat \<Rightarrow> nat" where
  "le16 b i = unat (b ! i) + 256 * unat (b ! (i + 1))"

definition le32 :: "bytes \<Rightarrow> nat \<Rightarrow> nat" where
  "le32 b i = le16 b i + 65536 * le16 b (i + 2)"

definition u16_at :: "bytes \<Rightarrow> nat \<Rightarrow> error + nat" where
  "u16_at b i = (if i + 2 \<le> length b then Inr (le16 b i) else Inl (wav_error ''truncated header''))"

definition u32_at :: "bytes \<Rightarrow> nat \<Rightarrow> error + nat" where
  "u32_at b i = (if i + 4 \<le> length b then Inr (le32 b i) else Inl (wav_error ''truncated header''))"

text \<open>Two's complement: \<open>n\<close> read as a signed number of \<open>w\<close> bits.\<close>

definition signed_of :: "nat \<Rightarrow> nat \<Rightarrow> int" where
  "signed_of w n = (if n < 2 ^ (w - 1) then int n else int n - 2 ^ w)"

fun excess_bits :: "nat \<Rightarrow> nat" where
  "excess_bits n = (if n < 2 ^ 24 then 0 else Suc (excess_bits (n div 2)))"

declare excess_bits.simps [simp del]

text \<open>\<open>i32 as f32\<close>.\<close>

definition round_nat :: "nat \<Rightarrow> nat" where
  "round_nat n =
     (let k = excess_bits n; q = n div 2 ^ k; r = n mod 2 ^ k; half = 2 ^ k div 2
      in if k = 0 then n else if r > half \<or> (r = half \<and> odd q) then (q + 1) * 2 ^ k else q * 2 ^ k)"

definition f32_of_int :: "int \<Rightarrow> rat" where
  "f32_of_int i = (if i < 0 then - of_nat (round_nat (nat (- i))) else of_nat (round_nat (nat i)))"

text \<open>\<open>f32::from_le_bytes\<close> of the bits of a number.\<close>

definition f32_of_bits :: "nat \<Rightarrow> f32" where
  "f32_of_bits n =
     (let neg = n \<ge> 2 ^ 31; ex = n div 2 ^ 23 mod 256; man = n mod 2 ^ 23;
          sgn = (if neg then - 1 else 1 :: rat)
      in if ex = 255 then (if man \<noteq> 0 then NaN else if neg then NegInf else Inf)
         else if ex = 0 then Fin (sgn * of_nat man / 2 ^ 149)
         else Fin (sgn * of_nat (2 ^ 23 + man) * 2 ^ ex / 2 ^ 150))"

definition sample8 :: "u8 \<Rightarrow> f32" where
  "sample8 b = Fin ((of_nat (unat b) - 128) / 128)"

definition sample16 :: "bytes \<Rightarrow> f32" where
  "sample16 c = Fin (of_int (signed_of 16 (le16 c 0)) / 32768)"

definition sample24 :: "bytes \<Rightarrow> f32" where
  "sample24 c = Fin (of_int (signed_of 24 (le16 c 0 + 65536 * unat (c ! 2))) / 8388608)"

definition sample32 :: "bytes \<Rightarrow> f32" where
  "sample32 c = Fin (f32_of_int (signed_of 32 (le32 c 0)) / 2147483648)"

definition sample_float :: "bytes \<Rightarrow> f32" where
  "sample_float c = f32_of_bits (le32 c 0)"

definition samples_of :: "nat \<Rightarrow> nat \<Rightarrow> bytes \<Rightarrow> f32 list option" where
  "samples_of tag bits data =
     (if tag \<in> {1, 0xFFFE} \<and> bits = 8 then Some (map sample8 data)
      else if tag \<in> {1, 0xFFFE} \<and> bits = 16 then Some (map sample16 (chunks_exact 2 data))
      else if tag \<in> {1, 0xFFFE} \<and> bits = 24 then Some (map sample24 (chunks_exact 3 data))
      else if tag \<in> {1, 0xFFFE} \<and> bits = 32 then Some (map sample32 (chunks_exact 4 data))
      else if tag = 3 \<and> bits = 32 then Some (map sample_float (chunks_exact 4 data))
      else None)"

section \<open>The chunk walk\<close>

text \<open>What the walk has found: the format with its rate, and the data.\<close>

record wav_state =
  ws_format :: "(nat \<times> nat \<times> nat) option"
  ws_rate :: nat
  ws_data :: "bytes option"

definition read_fmt :: "bytes \<Rightarrow> nat \<Rightarrow> wav_state \<Rightarrow> error + wav_state" where
  "read_fmt b body st =
     (case u16_at b body of Inl e \<Rightarrow> Inl e | Inr tag \<Rightarrow>
        (case u16_at b (body + 2) of Inl e \<Rightarrow> Inl e | Inr channels \<Rightarrow>
           (case u32_at b (body + 4) of Inl e \<Rightarrow> Inl e | Inr rate \<Rightarrow>
              (case u16_at b (body + 14) of Inl e \<Rightarrow> Inl e | Inr bits \<Rightarrow>
                 Inr (st\<lparr>ws_format := Some (tag, bits, channels), ws_rate := rate\<rparr>)))))"

function walk_chunks :: "bytes \<Rightarrow> nat \<Rightarrow> wav_state \<Rightarrow> (error + wav_state) option" where
  "walk_chunks b pos st =
     (if pos + 8 \<le> length b then do {
        cid \<leftarrow> slice b pos (pos + 4);
        case u32_at b (pos + 4) of
          Inl e \<Rightarrow> Some (Inl e)
        | Inr sz \<Rightarrow> do {
            let body = pos + 8;
            let fin = min (body + sz) (length b);
            data \<leftarrow> slice b body fin;
            case (if cid = str_bytes ''fmt '' then read_fmt b body st
                  else if cid = str_bytes ''data'' then Inr (st\<lparr>ws_data := Some data\<rparr>)
                  else Inr st) of
              Inl e \<Rightarrow> Some (Inl e)
            | Inr st \<Rightarrow> walk_chunks b (body + sz + sz mod 2) st } }
      else Some (Inr st))"
  by pat_completeness auto
termination
  by (relation "measure (\<lambda>(b, pos, st). length b - pos)") (auto simp: Let_def split: if_splits)

declare walk_chunks.simps [simp del]

definition wav_decode :: "bytes \<Rightarrow> (error + pcm_audio) option" where
  "wav_decode b =
     (if length b < 12 \<or> take 4 b \<noteq> str_bytes ''RIFF'' \<or> take 4 (drop 8 b) \<noteq> str_bytes ''WAVE''
      then Some (Inl (wav_error ''not a RIFF/WAVE file''))
      else do {
        r \<leftarrow> walk_chunks b 12 \<lparr>ws_format = None, ws_rate = 0, ws_data = None\<rparr>;
        Some (case r of
          Inl e \<Rightarrow> Inl e
        | Inr st \<Rightarrow>
            (case ws_format st of
               None \<Rightarrow> Inl (wav_error ''no fmt chunk'')
             | Some (tag, bits, channels) \<Rightarrow>
                 (case ws_data st of
                    None \<Rightarrow> Inl (wav_error ''no data chunk'')
                  | Some data \<Rightarrow>
                      if channels = 0 \<or> ws_rate st = 0 then Inl (wav_error ''zero channels or sample rate'')
                      else case samples_of tag bits data of
                             None \<Rightarrow> Inl (wav_error (''unsupported format tag '' @ show_nat tag @ '' at '' @ show_nat bits
                               @ '' bits; PCM 8/16/24/32 and float32 are supported''))
                           | Some ss \<Rightarrow> Inr \<lparr>pcm_samples = ss, pcm_sample_rate = ws_rate st, pcm_channels = channels\<rparr>))) })"

definition from_i16_le :: "bytes \<Rightarrow> f32 list" where
  "from_i16_le b = map sample16 (chunks_exact 2 b)"

section \<open>No input panics the reader\<close>

lemma walk_chunks_total: "\<exists>r. walk_chunks b pos st = Some r"
proof (induction b pos st rule: walk_chunks.induct)
  case (1 b pos st)
  show ?case
  proof (cases "pos + 8 \<le> length b")
    case True
    let ?sz = "le32 b (pos + 4)"
    let ?fin = "min (pos + 8 + ?sz) (length b)"
    obtain cid where cid: "slice b pos (pos + 4) = Some cid" using True by (simp add: slice_eq)
    have u: "u32_at b (pos + 4) = Inr ?sz" using True by (simp add: u32_at_def)
    obtain data where data: "slice b (pos + 8) ?fin = Some data" using True by (simp add: slice_eq)
    let ?h = "if cid = str_bytes ''fmt '' then read_fmt b (pos + 8) st
      else if cid = str_bytes ''data'' then Inr (st\<lparr>ws_data := Some data\<rparr>) else Inr st"
    show ?thesis
    proof (cases ?h)
      case (Inl e)
      then show ?thesis using True cid u data by (subst walk_chunks.simps) (simp add: Let_def del: split_paired_Ex)
    next
      case (Inr st')
      from 1 [OF True cid u refl refl data Inr] obtain r where
        "walk_chunks b (pos + 8 + ?sz + ?sz mod 2) st' = Some r" by blast
      then show ?thesis using True cid u data Inr by (subst walk_chunks.simps) (simp add: Let_def del: split_paired_Ex)
    qed
  qed (simp add: walk_chunks.simps)
qed

lemma wav_decode_total: "\<exists>r. wav_decode b = Some r"
  using walk_chunks_total [of b 12 "\<lparr>ws_format = None, ws_rate = 0, ws_data = None\<rparr>"]
  by (auto simp: wav_decode_def)

section \<open>A reference writer\<close>

text \<open>Chunks as the format lays them out: name, length, body, and a byte of padding after an odd body.\<close>

definition wav_chunk :: "string \<times> bytes \<Rightarrow> bytes" where
  "wav_chunk = (\<lambda>(cid, body). str_bytes cid @ le_bytes 4 (length body) @ body @ (if odd (length body) then [0] else []))"

text \<open>
  The format chunk: tag, channels, sample rate, bytes per second, bytes per frame, bits per sample, and
  whatever an extensible format adds.  The reader takes neither of the two derived numbers into account.
\<close>

definition fmt_body :: "nat \<Rightarrow> nat \<Rightarrow> nat \<Rightarrow> nat \<Rightarrow> nat \<Rightarrow> nat \<Rightarrow> bytes \<Rightarrow> bytes" where
  "fmt_body tag channels rate byte_rate block_align bits ext =
     le_bytes 2 tag @ le_bytes 2 channels @ le_bytes 4 rate @ le_bytes 4 byte_rate @ le_bytes 2 block_align @
     le_bytes 2 bits @ ext"

text \<open>
  PCM data: samples of eight bits are stored with an offset of 128, wider ones in two's complement, low
  byte first.
\<close>

definition pcm_sample_bytes :: "nat \<Rightarrow> int \<Rightarrow> bytes" where
  "pcm_sample_bytes bits x = (if bits = 8 then [word_of_int (x + 128)] else le_bytes (bits div 8) (nat (x mod 2 ^ bits)))"

definition pcm_bytes :: "nat \<Rightarrow> int list \<Rightarrow> bytes" where
  "pcm_bytes bits xs = concat (map (pcm_sample_bytes bits) xs)"

definition wav_file :: "bytes \<Rightarrow> (string \<times> bytes) list \<Rightarrow> bytes" where
  "wav_file riff_size cs = str_bytes ''RIFF'' @ riff_size @ str_bytes ''WAVE'' @ concat (map wav_chunk cs)"

definition chunk_ok :: "string \<times> bytes \<Rightarrow> bool" where
  "chunk_ok = (\<lambda>(cid, body). length cid = 4 \<and> length body < 2 ^ 32)"

definition other_chunk :: "string \<times> bytes \<Rightarrow> bool" where
  "other_chunk c = (chunk_ok c \<and> str_bytes (fst c) \<notin> {str_bytes ''fmt '', str_bytes ''data''})"

lemma le16_drop:
  assumes "drop i b = le_bytes 2 n @ ys" "n < 65536"
  shows "le16 b i = n" "i + 2 \<le> length b" "drop (i + 2) b = ys"
proof -
  have e: "drop i b = word_of_nat n # word_of_nat (n div 256) # ys" using assms(1) by (simp add: numeral_2_eq_2)
  then have 0: "b ! i = word_of_nat n" by (rule nth_via_drop)
  have d1: "drop (i + 1) b = word_of_nat (n div 256) # ys" using e by (metis Suc_eq_plus1 drop_Suc list.sel(3) tl_drop)
  then have 1: "b ! (i + 1) = word_of_nat (n div 256)" by (rule nth_via_drop)
  have "n mod 256 + 256 * (n div 256 mod 256) = n" using assms(2) by simp
  then show "le16 b i = n" using 0 1 by (simp add: le16_def unat_of_nat)
  show "drop (i + 2) b = ys" using d1 by (metis add_Suc_right drop_Suc list.sel(3) one_add_one plus_1_eq_Suc Suc_eq_plus1 tl_drop)
  have "length (drop i b) = 2 + length ys" using assms(1) by (simp add: numeral_2_eq_2)
  then show "i + 2 \<le> length b" by simp
qed

lemma le_bytes_split: "le_bytes (j + k) n = le_bytes j n @ le_bytes k (n div 256 ^ j)"
  by (induction j n rule: le_bytes.induct) (simp_all add: div_mult2_eq mult.commute)

lemma le_bytes_mod: "le_bytes k (n mod 256 ^ k) = le_bytes k n"
proof (induction k n rule: le_bytes.induct)
  case (2 k n)
  have "word_of_nat (n mod (256 * 256 ^ k)) = (word_of_nat n :: u8)"
  proof (rule word_unat_eq_iff [THEN iffD2])
    show "unat (word_of_nat (n mod (256 * 256 ^ k)) :: u8) = unat (word_of_nat n :: u8)"
      unfolding unat_of_nat by (simp add: mod_mod_cancel)
  qed
  moreover have "n mod (256 * 256 ^ k) div 256 = n div 256 mod 256 ^ k" by (simp add: mod_mult2_eq)
  ultimately show ?case using 2 by simp
qed simp

lemma le32_drop:
  assumes "drop i b = le_bytes 4 n @ ys" "n < 2 ^ 32"
  shows "le32 b i = n" "i + 4 \<le> length b" "drop (i + 4) b = ys"
proof -
  have "le_bytes 4 n = le_bytes 2 n @ le_bytes 2 (n div 65536)" using le_bytes_split [of 2 2 n] by simp
  also have "le_bytes 2 n = le_bytes 2 (n mod 65536)" using le_bytes_mod [of 2 n] by simp
  finally have e: "drop i b = le_bytes 2 (n mod 65536) @ le_bytes 2 (n div 65536) @ ys" using assms(1) by simp
  note lo = le16_drop [OF e]
  have "drop (i + 2) b = le_bytes 2 (n div 65536) @ ys" using lo(3) by simp
  note hi = le16_drop [OF this]
  have small: "n div 65536 < 65536" using assms(2) by simp
  show "le32 b i = n" using lo(1) hi(1) small by (simp add: le32_def)
  have eq: "i + 4 = i + 2 + 2" by simp
  show "i + 4 \<le> length b" "drop (i + 4) b = ys" unfolding eq using hi(2,3) small by blast+
qed

section \<open>Reading what the writer wrote\<close>

lemma take_drop_append: "drop i b = xs @ ys \<Longrightarrow> take (length xs) (drop i b) = xs"
  by simp

text \<open>One chunk of the file.\<close>

lemma walk_one_chunk:
  assumes d: "drop pos b = wav_chunk (cid, body) @ rest" and ok: "chunk_ok (cid, body)"
  shows "walk_chunks b pos st =
    (case (if str_bytes cid = str_bytes ''fmt '' then read_fmt b (pos + 8) st
           else if str_bytes cid = str_bytes ''data'' then Inr (st\<lparr>ws_data := Some body\<rparr>) else Inr st) of
       Inl e \<Rightarrow> Some (Inl e) | Inr st \<Rightarrow> walk_chunks b (pos + length (wav_chunk (cid, body))) st)"
    "drop (pos + 8) b = body @ (if odd (length body) then [0] else []) @ rest"
    "drop (pos + length (wav_chunk (cid, body))) b = rest"
proof -
  let ?pad = "if odd (length body) then [0] else [] :: bytes"
  have lc: "length (str_bytes cid) = 4" "length body < 2 ^ 32" using ok by (simp_all add: chunk_ok_def)
  have e: "drop pos b = str_bytes cid @ le_bytes 4 (length body) @ body @ ?pad @ rest" using d by (simp add: wav_chunk_def)
  have d4: "drop (pos + 4) b = le_bytes 4 (length body) @ body @ ?pad @ rest"
    using e lc(1) by (metis add.commute append_eq_conv_conj drop_drop)
  note sz = le32_drop [OF d4 lc(2)]
  have eq8: "pos + 8 = pos + 4 + 4" by simp
  show d8: "drop (pos + 8) b = body @ ?pad @ rest" unfolding eq8 by (rule sz(3))
  have len: "length (wav_chunk (cid, body)) = 8 + length body + length body mod 2"
    using lc(1) by (auto simp: wav_chunk_def odd_iff_mod_2_eq_one even_iff_mod_2_eq_zero)
  then have eqn: "pos + 8 + length body + length body mod 2 = pos + length (wav_chunk (cid, body))" by simp
  have "length (drop (pos + 8) b) \<ge> length body" using d8 by simp
  then have bl: "pos + 8 \<le> length b" "pos + 8 + length body \<le> length b" using sz(2) by auto
  have cid: "slice b pos (pos + 4) = Some (str_bytes cid)" using bl(1) e lc(1) by (simp add: slice_eq)
  have u: "u32_at b (pos + 4) = Inr (length body)" using sz(1,2) by (simp add: u32_at_def)
  have body: "slice b (pos + 8) (min (pos + 8 + length body) (length b)) = Some body"
    using bl(2) d8 by (simp add: slice_eq min_absorb1)
  show "walk_chunks b pos st =
    (case (if str_bytes cid = str_bytes ''fmt '' then read_fmt b (pos + 8) st
           else if str_bytes cid = str_bytes ''data'' then Inr (st\<lparr>ws_data := Some body\<rparr>) else Inr st) of
       Inl e \<Rightarrow> Some (Inl e) | Inr st \<Rightarrow> walk_chunks b (pos + length (wav_chunk (cid, body))) st)"
    by (subst walk_chunks.simps) (simp add: bl(1) cid u body Let_def eqn cong: sum.case_cong)
  have "drop (pos + length (wav_chunk (cid, body))) b = drop (length (wav_chunk (cid, body))) (drop pos b)" by (simp add: add.commute)
  then show "drop (pos + length (wav_chunk (cid, body))) b = rest" using d by simp
qed

lemma walk_other_chunks:
  assumes "drop pos b = concat (map wav_chunk cs) @ rest" "\<forall>c \<in> set cs. other_chunk c"
  shows "walk_chunks b pos st = walk_chunks b (pos + length (concat (map wav_chunk cs))) st"
    "drop (pos + length (concat (map wav_chunk cs))) b = rest"
proof -
  have "walk_chunks b pos st = walk_chunks b (pos + length (concat (map wav_chunk cs))) st \<and>
    drop (pos + length (concat (map wav_chunk cs))) b = rest"
    using assms
  proof (induction cs arbitrary: pos)
    case (Cons c cs)
    obtain cid body where c: "c = (cid, body)" by fastforce
    have oc: "other_chunk (cid, body)" using Cons.prems(2) c by simp
    have d: "drop pos b = wav_chunk (cid, body) @ (concat (map wav_chunk cs) @ rest)" using Cons.prems(1) c by simp
    have ok: "chunk_ok (cid, body)" using oc by (simp add: other_chunk_def)
    from walk_one_chunk(1) [OF d ok, of st] oc
    have 1: "walk_chunks b pos st = walk_chunks b (pos + length (wav_chunk (cid, body))) st" by (simp add: other_chunk_def)
    from Cons.IH [OF walk_one_chunk(3) [OF d ok]] Cons.prems(2) 1 c show ?case by (simp add: add.assoc)
  qed simp
  then show "walk_chunks b pos st = walk_chunks b (pos + length (concat (map wav_chunk cs))) st"
    "drop (pos + length (concat (map wav_chunk cs))) b = rest" by blast+
qed

lemma read_fmt_body:
  assumes "drop body b = fmt_body tag channels rate byte_rate block_align bits ext @ rest" "tag < 65536" "channels < 65536" "rate < 2 ^ 32" "bits < 65536"
  shows "read_fmt b body st = Inr (st\<lparr>ws_format := Some (tag, bits, channels), ws_rate := rate\<rparr>)"
proof -
  let ?derived = "le_bytes 4 byte_rate @ le_bytes 2 block_align"
  have 0: "drop body b = le_bytes 2 tag @ le_bytes 2 channels @ le_bytes 4 rate @ ?derived @ le_bytes 2 bits @ ext @ rest"
    using assms(1) by (simp add: fmt_body_def)
  note t = le16_drop [OF 0 assms(2)]
  note c = le16_drop [OF t(3) assms(3)]
  have 4: "drop (body + 4) b = le_bytes 4 rate @ ?derived @ le_bytes 2 bits @ ext @ rest"
    using c(3) by (metis add.assoc numeral_Bit0)
  note r = le32_drop [OF 4 assms(4)]
  have "drop (body + 14) b = drop 6 (drop (body + 4 + 4) b)" by (simp add: add.commute)
  also have "\<dots> = le_bytes 2 bits @ ext @ rest" unfolding r(3) by (simp add: length_le_bytes)
  finally have "drop (body + 14) b = le_bytes 2 bits @ ext @ rest" .
  note bt = le16_drop [OF this assms(5)]
  show ?thesis using t(1,2) c(1,2) r(1,2) bt(1,2) by (simp add: read_fmt_def u16_at_def u32_at_def add.assoc)
qed

text \<open>Whatever other chunks surround them, the format and the data come back.\<close>

lemma wav_decode_file:
  assumes others: "\<forall>c \<in> set (pre @ mid @ post). other_chunk c" and riff: "length riff_size = 4"
    and len: "length data < 2 ^ 32" "length ext + 16 < 2 ^ 32"
    and num: "tag < 65536" "0 < channels" "channels < 65536" "0 < rate" "rate < 2 ^ 32" "bits < 65536"
  shows "wav_decode (wav_file riff_size
      (pre @ (''fmt '', fmt_body tag channels rate byte_rate block_align bits ext) # mid @ (''data'', data) # post)) =
    Some (case samples_of tag bits data of
       Some ss \<Rightarrow> Inr \<lparr>pcm_samples = ss, pcm_sample_rate = rate, pcm_channels = channels\<rparr>
     | None \<Rightarrow> Inl (wav_error (''unsupported format tag '' @ show_nat tag @ '' at '' @ show_nat bits
         @ '' bits; PCM 8/16/24/32 and float32 are supported'')))"
proof -
  let ?fmt = "(''fmt '', fmt_body tag channels rate byte_rate block_align bits ext)" and ?dat = "(''data'', data)"
  define b where "b = wav_file riff_size (pre @ ?fmt # mid @ ?dat # post)"
  let ?s0 = "\<lparr>ws_format = None, ws_rate = 0, ws_data = None\<rparr>"
  let ?s1 = "?s0\<lparr>ws_format := Some (tag, bits, channels), ws_rate := rate\<rparr>"
  have ok: "chunk_ok ?fmt" "chunk_ok ?dat" using len by (simp_all add: chunk_ok_def fmt_body_def)
  have "drop 12 b = concat (map wav_chunk pre) @ (wav_chunk ?fmt @ concat (map wav_chunk (mid @ ?dat # post)))"
    using riff by (simp add: b_def wav_file_def str_bytes_def)
  note pre = walk_other_chunks [OF this]
  have "\<forall>c \<in> set pre. other_chunk c" using others by simp
  note pre = pre [OF this]
  define p1 where "p1 = 12 + length (concat (map wav_chunk pre))"
  note f = walk_one_chunk [OF pre(2) ok(1), folded p1_def]
  have "drop (p1 + 8) b = fmt_body tag channels rate byte_rate block_align bits ext @
      ((if odd (length (fmt_body tag channels rate byte_rate block_align bits ext)) then [0] else []) @ concat (map wav_chunk (mid @ ?dat # post)))"
    using f(2) by simp
  from read_fmt_body [OF this num(1,3,5,6), of ?s0] f(1) [of ?s0]
  have 1: "walk_chunks b p1 ?s0 = walk_chunks b (p1 + length (wav_chunk ?fmt)) ?s1" by simp
  define p2 where "p2 = p1 + length (wav_chunk ?fmt)"
  have "drop p2 b = concat (map wav_chunk mid) @ (wav_chunk ?dat @ concat (map wav_chunk post))" using f(3) by (simp add: p2_def)
  note mid = walk_other_chunks [OF this]
  have "\<forall>c \<in> set mid. other_chunk c" using others by simp
  note mid = mid [OF this]
  define p3 where "p3 = p2 + length (concat (map wav_chunk mid))"
  note d = walk_one_chunk [OF mid(2) ok(2), folded p3_def]
  have ne: "str_bytes ''data'' \<noteq> str_bytes ''fmt ''" by (simp add: str_bytes_def)
  have 2: "walk_chunks b p3 ?s1 = walk_chunks b (p3 + length (wav_chunk ?dat)) (?s1\<lparr>ws_data := Some data\<rparr>)"
    using d(1) [of ?s1] ne by simp
  have "drop (p3 + length (wav_chunk ?dat)) b = concat (map wav_chunk post) @ []" using d(3) by simp
  note post = walk_other_chunks [OF this]
  have "\<forall>c \<in> set post. other_chunk c" using others by simp
  note post = post [OF this]
  have "length b \<le> p3 + length (wav_chunk ?dat) + length (concat (map wav_chunk post))" using post(2) by simp
  then have "walk_chunks b (p3 + length (wav_chunk ?dat) + length (concat (map wav_chunk post))) st = Some (Inr st)" for st
    by (subst walk_chunks.simps) simp
  then have "walk_chunks b 12 ?s0 = Some (Inr (?s1\<lparr>ws_data := Some data\<rparr>))"
    using pre(1) [of ?s0] 1 mid(1) [of ?s1] 2 post(1) [of "?s1\<lparr>ws_data := Some data\<rparr>"] by (simp add: p1_def [symmetric] p2_def [symmetric] p3_def [symmetric])
  moreover have "take 4 b = str_bytes ''RIFF''" "take 4 (drop 8 b) = str_bytes ''WAVE''" "12 \<le> length b"
    using riff by (simp_all add: b_def wav_file_def str_bytes_def)
  ultimately show ?thesis
    using num(2,4) unfolding b_def [symmetric] by (simp add: wav_decode_def split: option.splits)
qed

section \<open>Samples\<close>

lemma chunks_exact_concat:
  "0 < k \<Longrightarrow> \<forall>x \<in> set xs. length (f x) = k \<Longrightarrow> chunks_exact k (concat (map f xs)) = map f xs"
proof (induction xs)
  case (Cons x xs)
  then show ?case by (subst chunks_exact.simps) simp
qed (simp add: chunks_exact.simps)

lemma signed_of_mod:
  assumes "0 < w" "- (2 ^ (w - 1)) \<le> x" "x < 2 ^ (w - 1)"
  shows "signed_of w (nat (x mod 2 ^ w)) = x"
proof -
  have two: "(2 :: int) ^ w = 2 * 2 ^ (w - 1)" using assms(1) by (cases w) simp_all
  show ?thesis
  proof (cases "0 \<le> x")
    case True
    then have "x mod 2 ^ w = x" using assms(3) two by simp
    then show ?thesis using True assms(3) by (simp add: signed_of_def nat_less_iff)
  next
    case False
    have "x mod 2 ^ w = (x + 2 ^ w) mod 2 ^ w" by simp
    also have "\<dots> = x + 2 ^ w" using False assms(2) two by (intro mod_pos_pos_trivial) simp_all
    finally show ?thesis using False assms(2) two by (simp add: signed_of_def nat_less_iff)
  qed
qed

text \<open>An integer of at most 32 bits that is a multiple of 256 has 24 significant bits and is not rounded.\<close>

lemma excess_bits_le: "n < 2 ^ (24 + k) \<Longrightarrow> excess_bits n \<le> k"
proof (induction k arbitrary: n)
  case 0
  then show ?case by (subst excess_bits.simps) simp
next
  case (Suc k)
  moreover have "(2 :: nat) ^ (24 + Suc k) = 2 ^ (24 + k) * 2" by (simp only: add_Suc_right power_Suc mult.commute)
  ultimately have "n < 2 ^ (24 + k) * 2" by metis
  then have "n div 2 < 2 ^ (24 + k)" by (rule less_mult_imp_div_less)
  with Suc.IH show ?case by (subst excess_bits.simps) simp
qed

lemma round_nat_exact:
  assumes "n < 2 ^ 32" "256 dvd n"
  shows "round_nat n = n"
proof -
  have "excess_bits n \<le> 8" using excess_bits_le [of n 8] assms(1) by simp
  then have "(2 :: nat) ^ excess_bits n dvd 2 ^ 8" by (rule le_imp_power_dvd)
  then have "2 ^ excess_bits n dvd n" using assms(2) by (auto intro: dvd_trans)
  then have z: "n mod 2 ^ excess_bits n = 0" "n div 2 ^ excess_bits n * 2 ^ excess_bits n = n" by simp_all
  show ?thesis
  proof (cases "excess_bits n")
    case (Suc k)
    with z show ?thesis by (simp add: round_nat_def Let_def)
  qed (simp add: round_nat_def)
qed

lemma f32_of_int_exact:
  assumes "- (2 ^ 31) \<le> x" "x < 2 ^ 31" "256 dvd x"
  shows "f32_of_int x = of_int x"
proof -
  have "nat (- x) < 2 ^ 32" "nat x < 2 ^ 32" using assms by auto
  moreover from assms(3) obtain k where "x = 256 * k" by (rule dvdE)
  then have "nat (- x) = 256 * nat (- k)" "nat x = 256 * nat k" by simp_all
  then have "256 dvd nat (- x)" "256 dvd nat x" by simp_all
  ultimately show ?thesis by (simp add: f32_of_int_def round_nat_exact)
qed

text \<open>What a sample is worth: a fraction of full scale.\<close>

lemma sample_of_pcm:
  assumes r: "- (2 ^ (bits - 1)) \<le> x" "x < 2 ^ (bits - 1)"
  shows "bits = 8 \<Longrightarrow> sample8 (pcm_sample_bytes bits x ! 0) = Fin (of_int x / 128)"
    "bits = 16 \<Longrightarrow> sample16 (pcm_sample_bytes bits x) = Fin (of_int x / 32768)"
    "bits = 24 \<Longrightarrow> sample24 (pcm_sample_bytes bits x) = Fin (of_int x / 8388608)"
    "bits = 32 \<Longrightarrow> 256 dvd x \<Longrightarrow> sample32 (pcm_sample_bytes bits x) = Fin (of_int x / 2147483648)"
proof -
  let ?n = "nat (x mod 2 ^ bits)"
  have n: "?n < 2 ^ bits" by (simp add: nat_less_iff)
  have b: "pcm_sample_bytes bits x = le_bytes (bits div 8) ?n" if "bits \<noteq> 8" using that by (simp add: pcm_sample_bytes_def)
  {
    assume bits: "bits = 8"
    have "unat (word_of_int y :: u8) = nat y" if "0 \<le> y" "y < 256" for y
      using that by (simp add: unsigned_of_int take_bit_int_eq_self)
    from this [of "x + 128"] r bits have "unat (word_of_int (x + 128) :: u8) = nat (x + 128)" by simp
    then show "sample8 (pcm_sample_bytes bits x ! 0) = Fin (of_int x / 128)"
      using r bits by (simp add: pcm_sample_bytes_def sample8_def del: of_int_add) simp
  next
    assume bits: "bits = 16"
    have "drop 0 (pcm_sample_bytes bits x) = le_bytes 2 ?n @ []" using b bits by simp
    from le16_drop(1) [OF this] n bits have "le16 (pcm_sample_bytes bits x) 0 = ?n" by simp
    then show "sample16 (pcm_sample_bytes bits x) = Fin (of_int x / 32768)"
      using signed_of_mod [of 16 x] r bits by (simp add: sample16_def)
  next
    assume bits: "bits = 24"
    have "le_bytes 3 ?n = le_bytes 2 (?n mod 65536) @ le_bytes 1 (?n div 65536)"
      using le_bytes_split [of 2 1 ?n] le_bytes_mod [of 2 ?n] by simp
    then have e: "drop 0 (pcm_sample_bytes bits x) = le_bytes 2 (?n mod 65536) @ [word_of_nat (?n div 65536)]"
      using b bits by simp
    have hi: "pcm_sample_bytes bits x ! 2 = word_of_nat (?n div 65536)"
      using e by (simp add: nth_append length_le_bytes)
    have small: "?n div 65536 < 256" using n bits by (simp add: less_mult_imp_div_less)
    from le16_drop(1) [OF e] have "le16 (pcm_sample_bytes bits x) 0 = ?n mod 65536" by simp
    then have "le16 (pcm_sample_bytes bits x) 0 + 65536 * unat (pcm_sample_bytes bits x ! 2) = ?n"
      using hi small by (simp add: unat_of_nat)
    then show "sample24 (pcm_sample_bytes bits x) = Fin (of_int x / 8388608)"
      using signed_of_mod [of 24 x] r bits by (simp add: sample24_def)
  next
    assume bits: "bits = 32" and d: "256 dvd x"
    have "drop 0 (pcm_sample_bytes bits x) = le_bytes 4 ?n @ []" using b bits by simp
    from le32_drop(1) [OF this] n bits have "le32 (pcm_sample_bytes bits x) 0 = ?n" by simp
    then show "sample32 (pcm_sample_bytes bits x) = Fin (of_int x / 2147483648)"
      using signed_of_mod [of 32 x] f32_of_int_exact [of x] r bits d by (simp add: sample32_def)
  }
qed

lemma samples_of_pcm:
  assumes "tag \<in> {1, 0xFFFE}" "bits \<in> {8, 16, 24, 32}" "\<forall>x \<in> set xs. - (2 ^ (bits - 1)) \<le> x \<and> x < 2 ^ (bits - 1)"
    "bits = 32 \<longrightarrow> (\<forall>x \<in> set xs. 256 dvd x)"
  shows "samples_of tag bits (pcm_bytes bits xs) = Some (map (\<lambda>x. Fin (of_int x / 2 ^ (bits - 1))) xs)"
proof -
  note s = sample_of_pcm [where bits = bits]
  have len: "length (pcm_sample_bytes bits x) = bits div 8" for x
    using assms(2) by (auto simp: pcm_sample_bytes_def length_le_bytes)
  have ch: "chunks_exact (bits div 8) (pcm_bytes bits xs) = map (pcm_sample_bytes bits) xs"
    unfolding pcm_bytes_def using assms(2) by (intro chunks_exact_concat) (auto simp: len)
  have one: "pcm_bytes bits xs = map (\<lambda>x. pcm_sample_bytes bits x ! 0) xs" if "bits = 8"
    using that by (induction xs) (simp_all add: pcm_bytes_def pcm_sample_bytes_def)
  from assms(2) consider "bits = 8" | "bits = 16" | "bits = 24" | "bits = 32" by auto
  then show ?thesis
  proof cases
    case 1
    with assms(1,3) one s(1) show ?thesis by (simp add: samples_of_def)
  next
    case 2
    with assms(1,3) ch s(2) show ?thesis by (simp add: samples_of_def)
  next
    case 3
    with assms(1,3) ch s(3) show ?thesis by (simp add: samples_of_def)
  next
    case 4
    with assms(1,3,4) ch s(4) show ?thesis by (simp add: samples_of_def)
  qed
qed

end
