(* ===== verification/Transcribe_Engine.thy ===== *)
theory Transcribe_Engine
  imports Worker_Runner Audio_Wav
begin

text \<open>
  The transcription engine (\<open>vapi-worker/src/transcribe.rs\<close>): one clip per step, in arrival order.
  The speech model and the base64 decoder are parameters, and so is the division that turns a number
  of samples into seconds, whose result is only reported.
\<close>

record transcript =
  tr_text :: string
  tr_positions :: nat

record speech =
  sp_transcribe :: "f32 list \<Rightarrow> error + transcript"
  sp_sample_rate :: nat
  sp_base64 :: "string \<Rightarrow> bytes option"
  sp_seconds :: "nat \<Rightarrow> nat \<Rightarrow> f32"

record pending_clip =
  pc_request_id :: string
  pc_samples :: "f32 list"
  pc_seconds :: f32

record transcription_engine =
  te_queue :: "pending_clip list"
  te_delta_seq :: "string \<rightharpoonup> delta_seq"
  te_max_queued :: nat
  te_worker_id :: string

definition transcription_new :: "nat \<Rightarrow> string \<Rightarrow> transcription_engine" where
  "transcription_new max_queued wid =
     \<lparr>te_queue = [], te_delta_seq = Map.empty, te_max_queued = max max_queued 1, te_worker_id = wid\<rparr>"

definition transcription_admit ::
  "speech \<Rightarrow> job \<Rightarrow> transcription_engine \<Rightarrow> (error + unit) \<times> transcription_engine" where
  "transcription_admit sp j e =
     (if job_kind j \<noteq> Transcription then
        (Inl (InvalidRequest (''this worker transcribes audio; it was handed a '' @ kind_text (job_kind j) @ '' job'')), e)
      else case job_audio j of
        None \<Rightarrow> (Inl (InvalidRequest ''transcription job carries no audio''), e)
      | Some clip \<Rightarrow>
          (case sp_base64 sp (pcm clip) of
             None \<Rightarrow> (Inl (InvalidRequest ''audio is not valid base64''), e)
           | Some b \<Rightarrow>
               let samples = from_i16_le b; want = u32_of (sp_sample_rate sp) in
               if samples = [] then (Inl (InvalidRequest ''audio is empty''), e)
               else if sample_rate clip \<noteq> want then
                 (Inl (InvalidRequest (''audio is '' @ show_nat (sample_rate clip) @ '' Hz; this model wants ''
                    @ show_nat want @ '' Hz'')), e)
               else (Inr (), e\<lparr>te_queue := te_queue e @
                      [\<lparr>pc_request_id = job_request_id j, pc_samples = samples,
                        pc_seconds = sp_seconds sp (length samples) want\<rparr>]\<rparr>)))"

definition transcription_cancel :: "string \<Rightarrow> transcription_engine \<Rightarrow> bool \<times> transcription_engine" where
  "transcription_cancel rid e =
     (let q = filter (\<lambda>p. pc_request_id p \<noteq> rid) (te_queue e)
      in (length (te_queue e) \<noteq> length q, e\<lparr>te_queue := q\<rparr>))"

definition transcription_fail_all :: "string \<Rightarrow> transcription_engine \<Rightarrow> step_output \<times> transcription_engine" where
  "transcription_fail_all msg e =
     (let rids = map pc_request_id (te_queue e)
      in (\<lparr>events = map (\<lambda>rid. (rid, Failed msg)) rids, completed = rids, did_work = (rids \<noteq> [])\<rparr>, e\<lparr>te_queue := []\<rparr>))"

definition transcription_is_idle :: "transcription_engine \<Rightarrow> bool" where
  "transcription_is_idle e = (te_queue e = [])"

definition transcription_headroom :: "transcription_engine \<Rightarrow> nat" where
  "transcription_headroom e = te_max_queued e - length (te_queue e)"

definition transcription_stats :: "transcription_engine \<Rightarrow> nat \<times> nat" where
  "transcription_stats e =
     (let busy = (if te_queue e \<noteq> [] then 1 else 0) in (busy, length (te_queue e) - busy))"

definition transcription_step ::
  "speech \<Rightarrow> transcription_engine \<Rightarrow> (error + step_output) \<times> transcription_engine" where
  "transcription_step sp e =
     (case te_queue e of
        [] \<Rightarrow> (Inr \<lparr>events = [], completed = [], did_work = False\<rparr>, e)
      | p # rest \<Rightarrow>
          let e = e\<lparr>te_queue := rest\<rparr>; rid = pc_request_id p in
          (case sp_transcribe sp (pc_samples p) of
             Inl err \<Rightarrow> (Inl err, e\<lparr>te_queue := p # te_queue e\<rparr>)
           | Inr t \<Rightarrow>
               (Inr \<lparr>events = [(rid, Started (te_worker_id e) 0),
                               (rid, Transcribed (tr_text t) (tr_positions t) (pc_seconds p))],
                     completed = [rid], did_work = True\<rparr>, e)))"

definition transcription_sequence :: "string \<Rightarrow> delta \<Rightarrow> transcription_engine \<Rightarrow> delta_msg \<times> transcription_engine" where
  "transcription_sequence rid d e = (case stamp_with rid d (te_delta_seq e) of (m, sq) \<Rightarrow> (m, e\<lparr>te_delta_seq := sq\<rparr>))"

definition transcription_forget :: "string \<Rightarrow> transcription_engine \<Rightarrow> transcription_engine" where
  "transcription_forget rid e = e\<lparr>te_delta_seq := (te_delta_seq e)(rid := None)\<rparr>"

definition transcription_ops :: "speech \<Rightarrow> (error \<Rightarrow> string) \<Rightarrow> transcription_engine worker_engine" where
  "transcription_ops sp show_error =
     \<lparr>w_admit = (\<lambda>j e. Some (map_prod (map_sum show_error id) id (transcription_admit sp j e))),
      w_cancel = (\<lambda>rid e. Some (transcription_cancel rid e)), w_fail_all = (\<lambda>msg e. Some (transcription_fail_all msg e)),
      w_step = (\<lambda>e. Some (map_prod (map_sum show_error id) id (transcription_step sp e))),
      w_is_idle = transcription_is_idle, w_headroom = transcription_headroom, w_sequence = transcription_sequence,
      w_forget = transcription_forget\<rparr>"

lemma transcription_step_delta: "te_delta_seq (snd (transcription_step sp e)) = te_delta_seq e"
  by (auto simp: transcription_step_def Let_def split: list.splits sum.splits)

interpretation transcriptions: worker "transcription_ops sp show_error" "\<lambda>_. True" "\<lambda>_. True"
  "\<lambda>e. next_seq (te_delta_seq e)" for sp show_error
proof
  fix e :: transcription_engine
  show "next_seq (te_delta_seq e') rid = next_seq (te_delta_seq e) rid"
    if "w_admit (transcription_ops sp show_error) j e = Some (r, e')" for r e' j rid
    using that by (auto simp: transcription_ops_def transcription_admit_def Let_def split: sum.splits if_splits option.splits)
  show "\<exists>r e'. w_step (transcription_ops sp show_error) e = Some (r, e') \<and> True \<and> next_seq (te_delta_seq e') = next_seq (te_delta_seq e)"
    using transcription_step_delta [of sp e] by (cases "transcription_step sp e") (auto simp: transcription_ops_def)
qed (auto simp: transcription_ops_def transcription_sequence_def transcription_forget_def transcription_cancel_def
    transcription_fail_all_def transcription_is_idle_def stamp_with_msg next_seq_stamp next_seq_remove case_prod_unfold Let_def)

end
