(* ===== verification/Service_Properties.thy ===== *)
theory Service_Properties
  imports Decision_Engine Transcribe_Engine Worker_Constraint Json_Properties "HOL-Library.Multiset"
begin

text \<open>
  What the other engines, the wire protocol, the constraint of a stream and the WAV reader guarantee,
  each property with an instance.
\<close>

section \<open>Decisions\<close>

text \<open>
  A decision job is cut into its rows exactly.  The rows are accepted if and only if their lengths add
  up to the number of tokens; then there is one part per row, in order, each of its row's length, and the
  parts put together are the tokens of the job.
\<close>

theorem decision_rows_exact:
  "(case decision_rows j of
      Inr parts \<Rightarrow> map snd parts = job_rows j \<and> list_all (\<lambda>(ts, r). length ts = row_len r) parts \<and>
        concat (map fst parts) = prompt_tokens j \<and> (\<Sum>r\<leftarrow>job_rows j. row_len r) = length (prompt_tokens j)
    | Inl _ \<Rightarrow> (\<Sum>r\<leftarrow>job_rows j. row_len r) \<noteq> length (prompt_tokens j))"
proof (cases "split_rows (prompt_tokens j) 0 (job_rows j)")
  case (Inl err)
  have "(\<Sum>r\<leftarrow>job_rows j. row_len r) \<noteq> length (prompt_tokens j)"
    using split_rows_total [of 0 "job_rows j" "prompt_tokens j"] Inl by auto
  with Inl show ?thesis by (simp add: decision_rows_def)
next
  case (Inr x)
  obtain out fin where x: "x = (out, fin)" by fastforce
  from split_rows_ok [of "prompt_tokens j" 0 "job_rows j" out fin] Inr x show ?thesis by (auto simp: decision_rows_def)
qed

text \<open>
  C22: The decision engine answers every request exactly once and completely.  A step returns; a failed one
  keeps the queue; a successful one completes exactly the requests that leave the queue, each with one score
  per question in the order of the questions, every score an answer to its row, however the rows were spread
  over passes; the other requests stay.
\<close>

theorem decision_step_answers:
  assumes "decision_inv A e" "answers forward A"
  shows "\<exists>r e'. decision_step forward e = Some (r, e') \<and> decision_inv A e' \<and>
    (\<forall>err. r = Inl err \<longrightarrow> de_queue e' = de_queue e) \<and>
    (\<forall>out. r = Inr out \<longrightarrow> (\<exists>fin evs. completed out = map (\<lambda>x. pd_request_id (fst x)) fin \<and>
       events out = evs @ map (\<lambda>(p, scs). (pd_request_id p, Decided scs (pd_prompt_tokens p))) fin \<and>
       (\<forall>x \<in> set evs. snd x = Started (de_worker_id e) 0) \<and>
       (\<forall>(p, scs) \<in> set fin. p \<in> set (de_queue e) \<and> list_all2 A (pd_rows p) scs) \<and>
       mset (map pd_request_id (de_queue e)) = mset (completed out) + mset (map pd_request_id (de_queue e'))))"
proof -
  from decision_step_ok [OF assms] obtain r e' where
    1: "decision_step forward e = Some (r, e')" "decision_inv A e'" "\<forall>err. r = Inl err \<longrightarrow> de_queue e' = de_queue e" and
    2: "\<forall>out. r = Inr out \<longrightarrow> (de_queue e = [] \<and> e' = e \<and> events out = [] \<and> completed out = []) \<or>
       (\<exists>evs queue. events out = evs @ map decision_answer (filter pd_complete queue) \<and> (\<forall>x \<in> set evs. snd x = Started (de_worker_id e) 0) \<and>
           completed out = map pd_request_id (filter pd_complete queue) \<and> de_queue e' = filter (\<lambda>p. \<not> pd_complete p) queue \<and>
           list_all2 grown (de_queue e) queue \<and> (\<forall>p \<in> set queue. scores_ok A p))" by blast
  have "\<exists>fin evs. completed out = map (\<lambda>x. pd_request_id (fst x)) fin \<and>
       events out = evs @ map (\<lambda>(p, scs). (pd_request_id p, Decided scs (pd_prompt_tokens p))) fin \<and>
       (\<forall>x \<in> set evs. snd x = Started (de_worker_id e) 0) \<and>
       (\<forall>(p, scs) \<in> set fin. p \<in> set (de_queue e) \<and> list_all2 A (pd_rows p) scs) \<and>
       mset (map pd_request_id (de_queue e)) = mset (completed out) + mset (map pd_request_id (de_queue e'))"
    if out: "r = Inr out" for out
  proof -
    from 2 out consider "de_queue e = []" "e' = e" "events out = []" "completed out = []"
      | evs queue where "events out = evs @ map decision_answer (filter pd_complete queue)" "\<forall>x \<in> set evs. snd x = Started (de_worker_id e) 0"
        "completed out = map pd_request_id (filter pd_complete queue)" "de_queue e' = filter (\<lambda>p. \<not> pd_complete p) queue"
        "list_all2 grown (de_queue e) queue" "\<forall>p \<in> set queue. scores_ok A p" by blast
    then show ?thesis
    proof cases
      case 1
      then show ?thesis by (intro exI [of _ "[]"]) simp
    next
      case 2
      from completed_rows [OF 2(5,6)] obtain fin where
        f: "map (\<lambda>(p, scs). (pd_request_id p, Decided scs (pd_prompt_tokens p))) fin = map decision_answer (filter pd_complete queue)"
          "map (\<lambda>x. pd_request_id (fst x)) fin = map pd_request_id (filter pd_complete queue)"
          "\<forall>(p, scs) \<in> set fin. p \<in> set (de_queue e) \<and> list_all2 A (pd_rows p) scs" by blast
      have ids: "map pd_request_id (de_queue e) = map pd_request_id queue"
        using 2(5) by (auto simp: list_all2_conv_all_nth grown_def intro!: nth_equalityI)
      have "mset (map pd_request_id queue) = mset (map pd_request_id (filter pd_complete queue)) +
          mset (map pd_request_id (filter (\<lambda>p. \<not> pd_complete p) queue))"
        by (induction queue) auto
      with f ids 2(1-4) show ?thesis by (intro exI [of _ fin] exI [of _ evs]) simp
    qed
  qed
  with 1 show ?thesis by blast
qed

text \<open>A queue of one request with one question, on the mock encoder.\<close>

definition demo_row :: encoder_row where
  "demo_row = \<lparr>er_tokens = [5, 6, 7], er_markers = [0, 2], er_qtype = Choice\<rparr>"

definition demo_decisions :: "mock_encoder decision_engine" where
  "demo_decisions = (decision_new mock_encoder_new 8 32 4096 ''w'')\<lparr>de_queue :=
     [\<lparr>pd_request_id = ''r'', pd_rows = [demo_row], pd_scores = [None], pd_prompt_tokens = 3\<rparr>]\<rparr>"

definition mock_answer :: "encoder_row \<Rightarrow> row_scores" where
  "mock_answer r = \<lparr>rs_logits = map (mock_score r) [0..<er_options r], rs_act = Fin (3 / 4)\<rparr>"

lemma mock_answers: "answers mock_encoder_forward (\<lambda>r sc. sc = mock_answer r)"
  by (auto simp: answers_def mock_encoder_forward_def mock_answer_def Let_def list_all2_conv_all_nth split: sum.splits if_splits)

lemma demo_decisions_inv: "decision_inv A demo_decisions"
  by (simp add: decision_inv_def demo_decisions_def decision_new_def scores_ok_def pd_complete_def)

theorem decision_step_answers_witness:
  "\<exists>r e'. decision_step mock_encoder_forward demo_decisions = Some (r, e') \<and> decision_inv (\<lambda>r sc. sc = mock_answer r) e'"
  using decision_step_answers [OF demo_decisions_inv mock_answers] by blast

text \<open>
  C23: A pass respects its limits and is never empty.  The rows of the next pass are the first unanswered
  ones in arrival order; there are at most \<open>max_rows\<close> of them, and when there is more than one,
  their number times the longest of them is within the token budget.  While a request is queued there is
  at least one, and a successful pass leaves fewer unanswered rows, so the queue empties.
\<close>

theorem decision_pass_bounded:
  assumes "decision_inv A e" "answers forward A"
  shows "(\<exists>k. k \<le> length (candidates (de_queue e)) \<and> select e = map fst (take k (candidates (de_queue e))) \<and>
      (1 < k \<longrightarrow>
         k * pass_width (take k (candidates (de_queue e))) \<le> de_max_batched_tokens e)) \<and>
    length (select e) \<le> de_max_rows e \<and> (select e = [] \<longleftrightarrow> de_queue e = []) \<and>
    (\<forall>out e'. decision_step forward e = Some (Inr out, e') \<and> de_queue e \<noteq> [] \<longrightarrow>
       rows_left (de_queue e') < rows_left (de_queue e))"
proof -
  have mr: "0 < de_max_rows e" using assms(1) by (simp add: decision_inv_def)
  from select_loop_prefix [of "[]" "de_max_rows e" 0 "de_max_batched_tokens e" "candidates (de_queue e)"] mr obtain k where
    k: "select e = map fst (take k (candidates (de_queue e)))" "k \<le> length (candidates (de_queue e))" "k \<le> de_max_rows e"
      "1 < k \<longrightarrow> k * pass_width (take k (candidates (de_queue e))) \<le> de_max_batched_tokens e"
    by (auto simp: select_def pass_width_def)
  have "length (select e) \<le> de_max_rows e" using k by simp
  moreover have "select e = [] \<longleftrightarrow> de_queue e = []" using select_ok(2) [OF mr] candidates_empty [OF assms(1)] by simp
  moreover have "rows_left (de_queue e') < rows_left (de_queue e)"
    if "decision_step forward e = Some (Inr out, e')" "de_queue e \<noteq> []" for out e'
    using decision_step_ok [OF assms] that by auto
  ultimately show ?thesis using k by blast
qed

theorem decision_pass_bounded_witness:
  "length (select demo_decisions) \<le> 32 \<and> select demo_decisions \<noteq> []"
  using decision_pass_bounded [OF demo_decisions_inv mock_answers] by (simp add: demo_decisions_def decision_new_def)

section \<open>Transcriptions\<close>

lemma stamp_transcriptions:
  assumes "fold (stamp_one (transcription_ops sp se)) evs (e, rep) = (e', rep')"
  shows "te_queue e' = te_queue e \<and> rep_completed rep' = rep_completed rep \<and>
    map (\<lambda>(rid, m). (rid, dm_delta m)) (rep_deltas rep') = map (\<lambda>(rid, m). (rid, dm_delta m)) (rep_deltas rep) @ evs"
  using assms
proof (induction evs arbitrary: e rep)
  case (Cons x evs)
  obtain r d where x: "x = (r, d)" by fastforce
  obtain m e1 where 1: "transcription_sequence r d e = (m, e1)" by fastforce
  then have "te_queue e1 = te_queue e" "dm_delta m = d"
    by (auto simp: transcription_sequence_def stamp_with_def delta_next_def)
  moreover have "fold (stamp_one (transcription_ops sp se)) evs (e1, rep\<lparr>rep_deltas := rep_deltas rep @ [(r, m)]\<rparr>) = (e', rep')"
    using Cons.prems 1 x by (simp add: stamp_one_def transcription_ops_def)
  ultimately show ?case using Cons.IH x by fastforce
qed simp

lemma forget_transcriptions:
  assumes "fold (forget_one (transcription_ops sp se)) rids (e, rep) = (e', rep')"
  shows "te_queue e' = te_queue e \<and> rep_completed rep' = rep_completed rep @ rids \<and> rep_deltas rep' = rep_deltas rep"
  using assms
proof (induction rids arbitrary: e rep)
  case (Cons r rids)
  then have "fold (forget_one (transcription_ops sp se)) rids (transcription_forget r e, rep\<lparr>rep_completed := rep_completed rep @ [r]\<rparr>) = (e', rep')"
    by (simp add: forget_one_apply transcription_ops_def)
  from Cons.IH [OF this] show ?case by (simp add: transcription_forget_def)
qed simp

text \<open>
  A failed transcription is reported, not dropped.  When the model fails on the clip at the head of
  the queue, the turn of the engine thread completes every queued request, in order, each with one
  \<open>Failed\<close> delta that carries the model's error, and leaves the queue empty.
\<close>

theorem failed_transcription_reported:
  assumes "te_queue e = p # rest" "sp_transcribe sp (pc_samples p) = Inl err"
  shows "\<exists>go rep e'. turn (transcription_ops sp se) m [] (e, failures) = Some (go, rep, e', failures + 1) \<and>
    rep_completed rep = map pc_request_id (te_queue e) \<and> te_queue e' = [] \<and>
    map (\<lambda>(rid, m). (rid, dm_delta m)) (rep_deltas rep) =
      map (\<lambda>c. (pc_request_id c, Failed (''engine step failed: '' @ se err))) (te_queue e)"
proof -
  let ?w = "transcription_ops sp se" and ?msg = "''engine step failed: '' @ se err" and ?rep = "\<lparr>rep_deltas = [], rep_completed = []\<rparr>"
  let ?rids = "map pc_request_id (te_queue e)"
  have step: "w_step ?w e = Some (Inl (se err), e)"
    using assms by (simp add: transcription_ops_def transcription_step_def Let_def)
  have fail: "w_fail_all ?w ?msg e = Some (\<lparr>events = map (\<lambda>rid. (rid, Failed ?msg)) ?rids, completed = ?rids, did_work = True\<rparr>, e\<lparr>te_queue := []\<rparr>)"
    using assms(1) by (simp add: transcription_ops_def transcription_fail_all_def Let_def)
  obtain e1 rep1 where 1: "fold (stamp_one ?w) (map (\<lambda>rid. (rid, Failed ?msg)) ?rids) (e\<lparr>te_queue := []\<rparr>, ?rep) = (e1, rep1)" by fastforce
  obtain e2 rep2 where 2: "fold (forget_one ?w) ?rids (e1, rep1) = (e2, rep2)" by fastforce
  have idle: "\<not> w_is_idle ?w e" using assms(1) by (simp add: transcription_ops_def transcription_is_idle_def)
  have "turn ?w m [] (e, failures) = Some (\<not> (m > 0 \<and> failures + 1 \<ge> m), rep2, e2, failures + 1)"
    using step fail 1 2 idle by (simp add: turn_def publish_output_def)
  with stamp_transcriptions [OF 1] forget_transcriptions [OF 2] show ?thesis by (simp add: comp_def)
qed

definition demo_speech :: speech where
  "demo_speech = \<lparr>sp_transcribe = (\<lambda>_. Inl (Engine_error ''device wedged'')), sp_sample_rate = 16000,
     sp_base64 = (\<lambda>_. None), sp_seconds = (\<lambda>_ _. Fin 0)\<rparr>"

definition demo_clips :: transcription_engine where
  "demo_clips = (transcription_new 4 ''w'')\<lparr>te_queue :=
     [\<lparr>pc_request_id = ''a'', pc_samples = [Fin 0], pc_seconds = Fin 0\<rparr>, \<lparr>pc_request_id = ''b'', pc_samples = [Fin 0], pc_seconds = Fin 0\<rparr>]\<rparr>"

theorem failed_transcription_reported_witness:
  "\<exists>go rep e'. turn (transcription_ops demo_speech (\<lambda>_. ''engine: device wedged'')) 3 [] (demo_clips, 0) = Some (go, rep, e', 1) \<and>
     rep_completed rep = [''a'', ''b''] \<and> te_queue e' = []"
  using failed_transcription_reported [of demo_clips "\<lparr>pc_request_id = ''a'', pc_samples = [Fin 0], pc_seconds = Fin 0\<rparr>"
      "[\<lparr>pc_request_id = ''b'', pc_samples = [Fin 0], pc_seconds = Fin 0\<rparr>]" demo_speech "Engine_error ''device wedged''"
      "\<lambda>_. ''engine: device wedged''" 3 0]
  by (auto simp: demo_clips_def demo_speech_def)

section \<open>Constrained streams\<close>

text \<open>
  C24: The mask and the machine agree.  Whatever the sampler picks among the tokens that the mask of an active
  constraint leaves, other than an end of sequence, its text is accepted by the machine, which then is
  in a state it reports viable.  The report is not a promise that the document can be finished, which
  \<open>number_cap_stuck\<close> shows.
\<close>

theorem masked_token_accepted:
  assumes "machine_ok m" "buckets_ok tm" "apply_constraint (Some (RowActive m fin)) (Some tm) eos logits = Some out"
    "t < length logits" "out ! t \<noteq> NegInf" "t \<notin> set eos"
  shows "\<exists>m'. push (tm_texts tm ! t) m = Accept m' \<and> machine_ok m' \<and> viable m' = Some True"
  by (rule may_follow_push [OF assms(1) active_row_fits [OF assms]])

theorem masked_token_accepted_witness:
  "\<exists>m'. push [125] demo_open = Accept m' \<and> machine_ok m' \<and> viable m' = Some True"
proof -
  let ?tm = "masker_new [[125], [44]]"
  have ok: "machine_ok demo_open"
    using demo_wf by (auto simp: machine_ok_def demo_open_def is_object_def demo_arena_def)
  have "push [125] demo_open = Accept (demo_open\<lparr>stack := [], doc_done := True\<rparr>)"
    by (simp add: machine_run demo_arena_def demo_open_def)
  then have f: "may_follow ?tm demo_open 0"
    by (simp add: may_follow_def masker_new_def allows_def viable_def)
  have b: "buckets_ok ?tm" by (rule masker_new_ok) simp
  from mask_closed_form [OF ok b, of "[]" "[Fin 0, Fin 1]"] obtain out where
    out: "mask_logits ?tm demo_open [] [Fin 0, Fin 1] = Some out" "\<forall>i<2. out ! i = masked ?tm demo_open [] [Fin 0, Fin 1] i"
    by (auto simp: numeral_2_eq_2)
  have "\<exists>j<2. may_follow ?tm demo_open j" using f by (intro exI [of _ 0]) simp
  then have "out ! 0 \<noteq> NegInf" using out(2) f by (auto simp: masked_def demo_open_def machine_complete_def numeral_2_eq_2)
  moreover have "apply_constraint (Some (RowActive demo_open False)) (Some ?tm) [] [Fin 0, Fin 1] = Some out"
    using out(1) by (simp add: apply_constraint_def)
  moreover have "tm_texts ?tm ! 0 = [125]" by (simp add: masker_new_def)
  ultimately show ?thesis using masked_token_accepted [OF ok b, of False "[]" "[Fin 0, Fin 1]" out 0] by simp
qed

text \<open>
  A constraint that waits for a marker starts exactly at its first occurrence.  As long as the
  generated text does not contain the marker the constraint waits, whatever the tokens; with the token
  that completes it, however the marker is split over tokens, the machine is given the text after the
  marker, without its leading white space, and the rest of the stream.
\<close>

theorem waiting_constraint_starts_at_marker:
  assumes "mk \<noteq> []"
  shows "case str_find mk (concat ts) of
     None \<Rightarrow> \<exists>tail'. constraint_run ts (CWaiting mk close [] ns) = Some (Some (CWaiting mk close tail' ns))
   | Some _ \<Rightarrow> \<exists>k pos. k < length ts \<and> str_find mk (concat (take k ts)) = None \<and>
       str_find mk (concat (take (Suc k) ts)) = Some pos \<and>
       constraint_run ts (CWaiting mk close [] ns) =
         (case machine_result (push (trim_start (drop (pos + length mk) (concat (take (Suc k) ts)))) (machine_new ns)) of
            Some (Some c) \<Rightarrow> constraint_run (drop (Suc k) ts) c | r \<Rightarrow> r)"
proof -
  have "str_find mk ([] @ []) = None" using assms by simp
  from constraint_run_waits [OF assms this disjI1 [OF refl], of ts close ns] show ?thesis by (simp only: append_Nil)
qed

theorem waiting_constraint_starts_at_marker_witness:
  "\<exists>tail'. constraint_run [[97], [98]] (CWaiting [60, 62] None [] [AnyNode]) = Some (Some (CWaiting [60, 62] None tail' [AnyNode]))"
  using waiting_constraint_starts_at_marker [of "[60, 62]" "[[97], [98]]" None "[AnyNode]"] by simp

section \<open>Audio\<close>

text \<open>
  C25: The WAV reader finds the audio among any chunks.  A file that holds a format chunk and, after it, a
  data chunk, with any other chunks before, between and after them, padded as the format asks, and whatever
  the format says of bytes per second and per frame, decodes to its rate, its channels and the samples of
  its data, or is refused when its encoding is not supported.  PCM data of 8, 16, 24 or 32 bits that was
  written from integers reads back as those integers over full scale; the values of 32 bits are
  multiples of 256 here, since others are rounded to the 24 bits of an \<open>f32\<close>.
\<close>

theorem wav_decode_reads_file:
  assumes "\<forall>c \<in> set (pre @ mid @ post). other_chunk c" "length riff_size = 4" "length data < 2 ^ 32" "length ext + 16 < 2 ^ 32"
    "tag < 65536" "0 < channels" "channels < 65536" "0 < rate" "rate < 2 ^ 32" "bits < 65536"
  shows "wav_decode (wav_file riff_size
      (pre @ (''fmt '', fmt_body tag channels rate byte_rate block_align bits ext) # mid @ (''data'', data) # post)) =
    Some (case samples_of tag bits data of
       Some ss \<Rightarrow> Inr \<lparr>pcm_samples = ss, pcm_sample_rate = rate, pcm_channels = channels\<rparr>
     | None \<Rightarrow> Inl (wav_error (''unsupported format tag '' @ show_nat tag @ '' at '' @ show_nat bits
         @ '' bits; PCM 8/16/24/32 and float32 are supported''))) \<and>
    (\<forall>xs. tag \<in> {1, 0xFFFE} \<and> bits \<in> {8, 16, 24, 32} \<and> data = pcm_bytes bits xs \<and>
       (\<forall>x \<in> set xs. - (2 ^ (bits - 1)) \<le> x \<and> x < 2 ^ (bits - 1) \<and> (bits = 32 \<longrightarrow> 256 dvd x)) \<longrightarrow>
       samples_of tag bits data = Some (map (\<lambda>x. Fin (of_int x / 2 ^ (bits - 1))) xs))"
  using wav_decode_file [OF assms] samples_of_pcm [of tag bits] by auto

theorem wav_decode_reads_file_witness:
  "wav_decode (wav_file [0, 0, 0, 0] [(''fmt '', fmt_body 1 1 16000 32000 2 16 []), (''LIST'', [1, 2, 3]),
       (''data'', [0, 128, 0, 64])]) =
     Some (Inr \<lparr>pcm_samples = [Fin (- 1), Fin (1 / 2)], pcm_sample_rate = 16000, pcm_channels = 1\<rparr>)"
proof -
  have "other_chunk (''LIST'', [1, 2, 3])" by (simp add: other_chunk_def chunk_ok_def str_bytes_def)
  then have hyps: "\<forall>c \<in> set ([] @ [(''LIST'', [1, 2, 3])] @ []). other_chunk c" by simp
  have d: "[0, 128, 0, 64] = pcm_bytes 16 [- 32768, 16384]"
  proof -
    have "le_bytes 2 n = [word_of_nat n, word_of_nat (n div 256)]" for n by (simp add: numeral_2_eq_2)
    then show ?thesis by (simp add: pcm_bytes_def pcm_sample_bytes_def)
  qed
  have lens: "length [0, 0, 0, 0 :: u8] = 4" "length [0, 128, 0, 64 :: u8] < 2 ^ 32" "length ([] :: bytes) + 16 < 2 ^ 32"
      "(1 :: nat) < 65536" "(0 :: nat) < 1" "(0 :: nat) < 16000" "(16000 :: nat) < 2 ^ 32" "(16 :: nat) < 65536" by simp_all
  note r = wav_decode_reads_file [OF hyps lens(1-5,4,6-8), of 32000 2]
  have "samples_of 1 16 [0, 128, 0, 64] = Some (map (\<lambda>x. Fin (of_int x / 2 ^ (16 - 1))) [- 32768, 16384])"
    by (rule conjunct2 [OF r, rule_format]) (use d in simp)
  also have "\<dots> = Some [Fin (- 1), Fin (1 / 2)]" by simp
  finally show ?thesis using conjunct1 [OF r] by (simp only: append_Nil append_Cons option.case)
qed

end
