(* ===== verification/Utf8_Lossy.thy ===== *)
theory Utf8_Lossy
  imports Unicode_Text
begin

text \<open>
  \<open>String::from_utf8_lossy\<close> on byte values: every maximal ill-formed sequence becomes one U+FFFD.
  The range of the second byte depends on the first, so that overlong forms, surrogates and values
  above U+10FFFF are ill-formed; a missing byte counts as a wrong one.
\<close>

abbreviation fffd :: uchar where "fffd \<equiv> 65533"

definition byte_at :: "nat list \<Rightarrow> nat \<Rightarrow> nat" where
  "byte_at bs i = (if i < length bs then bs ! i else 0)"

definition is_cont :: "nat \<Rightarrow> bool" where
  "is_cont b = (128 \<le> b \<and> b \<le> 191)"

definition second_ok :: "nat \<Rightarrow> nat \<Rightarrow> bool" where
  "second_ok b x =
     (if b = 224 then 160 \<le> x \<and> x \<le> 191
      else if b = 237 then 128 \<le> x \<and> x \<le> 159
      else if b = 240 then 144 \<le> x \<and> x \<le> 191
      else if b = 244 then 128 \<le> x \<and> x \<le> 143
      else is_cont x)"

text \<open>The next character and the number of bytes it takes.\<close>

definition utf8_step :: "nat \<Rightarrow> nat list \<Rightarrow> uchar \<times> nat" where
  "utf8_step b bs =
     (let x = byte_at bs 0; y = byte_at bs 1; z = byte_at bs 2 in
      if b < 128 then (b, 1)
      else if 194 \<le> b \<and> b \<le> 223 then
        (if is_cont x then ((b - 192) * 64 + (x - 128), 2) else (fffd, 1))
      else if 224 \<le> b \<and> b \<le> 239 then
        (if \<not> second_ok b x then (fffd, 1)
         else if \<not> is_cont y then (fffd, 2)
         else ((b - 224) * 4096 + (x - 128) * 64 + (y - 128), 3))
      else if 240 \<le> b \<and> b \<le> 244 then
        (if \<not> second_ok b x then (fffd, 1)
         else if \<not> is_cont y then (fffd, 2)
         else if \<not> is_cont z then (fffd, 3)
         else ((b - 240) * 262144 + (x - 128) * 4096 + (y - 128) * 64 + (z - 128), 4))
      else (fffd, 1))"

lemma utf8_step_pos: "0 < snd (utf8_step b bs)"
  by (simp add: utf8_step_def Let_def)

function utf8_lossy :: "nat list \<Rightarrow> utext" where
  "utf8_lossy [] = []"
| "utf8_lossy (b # bs) = fst (utf8_step b bs) # utf8_lossy (drop (snd (utf8_step b bs) - 1) bs)"
  by pat_completeness auto
termination
  by (relation "measure length") auto

section \<open>Well-formed text comes back\<close>

definition scalar :: "uchar \<Rightarrow> bool" where
  "scalar c = (c < 0xD800 \<or> (0xE000 \<le> c \<and> c < 0x110000))"

lemma byte_at_simps [simp]:
  "byte_at (x # xs) 0 = x" "byte_at (x # xs) (Suc i) = byte_at xs i" "byte_at [] i = 0"
  by (simp_all add: byte_at_def)

lemma step_utf8_char:
  assumes "scalar c" "utf8_char c = b # bs"
  shows "utf8_step b (bs @ rest) = (c, Suc (length bs))"
proof -
  have e: "c div 4096 = c div 64 div 64" "c div 262144 = c div 4096 div 64" by (simp_all flip: div_mult2_eq)
  have d: "c = c div 64 * 64 + c mod 64" "c div 64 = c div 4096 * 64 + c div 64 mod 64"
    "c div 4096 = c div 262144 * 64 + c div 4096 mod 64"
    unfolding e by simp_all
  have m: "c mod 64 < 64" "c div 64 mod 64 < 64" "c div 4096 mod 64 < 64" by simp_all
  consider "c < 128" | "128 \<le> c" "c < 2048" | "2048 \<le> c" "c < 65536" | "65536 \<le> c" "c < 0x110000"
    using assms(1) unfolding scalar_def by linarith
  then show ?thesis
  proof cases
    case 1
    with assms(2) show ?thesis by (simp add: utf8_char_def utf8_step_def)
  next
    case 2
    then have "b = 192 + c div 64" "bs = [128 + c mod 64]" using assms(2) by (simp_all add: utf8_char_def)
    moreover have "2 \<le> c div 64" "c div 64 < 32" using 2 by (simp_all add: less_eq_div_iff_mult_less_eq div_less_iff_less_mult)
    ultimately show ?thesis using d(1) m by (simp add: utf8_step_def is_cont_def Let_def)
  next
    case 3
    then have b: "b = 224 + c div 4096" "bs = [128 + c div 64 mod 64, 128 + c mod 64]"
      using assms(2) by (simp_all add: utf8_char_def)
    have l: "c div 4096 < 16" using 3 by (simp add: div_less_iff_less_mult)
    have "c div 4096 = 0 \<Longrightarrow> 32 \<le> c div 64 mod 64" using 3 d(1,2) m by linarith
    moreover have "c div 4096 = 13 \<Longrightarrow> c div 64 mod 64 < 32" using assms(1) d(1,2) m unfolding scalar_def by linarith
    ultimately have "second_ok b (128 + c div 64 mod 64)" using m l by (auto simp: second_ok_def is_cont_def b)
    moreover have "c div 4096 * 4096 + c div 64 mod 64 * 64 + c mod 64 = c" using d(1,2) by linarith
    moreover have "c mod 64 \<le> 63" using m(1) by linarith
    ultimately show ?thesis using b l by (simp add: utf8_step_def is_cont_def Let_def)
  next
    case 4
    then have b: "b = 240 + c div 262144" "bs = [128 + c div 4096 mod 64, 128 + c div 64 mod 64, 128 + c mod 64]"
      using assms(2) by (simp_all add: utf8_char_def)
    have l: "c div 262144 \<le> 4" using 4 by (simp add: less_Suc_eq_le [symmetric] div_less_iff_less_mult)
    have "c div 262144 = 0 \<Longrightarrow> 16 \<le> c div 4096 mod 64" using 4 d m by linarith
    moreover have "c div 262144 = 4 \<Longrightarrow> c div 4096 mod 64 < 16" using 4 d m by linarith
    ultimately have "second_ok b (128 + c div 4096 mod 64)" using m l by (auto simp: second_ok_def is_cont_def b)
    moreover have "c div 262144 * 262144 + c div 4096 mod 64 * 4096 + c div 64 mod 64 * 64 + c mod 64 = c"
      using d by linarith
    moreover have "c mod 64 \<le> 63" "c div 64 mod 64 \<le> 63" using m by linarith+
    ultimately show ?thesis using b l by (simp add: utf8_step_def is_cont_def Let_def numeral_2_eq_2)
  qed
qed

lemma utf8_lossy_utf8: "list_all scalar t \<Longrightarrow> utf8_lossy (utf8 t @ rest) = t @ utf8_lossy rest"
proof (induction t)
  case (Cons c t)
  obtain b bs where b: "utf8_char c = b # bs" using utf8_char_nonempty [of c] by (cases "utf8_char c") auto
  from Cons.prems have "scalar c" by simp
  from step_utf8_char [OF this b, of "utf8 t @ rest"] b Cons show ?case by simp
qed simp

section \<open>Where a text may be cut\<close>

text \<open>
  A step looks past the bytes it has only when it reports an ill-formed end; then it has taken them
  all.
\<close>

lemma utf8_step_append:
  "utf8_step b (bs @ cs) = utf8_step b bs \<and> snd (utf8_step b bs) \<le> Suc (length bs) \<or>
   utf8_step b bs = (fffd, Suc (length bs))"
proof -
  have 0: "\<not> is_cont 0" "\<not> second_ok b 0" by (simp_all add: is_cont_def second_ok_def)
  consider "bs = []" | x where "bs = [x]" | x y where "bs = [x, y]" | x y z r where "bs = x # y # z # r"
    by (metis list.exhaust)
  then show ?thesis
  proof cases
    case 1
    then show ?thesis using 0 by (simp add: utf8_step_def Let_def)
  next
    case (2 x)
    then show ?thesis using 0 by (auto simp: utf8_step_def Let_def numeral_2_eq_2)
  next
    case (3 x y)
    then show ?thesis using 0 by (auto simp: utf8_step_def Let_def numeral_2_eq_2)
  next
    case (4 x y z r)
    then show ?thesis by (auto simp: utf8_step_def Let_def numeral_2_eq_2)
  qed
qed

lemma utf8_lossy_append:
  "(utf8_lossy as \<noteq> [] \<longrightarrow> last (utf8_lossy as) \<noteq> fffd) \<Longrightarrow> utf8_lossy (as @ cs) = utf8_lossy as @ utf8_lossy cs"
proof (induction "as" rule: utf8_lossy.induct)
  case (2 b bs)
  let ?n = "snd (utf8_step b bs)"
  from utf8_step_append [of b bs cs] consider
    "utf8_step b (bs @ cs) = utf8_step b bs" "?n \<le> Suc (length bs)" | "utf8_step b bs = (fffd, Suc (length bs))" by blast
  then show ?case
  proof cases
    case 1
    then have "drop (?n - 1) (bs @ cs) = drop (?n - 1) bs @ cs" by simp
    moreover have "utf8_lossy (drop (?n - 1) bs) \<noteq> [] \<longrightarrow> last (utf8_lossy (drop (?n - 1) bs)) \<noteq> fffd"
      using 2(2) by (simp split: if_splits)
    ultimately show ?thesis using 1(1) 2(1) by simp
  next
    case 2
    with "2.prems" show ?thesis by simp
  qed
qed simp

lemma utf8_step_range: "fst (utf8_step b bs) < 0x110000"
proof -
  have s: "second_ok b x \<Longrightarrow> x \<le> 191" "is_cont x \<Longrightarrow> x \<le> 191" for x by (auto simp: second_ok_def is_cont_def split: if_splits)
  have "b \<le> 244 \<Longrightarrow> 240 \<le> b \<Longrightarrow> second_ok b x \<Longrightarrow> (b - 240) * 64 + (x - 128) < 272" for x
    by (cases "b = 244") (auto simp: second_ok_def is_cont_def split: if_splits)
  then have "b \<le> 244 \<Longrightarrow> 240 \<le> b \<Longrightarrow> second_ok b x \<Longrightarrow> is_cont y \<Longrightarrow> is_cont z \<Longrightarrow>
      (b - 240) * 262144 + (x - 128) * 4096 + (y - 128) * 64 + (z - 128) < 0x110000" for x y z
    using s(2) [of y] s(2) [of z] by fastforce
  moreover have "b \<le> 239 \<Longrightarrow> second_ok b x \<Longrightarrow> is_cont y \<Longrightarrow> (b - 224) * 4096 + (x - 128) * 64 + (y - 128) < 0x110000" for x y
    using s(1) [of x] s(2) [of y] by linarith
  moreover have "b \<le> 223 \<Longrightarrow> is_cont x \<Longrightarrow> (b - 192) * 64 + (x - 128) < 0x110000" for x
    using s(2) [of x] by linarith
  ultimately show ?thesis by (auto simp: utf8_step_def Let_def)
qed

lemma utf8_lossy_range: "list_all (\<lambda>c. c < 0x110000) (utf8_lossy bs)"
  by (induction bs rule: utf8_lossy.induct) (simp_all add: utf8_step_range)

end
