(* ===== verification/Tokenizers.thy ===== *)
theory Tokenizers
  imports Utf8_Lossy Stream_Output Worker_Constraint Json_Schema
begin

text \<open>
  The tokenizers that the repository implements itself (\<open>vapi-tokenize/src/bytes.rs\<close> and
  \<open>tekken.rs\<close>) and the choice among them (\<open>lib.rs\<close>).  The regular expression engine, base64 and the
  \<open>tokenizers\<close> crate are outside the repository: a compiled split pattern is the function from a text
  to the byte spans of its matches, and a Hugging Face tokenizer is the record of what it answers.
\<close>

section \<open>The byte tokenizer (bytes.rs)\<close>

definition BYTE_EOS :: token where
  "BYTE_EOS = 256"

definition byte_encode :: "utext \<Rightarrow> token list" where
  "byte_encode t = utf8 t"

definition byte_decode :: "token list \<Rightarrow> utext" where
  "byte_decode ids = utf8_lossy (filter (\<lambda>i. i < 256) ids)"

definition byte_encode_chat :: "('m list \<Rightarrow> error + utext) \<Rightarrow> 'm list \<Rightarrow> error + token list" where
  "byte_encode_chat render messages = map_sum id byte_encode (render messages)"

definition byte_eos_token_ids :: "token list" where
  "byte_eos_token_ids = [BYTE_EOS]"

section \<open>Tekken (tekken.rs)\<close>

record tekken_file =
  tf_pattern :: utext
  tf_vocab_size :: nat
  tf_num_special :: nat
  tf_vocab :: "utext list"
  tf_special_tokens :: "(nat \<times> utext \<times> bool) list"

record special =
  sp_text :: utext
  sp_control :: bool

record tekken =
  tk_vocab :: "bytes list"
  tk_ranks :: "bytes \<rightharpoonup> nat"
  tk_specials :: "special option list"
  tk_by_name :: "utext \<rightharpoonup> nat"
  tk_num_special :: nat
  tk_pattern :: "utext \<Rightarrow> (nat \<times> nat) list"

fun read_vocab ::
  "(utext \<Rightarrow> string + bytes) \<Rightarrow> utext list \<Rightarrow> bytes list \<times> (bytes \<rightharpoonup> nat) \<Rightarrow> error + (bytes list \<times> (bytes \<rightharpoonup> nat))" where
  "read_vocab b64 [] acc = Inr acc"
| "read_vocab b64 (e # es) (vocab, ranks) =
     (case b64 e of
        Inl err \<Rightarrow> Inl (Tokenizer_error (''tekken vocab rank '' @ show_nat (length vocab) @ '': '' @ err))
      | Inr b \<Rightarrow> read_vocab b64 es (vocab @ [b], ranks(b \<mapsto> u32_of (length vocab))))"

definition read_special ::
  "nat \<Rightarrow> nat \<times> utext \<times> bool \<Rightarrow> special option list \<times> (utext \<rightharpoonup> nat) \<Rightarrow> special option list \<times> (utext \<rightharpoonup> nat)" where
  "read_special num_special = (\<lambda>(rank, text, control) (specials, by_name).
     if rank \<ge> num_special then (specials, by_name)
     else (specials[rank := Some \<lparr>sp_text = text, sp_control = control\<rparr>], by_name(text \<mapsto> u32_of rank)))"

definition tekken_from_json ::
  "(utext \<Rightarrow> string + bytes) \<Rightarrow> (utext \<Rightarrow> string + (utext \<Rightarrow> (nat \<times> nat) list)) \<Rightarrow> string + tekken_file \<Rightarrow> error + tekken" where
  "tekken_from_json b64 regex parsed =
     (case parsed of
        Inl err \<Rightarrow> Inl (Tokenizer_error (''tekken.json: '' @ err))
      | Inr f \<Rightarrow>
          let keep = tf_vocab_size f - tf_num_special f in
          (case read_vocab b64 (take keep (tf_vocab f)) ([], Map.empty) of
             Inl err \<Rightarrow> Inl err
           | Inr (vocab, ranks) \<Rightarrow>
               let (specials, by_name) =
                     fold (read_special (tf_num_special f)) (tf_special_tokens f) (replicate (tf_num_special f) None, Map.empty)
               in case regex (tf_pattern f) of
                    Inl err \<Rightarrow> Inl (Tokenizer_error (''tekken split pattern: '' @ err))
                  | Inr pat \<Rightarrow> Inr \<lparr>tk_vocab = vocab, tk_ranks = ranks, tk_specials = specials, tk_by_name = by_name,
                                    tk_num_special = tf_num_special f, tk_pattern = pat\<rparr>))"

definition tekken_vocab_size :: "tekken \<Rightarrow> nat" where
  "tekken_vocab_size tk = tk_num_special tk + length (tk_vocab tk)"

definition special_id :: "utext \<Rightarrow> tekken \<Rightarrow> nat option" where
  "special_id name tk = tk_by_name tk name"

definition tekken_special :: "token \<Rightarrow> tekken \<Rightarrow> special option" where
  "tekken_special i tk = Option.bind (index (tk_specials tk) i) id"

definition is_special :: "token \<Rightarrow> tekken \<Rightarrow> bool" where
  "is_special i tk = (i < tk_num_special tk)"

definition utf8_bytes :: "utext \<Rightarrow> bytes" where
  "utf8_bytes t = map word_of_nat (utf8 t)"

definition bytes_of :: "token \<Rightarrow> tekken \<Rightarrow> bytes option" where
  "bytes_of i tk =
     (if is_special i tk then
        map_option (\<lambda>s. case s of Some s \<Rightarrow> utf8_bytes (sp_text s) | None \<Rightarrow> []) (index (tk_specials tk) i)
      else Some (case index (tk_vocab tk) (i - tk_num_special tk) of Some b \<Rightarrow> b | None \<Rightarrow> []))"

definition tekken_decode_one :: "bool \<Rightarrow> tekken \<Rightarrow> token \<Rightarrow> bytes \<Rightarrow> bytes option" where
  "tekken_decode_one skip tk i out =
     (if skip \<and> (case tekken_special i tk of Some s \<Rightarrow> sp_control s \<or> is_special i tk | None \<Rightarrow> False) then Some out
      else map_option (\<lambda>b. out @ b) (bytes_of i tk))"

definition tekken_decode_bytes :: "bool \<Rightarrow> tekken \<Rightarrow> token list \<Rightarrow> bytes option" where
  "tekken_decode_bytes skip tk ids = for_each (tekken_decode_one skip tk) ids []"

definition tekken_decode :: "bool \<Rightarrow> tekken \<Rightarrow> token list \<Rightarrow> utext option" where
  "tekken_decode skip tk ids = map_option (\<lambda>b. utf8_lossy (map unat b)) (tekken_decode_bytes skip tk ids)"

subsection \<open>Byte-pair merging\<close>

definition consider_pair ::
  "(bytes \<rightharpoonup> nat) \<Rightarrow> bytes list \<Rightarrow> nat \<Rightarrow> (nat \<times> nat) option \<Rightarrow> (nat \<times> nat) option option" where
  "consider_pair ranks parts i best = do {
     a \<leftarrow> index parts i;
     b \<leftarrow> index parts (i + 1);
     Some (case ranks (a @ b) of
             Some r \<Rightarrow> (case best of Some (_, q) \<Rightarrow> if r < q then Some (i, r) else best | None \<Rightarrow> Some (i, r))
           | None \<Rightarrow> best) }"

definition best_pair :: "(bytes \<rightharpoonup> nat) \<Rightarrow> bytes list \<Rightarrow> (nat \<times> nat) option option" where
  "best_pair ranks parts = for_each (consider_pair ranks parts) [0..<length parts - 1] None"

definition merge_at :: "bytes \<Rightarrow> bytes list \<Rightarrow> nat \<Rightarrow> bytes list option" where
  "merge_at piece parts i = do {
     before \<leftarrow> slice_to parts i;
     let start = sum_list (map length before);
     a \<leftarrow> index parts i;
     b \<leftarrow> index parts (i + 1);
     p \<leftarrow> slice piece start (start + (length a + length b));
     Some (take (i + 1) (parts[i := p]) @ drop (i + 2) (parts[i := p])) }"

lemma merge_at_shorter: "merge_at piece parts i = Some parts' \<Longrightarrow> length parts' < length parts"
  by (auto simp: merge_at_def bind_eq_Some_conv Let_def)

function merge_loop :: "(bytes \<rightharpoonup> nat) \<Rightarrow> bytes \<Rightarrow> bytes list \<Rightarrow> bytes list option" where
  "merge_loop ranks piece parts =
     (case best_pair ranks parts of
        None \<Rightarrow> None
      | Some None \<Rightarrow> Some parts
      | Some (Some (i, _)) \<Rightarrow>
          (case merge_at piece parts i of None \<Rightarrow> None | Some parts' \<Rightarrow> merge_loop ranks piece parts'))"
  by pat_completeness auto
termination
  by (relation "measure (\<lambda>(_, _, parts). length parts)") (auto dest: merge_at_shorter)

declare merge_loop.simps [simp del]

definition rank_id :: "tekken \<Rightarrow> nat \<Rightarrow> token option" where
  "rank_id tk r = add_u32 r (u32_of (tk_num_special tk))"

definition part_id :: "tekken \<Rightarrow> bytes \<Rightarrow> token option" where
  "part_id tk part =
     (case tk_ranks tk part of
        Some r \<Rightarrow> rank_id tk r
      | None \<Rightarrow> Some (case tk_by_name tk (lit ''<unk>'') of Some i \<Rightarrow> i | None \<Rightarrow> 0))"

definition encode_piece :: "tekken \<Rightarrow> bytes \<Rightarrow> token list \<Rightarrow> token list option" where
  "encode_piece tk piece out =
     (if piece = [] then Some out
      else case tk_ranks tk piece of
        Some r \<Rightarrow> map_option (\<lambda>i. out @ [i]) (rank_id tk r)
      | None \<Rightarrow> do {
          parts \<leftarrow> merge_loop (tk_ranks tk) piece (map (\<lambda>b. [b]) piece);
          for_each (\<lambda>part out. map_option (\<lambda>i. out @ [i]) (part_id tk part)) parts out })"

definition encode_match :: "tekken \<Rightarrow> bytes \<Rightarrow> nat \<times> nat \<Rightarrow> nat \<times> token list \<Rightarrow> (nat \<times> token list) option" where
  "encode_match tk b = (\<lambda>(s, e) (pos, out). do {
     out \<leftarrow> (if s > pos then do { p \<leftarrow> slice b pos s; encode_piece tk p out } else Some out);
     p \<leftarrow> slice b s e;
     out \<leftarrow> encode_piece tk p out;
     Some (e, out) })"

definition tekken_encode :: "tekken \<Rightarrow> utext \<Rightarrow> token list option" where
  "tekken_encode tk t = do {
     let b = utf8_bytes t;
     (pos, out) \<leftarrow> for_each (encode_match tk b) (tk_pattern tk t) (0, []);
     (if pos < length b then do { p \<leftarrow> slice b pos (length b); encode_piece tk p out } else Some out) }"

section \<open>The tokenizer in use (lib.rs)\<close>

text \<open>A special token is a string or an object with a \<open>content\<close>.\<close>

definition token_str :: "json \<Rightarrow> utext option" where
  "token_str v =
     (case v of
        JString s \<Rightarrow> Some s
      | JObject ob \<Rightarrow> (case jget ob ''content'' of Some (JString s) \<Rightarrow> Some s | _ \<Rightarrow> None)
      | _ \<Rightarrow> None)"

definition config_get :: "json \<Rightarrow> string \<Rightarrow> json option" where
  "config_get v k = (case v of JObject ob \<Rightarrow> jget ob k | _ \<Rightarrow> None)"

definition collect_eos :: "(utext \<Rightarrow> nat option) \<Rightarrow> json \<Rightarrow> (utext \<Rightarrow> token option) \<Rightarrow> token list" where
  "collect_eos as_u64 config token_to_id =
     (let number = (\<lambda>v. case v of JNumber n \<Rightarrow> map_option u32_of (as_u64 n) | _ \<Rightarrow> None);
          ids = (case config_get config ''eos_token_id'' of
                   Some (JNumber n) \<Rightarrow> (case as_u64 n of Some v \<Rightarrow> [u32_of v] | None \<Rightarrow> [])
                 | Some (JArray a) \<Rightarrow> List.map_filter number a
                 | _ \<Rightarrow> []);
          named = (case Option.bind (config_get config ''eos_token'') token_str of
                     Some tok \<Rightarrow> (case token_to_id tok of Some i \<Rightarrow> [i] | None \<Rightarrow> [])
                   | None \<Rightarrow> [])
      in remdups_adj (sort (ids @ named)))"

record 'm hf_bundle =
  tb_encode :: "utext \<Rightarrow> bool \<Rightarrow> error + token list"
  tb_decode :: "token list \<Rightarrow> bool \<Rightarrow> error + utext"
  tb_token_to_id :: "utext \<Rightarrow> token option"
  tb_template :: "('m list \<Rightarrow> bool \<Rightarrow> utext \<Rightarrow> utext \<Rightarrow> json list option \<Rightarrow> error + utext) option"
  tb_eos_token_ids :: "token list"
  tb_bos_token :: "utext option"
  tb_eos_token :: "utext option"

definition bundle_encode_chat :: "'m hf_bundle \<Rightarrow> 'm list \<Rightarrow> json list option \<Rightarrow> error + token list" where
  "bundle_encode_chat b messages tools =
     (case tb_template b of
        None \<Rightarrow> Inl (ChatTemplate_error ''model has no chat template'')
      | Some render \<Rightarrow>
          (case render messages True (case tb_bos_token b of Some s \<Rightarrow> s | None \<Rightarrow> [])
                  (case tb_eos_token b of Some s \<Rightarrow> s | None \<Rightarrow> []) tools of
             Inl err \<Rightarrow> Inl err
           | Inr text \<Rightarrow> tb_encode b text False))"

datatype 'm tokenization = Hf "'m hf_bundle" | Tekken tekken | Bytes "'m list \<Rightarrow> error + utext"

fun tok_encode_chat :: "'m tokenization \<Rightarrow> 'm list \<Rightarrow> json list option \<Rightarrow> error + token list" where
  "tok_encode_chat (Hf b) messages tools = bundle_encode_chat b messages tools"
| "tok_encode_chat (Bytes render) messages tools = byte_encode_chat render messages"
| "tok_encode_chat (Tekken tk) messages tools =
     Inl (ChatTemplate_error ''this model has no chat template; it transcribes audio'')"

fun tok_token_id :: "'m tokenization \<Rightarrow> utext \<Rightarrow> token option" where
  "tok_token_id (Hf b) t = tb_token_to_id b t"
| "tok_token_id (Tekken tk) t = special_id t tk"
| "tok_token_id (Bytes _) t = None"

definition has_token :: "'m tokenization \<Rightarrow> utext \<Rightarrow> bool" where
  "has_token tok t = (tok_token_id tok t \<noteq> None)"

fun tok_encode :: "'m tokenization \<Rightarrow> utext \<Rightarrow> (error + token list) option" where
  "tok_encode (Hf b) t = Some (tb_encode b t True)"
| "tok_encode (Tekken tk) t = map_option Inr (tekken_encode tk t)"
| "tok_encode (Bytes _) t = Some (Inr (byte_encode t))"

fun tok_decode :: "'m tokenization \<Rightarrow> token list \<Rightarrow> utext option" where
  "tok_decode (Hf b) ids = Some (case tb_decode b ids True of Inr t \<Rightarrow> t | Inl _ \<Rightarrow> [])"
| "tok_decode (Tekken tk) ids = tekken_decode True tk ids"
| "tok_decode (Bytes _) ids = Some (byte_decode ids)"

fun tok_eos_token_ids :: "'m tokenization \<Rightarrow> token list" where
  "tok_eos_token_ids (Hf b) = tb_eos_token_ids b"
| "tok_eos_token_ids (Tekken tk) = (case special_id (lit ''</s>'') tk of Some i \<Rightarrow> [i] | None \<Rightarrow> [])"
| "tok_eos_token_ids (Bytes _) = byte_eos_token_ids"

fun vocab_hint :: "'m tokenization \<Rightarrow> nat" where
  "vocab_hint (Hf _) = 0"
| "vocab_hint (Tekken tk) = tekken_vocab_size tk"
| "vocab_hint (Bytes _) = 257"

section \<open>Decoders that work on bytes\<close>

text \<open>
  A tokenizer whose tokens stand for bytes, put together and read leniently, gives the incremental
  detokenizer what it relies on.
\<close>

lemma utf8_string_append [simp]: "utf8_string (s @ t) = utf8_string s @ utf8_string t"
  by (simp add: utf8_string_def)

lemma utf8_string_start:
  assumes "c < 0x110000"
  shows "utf8_string (c # t) \<noteq> [] \<and> \<not> is_continuation (hd (utf8_string (c # t)))"
proof -
  have "c div 64 < 32" if "c < 2048" using that by (simp add: div_less_iff_less_mult)
  moreover have "c div 4096 < 16" if "c < 65536" using that by (simp add: div_less_iff_less_mult)
  moreover have "c div 262144 \<le> 4" using assms by (simp add: less_Suc_eq_le [symmetric] div_less_iff_less_mult)
  ultimately show ?thesis
    by (auto simp: utf8_string_def utf8_char_def is_continuation_def of_char_of)
qed

locale byte_decoder =
  fixes ids_bytes :: "token list \<Rightarrow> nat list"
  assumes ids_bytes_append: "ids_bytes (xs @ ys) = ids_bytes xs @ ids_bytes ys"
begin

lemma ids_bytes_Nil: "ids_bytes [] = []"
  using ids_bytes_append [of "[]" "[]"] by simp

lemma lossy_decode_ok: "decode_ok (\<lambda>ids. utf8_string (utf8_lossy (ids_bytes ids)))"
proof -
  have "\<not> is_continuation (hd (utf8_string (utf8_lossy bs)))" if "utf8_string (utf8_lossy bs) \<noteq> []" for bs
  proof (cases "utf8_lossy bs")
    case (Cons c t)
    with utf8_lossy_range [of bs] show ?thesis using utf8_string_start by simp
  qed (use that in \<open>simp add: utf8_string_def\<close>)
  moreover have "utf8_lossy (ids_bytes (xs @ ys)) = utf8_lossy (ids_bytes xs) @ utf8_lossy (ids_bytes ys)"
    if "\<not> suffix replacement (utf8_string (utf8_lossy (ids_bytes xs)))" for xs ys
  proof -
    have "last t \<noteq> fffd" if "t \<noteq> []" "\<not> suffix replacement (utf8_string t)" for t
    proof
      assume "last t = fffd"
      then have "t = butlast t @ [fffd]" using that(1) by (metis append_butlast_last_id)
      moreover have "utf8_string [fffd] = replacement" by (simp add: utf8_string_def utf8_char_def replacement_def char_of_eq_iff take_bit_eq_mod)
      ultimately have "utf8_string t = utf8_string (butlast t) @ replacement" by (metis utf8_string_append)
      with that(2) show False by (simp add: suffix_def)
    qed
    with that show ?thesis by (simp add: ids_bytes_append utf8_lossy_append)
  qed
  ultimately show ?thesis by (simp add: decode_ok_def ids_bytes_Nil utf8_string_def [of "[]"])
qed

end

interpretation byte_ids: byte_decoder "filter (\<lambda>i. i < 256)"
  by unfold_locales simp

definition tekken_piece :: "bool \<Rightarrow> tekken \<Rightarrow> token \<Rightarrow> bytes" where
  "tekken_piece skip tk i =
     (if skip \<and> tekken_special i tk \<noteq> None then []
      else if is_special i tk then (case tk_specials tk ! i of Some s \<Rightarrow> utf8_bytes (sp_text s) | None \<Rightarrow> [])
      else if i - tk_num_special tk < length (tk_vocab tk) then tk_vocab tk ! (i - tk_num_special tk) else [])"

interpretation tekken_ids: byte_decoder "\<lambda>ids. map unat (concat (map (tekken_piece skip tk) ids))" for skip tk
  by unfold_locales simp

section \<open>Tekken's tables\<close>

definition tekken_ok :: "tekken \<Rightarrow> bool" where
  "tekken_ok tk =
     (length (tk_specials tk) = tk_num_special tk \<and> tekken_vocab_size tk < 2 ^ 32 \<and>
      (\<forall>b r. tk_ranks tk b = Some r \<longrightarrow> r < length (tk_vocab tk) \<and> tk_vocab tk ! r = b))"

lemma length_read_vocab: "read_vocab b64 es (vocab, ranks) = Inr (vocab', ranks') \<Longrightarrow> length vocab' = length vocab + length es"
  by (induction es arbitrary: vocab ranks) (auto split: sum.splits)

lemma read_vocab_ok:
  assumes "read_vocab b64 es (vocab, ranks) = Inr (vocab', ranks')" "length vocab + length es < 2 ^ 32"
    "\<forall>b r. ranks b = Some r \<longrightarrow> r < length vocab \<and> vocab ! r = b"
  shows "\<forall>b r. ranks' b = Some r \<longrightarrow> r < length vocab' \<and> vocab' ! r = b"
  using assms
proof (induction es arbitrary: vocab ranks)
  case (Cons e es)
  then obtain b where b: "b64 e = Inr b" by (auto split: sum.splits)
  from Cons.prems(2,3) have
    "\<forall>c r. (ranks(b \<mapsto> u32_of (length vocab))) c = Some r \<longrightarrow> r < length (vocab @ [b]) \<and> (vocab @ [b]) ! r = c"
    by (auto simp: nth_append intro: less_SucI)
  from Cons.IH [OF _ _ this] Cons.prems b show ?case by (simp del: fun_upd_apply)
qed simp

lemma length_read_special: "length (fst (fold (read_special n) es acc)) = length (fst acc)"
proof (induction es arbitrary: acc)
  case (Cons e es)
  have "length (fst (read_special n e acc)) = length (fst acc)" by (cases acc) (auto simp: read_special_def split: prod.splits)
  with Cons show ?case by simp
qed simp

lemma tekken_from_json_ok:
  assumes "tekken_from_json b64 regex (Inr f) = Inr tk" "tf_vocab_size f < 2 ^ 32" "tf_num_special f < 2 ^ 32"
  shows "tekken_ok tk"
proof -
  let ?es = "take (tf_vocab_size f - tf_num_special f) (tf_vocab f)"
  let ?sp = "fold (read_special (tf_num_special f)) (tf_special_tokens f) (replicate (tf_num_special f) None, Map.empty)"
  from assms(1) obtain vocab ranks where v: "read_vocab b64 ?es ([], Map.empty) = Inr (vocab, ranks)"
    and tk: "tk_vocab tk = vocab" "tk_ranks tk = ranks" "tk_specials tk = fst ?sp" "tk_num_special tk = tf_num_special f"
    by (auto simp: tekken_from_json_def Let_def split: sum.splits prod.splits)
  have l: "length ?es \<le> tf_vocab_size f - tf_num_special f" by simp
  then have "length ?es + tf_num_special f < 2 ^ 32" using assms(2,3) by linarith
  moreover have v': "length vocab = length ?es" using length_read_vocab [OF v] by simp
  ultimately have "tekken_vocab_size tk < 2 ^ 32" by (simp add: tekken_vocab_size_def tk)
  moreover have "length (tk_specials tk) = tk_num_special tk"
    using length_read_special [of "tf_num_special f"] by (simp add: tk)
  moreover have "\<forall>b r. ranks b = Some r \<longrightarrow> r < length vocab \<and> vocab ! r = b"
    using read_vocab_ok [OF v] \<open>length ?es + tf_num_special f < 2 ^ 32\<close> by (simp del: length_take)
  ultimately show ?thesis by (simp only: tekken_ok_def tk simp_thms)
qed

lemma tekken_decode_total:
  assumes "tekken_ok tk"
  shows "tekken_decode_bytes skip tk ids = Some (concat (map (tekken_piece skip tk) ids))"
proof -
  have "tekken_decode_one skip tk i out = Some (out @ tekken_piece skip tk i)" for i out
    using assms
    by (auto simp: tekken_decode_one_def tekken_piece_def bytes_of_def tekken_special_def is_special_def tekken_ok_def
        index_def split: option.splits)
  then have "for_each (tekken_decode_one skip tk) ids out = Some (out @ concat (map (tekken_piece skip tk) ids))" for out
    by (induction ids arbitrary: out) simp_all
  then show ?thesis by (simp add: tekken_decode_bytes_def)
qed

section \<open>Byte-pair merging keeps the bytes\<close>

lemma best_pair_spec:
  "\<exists>best. best_pair ranks parts = Some best \<and>
     (case best of
        None \<Rightarrow> \<forall>j. Suc j < length parts \<longrightarrow> ranks (parts ! j @ parts ! Suc j) = None
      | Some (i, r) \<Rightarrow> Suc i < length parts \<and> ranks (parts ! i @ parts ! Suc i) = Some r \<and>
          (\<forall>j q. Suc j < length parts \<and> ranks (parts ! j @ parts ! Suc j) = Some q \<longrightarrow> r \<le> q))"
proof -
  define J where "J = (\<lambda>k best. case best of
        None \<Rightarrow> \<forall>j<k. ranks (parts ! j @ parts ! Suc j) = None
      | Some (i, r) \<Rightarrow> i < k \<and> ranks (parts ! i @ parts ! Suc i) = Some r \<and>
          (\<forall>j<k. \<forall>q. ranks (parts ! j @ parts ! Suc j) = Some q \<longrightarrow> r \<le> q))"
  let ?n = "length parts - 1"
  have step: "\<exists>b. consider_pair ranks parts k best = Some b \<and> J (Suc k) b" if "k < ?n" "J k best" for k best
  proof -
    have c: "consider_pair ranks parts k best = Some (case ranks (parts ! k @ parts ! Suc k) of
        Some r \<Rightarrow> (case best of Some (_, q) \<Rightarrow> if r < q then Some (k, r) else best | None \<Rightarrow> Some (k, r)) | None \<Rightarrow> best)"
      using that(1) by (simp add: consider_pair_def index_def)
    show ?thesis
    proof (cases best)
      case None
      then show ?thesis using c that(2) by (auto simp: J_def less_Suc_eq split: option.splits)
    next
      case (Some p)
      obtain i q where p: "p = (i, q)" by fastforce
      show ?thesis
      proof (cases "ranks (parts ! k @ parts ! Suc k)")
        case None
        with c that(2) Some p show ?thesis by (auto simp: J_def less_Suc_eq)
      next
        case (Some r)
        with c that(2) \<open>best = Some p\<close> p show ?thesis
          by (cases "r < q") (auto simp: J_def less_Suc_eq intro: less_imp_le order.trans [OF less_imp_le])
      qed
    qed
  qed
  have "\<exists>b. for_each (consider_pair ranks parts) [k..<?n] best = Some b \<and> J ?n b" if "k \<le> ?n" "J k best" for k best
    using that
  proof (induction "?n - k" arbitrary: k best)
    case 0
    then have "k = ?n" by simp
    with 0 show ?case by simp
  next
    case (Suc d)
    then have lt: "k < ?n" by simp
    with step Suc.prems(2) obtain b where b: "consider_pair ranks parts k best = Some b" "J (Suc k) b" by blast
    from Suc.hyps(1) [of "Suc k" b] Suc.hyps(2) lt b show ?case by (simp add: upt_rec [of k])
  qed
  from this [of 0 None] obtain b where b: "best_pair ranks parts = Some b" "J ?n b" by (auto simp: J_def best_pair_def)
  from b show ?thesis by (intro exI [of _ b]) (auto simp: J_def less_diff_conv split: option.splits prod.splits)
qed

lemma merge_at_ok:
  assumes "Suc i < length parts" "concat parts = piece"
  shows "merge_at piece parts i = Some (take i parts @ (parts ! i @ parts ! Suc i) # drop (Suc (Suc i)) parts)"
proof -
  let ?n = "length (concat (take i parts))"
  have p: "parts = take i parts @ parts ! i # parts ! Suc i # drop (Suc (Suc i)) parts"
    using assms(1) by (metis Cons_nth_drop_Suc Suc_lessD id_take_nth_drop)
  then have "piece = concat (take i parts) @ (parts ! i @ parts ! Suc i) @ concat (drop (Suc (Suc i)) parts)"
    using assms(2) by (metis append.assoc concat.simps(2) concat_append)
  then have "slice piece ?n (?n + (length (parts ! i) + length (parts ! Suc i))) = Some (parts ! i @ parts ! Suc i)"
    by (simp add: slice_eq)
  then show ?thesis
    using assms(1) by (simp add: merge_at_def slice_to_def Let_def index_def length_concat take_Suc_conv_app_nth)
qed

lemma merge_loop_ok:
  assumes "concat parts = piece" "\<forall>p \<in> set parts. ranks p \<noteq> None"
  shows "\<exists>out. merge_loop ranks piece parts = Some out \<and> concat out = piece \<and> (\<forall>p \<in> set out. ranks p \<noteq> None) \<and>
    (\<forall>j. Suc j < length out \<longrightarrow> ranks (out ! j @ out ! Suc j) = None)"
  using assms
proof (induction "length parts" arbitrary: parts rule: less_induct)
  case less
  from best_pair_spec [of ranks parts] obtain best where b: "best_pair ranks parts = Some best"
    "case best of
        None \<Rightarrow> \<forall>j. Suc j < length parts \<longrightarrow> ranks (parts ! j @ parts ! Suc j) = None
      | Some (i, r) \<Rightarrow> Suc i < length parts \<and> ranks (parts ! i @ parts ! Suc i) = Some r \<and>
          (\<forall>j q. Suc j < length parts \<and> ranks (parts ! j @ parts ! Suc j) = Some q \<longrightarrow> r \<le> q)" by blast
  show ?case
  proof (cases best)
    case None
    with b less.prems show ?thesis by (subst merge_loop.simps) simp
  next
    case (Some ir)
    then obtain i r where i: "best = Some (i, r)" "Suc i < length parts" "ranks (parts ! i @ parts ! Suc i) = Some r"
      using b(2) by (cases ir) auto
    let ?p = "take i parts @ (parts ! i @ parts ! Suc i) # drop (Suc (Suc i)) parts"
    note m = merge_at_ok [OF i(2) less.prems(1)]
    have "parts = take i parts @ parts ! i # parts ! Suc i # drop (Suc (Suc i)) parts"
      using i(2) by (metis Cons_nth_drop_Suc Suc_lessD id_take_nth_drop)
    then have "concat ?p = piece" using less.prems(1) by (metis append.assoc concat.simps(2) concat_append)
    moreover have "\<forall>p \<in> set ?p. ranks p \<noteq> None"
      using less.prems(2) i(3) by (auto dest: in_set_takeD in_set_dropD)
    moreover have "length ?p < length parts" using i(2) by simp
    ultimately show ?thesis using less.hyps [of ?p] m b(1) i(1) by (subst merge_loop.simps) simp
  qed
qed

section \<open>Encoding\<close>

definition complete_bytes :: "tekken \<Rightarrow> bool" where
  "complete_bytes tk = (\<forall>b. tk_ranks tk [b] \<noteq> None)"

definition ordinary :: "tekken \<Rightarrow> token list \<Rightarrow> bool" where
  "ordinary tk ids = (\<forall>i \<in> set ids. tk_num_special tk \<le> i \<and> i < tekken_vocab_size tk)"

lemma rank_id_ok:
  assumes "tekken_ok tk" "tk_ranks tk p = Some r"
  shows "\<exists>i. rank_id tk r = Some i \<and> ordinary tk [i] \<and> tekken_piece skip tk i = p"
proof -
  have r: "r < length (tk_vocab tk)" "tk_vocab tk ! r = p" "tk_num_special tk + length (tk_vocab tk) < 2 ^ 32"
    "length (tk_specials tk) = tk_num_special tk"
    using assms by (auto simp: tekken_ok_def tekken_vocab_size_def)
  then have "rank_id tk r = Some (r + tk_num_special tk)" by (simp add: rank_id_def add_u32_def)
  with r show ?thesis
    by (simp add: ordinary_def tekken_vocab_size_def tekken_piece_def is_special_def tekken_special_def index_def)
qed

lemma part_ids_ok:
  assumes "tekken_ok tk" "\<forall>p \<in> set parts. tk_ranks tk p \<noteq> None" "ordinary tk out"
  shows "\<exists>ids. for_each (\<lambda>part out. map_option (\<lambda>i. out @ [i]) (part_id tk part)) parts out = Some (out @ ids) \<and>
    ordinary tk (out @ ids) \<and> concat (map (tekken_piece skip tk) ids) = concat parts"
  using assms(2,3)
proof (induction parts arbitrary: out)
  case (Cons p parts)
  then obtain r where r: "tk_ranks tk p = Some r" by auto
  from rank_id_ok [OF assms(1) r, of skip] obtain i where
    i: "rank_id tk r = Some i" "ordinary tk [i]" "tekken_piece skip tk i = p" by blast
  from Cons.IH [of "out @ [i]"] Cons.prems i(2) obtain ids where
    "for_each (\<lambda>part out. map_option (\<lambda>i. out @ [i]) (part_id tk part)) parts (out @ [i]) = Some ((out @ [i]) @ ids)"
    "ordinary tk ((out @ [i]) @ ids)" "concat (map (tekken_piece skip tk) ids) = concat parts"
    by (auto simp: ordinary_def)
  with i r show ?case by (intro exI [of _ "i # ids"]) (simp add: part_id_def)
qed simp

lemma encode_piece_ok:
  assumes "tekken_ok tk" "complete_bytes tk" "ordinary tk out"
  shows "\<exists>ids. encode_piece tk piece out = Some (out @ ids) \<and> ordinary tk (out @ ids) \<and>
    concat (map (tekken_piece skip tk) ids) = piece"
proof (cases "piece = [] \<or> tk_ranks tk piece \<noteq> None")
  case True
  then consider "piece = []" | r where "piece \<noteq> []" "tk_ranks tk piece = Some r" by auto
  then show ?thesis
  proof cases
    case 1
    then show ?thesis using assms(3) by (intro exI [of _ "[]"]) (simp add: encode_piece_def)
  next
    case 2
    from rank_id_ok [OF assms(1) 2(2), of skip] obtain i where
      "rank_id tk r = Some i" "ordinary tk [i]" "tekken_piece skip tk i = piece" by blast
    with 2 assms(3) show ?thesis by (intro exI [of _ "[i]"]) (auto simp: encode_piece_def ordinary_def)
  qed
next
  case False
  have "concat (map (\<lambda>b. [b]) piece) = piece" by simp
  moreover have "\<forall>p \<in> set (map (\<lambda>b. [b]) piece). tk_ranks tk p \<noteq> None" using assms(2) by (simp add: complete_bytes_def)
  ultimately obtain parts where p: "merge_loop (tk_ranks tk) piece (map (\<lambda>b. [b]) piece) = Some parts" "concat parts = piece"
    "\<forall>p \<in> set parts. tk_ranks tk p \<noteq> None" using merge_loop_ok by blast
  from part_ids_ok [OF assms(1) p(3) assms(3), of skip] p(1,2) False show ?thesis by (auto simp: encode_piece_def)
qed

text \<open>The spans a regular expression engine yields: in order, not overlapping, inside the text.\<close>

fun spans_ok :: "nat \<Rightarrow> nat \<Rightarrow> (nat \<times> nat) list \<Rightarrow> bool" where
  "spans_ok pos n [] = (pos \<le> n)"
| "spans_ok pos n ((s, e) # ms) = (pos \<le> s \<and> s \<le> e \<and> spans_ok e n ms)"

lemma spans_ok_le: "spans_ok pos n ms \<Longrightarrow> pos \<le> n"
  by (induction pos n ms rule: spans_ok.induct) auto

lemma encode_matches_ok:
  assumes "tekken_ok tk" "complete_bytes tk" "spans_ok pos (length b) ms" "ordinary tk out"
    "concat (map (tekken_piece skip tk) out) = take pos b"
  shows "\<exists>pos' out'. for_each (encode_match tk b) ms (pos, out) = Some (pos', out') \<and> pos' \<le> length b \<and>
    ordinary tk out' \<and> concat (map (tekken_piece skip tk) out') = take pos' b"
  using assms(3-5)
proof (induction ms arbitrary: pos out)
  case Nil
  then show ?case by simp
next
  case (Cons m ms)
  obtain s e where m: "m = (s, e)" by fastforce
  from Cons.prems(1) m have se: "pos \<le> s" "s \<le> e" "spans_ok e (length b) ms" "e \<le> length b" using spans_ok_le by auto
  from encode_piece_ok [OF assms(1,2) Cons.prems(2), of "take (s - pos) (drop pos b)" skip] obtain ids1 where
    1: "encode_piece tk (take (s - pos) (drop pos b)) out = Some (out @ ids1)" "ordinary tk (out @ ids1)"
      "concat (map (tekken_piece skip tk) ids1) = take (s - pos) (drop pos b)" by blast
  have g: "(if s > pos then do { p \<leftarrow> slice b pos s; encode_piece tk p out } else Some out) = Some (out @ ids1)"
  proof (cases "pos < s")
    case True
    with 1(1) se show ?thesis by (simp add: slice_eq)
  next
    case False
    with 1(1) se show ?thesis by (simp add: encode_piece_def)
  qed
  from encode_piece_ok [OF assms(1,2) 1(2), of "take (e - s) (drop s b)" skip] obtain ids2 where
    2: "encode_piece tk (take (e - s) (drop s b)) (out @ ids1) = Some ((out @ ids1) @ ids2)" "ordinary tk ((out @ ids1) @ ids2)"
      "concat (map (tekken_piece skip tk) ids2) = take (e - s) (drop s b)" by blast
  have "encode_match tk b m (pos, out) = Some (e, (out @ ids1) @ ids2)"
    using g 2(1) se m by (simp add: encode_match_def slice_eq)
  moreover have "take pos b @ take (s - pos) (drop pos b) @ take (e - s) (drop s b) = take e b"
    using se(1,2) by (metis append.assoc le_add_diff_inverse take_add)
  then have "concat (map (tekken_piece skip tk) ((out @ ids1) @ ids2)) = take e b" using Cons.prems(3) 1(3) 2(3) by simp
  ultimately show ?case using Cons.IH [OF se(3) 2(2)] by simp
qed

lemma tekken_encode_ok:
  assumes "tekken_ok tk" "complete_bytes tk" "spans_ok 0 (length (utf8 t)) (tk_pattern tk t)"
  shows "\<exists>ids. tekken_encode tk t = Some ids \<and> ordinary tk ids \<and> tekken_decode_bytes skip tk ids = Some (utf8_bytes t)"
proof -
  let ?b = "utf8_bytes t"
  have "spans_ok 0 (length ?b) (tk_pattern tk t)" using assms(3) by (simp add: utf8_bytes_def)
  from encode_matches_ok [OF assms(1,2) this, of "[]" skip] obtain pos out where
    1: "for_each (encode_match tk ?b) (tk_pattern tk t) (0, []) = Some (pos, out)" "pos \<le> length ?b" "ordinary tk out"
      "concat (map (tekken_piece skip tk) out) = take pos ?b" by (auto simp: ordinary_def)
  from encode_piece_ok [OF assms(1,2) 1(3), of "drop pos ?b" skip] obtain ids where
    2: "encode_piece tk (drop pos ?b) out = Some (out @ ids)" "ordinary tk (out @ ids)"
      "concat (map (tekken_piece skip tk) ids) = drop pos ?b" by blast
  have "tekken_encode tk t = Some (out @ ids)"
  proof (cases "pos < length ?b")
    case True
    with 1 2(1) show ?thesis by (simp add: tekken_encode_def Let_def slice_eq)
  next
    case False
    with 1 2(1) show ?thesis by (simp add: tekken_encode_def Let_def encode_piece_def)
  qed
  with 2 1(4) show ?thesis by (auto simp: tekken_decode_total [OF assms(1)])
qed

end
