(* ===== verification/Decision_Format.thy ===== *)
theory Decision_Format
  imports Decision_Engine Tokenizers
begin

text \<open>
  How a question becomes the sequence a decision model reads: the questions of a request
  (\<open>vapi-openai/src/decision.rs\<close>) and the builder (\<open>vapi-tokenize/src/decision.rs\<close>).  The
  printer of JSON values is a parameter, and so is the tokenizer, the function \<open>enc\<close> that encodes a
  text without special tokens.
\<close>

section \<open>Questions\<close>

datatype criteria = Named "(utext \<times> utext option) list" | Levels "utext list"

record question =
  q_type :: question_type
  q_instructions :: json
  q_criteria :: "criteria option"

definition NOUL_FALSE :: utext where
  "NOUL_FALSE = lit ''no, the statement does not hold''"

definition NOUL_TRUE :: utext where
  "NOUL_TRUE = lit ''yes, the statement holds''"

definition json_text :: "(json \<Rightarrow> utext) \<Rightarrow> json \<Rightarrow> utext" where
  "json_text python_json v = (case v of JString s \<Rightarrow> s | _ \<Rightarrow> python_json v)"

definition instruction_text :: "(json \<Rightarrow> utext) \<Rightarrow> question \<Rightarrow> utext" where
  "instruction_text python_json q = json_text python_json (q_instructions q)"

definition show_text :: "nat \<Rightarrow> utext" where
  "show_text n = lit (show_nat n)"

definition labels :: "question \<Rightarrow> utext list" where
  "labels q =
     (case q_type q of
        Noul \<Rightarrow> [lit ''false'', lit ''true'']
      | Choice \<Rightarrow> (case q_criteria q of Some (Named m) \<Rightarrow> map fst m | Some (Levels v) \<Rightarrow> v | None \<Rightarrow> [])
      | Score \<Rightarrow> (case q_criteria q of
                    Some (Levels v) \<Rightarrow> map show_text [0..<length v] | Some (Named m) \<Rightarrow> map fst m | None \<Rightarrow> []))"

definition legend :: "question \<Rightarrow> (utext \<times> utext) list" where
  "legend q =
     (case (q_type q, q_criteria q) of
        (Score, Some (Levels v)) \<Rightarrow> map (\<lambda>(i, c). (show_text i, c)) (enumerate 0 v)
      | (Score, Some (Named m)) \<Rightarrow> map (\<lambda>(i, (k, _)). (show_text i, k)) (enumerate 0 m)
      | _ \<Rightarrow> [])"

definition described :: "utext \<Rightarrow> utext option \<Rightarrow> utext" where
  "described k v = (case v of Some d \<Rightarrow> if d = [] then k else k @ lit '': '' @ d | None \<Rightarrow> k)"

definition noul_text :: "criteria option \<Rightarrow> string \<Rightarrow> utext \<Rightarrow> utext" where
  "noul_text crit key dflt =
     lit key @ lit '': '' @
     (case crit of
        Some (Named m) \<Rightarrow> (case map_of m (lit key) of Some (Some d) \<Rightarrow> if d = [] then dflt else d | _ \<Rightarrow> dflt)
      | _ \<Rightarrow> dflt)"

definition option_texts :: "question \<Rightarrow> error + utext list" where
  "option_texts q =
     (let texts =
        (case (q_type q, q_criteria q) of
           (Choice, Some (Named m)) \<Rightarrow> Inr (map (\<lambda>(k, v). described k v) m)
         | (Choice, Some (Levels v)) \<Rightarrow> Inr v
         | (Score, Some (Levels v)) \<Rightarrow> Inr (map (\<lambda>(i, c). lit ''level '' @ show_text i @ lit '': '' @ c) (enumerate 0 v))
         | (Score, Some (Named m)) \<Rightarrow>
             Inr (map (\<lambda>(i, (k, v)). lit ''level '' @ show_text i @ lit '': '' @ described k v) (enumerate 0 m))
         | (Noul, crit) \<Rightarrow> Inr [noul_text crit ''false'' NOUL_FALSE, noul_text crit ''true'' NOUL_TRUE]
         | (Choice, None) \<Rightarrow> Inl (InvalidRequest ''a choice question needs criteria'')
         | (Score, None) \<Rightarrow> Inl (InvalidRequest ''a score question needs its levels as criteria''))
      in case texts of
           Inl e \<Rightarrow> Inl e
         | Inr ts \<Rightarrow> if length ts < 2
             then Inl (InvalidRequest ''a question needs at least two options to have an answer'') else Inr ts)"

section \<open>Special tokens\<close>

record special_tokens =
  st_cls :: "token option"
  st_sep :: "token option"
  st_mask :: "token option"
  st_pad :: "token option"
  st_mask_text :: "utext option"

definition named_token :: "json \<Rightarrow> (utext \<Rightarrow> token option) \<Rightarrow> string \<Rightarrow> string \<Rightarrow> (utext \<times> token) option" where
  "named_token config token_to_id key fallback =
     (let text = (case Option.bind (config_get config key) token_str of Some t \<Rightarrow> t | None \<Rightarrow> lit fallback)
      in map_option (\<lambda>i. (text, i)) (token_to_id text))"

definition special_tokens_from :: "json \<Rightarrow> (utext \<Rightarrow> token option) \<Rightarrow> special_tokens" where
  "special_tokens_from config token_to_id =
     (let named = named_token config token_to_id; mk = named ''mask_token'' ''[MASK]''
      in \<lparr>st_cls = map_option snd (named ''cls_token'' ''[CLS]''), st_sep = map_option snd (named ''sep_token'' ''[SEP]''),
          st_mask = map_option snd mk, st_pad = map_option snd (named ''pad_token'' ''[PAD]''), st_mask_text = map_option fst mk\<rparr>)"

section \<open>The format\<close>

definition OPTION_TOKEN_CAP :: nat where "OPTION_TOKEN_CAP = 48"
definition MIN_OPTION_BUDGET :: nat where "MIN_OPTION_BUDGET = 16"
definition MIN_HEAD_TOKENS :: nat where "MIN_HEAD_TOKENS = 8"
definition MIN_TOKENS_PER_OPTION :: nat where "MIN_TOKENS_PER_OPTION = 4"
definition OPTIONS_ARE_CRAMPED_BELOW :: nat where "OPTIONS_ARE_CRAMPED_BELOW = 8"

record built_sequence =
  bs_tokens :: "token list"
  bs_markers :: "nat list"
  bs_option_tokens :: "nat option"

definition options_are_cramped :: "built_sequence \<Rightarrow> bool" where
  "options_are_cramped b = (case bs_option_tokens b of Some per \<Rightarrow> per < OPTIONS_ARE_CRAMPED_BELOW | None \<Rightarrow> False)"

record decision_format =
  df_cls :: token
  df_sep :: token
  df_mask :: token
  df_pad :: token
  df_mask_text :: utext
  df_config :: decision_config
  df_truncate_left :: bool
  df_multilingual :: bool

definition need_token :: "token option \<Rightarrow> string \<Rightarrow> error + token" where
  "need_token i name =
     (case i of
        Some t \<Rightarrow> Inr t
      | None \<Rightarrow> Inl (Tokenizer_error (''this tokenizer has no '' @ name @ '' token, so it cannot be a decision model's'')))"

definition decision_format_new :: "special_tokens \<Rightarrow> decision_config \<Rightarrow> error + decision_format" where
  "decision_format_new sp config =
     (case need_token (st_cls sp) ''[CLS]'' of
        Inl e \<Rightarrow> Inl e
      | Inr cls \<Rightarrow>
          (case need_token (st_sep sp) ''[SEP]'' of
             Inl e \<Rightarrow> Inl e
           | Inr sep \<Rightarrow>
               (case need_token (st_mask sp) ''[MASK]'' of
                  Inl e \<Rightarrow> Inl e
                | Inr mk \<Rightarrow>
                    Inr \<lparr>df_cls = cls, df_sep = sep, df_mask = mk, df_pad = (case st_pad sp of Some p \<Rightarrow> p | None \<Rightarrow> 0),
                         df_mask_text = (case st_mask_text sp of Some t \<Rightarrow> t | None \<Rightarrow> lit ''[MASK]''),
                         df_config = config, df_truncate_left = False, df_multilingual = False\<rparr>)))"

text \<open>\<open>str::replace\<close>: non-overlapping occurrences from the left; an empty pattern occurs everywhere.\<close>

function str_replace :: "utext \<Rightarrow> utext \<Rightarrow> utext \<Rightarrow> utext" where
  "str_replace pat rep [] = (if pat = [] then rep else [])"
| "str_replace pat rep (c # cs) =
     (if pat = [] then rep @ c # str_replace pat rep cs
      else if prefix pat (c # cs) then rep @ str_replace pat rep (drop (length pat - 1) cs)
      else c # str_replace pat rep cs)"
  by pat_completeness auto
termination
  by (relation "measure (\<lambda>(_, _, s). length s)") auto

definition scrub :: "decision_format \<Rightarrow> utext \<Rightarrow> utext" where
  "scrub f text =
     (if str_find (df_mask_text f) text \<noteq> None then str_replace (df_mask_text f) (lit '' '') text else text)"

text \<open>One option: its marker and its tokens, up to the cap.\<close>

definition option_row :: "decision_format \<Rightarrow> (utext \<Rightarrow> error + token list) \<Rightarrow> utext \<Rightarrow> error + token list" where
  "option_row f enc opt = map_sum id (\<lambda>ids. df_mask f # take OPTION_TOKEN_CAP ids) (enc (lit '' '' @ scrub f opt))"

fun option_rows :: "decision_format \<Rightarrow> (utext \<Rightarrow> error + token list) \<Rightarrow> utext list \<Rightarrow> error + token list list" where
  "option_rows f enc [] = Inr []"
| "option_rows f enc (opt # opts) =
     (case option_row f enc opt of
        Inl e \<Rightarrow> Inl e
      | Inr row \<Rightarrow> (case option_rows f enc opts of Inl e \<Rightarrow> Inl e | Inr rows \<Rightarrow> Inr (row # rows)))"

text \<open>The options cut to the same length when they leave the question too little room.\<close>

definition fit_options :: "nat \<Rightarrow> token list list \<Rightarrow> error + (token list list \<times> nat option)" where
  "fit_options head_max rows =
     (if head_max - sum_list (map length rows) < MIN_OPTION_BUDGET then
        (let room = (head_max - MIN_OPTION_BUDGET) div length rows in
         if room < MIN_TOKENS_PER_OPTION then
           Inl (InvalidRequest (show_nat (length rows) @ '' options leave '' @ show_nat room @ '' tokens each within head_max_len=''
             @ show_nat head_max @ '', below the '' @ show_nat MIN_TOKENS_PER_OPTION @ '' an option needs to exist at all; ''
             @ ''raise head_max_len, shorten the option texts, or split the question ''
             @ ''into a coarse choice followed by a fine one''))
         else Inr (map (take room) rows, Some room))
      else Inr (rows, None))"

definition place_option :: "token list \<Rightarrow> token list \<times> nat list \<Rightarrow> token list \<times> nat list" where
  "place_option row = (\<lambda>(tokens, markers). (tokens @ row, markers @ [u32_of (length tokens)]))"

definition keep_state :: "bool \<Rightarrow> nat \<Rightarrow> token list \<Rightarrow> token list" where
  "keep_state left room ids =
     (if length ids \<le> room then ids else if left then drop (length ids - room) ids else take room ids)"

text \<open>The end of a sequence: the separator, as much of the state as fits, and the last check.\<close>

definition close_sequence ::
  "decision_format \<Rightarrow> (utext \<Rightarrow> error + token list) \<Rightarrow> utext \<Rightarrow> nat option \<Rightarrow> token list \<Rightarrow> nat list \<Rightarrow> error + built_sequence" where
  "close_sequence f enc state shrunk ts ms =
     (let max_len = dc_max_len (df_config f); tokens = ts @ [df_sep f]; room = max_len - (length tokens + 1)
      in case enc (scrub f state) of
           Inl e \<Rightarrow> Inl e
         | Inr ids \<Rightarrow>
             let tokens = take max_len (tokens @ keep_state (df_truncate_left f) room ids @ [df_sep f])
             in if list_ex (\<lambda>m. m \<ge> length tokens) ms
                then Inl (InvalidRequest (''the question and its options do not fit in max_len='' @ show_nat max_len))
                else Inr \<lparr>bs_tokens = tokens, bs_markers = ms, bs_option_tokens = shrunk\<rparr>)"

definition build ::
  "decision_format \<Rightarrow> (utext \<Rightarrow> error + token list) \<Rightarrow> question_type \<Rightarrow> utext \<Rightarrow> utext list \<Rightarrow> utext \<Rightarrow> error + built_sequence" where
  "build f enc qt instructions options state =
     (if length options < 2 then Inl (InvalidRequest ''a question needs at least two options'')
      else
        let max_len = dc_max_len (df_config f); head_max = min (dc_head_max_len (df_config f)) max_len in
        (case enc (lit (qt_as_str qt) @ lit '' question: '' @ scrub f instructions) of
           Inl e \<Rightarrow> Inl e
         | Inr head \<Rightarrow>
             (case option_rows f enc options of
                Inl e \<Rightarrow> Inl e
              | Inr rows \<Rightarrow>
                  (case fit_options head_max rows of
                     Inl e \<Rightarrow> Inl e
                   | Inr (rows, shrunk) \<Rightarrow>
                       let budget = head_max - sum_list (map length rows);
                           head = take (max budget MIN_HEAD_TOKENS) head;
                           (tokens, markers) = fold place_option rows (df_cls f # head @ [df_sep f], [])
                       in close_sequence f enc state shrunk tokens markers))))"

section \<open>Scrubbing\<close>

lemma str_find_sublist: "str_find pat s = None \<longleftrightarrow> \<not> sublist pat s"
  by (induction pat s rule: str_find.induct) (auto simp: sublist_Cons_right)

lemma replace_prefix:
  "c \<notin> set m \<Longrightarrow> pat \<noteq> [] \<Longrightarrow> prefix m (str_replace pat [c] s) \<Longrightarrow> prefix m s"
proof (induction pat "[c]" s arbitrary: m rule: str_replace.induct)
  case (2 pat d cs)
  show ?case
  proof (cases "m = [] \<or> prefix pat (d # cs)")
    case True
    with 2(4-6) show ?thesis by (cases m) auto
  next
    case False
    then obtain x m' where m: "m = x # m'" by (cases m) auto
    with 2 False have "x = d" "prefix m' (str_replace pat [c] cs)" by auto
    with 2 False m show ?thesis by simp
  qed
qed simp

lemma replace_clean:
  "c \<notin> set pat \<Longrightarrow> pat \<noteq> [] \<Longrightarrow> \<not> sublist pat (str_replace pat [c] s)"
proof (induction pat "[c]" s rule: str_replace.induct)
  case (2 pat d cs)
  show ?case
  proof (cases "prefix pat (d # cs)")
    case True
    have "\<not> prefix pat (c # r)" for r using 2(4,5) by (cases pat) auto
    with 2 True show ?thesis by (simp add: sublist_Cons_right)
  next
    case False
    moreover have "\<not> prefix pat (d # str_replace pat [c] cs)"
      using replace_prefix [OF 2(4) 2(5), of "d # cs"] False 2(5) by auto
    ultimately show ?thesis using 2 by (simp add: sublist_Cons_right)
  qed
qed simp

lemma lit_space: "lit '' '' = [32]"
  by (simp add: lit_def)

text \<open>A text that follows a space cannot help to spell a marker without one.\<close>

lemma clean_after_space:
  assumes "32 \<notin> set m" "m \<noteq> []" "\<not> sublist m (pre @ [32])" "\<not> sublist m s"
  shows "\<not> sublist m ((pre @ [32]) @ s)"
proof -
  have "xs1 = []" if "suffix xs1 (pre @ [32])" "m = xs1 @ xs2" for xs1 xs2
    using that assms(1) by (cases xs1 rule: rev_cases) auto
  then have "\<not> (\<exists>xs1 xs2. m = xs1 @ xs2 \<and> suffix xs1 (pre @ [32]) \<and> prefix xs2 s)"
    using assms(4) by (metis append_Nil prefix_imp_sublist)
  then show ?thesis using assms(3,4) unfolding sublist_append [of m "pre @ [32]"] by blast
qed

definition mask_text_ok :: "decision_format \<Rightarrow> bool" where
  "mask_text_ok f =
     (df_mask_text f \<noteq> [] \<and> 32 \<notin> set (df_mask_text f) \<and>
      (\<forall>qt. \<not> sublist (df_mask_text f) (lit (qt_as_str qt) @ lit '' question:'')))"

lemma scrub_clean: "mask_text_ok f \<Longrightarrow> \<not> sublist (df_mask_text f) (scrub f text)"
  by (auto simp: mask_text_ok_def scrub_def str_find_sublist lit_space replace_clean)

lemma clean_option_text:
  assumes "mask_text_ok f"
  shows "\<not> sublist (df_mask_text f) (lit '' '' @ scrub f t)"
proof -
  from assms have "\<not> sublist (df_mask_text f) ([] @ [32])"
    by (auto simp: mask_text_ok_def sublist_Cons_right prefix_Cons)
  from clean_after_space [OF _ _ this scrub_clean [OF assms, of t]] assms show ?thesis
    by (simp add: lit_space mask_text_ok_def)
qed

lemma clean_question_text:
  assumes "mask_text_ok f"
  shows "\<not> sublist (df_mask_text f) (lit (qt_as_str qt) @ lit '' question: '' @ scrub f t)"
proof -
  let ?p = "lit (qt_as_str qt) @ lit '' question:''"
  have "\<not> sublist (df_mask_text f) [32]" using assms by (auto simp: mask_text_ok_def sublist_Cons_right prefix_Cons)
  moreover have "\<not> sublist (df_mask_text f) ?p" using assms by (simp add: mask_text_ok_def)
  moreover have "xs2 = []" if "df_mask_text f = xs1 @ xs2" "prefix xs2 [32]" for xs1 xs2
    using that assms by (auto simp: mask_text_ok_def prefix_Cons)
  then have "\<not> (\<exists>xs1 xs2. df_mask_text f = xs1 @ xs2 \<and> suffix xs1 ?p \<and> prefix xs2 [32])"
    using \<open>\<not> sublist (df_mask_text f) ?p\<close> by (metis append_Nil2 suffix_imp_sublist)
  ultimately have "\<not> sublist (df_mask_text f) (?p @ [32])" by (subst sublist_append) blast
  from clean_after_space [OF _ _ this scrub_clean [OF assms, of t]] assms
  have "\<not> sublist (df_mask_text f) ((?p @ [32]) @ scrub f t)" by (simp add: mask_text_ok_def)
  then show ?thesis by (simp add: lit_def)
qed

section \<open>Where the markers land\<close>

fun offsets :: "nat \<Rightarrow> 'a list list \<Rightarrow> nat list" where
  "offsets n [] = []"
| "offsets n (r # rs) = n # offsets (n + length r) rs"

lemma fold_place_option:
  "fold place_option rows (ts, ms) = (ts @ concat rows, ms @ map u32_of (offsets (length ts) rows))"
  by (induction rows arbitrary: ts ms) (simp_all add: place_option_def)

lemma length_offsets [simp]: "length (offsets n rows) = length rows"
  by (induction n rows rule: offsets.induct) simp_all

lemma offsets_ge: "x \<in> set (offsets n rows) \<Longrightarrow> n \<le> x"
  by (induction n rows rule: offsets.induct) auto

lemma offsets_less: "[] \<notin> set rows \<Longrightarrow> x \<in> set (offsets n rows) \<Longrightarrow> x < n + length (concat rows)"
  by (induction n rows rule: offsets.induct) (auto simp: less_eq_Suc_le [symmetric] intro: le_neq_implies_less)

lemma offsets_sorted: "[] \<notin> set rows \<Longrightarrow> sorted_wrt (<) (offsets n rows)"
proof (induction n rows rule: offsets.induct)
  case (2 n r rs)
  have "n < x" if "x \<in> set (offsets (n + length r) rs)" for x using offsets_ge [OF that] 2(2) by (cases r) auto
  with 2 show ?case by simp
qed simp

lemma offsets_masks:
  assumes "\<forall>r \<in> set rows. \<exists>t. r = mk # t \<and> mk \<notin> set t" "mk \<notin> set xs" "mk \<notin> set ys"
  shows "i < length (xs @ concat rows @ ys) \<and> (xs @ concat rows @ ys) ! i = mk \<longleftrightarrow> i \<in> set (offsets (length xs) rows)"
  using assms
proof (induction rows arbitrary: xs i)
  case Nil
  then have "mk \<notin> set (xs @ ys)" by simp
  then show ?case by (metis append_Nil concat.simps(1) empty_iff list.set(1) nth_mem offsets.simps(1))
next
  case (Cons r rows)
  from Cons.prems(1) obtain t where t: "r = mk # t" "mk \<notin> set t" by auto
  let ?n = "length xs" and ?l = "t @ concat rows @ ys"
  have "offsets (?n + length r) rows = map (\<lambda>x. x + Suc ?n) (offsets (length t) rows)"
  proof -
    have "offsets (a + b) rows = map (\<lambda>x. x + b) (offsets a rows)" for a b :: nat and rows :: "'a list list"
      by (induction a rows rule: offsets.induct) (simp_all add: add.assoc add.commute add.left_commute)
    from this [of "length t" "Suc ?n"] t(1) show ?thesis by (simp add: add.commute)
  qed
  moreover have "j < length ?l \<and> ?l ! j = mk \<longleftrightarrow> j \<in> set (offsets (length t) rows)" for j
    using Cons.IH [of t j] Cons.prems t(2) by simp
  moreover have "(xs @ concat (r # rows) @ ys) ! i = (if i < ?n then xs ! i else if i = ?n then mk else ?l ! (i - Suc ?n))"
    using t(1) by (auto simp: nth_append nth_Cons')
  ultimately have nth: "(xs @ concat (r # rows) @ ys) ! i = (if i < ?n then xs ! i else if i = ?n then mk else ?l ! (i - Suc ?n))"
    and off: "set (offsets ?n (r # rows)) = insert ?n ((\<lambda>x. x + Suc ?n) ` set (offsets (length t) rows))"
    and IH: "\<And>j. j < length ?l \<and> ?l ! j = mk \<longleftrightarrow> j \<in> set (offsets (length t) rows)" by simp_all
  consider "i < ?n" | "i = ?n" | j where "i = j + Suc ?n" by (metis add.commute less_imp_Suc_add linorder_neqE_nat add_Suc_right)
  then show ?case
  proof cases
    case 1
    then have "xs ! i \<noteq> mk" using Cons.prems(2) nth_mem by blast
    with 1 nth off show ?thesis by auto
  next
    case 2
    with nth off t(1) show ?thesis by simp
  next
    case (3 j)
    with nth off IH [of j] t(1) show ?thesis by auto
  qed
qed

section \<open>The built sequence\<close>

lemma option_rows_ok:
  "option_rows f enc opts = Inr rows \<Longrightarrow> length rows = length opts \<and>
     (\<forall>r \<in> set rows. \<exists>opt ids. enc (lit '' '' @ scrub f opt) = Inr ids \<and> r = df_mask f # take OPTION_TOKEN_CAP ids)"
proof (induction opts arbitrary: rows)
  case (Cons opt opts)
  then obtain ids rows' where "enc (lit '' '' @ scrub f opt) = Inr ids" "option_rows f enc opts = Inr rows'"
    "rows = (df_mask f # take OPTION_TOKEN_CAP ids) # rows'"
    by (cases "enc (lit '' '' @ scrub f opt)") (auto simp: option_row_def split: sum.splits)
  with Cons.IH [of rows'] show ?case by auto
qed simp

lemma fit_options_ok:
  assumes "fit_options head_max rows = Inr (rows', shrunk)" "rows \<noteq> []"
  shows "length rows' = length rows" "length (concat rows') + MIN_OPTION_BUDGET \<le> head_max"
    "\<forall>r' \<in> set rows'. \<exists>r \<in> set rows. \<exists>k. 0 < k \<and> r' = take k r"
proof -
  let ?room = "(head_max - MIN_OPTION_BUDGET) div length rows"
  have "length rows' = length rows \<and> length (concat rows') + MIN_OPTION_BUDGET \<le> head_max \<and>
    (\<forall>r' \<in> set rows'. \<exists>r \<in> set rows. \<exists>k. 0 < k \<and> r' = take k r)"
  proof (cases "head_max - sum_list (map length rows) < MIN_OPTION_BUDGET")
    case True
    with assms(1) have r: "4 \<le> ?room" "rows' = map (take ?room) rows"
      by (auto simp: fit_options_def Let_def MIN_TOKENS_PER_OPTION_def split: if_splits)
    have "length (concat (map (take k) xs)) \<le> k * length xs" for k and xs :: "token list list"
      by (induction xs) (auto simp: algebra_simps intro: add_mono)
    from this [of ?room rows] have "length (concat rows') \<le> ?room * length rows" unfolding r(2) .
    also have "\<dots> \<le> head_max - MIN_OPTION_BUDGET" by (rule div_times_less_eq_dividend)
    finally have "length (concat rows') \<le> head_max - MIN_OPTION_BUDGET" .
    moreover have "MIN_OPTION_BUDGET \<le> head_max" using r(1) by (cases "MIN_OPTION_BUDGET \<le> head_max") auto
    moreover have "\<exists>r \<in> set rows. \<exists>k. 0 < k \<and> r' = take k r" if "r' \<in> set rows'" for r'
    proof -
      from that r(2) obtain x where "x \<in> set rows" "r' = take ?room x" by auto
      moreover have "0 < ?room" using r(1) by linarith
      ultimately show ?thesis by blast
    qed
    ultimately show ?thesis using r(2) by auto
  next
    case False
    with assms(1) have r: "rows' = rows" by (simp add: fit_options_def)
    have "\<exists>k. 0 < k \<and> x = take k x" for x :: "token list" by (intro exI [of _ "Suc (length x)"]) simp
    then have "\<forall>r' \<in> set rows'. \<exists>r \<in> set rows. \<exists>k. 0 < k \<and> r' = take k r" unfolding r by blast
    moreover have "length (concat rows') + MIN_OPTION_BUDGET \<le> head_max"
      using False by (simp add: r length_concat MIN_OPTION_BUDGET_def)
    ultimately show ?thesis using r by simp
  qed
  then show "length rows' = length rows" "length (concat rows') + MIN_OPTION_BUDGET \<le> head_max"
    "\<forall>r' \<in> set rows'. \<exists>r \<in> set rows. \<exists>k. 0 < k \<and> r' = take k r" by blast+
qed

lemma close_sequence_ok:
  assumes "close_sequence f enc state shrunk ts ms = Inr b"
  shows "\<exists>st_ids kept. enc (scrub f state) = Inr st_ids \<and> set kept \<subseteq> set st_ids \<and>
    bs_tokens b = take (dc_max_len (df_config f)) (ts @ [df_sep f] @ kept @ [df_sep f]) \<and> bs_markers b = ms \<and>
    (\<forall>m \<in> set ms. m < length (bs_tokens b))"
proof -
  from assms obtain st_ids where st: "enc (scrub f state) = Inr st_ids"
    by (cases "enc (scrub f state)") (auto simp: close_sequence_def Let_def)
  define kept where "kept = keep_state (df_truncate_left f) (dc_max_len (df_config f) - (length (ts @ [df_sep f]) + 1)) st_ids"
  have "set kept \<subseteq> set st_ids" by (auto simp: kept_def keep_state_def dest: in_set_takeD in_set_dropD)
  moreover from assms st have
    "b = \<lparr>bs_tokens = take (dc_max_len (df_config f)) ((ts @ [df_sep f]) @ kept @ [df_sep f]), bs_markers = ms, bs_option_tokens = shrunk\<rparr>"
    "\<not> list_ex (\<lambda>m. m \<ge> length (bs_tokens b)) ms"
    by (auto simp only: close_sequence_def Let_def kept_def [symmetric] sum.case sum.inject built_sequence.select_convs split: if_splits)
  ultimately show ?thesis using st by (intro exI [of _ st_ids] exI [of _ kept]) (auto simp: list_ex_iff not_le)
qed

lemma build_shape:
  assumes "build f enc qt instructions options state = Inr b"
  obtains hd_ids n rows st_ids kept where
    "enc (lit (qt_as_str qt) @ lit '' question: '' @ scrub f instructions) = Inr hd_ids"
    "enc (scrub f state) = Inr st_ids" "set kept \<subseteq> set st_ids"
    "length rows = length options" "2 \<le> length options"
    "\<forall>r \<in> set rows. \<exists>opt ids k. enc (lit '' '' @ scrub f opt) = Inr ids \<and> r = df_mask f # take k ids"
    "n + length (concat rows) \<le> dc_max_len (df_config f)"
    "bs_tokens b = take (dc_max_len (df_config f))
       ((df_cls f # take n hd_ids @ [df_sep f]) @ concat rows @ [df_sep f] @ kept @ [df_sep f])"
    "bs_markers b = map u32_of (offsets (length (df_cls f # take n hd_ids @ [df_sep f])) rows)"
    "\<forall>m \<in> set (bs_markers b). m < length (bs_tokens b)"
proof -
  let ?max = "dc_max_len (df_config f)" let ?hm = "min (dc_head_max_len (df_config f)) ?max"
  from assms have opts: "2 \<le> length options" by (simp add: build_def split: if_splits)
  from assms obtain hd_ids where h: "enc (lit (qt_as_str qt) @ lit '' question: '' @ scrub f instructions) = Inr hd_ids"
    by (simp add: build_def Let_def split: if_splits sum.splits)
  from assms h obtain rows0 where r0: "option_rows f enc options = Inr rows0"
    by (simp add: build_def Let_def split: if_splits sum.splits)
  from assms h r0 obtain rows shrunk where r: "fit_options ?hm rows0 = Inr (rows, shrunk)"
    by (simp add: build_def Let_def split: if_splits sum.splits prod.splits)
  define n where "n = max (?hm - sum_list (map length rows)) MIN_HEAD_TOKENS"
  from option_rows_ok [OF r0] opts have r0': "rows0 \<noteq> []" "length rows0 = length options"
    "\<forall>r \<in> set rows0. \<exists>opt ids. enc (lit '' '' @ scrub f opt) = Inr ids \<and> r = df_mask f # take OPTION_TOKEN_CAP ids" by auto
  note fo = fit_options_ok [OF r r0'(1)]
  have rows: "\<exists>opt ids k. enc (lit '' '' @ scrub f opt) = Inr ids \<and> r = df_mask f # take k ids" if "r \<in> set rows" for r
  proof -
    from fo(3) that obtain x k where "x \<in> set rows0" "0 < k" "r = take k x" by blast
    moreover from this(1) r0'(3) obtain opt ids where "enc (lit '' '' @ scrub f opt) = Inr ids" "x = df_mask f # take OPTION_TOKEN_CAP ids" by blast
    ultimately show ?thesis by (cases k) auto
  qed
  have "n = ?hm - length (concat rows)" "length (concat rows) \<le> ?hm"
    using fo(2) by (auto simp: n_def MIN_OPTION_BUDGET_def MIN_HEAD_TOKENS_def length_concat)
  then have n: "n + length (concat rows) \<le> ?max" by simp
  let ?base = "df_cls f # take n hd_ids @ [df_sep f]"
  have fp: "fold place_option rows (?base, []) = (?base @ concat rows, map u32_of (offsets (length ?base) rows))"
    by (simp only: fold_place_option append_Nil)
  define l where "l = length ((?base @ concat rows) @ [df_sep f]) + 1"
  have "build f enc qt instructions options state =
      close_sequence f enc state shrunk (?base @ concat rows) (map u32_of (offsets (length ?base) rows))"
    using opts by (simp only: build_def Let_def h r0 r n_def [symmetric] fp if_False sum.case prod.case not_less [symmetric])
  from close_sequence_ok [OF this [symmetric, unfolded assms]] obtain st_ids kept where
    "enc (scrub f state) = Inr st_ids" "set kept \<subseteq> set st_ids"
    "bs_tokens b = take ?max ((?base @ concat rows) @ [df_sep f] @ kept @ [df_sep f])"
    "bs_markers b = map u32_of (offsets (length ?base) rows)" "\<forall>m \<in> set (bs_markers b). m < length (bs_tokens b)" by metis
  then show ?thesis using that [OF h _ _ _ opts _ n] fo(1) r0'(2) rows by (metis append_assoc)
qed

lemma build_markers:
  assumes "build f enc qt instructions options state = Inr b" "dc_max_len (df_config f) + 2 < 2 ^ 32"
  obtains pre rows post where
    "bs_tokens b = take (dc_max_len (df_config f)) (pre @ concat rows @ post)" "bs_markers b = offsets (length pre) rows"
    "length rows = length options" "2 \<le> length options" "[] \<notin> set rows"
    "\<forall>m \<in> set (bs_markers b). m < length (bs_tokens b)"
    "\<And>bad. bad \<noteq> df_cls f \<Longrightarrow> bad \<noteq> df_sep f \<Longrightarrow>
       (\<And>t ids. \<not> sublist (df_mask_text f) t \<Longrightarrow> enc t = Inr ids \<Longrightarrow> bad \<notin> set ids) \<Longrightarrow> mask_text_ok f \<Longrightarrow>
       bad \<notin> set pre \<and> bad \<notin> set post \<and> (\<forall>r \<in> set rows. \<exists>t. r = df_mask f # t \<and> bad \<notin> set t)"
  using assms(1)
proof (rule build_shape)
  fix hd_ids n rows st_ids kept
  let ?max = "dc_max_len (df_config f)"
  let ?pre = "df_cls f # take n hd_ids @ [df_sep f]" and ?post = "[df_sep f] @ kept @ [df_sep f]"
  assume h: "enc (lit (qt_as_str qt) @ lit '' question: '' @ scrub f instructions) = Inr hd_ids"
    and st: "enc (scrub f state) = Inr st_ids" "set kept \<subseteq> set st_ids"
    and len: "length rows = length options" "2 \<le> length options"
    and rows: "\<forall>r \<in> set rows. \<exists>opt ids k. enc (lit '' '' @ scrub f opt) = Inr ids \<and> r = df_mask f # take k ids"
    and n: "n + length (concat rows) \<le> ?max"
    and b: "bs_tokens b = take ?max (?pre @ concat rows @ [df_sep f] @ kept @ [df_sep f])"
      "bs_markers b = map u32_of (offsets (length ?pre) rows)" "\<forall>m \<in> set (bs_markers b). m < length (bs_tokens b)"
  have ne: "[] \<notin> set rows" using rows by blast
  have "u32_of m = m" if "m \<in> set (offsets (length ?pre) rows)" for m
    using offsets_less [OF ne that] n assms(2) by simp
  then have m: "bs_markers b = offsets (length ?pre) rows" unfolding b(2) by (rule map_idI)
  have "bad \<notin> set ?pre \<and> bad \<notin> set ?post \<and> (\<forall>r \<in> set rows. \<exists>t. r = df_mask f # t \<and> bad \<notin> set t)"
    if bad: "bad \<noteq> df_cls f" "bad \<noteq> df_sep f" "\<And>t ids. \<not> sublist (df_mask_text f) t \<Longrightarrow> enc t = Inr ids \<Longrightarrow> bad \<notin> set ids"
      and ok: "mask_text_ok f" for bad
  proof (intro conjI ballI)
    show "bad \<notin> set ?pre" using bad(1,2) bad(3) [OF clean_question_text [OF ok] h] by (auto dest: in_set_takeD)
    show "bad \<notin> set ?post" using bad(2) bad(3) [OF scrub_clean [OF ok] st(1)] st(2) by auto
    fix r
    assume "r \<in> set rows"
    with rows obtain opt ids k where "enc (lit '' '' @ scrub f opt) = Inr ids" "r = df_mask f # take k ids" by blast
    with bad(3) [OF clean_option_text [OF ok]] show "\<exists>t. r = df_mask f # t \<and> bad \<notin> set t"
      by (auto dest: in_set_takeD)
  qed
  moreover have "bs_tokens b = take ?max (?pre @ concat rows @ ?post)" using b(1) by simp
  ultimately show ?thesis using that [OF _ m len ne b(3)] by blast
qed

end
