(* ===== verification/Token_Properties.thy ===== *)
theory Token_Properties
  imports Decision_Format
begin

text \<open>
  What the tokenizers of the repository and the builder of decision sequences guarantee, each property
  with an instance.
\<close>

section \<open>Tokenizers\<close>

lemma utf8_byte_less:
  assumes "list_all scalar t" "b \<in> set (utf8 t)"
  shows "b < 256"
proof -
  have "b < 256" if "c \<in> set t" "b \<in> set (utf8_char c)" for b c
  proof -
    have c: "c < 0x110000" using assms(1) that(1) by (auto simp: list_all_iff scalar_def)
    have "c div 64 < 32" if "c < 2048" using that by (simp add: div_less_iff_less_mult)
    moreover have "c div 4096 < 16" if "c < 65536" using that by (simp add: div_less_iff_less_mult)
    moreover have "c div 262144 \<le> 4" using c by (simp add: less_Suc_eq_le [symmetric] div_less_iff_less_mult)
    moreover have "c mod 64 < 64" "c div 64 mod 64 < 64" "c div 4096 mod 64 < 64" by simp_all
    ultimately show ?thesis using that(2) by (auto simp: utf8_char_def split: if_splits)
  qed
  then show ?thesis using assms(2) by (auto simp: utf8_def)
qed

lemma unat_utf8_bytes: "list_all scalar t \<Longrightarrow> map unat (utf8_bytes t) = utf8 t"
  by (auto simp: utf8_bytes_def unat_of_nat dest: utf8_byte_less intro!: map_idI)

lemma tekken_reads_back:
  assumes "tekken_ok tk" "complete_bytes tk" "spans_ok 0 (length (utf8 t)) (tk_pattern tk t)" "list_all scalar t"
  shows "\<exists>ids. tekken_encode tk t = Some ids \<and> ordinary tk ids \<and> (\<forall>skip. tekken_decode skip tk ids = Some t)"
proof -
  from tekken_encode_ok [OF assms(1-3)] obtain ids where
    "tekken_encode tk t = Some ids" "ordinary tk ids" "\<And>skip. tekken_decode_bytes skip tk ids = Some (utf8_bytes t)"
    by (metis option.inject)
  moreover have "utf8_lossy (utf8 t) = t" using utf8_lossy_utf8 [OF assms(4), of "[]"] by simp
  ultimately show ?thesis using unat_utf8_bytes [OF assms(4)] by (simp add: tekken_decode_def)
qed

text \<open>
  C26: On a vocabulary that has every single byte Tekken loses nothing and cannot be tricked.  When the
  tokenizer was read from its file, has such a vocabulary and its pattern covers the text, the text has an
  encoding, its ids are ordinary ones, never those of a special
  token and never past the truncated vocabulary, and decoding them, with or without special tokens,
  gives the text back.  Without a token for some byte the encoding may fall back to the id of a special token.
\<close>

theorem tekken_round_trip:
  assumes "tekken_from_json b64 regex (Inr f) = Inr tk" "tf_vocab_size f < 2 ^ 32" "tf_num_special f < 2 ^ 32"
    "complete_bytes tk" "spans_ok 0 (length (utf8 t)) (tk_pattern tk t)" "list_all scalar t"
  shows "\<exists>ids. tekken_encode tk t = Some ids \<and> (\<forall>skip. tekken_decode skip tk ids = Some t) \<and>
    (\<forall>i \<in> set ids. \<not> is_special i tk \<and> i < tekken_vocab_size tk)"
  using tekken_reads_back [OF tekken_from_json_ok [OF assms(1-3)] assms(4-6)]
  by (fastforce simp: ordinary_def is_special_def)

text \<open>A vocabulary of the single bytes behind two special slots; the pattern matches every text whole.\<close>

definition demo_b64 :: "utext \<Rightarrow> string + bytes" where
  "demo_b64 s = Inr (map word_of_nat s)"

definition demo_regex :: "utext \<Rightarrow> string + (utext \<Rightarrow> (nat \<times> nat) list)" where
  "demo_regex p = Inr (\<lambda>t. [(0, length (utf8 t))])"

definition demo_tekken_file :: tekken_file where
  "demo_tekken_file = \<lparr>tf_pattern = [], tf_vocab_size = 258, tf_num_special = 2,
     tf_vocab = map (\<lambda>n. [n]) [0..<256], tf_special_tokens = [(0, lit ''<unk>'', True), (1, lit ''</s>'', True)]\<rparr>"

lemma read_vocab_dom:
  "read_vocab b64 es (vocab, ranks) = Inr (vocab', ranks') \<Longrightarrow> dom ranks' = dom ranks \<union> {b. \<exists>e \<in> set es. b64 e = Inr b}"
proof (induction es arbitrary: vocab ranks)
  case (Cons e es)
  then obtain b where b: "b64 e = Inr b" by (auto split: sum.splits)
  with Cons.prems Cons.IH have "dom ranks' = dom (ranks(b \<mapsto> u32_of (length vocab))) \<union> {b. \<exists>e \<in> set es. b64 e = Inr b}"
    by (simp del: dom_fun_upd fun_upd_apply)
  with b show ?case by auto
qed simp

lemma read_vocab_total: "\<exists>acc'. read_vocab demo_b64 es acc = Inr acc'"
  by (induction es arbitrary: acc) (auto simp: demo_b64_def)

lemma demo_tekken:
  obtains tk where "tekken_from_json demo_b64 demo_regex (Inr demo_tekken_file) = Inr tk" "complete_bytes tk"
    "\<And>t. spans_ok 0 (length (utf8 t)) (tk_pattern tk t)"
proof -
  let ?es = "map (\<lambda>n. [n]) [0..<256] :: utext list"
  obtain vocab ranks where v: "read_vocab demo_b64 ?es ([], Map.empty) = Inr (vocab, ranks)"
    using read_vocab_total by fastforce
  have "[b] \<in> dom ranks" for b :: u8
  proof -
    have "demo_b64 [unat b] = Inr [b]" by (simp add: demo_b64_def)
    moreover have "unat b < 256" using unsigned_less [of b] by simp
    ultimately show ?thesis unfolding read_vocab_dom [OF v] by force
  qed
  moreover from v have "\<exists>tk. tekken_from_json demo_b64 demo_regex (Inr demo_tekken_file) = Inr tk \<and> tk_ranks tk = ranks \<and>
      tk_pattern tk = (\<lambda>t. [(0, length (utf8 t))])"
    by (simp add: tekken_from_json_def demo_tekken_file_def demo_regex_def Let_def split: prod.splits)
  ultimately show ?thesis using that unfolding complete_bytes_def by (metis domIff order_refl spans_ok.simps zero_le)
qed

theorem tekken_round_trip_witness:
  "\<exists>tk ids. tekken_encode tk [104, 233, 128512] = Some ids \<and> tekken_decode True tk ids = Some [104, 233, 128512]"
proof -
  obtain tk where tk: "tekken_from_json demo_b64 demo_regex (Inr demo_tekken_file) = Inr tk" "complete_bytes tk"
    "\<And>t. spans_ok 0 (length (utf8 t)) (tk_pattern tk t)" by (rule demo_tekken) blast
  have "tf_vocab_size demo_tekken_file < 2 ^ 32" "tf_num_special demo_tekken_file < 2 ^ 32" "list_all scalar [104, 233, 128512]"
    by (simp_all add: demo_tekken_file_def scalar_def)
  from tekken_round_trip [OF tk(1) this(1,2) tk(2,3) this(3)] show ?thesis by blast
qed

text \<open>
  C27: Streaming a tokenizer of the repository spells the text exactly.  When a text that does not end in
  the replacement character is encoded by the byte tokenizer or by Tekken and its ids are generated one
  by one, the incremental detokenizer emits the text's bytes, wherever the ids cut its characters.
\<close>

theorem streamed_tokens_spell_text:
  assumes "tok = Bytes render \<or> (\<exists>tk. tok = Tekken tk \<and> tekken_ok tk \<and> complete_bytes tk \<and> spans_ok 0 (length (utf8 t)) (tk_pattern tk t))"
    "list_all scalar t" "\<not> suffix replacement (utf8_string t)"
  shows "\<exists>ids d. tok_encode tok t = Some (Inr ids) \<and> tok_decode tok ids = Some t \<and>
    detok_all (\<lambda>ids. utf8_string (the (tok_decode tok ids))) ids (with_prompt prompt) = Some (utf8_string t, d)"
proof -
  have stream: "\<exists>d. detok_all decode ids (with_prompt prompt) = Some (utf8_string t, d)"
    if "decode_ok decode" "decode ids = utf8_string t" for decode ids
  proof -
    from detok_all_inv [OF that(1) with_prompt_inv [OF that(1)], of ids prompt] obtain out d where
      d: "detok_all decode ids (with_prompt prompt) = Some (out, d)" "emitted d = out" "detok_inv decode prompt ids d"
      by (auto simp: with_prompt_def)
    with detok_inv_text(2) [OF that(1) d(3)] that(2) assms(3) show ?thesis by auto
  qed
  from assms(1) show ?thesis
  proof
    assume tok: "tok = Bytes render"
    have "b < 256" if "b \<in> set (utf8 t)" for b
      using utf8_byte_less [OF assms(2) that] .
    then have "byte_decode (utf8 t) = t"
      using utf8_lossy_utf8 [OF assms(2), of "[]"] by (simp add: byte_decode_def filter_id_conv)
    with tok stream [OF byte_ids.lossy_decode_ok, of "utf8 t"] show ?thesis by (simp add: byte_encode_def byte_decode_def)
  next
    assume "\<exists>tk. tok = Tekken tk \<and> tekken_ok tk \<and> complete_bytes tk \<and> spans_ok 0 (length (utf8 t)) (tk_pattern tk t)"
    then obtain tk where tk: "tok = Tekken tk" "tekken_ok tk" "complete_bytes tk" "spans_ok 0 (length (utf8 t)) (tk_pattern tk t)" by blast
    from tekken_reads_back [OF tk(2-4) assms(2)] obtain ids where
      i: "tekken_encode tk t = Some ids" "tekken_decode True tk ids = Some t" by blast
    have d: "(\<lambda>ids. utf8_string (the (tok_decode tok ids))) =
        (\<lambda>ids. utf8_string (utf8_lossy (map unat (concat (map (tekken_piece True tk) ids)))))"
      by (simp add: tk(1) tekken_decode_def tekken_decode_total [OF tk(2)])
    with stream [OF tekken_ids.lossy_decode_ok [of True tk], of ids] i tk(1) show ?thesis
      by (metis option.sel tok_decode.simps(2) option.simps(9) tok_encode.simps(2))
  qed
qed

theorem streamed_tokens_spell_text_witness:
  "\<exists>ids d. tok_encode (Bytes (\<lambda>_ :: unit list. Inl Overloaded)) [233, 33] = Some (Inr ids) \<and>
     detok_all (\<lambda>ids. utf8_string (the (tok_decode (Bytes (\<lambda>_ :: unit list. Inl Overloaded)) ids))) ids (with_prompt [7]) =
       Some (utf8_string [233, 33], d)"
proof -
  have "list_all scalar [233, 33]" "\<not> suffix replacement (utf8_string [233, 33])"
    by (simp add: scalar_def) code_simp
  from streamed_tokens_spell_text [OF disjI1 [OF refl] this] show ?thesis by blast
qed

section \<open>Decision sequences\<close>

lemma built_row_ok:
  assumes "build f enc qt instructions options state = Inr b" "dc_max_len (df_config f) + 2 < 2 ^ 32"
  shows "row_ok (dc_max_len (df_config f)) \<lparr>er_tokens = bs_tokens b, er_markers = bs_markers b, er_qtype = qt'\<rparr>"
    "length (bs_markers b) = length options"
proof -
  obtain pre rows post where
    s: "bs_tokens b = take (dc_max_len (df_config f)) (pre @ concat rows @ post)" "bs_markers b = offsets (length pre) rows"
      "length rows = length options" "2 \<le> length options" "[] \<notin> set rows" "\<forall>m \<in> set (bs_markers b). m < length (bs_tokens b)"
    by (rule build_markers [OF assms], rule that, assumption+)
  have "bs_markers b \<noteq> []" using s(2-4) by (metis length_0_conv length_offsets not_numeral_le_zero)
  with s(6) have "bs_tokens b \<noteq> []" by (metis ex_in_conv length_0_conv less_nat_zero_code set_empty)
  with s offsets_sorted [OF s(5)] show "row_ok (dc_max_len (df_config f)) \<lparr>er_tokens = bs_tokens b, er_markers = bs_markers b, er_qtype = qt'\<rparr>"
    by (simp add: row_ok_def)
  show "length (bs_markers b) = length options" using s(2,3) by simp
qed

lemma take_positions:
  assumes "\<And>i. i < length l \<and> l ! i = x \<longleftrightarrow> i \<in> S" "\<forall>i \<in> S. i < length (take k l)"
  shows "{i. i < length (take k l) \<and> take k l ! i = x} = S"
proof (intro set_eqI iffI)
  fix i
  assume "i \<in> {i. i < length (take k l) \<and> take k l ! i = x}"
  then have "i < length l \<and> l ! i = x" by auto
  with assms(1) show "i \<in> S" by blast
next
  fix i
  assume i: "i \<in> S"
  with assms(1) have "l ! i = x" by blast
  with assms(2) i show "i \<in> {i. i < length (take k l) \<and> take k l ! i = x}" by simp
qed

text \<open>
  C28: No text of a request can mint an answer position.  In a sequence that \<open>build\<close> returns the positions
  of the mask token are exactly the markers, one per option in order, however the question, the options
  and the state spell the mask token; the sequence keeps within its length and passes the encoder's own
  check.  The tokenizer is only assumed to yield the mask id for no text without the mask's spelling.
\<close>

theorem markers_are_the_masks:
  assumes "build f enc qt instructions options state = Inr b" "dc_max_len (df_config f) + 2 < 2 ^ 32"
    "mask_text_ok f" "df_mask f \<noteq> df_cls f" "df_mask f \<noteq> df_sep f"
    "\<And>t ids. \<not> sublist (df_mask_text f) t \<Longrightarrow> enc t = Inr ids \<Longrightarrow> df_mask f \<notin> set ids"
  shows "{i. i < length (bs_tokens b) \<and> bs_tokens b ! i = df_mask f} = set (bs_markers b) \<and>
    length (bs_markers b) = length options \<and> sorted_wrt (<) (bs_markers b) \<and>
    encoder_validate (dc_max_len (df_config f)) [\<lparr>er_tokens = bs_tokens b, er_markers = bs_markers b, er_qtype = qt\<rparr>] = Inr ()"
proof -
  obtain pre rows post where
    s: "bs_tokens b = take (dc_max_len (df_config f)) (pre @ concat rows @ post)" "bs_markers b = offsets (length pre) rows"
      "\<forall>m \<in> set (bs_markers b). m < length (bs_tokens b)"
      "df_mask f \<notin> set pre \<and> df_mask f \<notin> set post \<and> (\<forall>r \<in> set rows. \<exists>t. r = df_mask f # t \<and> df_mask f \<notin> set t)"
    by (rule build_markers [OF assms(1,2)]) (use assms(3-6) in metis)
  from s(4) have m: "i < length (pre @ concat rows @ post) \<and> (pre @ concat rows @ post) ! i = df_mask f \<longleftrightarrow> i \<in> set (bs_markers b)" for i
    unfolding s(2) by (intro offsets_masks) auto
  have "{i. i < length (bs_tokens b) \<and> bs_tokens b ! i = df_mask f} = set (bs_markers b)"
    using s(3) unfolding s(1) by (rule take_positions [OF m])
  with built_row_ok(1) [OF assms(1,2), of qt] built_row_ok(2) [OF assms(1,2)] show ?thesis by (simp add: encoder_validate_ok row_ok_def)
qed

definition demo_format :: decision_format where
  "demo_format = \<lparr>df_cls = 1, df_sep = 2, df_mask = 3, df_pad = 0, df_mask_text = lit ''[MASK]'',
     df_config = \<lparr>dc_max_len = 64, dc_head_max_len = 48, dc_calibration = default_calibration\<rparr>,
     df_truncate_left = False, df_multilingual = False\<rparr>"

definition demo_enc :: "utext \<Rightarrow> error + token list" where
  "demo_enc t = Inr [if sublist (lit ''[MASK]'') t then 3 else 10]"

lemma demo_build:
  "\<exists>b. build demo_format demo_enc Noul (lit ''is it [MASK]?'') [lit ''no'', lit ''[MASK] yes''] (lit ''a [MASK] b'') = Inr b"
  by (simp add: build_def demo_format_def demo_enc_def option_row_def fit_options_def close_sequence_def Let_def
      place_option_def keep_state_def MIN_OPTION_BUDGET_def MIN_HEAD_TOKENS_def OPTION_TOKEN_CAP_def u32_of_def)

lemma demo_mask_text: "mask_text_ok demo_format"
proof -
  have "\<not> sublist (lit ''[MASK]'') (lit (qt_as_str qt) @ lit '' question:'')" for qt by (cases qt) (simp_all, code_simp+)
  moreover have "32 \<notin> set (lit ''[MASK]'')" "lit ''[MASK]'' \<noteq> []" by code_simp+
  ultimately show ?thesis by (simp add: mask_text_ok_def demo_format_def)
qed

theorem markers_are_the_masks_witness:
  "\<exists>b. build demo_format demo_enc Noul (lit ''is it [MASK]?'') [lit ''no'', lit ''[MASK] yes''] (lit ''a [MASK] b'') = Inr b \<and>
     card {i. i < length (bs_tokens b) \<and> bs_tokens b ! i = 3} = 2"
proof -
  from demo_build obtain b where
    b: "build demo_format demo_enc Noul (lit ''is it [MASK]?'') [lit ''no'', lit ''[MASK] yes''] (lit ''a [MASK] b'') = Inr b" by blast
  have "dc_max_len (df_config demo_format) + 2 < 2 ^ 32" "df_mask demo_format \<noteq> df_cls demo_format"
    "df_mask demo_format \<noteq> df_sep demo_format" "df_mask demo_format = 3" by (simp_all add: demo_format_def)
  moreover have "df_mask demo_format \<notin> set ids"
    if "\<not> sublist (df_mask_text demo_format) t" "demo_enc t = Inr ids" for t ids
    using that by (auto simp: demo_enc_def demo_format_def)
  ultimately have m: "{i. i < length (bs_tokens b) \<and> bs_tokens b ! i = 3} = set (bs_markers b)"
    "length (bs_markers b) = 2" "sorted_wrt (<) (bs_markers b)"
    using markers_are_the_masks [OF b _ demo_mask_text] by simp_all
  have "distinct (bs_markers b)" using m(3) by (simp add: strict_sorted_iff)
  with m b show ?thesis by (auto simp: distinct_card)
qed

end
