(* ===== verification/Output_Parser.thy ===== *)
theory Output_Parser
  imports Tokenizers
begin

text \<open>
  The structured output of a model at the gateway (\<open>vapi-gateway/src/output.rs\<close>): the token texts of a
  stream become reasoning, content and tool calls.  A position in a text is the rest of the text from
  there.  What serde_json, blake3, the float parser and the Unicode tables compute is the record
  \<open>text_env\<close>; the text of a parse error is dropped by the caller, so an error is a constructor.
\<close>

record text_env =
  te_json :: "utext \<Rightarrow> json option"
  te_json_prefix :: "utext \<Rightarrow> (json \<times> nat) option"
  te_print :: "json \<Rightarrow> utext"
  te_float :: "utext \<Rightarrow> json option"
  te_alphanumeric :: "uchar \<Rightarrow> bool"
  te_blake3_hex :: "bytes \<Rightarrow> string"

section \<open>Formats\<close>

datatype tool_syntax = PythonCall | JsonCall

record output_format =
  think_open :: "utext option"
  think_close :: "utext option"
  tool_start :: utext
  tool_end :: utext
  fmt_syntax :: tool_syntax

definition detect :: "'m tokenization \<Rightarrow> output_format option" where
  "detect tok =
     (let has = (\<lambda>t. has_token tok (lit t)); thinks = has ''<think>'' \<and> has ''</think>'' in
      if has ''<|tool_call_start|>'' \<and> has ''<|tool_call_end|>'' then
        Some \<lparr>think_open = None, think_close = (if thinks then Some (lit ''</think>'') else None),
              tool_start = lit ''<|tool_call_start|>'', tool_end = lit ''<|tool_call_end|>'', fmt_syntax = PythonCall\<rparr>
      else if has ''<tool_call>'' \<and> has ''</tool_call>'' then
        Some \<lparr>think_open = (if thinks then Some (lit ''<think>'') else None),
              think_close = (if thinks then Some (lit ''</think>'') else None),
              tool_start = lit ''<tool_call>'', tool_end = lit ''</tool_call>'', fmt_syntax = JsonCall\<rparr>
      else None)"

section \<open>Calls in Python syntax\<close>

datatype call_error =
    ExpectedName utext
  | ExpectedOpen utext
  | ExpectedEquals utext
  | ExpectedCommaOrClose
  | ExpectedValue
  | BadLiteral
  | UnterminatedString
  | UnterminatedList
  | ExpectedCommaOrBracket
  | NotJson
  | NoName

definition trim :: "utext \<Rightarrow> utext" where
  "trim t = rev (dropWhile is_whitespace (rev (trim_start t)))"

definition eat :: "uchar \<Rightarrow> utext \<Rightarrow> utext option" where
  "eat c r = (case r of [] \<Rightarrow> None | d # r' \<Rightarrow> if d = c then Some r' else None)"

definition is_alphanumeric :: "text_env \<Rightarrow> uchar \<Rightarrow> bool" where
  "is_alphanumeric E c = (if c < 128 then is_ascii_alphanumeric (char_of c) else te_alphanumeric E c)"

definition name_char :: "text_env \<Rightarrow> uchar \<Rightarrow> bool" where
  "name_char E c = (is_alphanumeric E c \<or> c = 95 \<or> c = c_dot \<or> c = c_minus)"

definition ident :: "text_env \<Rightarrow> utext \<Rightarrow> call_error + utext \<times> utext" where
  "ident E r =
     (let name = takeWhile (name_char E) r in
      if name = [] then Inl (ExpectedName (take 10 r)) else Inr (name, dropWhile (name_char E) r))"

definition unescape :: "uchar \<Rightarrow> uchar" where
  "unescape c = (if c = c_n then 10 else if c = c_r then 13 else if c = c_t then 9 else c)"

text \<open>The body of a string after its opening quote.\<close>

fun string_body :: "uchar \<Rightarrow> utext \<Rightarrow> utext \<Rightarrow> call_error + utext \<times> utext" where
  "string_body quote [] out = Inl UnterminatedString"
| "string_body quote (c # r) out =
     (if c = c_backslash then
        (case r of [] \<Rightarrow> Inl UnterminatedString | d # r' \<Rightarrow> string_body quote r' (out @ [unescape d]))
      else if c = quote then Inr (out, r)
      else string_body quote r (out @ [c]))"

text \<open>\<open>str::parse::<i64>\<close> and the decimal form of the number it yields.\<close>

definition digits_value :: "utext \<Rightarrow> int" where
  "digits_value ds = foldl (\<lambda>n d. n * 10 + (int d - 48)) 0 ds"

definition parse_i64 :: "utext \<Rightarrow> int option" where
  "parse_i64 w =
     (let negative = (w \<noteq> [] \<and> hd w = c_minus);
          ds = (if w \<noteq> [] \<and> (hd w = c_minus \<or> hd w = c_plus) then tl w else w);
          n = (if negative then - digits_value ds else digits_value ds) in
      if ds \<noteq> [] \<and> list_all is_digit ds \<and> - (2 ^ 63) \<le> n \<and> n < 2 ^ 63 then Some n else None)"

definition show_int :: "int \<Rightarrow> utext" where
  "show_int n = (if n < 0 then c_minus # lit (show_nat (nat (- n))) else lit (show_nat (nat n)))"

definition word_value :: "text_env \<Rightarrow> utext \<Rightarrow> json" where
  "word_value E w =
     (if w = lit ''True'' \<or> w = lit ''true'' then JBool True
      else if w = lit ''False'' \<or> w = lit ''false'' then JBool False
      else if w = lit ''None'' \<or> w = lit ''null'' then JNull
      else case parse_i64 w of
             Some n \<Rightarrow> JNumber (show_int n)
           | None \<Rightarrow> (case te_float E w of Some v \<Rightarrow> v | None \<Rightarrow> JString w))"

definition word_char :: "uchar \<Rightarrow> bool" where
  "word_char c = (c \<notin> {c_comma, 41, c_rbracket} \<and> \<not> is_whitespace c)"

definition call_value :: "text_env \<Rightarrow> utext \<Rightarrow> call_error + json \<times> utext" where
  "call_value E r =
     (case r of
        [] \<Rightarrow> Inl ExpectedValue
      | c # r' \<Rightarrow>
          if c = 39 \<or> c = c_quote then map_sum id (\<lambda>(s, r). (JString s, r)) (string_body c r' [])
          else if c = c_lbrace \<or> c = c_lbracket then
            (case te_json_prefix E r of Some (v, n) \<Rightarrow> Inr (v, drop n r) | None \<Rightarrow> Inl BadLiteral)
          else Inr (word_value E (takeWhile word_char r), dropWhile word_char r))"

text \<open>\<open>serde_json::Map::insert\<close>: a key keeps its place.\<close>

fun map_insert :: "utext \<Rightarrow> json \<Rightarrow> (utext \<times> json) list \<Rightarrow> (utext \<times> json) list" where
  "map_insert k v [] = [(k, v)]"
| "map_insert k v ((k', v') # m) = (if k' = k then (k, v) # m else (k', v') # map_insert k v m)"

text \<open>The parsers only move forward.\<close>

lemma length_trim_start: "length (trim_start r) \<le> length r"
  by (simp add: trim_start_def length_dropWhile_le)

lemma eat_length: "eat c r = Some r' \<Longrightarrow> length r = Suc (length r')"
  by (auto simp: eat_def split: list.splits if_splits)

lemma ident_length:
  assumes "ident E r = Inr (name, r')"
  shows "length r' < length r"
proof -
  have "takeWhile (name_char E) r \<noteq> []" "r' = dropWhile (name_char E) r" using assms by (auto simp: ident_def Let_def split: if_splits)
  moreover have "length (takeWhile (name_char E) r) + length (dropWhile (name_char E) r) = length r"
    by (metis length_append takeWhile_dropWhile_id)
  ultimately show ?thesis by (metis add.commute less_add_same_cancel1 length_greater_0_conv)
qed

lemma string_body_length: "string_body quote r out = Inr (s, r') \<Longrightarrow> length r' < length r"
  by (induction quote r out rule: string_body.induct) (auto split: if_splits list.splits)

lemma map_sum_eq_Inr: "map_sum id f x = Inr y \<longleftrightarrow> (\<exists>z. x = Inr z \<and> y = f z)"
  by (cases x) auto

lemma call_value_length: "call_value E r = Inr (v, r') \<Longrightarrow> length r' \<le> length r"
  using le_SucI [OF length_dropWhile_le]
  by (auto simp: call_value_def map_sum_eq_Inr split: list.splits if_splits option.splits
      dest!: string_body_length)

text \<open>The same after white space.\<close>

lemma trim_start_idem [simp]: "trim_start (trim_start r) = trim_start r"
  by (simp add: trim_start_def dropWhile_idem)

lemma after_ws:
  "eat c (trim_start r) = Some r' \<Longrightarrow> length r' < length r"
  "ident E (trim_start r) = Inr (name, r') \<Longrightarrow> length r' < length r"
  "call_value E (trim_start r) = Inr (v, r') \<Longrightarrow> length r' \<le> length r"
  using length_trim_start [of r] by (auto dest!: eat_length ident_length call_value_length)

function call_args :: "text_env \<Rightarrow> (utext \<times> json) list \<Rightarrow> utext \<Rightarrow> call_error + (utext \<times> json) list \<times> utext" where
  "call_args E args r0 =
     (let r = trim_start r0 in
      case eat 41 r of
        Some r \<Rightarrow> Inr (args, r)
      | None \<Rightarrow>
          (case ident E r of
             Inl e \<Rightarrow> Inl e
           | Inr (key, r) \<Rightarrow>
               (case eat 61 (trim_start r) of
                  None \<Rightarrow> Inl (ExpectedEquals key)
                | Some r \<Rightarrow>
                    (case call_value E (trim_start r) of
                       Inl e \<Rightarrow> Inl e
                     | Inr (v, r) \<Rightarrow>
                         (let r = trim_start r; args = map_insert key v args in
                          case eat c_comma r of
                            Some r \<Rightarrow> call_args E args r
                          | None \<Rightarrow> (case eat 41 r of Some r \<Rightarrow> Inr (args, r) | None \<Rightarrow> Inl ExpectedCommaOrClose))))))"
  by pat_completeness auto
termination
  by (relation "measure (\<lambda>(_, _, r). length r)") (auto dest!: after_ws)

declare call_args.simps [simp del]

lemma call_args_length: "call_args E args r = Inr (args', r') \<Longrightarrow> length r' < length r"
proof (induction E args r rule: call_args.induct)
  case (1 E args r)
  show ?case
  proof (cases "eat 41 (trim_start r)")
    case None
    with "1.prems" obtain key r1 where i: "ident E (trim_start r) = Inr (key, r1)"
      by (subst (asm) call_args.simps) (auto simp: Let_def split: sum.splits)
    with None "1.prems" obtain r2 where e: "eat 61 (trim_start r1) = Some r2"
      by (subst (asm) call_args.simps) (auto simp: Let_def split: option.splits)
    with None i "1.prems" obtain v r3 where v: "call_value E (trim_start r2) = Inr (v, r3)"
      by (subst (asm) call_args.simps) (auto simp: Let_def split: sum.splits)
    note l = after_ws(2) [OF i] after_ws(1) [OF e] after_ws(3) [OF v]
    show ?thesis
    proof (cases "eat c_comma (trim_start r3)")
      case None': None
      with None i e v "1.prems" have "eat 41 (trim_start r3) = Some r'"
        by (subst (asm) call_args.simps) (auto simp: Let_def split: option.splits)
      with l show ?thesis by (auto dest: after_ws)
    next
      case (Some r4)
      with None i e v "1.prems" have "call_args E (map_insert key v args) r4 = Inr (args', r')"
        by (subst (asm) call_args.simps) (simp add: Let_def)
      from "1.IH" [OF refl None i refl e v refl refl refl Some this] after_ws(1) [OF Some] l show ?thesis by simp
    qed
  qed (use "1.prems" in \<open>auto simp: call_args.simps Let_def dest: after_ws\<close>)
qed

text \<open>What follows a call: \<open>None\<close> is the end of the list.\<close>

definition after_call :: "bool \<Rightarrow> utext \<Rightarrow> call_error + utext option" where
  "after_call bracketed r0 =
     (let r = trim_start r0 in
      case eat c_comma r of
        Some r \<Rightarrow> Inr (Some r)
      | None \<Rightarrow>
          if bracketed then
            (case eat c_rbracket (trim_start r) of Some r \<Rightarrow> Inr None | None \<Rightarrow> Inl ExpectedCommaOrBracket)
          else Inr (Some r))"

lemma after_call_length: "after_call bracketed r = Inr (Some r') \<Longrightarrow> length r' \<le> length r"
  using length_trim_start [of r] by (auto simp: after_call_def Let_def dest!: after_ws split: option.splits if_splits)

function call_list ::
  "text_env \<Rightarrow> bool \<Rightarrow> (utext \<times> json) list \<Rightarrow> utext \<Rightarrow> call_error + (utext \<times> json) list" where
  "call_list E bracketed calls r0 =
     (let r = trim_start r0 in
      if bracketed \<and> eat c_rbracket r \<noteq> None then Inr calls
      else if r = [] then (if bracketed then Inl UnterminatedList else Inr calls)
      else
        (case ident E r of
           Inl e \<Rightarrow> Inl e
         | Inr (name, r) \<Rightarrow>
             (case eat 40 (trim_start r) of
                None \<Rightarrow> Inl (ExpectedOpen name)
              | Some r \<Rightarrow>
                  (case call_args E [] r of
                     Inl e \<Rightarrow> Inl e
                   | Inr (args, r) \<Rightarrow>
                       (let calls = calls @ [(name, JObject args)] in
                        case after_call bracketed r of
                          Inl e \<Rightarrow> Inl e
                        | Inr None \<Rightarrow> Inr calls
                        | Inr (Some r) \<Rightarrow> call_list E bracketed calls r)))))"
  by pat_completeness auto
termination
  by (relation "measure (\<lambda>(_, _, _, r). length r)") (auto dest!: after_ws call_args_length after_call_length)

definition parse_calls :: "text_env \<Rightarrow> utext \<Rightarrow> call_error + (utext \<times> json) list" where
  "parse_calls E text =
     (let r = trim_start (trim text) in
      case eat c_lbracket r of Some r \<Rightarrow> call_list E True [] r | None \<Rightarrow> call_list E False [] r)"

section \<open>Calls in JSON\<close>

definition parse_json_call :: "text_env \<Rightarrow> utext \<Rightarrow> call_error + (utext \<times> json) list" where
  "parse_json_call E text =
     (case te_json E (trim text) of
        None \<Rightarrow> Inl NotJson
      | Some v \<Rightarrow>
          (case config_get v ''name'' of
             Some (JString name) \<Rightarrow>
               Inr [(name, case config_get v ''arguments'' of
                             None \<Rightarrow> JObject []
                           | Some (JString s) \<Rightarrow> (case te_json E s of Some args \<Rightarrow> args | None \<Rightarrow> JString s)
                           | Some args \<Rightarrow> args)]
           | _ \<Rightarrow> Inl NoName))"

section \<open>The parser of a stream\<close>

record tool_call =
  tc_id :: string
  tc_kind :: string
  tc_name :: utext
  tc_arguments :: utext

definition tool_call_function :: "string \<Rightarrow> utext \<Rightarrow> utext \<Rightarrow> tool_call" where
  "tool_call_function i name args = \<lparr>tc_id = i, tc_kind = ''function'', tc_name = name, tc_arguments = args\<rparr>"

datatype piece = Reasoning utext | Content utext | Calls "tool_call list"

record output_parser =
  op_fmt :: output_format
  in_think :: bool
  trim_leading :: bool
  tool_buf :: "utext option"
  calls_made :: nat
  call_id_seed :: string

definition parser_new :: "output_format \<Rightarrow> string \<Rightarrow> output_parser" where
  "parser_new fmt sd =
     \<lparr>op_fmt = fmt, in_think = (think_close fmt \<noteq> None \<and> think_open fmt = None), trim_leading = False,
      tool_buf = None, calls_made = 0, call_id_seed = sd\<rparr>"

definition saw_tool_calls :: "output_parser \<Rightarrow> bool" where
  "saw_tool_calls p = (calls_made p > 0)"

definition call_id :: "text_env \<Rightarrow> output_parser \<Rightarrow> nat \<Rightarrow> string" where
  "call_id E p idx = ''call_'' @ take 16 (te_blake3_hex E (str_bytes (call_id_seed p @ '':'' @ show_nat idx)))"

definition op_content :: "utext \<Rightarrow> output_parser \<Rightarrow> piece list \<times> output_parser" where
  "op_content text p =
     (let t = (if trim_leading p then dropWhile (\<lambda>c. c = 10 \<or> c = 13) text else text);
          p = (if trim_leading p \<and> t \<noteq> [] then p\<lparr>trim_leading := False\<rparr> else p)
      in (if t = [] then [] else [Content t], p))"

definition finish_tool_text :: "text_env \<Rightarrow> utext \<Rightarrow> output_parser \<Rightarrow> piece \<times> output_parser" where
  "finish_tool_text E text p =
     (let parsed = (case fmt_syntax (op_fmt p) of PythonCall \<Rightarrow> parse_calls E text | JsonCall \<Rightarrow> parse_json_call E text);
          as_text = (Content (tool_start (op_fmt p) @ text @ tool_end (op_fmt p)), p)
      in case parsed of
           Inl _ \<Rightarrow> as_text
         | Inr calls \<Rightarrow>
             if calls = [] then as_text
             else (Calls (map (\<lambda>(idx, (name, args)). tool_call_function (call_id E p idx) name (te_print E args))
                             (enumerate (calls_made p) calls)),
                   p\<lparr>calls_made := calls_made p + length calls\<rparr>))"

text \<open>One turn of the loop of \<open>push\<close>: the pieces it yields and the text that is left.\<close>

definition push_step :: "text_env \<Rightarrow> utext \<Rightarrow> output_parser \<Rightarrow> (piece list \<times> utext \<times> output_parser) option" where
  "push_step E r p =
     (if in_think p then do {
        close \<leftarrow> think_close (op_fmt p);
        (case str_find close r of
           Some i \<Rightarrow> Some (if i > 0 then [Reasoning (take i r)] else [], drop (i + length close) r,
                          p\<lparr>in_think := False, trim_leading := True\<rparr>)
         | None \<Rightarrow> Some ([Reasoning r], [], p)) }
      else case tool_buf p of
        Some buf \<Rightarrow>
          (case str_find (tool_end (op_fmt p)) r of
             Some i \<Rightarrow>
               (let (pc, p') = finish_tool_text E (buf @ take i r) (p\<lparr>tool_buf := None\<rparr>)
                in Some ([pc], drop (i + length (tool_end (op_fmt p))) r, p'))
           | None \<Rightarrow> Some ([], [], p\<lparr>tool_buf := Some (buf @ r)\<rparr>))
      | None \<Rightarrow>
          (let tool_at = str_find (tool_start (op_fmt p)) r;
               think_at = Option.bind (think_open (op_fmt p)) (\<lambda>m. str_find m r);
               open_tool = (\<lambda>t. let (out, p') = op_content (take t r) p in
                  (out, drop (t + length (tool_start (op_fmt p))) r, p'\<lparr>tool_buf := Some []\<rparr>));
               open_think = (\<lambda>k. let (out, p') = op_content (take k r) p in
                  (out, drop (k + length (the (think_open (op_fmt p)))) r, p'\<lparr>in_think := True\<rparr>))
           in Some (case (tool_at, think_at) of
                (Some t, Some k) \<Rightarrow> if t < k then open_tool t else open_think k
              | (Some t, None) \<Rightarrow> open_tool t
              | (None, Some k) \<Rightarrow> open_think k
              | (None, None) \<Rightarrow> (let (out, p) = op_content r p in (out, [], p)))))"

text \<open>
  \<open>push\<close>, with \<open>None\<close> for a panic and for a loop that does not end, which an empty marker would make.
\<close>

partial_function (option) op_push :: "text_env \<Rightarrow> utext \<Rightarrow> output_parser \<Rightarrow> (piece list \<times> output_parser) option" where
  "op_push E r p =
     (if r = [] then Some ([], p)
      else Option.bind (push_step E r p)
        (\<lambda>(out, r, p). Option.bind (op_push E r p) (\<lambda>(out', p). Some (out @ out', p))))"

definition op_finish :: "output_parser \<Rightarrow> piece list \<times> output_parser" where
  "op_finish p =
     (case tool_buf p of
        Some text \<Rightarrow> (if text = [] then [] else [Content (tool_start (op_fmt p) @ text)], p\<lparr>tool_buf := None\<rparr>)
      | None \<Rightarrow> ([], p))"

section \<open>How a stream is cut into deltas does not matter\<close>

text \<open>What was said, character by character and call by call.\<close>

datatype letter = Thought uchar | Said uchar | Called tool_call

fun letters_of :: "piece \<Rightarrow> letter list" where
  "letters_of (Reasoning t) = map Thought t"
| "letters_of (Content t) = map Said t"
| "letters_of (Calls cs) = map Called cs"

definition letters :: "piece list \<Rightarrow> letter list" where
  "letters ps = concat (map letters_of ps)"

lemma letters_simps [simp]:
  "letters [] = []" "letters (pc # ps) = letters_of pc @ letters ps" "letters (ps @ qs) = letters ps @ letters qs"
  by (simp_all add: letters_def)

definition format_markers :: "output_format \<Rightarrow> utext set" where
  "format_markers fmt = {tool_start fmt, tool_end fmt} \<union> set_option (think_open fmt) \<union> set_option (think_close fmt)"

definition uncut :: "utext set \<Rightarrow> utext \<Rightarrow> utext \<Rightarrow> bool" where
  "uncut ms a b = (\<forall>m\<in>ms. \<forall>x y. m = x @ y \<longrightarrow> x \<noteq> [] \<longrightarrow> y \<noteq> [] \<longrightarrow> \<not> (suffix x a \<and> prefix y b))"

lemma uncut_drop: "uncut ms a b \<Longrightarrow> uncut ms (drop n a) b"
  unfolding uncut_def by (meson suffix_drop suffix_order.trans)

lemma str_find_append:
  assumes "m \<noteq> []" "uncut {m} a b"
  shows "str_find m (a @ b) = (case str_find m a of Some i \<Rightarrow> Some i | None \<Rightarrow> map_option ((+) (length a)) (str_find m b))"
  using assms(2)
proof (induction a)
  case (Cons c a)
  have "uncut {m} a b" using uncut_drop [OF Cons.prems, of 1] by simp
  note IH = Cons.IH [OF this]
  have "prefix m (c # a)" if p: "prefix m (c # a @ b)"
  proof (rule ccontr)
    assume n: "\<not> prefix m (c # a)"
    from p have "prefix m ((c # a) @ b)" by simp
    with n obtain y where y: "m = (c # a) @ y" "prefix y b" by (auto simp only: prefix_append)
    with n have "y \<noteq> []" by auto
    with y Cons.prems show False unfolding uncut_def by (metis list.distinct(1) singletonI suffix_order.order_refl)
  qed
  then have "prefix m (c # a @ b) \<longleftrightarrow> prefix m (c # a)" by (metis append_Cons prefix_prefix)
  then show ?case by (cases "str_find m b") (simp_all add: IH split: option.splits)
qed (cases "str_find m b"; use assms in simp)

lemma str_find_less: "str_find m a = Some i \<Longrightarrow> m \<noteq> [] \<Longrightarrow> i + length m \<le> length a \<and> i < length a"
proof (induction a arbitrary: i)
  case (Cons c a)
  then show ?case by (cases m) (auto split: if_splits dest: prefix_length_le)
qed (auto split: if_splits)


lemma op_content_append:
  "snd (op_content (a @ b) p) = snd (op_content b (snd (op_content a p)))" (is ?state)
  "letters (fst (op_content (a @ b) p)) =
     letters (fst (op_content a p)) @ letters (fst (op_content b (snd (op_content a p))))" (is ?pieces)
proof -
  let ?nl = "\<lambda>c :: uchar. c = 10 \<or> c = 13"
  consider "\<not> trim_leading p" | "trim_leading p" "dropWhile ?nl a = []" | "trim_leading p" "dropWhile ?nl a \<noteq> []" by blast
  then have "?state \<and> ?pieces"
  proof cases
    case 2
    then have "dropWhile ?nl (a @ b) = dropWhile ?nl b" by (auto simp: dropWhile_append)
    with 2 show ?thesis by (simp add: op_content_def Let_def)
  next
    case 3
    then have "dropWhile ?nl (a @ b) = dropWhile ?nl a @ b" by (auto simp: dropWhile_append)
    with 3 show ?thesis by (simp add: op_content_def Let_def)
  qed (simp add: op_content_def Let_def)
  then show ?state ?pieces by auto
qed

lemma op_content_fmt [simp]: "op_fmt (snd (op_content t p)) = op_fmt p" "tool_buf (snd (op_content t p)) = tool_buf p"
    "in_think (snd (op_content t p)) = in_think p"
  by (simp_all add: op_content_def Let_def)

lemma finish_tool_text_fmt [simp]: "op_fmt (snd (finish_tool_text E t p)) = op_fmt p"
  by (simp add: finish_tool_text_def Let_def split: sum.splits)

text \<open>A turn of the loop either meets a marker, or takes all of the text and keeps what it waits for.\<close>

lemma push_step_append:
  assumes "[] \<notin> format_markers (op_fmt p)" "uncut (format_markers (op_fmt p)) a b" "a \<noteq> []" "b \<noteq> []"
    "push_step E a p = Some (out, r, q)"
  shows "push_step E (a @ b) p = Some (out, r @ b, q) \<or>
    (r = [] \<and> (case push_step E b q of
       None \<Rightarrow> push_step E (a @ b) p = None
     | Some (out', r', q') \<Rightarrow> \<exists>o'. push_step E (a @ b) p = Some (o', r', q') \<and> letters o' = letters out @ letters out'))"
proof -
  let ?f = "op_fmt p"
  have find: "str_find m (a @ b) = (case str_find m a of Some i \<Rightarrow> Some i | None \<Rightarrow> map_option ((+) (length a)) (str_find m b))"
    and le: "\<And>i. str_find m a = Some i \<Longrightarrow> i + length m \<le> length a \<and> i < length a"
    if "m \<in> format_markers ?f" for m
    using str_find_append [of m a b] str_find_less [of m a] assms(1,2) that by (auto simp: uncut_def)
  consider (think) "in_think p" | (tool) buf where "\<not> in_think p" "tool_buf p = Some buf" | (plain) "\<not> in_think p" "tool_buf p = None"
    by (cases "tool_buf p") auto
  then show ?thesis
  proof cases
    case think
    with assms(5) obtain m where m: "think_close ?f = Some m" by (auto simp: push_step_def split: bind_splits)
    then have fm: "m \<in> format_markers ?f" by (simp add: format_markers_def)
    show ?thesis
    proof (cases "str_find m a")
      case (Some i)
      with think m assms(5) find [OF fm] le [OF fm Some] show ?thesis by (simp add: push_step_def split: if_splits)
    next
      case None
      with think m assms(5) have "out = [Reasoning a]" "r = []" "q = p" by (simp_all add: push_step_def)
      with think m None assms(3) find [OF fm] show ?thesis by (cases "str_find m b") (simp_all add: push_step_def)
    qed
  next
    case tool
    let ?m = "tool_end ?f"
    have fm: "?m \<in> format_markers ?f" by (simp add: format_markers_def)
    show ?thesis
    proof (cases "str_find ?m a")
      case (Some i)
      with tool assms(5) find [OF fm] le [OF fm Some] have "push_step E (a @ b) p = Some (out, r @ b, q)"
        by (auto simp: push_step_def Let_def split: prod.splits)
      then show ?thesis by simp
    next
      case None
      with tool assms(5) have "out = []" "r = []" "q = p\<lparr>tool_buf := Some (buf @ a)\<rparr>" by (simp_all add: push_step_def)
      with tool None find [OF fm] show ?thesis by (cases "str_find ?m b") (simp_all add: push_step_def Let_def split: prod.splits)
    qed
  next
    case plain
    let ?t = "tool_start ?f"
    have fm: "?t \<in> format_markers ?f" by (simp add: format_markers_def)
    let ?find = "\<lambda>r. Option.bind (think_open ?f) (\<lambda>m. str_find m r)"
    have th: "(?find (a @ b) = (case ?find a of Some i \<Rightarrow> Some i | None \<Rightarrow> map_option ((+) (length a)) (?find b))) \<and>
        (\<forall>i. ?find a = Some i \<longrightarrow> i + length (the (think_open ?f)) \<le> length a \<and> i < length a)"
    proof (cases "think_open ?f")
      case (Some m)
      then have "m \<in> format_markers ?f" by (simp add: format_markers_def)
      from find [OF this] le [OF this] Some show ?thesis by (simp split: option.splits)
    qed simp
    show ?thesis
    proof (cases "str_find ?t a = None \<and> ?find a = None")
      case False
      with plain assms(5) find [OF fm] th le [OF fm] have "push_step E (a @ b) p = Some (out, r @ b, q)"
        by (auto simp: push_step_def Let_def split: prod.splits option.splits if_splits)
      then show ?thesis by simp
    next
      case True
      with plain assms(5) have q: "out = fst (op_content a p)" "r = []" "q = snd (op_content a p)"
        by (auto simp: push_step_def Let_def split: prod.splits)
      with plain have "\<not> in_think q" "tool_buf q = None" "op_fmt q = ?f" by simp_all
      with True plain q find [OF fm] th show ?thesis
        by (auto simp: push_step_def Let_def op_content_append case_prod_beta split: option.splits)
    qed
  qed
qed


lemma push_step_smaller:
  assumes "[] \<notin> format_markers (op_fmt p)" "r \<noteq> []" "push_step E r p = Some (out, r', q)"
  shows "length r' < length r \<and> op_fmt q = op_fmt p"
  using assms
  by (auto simp: push_step_def Let_def format_markers_def case_prod_beta
      split: bind_splits option.splits if_splits prod.splits)

lemma push_step_drop:
  assumes "push_step E r p = Some (out, r', q)"
  shows "\<exists>k. r' = drop k r"
proof -
  have "\<exists>k. [] = drop k r" by (metis drop_all order_refl)
  with assms show ?thesis
    by (auto simp: push_step_def Let_def case_prod_beta split: bind_splits option.splits if_splits)
qed

lemma op_push_Nil [simp]: "op_push E [] p = Some ([], p)"
  by (simp add: op_push.simps)

lemma op_push_step:
  "r \<noteq> [] \<Longrightarrow> op_push E r p = Option.bind (push_step E r p)
     (\<lambda>(out, r, p). Option.bind (op_push E r p) (\<lambda>(out', p). Some (out @ out', p)))"
  by (subst op_push.simps) simp

lemma op_push_append:
  assumes "[] \<notin> format_markers (op_fmt p)" "uncut (format_markers (op_fmt p)) a b"
    "op_push E a p = Some (out, q)" "op_push E b q = Some (out', q')"
  shows "\<exists>o'. op_push E (a @ b) p = Some (o', q') \<and> letters o' = letters out @ letters out'"
  using assms
proof (induction "length a" arbitrary: a p out rule: less_induct)
  case less
  show ?case
  proof (cases "a = [] \<or> b = []")
    case False
    then have ne: "a \<noteq> []" "b \<noteq> []" by auto
    from less.prems(3) ne obtain o1 r p1 o2 where
      s: "push_step E a p = Some (o1, r, p1)" "op_push E r p1 = Some (o2, q)" "out = o1 @ o2"
      by (auto simp: op_push_step split: bind_splits)
    note sm = push_step_smaller [OF less.prems(1) ne(1) s(1)]
    from push_step_append [OF less.prems(1,2) ne s(1)] show ?thesis
    proof
      assume st: "push_step E (a @ b) p = Some (o1, r @ b, p1)"
      from push_step_drop [OF s(1)] obtain k where "r = drop k a" by blast
      then have "uncut (format_markers (op_fmt p1)) r b" using uncut_drop [OF less.prems(2)] sm by simp
      with less.hyps [OF _ _ this s(2) less.prems(4)] sm less.prems(1) obtain o' where
        "op_push E (r @ b) p1 = Some (o', q')" "letters o' = letters o2 @ letters out'" by auto
      with st s(3) ne show ?thesis by (auto simp: op_push_step [of "a @ b"])
    next
      assume "r = [] \<and> (case push_step E b p1 of None \<Rightarrow> push_step E (a @ b) p = None
        | Some (out', r', q') \<Rightarrow> \<exists>o'. push_step E (a @ b) p = Some (o', r', q') \<and> letters o' = letters o1 @ letters out')"
      with s less.prems(4) ne show ?thesis
        by (auto simp: op_push_step split: bind_splits option.splits)
    qed
  qed (use less.prems in auto)
qed


text \<open>With markers that are not empty \<open>push\<close> returns, unless a reasoning block has no end marker.\<close>

definition parser_ok :: "output_parser \<Rightarrow> bool" where
  "parser_ok p =
     ([] \<notin> format_markers (op_fmt p) \<and> (in_think p \<longrightarrow> think_close (op_fmt p) \<noteq> None) \<and>
      (think_open (op_fmt p) \<noteq> None \<longrightarrow> think_close (op_fmt p) \<noteq> None))"

lemma finish_tool_text_think [simp]: "in_think (snd (finish_tool_text E t p)) = in_think p"
  by (simp add: finish_tool_text_def Let_def split: sum.splits)

lemma push_step_ok:
  assumes "parser_ok p"
  shows "\<exists>out r' q. push_step E r p = Some (out, r', q) \<and> parser_ok q"
  using assms
  by (auto simp: push_step_def parser_ok_def Let_def case_prod_beta split: option.splits)

lemma op_push_total: "parser_ok p \<Longrightarrow> \<exists>out q. op_push E r p = Some (out, q) \<and> parser_ok q \<and> op_fmt q = op_fmt p"
proof (induction "length r" arbitrary: r p rule: less_induct)
  case less
  show ?case
  proof (cases "r = []")
    case False
    from push_step_ok [OF less.prems] obtain out r' q where s: "push_step E r p = Some (out, r', q)" "parser_ok q" by blast
    with push_step_smaller [OF _ False s(1)] less.prems have "length r' < length r" "op_fmt q = op_fmt p" by (auto simp: parser_ok_def)
    with less.hyps [OF this(1) s(2)] s False show ?thesis by (auto simp: op_push_step)
  qed (use less.prems in simp)
qed

lemma lit_eq_Nil [simp]: "lit s = [] \<longleftrightarrow> s = []" "[] = lit s \<longleftrightarrow> s = []"
  by (auto simp: lit_def)

lemma detect_ok: "detect tok = Some fmt \<Longrightarrow> parser_ok (parser_new fmt sd)"
  by (auto simp: detect_def parser_ok_def parser_new_def format_markers_def Let_def split: if_splits)


section \<open>Calls written in Python syntax are read back\<close>

datatype py_value = PyString utext | PyInt int | PyBool bool | PyNone

fun py_json :: "py_value \<Rightarrow> json" where
  "py_json (PyString s) = JString s"
| "py_json (PyInt n) = JNumber (show_int n)"
| "py_json (PyBool b) = JBool b"
| "py_json PyNone = JNull"

fun py_escape :: "uchar \<Rightarrow> utext" where
  "py_escape c = (if c = c_backslash \<or> c = 39 then [c_backslash, c] else if c = 10 then [c_backslash, c_n] else [c])"

fun py_print :: "py_value \<Rightarrow> utext" where
  "py_print (PyString s) = 39 # concat (map py_escape s) @ [39]"
| "py_print (PyInt n) = show_int n"
| "py_print (PyBool b) = (if b then lit ''True'' else lit ''False'')"
| "py_print PyNone = lit ''None''"

fun py_args :: "(utext \<times> py_value) list \<Rightarrow> utext" where
  "py_args [] = [41]"
| "py_args [(k, v)] = k @ [61] @ py_print v @ [41]"
| "py_args ((k, v) # args) = k @ [61] @ py_print v @ [c_comma, 32] @ py_args args"

fun py_calls :: "(utext \<times> (utext \<times> py_value) list) list \<Rightarrow> utext" where
  "py_calls [] = [c_rbracket]"
| "py_calls [(f, args)] = f @ [40] @ py_args args @ [c_rbracket]"
| "py_calls ((f, args) # cs) = f @ [40] @ py_args args @ [c_comma, 32] @ py_calls cs"

fun py_value_ok :: "py_value \<Rightarrow> bool" where
  "py_value_ok (PyInt n) = (- (2 ^ 63) \<le> n \<and> n < 2 ^ 63)"
| "py_value_ok _ = True"

definition py_name :: "text_env \<Rightarrow> utext \<Rightarrow> bool" where
  "py_name E k = (k \<noteq> [] \<and> list_all (\<lambda>c. name_char E c \<and> \<not> is_whitespace c) k)"

definition py_call_ok :: "text_env \<Rightarrow> utext \<times> (utext \<times> py_value) list \<Rightarrow> bool" where
  "py_call_ok E c =
     (py_name E (fst c) \<and> distinct (map fst (snd c)) \<and> list_all (\<lambda>(k, v). py_name E k \<and> py_value_ok v) (snd c))"

lemma string_body_escaped: "string_body 39 (concat (map py_escape s) @ 39 # r) out = Inr (out @ s, r)"
  by (induction s arbitrary: out) (auto simp: unescape_def)

lemma show_nat_digits: "list_all (\<lambda>c. is_digit (of_char c)) (show_nat n) \<and> show_nat n \<noteq> []"
  by (induction n rule: show_nat.induct) (subst (1 2) show_nat.simps, auto simp: is_digit_def list_all_append)

lemma lit_digits: "list_all is_digit (lit (show_nat n))" "lit (show_nat n) \<noteq> []"
  using show_nat_digits [of n] by (simp_all add: lit_def list_all_iff)

lemma digits_value_show: "digits_value (lit (show_nat n)) = int n"
proof (induction n rule: show_nat.induct)
  case (1 n)
  show ?case
  proof (cases "n < 10")
    case True
    then show ?thesis by (subst show_nat.simps) (simp add: digits_value_def lit_def)
  next
    case False
    with 1 have "digits_value (lit (show_nat n)) = int (n div 10) * 10 + int (n mod 10)"
      by (subst show_nat.simps) (simp add: digits_value_def lit_def)
    then show ?thesis by presburger
  qed
qed

lemma digit_not_sign: "is_digit c \<Longrightarrow> c \<noteq> c_minus \<and> c \<noteq> c_plus"
  by (auto simp: is_digit_def)

lemma parse_i64_show: "- (2 ^ 63) \<le> n \<Longrightarrow> n < 2 ^ 63 \<Longrightarrow> parse_i64 (show_int n) = Some n"
  using lit_digits [of "nat n"] lit_digits [of "nat (- n)"] digit_not_sign digits_value_show [of "nat n"]
  by (cases "lit (show_nat (nat n))") (auto simp: parse_i64_def show_int_def Let_def digits_value_show)


lemma show_int_chars: "show_int n \<noteq> []" "hd (show_int n) = c_minus \<or> is_digit (hd (show_int n))"
    "c \<in> set (show_int n) \<Longrightarrow> c = c_minus \<or> is_digit c"
  using lit_digits [of "nat n"] lit_digits(1) [of "nat (- n)"] by (auto simp: show_int_def list_all_iff split: if_splits)

lemma digit_plain: "c = c_minus \<or> is_digit c \<Longrightarrow> word_char c \<and> c \<notin> {39, c_quote, c_lbrace, c_lbracket} \<and> c \<notin> {84, 116, 70, 102, 78, 110}"
  by (auto simp: is_digit_def word_char_def is_whitespace_def)

lemma word_chars: "list_all word_char (show_int n)" "show_int n \<noteq> []" "hd (show_int n) \<notin> {39, c_quote, c_lbrace, c_lbracket}"
  using show_int_chars digit_plain by (auto simp: list_all_iff)

lemma word_value_show:
  assumes "- (2 ^ 63) \<le> n" "n < 2 ^ 63"
  shows "word_value E (show_int n) = JNumber (show_int n)"
proof -
  have "show_int n \<notin> {lit ''True'', lit ''true'', lit ''False'', lit ''false'', lit ''None'', lit ''null''}"
    using digit_plain [OF show_int_chars(2) [of n]] by (auto simp: lit_def)
  with parse_i64_show [OF assms] show ?thesis by (simp add: word_value_def)
qed

lemma call_value_word:
  assumes "list_all word_char w" "w \<noteq> []" "hd w \<notin> {39, c_quote, c_lbrace, c_lbracket}" "\<not> word_char c"
  shows "call_value E (w @ c # r) = Inr (word_value E w, c # r)"
proof -
  have "takeWhile word_char (w @ c # r) = w" "dropWhile word_char (w @ c # r) = c # r"
    using assms(1,4) by (simp_all add: list_all_iff takeWhile_append dropWhile_append)
  with assms(2,3) show ?thesis by (cases w) (simp_all add: call_value_def)
qed

lemma call_value_print:
  assumes "py_value_ok v" "\<not> word_char c"
  shows "call_value E (py_print v @ c # r) = Inr (py_json v, c # r)"
proof (cases v)
  case (PyString s)
  with string_body_escaped [of s "c # r" "[]"] show ?thesis by (simp add: call_value_def)
next
  case (PyInt n)
  with assms word_chars [of n] word_value_show [of n] show ?thesis by (simp add: call_value_word)
next
  case (PyBool b)
  have "list_all word_char (lit ''True'')" "list_all word_char (lit ''False'')" "hd (lit ''True'') = 84" "hd (lit ''False'') = 70"
    "word_value E (lit ''True'') = JBool True" "word_value E (lit ''False'') = JBool False"
    by (simp_all add: lit_def word_char_def is_whitespace_def word_value_def)
  then show ?thesis using PyBool assms(2) by (cases b) (simp_all add: call_value_word)
next
  case PyNone
  have "list_all word_char (lit ''None'')" "hd (lit ''None'') = 78" "word_value E (lit ''None'') = JNull"
    by (simp_all add: lit_def word_char_def is_whitespace_def word_value_def)
  then show ?thesis using PyNone assms(2) by (simp add: call_value_word)
qed

lemma ident_print:
  assumes "py_name E k" "\<not> name_char E c"
  shows "ident E (k @ c # r) = Inr (k, c # r)"
  using assms by (auto simp: py_name_def ident_def Let_def list_all_iff takeWhile_append dropWhile_append)

lemma trim_start_name: "py_name E k \<Longrightarrow> trim_start (k @ r) = k @ r"
  by (cases k) (auto simp: py_name_def trim_start_def)

lemma plain_chars [simp]:
  "\<not> name_char E 40" "\<not> name_char E 61" "\<not> word_char c_comma" "\<not> word_char 41"
  "\<not> is_whitespace 40" "\<not> is_whitespace 41" "\<not> is_whitespace 61" "\<not> is_whitespace c_comma" "\<not> is_whitespace c_rbracket"
  "\<not> is_whitespace c_lbracket" "is_whitespace 32" "\<not> name_char E 41" "\<not> name_char E c_rbracket"
  by (simp_all add: name_char_def is_alphanumeric_def is_ascii_alphanumeric_def word_char_def is_whitespace_def Let_def)

lemma trim_start_Cons [simp]:
  "\<not> is_whitespace c \<Longrightarrow> trim_start (c # r) = c # r" "is_whitespace c \<Longrightarrow> trim_start (c # r) = trim_start r"
  by (simp_all add: trim_start_def)

lemma trim_start_print: "trim_start (py_print v @ r) = py_print v @ r"
proof (cases v)
  case (PyInt n)
  have "\<not> is_whitespace (hd (show_int n))" using word_chars(1,2) [of n] by (auto simp: list_all_iff word_char_def)
  with PyInt word_chars(2) [of n] show ?thesis by (cases "show_int n") simp_all
qed (auto simp: lit_def is_whitespace_def)


lemma map_insert_new: "k \<notin> fst ` set m \<Longrightarrow> map_insert k v m = m @ [(k, v)]"
  by (induction k v m rule: map_insert.induct) auto

lemma eat_simps [simp]: "eat c (c # r) = Some r" "d \<noteq> c \<Longrightarrow> eat c (d # r) = None" "eat c [] = None"
  by (simp_all add: eat_def)

lemma py_name_ne: "py_name E k \<Longrightarrow> k \<noteq> []"
  by (simp add: py_name_def)

lemma eat_name: "py_name E k \<Longrightarrow> \<not> name_char E c \<Longrightarrow> eat c (k @ r) = None"
  by (cases k) (auto simp: py_name_def eat_def)

lemma call_args_Cons:
  assumes "py_name E k" "py_value_ok v" "k \<notin> fst ` set acc"
  shows "call_args E acc (k @ 61 # py_print v @ 41 # r) = Inr (acc @ [(k, py_json v)], r)"
    "call_args E acc (k @ 61 # py_print v @ c_comma # 32 # r) = call_args E (acc @ [(k, py_json v)]) (32 # r)"
  using assms by (subst call_args.simps; simp add: Let_def ident_print trim_start_name eat_name trim_start_print call_value_print map_insert_new)+

lemma call_args_space: "call_args E acc (32 # r) = call_args E acc r"
  by (subst (1 2) call_args.simps) simp

lemma call_args_print:
  "distinct (map fst (acc @ map (map_prod id py_json) args)) \<Longrightarrow> list_all (\<lambda>(k, v). py_name E k \<and> py_value_ok v) args \<Longrightarrow>
     call_args E acc (py_args args @ r) = Inr (acc @ map (map_prod id py_json) args, r)"
proof (induction args arbitrary: acc rule: py_args.induct)
  case 1
  then show ?case by (subst call_args.simps) simp
next
  case (2 k v)
  then show ?case by (simp add: call_args_Cons)
next
  case (3 k v a args)
  then have "call_args E (acc @ [(k, py_json v)]) (py_args (a # args) @ r) =
      Inr ((acc @ [(k, py_json v)]) @ map (map_prod id py_json) (a # args), r)"
    by (intro "3.IH") auto
  with 3 show ?case by (auto simp: call_args_Cons call_args_space)
qed

definition py_call_json :: "utext \<times> (utext \<times> py_value) list \<Rightarrow> utext \<times> json" where
  "py_call_json c = (fst c, JObject (map (map_prod id py_json) (snd c)))"

lemma call_args_of:
  "py_call_ok E c \<Longrightarrow> call_args E [] (py_args (snd c) @ r) = Inr (map (map_prod id py_json) (snd c), r)"
  using call_args_print [of "[]" "snd c" E r] by (simp add: py_call_ok_def comp_def map_prod_def case_prod_beta)

declare call_list.simps [simp del]

lemma call_list_space: "call_list E b acc (32 # r) = call_list E b acc r"
  by (subst (1 2) call_list.simps) simp

lemma call_list_Cons:
  assumes "py_call_ok E (f, args)"
  shows "call_list E True acc (f @ 40 # py_args args @ r) =
    (case after_call True r of
       Inl e \<Rightarrow> Inl e
     | Inr None \<Rightarrow> Inr (acc @ [py_call_json (f, args)])
     | Inr (Some r) \<Rightarrow> call_list E True (acc @ [py_call_json (f, args)]) r)"
proof -
  from assms have n: "py_name E f" by (simp add: py_call_ok_def)
  show ?thesis
    using call_args_of [OF assms]
    by (subst call_list.simps)
      (simp add: Let_def py_name_ne [OF n] ident_print [OF n] trim_start_name [OF n] eat_name [OF n] py_call_json_def
        split: sum.split option.split)
qed

lemma call_list_print:
  "list_all (py_call_ok E) cs \<Longrightarrow> call_list E True acc (py_calls cs) = Inr (acc @ map py_call_json cs)"
proof (induction cs arbitrary: acc rule: py_calls.induct)
  case 1
  then show ?case by (subst call_list.simps) simp
qed (simp_all add: call_list_Cons call_list_space after_call_def)

lemma py_calls_last: "\<exists>t. py_calls cs = t @ [c_rbracket]"
  by (induction cs rule: py_calls.induct) auto

lemma parse_calls_print:
  assumes "list_all (py_call_ok E) cs"
  shows "parse_calls E (c_lbracket # py_calls cs) = Inr (map py_call_json cs)"
proof -
  have "trim (c_lbracket # py_calls cs) = c_lbracket # py_calls cs"
    using py_calls_last [of cs] by (auto simp: trim_def)
  with call_list_print [OF assms, of "[]"] show ?thesis by (simp add: parse_calls_def)
qed

end
