(* ===== verification/Chat_Types.thy ===== *)
theory Chat_Types
  imports Wire_Protocol Output_Parser
begin

text \<open>
  The types of the public API (\<open>vapi-openai/src\<close>): requests and their translation into sampling
  parameters, responses, and the chunks of a stream.  Serde's encodings are not modelled; the JSON text
  of a schema is the parameter \<open>body\<close>, and the clock is the argument \<open>now\<close>.
\<close>

section \<open>Usage and stop strings (lib.rs)\<close>

record usage =
  us_prompt_tokens :: nat
  us_completion_tokens :: nat
  us_total_tokens :: nat

definition usage_new :: "nat \<Rightarrow> nat \<Rightarrow> usage" where
  "usage_new p c = \<lparr>us_prompt_tokens = p, us_completion_tokens = c, us_total_tokens = p + c\<rparr>"

datatype string_or_vec = One string | Many "string list"

fun into_vec :: "string_or_vec \<Rightarrow> string list" where
  "into_vec (One s) = [s]"
| "into_vec (Many v) = v"

section \<open>Chat requests (chat.rs)\<close>

datatype chat_role = RoleSystem | RoleUser | RoleAssistant | RoleTool | RoleFunction

record chat_message =
  cm_role :: chat_role
  cm_content :: "utext option"
  cm_name :: "utext option"
  cm_tool_calls :: "tool_call list option"
  cm_tool_call_id :: "utext option"
  cm_reasoning :: "utext option"

definition message_with :: "chat_role \<Rightarrow> utext option \<Rightarrow> chat_message" where
  "message_with r c =
     \<lparr>cm_role = r, cm_content = c, cm_name = None, cm_tool_calls = None, cm_tool_call_id = None, cm_reasoning = None\<rparr>"

definition message_assistant :: "utext \<Rightarrow> chat_message" where
  "message_assistant c = message_with RoleAssistant (Some c)"

record chat_request =
  cr_model :: string
  cr_messages :: "chat_message list"
  cr_temperature :: "f32 option"
  cr_top_p :: "f32 option"
  cr_top_k :: "nat option"
  cr_min_p :: "f32 option"
  cr_frequency_penalty :: "f32 option"
  cr_presence_penalty :: "f32 option"
  cr_repetition_penalty :: "f32 option"
  cr_max_tokens :: "nat option"
  cr_max_completion_tokens :: "nat option"
  cr_seed :: "64 word option"
  cr_stop :: "string_or_vec option"
  cr_stream :: "bool option"
  cr_include_usage :: "bool option"
  cr_n :: "nat option"
  cr_logprobs :: "bool option"
  cr_top_logprobs :: "nat option"
  cr_tools :: "json list option"
  cr_tool_choice :: "json option"
  cr_response_format :: "json option"

definition unwrap_or :: "'a option \<Rightarrow> 'a \<Rightarrow> 'a" where
  "unwrap_or v d = (case v of Some x \<Rightarrow> x | None \<Rightarrow> d)"

definition chat_is_streaming :: "chat_request \<Rightarrow> bool" where
  "chat_is_streaming q = unwrap_or (cr_stream q) False"

definition include_usage :: "chat_request \<Rightarrow> bool" where
  "include_usage q = unwrap_or (cr_include_usage q) False"

datatype request_error =
    FormatNeedsType
  | SchemaMissing
  | FormatNotSupported utext
  | ToolChoiceNotSupported json
  | BadParams string

definition chat_constraint :: "(json \<Rightarrow> string) \<Rightarrow> chat_request \<Rightarrow> request_error + response_format option" where
  "chat_constraint body q =
     (case cr_response_format q of
        None \<Rightarrow> Inr None
      | Some rf \<Rightarrow>
          (case config_get rf ''type'' of
             Some (JString kind) \<Rightarrow>
               if kind = lit ''text'' then Inr None
               else if kind = lit ''json_object'' then Inr (Some JsonObject)
               else if kind = lit ''json_schema'' then
                 (case config_get rf ''json_schema'' of
                    None \<Rightarrow> Inl SchemaMissing
                  | Some js \<Rightarrow> Inr (Some (JsonSchema (body (unwrap_or (config_get js ''schema'') js)))))
               else Inl (FormatNotSupported kind)
           | _ \<Rightarrow> Inl FormatNeedsType))"

definition active_tools :: "chat_request \<Rightarrow> request_error + json list option" where
  "active_tools q =
     (let tools = (case cr_tools q of Some ts \<Rightarrow> if ts = [] then None else Some ts | None \<Rightarrow> None) in
      case cr_tool_choice q of
        None \<Rightarrow> Inr tools
      | Some tc \<Rightarrow> if tc = JString (lit ''auto'') then Inr tools
                   else if tc = JString (lit ''none'') then Inr None
                   else Inl (ToolChoiceNotSupported tc))"

definition chat_params :: "(json \<Rightarrow> string) \<Rightarrow> chat_request \<Rightarrow> nat \<Rightarrow> request_error + sampling_params" where
  "chat_params body q default_max_tokens =
     (let lps = (if unwrap_or (cr_logprobs q) False then Some (unwrap_or (cr_top_logprobs q) 1) else None) in
      case chat_constraint body q of
        Inl e \<Rightarrow> Inl e
      | Inr rf \<Rightarrow>
          (let ps = \<lparr>temperature = unwrap_or (cr_temperature q) (Fin 1), top_p = unwrap_or (cr_top_p q) (Fin 1),
                    top_k = cr_top_k q, min_p = unwrap_or (cr_min_p q) (Fin 0),
                    repetition_penalty = unwrap_or (cr_repetition_penalty q) (Fin 1),
                    frequency_penalty = unwrap_or (cr_frequency_penalty q) (Fin 0),
                    presence_penalty = unwrap_or (cr_presence_penalty q) (Fin 0),
                    max_tokens = (case cr_max_completion_tokens q of
                                    Some n \<Rightarrow> n | None \<Rightarrow> unwrap_or (cr_max_tokens q) default_max_tokens),
                    n_choices = unwrap_or (cr_n q) 1, seed = cr_seed q, logprobs = lps, resp_format = rf,
                    constraint_starts_after = None,
                    stop = \<lparr>stop_token_ids = [], stop_strings = (case cr_stop q of Some s \<Rightarrow> into_vec s | None \<Rightarrow> []),
                            include_stop_str = False\<rparr>\<rparr>
           in case validate_params ps of Inl m \<Rightarrow> Inl (BadParams m) | Inr _ \<Rightarrow> Inr ps))"

section \<open>Completion requests (completion.rs)\<close>

record completion_request =
  co_model :: string
  co_prompt :: utext
  co_temperature :: "f32 option"
  co_top_p :: "f32 option"
  co_top_k :: "nat option"
  co_max_tokens :: "nat option"
  co_seed :: "64 word option"
  co_stop :: "string_or_vec option"
  co_stream :: "bool option"
  co_frequency_penalty :: "f32 option"
  co_presence_penalty :: "f32 option"
  co_logprobs :: "nat option"

definition completion_is_streaming :: "completion_request \<Rightarrow> bool" where
  "completion_is_streaming q = unwrap_or (co_stream q) False"

definition completion_params :: "completion_request \<Rightarrow> nat \<Rightarrow> request_error + sampling_params" where
  "completion_params q default_max_tokens =
     (let ps = default_params\<lparr>temperature := unwrap_or (co_temperature q) (Fin 1), top_p := unwrap_or (co_top_p q) (Fin 1),
                 top_k := co_top_k q, max_tokens := unwrap_or (co_max_tokens q) default_max_tokens, seed := co_seed q,
                 frequency_penalty := unwrap_or (co_frequency_penalty q) (Fin 0),
                 presence_penalty := unwrap_or (co_presence_penalty q) (Fin 0), logprobs := co_logprobs q,
                 stop := default_stop\<lparr>stop_strings := (case co_stop q of Some s \<Rightarrow> into_vec s | None \<Rightarrow> [])\<rparr>\<rparr>
      in case validate_params ps of Inl m \<Rightarrow> Inl (BadParams m) | Inr _ \<Rightarrow> Inr ps)"

section \<open>Responses (chat.rs)\<close>

record top_logprob =
  tp_token :: utext
  tp_logprob :: f32
  tp_bytes :: "nat list option"

record logprob_entry =
  le_token :: utext
  le_logprob :: f32
  le_utf8 :: "nat list option"
  le_top :: "top_logprob list"

definition logprob_entry_new :: "utext \<Rightarrow> f32 \<Rightarrow> (utext \<times> f32) list \<Rightarrow> logprob_entry" where
  "logprob_entry_new t lp tops =
     \<lparr>le_token = t, le_logprob = lp, le_utf8 = Some (utf8 t),
      le_top = map (\<lambda>(t, lp). \<lparr>tp_token = t, tp_logprob = lp, tp_bytes = Some (utf8 t)\<rparr>) tops\<rparr>"

record chat_choice =
  ch_index :: nat
  ch_message :: chat_message
  ch_finish_reason :: "string option"
  ch_logprobs :: "logprob_entry list option"

record chat_response =
  rp_id :: string
  rp_object :: string
  rp_created :: nat
  rp_model :: string
  rp_choices :: "chat_choice list"
  rp_usage :: usage

definition plain_choice :: "nat \<Rightarrow> utext \<Rightarrow> finish_reason \<Rightarrow> chat_choice" where
  "plain_choice i content fin =
     \<lparr>ch_index = i, ch_message = message_assistant content, ch_finish_reason = Some (as_openai fin), ch_logprobs = None\<rparr>"

definition chat_response_new :: "nat \<Rightarrow> string \<Rightarrow> string \<Rightarrow> utext \<Rightarrow> finish_reason \<Rightarrow> usage \<Rightarrow> chat_response" where
  "chat_response_new now i m content fin u =
     \<lparr>rp_id = i, rp_object = ''chat.completion'', rp_created = now, rp_model = m,
      rp_choices = [plain_choice 0 content fin], rp_usage = u\<rparr>"

definition with_choices :: "nat \<Rightarrow> string \<Rightarrow> string \<Rightarrow> (utext \<times> finish_reason) list \<Rightarrow> usage \<Rightarrow> chat_response" where
  "with_choices now i m cs u =
     \<lparr>rp_id = i, rp_object = ''chat.completion'', rp_created = now, rp_model = m,
      rp_choices = map (\<lambda>(k, (content, fin)). plain_choice k content fin) (enumerate 0 cs), rp_usage = u\<rparr>"

text \<open>An update of the first element, if there is one.\<close>

definition map_first :: "('a \<Rightarrow> 'a) \<Rightarrow> 'a list \<Rightarrow> 'a list" where
  "map_first f xs = (case xs of [] \<Rightarrow> [] | x # xs' \<Rightarrow> f x # xs')"

definition with_parsed :: "utext option \<Rightarrow> tool_call list \<Rightarrow> chat_response \<Rightarrow> chat_response" where
  "with_parsed reasoning calls resp =
     resp\<lparr>rp_choices := map_first (\<lambda>c.
       (let m = (ch_message c)\<lparr>cm_reasoning := (case reasoning of Some t \<Rightarrow> if t = [] then None else Some t | None \<Rightarrow> None)\<rparr>;
            c = c\<lparr>ch_message := m\<rparr> in
        if calls = [] then c
        else c\<lparr>ch_message := m\<lparr>cm_content := (if cm_content m = Some [] then None else cm_content m),
                              cm_tool_calls := Some calls\<rparr>,
               ch_finish_reason := Some (as_openai ToolCalls)\<rparr>)) (rp_choices resp)\<rparr>"

definition chat_with_logprobs :: "logprob_entry list \<Rightarrow> chat_response \<Rightarrow> chat_response" where
  "chat_with_logprobs lps resp = resp\<lparr>rp_choices := map_first (\<lambda>c. c\<lparr>ch_logprobs := Some lps\<rparr>) (rp_choices resp)\<rparr>"

section \<open>Chunks of a stream (chat.rs)\<close>

record tool_call_delta =
  td_index :: nat
  td_id :: string
  td_kind :: string
  td_name :: utext
  td_arguments :: utext

record chat_delta =
  cd_role :: "chat_role option"
  cd_content :: "utext option"
  cd_reasoning :: "utext option"
  cd_tool_calls :: "tool_call_delta list option"

definition default_delta :: chat_delta where
  "default_delta = \<lparr>cd_role = None, cd_content = None, cd_reasoning = None, cd_tool_calls = None\<rparr>"

record chunk_choice =
  cc_index :: nat
  cc_delta :: chat_delta
  cc_finish_reason :: "string option"
  cc_logprobs :: "logprob_entry list option"

record stream_chunk =
  sc_id :: string
  sc_object :: string
  sc_created :: nat
  sc_model :: string
  sc_choices :: "chunk_choice list"
  sc_usage :: "usage option"

text \<open>The identity that all chunks of a response share: id, model and creation time.\<close>

type_synonym chunk_id = "string \<times> string \<times> nat"

definition chunk_base :: "chunk_id \<Rightarrow> chunk_choice list \<Rightarrow> stream_chunk" where
  "chunk_base i cs =
     \<lparr>sc_id = fst i, sc_object = ''chat.completion.chunk'', sc_created = snd (snd i), sc_model = fst (snd i),
      sc_choices = cs, sc_usage = None\<rparr>"

definition chunk_of :: "chunk_id \<Rightarrow> chat_delta \<Rightarrow> string option \<Rightarrow> stream_chunk" where
  "chunk_of i d fin = chunk_base i [\<lparr>cc_index = 0, cc_delta = d, cc_finish_reason = fin, cc_logprobs = None\<rparr>]"

definition chunk_role :: "chunk_id \<Rightarrow> stream_chunk" where
  "chunk_role i = chunk_of i (default_delta\<lparr>cd_role := Some RoleAssistant\<rparr>) None"

definition chunk_content :: "chunk_id \<Rightarrow> utext \<Rightarrow> stream_chunk" where
  "chunk_content i t = chunk_of i (default_delta\<lparr>cd_content := Some t\<rparr>) None"

definition chunk_reasoning :: "chunk_id \<Rightarrow> utext \<Rightarrow> stream_chunk" where
  "chunk_reasoning i t = chunk_of i (default_delta\<lparr>cd_reasoning := Some t\<rparr>) None"

definition chunk_tool_calls :: "chunk_id \<Rightarrow> tool_call list \<Rightarrow> stream_chunk" where
  "chunk_tool_calls i calls =
     chunk_of i (default_delta\<lparr>cd_tool_calls := Some (map (\<lambda>(k, c).
       \<lparr>td_index = k, td_id = tc_id c, td_kind = tc_kind c, td_name = tc_name c, td_arguments = tc_arguments c\<rparr>)
       (enumerate 0 calls))\<rparr>) None"

definition chunk_finish :: "chunk_id \<Rightarrow> finish_reason \<Rightarrow> stream_chunk" where
  "chunk_finish i fin = chunk_of i default_delta (Some (as_openai fin))"

definition set_choice_index :: "nat \<Rightarrow> stream_chunk \<Rightarrow> stream_chunk" where
  "set_choice_index k c = c\<lparr>sc_choices := map_first (\<lambda>ch. ch\<lparr>cc_index := k\<rparr>) (sc_choices c)\<rparr>"

definition chunk_content_for :: "chunk_id \<Rightarrow> nat \<Rightarrow> utext \<Rightarrow> stream_chunk" where
  "chunk_content_for i k t = set_choice_index k (chunk_content i t)"

definition chunk_finish_for :: "chunk_id \<Rightarrow> nat \<Rightarrow> finish_reason \<Rightarrow> stream_chunk" where
  "chunk_finish_for i k fin = set_choice_index k (chunk_finish i fin)"

definition chunk_with_logprobs :: "logprob_entry \<Rightarrow> stream_chunk \<Rightarrow> stream_chunk" where
  "chunk_with_logprobs e c = c\<lparr>sc_choices := map_first (\<lambda>ch. ch\<lparr>cc_logprobs := Some [e]\<rparr>) (sc_choices c)\<rparr>"

definition chunk_usage_only :: "chunk_id \<Rightarrow> usage \<Rightarrow> stream_chunk" where
  "chunk_usage_only i u = (chunk_base i [])\<lparr>sc_usage := Some u\<rparr>"

section \<open>Completion responses (completion.rs)\<close>

text \<open>The parallel arrays of the legacy logprobs.\<close>

record completion_logprobs =
  cl_tokens :: "utext list"
  cl_token_logprobs :: "f32 list"
  cl_top :: "(utext \<times> f32) list list"
  cl_text_offset :: "nat list"

record completion_response =
  cp_id :: string
  cp_object :: string
  cp_created :: nat
  cp_model :: string
  cp_choices :: "(nat \<times> utext \<times> string option \<times> completion_logprobs option) list"
  cp_usage :: usage

definition completion_response_new :: "nat \<Rightarrow> string \<Rightarrow> string \<Rightarrow> utext \<Rightarrow> finish_reason \<Rightarrow> usage \<Rightarrow> completion_response" where
  "completion_response_new now i m t fin u =
     \<lparr>cp_id = i, cp_object = ''text_completion'', cp_created = now, cp_model = m,
      cp_choices = [(0, t, Some (as_openai fin), None)], cp_usage = u\<rparr>"

text \<open>A map literal keeps the last value of a key at the place of the first.\<close>

fun put_logprob :: "utext \<times> f32 \<Rightarrow> (utext \<times> f32) list \<Rightarrow> (utext \<times> f32) list" where
  "put_logprob (k, v) [] = [(k, v)]"
| "put_logprob (k, v) ((k', v') # m) = (if k' = k then (k, v) # m else (k', v') # put_logprob (k, v) m)"

fun text_offsets :: "nat \<Rightarrow> logprob_entry list \<Rightarrow> nat list" where
  "text_offsets off [] = []"
| "text_offsets off (e # es) = off # text_offsets (off + length (utf8 (le_token e))) es"

definition completion_with_logprobs :: "logprob_entry list \<Rightarrow> completion_response \<Rightarrow> completion_response" where
  "completion_with_logprobs es resp =
     (let v = \<lparr>cl_tokens = map le_token es, cl_token_logprobs = map le_logprob es,
               cl_top = map (\<lambda>e. fold (\<lambda>t m. put_logprob (tp_token t, tp_logprob t) m) (le_top e) []) es,
               cl_text_offset = text_offsets 0 es\<rparr>
      in resp\<lparr>cp_choices := map_first (\<lambda>(i, t, fin, _). (i, t, fin, Some v)) (cp_choices resp)\<rparr>)"

end
