(* ===== verification/Gateway_Stream.thy ===== *)
theory Gateway_Stream
  imports Chat_Types
begin

text \<open>
  How the gateway turns the deltas of a worker into a response: the token stream (\<open>stream.rs\<close>), the
  counters of the dashboard (\<open>state.rs\<close>), the entries of the response cache and, from \<open>api.rs\<close>, the two
  paths that consume a stream, \<open>collect\<close> for one body and \<open>sse_stream\<close> for chunks.  What the awaits of a
  handler receive is a list: a message, or the silence of a timeout; the end of the list is the end of the
  subscription.  The decoder of a payload and the tokenizer are parameters; a duration is a number.
\<close>

section \<open>The token stream (stream.rs)\<close>

datatype 'p received = Silence | Message 'p

datatype stream_event =
    EvStarted nat
  | EvToken nat utext "f32 option" "token_logprob list option"
  | EvDone nat finish_reason nat nat
  | EvDecided "row_scores list" nat
  | EvTranscribed string nat f32
  | EvFailed string

record token_stream =
  ts_check :: delta_seq_check
  ts_first_timeout :: nat
  ts_idle_timeout :: nat
  ts_started :: bool

definition stream_open :: "nat \<Rightarrow> nat \<Rightarrow> token_stream" where
  "stream_open first idle = \<lparr>ts_check = fresh_check, ts_first_timeout = first, ts_idle_timeout = idle, ts_started = False\<rparr>"

fun event_of :: "delta \<Rightarrow> stream_event" where
  "event_of (Started _ cached) = EvStarted cached"
| "event_of (Token ch t _ lp tops) = EvToken ch (text_of t) lp tops"
| "event_of (Done ch why p c) = EvDone ch why p c"
| "event_of (Decided rows p) = EvDecided rows p"
| "event_of (Transcribed t n secs) = EvTranscribed t n secs"
| "event_of (Failed m) = EvFailed m"

definition stream_next :: "('p \<Rightarrow> error + delta_msg) \<Rightarrow> 'p received \<Rightarrow> token_stream \<Rightarrow> (error + stream_event) \<times> token_stream" where
  "stream_next decode rcv ts =
     (case rcv of
        Silence \<Rightarrow> (Inl (Timeout (if ts_started ts then ts_idle_timeout ts else ts_first_timeout ts)), ts)
      | Message p \<Rightarrow>
          (case decode p of
             Inl e \<Rightarrow> (Inl e, ts)
           | Inr m \<Rightarrow>
               (case observe (dm_seq m) (ts_check ts) of
                  (Some missing, chk) \<Rightarrow>
                    (Inl (Transport_error (show_nat missing @ '' token delta(s) lost in transit'')), ts\<lparr>ts_check := chk\<rparr>)
                | (None, chk) \<Rightarrow> (Inr (event_of (dm_delta m)), ts\<lparr>ts_check := chk, ts_started := True\<rparr>))))"

section \<open>Counters (state.rs)\<close>

record request_record =
  rr_id :: string
  rr_kind :: string
  rr_prompt_tokens :: nat
  rr_completion_tokens :: nat
  rr_choices :: nat
  rr_finish :: string
  rr_cached :: bool
  rr_streamed :: bool

record gateway_stats =
  gs_started :: nat
  gs_completed :: nat
  gs_failed :: nat
  gs_refused :: nat
  gs_cache_hits :: nat
  gs_prompt_tokens :: nat
  gs_completion_tokens :: nat
  gs_recent :: "request_record list"

definition RECENT_REQUESTS :: nat where
  "RECENT_REQUESTS = 25"

definition stats_record :: "request_record \<Rightarrow> gateway_stats \<Rightarrow> gateway_stats" where
  "stats_record r g =
     g\<lparr>gs_completed := gs_completed g + 1, gs_prompt_tokens := gs_prompt_tokens g + rr_prompt_tokens r,
       gs_completion_tokens := gs_completion_tokens g + rr_completion_tokens r,
       gs_cache_hits := (if rr_cached r then gs_cache_hits g + 1 else gs_cache_hits g),
       gs_recent := (if length (gs_recent g) \<ge> RECENT_REQUESTS then tl (gs_recent g) else gs_recent g) @ [r]\<rparr>"

definition stats_recent :: "gateway_stats \<Rightarrow> request_record list" where
  "stats_recent g = rev (gs_recent g)"

definition count_failed :: "gateway_stats \<Rightarrow> gateway_stats" where
  "count_failed g = g\<lparr>gs_failed := gs_failed g + 1\<rparr>"

section \<open>A prepared request (api.rs)\<close>

record cached_response =
  ca_tokens :: "utext list"
  ca_finish :: finish_reason
  ca_prompt_tokens :: nat
  ca_completion_tokens :: nat

definition cached_text :: "cached_response \<Rightarrow> utext" where
  "cached_text r = concat (ca_tokens r)"

record prepared =
  pr_request_id :: string
  pr_job :: job
  pr_created :: nat
  pr_prompt_tokens :: nat
  pr_cache_key :: "string option"

text \<open>
  What the handlers read of the state of the gateway: the external functions, the tokenizer, whether a
  cache was opened, and whether the setting that enables it is on.
\<close>

record 'm gateway =
  gw_env :: text_env
  gw_tokenizer :: "'m tokenization"
  gw_cache_open :: bool
  gw_cache_on :: bool
  gw_first_timeout :: nat
  gw_idle_timeout :: nat

definition open_stream :: "'m gateway \<Rightarrow> token_stream" where
  "open_stream gw = stream_open (gw_first_timeout gw) (gw_idle_timeout gw)"

definition remember :: "'m gateway \<Rightarrow> prepared \<Rightarrow> utext list \<Rightarrow> finish_reason \<Rightarrow> usage \<Rightarrow> (string \<times> cached_response) list" where
  "remember gw pr ts fin u =
     (case pr_cache_key pr of
        None \<Rightarrow> []
      | Some key \<Rightarrow>
          if gw_cache_open gw \<and> gw_cache_on gw \<and> fin \<in> {Stop, Length} then
            [(key, \<lparr>ca_tokens = ts, ca_finish = fin, ca_prompt_tokens = us_prompt_tokens u,
                    ca_completion_tokens = us_completion_tokens u\<rparr>)]
          else [])"

definition kind_name :: "job_kind \<Rightarrow> string" where
  "kind_name k = (case k of Chat \<Rightarrow> ''chat'' | Completion \<Rightarrow> ''completion'' | Decision \<Rightarrow> ''decision''
                          | Transcription \<Rightarrow> ''transcription'')"

definition outcome :: "prepared \<Rightarrow> string \<Rightarrow> usage \<Rightarrow> nat \<Rightarrow> finish_reason \<Rightarrow> bool \<Rightarrow> bool \<Rightarrow> request_record" where
  "outcome pr kind u choices fin cached streamed =
     \<lparr>rr_id = pr_request_id pr, rr_kind = kind, rr_prompt_tokens = us_prompt_tokens u,
      rr_completion_tokens = us_completion_tokens u, rr_choices = choices, rr_finish = as_openai fin,
      rr_cached = cached, rr_streamed = streamed\<rparr>"

definition logprob_entry :: "'m gateway \<Rightarrow> utext \<Rightarrow> f32 \<Rightarrow> token_logprob list \<Rightarrow> logprob_entry option" where
  "logprob_entry gw t lp tops = do {
     ts \<leftarrow> those (map (\<lambda>x. map_option (\<lambda>s. (s, tl_logprob x)) (tok_decode (gw_tokenizer gw) [tl_token_id x])) tops);
     Some (logprob_entry_new t lp ts) }"

section \<open>Parsed output (api.rs)\<close>

record parsed_output =
  po_content :: utext
  po_reasoning :: "utext option"
  po_calls :: "tool_call list"

record parsed =
  pa_parser :: "output_parser option"
  pa_out :: parsed_output

definition parsed_new :: "output_parser option \<Rightarrow> parsed" where
  "parsed_new p = \<lparr>pa_parser = p, pa_out = \<lparr>po_content = [], po_reasoning = None, po_calls = []\<rparr>\<rparr>"

fun take_piece :: "piece \<Rightarrow> parsed_output \<Rightarrow> parsed_output" where
  "take_piece (Reasoning r) out = out\<lparr>po_reasoning := Some (unwrap_or (po_reasoning out) [] @ r)\<rparr>"
| "take_piece (Content c) out = out\<lparr>po_content := po_content out @ c\<rparr>"
| "take_piece (Calls cs) out = out\<lparr>po_calls := po_calls out @ cs\<rparr>"

definition parsed_take :: "piece list \<Rightarrow> parsed_output \<Rightarrow> parsed_output" where
  "parsed_take ps out = fold take_piece ps out"

definition parsed_push :: "text_env \<Rightarrow> utext \<Rightarrow> parsed \<Rightarrow> parsed option" where
  "parsed_push E t a =
     (case pa_parser a of
        None \<Rightarrow> Some (a\<lparr>pa_out := (pa_out a)\<lparr>po_content := po_content (pa_out a) @ t\<rparr>\<rparr>)
      | Some p \<Rightarrow> do {
          (ps, p) \<leftarrow> op_push E t p;
          Some (a\<lparr>pa_parser := Some p, pa_out := parsed_take ps (pa_out a)\<rparr>) })"

definition parsed_finish :: "finish_reason \<Rightarrow> parsed \<Rightarrow> parsed_output \<times> finish_reason" where
  "parsed_finish why a =
     (case pa_parser a of
        None \<Rightarrow> (pa_out a, why)
      | Some p \<Rightarrow> (let (ps, p) = op_finish p in
          (parsed_take ps (pa_out a), if saw_tool_calls p then ToolCalls else why)))"

fun piece_chunk :: "chunk_id \<Rightarrow> piece \<Rightarrow> stream_chunk" where
  "piece_chunk i (Reasoning r) = chunk_reasoning i r"
| "piece_chunk i (Content c) = chunk_content i c"
| "piece_chunk i (Calls cs) = chunk_tool_calls i cs"

definition parsed_stream :: "text_env \<Rightarrow> chunk_id \<Rightarrow> utext \<Rightarrow> parsed \<Rightarrow> (stream_chunk list \<times> parsed) option" where
  "parsed_stream E i t a =
     (case pa_parser a of
        None \<Rightarrow> Some ([chunk_content i t], a)
      | Some p \<Rightarrow> do {
          (ps, p) \<leftarrow> op_push E t p;
          Some (map (piece_chunk i) ps, a\<lparr>pa_parser := Some p\<rparr>) })"

definition parsed_finish_stream :: "chunk_id \<Rightarrow> finish_reason \<Rightarrow> parsed \<Rightarrow> (finish_reason \<times> stream_chunk list) \<times> parsed" where
  "parsed_finish_stream i why a =
     (case pa_parser a of
        None \<Rightarrow> ((why, []), a)
      | Some p \<Rightarrow> (let (ps, p) = op_finish p in
          ((if saw_tool_calls p then ToolCalls else why, map (piece_chunk i) ps), a\<lparr>pa_parser := Some p\<rparr>)))"

section \<open>One response body (api.rs)\<close>

definition wrong_worker :: error where
  "wrong_worker = Engine_error (''a worker of the wrong kind answered a generation request; ''
     @ ''this model's queue has the wrong kind of worker on it'')"

record collecting =
  c_accs :: "parsed list"
  c_finishes :: "finish_reason option list"
  c_usage :: usage
  c_logprobs :: "logprob_entry list option"
  c_deltas :: "utext list"
  c_ended :: nat
  c_stored :: "(string \<times> cached_response) list"
  c_released :: bool
  c_stats :: gateway_stats

definition choices_wanted :: "prepared \<Rightarrow> nat" where
  "choices_wanted pr = max (n_choices (job_params (pr_job pr))) 1"

definition collect_start :: "prepared \<Rightarrow> output_parser option \<Rightarrow> gateway_stats \<Rightarrow> collecting" where
  "collect_start pr parser g =
     (let n = choices_wanted pr in
      \<lparr>c_accs = replicate n (parsed_new parser), c_finishes = replicate n None, c_usage = usage_new (pr_prompt_tokens pr) 0,
       c_logprobs = None, c_deltas = [], c_ended = 0, c_stored = [], c_released = False, c_stats = g\<rparr>)"

text \<open>What the body of the loop does after an event: go on, leave the loop, or return an error.\<close>

datatype 's flow = Go 's | Leave 's | Fail error 's

definition collect_token ::
  "'m gateway \<Rightarrow> nat \<Rightarrow> utext \<Rightarrow> f32 option \<Rightarrow> token_logprob list option \<Rightarrow> collecting \<Rightarrow> collecting option" where
  "collect_token gw ch t lp tops c = do {
     lps \<leftarrow> (case lp of
               None \<Rightarrow> Some (c_logprobs c)
             | Some lp \<Rightarrow> map_option (\<lambda>e. Some (unwrap_or (c_logprobs c) [] @ [e])) (logprob_entry gw t lp (unwrap_or tops [])));
     accs \<leftarrow> (if ch < length (c_accs c)
              then map_option (\<lambda>a. (c_accs c)[ch := a]) (parsed_push (gw_env gw) t (c_accs c ! ch))
              else Some (c_accs c));
     Some (c\<lparr>c_logprobs := lps, c_accs := accs, c_deltas := (if ch = 0 then c_deltas c @ [t] else c_deltas c)\<rparr>) }"

definition collect_done :: "'m gateway \<Rightarrow> prepared \<Rightarrow> nat \<Rightarrow> finish_reason \<Rightarrow> nat \<Rightarrow> nat \<Rightarrow> collecting \<Rightarrow> collecting flow" where
  "collect_done gw pr ch why p n c =
     (let new = ch < length (c_finishes c) \<and> c_finishes c ! ch = None;
          c = (if new then c\<lparr>c_finishes := (c_finishes c)[ch := Some why], c_ended := c_ended c + 1\<rparr> else c);
          c = c\<lparr>c_usage := usage_new p (us_completion_tokens (c_usage c) + n)\<rparr>;
          c = (if ch = 0 then c\<lparr>c_stored := c_stored c @ remember gw pr (c_deltas c) why (c_usage c), c_deltas := []\<rparr> else c)
      in if c_ended c \<ge> choices_wanted pr then Leave c else Go c)"

definition collect_event :: "'m gateway \<Rightarrow> prepared \<Rightarrow> stream_event \<Rightarrow> collecting \<Rightarrow> collecting flow option" where
  "collect_event gw pr ev c =
     (case ev of
        EvStarted _ \<Rightarrow> Some (Go (c\<lparr>c_released := True\<rparr>))
      | EvDecided _ _ \<Rightarrow> Some (Fail wrong_worker c)
      | EvTranscribed _ _ _ \<Rightarrow> Some (Fail wrong_worker c)
      | EvToken ch t lp tops \<Rightarrow> map_option Go (collect_token gw ch t lp tops c)
      | EvDone ch why p n \<Rightarrow> Some (collect_done gw pr ch why p n c)
      | EvFailed m \<Rightarrow> Some (Fail (Engine_error m) (c\<lparr>c_stats := count_failed (c_stats c)\<rparr>)))"

fun collect_loop ::
  "'m gateway \<Rightarrow> ('p \<Rightarrow> error + delta_msg) \<Rightarrow> prepared \<Rightarrow> 'p received list \<Rightarrow> token_stream \<Rightarrow> collecting \<Rightarrow> (error option \<times> collecting) option" where
  "collect_loop gw decode pr [] ts c = Some (None, c)"
| "collect_loop gw decode pr (rcv # rcvs) ts c =
     (case stream_next decode rcv ts of
        (Inl e, ts) \<Rightarrow> Some (Some e, c)
      | (Inr ev, ts) \<Rightarrow>
          Option.bind (collect_event gw pr ev c)
            (\<lambda>fl. case fl of Go c \<Rightarrow> collect_loop gw decode pr rcvs ts c | Leave c \<Rightarrow> Some (None, c) | Fail e c \<Rightarrow> Some (Some e, c)))"

record collected =
  co_out :: parsed_output
  co_finish :: finish_reason
  co_usage :: usage
  co_logprob_entries :: "logprob_entry list option"
  co_rest :: "(utext \<times> finish_reason) list"

definition finish_of :: "finish_reason option list \<Rightarrow> nat \<Rightarrow> finish_reason" where
  "finish_of fs i = (if i < length fs then unwrap_or (fs ! i) Stop else Stop)"

definition collect_finish :: "collecting \<Rightarrow> collected option" where
  "collect_finish c =
     (case map (\<lambda>(i, a). parsed_finish (finish_of (c_finishes c) i) a) (enumerate 0 (c_accs c)) of
        [] \<Rightarrow> None
      | (out, fin) # outs \<Rightarrow>
          Some \<lparr>co_out = out, co_finish = fin, co_usage = c_usage c, co_logprob_entries = c_logprobs c,
                co_rest = map (\<lambda>(out, fin). (po_content out, fin)) outs\<rparr>)"

definition collect ::
  "'m gateway \<Rightarrow> ('p \<Rightarrow> error + delta_msg) \<Rightarrow> prepared \<Rightarrow> output_parser option \<Rightarrow> error + unit \<Rightarrow> 'p received list \<Rightarrow> gateway_stats \<Rightarrow>
     ((error + collected) \<times> collecting) option" where
  "collect gw decode pr parser opened rcvs g =
     (let c = collect_start pr parser g in
      case opened of
        Inl e \<Rightarrow> Some (Inl e, c)
      | Inr _ \<Rightarrow> do {
          (err, c) \<leftarrow> collect_loop gw decode pr rcvs (open_stream gw) c;
          (case err of
             Some e \<Rightarrow> Some (Inl e, c)
           | None \<Rightarrow> do {
               out \<leftarrow> collect_finish c;
               let rec = outcome pr (kind_name (job_kind (pr_job pr))) (c_usage c) (choices_wanted pr)
                           (finish_of (c_finishes c) 0) False False;
               Some (Inr out, c\<lparr>c_stats := stats_record rec (c_stats c)\<rparr>) }) })"

section \<open>A stream of chunks (api.rs)\<close>

datatype sse_item = Data stream_chunk | DoneMark

record streaming =
  s_accs :: "parsed list"
  s_completion_tokens :: nat
  s_prompt_tokens :: nat
  s_deltas :: "utext list"
  s_choices_left :: nat
  s_stored :: "(string \<times> cached_response) list"
  s_released :: bool
  s_finished :: bool
  s_stats :: gateway_stats

definition sse_start :: "prepared \<Rightarrow> output_parser option \<Rightarrow> gateway_stats \<Rightarrow> streaming" where
  "sse_start pr parser g =
     \<lparr>s_accs = replicate (choices_wanted pr) (parsed_new parser), s_completion_tokens = 0,
      s_prompt_tokens = pr_prompt_tokens pr, s_deltas = [], s_choices_left = choices_wanted pr, s_stored = [],
      s_released = False, s_finished = False, s_stats = g\<rparr>"

text \<open>The first chunk of a token carries its logprob.\<close>

definition attach_logprob ::
  "'m gateway \<Rightarrow> utext \<Rightarrow> f32 option \<Rightarrow> token_logprob list option \<Rightarrow> stream_chunk list \<Rightarrow> stream_chunk list option" where
  "attach_logprob gw t lp tops chunks =
     (case (lp, chunks) of
        (Some lp, chunk # chunks') \<Rightarrow>
          map_option (\<lambda>e. chunk_with_logprobs e chunk # chunks') (logprob_entry gw t lp (unwrap_or tops []))
      | _ \<Rightarrow> Some chunks)"

definition sse_token ::
  "'m gateway \<Rightarrow> prepared \<Rightarrow> chunk_id \<Rightarrow> nat \<Rightarrow> utext \<Rightarrow> f32 option \<Rightarrow> token_logprob list option \<Rightarrow> streaming \<Rightarrow>
     (stream_chunk list \<times> streaming) option" where
  "sse_token gw pr i ch t lp tops s =
     (let s = s\<lparr>s_completion_tokens := s_completion_tokens s + 1,
                s_deltas := (if ch = 0 \<and> pr_cache_key pr \<noteq> None then s_deltas s @ [t] else s_deltas s)\<rparr>
      in if ch < length (s_accs s) then do {
           (chunks, a) \<leftarrow> parsed_stream (gw_env gw) i t (s_accs s ! ch);
           chunks \<leftarrow> attach_logprob gw t lp tops chunks;
           Some (map (set_choice_index ch) chunks, s\<lparr>s_accs := (s_accs s)[ch := a]\<rparr>) }
         else Some ([], s))"

definition sse_done ::
  "'m gateway \<Rightarrow> prepared \<Rightarrow> chunk_id \<Rightarrow> nat \<Rightarrow> finish_reason \<Rightarrow> nat \<Rightarrow> nat \<Rightarrow> streaming \<Rightarrow> stream_chunk list \<times> streaming flow" where
  "sse_done gw pr i ch why p n s =
     (let s = (if ch = 0 then s\<lparr>s_prompt_tokens := p, s_completion_tokens := n,
                               s_stored := s_stored s @ remember gw pr (s_deltas s) why (usage_new p n), s_deltas := []\<rparr> else s);
          ((why, tail), s) = (if ch < length (s_accs s)
                              then apsnd (\<lambda>a. s\<lparr>s_accs := (s_accs s)[ch := a]\<rparr>) (parsed_finish_stream i why (s_accs s ! ch))
                              else ((why, []), s));
          chunks = map (set_choice_index ch) tail @ [chunk_finish_for i ch why];
          s = s\<lparr>s_choices_left := s_choices_left s - 1\<rparr>
      in if s_choices_left s > 0 then (chunks, Go s)
         else (let rec = outcome pr ''chat'' (usage_new (s_prompt_tokens s) (s_completion_tokens s)) (choices_wanted pr) why False True
               in (chunks, Leave (s\<lparr>s_stats := stats_record rec (s_stats s), s_finished := True\<rparr>))))"

definition sse_event ::
  "'m gateway \<Rightarrow> prepared \<Rightarrow> chunk_id \<Rightarrow> error + stream_event \<Rightarrow> streaming \<Rightarrow> (stream_chunk list \<times> streaming flow) option" where
  "sse_event gw pr i ev s =
     (case ev of
        Inr (EvStarted _) \<Rightarrow> Some ([], Go (s\<lparr>s_released := True\<rparr>))
      | Inr (EvDecided _ _) \<Rightarrow> Some ([chunk_finish i FinishError], Leave s)
      | Inr (EvTranscribed _ _ _) \<Rightarrow> Some ([chunk_finish i FinishError], Leave s)
      | Inr (EvToken ch t lp tops) \<Rightarrow> map_option (apsnd Go) (sse_token gw pr i ch t lp tops s)
      | Inr (EvDone ch why p n) \<Rightarrow> Some (sse_done gw pr i ch why p n s)
      | Inr (EvFailed m) \<Rightarrow>
          Some ([chunk_finish i FinishError], Leave (s\<lparr>s_stats := count_failed (s_stats s), s_finished := True\<rparr>))
      | Inl e \<Rightarrow> Some ([chunk_finish i FinishError], Leave s))"

fun sse_loop ::
  "'m gateway \<Rightarrow> ('p \<Rightarrow> error + delta_msg) \<Rightarrow> prepared \<Rightarrow> chunk_id \<Rightarrow> 'p received list \<Rightarrow> token_stream \<Rightarrow> streaming \<Rightarrow>
     (stream_chunk list \<times> streaming) option" where
  "sse_loop gw decode pr i [] ts s = Some ([], s)"
| "sse_loop gw decode pr i (rcv # rcvs) ts s =
     (case stream_next decode rcv ts of
        (ev, ts) \<Rightarrow> do {
          (chunks, fl) \<leftarrow> sse_event gw pr i ev s;
          (case fl of
             Go s \<Rightarrow> do { (more, s) \<leftarrow> sse_loop gw decode pr i rcvs ts s; Some (chunks @ more, s) }
           | Leave s \<Rightarrow> Some (chunks, s)
           | Fail e s \<Rightarrow> Some (chunks, s)) })"

definition sse_stream ::
  "'m gateway \<Rightarrow> ('p \<Rightarrow> error + delta_msg) \<Rightarrow> prepared \<Rightarrow> output_parser option \<Rightarrow> chunk_id \<Rightarrow> bool \<Rightarrow> 'p received list \<Rightarrow>
     gateway_stats \<Rightarrow> (sse_item list \<times> streaming) option" where
  "sse_stream gw decode pr parser i with_usage rcvs g = do {
     (chunks, s) \<leftarrow> sse_loop gw decode pr i rcvs (open_stream gw) (sse_start pr parser g);
     Some (map Data ([chunk_role i] @ chunks @
             (if with_usage then [chunk_usage_only i (usage_new (s_prompt_tokens s) (s_completion_tokens s))] else []))
           @ [DoneMark], s) }"

text \<open>\<open>CancelOnDrop\<close>: the worker is told to stop unless the stream ended by itself.\<close>

definition cancels :: "streaming \<Rightarrow> bool" where
  "cancels s = (\<not> s_finished s)"

section \<open>An answer from the cache (api.rs)\<close>

definition replay_chat ::
  "'m gateway \<Rightarrow> cached_response \<Rightarrow> output_parser option \<Rightarrow> nat \<Rightarrow> string \<Rightarrow> string \<Rightarrow> chat_response option" where
  "replay_chat gw hit parser now i m = do {
     acc \<leftarrow> for_each (parsed_push (gw_env gw)) (ca_tokens hit) (parsed_new parser);
     let (out, fin) = parsed_finish (ca_finish hit) acc;
     let u = usage_new (ca_prompt_tokens hit) (ca_completion_tokens hit);
     Some (with_parsed (po_reasoning out) (po_calls out) (chat_response_new now i m (po_content out) fin u)) }"

definition replay_delta :: "'m gateway \<Rightarrow> chunk_id \<Rightarrow> utext \<Rightarrow> stream_chunk list \<times> parsed \<Rightarrow> (stream_chunk list \<times> parsed) option" where
  "replay_delta gw i t = (\<lambda>(out, a). map_option (\<lambda>(chunks, a). (out @ chunks, a)) (parsed_stream (gw_env gw) i t a))"

definition replay_stream ::
  "'m gateway \<Rightarrow> cached_response \<Rightarrow> output_parser option \<Rightarrow> chunk_id \<Rightarrow> bool \<Rightarrow> sse_item list option" where
  "replay_stream gw hit parser i with_usage = do {
     (chunks, acc) \<leftarrow> for_each (replay_delta gw i) (ca_tokens hit) ([], parsed_new parser);
     let ((fin, tail), _) = parsed_finish_stream i (ca_finish hit) acc;
     let u = usage_new (ca_prompt_tokens hit) (ca_completion_tokens hit);
     Some (map Data ([chunk_role i] @ chunks @ tail @ [chunk_finish i fin] @ (if with_usage then [chunk_usage_only i u] else []))
           @ [DoneMark]) }"

section \<open>The bodies of the two endpoints (api.rs)\<close>

definition chat_answer :: "nat \<Rightarrow> string \<Rightarrow> string \<Rightarrow> collected \<Rightarrow> chat_response" where
  "chat_answer now i m co =
     (if co_rest co \<noteq> [] then with_choices now i m ((po_content (co_out co), co_finish co) # co_rest co) (co_usage co)
      else
        let resp = with_parsed (po_reasoning (co_out co)) (po_calls (co_out co))
                     (chat_response_new now i m (po_content (co_out co)) (co_finish co) (co_usage co))
        in case co_logprob_entries co of Some lps \<Rightarrow> chat_with_logprobs lps resp | None \<Rightarrow> resp)"

definition completion_answer :: "nat \<Rightarrow> string \<Rightarrow> string \<Rightarrow> collected \<Rightarrow> completion_response" where
  "completion_answer now i m co =
     (let resp = completion_response_new now i m (po_content (co_out co)) (co_finish co) (co_usage co)
      in case co_logprob_entries co of Some lps \<Rightarrow> completion_with_logprobs lps resp | None \<Rightarrow> resp)"

end
