(* ===== verification/Gateway_Run.thy ===== *)
theory Gateway_Run
  imports Gateway_Stream Worker_Runner
begin

text \<open>
  The two ways to consume a stream, on the deltas of one choice: what \<open>collect\<close> accumulates and what
  \<open>sse_stream\<close> sends are the same letters.  A stream that lost a delta is an error, so what both see
  is a run of consecutive deltas.
\<close>

section \<open>Pieces and letters\<close>

definition thoughts :: "letter list \<Rightarrow> utext" where
  "thoughts ls = List.map_filter (\<lambda>l. case l of Thought c \<Rightarrow> Some c | _ \<Rightarrow> None) ls"

definition saids :: "letter list \<Rightarrow> utext" where
  "saids ls = List.map_filter (\<lambda>l. case l of Said c \<Rightarrow> Some c | _ \<Rightarrow> None) ls"

definition calleds :: "letter list \<Rightarrow> tool_call list" where
  "calleds ls = List.map_filter (\<lambda>l. case l of Called c \<Rightarrow> Some c | _ \<Rightarrow> None) ls"

lemma map_filter_append: "List.map_filter f (xs @ ys) = List.map_filter f xs @ List.map_filter f ys"
  by (simp add: List.map_filter_def)

lemma map_filter_map_Some: "(\<And>x. f (g x) = Some x) \<Longrightarrow> List.map_filter f (map g xs) = xs"
  by (induction xs) (simp_all add: List.map_filter_simps)

lemma map_filter_map_None: "(\<And>x. f (g x) = None) \<Longrightarrow> List.map_filter f (map g xs) = []"
  by (induction xs) (simp_all add: List.map_filter_simps)

lemma kinds_simps [simp]:
  "thoughts (xs @ ys) = thoughts xs @ thoughts ys" "saids (xs @ ys) = saids xs @ saids ys" "calleds (xs @ ys) = calleds xs @ calleds ys"
  "thoughts [] = []" "saids [] = []" "calleds [] = []"
  "thoughts (map Thought t) = t" "thoughts (map Said t) = []" "thoughts (map Called cs) = []"
  "saids (map Thought t) = []" "saids (map Said t) = t" "saids (map Called cs) = []"
  "calleds (map Thought t) = []" "calleds (map Said t) = []" "calleds (map Called cs) = cs"
  by (simp_all add: thoughts_def saids_def calleds_def map_filter_append map_filter_map_Some map_filter_map_None List.map_filter_simps)

text \<open>The output that letters add to one.\<close>

definition add_letters :: "letter list \<Rightarrow> parsed_output \<Rightarrow> parsed_output" where
  "add_letters ls out =
     \<lparr>po_content = po_content out @ saids ls,
      po_reasoning = (if thoughts ls = [] then po_reasoning out else Some (unwrap_or (po_reasoning out) [] @ thoughts ls)),
      po_calls = po_calls out @ calleds ls\<rparr>"

lemma add_letters_Nil [simp]: "add_letters [] out = out"
  by (simp add: add_letters_def)

lemma add_letters_append: "add_letters (xs @ ys) out = add_letters ys (add_letters xs out)"
  by (auto simp: add_letters_def unwrap_or_def)

definition no_empty_thought :: "piece list \<Rightarrow> bool" where
  "no_empty_thought ps = (Reasoning [] \<notin> set ps)"

lemma take_piece_letters: "pc \<noteq> Reasoning [] \<Longrightarrow> take_piece pc out = add_letters (letters_of pc) out"
  by (cases pc) (auto simp: add_letters_def)

lemma parsed_take_letters: "no_empty_thought ps \<Longrightarrow> parsed_take ps out = add_letters (letters ps) out"
  by (induction ps arbitrary: out) (auto simp: parsed_take_def no_empty_thought_def add_letters_append take_piece_letters)

lemma op_content_thought: "r \<notin> set (fst (op_content t p)) \<or> r \<noteq> Reasoning []"
  by (auto simp: op_content_def Let_def split: if_splits)

lemma finish_tool_text_thought: "fst (finish_tool_text E t p) \<noteq> Reasoning []"
  by (simp add: finish_tool_text_def Let_def split: sum.splits)

lemma push_step_thought: "push_step E r p = Some (out, r', q) \<Longrightarrow> r \<noteq> [] \<Longrightarrow> no_empty_thought out"
  using op_content_thought finish_tool_text_thought
  by (fastforce simp: push_step_def no_empty_thought_def Let_def case_prod_beta split: bind_splits option.splits if_splits
      dest: str_find_Some [THEN iffD1])

lemma op_push_thought:
  "parser_ok p \<Longrightarrow> op_push E r p = Some (out, q) \<Longrightarrow> no_empty_thought out"
proof (induction "length r" arbitrary: r p out rule: less_induct)
  case less
  show ?case
  proof (cases "r = []")
    case False
    from push_step_ok [OF less.prems(1)] obtain o1 r1 p1 where s: "push_step E r p = Some (o1, r1, p1)" "parser_ok p1" by blast
    with less.prems(2) False obtain o2 where o: "op_push E r1 p1 = Some (o2, q)" "out = o1 @ o2"
      by (auto simp: op_push_step split: bind_splits)
    from push_step_smaller [OF _ False s(1)] less.prems(1) have "length r1 < length r" by (auto simp: parser_ok_def)
    from less.hyps [OF this s(2) o(1)] push_step_thought [OF s(1) False] o(2) show ?thesis by (auto simp: no_empty_thought_def)
  qed (use less.prems in \<open>simp add: no_empty_thought_def\<close>)
qed

section \<open>Feeding deltas\<close>

definition parsed_ok :: "parsed \<Rightarrow> bool" where
  "parsed_ok a = (case pa_parser a of None \<Rightarrow> True | Some p \<Rightarrow> parser_ok p)"

definition parsed_markers :: "parsed \<Rightarrow> utext set" where
  "parsed_markers a = (case pa_parser a of None \<Rightarrow> {} | Some p \<Rightarrow> format_markers (op_fmt p))"

lemma parsed_push_total: "parsed_ok a \<Longrightarrow> \<exists>b. parsed_push E t a = Some b \<and> parsed_ok b \<and> parsed_markers b = parsed_markers a"
  using op_push_total [of _ E t] by (cases "pa_parser a") (fastforce simp: parsed_push_def parsed_ok_def parsed_markers_def)+

lemma parsed_push_append:
  assumes "parsed_ok a" "uncut (parsed_markers a) t u" "parsed_push E t a = Some b"
  shows "parsed_push E (t @ u) a = parsed_push E u b"
proof (cases "pa_parser a")
  case (Some p)
  with assms obtain ps q where 1: "parser_ok p" "op_push E t p = Some (ps, q)" "b = a\<lparr>pa_parser := Some q, pa_out := parsed_take ps (pa_out a)\<rparr>"
    by (auto simp: parsed_ok_def parsed_push_def split: bind_splits)
  obtain ps' q' where 2: "parser_ok q" "op_push E u q = Some (ps', q')"
    using op_push_total [OF 1(1), of E t] op_push_total [of q E u] 1(2) by auto
  have "[] \<notin> format_markers (op_fmt p)" "uncut (format_markers (op_fmt p)) t u"
    using 1(1) assms(2) Some by (auto simp: parser_ok_def parsed_markers_def)
  from op_push_append [OF this 1(2) 2(2)] obtain o' where
    o: "op_push E (t @ u) p = Some (o', q')" "letters o' = letters ps @ letters ps'" by blast
  note nt = op_push_thought [OF 1(1) 1(2)] op_push_thought [OF 2] op_push_thought [OF 1(1) o(1)]
  show ?thesis using Some 1(3) 2(2) o nt by (simp add: parsed_push_def parsed_take_letters add_letters_append)
qed (use assms(3) in \<open>auto simp: parsed_push_def\<close>)

text \<open>No marker is cut by a boundary between deltas.\<close>

fun whole_markers :: "utext set \<Rightarrow> utext list \<Rightarrow> bool" where
  "whole_markers ms [] = True"
| "whole_markers ms (t # ts) = (uncut ms t (concat ts) \<and> whole_markers ms ts)"

lemma feed_concat:
  assumes "parsed_ok a" "whole_markers (parsed_markers a) ts" "ts \<noteq> []"
  shows "for_each (parsed_push E) ts a = parsed_push E (concat ts) a"
  using assms
proof (induction ts arbitrary: a)
  case (Cons t ts)
  from parsed_push_total [OF Cons.prems(1)] obtain b where
    b: "parsed_push E t a = Some b" "parsed_ok b" "parsed_markers b = parsed_markers a" by blast
  show ?case
  proof (cases "ts = []")
    case False
    from Cons.IH [OF b(2) _ False] b(3) Cons.prems(2) have "for_each (parsed_push E) ts b = parsed_push E (concat ts) b" by simp
    moreover have "parsed_push E (t @ concat ts) a = parsed_push E (concat ts) b"
      by (rule parsed_push_append [OF Cons.prems(1) _ b(1)]) (use Cons.prems(2) in simp)
    ultimately show ?thesis using b(1) by simp
  qed (use b(1) in simp)
qed simp

lemma feed_total: "parsed_ok a \<Longrightarrow> \<exists>b. for_each (parsed_push E) ts a = Some b \<and> parsed_ok b"
proof (induction ts arbitrary: a)
  case (Cons t ts)
  from parsed_push_total [OF Cons.prems, of E t] obtain b where "parsed_push E t a = Some b" "parsed_ok b" by blast
  with Cons.IH [OF this(2)] show ?case by simp
qed simp

lemma feed_plain:
  "pa_parser a = None \<Longrightarrow>
     for_each (parsed_push E) us a = Some (a\<lparr>pa_out := (pa_out a)\<lparr>po_content := po_content (pa_out a) @ concat us\<rparr>\<rparr>)"
  by (induction us arbitrary: a) (simp_all add: parsed_push_def)

section \<open>What the chunks carry\<close>

text \<open>
  What the chunks hold for a choice, in the order in which they are sent: the texts put together and the
  calls listed.  What a client makes of them is \<open>hears\<close> in \<open>Gateway_Client\<close>.
\<close>

definition call_of :: "tool_call_delta \<Rightarrow> tool_call" where
  "call_of d = \<lparr>tc_id = td_id d, tc_kind = td_kind d, tc_name = td_name d, tc_arguments = td_arguments d\<rparr>"

definition carry_choice :: "nat \<Rightarrow> chunk_choice \<Rightarrow> parsed_output \<Rightarrow> parsed_output" where
  "carry_choice k ch out =
     (if cc_index ch = k then
        (let d = cc_delta ch in
         \<lparr>po_content = po_content out @ unwrap_or (cd_content d) [],
          po_reasoning = (case cd_reasoning d of None \<Rightarrow> po_reasoning out | Some r \<Rightarrow> Some (unwrap_or (po_reasoning out) [] @ r)),
          po_calls = po_calls out @ map call_of (unwrap_or (cd_tool_calls d) [])\<rparr>)
      else out)"

definition carried :: "nat \<Rightarrow> stream_chunk list \<Rightarrow> parsed_output \<Rightarrow> parsed_output" where
  "carried k chunks out = fold (\<lambda>c. fold (carry_choice k) (sc_choices c)) chunks out"

definition finish_reasons :: "stream_chunk list \<Rightarrow> (nat \<times> string) list" where
  "finish_reasons chunks =
     List.map_filter (\<lambda>ch. map_option (Pair (cc_index ch)) (cc_finish_reason ch)) (concat (map sc_choices chunks))"

lemma carried_simps [simp]: "carried k [] out = out" "carried k (xs @ ys) out = carried k ys (carried k xs out)"
  by (simp_all add: carried_def)

lemma finish_reasons_simps [simp]: "finish_reasons [] = []" "finish_reasons (xs @ ys) = finish_reasons xs @ finish_reasons ys"
  by (simp_all add: finish_reasons_def map_filter_append List.map_filter_simps)

lemmas chunk_defs = chunk_of_def chunk_base_def chunk_content_def chunk_reasoning_def chunk_tool_calls_def chunk_role_def
  chunk_finish_def chunk_finish_for_def chunk_usage_only_def set_choice_index_def map_first_def default_delta_def
  chunk_with_logprobs_def

lemma call_of_delta: "call_of \<lparr>td_index = k, td_id = tc_id c, td_kind = tc_kind c, td_name = tc_name c, td_arguments = tc_arguments c\<rparr> = c"
  by (simp add: call_of_def)

lemma carried_piece: "carried k [set_choice_index k (piece_chunk i pc)] out = take_piece pc out"
  by (cases pc) (simp_all add: carried_def carry_choice_def chunk_defs unwrap_or_def Let_def comp_def case_prod_beta call_of_delta)

lemma carried_pieces: "carried k (map (set_choice_index k) (map (piece_chunk i) ps)) out = parsed_take ps out"
proof (induction ps arbitrary: out)
  case (Cons pc ps)
  have "carried k (map (set_choice_index k) (map (piece_chunk i) (pc # ps))) out =
      carried k (map (set_choice_index k) (map (piece_chunk i) ps)) (carried k [set_choice_index k (piece_chunk i pc)] out)"
    by (simp only: carried_simps(2) [symmetric]) simp
  with Cons show ?case by (simp add: carried_piece parsed_take_def)
qed (simp add: parsed_take_def)

lemma piece_no_finish: "finish_reasons (map (set_choice_index k) (map (piece_chunk i) ps)) = []"
proof (induction ps)
  case (Cons pc ps)
  then show ?case by (cases pc) (simp_all add: finish_reasons_def List.map_filter_simps chunk_defs)
qed simp

lemma carried_logprobs: "carried k (map (set_choice_index j) (chunk_with_logprobs e c # cs)) out = carried k (map (set_choice_index j) (c # cs)) out"
    "finish_reasons (map (set_choice_index j) (chunk_with_logprobs e c # cs)) = finish_reasons (map (set_choice_index j) (c # cs))"
  by (cases "sc_choices c"; simp add: carried_def carry_choice_def finish_reasons_def chunk_with_logprobs_def set_choice_index_def
      map_first_def List.map_filter_simps)+

lemma parsed_stream_carries:
  assumes "parsed_push E t a = Some a'" "pa_parser b = pa_parser a"
  shows "\<exists>chunks b'. parsed_stream E i t b = Some (chunks, b') \<and> pa_parser b' = pa_parser a' \<and>
    carried k (map (set_choice_index k) chunks) (pa_out a) = pa_out a' \<and> finish_reasons (map (set_choice_index k) chunks) = []"
proof (cases "pa_parser a")
  case None
  with assms show ?thesis
    using carried_piece [of k i "Content t" "pa_out a"] piece_no_finish [of k i "[Content t]"]
    by (auto simp: parsed_push_def parsed_stream_def)
next
  case (Some p)
  with assms obtain ps q where "op_push E t p = Some (ps, q)" "a' = a\<lparr>pa_parser := Some q, pa_out := parsed_take ps (pa_out a)\<rparr>"
    by (auto simp: parsed_push_def split: bind_splits)
  with assms(2) Some carried_pieces piece_no_finish show ?thesis by (simp add: parsed_stream_def)
qed

section \<open>A stream of one choice\<close>

fun plain_delta :: "delta \<Rightarrow> bool" where
  "plain_delta (Started _ _) = True"
| "plain_delta (Token ch _ _ _ _) = (ch = 0)"
| "plain_delta _ = False"

fun texts :: "delta list \<Rightarrow> utext list" where
  "texts [] = []"
| "texts (Token _ t _ _ _ # ds) = text_of t # texts ds"
| "texts (_ # ds) = texts ds"

fun has_logprob :: "delta \<Rightarrow> bool" where
  "has_logprob (Token _ _ _ lp _) = (lp \<noteq> None)"
| "has_logprob _ = False"

definition no_logprobs :: "delta list \<Rightarrow> bool" where
  "no_logprobs ds = list_all (\<lambda>d. \<not> has_logprob d) ds"

lemma next_in_order:
  assumes "decode p = Inr \<lparr>dm_seq = k, dm_delta = d\<rparr>" "expected (ts_check ts) = k"
  obtains ts' where "stream_next decode (Message p) ts = (Inr (event_of d), ts')" "expected (ts_check ts') = Suc k"
  using assms that by (simp add: stream_next_def observe_def Let_def)

lemma next_after_gap:
  assumes "decode p = Inr m" "dm_seq m > expected (ts_check ts)"
  shows "\<exists>e ts'. stream_next decode (Message p) ts = (Inl e, ts')"
  using assms by (simp add: stream_next_def observe_def Let_def)

definition decodes_all :: "'m tokenization \<Rightarrow> bool" where
  "decodes_all tok = (\<forall>i. tok_decode tok [i] \<noteq> None)"

lemma those_Some: "(\<And>x. x \<in> set xs \<Longrightarrow> f x \<noteq> None) \<Longrightarrow> \<exists>ys. those (map f xs) = Some ys"
proof (induction xs)
  case (Cons a xs)
  then obtain ys where "those (map f xs) = Some ys" by auto
  moreover from Cons.prems [of a] obtain y where "f a = Some y" by auto
  ultimately show ?case by simp
qed simp

lemma logprob_entry_total: "decodes_all (gw_tokenizer gw) \<Longrightarrow> \<exists>e. logprob_entry gw t lp tops = Some e"
  using those_Some [of tops "\<lambda>x. map_option (\<lambda>s. (s, tl_logprob x)) (tok_decode (gw_tokenizer gw) [tl_token_id x])"]
  by (auto simp: logprob_entry_def decodes_all_def)


text \<open>
  The two loops side by side: after the same deltas of choice 0 the body holds what a client of the
  stream was sent, and both have collected the same texts for the cache.
\<close>

definition in_step :: "prepared \<Rightarrow> collecting \<Rightarrow> streaming \<Rightarrow> parsed_output \<Rightarrow> bool" where
  "in_step pr c s carried_so_far =
     (\<exists>a b. c_accs c = [a] \<and> s_accs s = [b] \<and> parsed_ok a \<and> pa_parser b = pa_parser a \<and> carried_so_far = pa_out a \<and>
        c_finishes c = [None] \<and> c_ended c = 0 \<and> us_completion_tokens (c_usage c) = 0 \<and> s_choices_left s = 1 \<and> c_stored c = s_stored s \<and>
        (pr_cache_key pr \<noteq> None \<longrightarrow> s_deltas s = c_deltas c) \<and> c_stats c = s_stats s \<and>
        \<not> s_finished s)"

lemma token_in_step:
  assumes "in_step pr c s out" "decodes_all (gw_tokenizer gw)"
  shows "\<exists>c' s' chunks. collect_event gw pr (EvToken 0 t lp tops) c = Some (Go c') \<and>
    sse_event gw pr i (Inr (EvToken 0 t lp tops)) s = Some (chunks, Go s') \<and> finish_reasons chunks = [] \<and>
    in_step pr c' s' (carried 0 chunks out) \<and> c_deltas c' = c_deltas c @ [t] \<and>
    (\<exists>a. parsed_push (gw_env gw) t (c_accs c ! 0) = Some a \<and> c_accs c' = [a]) \<and> (lp = None \<longrightarrow> c_logprobs c' = c_logprobs c) \<and>
    c_stored c' = c_stored c \<and> c_stats c' = c_stats c"
proof -
  from assms(1) obtain a b where ab: "c_accs c = [a]" "s_accs s = [b]" "parsed_ok a" "pa_parser b = pa_parser a" "out = pa_out a"
    by (auto simp: in_step_def)
  from parsed_push_total [OF ab(3)] obtain a' where a': "parsed_push (gw_env gw) t a = Some a'" "parsed_ok a'" by blast
  from parsed_stream_carries [OF a'(1) ab(4), of i 0] obtain chunks b' where
    b': "parsed_stream (gw_env gw) i t b = Some (chunks, b')" "pa_parser b' = pa_parser a'"
      "carried 0 (map (set_choice_index 0) chunks) (pa_out a) = pa_out a'" "finish_reasons (map (set_choice_index 0) chunks) = []" by blast
  obtain chunks' where l: "attach_logprob gw t lp tops chunks = Some chunks'"
    "carried 0 (map (set_choice_index 0) chunks') (pa_out a) = pa_out a'" "finish_reasons (map (set_choice_index 0) chunks') = []"
  proof (cases "lp = None \<or> chunks = []")
    case True
    with b' that show ?thesis by (cases lp) (auto simp: attach_logprob_def)
  next
    case False
    then obtain l chunk rest where c: "lp = Some l" "chunks = chunk # rest" by (cases chunks) auto
    obtain e where "logprob_entry gw t l (unwrap_or tops []) = Some e" using logprob_entry_total [OF assms(2)] by blast
    with c b' carried_logprobs(1) [of 0 0 e chunk rest] carried_logprobs(2) [of 0 e chunk rest] show ?thesis by (intro that) (auto simp: attach_logprob_def)
  qed
  obtain lps where lps: "(case lp of None \<Rightarrow> Some (c_logprobs c)
      | Some lp \<Rightarrow> map_option (\<lambda>e. Some (unwrap_or (c_logprobs c) [] @ [e])) (logprob_entry gw t lp (unwrap_or tops []))) = Some lps"
    "lp = None \<longrightarrow> lps = c_logprobs c"
    using logprob_entry_total [OF assms(2)] by (cases lp) fastforce+
  have "collect_event gw pr (EvToken 0 t lp tops) c = Some (Go (c\<lparr>c_logprobs := lps, c_accs := [a'], c_deltas := c_deltas c @ [t]\<rparr>))"
    using ab a' lps by (simp add: collect_event_def collect_token_def)
  moreover have "\<exists>s'. sse_event gw pr i (Inr (EvToken 0 t lp tops)) s = Some (map (set_choice_index 0) chunks', Go s') \<and>
      in_step pr (c\<lparr>c_logprobs := lps, c_accs := [a'], c_deltas := c_deltas c @ [t]\<rparr>) s' (pa_out a')"
    using ab a' b' l assms(1) by (auto simp: sse_event_def sse_token_def Let_def in_step_def)
  ultimately show ?thesis using l(2,3) lps(2) a' ab by (fastforce)
qed


lemma prepend_twice:
  "Option.bind (map_option (\<lambda>(ys, s). (b @ ys, s)) x) (\<lambda>(ys, s). Some (a @ ys, s)) = map_option (\<lambda>(ys, s). (a @ b @ ys, s)) x"
  by (cases x) auto

lemma plain_in_step:
  assumes "list_all plain_delta ds" "map decode ps = map Inr (numbered k ds)" "expected (ts_check ts) = k"
    "in_step pr c s out" "decodes_all (gw_tokenizer gw)"
  obtains c' s' ts' chunks where
    "\<And>rest. collect_loop gw decode pr (map Message ps @ rest) ts c = collect_loop gw decode pr rest ts' c'"
    "\<And>rest. sse_loop gw decode pr i (map Message ps @ rest) ts s =
       map_option (\<lambda>(more, s). (chunks @ more, s)) (sse_loop gw decode pr i rest ts' s')"
    "expected (ts_check ts') = k + length ds" "in_step pr c' s' (carried 0 chunks out)" "finish_reasons chunks = []"
    "c_deltas c' = c_deltas c @ texts ds" "for_each (parsed_push (gw_env gw)) (texts ds) (c_accs c ! 0) = Some (c_accs c' ! 0)"
    "no_logprobs ds \<longrightarrow> c_logprobs c' = c_logprobs c" "c_stored c' = c_stored c" "c_stats c' = c_stats c"
  using assms
proof (induction ds arbitrary: thesis ps k ts c s out)
  case Nil
  then show ?case by (intro Nil.prems(1) [where c' = c and s' = s and ts' = ts and chunks = "[]"]) (auto simp: option.map_ident split_beta)
next
  case (Cons d ds)
  from Cons.prems(3) obtain p ps' where p: "ps = p # ps'" "decode p = Inr \<lparr>dm_seq = k, dm_delta = d\<rparr>"
    "map decode ps' = map Inr (numbered (Suc k) ds)" by (cases ps) auto
  from next_in_order [of decode, OF p(2) Cons.prems(4)] obtain ts1 where
    n: "stream_next decode (Message p) ts = (Inr (event_of d), ts1)" "expected (ts_check ts1) = Suc k" .
  have "\<exists>c1 s1 chunks1. collect_event gw pr (event_of d) c = Some (Go c1) \<and> sse_event gw pr i (Inr (event_of d)) s = Some (chunks1, Go s1) \<and>
      finish_reasons chunks1 = [] \<and> in_step pr c1 s1 (carried 0 chunks1 out) \<and> c_deltas c1 = c_deltas c @ texts [d] \<and>
      for_each (parsed_push (gw_env gw)) (texts [d]) (c_accs c ! 0) = Some (c_accs c1 ! 0) \<and>
      (\<not> has_logprob d \<longrightarrow> c_logprobs c1 = c_logprobs c) \<and> c_stored c1 = c_stored c \<and> c_stats c1 = c_stats c"
  proof (cases d)
    case (Token ch t j lp tops)
    with Cons.prems(2) have "ch = 0" by simp
    with Token token_in_step [OF Cons.prems(5,6), where t = "text_of t" and lp = lp and tops = tops and i = i] show ?thesis by fastforce
  qed (use Cons.prems(2,5) in \<open>auto simp: collect_event_def sse_event_def in_step_def\<close>)
  then obtain c1 s1 chunks1 where 1: "collect_event gw pr (event_of d) c = Some (Go c1)"
    "sse_event gw pr i (Inr (event_of d)) s = Some (chunks1, Go s1)" "finish_reasons chunks1 = []"
    "in_step pr c1 s1 (carried 0 chunks1 out)" "c_deltas c1 = c_deltas c @ texts [d]"
    "for_each (parsed_push (gw_env gw)) (texts [d]) (c_accs c ! 0) = Some (c_accs c1 ! 0)"
    "\<not> has_logprob d \<longrightarrow> c_logprobs c1 = c_logprobs c" "c_stored c1 = c_stored c" "c_stats c1 = c_stats c" by blast
  have t: "texts (d # ds) = texts [d] @ texts ds" by (cases d) simp_all
  from Cons.prems(2) have "list_all plain_delta ds" by simp
  note IH = Cons.IH [OF _ this p(3) n(2) 1(4) Cons.prems(6)]
  show ?case
  proof (rule IH)
    fix c' s' ts' chunks
    assume 2: "\<And>rest. collect_loop gw decode pr (map Message ps' @ rest) ts1 c1 = collect_loop gw decode pr rest ts' c'"
      "\<And>rest. sse_loop gw decode pr i (map Message ps' @ rest) ts1 s1 =
         map_option (\<lambda>(more, s). (chunks @ more, s)) (sse_loop gw decode pr i rest ts' s')"
      "expected (ts_check ts') = Suc k + length ds" "in_step pr c' s' (carried 0 chunks (carried 0 chunks1 out))" "finish_reasons chunks = []"
      "c_deltas c' = c_deltas c1 @ texts ds" "for_each (parsed_push (gw_env gw)) (texts ds) (c_accs c1 ! 0) = Some (c_accs c' ! 0)"
      "no_logprobs ds \<longrightarrow> c_logprobs c' = c_logprobs c1" "c_stored c' = c_stored c1" "c_stats c' = c_stats c1"
    show thesis
      by (rule Cons.prems(1) [where c' = c' and s' = s' and ts' = ts' and chunks = "chunks1 @ chunks"])
        (use 1 2 n p(1) t in \<open>auto simp: for_each_append prepend_twice no_logprobs_def\<close>)
  qed
qed


lemma parsed_finish_same:
  assumes "pa_parser b = pa_parser a"
  shows "\<exists>tail b'. parsed_finish_stream i why b = ((snd (parsed_finish why a), tail), b') \<and>
    carried k (map (set_choice_index k) tail) (pa_out a) = fst (parsed_finish why a) \<and> finish_reasons (map (set_choice_index k) tail) = []"
  using assms carried_pieces piece_no_finish
  by (cases "pa_parser a") (auto simp: parsed_finish_def parsed_finish_stream_def split: prod.splits)

lemma carried_finish [simp]: "carried k [chunk_finish_for i j why] out = out" "finish_reasons [chunk_finish_for i j why] = [(j, as_openai why)]"
  by (auto simp: carried_def carry_choice_def finish_reasons_def chunk_defs unwrap_or_def List.map_filter_simps)

lemma carried_error [simp]: "carried k [chunk_finish i why] out = out" "finish_reasons [chunk_finish i why] = [(0, as_openai why)]"
  by (auto simp: carried_def carry_choice_def finish_reasons_def chunk_defs unwrap_or_def List.map_filter_simps)

lemma carried_role [simp]: "carried k [chunk_role i] out = out" "finish_reasons [chunk_role i] = []"
  by (auto simp: carried_def carry_choice_def finish_reasons_def chunk_defs unwrap_or_def List.map_filter_simps)

lemma carried_usage [simp]: "carried k [chunk_usage_only i u] out = out" "finish_reasons [chunk_usage_only i u] = []"
  by (auto simp: carried_def finish_reasons_def chunk_defs List.map_filter_simps)

lemma done_in_step:
  assumes "in_step pr c s out" "choices_wanted pr = 1"
  shows "\<exists>c' s' chunks. collect_event gw pr (EvDone 0 why p n) c = Some (Leave c') \<and>
    sse_event gw pr i (Inr (EvDone 0 why p n)) s = Some (chunks, Leave s') \<and>
    carried 0 chunks out = fst (parsed_finish why (c_accs c ! 0)) \<and>
    finish_reasons chunks = [(0, as_openai (snd (parsed_finish why (c_accs c ! 0))))] \<and>
    c_accs c' = c_accs c \<and> c_finishes c' = [Some why] \<and> c_usage c' = usage_new p n \<and> c_logprobs c' = c_logprobs c \<and>
    c_stored c' = c_stored c @ remember gw pr (c_deltas c) why (usage_new p n) \<and>
    c_stats c' = c_stats c \<and>
    s_stored s' = c_stored c' \<and> s_finished s' \<and> s_prompt_tokens s' = p \<and> s_completion_tokens s' = n \<and>
    gs_completed (s_stats s') = gs_completed (c_stats c) + 1"
proof -
  from assms(1) obtain a b where ab: "c_accs c = [a]" "s_accs s = [b]" "pa_parser b = pa_parser a" "out = pa_out a" "s_choices_left s = 1"
      "c_finishes c = [None]" "c_ended c = 0" "us_completion_tokens (c_usage c) = 0" "c_stored c = s_stored s"
      "pr_cache_key pr \<noteq> None \<longrightarrow> s_deltas s = c_deltas c" "c_stats c = s_stats s"
    by (auto simp: in_step_def)
  have "remember gw pr (s_deltas s) why (usage_new p n) = remember gw pr (c_deltas c) why (usage_new p n)"
    using ab(10) by (auto simp: remember_def split: option.splits)
  moreover from parsed_finish_same [OF ab(3), of i why 0] obtain tail b' where
    "parsed_finish_stream i why b = ((snd (parsed_finish why a), tail), b')"
    "carried 0 (map (set_choice_index 0) tail) (pa_out a) = fst (parsed_finish why a)"
    "finish_reasons (map (set_choice_index 0) tail) = []" by blast
  ultimately show ?thesis using ab assms(2)
    by (simp add: collect_event_def collect_done_def sse_event_def sse_done_def Let_def stats_record_def)
qed


lemma numbered_split:
  assumes "map decode ps = map Inr (numbered k (ds @ [d]))"
  obtains ps' q where "ps = ps' @ [q]" "map decode ps' = map Inr (numbered k ds)" "decode q = Inr \<lparr>dm_seq = k + length ds, dm_delta = d\<rparr>"
proof -
  from assms have m: "map decode ps = map Inr (numbered k ds) @ [Inr \<lparr>dm_seq = k + length ds, dm_delta = d\<rparr>]"
    by (simp add: numbered_append)
  then have "ps \<noteq> []" by auto
  then obtain ps' q where "ps = ps' @ [q]" by (metis rev_exhaust)
  with m that show ?thesis by auto
qed

lemma delivered_stream:
  fixes gw :: "'m gateway" and decode :: "'p \<Rightarrow> error + delta_msg"
  assumes "list_all plain_delta ds" "map decode ps = map Inr (numbered 0 (ds @ [Done 0 why p n]))"
    "choices_wanted pr = 1" "parsed_ok (parsed_new parser)" "decodes_all (gw_tokenizer gw)"
  obtains a c chunks s lps where
    "for_each (parsed_push (gw_env gw)) (texts ds) (parsed_new parser) = Some a"
    "collect gw decode pr parser (Inr ()) (map Message ps @ rest) g =
       Some (Inr \<lparr>co_out = fst (parsed_finish why a), co_finish = snd (parsed_finish why a), co_usage = usage_new p n,
                  co_logprob_entries = lps, co_rest = []\<rparr>, c)"
    "c_stored c = remember gw pr (texts ds) why (usage_new p n)" "no_logprobs ds \<longrightarrow> lps = None"
    "sse_loop gw decode pr i (map Message ps @ rest) (open_stream gw) (sse_start pr parser g) = Some (chunks, s)"
    "carried 0 chunks (pa_out (parsed_new parser)) = fst (parsed_finish why a)"
    "finish_reasons chunks = [(0, as_openai (snd (parsed_finish why a)))]"
    "s_stored s = c_stored c" "s_finished s" "s_prompt_tokens s = p" "s_completion_tokens s = n"
    "gs_completed (s_stats s) = gs_completed (c_stats c)"
proof -
  from assms(2) obtain ps' q where q: "ps = ps' @ [q]" "map decode ps' = map Inr (numbered 0 ds)"
    "decode q = Inr \<lparr>dm_seq = 0 + length ds, dm_delta = Done 0 why p n\<rparr>" by (rule numbered_split)
  have st: "in_step pr (collect_start pr parser g) (sse_start pr parser g) (pa_out (parsed_new parser))"
    using assms(3,4) by (simp add: in_step_def collect_start_def sse_start_def Let_def usage_new_def)
  have ts: "expected (ts_check (open_stream gw)) = 0" by (simp add: open_stream_def stream_open_def fresh_check_def)
  obtain c' s' ts' chunks where r:
    "\<And>rest. collect_loop gw decode pr (map Message ps' @ rest) (open_stream gw) (collect_start pr parser g) = collect_loop gw decode pr rest ts' c'"
    "\<And>rest. sse_loop gw decode pr i (map Message ps' @ rest) (open_stream gw) (sse_start pr parser g) =
       map_option (\<lambda>(more, s). (chunks @ more, s)) (sse_loop gw decode pr i rest ts' s')"
    "expected (ts_check ts') = 0 + length ds" "in_step pr c' s' (carried 0 chunks (pa_out (parsed_new parser)))" "finish_reasons chunks = []"
    "c_deltas c' = c_deltas (collect_start pr parser g) @ texts ds"
    "for_each (parsed_push (gw_env gw)) (texts ds) (c_accs (collect_start pr parser g) ! 0) = Some (c_accs c' ! 0)"
    "no_logprobs ds \<longrightarrow> c_logprobs c' = c_logprobs (collect_start pr parser g)"
    "c_stored c' = c_stored (collect_start pr parser g)" "c_stats c' = c_stats (collect_start pr parser g)"
    by (rule plain_in_step [OF assms(1) q(2) ts st assms(5), where i = i]) (rule that, assumption+)
  from next_in_order [of decode, OF q(3) r(3)] obtain ts'' where
    n: "stream_next decode (Message q) ts' = (Inr (EvDone 0 why p n), ts'')" by auto
  have acc: "c_accs (collect_start pr parser g) ! 0 = parsed_new parser" and len: "length (c_accs c') = 1"
    using assms(3) r(4) by (auto simp: collect_start_def Let_def in_step_def)
  obtain a where a: "c_accs c' = [a]" "for_each (parsed_push (gw_env gw)) (texts ds) (parsed_new parser) = Some a"
    using r(7) acc len by (cases "c_accs c'") auto
  from done_in_step [OF r(4) assms(3), of gw why p n i, unfolded a(1) nth_Cons_0] obtain c'' s'' chunks' where d:
    "collect_event gw pr (EvDone 0 why p n) c' = Some (Leave c'')" "sse_event gw pr i (Inr (EvDone 0 why p n)) s' = Some (chunks', Leave s'')"
    "carried 0 chunks' (carried 0 chunks (pa_out (parsed_new parser))) = fst (parsed_finish why a)"
    "finish_reasons chunks' = [(0, as_openai (snd (parsed_finish why a)))]" "c_accs c'' = [a]" "c_finishes c'' = [Some why]"
    "c_usage c'' = usage_new p n" "c_logprobs c'' = c_logprobs c'" "c_stored c'' = c_stored c' @ remember gw pr (c_deltas c') why (usage_new p n)"
    "c_stats c'' = c_stats c'" "s_stored s'' = c_stored c''" "s_finished s''" "s_prompt_tokens s'' = p" "s_completion_tokens s'' = n"
    "gs_completed (s_stats s'') = gs_completed (c_stats c') + 1"
    by (elim exE conjE) (rule that, assumption+)
  have start: "c_deltas (collect_start pr parser g) = []" "c_logprobs (collect_start pr parser g) = None"
      "c_stored (collect_start pr parser g) = []"
    by (simp_all add: collect_start_def Let_def)
  have fin: "collect_finish c'' = Some \<lparr>co_out = fst (parsed_finish why a), co_finish = snd (parsed_finish why a),
      co_usage = usage_new p n, co_logprob_entries = c_logprobs c', co_rest = []\<rparr>"
    using d by (simp add: collect_finish_def finish_of_def unwrap_or_def split: prod.splits)
  show thesis
  proof (rule that)
    show "collect gw decode pr parser (Inr ()) (map Message ps @ rest) g =
        Some (Inr \<lparr>co_out = fst (parsed_finish why a), co_finish = snd (parsed_finish why a), co_usage = usage_new p n,
                  co_logprob_entries = c_logprobs c', co_rest = []\<rparr>,
          c''\<lparr>c_stats := stats_record (outcome pr (kind_name (job_kind (pr_job pr))) (c_usage c'') (choices_wanted pr)
                           (finish_of (c_finishes c'') 0) False False) (c_stats c'')\<rparr>)"
      using r(1) q(1) n d(1) fin by (simp add: collect_def Let_def)
    show "sse_loop gw decode pr i (map Message ps @ rest) (open_stream gw) (sse_start pr parser g) = Some (chunks @ chunks', s'')"
      using r(2) q(1) n d(2) by simp
  qed (use a d r start in \<open>simp_all add: stats_record_def\<close>)
qed


section \<open>Lost deltas\<close>

lemma numbered_seqs: "m \<in> set (numbered k ds) \<Longrightarrow> k \<le> dm_seq m"
  by (induction k ds rule: numbered.induct) auto

lemma plain_goes_on: "plain_delta d \<Longrightarrow> collect_event gw pr (event_of d) c = Some fl \<Longrightarrow> \<exists>c'. fl = Go c'"
  by (cases d) (auto simp: collect_event_def)

lemma nothing_lost:
  assumes "list_all plain_delta ds" "map decode ps = map Inr ms" "subseq ms (numbered k (ds @ [d]))"
    "\<lparr>dm_seq = k + length ds, dm_delta = d\<rparr> \<in> set ms" "expected (ts_check ts) = k"
    "collect_loop gw decode pr (map Message ps) ts c = Some (None, c')"
  shows "ms = numbered k (ds @ [d])"
  using assms
proof (induction ds arbitrary: ps ms k ts c)
  case Nil
  then have "ms \<noteq> []" by auto
  with Nil.prems(3) show ?case by (cases ms) (auto simp: subseq_Cons2_iff split: if_splits)
next
  case (Cons x ds)
  from Cons.prems(4) obtain m ms' where ms: "ms = m # ms'" by (cases ms) auto
  with Cons.prems(2) obtain p ps' where p: "ps = p # ps'" "decode p = Inr m" "map decode ps' = map Inr ms'" by (cases ps) auto
  show ?case
  proof (cases "m = \<lparr>dm_seq = k, dm_delta = x\<rparr>")
    case True
    with ms Cons.prems(3) have sub: "subseq ms' (numbered (Suc k) (ds @ [d]))" by simp
    from next_in_order [of decode p k x ts] True p(2) Cons.prems(5) obtain ts' where
      n: "stream_next decode (Message p) ts = (Inr (event_of x), ts')" "expected (ts_check ts') = Suc k" by metis
    from Cons.prems(1,6) p(1) n(1) obtain c1 where
      "collect_loop gw decode pr (map Message ps') ts' c1 = Some (None, c')"
      by (auto split: bind_splits flow.splits dest!: plain_goes_on)
    from Cons.IH [OF _ p(3) sub _ n(2) this] Cons.prems(1,4) ms True show ?thesis by auto
  next
    case False
    with ms Cons.prems(3) have "subseq (m # ms') (numbered (Suc k) (ds @ [d]))" by (simp add: subseq_Cons2_iff)
    then have "m \<in> set (numbered (Suc k) (ds @ [d]))" by (auto elim: list_emb_set [where x = m])
    then have "dm_seq m > expected (ts_check ts)" using numbered_seqs Cons.prems(5) by fastforce
    from next_after_gap [of decode p, OF p(2) this] Cons.prems(6) p(1) show ?thesis by auto
  qed
qed

text \<open>A stream that stops after plain deltas: with a gap, and without one.\<close>

lemma plain_stream:
  assumes "list_all plain_delta ds" "map decode ps = map Inr (numbered 0 ds)" "choices_wanted pr = 1"
    "parsed_ok (parsed_new parser)" "decodes_all (gw_tokenizer gw)"
  obtains a c s ts chunks where
    "\<And>rest. collect_loop gw decode pr (map Message ps @ rest) (open_stream gw) (collect_start pr parser g) = collect_loop gw decode pr rest ts c"
    "\<And>rest. sse_loop gw decode pr i (map Message ps @ rest) (open_stream gw) (sse_start pr parser g) =
       map_option (\<lambda>(more, s). (chunks @ more, s)) (sse_loop gw decode pr i rest ts s)"
    "expected (ts_check ts) = length ds" "for_each (parsed_push (gw_env gw)) (texts ds) (parsed_new parser) = Some a"
    "c_accs c = [a]" "carried 0 chunks (pa_out (parsed_new parser)) = pa_out a" "finish_reasons chunks = []"
    "c_finishes c = [None]" "us_completion_tokens (c_usage c) = 0" "c_stats c = g" "\<not> s_finished s"
proof -
  have st: "in_step pr (collect_start pr parser g) (sse_start pr parser g) (pa_out (parsed_new parser))"
    using assms(3,4) by (simp add: in_step_def collect_start_def sse_start_def Let_def usage_new_def)
  have ts: "expected (ts_check (open_stream gw)) = 0" by (simp add: open_stream_def stream_open_def fresh_check_def)
  obtain c' s' ts' chunks where r:
    "\<And>rest. collect_loop gw decode pr (map Message ps @ rest) (open_stream gw) (collect_start pr parser g) = collect_loop gw decode pr rest ts' c'"
    "\<And>rest. sse_loop gw decode pr i (map Message ps @ rest) (open_stream gw) (sse_start pr parser g) =
       map_option (\<lambda>(more, s). (chunks @ more, s)) (sse_loop gw decode pr i rest ts' s')"
    "expected (ts_check ts') = 0 + length ds" "in_step pr c' s' (carried 0 chunks (pa_out (parsed_new parser)))" "finish_reasons chunks = []"
    "for_each (parsed_push (gw_env gw)) (texts ds) (c_accs (collect_start pr parser g) ! 0) = Some (c_accs c' ! 0)"
    "c_stats c' = c_stats (collect_start pr parser g)"
    by (rule plain_in_step [OF assms(1,2) ts st assms(5), where i = i]) (rule that, assumption+)
  moreover have "c_accs (collect_start pr parser g) ! 0 = parsed_new parser" "c_stats (collect_start pr parser g) = g"
    using assms(3) by (simp_all add: collect_start_def Let_def)
  moreover from r(4) obtain a where "c_accs c' = [a]" "carried 0 chunks (pa_out (parsed_new parser)) = pa_out a"
      "c_finishes c' = [None]" "us_completion_tokens (c_usage c') = 0" "\<not> s_finished s'" by (auto simp: in_step_def)
  ultimately show thesis by (intro that [of ts' c' chunks s' a]) simp_all
qed

end
