(* ===== verification/Gateway_Client.thy ===== *)
theory Gateway_Client
  imports Gateway_Run
begin

text \<open>
  What a client of the stream makes of the chunks it receives.  The parts of a tool call belong together by
  their index: a delta with a new index opens a call, one with a known index continues it, its name and its
  arguments are appended.  The theory compares this with what the chunks carry: the texts always agree, the
  calls as long as one chunk brings them all.
\<close>

section \<open>The client\<close>

record client =
  cl_content :: utext
  cl_reasoning :: "utext option"
  cl_calls :: "(nat \<times> tool_call) list"

definition client_start :: client where
  "client_start = \<lparr>cl_content = [], cl_reasoning = None, cl_calls = []\<rparr>"

fun merge_call :: "tool_call_delta \<Rightarrow> (nat \<times> tool_call) list \<Rightarrow> (nat \<times> tool_call) list" where
  "merge_call d [] = [(td_index d, call_of d)]"
| "merge_call d ((k, c) # cs) =
     (if k = td_index d
      then (k, c\<lparr>tc_name := tc_name c @ td_name d, tc_arguments := tc_arguments c @ td_arguments d\<rparr>) # cs
      else (k, c) # merge_call d cs)"

definition hear_choice :: "nat \<Rightarrow> chunk_choice \<Rightarrow> client \<Rightarrow> client" where
  "hear_choice k ch cl =
     (if cc_index ch = k then
        (let d = cc_delta ch in
         \<lparr>cl_content = cl_content cl @ unwrap_or (cd_content d) [],
          cl_reasoning = (case cd_reasoning d of None \<Rightarrow> cl_reasoning cl | Some r \<Rightarrow> Some (unwrap_or (cl_reasoning cl) [] @ r)),
          cl_calls = fold merge_call (unwrap_or (cd_tool_calls d) []) (cl_calls cl)\<rparr>)
      else cl)"

definition hears :: "nat \<Rightarrow> stream_chunk list \<Rightarrow> client \<Rightarrow> client" where
  "hears k chunks cl = fold (\<lambda>c. fold (hear_choice k) (sc_choices c)) chunks cl"

definition brings_calls :: "stream_chunk \<Rightarrow> bool" where
  "brings_calls c = list_ex (\<lambda>ch. cd_tool_calls (cc_delta ch) \<noteq> None) (sc_choices c)"

lemma hears_simps [simp]:
  "hears k [] cl = cl" "hears k (c # cs) cl = hears k cs (fold (hear_choice k) (sc_choices c) cl)"
  by (simp_all add: hears_def)

lemma carried_Cons: "carried k (c # cs) out = carried k cs (fold (carry_choice k) (sc_choices c) out)"
  by (simp add: carried_def)

section \<open>Texts\<close>

definition same_texts :: "client \<Rightarrow> parsed_output \<Rightarrow> bool" where
  "same_texts cl out = (cl_content cl = po_content out \<and> cl_reasoning cl = po_reasoning out)"

lemma hear_choice_same: "same_texts cl out \<Longrightarrow> same_texts (hear_choice k ch cl) (carry_choice k ch out)"
  by (cases "cd_reasoning (cc_delta ch)") (auto simp: same_texts_def hear_choice_def carry_choice_def Let_def)

lemma hear_same_texts: "same_texts cl out \<Longrightarrow> same_texts (fold (hear_choice k) chs cl) (fold (carry_choice k) chs out)"
  by (induction chs arbitrary: cl out) (simp_all add: hear_choice_same)

lemma hears_same_texts: "same_texts cl out \<Longrightarrow> same_texts (hears k cs cl) (carried k cs out)"
  by (induction cs arbitrary: cl out) (simp_all add: carried_Cons hear_same_texts)

section \<open>Calls\<close>

lemma merge_call_new: "td_index d \<notin> fst ` set cs \<Longrightarrow> merge_call d cs = cs @ [(td_index d, call_of d)]"
  by (induction d cs rule: merge_call.induct) auto

lemma merge_distinct:
  "distinct (map td_index ds) \<Longrightarrow> fst ` set cs \<inter> td_index ` set ds = {} \<Longrightarrow>
   fold merge_call ds cs = cs @ map (\<lambda>d. (td_index d, call_of d)) ds"
proof (induction ds arbitrary: cs)
  case (Cons d ds)
  then have "merge_call d cs = cs @ [(td_index d, call_of d)]" by (intro merge_call_new) auto
  with Cons show ?case by auto
qed simp

text \<open>A chunk has at most one choice, and the indices of its calls differ.\<close>

definition well_indexed :: "stream_chunk \<Rightarrow> bool" where
  "well_indexed c \<longleftrightarrow> length (sc_choices c) \<le> 1 \<and>
     (\<forall>ch \<in> set (sc_choices c). distinct (map td_index (unwrap_or (cd_tool_calls (cc_delta ch)) [])))"

lemma no_calls_chunk:
  assumes "\<not> brings_calls c"
  shows "cl_calls (fold (hear_choice k) (sc_choices c) cl) = cl_calls cl"
    "po_calls (fold (carry_choice k) (sc_choices c) out) = po_calls out"
proof -
  have "\<forall>ch \<in> set chs. cd_tool_calls (cc_delta ch) = None \<Longrightarrow>
      cl_calls (fold (hear_choice k) chs cl) = cl_calls cl \<and> po_calls (fold (carry_choice k) chs out) = po_calls out" for chs
    by (induction chs arbitrary: cl out) (auto simp: hear_choice_def carry_choice_def unwrap_or_def Let_def)
  from this [of "sc_choices c"] assms show "cl_calls (fold (hear_choice k) (sc_choices c) cl) = cl_calls cl"
    "po_calls (fold (carry_choice k) (sc_choices c) out) = po_calls out"
    by (auto simp: brings_calls_def list_ex_iff)
qed

lemma no_calls:
  "list_all (\<lambda>c. \<not> brings_calls c) cs \<Longrightarrow>
   cl_calls (hears k cs cl) = cl_calls cl \<and> po_calls (carried k cs out) = po_calls out"
proof (induction cs arbitrary: cl out)
  case (Cons c cs)
  then show ?case by (simp add: carried_Cons no_calls_chunk)
qed simp

lemma calls_of_chunk:
  assumes "well_indexed c" "cl_calls cl = []" "po_calls out = []"
  shows "map snd (cl_calls (fold (hear_choice k) (sc_choices c) cl)) = po_calls (fold (carry_choice k) (sc_choices c) out)"
proof (cases "sc_choices c")
  case (Cons ch chs)
  with assms(1) have "chs = []" "distinct (map td_index (unwrap_or (cd_tool_calls (cc_delta ch)) []))"
    by (auto simp: well_indexed_def)
  with Cons assms(2,3) merge_distinct [of "unwrap_or (cd_tool_calls (cc_delta ch)) []" "[]"] show ?thesis
    by (simp add: hear_choice_def carry_choice_def Let_def comp_def)
qed (use assms in simp)

lemma one_chunk_of_calls:
  assumes "list_all well_indexed cs" "length (filter brings_calls cs) \<le> 1" "cl_calls cl = []" "po_calls out = []"
  shows "map snd (cl_calls (hears k cs cl)) = po_calls (carried k cs out)"
  using assms
proof (induction cs arbitrary: cl out)
  case (Cons c cs)
  show ?case
  proof (cases "brings_calls c")
    case True
    with Cons.prems(2) have "filter brings_calls cs = []" by simp
    then have "list_all (\<lambda>c. \<not> brings_calls c) cs" by (simp add: filter_empty_conv list_all_iff)
    note no_calls [OF this]
    then show ?thesis using calls_of_chunk [of c cl out k] Cons.prems by (simp add: carried_Cons)
  next
    case False
    have "map snd (cl_calls (hears k cs (fold (hear_choice k) (sc_choices c) cl))) =
        po_calls (carried k cs (fold (carry_choice k) (sc_choices c) out))"
      by (rule Cons.IH) (use Cons.prems no_calls_chunk [OF False] False in simp_all)
    then show ?thesis by (simp add: carried_Cons)
  qed
qed simp

text \<open>
  Each chunk numbers its calls from zero.  Calls that come in two chunks, as two blocks in one answer do,
  therefore share the index zero: a client glues the second call to the first.
\<close>

lemma call_blocks_collide:
  "cl_calls (hears 0 [chunk_tool_calls i [c1], chunk_tool_calls i [c2]] client_start) =
     [(0, c1\<lparr>tc_name := tc_name c1 @ tc_name c2, tc_arguments := tc_arguments c1 @ tc_arguments c2\<rparr>)]"
  "po_calls (carried 0 [chunk_tool_calls i [c1], chunk_tool_calls i [c2]] out) = po_calls out @ [c1, c2]"
  by (simp_all add: hear_choice_def carried_Cons carry_choice_def chunk_defs client_start_def unwrap_or_def call_of_def)

section \<open>The chunks of a stream\<close>

lemma well_indexed_set_choice [simp]: "well_indexed (set_choice_index j c) = well_indexed c"
  by (auto simp: well_indexed_def set_choice_index_def map_first_def split: list.splits)

lemma well_indexed_logprobs [simp]: "well_indexed (chunk_with_logprobs e c) = well_indexed c"
  by (auto simp: well_indexed_def chunk_with_logprobs_def map_first_def split: list.splits)

lemma well_indexed_chunks [simp]:
  "well_indexed (chunk_role i)" "well_indexed (chunk_content i t)" "well_indexed (chunk_finish i why)"
  "well_indexed (chunk_finish_for i j why)" "well_indexed (chunk_usage_only i u)"
  by (simp_all add: well_indexed_def chunk_defs unwrap_or_def)

lemma well_indexed_piece [simp]: "well_indexed (piece_chunk i pc)"
  by (cases pc) (simp_all add: well_indexed_def chunk_defs unwrap_or_def comp_def case_prod_beta enumerate_eq_zip)

lemma sse_event_indexed:
  assumes "sse_event gw pr i ev s = Some (chunks, fl)"
  shows "list_all well_indexed chunks"
  using assms
  by (auto simp: sse_event_def sse_token_def sse_done_def attach_logprob_def parsed_stream_def parsed_finish_stream_def Let_def
      list_all_iff split: sum.splits stream_event.splits if_splits option.splits list.splits bind_splits prod.splits)

lemma sse_loop_indexed: "sse_loop gw decode pr i rcvs ts s = Some (chunks, s') \<Longrightarrow> list_all well_indexed chunks"
proof (induction rcvs arbitrary: ts s chunks)
  case (Cons rcv rcvs)
  obtain ev ts1 where n: "stream_next decode rcv ts = (ev, ts1)" by fastforce
  with Cons.prems obtain chunks1 fl where e: "sse_event gw pr i ev s = Some (chunks1, fl)" by (auto split: bind_splits)
  with Cons n sse_event_indexed [OF e] show ?case by (cases fl) (auto split: bind_splits)
qed simp

end
