(* ===== verification/Cache_Replay.thy ===== *)
theory Cache_Replay
  imports Gateway_Run
begin

text \<open>
  A request that is served from the response cache has an id of its own, and the parser that reads the
  cached texts draws the ids of tool calls from it.  The theory shows that nothing else depends on the
  seed: two parsers that differ in it make the same pieces up to the ids of the calls.
\<close>

section \<open>Up to ids\<close>

definition erase_id :: "tool_call \<Rightarrow> tool_call" where
  "erase_id c = c\<lparr>tc_id := []\<rparr>"

fun erase_piece :: "piece \<Rightarrow> piece" where
  "erase_piece (Calls cs) = Calls (map erase_id cs)"
| "erase_piece pc = pc"

definition erase_output :: "parsed_output \<Rightarrow> parsed_output" where
  "erase_output out = out\<lparr>po_calls := map erase_id (po_calls out)\<rparr>"

text \<open>A response without what is drawn anew for each request: its id, its time and the ids of its calls.\<close>

definition erase_message :: "chat_message \<Rightarrow> chat_message" where
  "erase_message m = m\<lparr>cm_tool_calls := map_option (map erase_id) (cm_tool_calls m)\<rparr>"

definition erase_response :: "chat_response \<Rightarrow> chat_response" where
  "erase_response r =
     r\<lparr>rp_id := [], rp_created := 0, rp_choices := map (\<lambda>c. c\<lparr>ch_message := erase_message (ch_message c)\<rparr>) (rp_choices r)\<rparr>"

definition reseed :: "string \<Rightarrow> output_parser \<Rightarrow> output_parser" where
  "reseed sd p = p\<lparr>call_id_seed := sd\<rparr>"

lemma reseed_fields [simp]:
  "op_fmt (reseed sd p) = op_fmt p" "in_think (reseed sd p) = in_think p" "trim_leading (reseed sd p) = trim_leading p"
  "tool_buf (reseed sd p) = tool_buf p" "calls_made (reseed sd p) = calls_made p" "parser_ok (reseed sd p) = parser_ok p"
  "saw_tool_calls (reseed sd p) = saw_tool_calls p"
  by (simp_all add: reseed_def parser_ok_def saw_tool_calls_def)

lemma reseed_updates:
  "(reseed sd p)\<lparr>tool_buf := b\<rparr> = reseed sd (p\<lparr>tool_buf := b\<rparr>)" "(reseed sd p)\<lparr>in_think := x\<rparr> = reseed sd (p\<lparr>in_think := x\<rparr>)"
  "(reseed sd p)\<lparr>trim_leading := y\<rparr> = reseed sd (p\<lparr>trim_leading := y\<rparr>)" "(reseed sd p)\<lparr>calls_made := n\<rparr> = reseed sd (p\<lparr>calls_made := n\<rparr>)"
  "(reseed sd p)\<lparr>in_think := x, trim_leading := y\<rparr> = reseed sd (p\<lparr>in_think := x, trim_leading := y\<rparr>)"
  by (simp_all add: reseed_def)

lemma reseed_new: "parser_new fmt sd' = reseed sd' (parser_new fmt sd)"
  by (simp add: reseed_def parser_new_def)

section \<open>The parser\<close>

lemma op_content_reseed: "op_content t (reseed sd p) = apsnd (reseed sd) (op_content t p)"
  by (simp add: op_content_def Let_def reseed_updates)

lemma op_content_erase: "map erase_piece (fst (op_content t p)) = fst (op_content t p)"
  by (simp add: op_content_def Let_def)

lemma finish_tool_text_reseed:
  "erase_piece (fst (finish_tool_text E t (reseed sd p))) = erase_piece (fst (finish_tool_text E t p))"
  "snd (finish_tool_text E t (reseed sd p)) = reseed sd (snd (finish_tool_text E t p))"
  by (auto simp: finish_tool_text_def Let_def reseed_updates tool_call_function_def erase_id_def split: sum.splits)

lemma push_step_reseed:
  assumes "push_step E r p = Some (out, r', q)"
  shows "\<exists>out'. push_step E r (reseed sd p) = Some (out', r', reseed sd q) \<and> map erase_piece out' = map erase_piece out"
proof (cases "in_think p \<or> tool_buf p \<noteq> None")
  case True
  with assms finish_tool_text_reseed [of E _ sd "p\<lparr>tool_buf := None\<rparr>"] show ?thesis
    by (auto simp: push_step_def Let_def case_prod_beta reseed_updates split: bind_splits option.splits)
next
  case False
  with assms show ?thesis
    by (auto simp: push_step_def Let_def case_prod_beta op_content_reseed reseed_updates split: option.splits if_splits)
qed

lemma op_push_reseed:
  "parser_ok p \<Longrightarrow> op_push E r p = Some (out, q) \<Longrightarrow>
   \<exists>out'. op_push E r (reseed sd p) = Some (out', reseed sd q) \<and> map erase_piece out' = map erase_piece out"
proof (induction "length r" arbitrary: r p out rule: less_induct)
  case less
  show ?case
  proof (cases "r = []")
    case False
    from push_step_ok [OF less.prems(1)] obtain o1 r1 p1 where s: "push_step E r p = Some (o1, r1, p1)" "parser_ok p1" by blast
    with less.prems(2) False obtain o2 where o: "op_push E r1 p1 = Some (o2, q)" "out = o1 @ o2"
      by (auto simp: op_push_step split: bind_splits)
    from push_step_smaller [OF _ False s(1)] less.prems(1) have "length r1 < length r" by (auto simp: parser_ok_def)
    from less.hyps [OF this s(2) o(1)] push_step_reseed [OF s(1), of sd] o(2) False show ?thesis
      by (fastforce simp: op_push_step)
  qed (use less.prems in \<open>simp add: op_push_step\<close>)
qed

section \<open>An accumulator\<close>

definition same_but_ids :: "string \<Rightarrow> parsed \<Rightarrow> parsed \<Rightarrow> bool" where
  "same_but_ids sd a b \<longleftrightarrow> pa_parser b = map_option (reseed sd) (pa_parser a) \<and> erase_output (pa_out b) = erase_output (pa_out a)"

lemma erase_output_iff:
  "erase_output x = erase_output y \<longleftrightarrow>
   po_content x = po_content y \<and> po_reasoning x = po_reasoning y \<and> map erase_id (po_calls x) = map erase_id (po_calls y)"
  by (cases x; cases y) (auto simp: erase_output_def)

lemma take_piece_erase:
  assumes "erase_piece pc' = erase_piece pc" "erase_output out' = erase_output out"
  shows "erase_output (take_piece pc' out') = erase_output (take_piece pc out)"
proof (cases pc)
  case (Reasoning t)
  with assms(1) have "pc' = Reasoning t" by (cases pc') auto
  with assms(2) Reasoning show ?thesis by (simp add: erase_output_iff)
next
  case (Content t)
  with assms(1) have "pc' = Content t" by (cases pc') auto
  with assms(2) Content show ?thesis by (simp add: erase_output_iff)
next
  case (Calls cs)
  with assms(1) obtain cs' where "pc' = Calls cs'" "map erase_id cs' = map erase_id cs" by (cases pc') auto
  with assms(2) Calls show ?thesis by (simp add: erase_output_iff)
qed

lemma parsed_take_erase:
  "map erase_piece ps' = map erase_piece ps \<Longrightarrow> erase_output out' = erase_output out \<Longrightarrow>
   erase_output (parsed_take ps' out') = erase_output (parsed_take ps out)"
proof (induction ps arbitrary: ps' out out')
  case (Cons pc ps)
  from Cons.prems(1) obtain pc' rest where r: "ps' = pc' # rest" "erase_piece pc' = erase_piece pc" "map erase_piece rest = map erase_piece ps"
    by (cases ps') simp_all
  from Cons.IH [OF r(3) take_piece_erase [OF r(2) Cons.prems(2)]] show ?case by (simp add: parsed_take_def r(1))
qed (simp add: parsed_take_def)

lemma parsed_push_same:
  assumes "parsed_ok a" "same_but_ids sd a b" "parsed_push E t a = Some a'"
  shows "\<exists>b'. parsed_push E t b = Some b' \<and> same_but_ids sd a' b'"
proof (cases "pa_parser a")
  case None
  with assms(2,3) show ?thesis
    by (auto simp: same_but_ids_def parsed_push_def erase_output_iff)
next
  case (Some p)
  with assms obtain ps q where 1: "parser_ok p" "op_push E t p = Some (ps, q)" "a' = a\<lparr>pa_parser := Some q, pa_out := parsed_take ps (pa_out a)\<rparr>"
    by (auto simp: parsed_ok_def parsed_push_def split: bind_splits)
  from op_push_reseed [OF 1(1,2), of sd] obtain ps' where
    2: "op_push E t (reseed sd p) = Some (ps', reseed sd q)" "map erase_piece ps' = map erase_piece ps" by blast
  with assms(2) Some 1(3) parsed_take_erase [OF 2(2), of "pa_out b" "pa_out a"] show ?thesis
    by (simp add: same_but_ids_def parsed_push_def)
qed

lemma fresh_seed_same:
  "same_but_ids sd' (parsed_new (map_option (\<lambda>f. parser_new f sd) fmt)) (parsed_new (map_option (\<lambda>f. parser_new f sd') fmt))"
  by (cases fmt) (simp_all add: same_but_ids_def parsed_new_def reseed_new [of _ sd' sd])

lemma feed_same:
  "parsed_ok a \<Longrightarrow> same_but_ids sd a b \<Longrightarrow> for_each (parsed_push E) ts a = Some a' \<Longrightarrow>
   \<exists>b'. for_each (parsed_push E) ts b = Some b' \<and> same_but_ids sd a' b'"
proof (induction ts arbitrary: a b)
  case (Cons t ts)
  from parsed_push_total [OF Cons.prems(1), of E t] obtain a1 where a1: "parsed_push E t a = Some a1" "parsed_ok a1" by blast
  from parsed_push_same [OF Cons.prems(1,2) a1(1)] obtain b1 where b1: "parsed_push E t b = Some b1" "same_but_ids sd a1 b1" by blast
  from Cons.prems(3) a1(1) have "for_each (parsed_push E) ts a1 = Some a'" by simp
  with Cons.IH [OF a1(2) b1(2)] b1(1) show ?case by simp
qed simp

lemma op_finish_reseed: "op_finish (reseed sd p) = apsnd (reseed sd) (op_finish p)"
  by (simp add: op_finish_def reseed_updates split: option.splits)

lemma parsed_finish_same_ids:
  assumes "same_but_ids sd a b"
  shows "snd (parsed_finish why b) = snd (parsed_finish why a)"
    "erase_output (fst (parsed_finish why b)) = erase_output (fst (parsed_finish why a))"
  using assms parsed_take_erase [OF refl, of "pa_out b" "pa_out a"]
  by (auto simp: same_but_ids_def parsed_finish_def op_finish_reseed case_prod_beta split: option.splits)

section \<open>The body\<close>

lemma body_id:
  "rp_id (with_parsed r cs (chat_response_new now i m t fin u)) = i" "rp_created (with_parsed r cs (chat_response_new now i m t fin u)) = now"
  by (simp_all add: with_parsed_def chat_response_new_def map_first_def Let_def)

lemma erase_body:
  assumes "erase_output out' = erase_output out"
  shows "erase_response (with_parsed (po_reasoning out') (po_calls out') (chat_response_new now' i' m (po_content out') fin u)) =
    erase_response (with_parsed (po_reasoning out) (po_calls out) (chat_response_new now i m (po_content out) fin u))"
proof -
  have "po_content out' = po_content out" "po_reasoning out' = po_reasoning out" "map erase_id (po_calls out') = map erase_id (po_calls out)"
    using assms by (simp_all add: erase_output_iff)
  moreover from this(3) have "po_calls out' = [] \<longleftrightarrow> po_calls out = []" by (metis map_is_Nil_conv)
  ultimately show ?thesis
    by (auto simp: erase_response_def with_parsed_def chat_response_new_def map_first_def erase_message_def Let_def)
qed

end
