(* ===== verification/Gateway_Properties.thy ===== *)
theory Gateway_Properties
  imports Gateway_Client Cache_Replay
begin

text \<open>
  What the gateway guarantees to its clients, and where it does not, each property with an instance.
\<close>

section \<open>Streams\<close>

text \<open>
  C29: Both kinds of response say the same, except for tool calls in several blocks.  When the deltas of a
  request with one choice arrive without a loss, \<open>collect\<close> returns one body and \<open>sse_stream\<close> sends chunks;
  the chunks carry what the body holds, under the same finish reason and usage, both paths put the same
  entry into the response cache, and the stream ends with its end mark and no cancel.  A client of the
  stream, which puts tool calls together by their index, accumulates the body's content and reasoning, and
  its tool calls when at most one chunk brings any.  With two such chunks the indices collide:
  \<open>call_blocks_collide\<close>.
\<close>

theorem streaming_equals_collecting:
  assumes "list_all plain_delta ds" "map decode ps = map Inr (numbered 0 (ds @ [Done 0 why p n]))"
    "choices_wanted pr = 1" "parsed_ok (parsed_new parser)" "decodes_all (gw_tokenizer gw)"
  shows "\<exists>co c chunks s. collect gw decode pr parser (Inr ()) (map Message ps @ rest) g = Some (Inr co, c) \<and>
    sse_stream gw decode pr parser i with_usage (map Message ps @ rest) g = Some (map Data chunks @ [DoneMark], s) \<and>
    carried 0 chunks (pa_out (parsed_new parser)) = co_out co \<and>
    cl_content (hears 0 chunks client_start) = po_content (co_out co) \<and>
    cl_reasoning (hears 0 chunks client_start) = po_reasoning (co_out co) \<and>
    (length (filter brings_calls chunks) \<le> 1 \<longrightarrow> map snd (cl_calls (hears 0 chunks client_start)) = po_calls (co_out co)) \<and>
    finish_reasons chunks = [(0, as_openai (co_finish co))] \<and>
    co_usage co = usage_new p n \<and> (with_usage \<longrightarrow> last chunks = chunk_usage_only i (co_usage co)) \<and>
    s_stored s = c_stored c \<and> \<not> cancels s"
proof -
  obtain a c chunks s lps where d:
    "collect gw decode pr parser (Inr ()) (map Message ps @ rest) g =
       Some (Inr \<lparr>co_out = fst (parsed_finish why a), co_finish = snd (parsed_finish why a), co_usage = usage_new p n,
                  co_logprob_entries = lps, co_rest = []\<rparr>, c)"
    "sse_loop gw decode pr i (map Message ps @ rest) (open_stream gw) (sse_start pr parser g) = Some (chunks, s)"
    "carried 0 chunks (pa_out (parsed_new parser)) = fst (parsed_finish why a)"
    "finish_reasons chunks = [(0, as_openai (snd (parsed_finish why a)))]"
    "s_stored s = c_stored c" "s_finished s" "s_prompt_tokens s = p" "s_completion_tokens s = n"
    by (rule delivered_stream [OF assms, where rest = rest and g = g and i = i]) (rule that, assumption+)
  define tail where "tail = (if with_usage then [chunk_usage_only i (usage_new p n)] else [])"
  define all where "all = [chunk_role i] @ chunks @ tail"
  have s: "sse_stream gw decode pr parser i with_usage (map Message ps @ rest) g = Some (map Data all @ [DoneMark], s)"
    using d(2,7,8) by (simp add: sse_stream_def tail_def all_def)
  have h: "carried 0 all (pa_out (parsed_new parser)) = fst (parsed_finish why a)"
    "finish_reasons all = [(0, as_openai (snd (parsed_finish why a)))]"
    "with_usage \<longrightarrow> last all = chunk_usage_only i (usage_new p n)"
    unfolding tail_def all_def by (simp_all only: carried_simps carried_role finish_reasons_simps append_Nil d(3,4)) simp_all
  have "list_all well_indexed all" using sse_loop_indexed [OF d(2)] by (simp add: all_def tail_def)
  moreover have start: "same_texts client_start (pa_out (parsed_new parser))" "cl_calls client_start = []"
      "po_calls (pa_out (parsed_new parser)) = []"
    by (simp_all add: same_texts_def client_start_def parsed_new_def)
  ultimately have calls: "length (filter brings_calls all) \<le> 1 \<longrightarrow>
      map snd (cl_calls (hears 0 all client_start)) = po_calls (fst (parsed_finish why a))"
    using one_chunk_of_calls [of all client_start "pa_out (parsed_new parser)" 0] h(1) by auto
  have texts: "same_texts (hears 0 all client_start) (fst (parsed_finish why a))"
    using hears_same_texts [OF start(1), of 0 all] h(1) by simp
  show ?thesis
    by (rule exI, rule exI, rule exI, rule exI, rule conjI, rule d(1), rule conjI, rule s)
      (use h d(5,6) calls texts in \<open>simp add: cancels_def same_texts_def\<close>)
qed

text \<open>A gateway with the byte tokenizer, and messages that are their own encoding.\<close>

definition demo_text_env :: text_env where
  "demo_text_env = \<lparr>te_json = (\<lambda>_. None), te_json_prefix = (\<lambda>_. None), te_print = (\<lambda>_. []), te_float = (\<lambda>_. None),
     te_alphanumeric = (\<lambda>_. False), te_blake3_hex = (\<lambda>_. replicate 64 CHR ''0'')\<rparr>"

definition demo_gateway :: "unit gateway" where
  "demo_gateway = \<lparr>gw_env = demo_text_env, gw_tokenizer = Bytes (\<lambda>_. Inr []), gw_cache_open = True, gw_cache_on = True,
     gw_first_timeout = 60, gw_idle_timeout = 30\<rparr>"

definition demo_markers :: output_format where
  "demo_markers = \<lparr>think_open = None, think_close = Some (lit ''</think>''), tool_start = lit ''<|tool_call_start|>'',
     tool_end = lit ''<|tool_call_end|>'', fmt_syntax = PythonCall\<rparr>"

definition demo_prepared :: prepared where
  "demo_prepared = \<lparr>pr_request_id = ''r'',
     pr_job = \<lparr>job_request_id = ''r'', job_model = ''m'', job_kind = Chat, prompt_tokens = [1], job_params = default_params,
               job_namespace = ''t'', reply_to = ''vapi.stream.r'', enqueued_at_ms = 0, job_rows = [], job_audio = None\<rparr>,
     pr_created = 0, pr_prompt_tokens = 1, pr_cache_key = Some ''k''\<rparr>"

definition demo_deltas :: "delta list" where
  "demo_deltas = [Started ''w'' 0, Token 0 ''hm'' 1 None None, Token 0 ''</think>'' 2 None None, Token 0 ''hi'' 3 None None]"

definition demo_stats :: gateway_stats where
  "demo_stats = \<lparr>gs_started = 1, gs_completed = 0, gs_failed = 0, gs_refused = 0, gs_cache_hits = 0, gs_prompt_tokens = 0,
     gs_completion_tokens = 0, gs_recent = []\<rparr>"

lemma demo_ok:
  "list_all plain_delta demo_deltas" "choices_wanted demo_prepared = 1" "decodes_all (gw_tokenizer demo_gateway)"
  "parsed_ok (parsed_new (Some (parser_new demo_markers sd)))" "no_logprobs demo_deltas" "parsed_ok (parsed_new None)"
  by (simp_all add: demo_deltas_def choices_wanted_def demo_prepared_def default_params_def decodes_all_def demo_gateway_def
      parsed_ok_def parsed_new_def parser_ok_def parser_new_def demo_markers_def format_markers_def no_logprobs_def)

lemma demo_messages: "map Inr ms = map Inr ms" ..

theorem streaming_equals_collecting_witness:
  "\<exists>co c chunks s. collect demo_gateway Inr demo_prepared (Some (parser_new demo_markers ''r'')) (Inr ())
       (map Message (numbered 0 (demo_deltas @ [Done 0 Stop 1 3]))) demo_stats = Some (Inr co, c) \<and>
     sse_stream demo_gateway Inr demo_prepared (Some (parser_new demo_markers ''r'')) (''id'', ''m'', 0) True
       (map Message (numbered 0 (demo_deltas @ [Done 0 Stop 1 3]))) demo_stats = Some (map Data chunks @ [DoneMark], s) \<and>
     cl_content (hears 0 chunks client_start) = po_content (co_out co) \<and>
     cl_reasoning (hears 0 chunks client_start) = po_reasoning (co_out co)"
  using streaming_equals_collecting [OF demo_ok(1) _ demo_ok(2,4,3), where decode = Inr and ps = "numbered 0 (demo_deltas @ [Done 0 Stop 1 3])"
      and rest = "[]" and with_usage = True and i = "(''id'', ''m'', 0)" and g = demo_stats] by fastforce

text \<open>
  C30: A completion is whole.  When the deltas that arrive are some of those the worker numbered, in their
  order, and the last one among them, then \<open>collect\<close> returns a body only if none was lost; the body is then
  what the parser makes of the texts of all the deltas.
\<close>

theorem collected_answer_is_whole:
  assumes "list_all plain_delta ds" "map decode ps = map Inr ms" "subseq ms (numbered 0 (ds @ [Done 0 why p n]))"
    "\<lparr>dm_seq = length ds, dm_delta = Done 0 why p n\<rparr> \<in> set ms"
    "choices_wanted pr = 1" "parsed_ok (parsed_new parser)" "decodes_all (gw_tokenizer gw)"
    "collect gw decode pr parser (Inr ()) (map Message ps) g = Some (Inr co, c)"
  shows "ms = numbered 0 (ds @ [Done 0 why p n]) \<and>
    (\<exists>a. for_each (parsed_push (gw_env gw)) (texts ds) (parsed_new parser) = Some a \<and>
       parsed_finish why a = (co_out co, co_finish co)) \<and> co_usage co = usage_new p n"
proof -
  have ts: "expected (ts_check (open_stream gw)) = 0" by (simp add: open_stream_def stream_open_def fresh_check_def)
  from assms(8) obtain c' where "collect_loop gw decode pr (map Message ps) (open_stream gw) (collect_start pr parser g) = Some (None, c')"
    by (auto simp: collect_def Let_def split: bind_splits option.splits)
  from nothing_lost [OF assms(1,2,3) _ ts this] assms(4) have ms: "ms = numbered 0 (ds @ [Done 0 why p n])" by simp
  obtain a c2 lps where d: "for_each (parsed_push (gw_env gw)) (texts ds) (parsed_new parser) = Some a"
    "collect gw decode pr parser (Inr ()) (map Message ps @ []) g =
       Some (Inr \<lparr>co_out = fst (parsed_finish why a), co_finish = snd (parsed_finish why a), co_usage = usage_new p n,
                  co_logprob_entries = lps, co_rest = []\<rparr>, c2)"
    by (rule delivered_stream [OF assms(1) assms(2) [unfolded ms] assms(5-7), where rest = "[]" and g = g]) (rule that, assumption+)
  with assms(8) ms show ?thesis by auto
qed

theorem collected_answer_is_whole_witness:
  "\<exists>co c a. collect demo_gateway Inr demo_prepared None (Inr ())
       (map Message (numbered 0 (demo_deltas @ [Done 0 Stop 1 3]))) demo_stats = Some (Inr co, c) \<and>
     for_each (parsed_push (gw_env demo_gateway)) (texts demo_deltas) (parsed_new None) = Some a \<and> co_out co = fst (parsed_finish Stop a)"
proof -
  let ?ms = "numbered 0 (demo_deltas @ [Done 0 Stop 1 3])"
  obtain co c where c: "collect demo_gateway Inr demo_prepared None (Inr ()) (map Message ?ms) demo_stats = Some (Inr co, c)"
    by (rule delivered_stream [OF demo_ok(1) _ demo_ok(2,6,3), where decode = Inr and ps = ?ms and rest = "[]" and g = demo_stats]) auto
  from collected_answer_is_whole [OF demo_ok(1) _ _ _ demo_ok(2,6,3) c, where ms = ?ms] c show ?thesis
    by (fastforce simp: numbered_append)
qed

text \<open>
  C31: A cached answer is the answer.  A later request that hits the cache has an id and a time of its own,
  and its parser another seed, the request's id.  What the gateway stored when a request of one choice
  without logprobs finished gives back, replayed for the later request, the body the first was answered
  with: content, reasoning, finish reason, usage, and the names and arguments of the calls in their order.
  Only the response id, the time and the ids of the calls are new.
\<close>

theorem cached_answer_is_the_answer:
  assumes "list_all plain_delta ds" "map decode ps = map Inr (numbered 0 (ds @ [Done 0 why p n]))"
    "choices_wanted pr = 1" "parsed_ok (parsed_new (map_option (\<lambda>f. parser_new f sd) fmt))"
    "decodes_all (gw_tokenizer gw)" "no_logprobs ds"
    "collect gw decode pr (map_option (\<lambda>f. parser_new f sd) fmt) (Inr ()) (map Message ps) g = Some (Inr co, c)"
    "(key, hit) \<in> set (c_stored c)"
  shows "pr_cache_key pr = Some key \<and> why \<in> {Stop, Length} \<and>
    (\<exists>r. replay_chat gw hit (map_option (\<lambda>f. parser_new f sd') fmt) now' i' m = Some r \<and>
       rp_id r = i' \<and> rp_created r = now' \<and> erase_response r = erase_response (chat_answer now i m co))"
proof -
  let ?p = "map_option (\<lambda>f. parser_new f sd) fmt"
  obtain a c2 lps where d: "for_each (parsed_push (gw_env gw)) (texts ds) (parsed_new ?p) = Some a"
    "collect gw decode pr ?p (Inr ()) (map Message ps @ []) g =
       Some (Inr \<lparr>co_out = fst (parsed_finish why a), co_finish = snd (parsed_finish why a), co_usage = usage_new p n,
                  co_logprob_entries = lps, co_rest = []\<rparr>, c2)"
    "c_stored c2 = remember gw pr (texts ds) why (usage_new p n)" "no_logprobs ds \<longrightarrow> lps = None"
    by (rule delivered_stream [OF assms(1-5), where rest = "[]" and g = g]) (rule that, assumption+)
  with assms(6-8) have co: "co = \<lparr>co_out = fst (parsed_finish why a), co_finish = snd (parsed_finish why a), co_usage = usage_new p n,
                  co_logprob_entries = None, co_rest = []\<rparr>" and st: "(key, hit) \<in> set (remember gw pr (texts ds) why (usage_new p n))"
    by auto
  from st have h: "pr_cache_key pr = Some key" "why \<in> {Stop, Length}"
    "hit = \<lparr>ca_tokens = texts ds, ca_finish = why, ca_prompt_tokens = p, ca_completion_tokens = n\<rparr>"
    by (auto simp: remember_def usage_new_def split: option.splits if_splits)
  from feed_same [OF assms(4) fresh_seed_same d(1)] obtain b where b:
    "for_each (parsed_push (gw_env gw)) (texts ds) (parsed_new (map_option (\<lambda>f. parser_new f sd') fmt)) = Some b" "same_but_ids sd' a b"
    by blast
  from erase_body [OF parsed_finish_same_ids(2) [OF b(2), of why], of now' i' m "snd (parsed_finish why b)" "usage_new p n" now i]
    parsed_finish_same_ids(1) [OF b(2), of why] h b(1)
  show ?thesis by (auto simp: co replay_chat_def chat_answer_def Let_def case_prod_beta usage_new_def body_id)
qed

theorem cached_answer_is_the_answer_witness:
  "\<exists>co c hit r. collect demo_gateway Inr demo_prepared (Some (parser_new demo_markers ''r'')) (Inr ())
       (map Message (numbered 0 (demo_deltas @ [Done 0 Stop 1 3]))) demo_stats = Some (Inr co, c) \<and>
     c_stored c = [(''k'', hit)] \<and>
     replay_chat demo_gateway hit (Some (parser_new demo_markers ''r2'')) 9 ''id2'' ''m'' = Some r \<and>
     erase_response r = erase_response (chat_answer 7 ''id'' ''m'' co)"
proof -
  let ?ms = "numbered 0 (demo_deltas @ [Done 0 Stop 1 3])" and ?p = "map_option (\<lambda>f. parser_new f ''r'') (Some demo_markers)"
  have ok: "parsed_ok (parsed_new ?p)" using demo_ok(4) by simp
  obtain co c where c: "collect demo_gateway Inr demo_prepared ?p (Inr ()) (map Message ?ms) demo_stats = Some (Inr co, c)"
    "c_stored c = remember demo_gateway demo_prepared (texts demo_deltas) Stop (usage_new 1 3)"
    by (rule delivered_stream [OF demo_ok(1) _ demo_ok(2) ok demo_ok(3), where decode = Inr and ps = ?ms and rest = "[]" and g = demo_stats]) auto
  then obtain hit where h: "c_stored c = [(''k'', hit)]"
    by (simp add: remember_def demo_prepared_def demo_gateway_def)
  have "(''k'', hit) \<in> set (c_stored c)" using h by simp
  from cached_answer_is_the_answer [OF demo_ok(1) _ demo_ok(2) ok demo_ok(3,5) c(1) this, where now = 7 and i = "''id''" and m = "''m''"
      and sd' = "''r2''" and now' = 9 and i' = "''id2''"] c(1) h show ?thesis
    by fastforce
qed

text \<open>
  C32: A lost delta is an error in one path and an ordinary end in the other.  When a delta is missing after
  plain ones, \<open>collect\<close> refuses the request with a transport error, but \<open>sse_stream\<close> sends the text so far,
  one chunk with the finish reason \<open>stop\<close> and the end mark, which no client can tell from a complete answer.
\<close>

theorem lost_delta_streams_as_stop:
  assumes "list_all plain_delta ds" "map decode ps = map Inr (numbered 0 ds)" "choices_wanted pr = 1"
    "parsed_ok (parsed_new parser)" "decodes_all (gw_tokenizer gw)"
    "decode q = Inr m" "dm_seq m > length ds"
  shows "(\<exists>msg c. collect gw decode pr parser (Inr ()) (map Message (ps @ [q]) @ rest) g = Some (Inl (Transport_error msg), c)) \<and>
    (\<exists>a chunks s. for_each (parsed_push (gw_env gw)) (texts ds) (parsed_new parser) = Some a \<and>
       sse_stream gw decode pr parser i with_usage (map Message (ps @ [q]) @ rest) g = Some (map Data chunks @ [DoneMark], s) \<and>
       carried 0 chunks (pa_out (parsed_new parser)) = pa_out a \<and> finish_reasons chunks = [(0, as_openai Stop)] \<and> cancels s)"
proof -
  obtain a c s ts chunks where r:
    "\<And>rest. collect_loop gw decode pr (map Message ps @ rest) (open_stream gw) (collect_start pr parser g) = collect_loop gw decode pr rest ts c"
    "\<And>rest. sse_loop gw decode pr i (map Message ps @ rest) (open_stream gw) (sse_start pr parser g) =
       map_option (\<lambda>(more, s). (chunks @ more, s)) (sse_loop gw decode pr i rest ts s)"
    "expected (ts_check ts) = length ds" "for_each (parsed_push (gw_env gw)) (texts ds) (parsed_new parser) = Some a"
    "carried 0 chunks (pa_out (parsed_new parser)) = pa_out a" "finish_reasons chunks = []" "\<not> s_finished s"
    by (rule plain_stream [OF assms(1-5), where g = g and i = i]) (rule that, assumption+)
  obtain msg ts' where n: "stream_next decode (Message q) ts = (Inl (Transport_error msg), ts')"
    using assms(6,7) r(3) by (simp add: stream_next_def observe_def Let_def)
  define tail where "tail = (if with_usage then [chunk_usage_only i (usage_new (s_prompt_tokens s) (s_completion_tokens s))] else [])"
  have s: "sse_stream gw decode pr parser i with_usage (map Message (ps @ [q]) @ rest) g =
      Some (map Data ([chunk_role i] @ (chunks @ [chunk_finish i FinishError]) @ tail) @ [DoneMark], s)"
    using r(2) n by (simp add: sse_stream_def sse_event_def tail_def)
  have h: "carried 0 ([chunk_role i] @ (chunks @ [chunk_finish i FinishError]) @ tail) (pa_out (parsed_new parser)) = pa_out a"
    "finish_reasons ([chunk_role i] @ (chunks @ [chunk_finish i FinishError]) @ tail) = [(0, as_openai Stop)]"
    unfolding tail_def by (simp_all only: carried_simps carried_role carried_error finish_reasons_simps append_Nil r(5,6)) simp_all
  have "collect gw decode pr parser (Inr ()) (map Message (ps @ [q]) @ rest) g = Some (Inl (Transport_error msg), c)"
    using r(1) n by (simp add: collect_def Let_def)
  moreover have "cancels s" using r(7) by (simp add: cancels_def)
  ultimately show ?thesis using s h r(4) by blast
qed

theorem lost_delta_streams_as_stop_witness:
  "\<exists>a chunks s. for_each (parsed_push demo_text_env) (texts demo_deltas) (parsed_new None) = Some a \<and>
     sse_stream demo_gateway Inr demo_prepared None (''id'', ''m'', 0) False
       (map Message (numbered 0 demo_deltas @ [\<lparr>dm_seq = 5, dm_delta = Done 0 Length 1 9\<rparr>]) @ []) demo_stats =
         Some (map Data chunks @ [DoneMark], s) \<and>
     carried 0 chunks (pa_out (parsed_new None)) = pa_out a \<and> finish_reasons chunks = [(0, ''stop'')]"
proof -
  have "length demo_deltas < dm_seq \<lparr>dm_seq = 5, dm_delta = Done 0 Length 1 9\<rparr>" by (simp add: demo_deltas_def)
  from lost_delta_streams_as_stop [OF demo_ok(1) _ demo_ok(2,6,3) _ this, where decode = Inr and ps = "numbered 0 demo_deltas"
      and q = "\<lparr>dm_seq = 5, dm_delta = Done 0 Length 1 9\<rparr>" and rest = "[]" and g = demo_stats and with_usage = False
      and i = "(''id'', ''m'', 0)"]
  show ?thesis by (simp add: demo_gateway_def) blast
qed

text \<open>
  C33: A stream that closes early passes for an answer.  When the subscription ends after plain deltas,
  before any terminal one, \<open>collect\<close> returns the text so far as a success with the finish reason \<open>stop\<close>
  and counts the request as completed.
\<close>

theorem closed_stream_is_an_answer:
  assumes "list_all plain_delta ds" "map decode ps = map Inr (numbered 0 ds)" "choices_wanted pr = 1"
    "decodes_all (gw_tokenizer gw)"
  shows "\<exists>co c. collect gw decode pr None (Inr ()) (map Message ps) g = Some (Inr co, c) \<and>
    po_content (co_out co) = concat (texts ds) \<and> co_finish co = Stop \<and> us_completion_tokens (co_usage co) = 0 \<and>
    gs_completed (c_stats c) = gs_completed g + 1"
proof -
  have ok: "parsed_ok (parsed_new None)" by (simp add: parsed_ok_def parsed_new_def)
  obtain a c ts where r:
    "\<And>rest. collect_loop gw decode pr (map Message ps @ rest) (open_stream gw) (collect_start pr None g) = collect_loop gw decode pr rest ts c"
    "for_each (parsed_push (gw_env gw)) (texts ds) (parsed_new None) = Some a" "c_accs c = [a]" "c_finishes c = [None]"
    "us_completion_tokens (c_usage c) = 0" "c_stats c = g"
    by (rule plain_stream [OF assms(1-3) ok assms(4), where g = g]) (rule that, assumption+)
  from feed_plain [of "parsed_new None" "gw_env gw" "texts ds"] r(2)
  have "pa_parser a = None" "po_content (pa_out a) = concat (texts ds)" by (auto simp: parsed_new_def)
  with r(1) [of "[]"] r(3-6) show ?thesis
    by (simp add: collect_def collect_finish_def parsed_finish_def finish_of_def unwrap_or_def stats_record_def Let_def)
qed

theorem closed_stream_is_an_answer_witness:
  "\<exists>co c. collect demo_gateway Inr demo_prepared None (Inr ()) (map Message (numbered 0 demo_deltas)) demo_stats = Some (Inr co, c) \<and>
     po_content (co_out co) = lit ''hm</think>hi'' \<and> co_finish co = Stop \<and> gs_completed (c_stats c) = 1"
proof -
  have "concat (texts demo_deltas) = lit ''hm</think>hi''" by (simp add: demo_deltas_def text_of_def lit_def)
  moreover have "gs_completed demo_stats = 0" by (simp add: demo_stats_def)
  ultimately show ?thesis
    using closed_stream_is_an_answer [OF demo_ok(1) _ demo_ok(2,3), where decode = Inr and ps = "numbered 0 demo_deltas" and g = demo_stats]
    by fastforce
qed

section \<open>Structured output\<close>

text \<open>
  C34: How the worker cuts its text into deltas does not matter.  For the format that the gateway detects
  for a tokenizer, the parser makes of any deltas that do not cut a marker what it makes of their
  concatenation in one piece: the same reasoning, content and calls, and the same state.
\<close>

theorem cuts_do_not_matter:
  assumes "detect tok = Some fmt" "whole_markers (format_markers fmt) ts" "ts \<noteq> []"
  shows "\<exists>a. for_each (parsed_push E) ts (parsed_new (Some (parser_new fmt sd))) = Some a \<and>
    parsed_push E (concat ts) (parsed_new (Some (parser_new fmt sd))) = Some a"
proof -
  have ok: "parsed_ok (parsed_new (Some (parser_new fmt sd)))"
    using detect_ok [OF assms(1)] by (simp add: parsed_ok_def parsed_new_def)
  have "parsed_markers (parsed_new (Some (parser_new fmt sd))) = format_markers fmt"
    by (simp add: parsed_markers_def parsed_new_def parser_new_def)
  with feed_concat [OF ok _ assms(3), of E] assms(2) feed_total [OF ok, of E ts] show ?thesis by auto
qed

definition demo_tokenizer :: "unit tokenization" where
  "demo_tokenizer = Hf \<lparr>tb_encode = (\<lambda>_ _. Inr []), tb_decode = (\<lambda>_ _. Inr []), tb_token_to_id = (\<lambda>t. Some (length t)),
     tb_template = None, tb_eos_token_ids = [], tb_bos_token = None, tb_eos_token = None\<rparr>"

lemma demo_detect: "detect demo_tokenizer = Some demo_markers"
  by (simp add: detect_def has_token_def demo_tokenizer_def demo_markers_def Let_def)

theorem cuts_do_not_matter_witness:
  "\<exists>a. for_each (parsed_push demo_text_env) [lit ''so</think>'', lit ''a <'', lit ''b''] (parsed_new (Some (parser_new demo_markers ''r''))) = Some a \<and>
     parsed_push demo_text_env (lit ''so</think>a <b'') (parsed_new (Some (parser_new demo_markers ''r''))) = Some a"
proof -
  have "whole_markers (format_markers demo_markers) [lit ''so</think>'', lit ''a <'', lit ''b'']"
    by (auto simp: uncut_def format_markers_def demo_markers_def lit_def append_eq_Cons_conv Cons_eq_append_conv suffix_def prefix_Cons)
  from cuts_do_not_matter [OF demo_detect this] show ?thesis by (simp add: lit_def)
qed

text \<open>
  C35: A tool call in the model's plain Python syntax is delivered as it was made.  The calls are printed the
  way Python prints them: a string of any characters between single quotes with its quotes and backslashes
  escaped, a 64-bit integer in decimal, \<open>True\<close>, \<open>False\<close> or \<open>None\<close>, under argument names that are distinct.
  Between their markers, the end marker not occurring in them, they become exactly these calls: their names, their arguments as a JSON object in
  the same order, and ids that continue the numbering of the request.  Floats, nested lists and dicts,
  which the code hands to a JSON parser, and strings in double quotes are not covered.
\<close>

theorem python_calls_delivered:
  assumes "think_open (op_fmt p) = None" "fmt_syntax (op_fmt p) = PythonCall" "\<not> in_think p" "tool_buf p = None"
    "tool_start (op_fmt p) \<noteq> []" "tool_end (op_fmt p) \<noteq> []"
    "cs \<noteq> []" "list_all (py_call_ok E) cs"
    "str_find (tool_end (op_fmt p)) ((c_lbracket # py_calls cs) @ tool_end (op_fmt p)) = Some (length (c_lbracket # py_calls cs))"
  shows "op_push E (tool_start (op_fmt p) @ (c_lbracket # py_calls cs) @ tool_end (op_fmt p)) p =
    Some ([Calls (map (\<lambda>(idx, c). tool_call_function (call_id E p idx) (fst c) (te_print E (snd (py_call_json c))))
                   (enumerate (calls_made p) cs))],
          p\<lparr>calls_made := calls_made p + length cs\<rparr>)"
proof -
  let ?f = "op_fmt p" and ?body = "c_lbracket # py_calls cs"
  have find: "str_find (tool_start ?f) (tool_start ?f @ r) = Some 0" for r
    using assms(5) by (cases "tool_start ?f") (auto simp: prefix_def)
  have 1: "push_step E (tool_start ?f @ ?body @ tool_end ?f) p = Some ([], ?body @ tool_end ?f, p\<lparr>tool_buf := Some []\<rparr>)"
    using assms(1,3,4) find by (simp add: push_step_def op_content_def Let_def)
  have "fst (py_call_json c) = fst c" for c by (simp add: py_call_json_def)
  moreover have same: "p\<lparr>tool_buf := None\<rparr> = p" using assms(4) by (cases p) simp
  ultimately have "finish_tool_text E ?body (p\<lparr>tool_buf := None\<rparr>) =
      (Calls (map (\<lambda>(idx, c). tool_call_function (call_id E p idx) (fst c) (te_print E (snd (py_call_json c))))
                   (enumerate (calls_made p) cs)), p\<lparr>calls_made := calls_made p + length cs\<rparr>)"
    using parse_calls_print [OF assms(8)] assms(2,7) same
    by (simp add: finish_tool_text_def call_id_def enumerate_map_upt case_prod_beta comp_def map_prod_def enumerate_eq_zip zip_map2)
  with assms(3,4,9) have 2: "push_step E (?body @ tool_end ?f) (p\<lparr>tool_buf := Some []\<rparr>) = Some
     ([Calls (map (\<lambda>(idx, c). tool_call_function (call_id E p idx) (fst c) (te_print E (snd (py_call_json c))))
                   (enumerate (calls_made p) cs))], [], p\<lparr>calls_made := calls_made p + length cs\<rparr>)"
    by (simp add: push_step_def)
  show ?thesis
    using 1 2 assms(5) by (simp add: op_push_step)
qed

theorem python_calls_delivered_witness:
  "\<exists>calls q. op_push demo_text_env (lit ''<|tool_call_start|>'' @ (c_lbracket # py_calls [(lit ''f'', [(lit ''x'', PyInt (- 12)), (lit ''s'', PyString (lit ''it's''))]), (lit ''g'', [])])
       @ lit ''<|tool_call_end|>'') ((parser_new demo_markers ''r'')\<lparr>in_think := False\<rparr>) = Some ([Calls calls], q) \<and>
     map tc_name calls = [lit ''f'', lit ''g''] \<and> calls_made q = 2"
proof -
  let ?p = "(parser_new demo_markers ''r'')\<lparr>in_think := False\<rparr>"
  let ?cs = "[(lit ''f'', [(lit ''x'', PyInt (- 12)), (lit ''s'', PyString (lit ''it's''))]), (lit ''g'', [])]"
  have p: "think_open (op_fmt ?p) = None" "fmt_syntax (op_fmt ?p) = PythonCall" "\<not> in_think ?p" "tool_buf ?p = None"
    "tool_start (op_fmt ?p) = lit ''<|tool_call_start|>''" "tool_end (op_fmt ?p) = lit ''<|tool_call_end|>''" "calls_made ?p = 0"
    by (simp_all add: parser_new_def demo_markers_def)
  have cs: "list_all (py_call_ok demo_text_env) ?cs" "?cs \<noteq> []"
    by (simp_all add: py_call_ok_def py_name_def name_char_def is_alphanumeric_def is_ascii_alphanumeric_def is_whitespace_def lit_def Let_def)
  have "str_find (lit ''<|tool_call_end|>'') ((c_lbracket # py_calls ?cs) @ lit ''<|tool_call_end|>'') = Some (length (c_lbracket # py_calls ?cs))"
    by code_simp
  then have f: "str_find (tool_end (op_fmt ?p)) ((c_lbracket # py_calls ?cs) @ tool_end (op_fmt ?p)) = Some (length (c_lbracket # py_calls ?cs))"
    unfolding p(6) .
  have ne: "tool_start (op_fmt ?p) \<noteq> []" "tool_end (op_fmt ?p) \<noteq> []" unfolding p(5,6) by simp_all
  from python_calls_delivered [OF p(1-4) ne cs(2,1) f, unfolded p(5,6,7)] show ?thesis
    by (simp add: tool_call_function_def del: py_calls.simps py_args.simps)
qed

end
