(* ===== verification/Script_Reading.thy ===== *)
theory Script_Reading
  imports Prelude
begin

text \<open>
  Which writing system a text is in (\<open>vapi-core/src/script.rs\<close>), which the gateway asks before it builds a
  decision.  A character is its scalar value.  The share of a reading is a quotient of two numbers up to
  4096; rounding it to \<open>f32\<close> cannot carry it across a quarter, so the model keeps the quotient exact.
\<close>

datatype script =
    Latin | Cyrillic | Greek | Arabic | Hebrew | Devanagari | Bengali | Gurmukhi | Gujarati
  | Tamil | Telugu | Kannada | Malayalam | Sinhala | Thai | Lao | Tibetan | Myanmar
  | Georgian | Armenian | Ethiopic | Khmer | Han | Kana | Hangul | Neutral

text \<open>The ranges of \<open>Script::of\<close> in the order of its arms.\<close>

definition script_ranges :: "(nat \<times> nat \<times> script) list" where
  "script_ranges =
     [(0x0041, 0x005A, Latin), (0x0061, 0x007A, Latin), (0x00C0, 0x024F, Latin), (0x1E00, 0x1EFF, Latin),
      (0x2C60, 0x2C7F, Latin), (0x0370, 0x03FF, Greek), (0x1F00, 0x1FFF, Greek), (0x0400, 0x052F, Cyrillic),
      (0x2DE0, 0x2DFF, Cyrillic), (0xA640, 0xA69F, Cyrillic), (0x0530, 0x058F, Armenian), (0xFB13, 0xFB17, Armenian),
      (0x0590, 0x05FF, Hebrew), (0xFB1D, 0xFB4F, Hebrew), (0x0600, 0x06FF, Arabic), (0x0750, 0x077F, Arabic),
      (0x08A0, 0x08FF, Arabic), (0xFB50, 0xFDFF, Arabic), (0x0900, 0x097F, Devanagari), (0xA8E0, 0xA8FF, Devanagari),
      (0x0980, 0x09FF, Bengali), (0x0A00, 0x0A7F, Gurmukhi), (0x0A80, 0x0AFF, Gujarati), (0x0B80, 0x0BFF, Tamil),
      (0x0C00, 0x0C7F, Telugu), (0x0C80, 0x0CFF, Kannada), (0x0D00, 0x0D7F, Malayalam), (0x0D80, 0x0DFF, Sinhala),
      (0x0E00, 0x0E7F, Thai), (0x0E80, 0x0EFF, Lao), (0x0F00, 0x0FFF, Tibetan), (0x1000, 0x109F, Myanmar),
      (0xAA60, 0xAA7F, Myanmar), (0x10A0, 0x10FF, Georgian), (0x2D00, 0x2D2F, Georgian), (0x1200, 0x137F, Ethiopic),
      (0x2D80, 0x2DDF, Ethiopic), (0x1780, 0x17FF, Khmer), (0x19E0, 0x19FF, Khmer), (0x3040, 0x309F, Kana),
      (0x30A0, 0x30FF, Kana), (0x31F0, 0x31FF, Kana), (0x1100, 0x11FF, Hangul), (0x3130, 0x318F, Hangul),
      (0xAC00, 0xD7AF, Hangul), (0x2E80, 0x2FDF, Han), (0x3400, 0x4DBF, Han), (0x4E00, 0x9FFF, Han),
      (0xF900, 0xFAFF, Han), (0x20000, 0x323AF, Han)]"

definition script_of :: "nat \<Rightarrow> script" where
  "script_of u = (case find (\<lambda>(lo, hi, s). lo \<le> u \<and> u \<le> hi) script_ranges of Some (lo, hi, s) \<Rightarrow> s | None \<Rightarrow> Neutral)"

definition is_latin :: "script \<Rightarrow> bool" where
  "is_latin s = (s = Latin \<or> s = Neutral)"

fun script_name :: "script \<Rightarrow> string" where
  "script_name Latin = ''latin''"
| "script_name Cyrillic = ''cyrillic''"
| "script_name Greek = ''greek''"
| "script_name Arabic = ''arabic''"
| "script_name Hebrew = ''hebrew''"
| "script_name Devanagari = ''devanagari''"
| "script_name Bengali = ''bengali''"
| "script_name Gurmukhi = ''gurmukhi''"
| "script_name Gujarati = ''gujarati''"
| "script_name Tamil = ''tamil''"
| "script_name Telugu = ''telugu''"
| "script_name Kannada = ''kannada''"
| "script_name Malayalam = ''malayalam''"
| "script_name Sinhala = ''sinhala''"
| "script_name Thai = ''thai''"
| "script_name Lao = ''lao''"
| "script_name Tibetan = ''tibetan''"
| "script_name Myanmar = ''myanmar''"
| "script_name Georgian = ''georgian''"
| "script_name Armenian = ''armenian''"
| "script_name Ethiopic = ''ethiopic''"
| "script_name Khmer = ''khmer''"
| "script_name Han = ''han''"
| "script_name Kana = ''kana''"
| "script_name Hangul = ''hangul''"
| "script_name Neutral = ''neutral''"

record reading =
  rd_script :: script
  rd_share :: rat
  rd_letters :: nat

definition readable_by_latin_model :: "reading \<Rightarrow> bool" where
  "readable_by_latin_model r = (is_latin (rd_script r) \<or> rd_letters r < 8 \<or> rd_share r < 1 / 4)"

definition LIMIT :: nat where
  "LIMIT = 4096"

text \<open>The tally, in the order in which the scripts were first seen.\<close>

fun tally :: "script \<Rightarrow> (script \<times> nat) list \<Rightarrow> (script \<times> nat) list" where
  "tally s [] = [(s, 1)]"
| "tally s ((k, n) # counts) = (if k = s then (k, n + 1) # counts else (k, n) # tally s counts)"

fun count_scripts :: "nat list \<Rightarrow> (script \<times> nat) list \<Rightarrow> nat \<Rightarrow> (script \<times> nat) list \<times> nat" where
  "count_scripts [] counts letters = (counts, letters)"
| "count_scripts (c # cs) counts letters =
     (let s = script_of c in
      if s = Neutral then count_scripts cs counts letters
      else
        let letters = letters + 1; counts = tally s counts in
        if letters \<ge> LIMIT then (counts, letters) else count_scripts cs counts letters)"

text \<open>\<open>max_by_key\<close>: the last of the greatest.\<close>

fun max_by_count :: "(script \<times> nat) list \<Rightarrow> (script \<times> nat) option" where
  "max_by_count [] = None"
| "max_by_count (x # xs) =
     (case max_by_count xs of None \<Rightarrow> Some x | Some y \<Rightarrow> if snd x > snd y then Some x else Some y)"

definition script_read :: "nat list \<Rightarrow> reading" where
  "script_read t =
     (let (counts, letters) = count_scripts t [] 0 in
      case max_by_count counts of
        Some (s, n) \<Rightarrow> \<lparr>rd_script = s, rd_share = of_nat n / of_nat letters, rd_letters = letters\<rparr>
      | None \<Rightarrow> \<lparr>rd_script = Neutral, rd_share = 1, rd_letters = 0\<rparr>)"

section \<open>The tally is the count of each script\<close>

lemma map_of_tally: "map_of (tally s m) k = (if k = s then Some (case map_of m s of Some n \<Rightarrow> n + 1 | None \<Rightarrow> 1) else map_of m k)"
  by (induction s m rule: tally.induct) auto

lemma tally_distinct: "distinct (map fst m) \<Longrightarrow> distinct (map fst (tally s m)) \<and> fst ` set (tally s m) = insert s (fst ` set m)"
  by (induction s m rule: tally.induct) auto

definition tally_ok :: "script list \<Rightarrow> (script \<times> nat) list \<Rightarrow> bool" where
  "tally_ok ls m = (distinct (map fst m) \<and> (\<forall>k. map_of m k = (if k \<in> set ls then Some (count_list ls k) else None)))"

lemma tally_ok_snoc: "tally_ok ls m \<Longrightarrow> tally_ok (ls @ [s]) (tally s m)"
  by (auto simp: tally_ok_def map_of_tally tally_distinct)

definition letters_of :: "nat list \<Rightarrow> script list" where
  "letters_of t = filter (\<lambda>s. s \<noteq> Neutral) (map script_of t)"

lemma count_scripts_ok:
  assumes "tally_ok ls m" "length ls < LIMIT" "count_scripts t m (length ls) = (m', n)"
  shows "tally_ok (take LIMIT (ls @ letters_of t)) m' \<and> n = length (take LIMIT (ls @ letters_of t))"
  using assms
proof (induction t m "length ls" arbitrary: ls rule: count_scripts.induct)
  case (2 c cs m)
  show ?case
  proof (cases "script_of c = Neutral")
    case True
    with 2 show ?thesis by (simp add: letters_of_def)
  next
    case False
    have t: "tally_ok (ls @ [script_of c]) (tally (script_of c) m)" using 2(3) by (rule tally_ok_snoc)
    show ?thesis
    proof (cases "length ls + 1 \<ge> LIMIT")
      case True
      with 2(4) have "LIMIT - length ls = Suc 0" by simp
      with 2(4) have "take LIMIT (ls @ letters_of (c # cs)) = ls @ [script_of c]" using False by (simp add: letters_of_def)
      with True False 2(5) t show ?thesis by auto
    next
      case nl: False
      then have "tally_ok (take LIMIT ((ls @ [script_of c]) @ letters_of cs)) m' \<and>
          n = length (take LIMIT ((ls @ [script_of c]) @ letters_of cs))"
        using 2(2) [OF refl False _ refl _ t] nl False 2(5) by simp
      with False show ?thesis by (simp add: letters_of_def)
    qed
  qed
qed (simp add: letters_of_def)

lemma max_by_count_max: "max_by_count m = Some x \<Longrightarrow> x \<in> set m \<and> (\<forall>y \<in> set m. snd y \<le> snd x)"
proof (induction m arbitrary: x)
  case (Cons a m)
  show ?case
  proof (cases "max_by_count m")
    case None
    then have "m = []" by (cases m) (auto split: option.splits if_splits)
    with Cons.prems show ?thesis by simp
  next
    case (Some y)
    with Cons.IH [OF Some] Cons.prems show ?thesis by (force split: if_splits)
  qed
qed simp

lemma max_by_count_None: "max_by_count m = None \<longleftrightarrow> m = []"
  by (cases m) (auto split: option.splits if_splits)

lemma script_read_exact:
  fixes t
  defines "ls \<equiv> take LIMIT (letters_of t)"
  shows "rd_letters (script_read t) = length ls"
    "ls \<noteq> [] \<Longrightarrow> rd_script (script_read t) \<in> set ls \<and> rd_share (script_read t) = of_nat (count_list ls (rd_script (script_read t))) / of_nat (length ls)"
    "count_list ls s \<le> count_list ls (rd_script (script_read t))"
    "ls = [] \<Longrightarrow> rd_script (script_read t) = Neutral"
proof -
  obtain m n where mn: "count_scripts t [] 0 = (m, n)" by (cases "count_scripts t [] 0") simp
  have "tally_ok ls m" "n = length ls"
    using count_scripts_ok [of "[]" "[]" t m n] mn by (simp_all add: tally_ok_def LIMIT_def ls_def)
  have m: "map_of m k = (if k \<in> set ls then Some (count_list ls k) else None)" "distinct (map fst m)" for k
    using \<open>tally_ok ls m\<close> by (auto simp: tally_ok_def)
  have 0: "m = [] \<longleftrightarrow> ls = []"
  proof
    assume "m = []"
    then have "k \<notin> set ls" for k using m(1) [of k] by (auto split: if_splits)
    then show "ls = []" by (metis all_not_in_conv set_empty)
  next
    assume "ls = []"
    then have "map_of m = Map.empty" using m(1) by (intro ext) simp
    then show "m = []" by simp
  qed
  have r: "rd_letters (script_read t) = length ls \<and>
     (ls \<noteq> [] \<longrightarrow> rd_script (script_read t) \<in> set ls \<and> rd_share (script_read t) = of_nat (count_list ls (rd_script (script_read t))) / of_nat (length ls)) \<and>
     (\<forall>s. count_list ls s \<le> count_list ls (rd_script (script_read t))) \<and> (ls = [] \<longrightarrow> rd_script (script_read t) = Neutral)"
  proof (cases "max_by_count m")
    case None
    with 0 mn show ?thesis by (simp add: max_by_count_None script_read_def)
  next
    case (Some x)
    obtain s k where x: "x = (s, k)" by fastforce
    with max_by_count_max [OF Some] have max: "(s, k) \<in> set m" "\<forall>y \<in> set m. snd y \<le> k" by simp_all
    from max(1) m(2) have "map_of m s = Some k" by (rule map_of_is_SomeI [rotated])
    with m(1) [of s] have s: "s \<in> set ls" "k = count_list ls s" by (simp_all split: if_splits)
    have "count_list ls s' \<le> k" for s'
    proof (cases "s' \<in> set ls")
      case True
      then have "(s', count_list ls s') \<in> set m" using m(1) [of s'] m(2) by (simp add: map_of_eq_Some_iff)
      with max(2) show ?thesis by fastforce
    qed simp
    moreover have "script_read t = \<lparr>rd_script = s, rd_share = of_nat k / of_nat (length ls), rd_letters = length ls\<rparr>"
      using Some x mn \<open>n = length ls\<close> by (simp add: script_read_def)
    moreover have "ls \<noteq> []" using s(1) by auto
    ultimately show ?thesis using s by simp
  qed
  show "rd_letters (script_read t) = length ls" by (rule r [THEN conjunct1])
  show "ls \<noteq> [] \<Longrightarrow> rd_script (script_read t) \<in> set ls \<and> rd_share (script_read t) = of_nat (count_list ls (rd_script (script_read t))) / of_nat (length ls)"
    by (rule r [THEN conjunct2, THEN conjunct1, rule_format])
  show "count_list ls s \<le> count_list ls (rd_script (script_read t))"
    by (rule r [THEN conjunct2, THEN conjunct2, THEN conjunct1, THEN spec])
  show "ls = [] \<Longrightarrow> rd_script (script_read t) = Neutral"
    by (rule r [THEN conjunct2, THEN conjunct2, THEN conjunct2, THEN mp])
qed

end
