(* ===== verification/Gateway_Jobs.thy ===== *)
theory Gateway_Jobs
  imports Gateway_Stream Decision_Format Script_Reading
begin

text \<open>
  How the gateway turns a request into a job (\<open>vapi-gateway/src/api.rs\<close>): the checks and the encoding
  of each endpoint, the key of the response cache (\<open>response_cache.rs\<close>), and the single reply of a decision
  or a transcription.  The settings a handler reads are the record \<open>service\<close>; the id of a request and the
  time are arguments.
\<close>

section \<open>The cache key (response_cache.rs)\<close>

definition cacheable :: "sampling_params \<Rightarrow> bool" where
  "cacheable ps = (is_deterministic ps \<and> logprobs ps = None \<and> n_choices ps \<le> 1)"

definition kind_debug :: "job_kind \<Rightarrow> string" where
  "kind_debug k = (case k of Chat \<Rightarrow> ''Chat'' | Completion \<Rightarrow> ''Completion'' | Decision \<Rightarrow> ''Decision'' | Transcription \<Rightarrow> ''Transcription'')"

definition u64_max :: nat where
  "u64_max = 2 ^ 64 - 1"

unbundle bit_operations_syntax

text \<open>The bytes that are hashed; \<open>bits\<close> is the encoding \<open>f32::to_bits().to_le_bytes()\<close>.\<close>

definition params_bytes :: "(f32 \<Rightarrow> bytes) \<Rightarrow> sampling_params \<Rightarrow> bytes" where
  "params_bytes bits ps =
     concat (map bits [temperature ps, top_p ps, min_p ps, repetition_penalty ps, frequency_penalty ps, presence_penalty ps])
     @ le_bytes 8 (unwrap_or (top_k ps) u64_max)
     @ le_bytes 8 (max_tokens ps)
     @ (case resp_format ps of None \<Rightarrow> [0] | Some JsonObject \<Rightarrow> [1] | Some (JsonSchema s) \<Rightarrow> 2 # str_bytes s)
     @ str_bytes (unwrap_or (constraint_starts_after ps) [])
     @ le_bytes 8 (case seed ps of Some s \<Rightarrow> unat (s XOR 1) | None \<Rightarrow> u64_max)
     @ [if seed ps = None then 0 else 1]
     @ concat (map (\<lambda>s. str_bytes s @ [0]) (stop_strings (stop ps)))
     @ le_bytes 8 (length (stop_token_ids (stop ps)))
     @ concat (map (le_bytes 4) (stop_token_ids (stop ps)))"

definition key_bytes :: "(f32 \<Rightarrow> bytes) \<Rightarrow> string \<Rightarrow> string \<Rightarrow> job_kind \<Rightarrow> token list \<Rightarrow> sampling_params \<Rightarrow> bytes" where
  "key_bytes bits fingerprint ns kind prompt ps =
     str_bytes fingerprint @ [0] @ str_bytes ns @ [0] @ str_bytes (kind_debug kind) @ [0]
     @ concat (map (le_bytes 4) prompt) @ [0] @ params_bytes bits ps"

definition cache_key ::
  "(bytes \<Rightarrow> string) \<Rightarrow> (f32 \<Rightarrow> bytes) \<Rightarrow> string \<Rightarrow> string \<Rightarrow> job_kind \<Rightarrow> token list \<Rightarrow> sampling_params \<Rightarrow> string" where
  "cache_key blake3_hex bits fingerprint ns kind prompt ps = blake3_hex (key_bytes bits fingerprint ns kind prompt ps)"

section \<open>Preparing a request (api.rs)\<close>

record 'm service =
  sv_gateway :: "'m gateway"
  sv_model :: string
  sv_max_context :: nat
  sv_fingerprint :: string
  sv_bits :: "f32 \<Rightarrow> bytes"
  sv_format :: "output_format option"
  sv_decision :: "decision_format option"
  sv_canonical :: "json \<Rightarrow> utext"
  sv_python_json :: "json \<Rightarrow> utext"
  sv_body :: "json \<Rightarrow> string"
  sv_schema :: "string \<Rightarrow> json"
  sv_debug :: "utext \<Rightarrow> string"
  sv_schema_error :: "schema_error \<Rightarrow> string"

definition longest_row :: "token list \<Rightarrow> decision_row list \<Rightarrow> nat" where
  "longest_row prompt rows = (if rows = [] then length prompt else fold (\<lambda>r m. max (row_len r) m) rows 0)"

definition prepare ::
  "'m service \<Rightarrow> job_kind \<Rightarrow> token list \<Rightarrow> sampling_params \<Rightarrow> decision_row list \<Rightarrow> audio_clip option \<Rightarrow> principal \<Rightarrow>
     string \<Rightarrow> nat \<Rightarrow> gateway_stats \<Rightarrow> (error + prepared) \<times> gateway_stats" where
  "prepare sv kind prompt ps rows audio caller rid now g =
     (let longest = longest_row prompt rows in
      if longest \<ge> sv_max_context sv then (Inl (ContextLengthExceeded longest (sv_max_context sv)), g)
      else
        (Inr \<lparr>pr_request_id = rid,
              pr_job = \<lparr>job_request_id = rid, job_model = sv_model sv, job_kind = kind, prompt_tokens = prompt, job_params = ps,
                        job_namespace = principal_namespace caller, reply_to = stream_subject rid, enqueued_at_ms = now * 1000,
                        job_rows = rows, job_audio = audio\<rparr>,
              pr_created = now, pr_prompt_tokens = length prompt,
              pr_cache_key =
                (if kind \<noteq> Decision \<and> gw_cache_open (sv_gateway sv) \<and> cacheable ps
                 then Some (cache_key (te_blake3_hex (gw_env (sv_gateway sv))) (sv_bits sv) (sv_fingerprint sv)
                              (principal_namespace caller) kind prompt ps)
                 else None)\<rparr>,
         g\<lparr>gs_started := gs_started g + 1\<rparr>))"

text \<open>\<open>Prepared::cached\<close>, with the store as a map.\<close>

definition cached :: "'m gateway \<Rightarrow> (string \<rightharpoonup> cached_response) \<Rightarrow> prepared \<Rightarrow> cached_response option" where
  "cached gw entries pr =
     (if \<not> gw_cache_on gw then None
      else case pr_cache_key pr of None \<Rightarrow> None | Some key \<Rightarrow> if gw_cache_open gw then entries key else None)"

section \<open>Chat and completions (api.rs)\<close>

fun request_error_text :: "'m service \<Rightarrow> request_error \<Rightarrow> string" where
  "request_error_text sv FormatNeedsType = ''response_format needs a type''"
| "request_error_text sv SchemaMissing = ''json_schema is missing''"
| "request_error_text sv (FormatNotSupported k) =
     ''response_format '' @ sv_debug sv k @ '' is not supported; use text, json_object or json_schema''"
| "request_error_text sv (ToolChoiceNotSupported v) =
     ''tool_choice '' @ sv_body sv v @ '' is not supported; use \"auto\" or \"none\"''"
| "request_error_text sv (BadParams m) = m"

definition compiled_schema :: "'m service \<Rightarrow> sampling_params \<Rightarrow> error + unit" where
  "compiled_schema sv ps =
     (case resp_format ps of
        Some (JsonSchema s) \<Rightarrow>
          (case compile (sv_canonical sv) (sv_schema sv s) of
             Inl e \<Rightarrow> Inl (InvalidRequest (''response_format: '' @ sv_schema_error sv e))
           | Inr _ \<Rightarrow> Inr ())
      | _ \<Rightarrow> Inr ())"

definition with_marker :: "'m service \<Rightarrow> sampling_params \<Rightarrow> sampling_params" where
  "with_marker sv ps =
     (if resp_format ps = None then ps
      else ps\<lparr>constraint_starts_after := map_option utf8_string (Option.bind (sv_format sv) think_close)\<rparr>)"

definition chat_prepare ::
  "chat_message service \<Rightarrow> chat_request \<Rightarrow> principal \<Rightarrow> string \<Rightarrow> nat \<Rightarrow> gateway_stats \<Rightarrow> (error + prepared) \<times> gateway_stats" where
  "chat_prepare sv q caller rid now g =
     (case chat_params (sv_body sv) q (sv_max_context sv div 4) of
        Inl e \<Rightarrow> (Inl (InvalidRequest (request_error_text sv e)), g)
      | Inr ps \<Rightarrow>
          (case compiled_schema sv ps of
             Inl e \<Rightarrow> (Inl e, g)
           | Inr _ \<Rightarrow>
               (case active_tools q of
                  Inl e \<Rightarrow> (Inl (InvalidRequest (request_error_text sv e)), g)
                | Inr tools \<Rightarrow>
                    if tools \<noteq> None \<and> sv_format sv = None then
                      (Inl (InvalidRequest ''this model has no tool-call format the gateway can parse''), g)
                    else
                      (case tok_encode_chat (gw_tokenizer (sv_gateway sv)) (cr_messages q) tools of
                         Inl e \<Rightarrow> (Inl e, g)
                       | Inr ts \<Rightarrow> prepare sv Chat ts (with_marker sv ps) [] None caller rid now g))))"

definition completion_prepare ::
  "'m service \<Rightarrow> completion_request \<Rightarrow> principal \<Rightarrow> string \<Rightarrow> nat \<Rightarrow> gateway_stats \<Rightarrow> ((error + prepared) \<times> gateway_stats) option" where
  "completion_prepare sv q caller rid now g =
     (case completion_params q (sv_max_context sv div 4) of
        Inl e \<Rightarrow> Some (Inl (InvalidRequest (request_error_text sv e)), g)
      | Inr ps \<Rightarrow> do {
          enc \<leftarrow> tok_encode (gw_tokenizer (sv_gateway sv)) (co_prompt q);
          Some (case enc of Inl e \<Rightarrow> (Inl e, g) | Inr ts \<Rightarrow> prepare sv Completion ts ps [] None caller rid now g) })"

section \<open>Decisions (api.rs)\<close>

fun error_text :: "error \<Rightarrow> string" where
  "error_text (InvalidRequest m) = ''invalid request: '' @ m"
| "error_text (UnknownModel m) = ''unknown model: '' @ m"
| "error_text (ContextLengthExceeded n l) = ''request exceeds context window: '' @ show_nat n @ '' tokens > '' @ show_nat l"
| "error_text Overloaded = ''engine is at capacity''"
| "error_text Cancelled_error = ''request cancelled''"
| "error_text (Timeout n) = ''request timed out after '' @ show_nat n @ ''s''"
| "error_text (Tokenizer_error m) = ''tokenizer: '' @ m"
| "error_text (ChatTemplate_error m) = ''chat template: '' @ m"
| "error_text (Transport_error m) = ''transport: '' @ m"
| "error_text (Config_error m) = ''config: '' @ m"
| "error_text (Engine_error m) = ''engine: '' @ m"

definition question_error :: "'m service \<Rightarrow> utext \<Rightarrow> error \<Rightarrow> error" where
  "question_error sv qid e = InvalidRequest (''question '' @ sv_debug sv qid @ '': '' @ error_text e)"

text \<open>Whether the gateway logs that the checkpoint cannot read the state of a decision; it goes on all the same.\<close>

definition warns_unreadable :: "decision_format \<Rightarrow> utext \<Rightarrow> bool" where
  "warns_unreadable f state_text = (\<not> df_multilingual f \<and> \<not> readable_by_latin_model (script_read state_text))"

text \<open>One question: its row, its tokens and the number of its options.\<close>

definition build_question ::
  "'m service \<Rightarrow> decision_format \<Rightarrow> (utext \<Rightarrow> error + token list) \<Rightarrow> utext \<Rightarrow> utext \<times> question \<Rightarrow> error + decision_row \<times> token list \<times> nat" where
  "build_question sv f enc state = (\<lambda>(qid, q).
     case option_texts q of
       Inl e \<Rightarrow> Inl (question_error sv qid e)
     | Inr options \<Rightarrow>
         (case build f enc (q_type q) (instruction_text (sv_python_json sv) q) options state of
            Inl e \<Rightarrow> Inl (question_error sv qid e)
          | Inr b \<Rightarrow> Inr (\<lparr>row_len = u32_of (length (bs_tokens b)), markers = bs_markers b, qtype = q_type q\<rparr>, bs_tokens b, length options)))"

fun build_questions ::
  "'m service \<Rightarrow> decision_format \<Rightarrow> (utext \<Rightarrow> error + token list) \<Rightarrow> utext \<Rightarrow> (utext \<times> question) list \<Rightarrow> error + (decision_row \<times> token list \<times> nat) list" where
  "build_questions sv f enc state [] = Inr []"
| "build_questions sv f enc state (q # qs) =
     (case build_question sv f enc state q of
        Inl e \<Rightarrow> Inl e
      | Inr r \<Rightarrow> (case build_questions sv f enc state qs of Inl e \<Rightarrow> Inl e | Inr rs \<Rightarrow> Inr (r # rs)))"

definition decision_prepare ::
  "'m service \<Rightarrow> json \<Rightarrow> (utext \<times> question) list \<Rightarrow> principal \<Rightarrow> string \<Rightarrow> nat \<Rightarrow> gateway_stats \<Rightarrow>
     (error + prepared \<times> nat list) \<times> gateway_stats" where
  "decision_prepare sv state questions caller rid now g =
     (case (sv_decision sv, gw_tokenizer (sv_gateway sv)) of
        (None, _) \<Rightarrow>
          (Inl (InvalidRequest ''this deployment serves a generative model; /v1/decisions needs a decision checkpoint''), g)
      | (Some f, Hf b) \<Rightarrow>
          if questions = [] then (Inl (InvalidRequest ''no questions were asked''), g)
          else
            (case build_questions sv f (\<lambda>t. tb_encode b t False) (json_text (sv_python_json sv) state) questions of
               Inl e \<Rightarrow> (Inl e, g)
             | Inr rs \<Rightarrow>
                 (case prepare sv Decision (concat (map (fst \<circ> snd) rs)) default_params (map fst rs) None caller rid now g of
                    (Inl e, g) \<Rightarrow> (Inl e, g)
                  | (Inr pr, g) \<Rightarrow> (Inr (pr, map (snd \<circ> snd) rs), g)))
      | (Some f, _) \<Rightarrow> (Inl (InvalidRequest ''no tokenizer is loaded, so no question can be built''), g))"

text \<open>Waiting for the single reply: the reply or the error, and the counters.\<close>

definition no_answer :: error where
  "no_answer = Engine_error ''the worker closed the stream without answering''"

fun await_decision ::
  "('p \<Rightarrow> error + delta_msg) \<Rightarrow> 'p received list \<Rightarrow> token_stream \<Rightarrow> gateway_stats \<Rightarrow> (error + row_scores list \<times> nat) \<times> gateway_stats" where
  "await_decision decode [] ts g = (Inl no_answer, g)"
| "await_decision decode (rcv # rcvs) ts g =
     (case stream_next decode rcv ts of
        (Inl e, ts) \<Rightarrow> (Inl e, g)
      | (Inr (EvStarted _), ts) \<Rightarrow> await_decision decode rcvs ts g
      | (Inr (EvDecided rows p), ts) \<Rightarrow> (Inr (rows, p), g)
      | (Inr (EvFailed m), ts) \<Rightarrow> (Inl (Engine_error m), count_failed g)
      | (Inr _, ts) \<Rightarrow>
          (Inl (Engine_error (''a generative worker answered a decision request; '' @
             ''this model's queue has the wrong kind of worker on it'')), g))"

fun await_transcription ::
  "('p \<Rightarrow> error + delta_msg) \<Rightarrow> 'p received list \<Rightarrow> token_stream \<Rightarrow> gateway_stats \<Rightarrow> (error + string \<times> nat \<times> f32) \<times> gateway_stats" where
  "await_transcription decode [] ts g = (Inl no_answer, g)"
| "await_transcription decode (rcv # rcvs) ts g =
     (case stream_next decode rcv ts of
        (Inl e, ts) \<Rightarrow> (Inl e, g)
      | (Inr (EvStarted _), ts) \<Rightarrow> await_transcription decode rcvs ts g
      | (Inr (EvTranscribed t n secs), ts) \<Rightarrow> (Inr (t, n, secs), g)
      | (Inr (EvFailed m), ts) \<Rightarrow> (Inl (Engine_error m), count_failed g)
      | (Inr _, ts) \<Rightarrow>
          (Inl (Engine_error (''a worker of the wrong kind answered a transcription request; '' @
             ''this model's queue has the wrong kind of worker on it'')), g))"

text \<open>
  The answers of a decision request; how a row of scores becomes an answer, given its temperature, is
  the parameter \<open>shape\<close>, floating-point arithmetic.
\<close>

definition decision_answers ::
  "(question \<Rightarrow> row_scores \<Rightarrow> f32 \<Rightarrow> 'a) \<Rightarrow> calibration \<Rightarrow> (utext \<times> question) list \<Rightarrow> nat list \<Rightarrow> row_scores list \<Rightarrow>
     (error + (utext \<times> 'a) list) option" where
  "decision_answers shape cal questions options scores =
     (if length scores \<noteq> length questions
      then Some (Inl (Engine_error (''worker answered '' @ show_nat (length scores) @ '' of '' @ show_nat (length questions) @ '' questions'')))
      else
        map_option Inr (those (map (\<lambda>(((qid, q), row), n).
          map_option (\<lambda>t. (qid, shape q row t)) (calibration_temperature cal (q_type q) n)) (zip (zip questions scores) options))))"

end
