(* ===== verification/Request_Properties.thy ===== *)
theory Request_Properties
  imports Gateway_Jobs Token_Properties Engine_Properties
begin

text \<open>
  What the gateway guarantees about the requests it takes: the jobs it makes are jobs its workers accept.  Each
  property has an instance.
\<close>

section \<open>Jobs\<close>

lemma prepare_job:
  assumes "prepare sv kind prompt ps rows audio caller rid now g = (Inr pr, g')"
  shows "longest_row prompt rows < sv_max_context sv" "g' = g\<lparr>gs_started := gs_started g + 1\<rparr>"
    "pr_job pr = \<lparr>job_request_id = rid, job_model = sv_model sv, job_kind = kind, prompt_tokens = prompt, job_params = ps,
       job_namespace = principal_namespace caller, reply_to = stream_subject rid, enqueued_at_ms = now * 1000,
       job_rows = rows, job_audio = audio\<rparr>"
  using assms by (auto simp: prepare_def Let_def split: if_splits)

lemma validate_with_marker [simp]: "validate_params (with_marker sv ps) = validate_params ps"
  by (simp add: with_marker_def validate_params_def)

lemma compiled_with_marker [simp]: "compiled_schema sv (with_marker sv ps) = compiled_schema sv ps"
  by (simp add: with_marker_def compiled_schema_def)

lemma chat_params_valid: "chat_params body q d = Inr ps \<Longrightarrow> validate_params ps = Inr ()"
  by (auto simp: chat_params_def Let_def split: sum.splits)

lemma chat_job:
  assumes "chat_prepare sv q caller rid now g = (Inr pr, g')"
  obtains ps prompt where
    "pr_job pr = \<lparr>job_request_id = rid, job_model = sv_model sv, job_kind = Chat, prompt_tokens = prompt, job_params = ps,
       job_namespace = principal_namespace caller, reply_to = stream_subject rid, enqueued_at_ms = now * 1000,
       job_rows = [], job_audio = None\<rparr>"
    "length prompt < sv_max_context sv" "validate_params ps = Inr ()" "compiled_schema sv ps = Inr ()"
proof -
  obtain ps tools prompt where
    1: "chat_params (sv_body sv) q (sv_max_context sv div 4) = Inr ps" "compiled_schema sv ps = Inr ()"
      "prepare sv Chat prompt (with_marker sv ps) [] None caller rid now g = (Inr pr, g')"
    using assms by (auto simp: chat_prepare_def split: sum.splits if_splits)
  from prepare_job [OF 1(3)] have "length prompt < sv_max_context sv" by (simp add: longest_row_def)
  with prepare_job(3) [OF 1(3)] chat_params_valid [OF 1(1)] 1(2) that [of prompt "with_marker sv ps"] show ?thesis by simp
qed

lemma compiled_constraint:
  assumes "compiled_schema sv ps = Inr ()" "en_canonical env = sv_canonical sv" "en_json env = sv_schema sv"
  shows "\<exists>c e'. job_constraint env ps e = (Inr c, e')"
proof (cases "resp_format ps")
  case None
  then show ?thesis by (simp add: job_constraint_def)
next
  case (Some rf)
  have "\<exists>ns e'. compile_format env rf e = (Inr ns, e')"
    using assms Some by (cases rf) (auto simp: compile_format_def compiled_schema_def Let_def split: option.splits sum.splits)
  with Some show ?thesis by (auto simp: job_constraint_def Let_def)
qed

text \<open>
  What admission needs of an engine: its pool and its spill store are well formed.  It keeps that, for a
  request with any number of choices, and nothing it needs concerns the forks still pending.
\<close>

abbreviation engine_coherent :: "('b, 'r) env \<Rightarrow> ('b, 'r) engine \<Rightarrow> bool" where
  "engine_coherent env e \<equiv> coherent (en_export env) any_bytes (tier_of e)"

lemma engine_inv_coherent: "engine_inv env e \<Longrightarrow> engine_coherent env e"
  by (rule tier_coherent) (simp_all add: engine_inv_def)

lemma engine_promote_coherent:
  assumes "env_ok env" "engine_coherent env e"
  shows "\<exists>t. engine_promote env prompt e = Some (with_tier t e) \<and> coherent (en_export env) any_bytes t"
proof -
  have "kv_device (en_export env) (en_import env)" using assms(1) by (simp add: env_ok_def)
  from kv_device.promote_from_spill_ok [OF this assms(2), of "en_blake3 env" "en_disk env" "e_namespace e" prompt] show ?thesis
    by (auto simp: engine_promote_def)
qed

lemma engine_admits:
  assumes "env_ok env" "engine_coherent env e" "job_constraint env (job_params j) e = (Inr c, e0)" "tier_of e0 = tier_of e"
    "e_sched e0 = e_sched e" "prompt_tokens j \<noteq> []" "length (prompt_tokens j) < max_context (cfg (e_sched e))"
  shows "\<exists>e'. engine_admit env j e = Some (Inr (next_id (e_sched e)), e') \<and>
    seqs (e_sched e') (next_id (e_sched e)) =
      Some (sequence_new (job_request_id j) (prompt_tokens j) (job_params j) (job_namespace j)) \<and>
    engine_coherent env e' \<and> max_context (cfg (e_sched e')) = max_context (cfg (e_sched e)) \<and>
    (1 < choices_of (job_params j) \<longrightarrow> e_pending_forks e' (next_id (e_sched e)) = Some (choices_of (job_params j) - 1))"
proof -
  from engine_promote_coherent [OF assms(1), of e0 "prompt_tokens j"] assms(2,4) obtain t where
    t: "engine_promote env (prompt_tokens j) e0 = Some (with_tier t e0)" "coherent (en_export env) any_bytes t" by auto
  from t(2) have "engine_coherent env e'" if "pool (e_sched e') = t_pool t" "e_spill e' = t_spill t" "e_files e' = t_files t" "e_backend e' = t_dev t" for e'
    using that by (simp add: tier_of_def coherent_def)
  with assms(3,5,6,7) t(1) show ?thesis by (auto simp: engine_admit_def admit_def Let_def with_tier_def)
qed

lemma get_masker_fields:
  "get_masker env e = (tm, e') \<Longrightarrow> tier_of e' = tier_of e \<and> e_sched e' = e_sched e"
  by (auto simp: get_masker_def tier_of_def Let_def split: option.splits)

lemma compile_format_fields:
  "compile_format env f e = (r, e') \<Longrightarrow> tier_of e' = tier_of e \<and> e_sched e' = e_sched e"
  by (auto simp: compile_format_def tier_of_def Let_def split: option.splits sum.splits response_format.splits)

lemma job_constraint_fields:
  assumes "job_constraint env ps e = (r, e')"
  shows "tier_of e' = tier_of e" "e_sched e' = e_sched e"
proof (atomize (full), cases "resp_format ps")
  case (Some f)
  obtain x e1 where 1: "compile_format env f e = (x, e1)" by fastforce
  obtain tm e2 where 2: "get_masker env e1 = (tm, e2)" by fastforce
  have "e' = e1 \<or> e' = e2" using assms Some 1 2 by (auto simp: job_constraint_def split: sum.splits)
  with get_masker_fields [OF 2] compile_format_fields [OF 1] show "tier_of e' = tier_of e \<and> e_sched e' = e_sched e" by auto
qed (use assms in \<open>auto simp: job_constraint_def\<close>)

text \<open>
  C36: A chat request the gateway accepts is one its worker accepts.  When \<open>chat_completions\<close> prepares a
  job whose prompt is not empty, its parameters are in range and its schema compiles, and an engine with
  the gateway's context window whose pool and spill store are well formed admits the job: it neither
  panics nor refuses, and queues a sequence with the job's prompt in the namespace of the caller's key.
  The pool and the spill store are well formed again, so the next request is admitted too, also one
  that asks for several choices or follows one whose forks are still pending.
\<close>

theorem accepted_chat_is_admitted:
  assumes "chat_prepare sv q caller rid now g = (Inr pr, g')" "prompt_tokens (pr_job pr) \<noteq> []"
    "env_ok env" "engine_coherent env e" "max_context (cfg (e_sched e)) = sv_max_context sv"
    "en_canonical env = sv_canonical sv" "en_json env = sv_schema sv"
  shows "validate_params (job_params (pr_job pr)) = Inr () \<and>
    (\<exists>i e'. engine_admit env (pr_job pr) e = Some (Inr i, e') \<and>
       seqs (e_sched e') i = Some (sequence_new rid (prompt_tokens (pr_job pr)) (job_params (pr_job pr)) (principal_namespace caller)) \<and>
       engine_coherent env e' \<and> max_context (cfg (e_sched e')) = sv_max_context sv)"
proof -
  from assms(1) obtain ps prompt where
    j: "pr_job pr = \<lparr>job_request_id = rid, job_model = sv_model sv, job_kind = Chat, prompt_tokens = prompt, job_params = ps,
       job_namespace = principal_namespace caller, reply_to = stream_subject rid, enqueued_at_ms = now * 1000,
       job_rows = [], job_audio = None\<rparr>"
    and l: "length prompt < sv_max_context sv" and v: "validate_params ps = Inr ()" "compiled_schema sv ps = Inr ()"
    by (rule chat_job)
  from compiled_constraint [OF v(2) assms(6,7)] obtain c e0 where c: "job_constraint env (job_params (pr_job pr)) e = (Inr c, e0)"
    unfolding j by force
  from engine_admits [OF assms(3,4) c job_constraint_fields [OF c] assms(2)] l assms(5) v(1) show ?thesis unfolding j by fastforce
qed

text \<open>A service with the byte tokenizer, whose template yields two letters, in front of the small engine.\<close>

definition demo_service :: "chat_message service" where
  "demo_service =
     \<lparr>sv_gateway = \<lparr>gw_env = \<lparr>te_json = (\<lambda>_. None), te_json_prefix = (\<lambda>_. None), te_print = (\<lambda>_. []), te_float = (\<lambda>_. None),
        te_alphanumeric = (\<lambda>_. False), te_blake3_hex = (\<lambda>_. [])\<rparr>, gw_tokenizer = Bytes (\<lambda>_. Inr (lit ''hi'')),
        gw_cache_open = False, gw_cache_on = False, gw_first_timeout = 60, gw_idle_timeout = 30\<rparr>,
      sv_model = ''m'', sv_max_context = 128, sv_fingerprint = ''f'', sv_bits = (\<lambda>_. []), sv_format = None, sv_decision = None,
      sv_canonical = (\<lambda>_. [110]), sv_python_json = (\<lambda>_. []), sv_body = (\<lambda>_. []), sv_schema = (\<lambda>_. JNull),
      sv_debug = (\<lambda>_. []), sv_schema_error = (\<lambda>_. [])\<rparr>"

definition demo_counts :: gateway_stats where
  "demo_counts = \<lparr>gs_started = 0, gs_completed = 0, gs_failed = 0, gs_refused = 0, gs_cache_hits = 0, gs_prompt_tokens = 0,
     gs_completion_tokens = 0, gs_recent = []\<rparr>"

definition demo_request :: chat_request where
  "demo_request =
     \<lparr>cr_model = ''m'', cr_messages = [message_assistant (lit ''hi'')], cr_temperature = None, cr_top_p = None, cr_top_k = None,
      cr_min_p = None, cr_frequency_penalty = None, cr_presence_penalty = None, cr_repetition_penalty = None, cr_max_tokens = None,
      cr_max_completion_tokens = None, cr_seed = None, cr_stop = None, cr_stream = None, cr_include_usage = None, cr_n = None,
      cr_logprobs = None, cr_top_logprobs = None, cr_tools = None, cr_tool_choice = None, cr_response_format = None\<rparr>"

lemma demo_chat_prepare:
  "\<exists>pr g'. chat_prepare demo_service demo_request (anonymous ''t'') ''r'' 0 g = (Inr pr, g') \<and> prompt_tokens (pr_job pr) = [104, 105]"
  by (simp add: chat_prepare_def demo_service_def demo_request_def chat_params_def chat_constraint_def unwrap_or_def validate_params_def
      f32_in_def MAX_CHOICES_def compiled_schema_def active_tools_def byte_encode_chat_def byte_encode_def
      prepare_def longest_row_def lit_def utf8_def utf8_char_def with_marker_def)

text \<open>An engine that has admitted a request for two choices, the second of them a fork still to be made.\<close>

lemma demo_forking:
  obtains e where "engine_admit demo_env (demo_job 2) demo_engine = Some (Inr 0, e)" "e_pending_forks e 0 = Some 1"
    "engine_coherent demo_env e" "max_context (cfg (e_sched e)) = 128"
proof -
  have c: "job_constraint demo_env (job_params (demo_job 2)) demo_engine = (Inr None, demo_engine)"
    by (simp add: job_constraint_def demo_job_def default_params_def)
  have "next_id (e_sched demo_engine) = 0" "max_context (cfg (e_sched demo_engine)) = 128" "prompt_tokens (demo_job 2) = [1, 2, 3]"
    by (simp_all add: demo_engine_fields demo_settings_def demo_env_def tiny_spec_def demo_job_def)
  with engine_admits [OF demo_env_ok engine_inv_coherent [OF demo_engine_new(2)] c refl refl] demo_job_choices [of 2] that
  show ?thesis by force
qed

theorem accepted_chat_is_admitted_witness:
  "\<exists>pr g' e i e'. chat_prepare demo_service demo_request (anonymous ''t'') ''r'' 0 demo_counts = (Inr pr, g') \<and>
     engine_admit demo_env (demo_job 2) demo_engine = Some (Inr 0, e) \<and> e_pending_forks e 0 = Some 1 \<and>
     engine_admit demo_env (pr_job pr) e = Some (Inr i, e')"
proof -
  from demo_chat_prepare obtain pr g' where
    p: "chat_prepare demo_service demo_request (anonymous ''t'') ''r'' 0 demo_counts = (Inr pr, g')" "prompt_tokens (pr_job pr) \<noteq> []"
    by fastforce
  obtain e where e: "engine_admit demo_env (demo_job 2) demo_engine = Some (Inr 0, e)" "e_pending_forks e 0 = Some 1"
    "engine_coherent demo_env e" "max_context (cfg (e_sched e)) = 128" by (rule demo_forking)
  have "max_context (cfg (e_sched e)) = sv_max_context demo_service" "en_canonical demo_env = sv_canonical demo_service"
    "en_json demo_env = sv_schema demo_service"
    by (simp_all add: e(4) demo_env_def tiny_spec_def demo_service_def)
  from accepted_chat_is_admitted [OF p demo_env_ok e(3) this] p(1) e(1,2) show ?thesis by blast
qed

lemma build_question_ok:
  assumes "build_question sv f enc st (qid, q) = Inr (r, ts, n)" "dc_max_len (df_config f) + 2 < 2 ^ 32"
  shows "row_len r = length ts" "qtype r = q_type q" "length (markers r) = n" "\<exists>os. option_texts q = Inr os \<and> length os = n"
    "row_ok (dc_max_len (df_config f)) \<lparr>er_tokens = ts, er_markers = markers r, er_qtype = qtype r\<rparr>"
proof -
  obtain os b where b: "option_texts q = Inr os" "build f enc (q_type q) (instruction_text (sv_python_json sv) q) os st = Inr b"
    "r = \<lparr>row_len = u32_of (length (bs_tokens b)), markers = bs_markers b, qtype = q_type q\<rparr>" "ts = bs_tokens b" "n = length os"
    using assms(1) by (auto simp: build_question_def split: sum.splits)
  from built_row_ok(1) [OF b(2) assms(2)] have ok: "row_ok (dc_max_len (df_config f)) \<lparr>er_tokens = ts, er_markers = markers r, er_qtype = qtype r\<rparr>"
    by (simp add: b(3,4))
  then have "length ts < 2 ^ 32" using assms(2) by (simp add: row_ok_def)
  then show "row_len r = length ts" by (simp add: b(3,4) u32_of_def)
  show "qtype r = q_type q" "length (markers r) = n" "\<exists>os. option_texts q = Inr os \<and> length os = n"
    using b(1,3,5) built_row_ok(2) [OF b(2) assms(2)] by simp_all
  show "row_ok (dc_max_len (df_config f)) \<lparr>er_tokens = ts, er_markers = markers r, er_qtype = qtype r\<rparr>" by (rule ok)
qed

lemma build_questions_all2: "build_questions sv f enc st qs = Inr rs \<Longrightarrow> list_all2 (\<lambda>q r. build_question sv f enc st q = Inr r) qs rs"
  by (induction qs arbitrary: rs) (auto split: sum.splits)

lemma split_rows_concat:
  "list_all2 (\<lambda>r ts. row_len r = length ts) rows tss \<Longrightarrow>
   split_rows (pre @ concat tss) (length pre) rows = Inr (zip tss rows, length pre + length (concat tss))"
proof (induction rows tss arbitrary: pre rule: list_all2_induct)
  case (Cons r rows ts tss)
  from Cons.IH [of "pre @ ts"] Cons.hyps(1) show ?case by (simp add: add.assoc)
qed simp

lemma longest_row_ge: "r \<in> set rows \<Longrightarrow> row_len r \<le> longest_row prompt rows"
proof -
  have "n \<le> fold (\<lambda>r m. max (row_len r) m) rows n \<and> (\<forall>r \<in> set rows. row_len r \<le> fold (\<lambda>r m. max (row_len r) m) rows n)" for n
  proof (induction rows arbitrary: n)
    case (Cons a rows)
    from Cons.IH [of "max (row_len a) n"] show ?case by auto
  qed simp
  then show "r \<in> set rows \<Longrightarrow> ?thesis" by (auto simp: longest_row_def)
qed

lemma admit_built_rows:
  assumes "job_kind j = Decision" "job_rows j = map fst rs" "prompt_tokens j = concat (map (fst \<circ> snd) rs)" "rs \<noteq> []"
    "\<forall>(r, ts, n) \<in> set rs. row_len r = length ts \<and> row_ok ctx \<lparr>er_tokens = ts, er_markers = markers r, er_qtype = qtype r\<rparr>"
  defines "p \<equiv> \<lparr>pd_request_id = job_request_id j,
      pd_rows = map (\<lambda>(r, ts, n). \<lparr>er_tokens = ts, er_markers = markers r, er_qtype = qtype r\<rparr>) rs,
      pd_scores = replicate (length rs) None, pd_prompt_tokens = length (prompt_tokens j)\<rparr>"
  shows "decision_admit ctx j e = (Inr (), e\<lparr>de_queue := de_queue e @ [p]\<rparr>)"
proof -
  have "list_all2 (\<lambda>r ts. row_len r = length ts) (map fst rs) (map (fst \<circ> snd) rs)"
    using assms(5) by (auto simp: list_all2_conv_all_nth all_set_conv_all_nth split_beta)
  from split_rows_concat [OF this, of "[]"] assms(2,3)
  have d: "decision_rows j = Inr (zip (map (fst \<circ> snd) rs) (map fst rs))" by (simp add: decision_rows_def)
  have m: "map (\<lambda>(ts, r). \<lparr>er_tokens = ts, er_markers = markers r, er_qtype = qtype r\<rparr>) (zip (map (fst \<circ> snd) rs) (map fst rs)) = pd_rows p"
    unfolding p_def by (induction rs) auto
  have "list_all (row_ok ctx) (pd_rows p)" using assms(5) by (auto simp: p_def list_all_iff)
  then have v: "encoder_validate ctx (pd_rows p) = Inr ()" by (simp add: encoder_validate_ok)
  have n: "zip (map (fst \<circ> snd) rs) (map fst rs) \<noteq> []" using assms(4) by (cases rs) auto
  have "p = \<lparr>pd_request_id = job_request_id j, pd_rows = pd_rows p, pd_scores = replicate (length (pd_rows p)) None,
      pd_prompt_tokens = length (prompt_tokens j)\<rparr>" by (simp add: p_def)
  with assms(1) d n show ?thesis unfolding decision_admit_def Let_def by (simp only: sum.case m v) simp
qed

text \<open>What the rows of the questions are to the worker and to the client.\<close>

lemma built_rows_fit:
  assumes "build_questions sv f enc st questions = Inr rs" "dc_max_len (df_config f) + 2 < 2 ^ 32"
    "(r, ts, n) \<in> set rs" "min (dc_max_len (df_config f)) (longest_row prompt (map fst rs)) \<le> ctx"
  shows "row_len r = length ts \<and> row_ok ctx \<lparr>er_tokens = ts, er_markers = markers r, er_qtype = qtype r\<rparr>"
proof -
  note all = build_questions_all2 [OF assms(1)]
  from assms(3) obtain i where i: "i < length rs" "rs ! i = (r, ts, n)" by (auto simp: in_set_conv_nth)
  with list_all2_nthD2 [OF all i(1)] have "build_question sv f enc st (fst (questions ! i), snd (questions ! i)) = Inr (r, ts, n)" by simp
  note q = build_question_ok [OF this assms(2)]
  from assms(3) have "r \<in> set (map fst rs)" by force
  from longest_row_ge [OF this, of prompt] q(1) have "length ts \<le> longest_row prompt (map fst rs)" by simp
  moreover have "length ts \<le> dc_max_len (df_config f)" using q(5) by (simp add: row_ok_def)
  ultimately have "length ts \<le> ctx" using assms(4) by (metis min_def order_trans)
  with q(1,5) show ?thesis by (simp add: row_ok_def)
qed

lemma built_rows_answer:
  assumes "build_questions sv f enc st questions = Inr rs" "dc_max_len (df_config f) + 2 < 2 ^ 32"
  shows "list_all2 (\<lambda>x r. qtype (fst r) = q_type (snd x) \<and> length (markers (fst r)) = snd (snd r) \<and>
      (\<exists>os. option_texts (snd x) = Inr os \<and> length os = snd (snd r))) questions rs"
proof (rule list_all2_mono [OF build_questions_all2 [OF assms(1)]])
  fix x r
  assume "build_question sv f enc st x = Inr r"
  then have "build_question sv f enc st (fst x, snd x) = Inr (fst r, fst (snd r), snd (snd r))" by simp
  from build_question_ok [OF this assms(2)]
  show "qtype (fst r) = q_type (snd x) \<and> length (markers (fst r)) = snd (snd r) \<and>
      (\<exists>os. option_texts (snd x) = Inr os \<and> length os = snd (snd r))" by (intro conjI)
qed

text \<open>
  C37: A decision request the gateway accepts is one the decision worker accepts.  Let the encoder's context
  be at least the length that rows are built to, or at least the gateway's context window.  The job that
  \<open>decisions\<close> makes passes every check of the worker: its rows cover the prompt with nothing left over, and
  the request is queued with one row per question, in order and of its type, each with one marker per
  option of the question.
\<close>

theorem accepted_decision_is_admitted:
  assumes "decision_prepare sv state questions caller rid now g = (Inr (pr, options), g')" "sv_decision sv = Some f"
    "dc_max_len (df_config f) + 2 < 2 ^ 32" "min (dc_max_len (df_config f)) (sv_max_context sv) \<le> ctx"
  shows "\<exists>p. decision_admit ctx (pr_job pr) e = (Inr (), e\<lparr>de_queue := de_queue e @ [p]\<rparr>) \<and> pd_request_id p = rid \<and>
    map er_qtype (pd_rows p) = map (q_type \<circ> snd) questions \<and> map (length \<circ> er_markers) (pd_rows p) = options \<and>
    list_all2 (\<lambda>(qid, q) n. \<exists>os. option_texts q = Inr os \<and> length os = n) questions options"
proof -
  obtain enc rs where 1: "questions \<noteq> []"
    "build_questions sv f enc (json_text (sv_python_json sv) state) questions = Inr rs"
    "prepare sv Decision (concat (map (fst \<circ> snd) rs)) default_params (map fst rs) None caller rid now g = (Inr pr, g')"
    "options = map (snd \<circ> snd) rs"
    using assms(1,2) by (auto simp: decision_prepare_def split: tokenization.splits if_splits sum.splits prod.splits)
  note j = prepare_job [OF 1(3)]
  have ctx: "min (dc_max_len (df_config f)) (longest_row (concat (map (fst \<circ> snd) rs)) (map fst rs)) \<le> ctx"
    using j(1) assms(4) by (auto simp: min_def split: if_splits)
  have fit: "\<forall>(r, ts, n) \<in> set rs. row_len r = length ts \<and> row_ok ctx \<lparr>er_tokens = ts, er_markers = markers r, er_qtype = qtype r\<rparr>"
    using built_rows_fit [OF 1(2) assms(3) _ ctx] by (intro ballI) (simp only: split_paired_all prod.case)
  have "rs \<noteq> []" using 1(1) build_questions_all2 [OF 1(2)] by auto
  define p where "p = \<lparr>pd_request_id = job_request_id (pr_job pr),
      pd_rows = map (\<lambda>(r, ts, n). \<lparr>er_tokens = ts, er_markers = markers r, er_qtype = qtype r\<rparr>) rs,
      pd_scores = replicate (length rs) None, pd_prompt_tokens = length (prompt_tokens (pr_job pr))\<rparr>"
  have adm: "decision_admit ctx (pr_job pr) e = (Inr (), e\<lparr>de_queue := de_queue e @ [p]\<rparr>)"
    unfolding p_def by (rule admit_built_rows [OF _ _ _ \<open>rs \<noteq> []\<close> fit]) (simp_all add: j(3))
  note built_rows_answer [OF 1(2) assms(3)]
  then have "map er_qtype (pd_rows p) = map (q_type \<circ> snd) questions \<and> map (length \<circ> er_markers) (pd_rows p) = map (snd \<circ> snd) rs \<and>
      list_all2 (\<lambda>(qid, q) n. \<exists>os. option_texts q = Inr os \<and> length os = n) questions (map (snd \<circ> snd) rs)"
    unfolding p_def by (induction questions rs rule: list_all2_induct) auto
  with adm show ?thesis by (intro exI [of _ p] conjI) (simp_all add: 1(4), simp add: p_def j(3))
qed

definition demo_decision_service :: "chat_message service" where
  "demo_decision_service = demo_service
     \<lparr>sv_gateway := (sv_gateway demo_service)\<lparr>gw_tokenizer :=
        Hf \<lparr>tb_encode = (\<lambda>t _. demo_enc t), tb_decode = (\<lambda>_ _. Inr []), tb_token_to_id = (\<lambda>_. None), tb_template = None,
            tb_eos_token_ids = [], tb_bos_token = None, tb_eos_token = None\<rparr>\<rparr>,
      sv_decision := Some demo_format\<rparr>"

definition demo_questions :: "(utext \<times> question) list" where
  "demo_questions = [(lit ''q'', \<lparr>q_type = Choice, q_instructions = JString (lit ''which?''), q_criteria = Some (Levels [lit ''a'', lit ''b''])\<rparr>)]"

lemma demo_decision_prepare:
  "\<exists>pr options g'. decision_prepare demo_decision_service (JString (lit ''x'')) demo_questions (anonymous ''t'') ''r'' 0 g = (Inr (pr, options), g')"
  by (simp add: decision_prepare_def demo_decision_service_def demo_service_def demo_questions_def build_question_def option_texts_def
      instruction_text_def json_text_def prepare_def longest_row_def
      build_def demo_format_def demo_enc_def option_row_def fit_options_def close_sequence_def Let_def
      place_option_def keep_state_def MIN_OPTION_BUDGET_def MIN_HEAD_TOKENS_def OPTION_TOKEN_CAP_def u32_of_def)

theorem accepted_decision_is_admitted_witness:
  "\<exists>pr options g' p. decision_prepare demo_decision_service (JString (lit ''x'')) demo_questions (anonymous ''t'') ''r'' 0 demo_counts = (Inr (pr, options), g') \<and>
     decision_admit 64 (pr_job pr) (decision_new () 4 4 64 ''w'') =
       (Inr (), (decision_new () 4 4 64 ''w'')\<lparr>de_queue := [p]\<rparr>) \<and> map (length \<circ> er_markers) (pd_rows p) = [2]"
proof -
  from demo_decision_prepare obtain pr options g' where
    d: "decision_prepare demo_decision_service (JString (lit ''x'')) demo_questions (anonymous ''t'') ''r'' 0 demo_counts = (Inr (pr, options), g')" by blast
  have "sv_decision demo_decision_service = Some demo_format" "dc_max_len (df_config demo_format) + 2 < 2 ^ 32"
    "min (dc_max_len (df_config demo_format)) (sv_max_context demo_decision_service) \<le> 64"
    by (simp_all add: demo_decision_service_def demo_service_def demo_format_def)
  from accepted_decision_is_admitted [OF d this, of "decision_new () 4 4 64 ''w''"] obtain p where
    p: "decision_admit 64 (pr_job pr) (decision_new () 4 4 64 ''w'') =
      (Inr (), (decision_new () 4 4 64 ''w'')\<lparr>de_queue := de_queue (decision_new () 4 4 64 ''w'') @ [p]\<rparr>)" "map (length \<circ> er_markers) (pd_rows p) = options"
      "list_all2 (\<lambda>(qid, q) n. \<exists>os. option_texts q = Inr os \<and> length os = n) demo_questions options" by blast
  from p(3) have "options = [2]" by (auto simp: demo_questions_def option_texts_def list_all2_Cons1)
  with p(2) have "map (length \<circ> er_markers) (pd_rows p) = [2]" by simp
  moreover have "de_queue (decision_new () 4 4 64 ''w'') = []" by (simp add: decision_new_def)
  note q = p(1) [unfolded this append_Nil]
  ultimately show ?thesis using d by (intro exI conjI) (assumption | rule q)+
qed

section \<open>The response cache\<close>

lemma separated: "x @ z # u = y @ z # v \<Longrightarrow> z \<notin> set x \<Longrightarrow> z \<notin> set y \<Longrightarrow> x = y \<and> u = v"
  by (induction x arbitrary: y) (auto simp: Cons_eq_append_conv append_eq_Cons_conv)

lemma str_bytes_no_zero:
  assumes "CHR 0x00 \<notin> set s"
  shows "0 \<notin> set (str_bytes s)"
proof
  assume "0 \<in> set (str_bytes s)"
  then obtain c where c: "c \<in> set s" "(word_of_nat (of_char c) :: u8) = 0" by (auto simp: str_bytes_def)
  then have "word_of_nat (of_char c) = (word_of_nat (of_char (CHR 0x00)) :: u8)" by simp
  then have "c = CHR 0x00" by (simp only: word_of_char_inj)
  with c(1) assms show False by simp
qed

lemma kind_debug_inj: "kind_debug k = kind_debug k' \<Longrightarrow> k = k'"
  by (cases k; cases k') (simp_all add: kind_debug_def)

lemma kind_debug_no_zero: "CHR 0x00 \<notin> set (kind_debug k)"
  by (cases k) (simp_all add: kind_debug_def)

text \<open>
  An answer is cached for one caller, one model and one kind of request: requests whose weight
  fingerprint, namespace or kind differ never share a key, whatever their prompts, unless the hash
  collides or a name has a zero character.
\<close>

theorem cache_never_crosses_callers:
  assumes "cache_key hex bits fp ns k prompt ps = cache_key hex bits fp' ns' k' prompt' ps'" "inj hex"
    "CHR 0x00 \<notin> set fp" "CHR 0x00 \<notin> set ns" "CHR 0x00 \<notin> set fp'" "CHR 0x00 \<notin> set ns'"
  shows "fp = fp' \<and> ns = ns' \<and> k = k'"
proof -
  have "key_bytes bits fp ns k prompt ps = key_bytes bits fp' ns' k' prompt' ps'"
    using assms(1) injD [OF assms(2)] by (simp add: cache_key_def)
  then have 1: "str_bytes fp @ 0 # (str_bytes ns @ 0 # (str_bytes (kind_debug k) @ 0 # (concat (map (le_bytes 4) prompt) @ [0] @ params_bytes bits ps))) =
      str_bytes fp' @ 0 # (str_bytes ns' @ 0 # (str_bytes (kind_debug k') @ 0 # (concat (map (le_bytes 4) prompt') @ [0] @ params_bytes bits ps')))"
    by (simp add: key_bytes_def)
  note 2 = separated [OF 1 str_bytes_no_zero [OF assms(3)] str_bytes_no_zero [OF assms(5)]]
  note 3 = separated [OF conjunct2 [OF 2] str_bytes_no_zero [OF assms(4)] str_bytes_no_zero [OF assms(6)]]
  note 4 = separated [OF conjunct2 [OF 3] str_bytes_no_zero [OF kind_debug_no_zero] str_bytes_no_zero [OF kind_debug_no_zero]]
  from 2 3 4 show ?thesis by (auto dest: kind_debug_inj)
qed

text \<open>
  The stop strings are not told apart: a stop string with a zero character in it has the key of the two
  strings around that character, although the requests end their answers differently.
\<close>

theorem stop_lists_share_a_key:
  "cache_key hex bits fp ns k prompt (ps\<lparr>stop := (stop ps)\<lparr>stop_strings := [a @ [CHR 0x00] @ b]\<rparr>\<rparr>) =
   cache_key hex bits fp ns k prompt (ps\<lparr>stop := (stop ps)\<lparr>stop_strings := [a, b]\<rparr>\<rparr>)"
  by (simp add: cache_key_def key_bytes_def params_bytes_def str_bytes_def)

end
