(* ===== verification/Queue_Slot.thy ===== *)
theory Queue_Slot
  imports Prelude
begin

text \<open>
  The places in the gateway's queue (\<open>queue_slot\<close> and \<open>QueueSlot\<close> of \<open>vapi-gateway/src/state.rs\<close>).  Handlers
  run concurrently on one atomic counter: each loads the limit, then the counter, and adds itself with a weak
  compare-and-exchange that it repeats.  A step of the system is one atomic access of one handler, so a run
  is any interleaving of them; the limit is a setting that may change, and \<open>limits\<close> are the values it takes.
\<close>

datatype handler = Arriving | Limited nat | Trying nat nat | Refused | Holding | Released

text \<open>
  One turn of the loop, for the limit and the value the handler has seen: it refuses, takes its place, or
  sees the value that made the exchange fail.  A weak exchange may fail without a cause, \<open>ok\<close> says whether.
\<close>

definition slot_try :: "nat \<Rightarrow> nat \<Rightarrow> bool \<Rightarrow> nat \<Rightarrow> handler \<times> nat" where
  "slot_try limit cur ok q =
     (if limit > 0 \<and> cur \<ge> limit then (Refused, q)
      else if q = cur \<and> ok then (Holding, q + 1)
      else (Trying limit q, q))"

text \<open>\<open>release\<close>, which \<open>drop\<close> calls again: only the first call gives the place back.\<close>

definition slot_release :: "handler \<Rightarrow> nat \<Rightarrow> (handler \<times> nat) option" where
  "slot_release h q = (if h = Holding then map_option (Pair Released) (checked_sub q 1) else Some (h, q))"

record queue_system =
  qs_queued :: nat
  qs_handlers :: "handler list"

definition queue_start :: queue_system where
  "queue_start = \<lparr>qs_queued = 0, qs_handlers = []\<rparr>"

definition set_handler :: "nat \<Rightarrow> handler \<times> nat \<Rightarrow> queue_system \<Rightarrow> queue_system" where
  "set_handler i r s = \<lparr>qs_queued = snd r, qs_handlers = (qs_handlers s)[i := fst r]\<rparr>"

inductive queue_step :: "nat set \<Rightarrow> queue_system \<Rightarrow> queue_system \<Rightarrow> bool" for limits where
  arrive: "queue_step limits s (s\<lparr>qs_handlers := qs_handlers s @ [Arriving]\<rparr>)"
| load_limit: "i < length (qs_handlers s) \<Longrightarrow> qs_handlers s ! i = Arriving \<Longrightarrow> limit \<in> limits \<Longrightarrow>
    queue_step limits s (set_handler i (Limited limit, qs_queued s) s)"
| load_queued: "i < length (qs_handlers s) \<Longrightarrow> qs_handlers s ! i = Limited limit \<Longrightarrow>
    queue_step limits s (set_handler i (Trying limit (qs_queued s), qs_queued s) s)"
| attempt: "i < length (qs_handlers s) \<Longrightarrow> qs_handlers s ! i = Trying limit cur \<Longrightarrow>
    queue_step limits s (set_handler i (slot_try limit cur ok (qs_queued s)) s)"
| release: "i < length (qs_handlers s) \<Longrightarrow> slot_release (qs_handlers s ! i) (qs_queued s) = Some r \<Longrightarrow>
    queue_step limits s (set_handler i r s)"

definition queue_reachable :: "nat set \<Rightarrow> queue_system \<Rightarrow> bool" where
  "queue_reachable limits s = (queue_step limits)\<^sup>*\<^sup>* queue_start s"

definition holders :: "queue_system \<Rightarrow> nat" where
  "holders s = count_list (qs_handlers s) Holding"

definition queue_inv :: "nat set \<Rightarrow> queue_system \<Rightarrow> bool" where
  "queue_inv limits s =
     (qs_queued s = holders s \<and> (\<forall>i limit cur. i < length (qs_handlers s) \<longrightarrow> qs_handlers s ! i \<in> {Limited limit, Trying limit cur} \<longrightarrow> limit \<in> limits) \<and>
      (\<forall>m. (\<forall>l\<in>limits. 0 < l \<and> l \<le> m) \<longrightarrow> qs_queued s \<le> m))"

lemma holder_counted: "i < length xs \<Longrightarrow> xs ! i = x \<Longrightarrow> 0 < count_list xs x"
  by (metis count_list_0_iff gr0I nth_mem)

lemma queue_step_inv: "queue_step limits s t \<Longrightarrow> queue_inv limits s \<Longrightarrow> queue_inv limits t"
proof (induction rule: queue_step.induct)
  case (arrive s)
  then show ?case by (auto simp: queue_inv_def holders_def nth_append split: if_splits)
next
  case (load_limit i s limit)
  with count_list_update [OF load_limit(1), of "Limited limit" Holding] show ?case
    by (auto simp: queue_inv_def holders_def set_handler_def nth_list_update split: if_splits)
next
  case (load_queued i s limit)
  with count_list_update [OF load_queued(1), of "Trying limit (qs_queued s)" Holding] show ?case
    by (auto simp: queue_inv_def holders_def set_handler_def nth_list_update split: if_splits)
next
  case (attempt i s limit cur ok)
  let ?r = "slot_try limit cur ok (qs_queued s)"
  have count: "snd ?r = holders (set_handler i ?r s)"
    using attempt count_list_update [OF attempt(1), of "fst ?r" Holding]
    by (simp add: queue_inv_def holders_def set_handler_def slot_try_def split: if_splits)
  have "limit \<in> limits" using attempt by (simp add: queue_inv_def)
  then have seen: "l \<in> limits" if "j < length (qs_handlers s)" "(qs_handlers s)[i := fst ?r] ! j \<in> {Limited l, Trying l c}" for j l c
    using attempt that by (cases "i = j") (auto simp: queue_inv_def slot_try_def split: if_splits)
  have "snd ?r \<le> m" if m: "\<forall>l \<in> limits. 0 < l \<and> l \<le> m" for m
  proof -
    have "0 < limit \<and> limit \<le> m" using m \<open>limit \<in> limits\<close> by simp
    moreover from attempt(3) have "\<forall>m. (\<forall>l \<in> limits. 0 < l \<and> l \<le> m) \<longrightarrow> qs_queued s \<le> m"
      unfolding queue_inv_def by (elim conjE)
    from this [rule_format, of m] m have "qs_queued s \<le> m" by simp
    ultimately show ?thesis by (simp add: slot_try_def)
  qed
  with count seen show ?case by (simp add: queue_inv_def set_handler_def)
next
  case (release i s r)
  show ?case
  proof (cases "qs_handlers s ! i = Holding")
    case True
    with holder_counted [OF release(1) True] count_list_update [OF release(1), of Released Holding] release show ?thesis
      by (auto simp: queue_inv_def holders_def set_handler_def slot_release_def nth_list_update checked_sub_def split: if_splits)
  qed (use release in \<open>auto simp: queue_inv_def holders_def set_handler_def slot_release_def\<close>)
qed

lemma queue_reachable_inv: "queue_reachable limits s \<Longrightarrow> queue_inv limits s"
  unfolding queue_reachable_def
  by (induction rule: rtranclp_induct) (auto simp: queue_step_inv, simp add: queue_inv_def queue_start_def holders_def)

lemma release_returns: "queue_inv limits s \<Longrightarrow> i < length (qs_handlers s) \<Longrightarrow> slot_release (qs_handlers s ! i) (qs_queued s) \<noteq> None"
  using holder_counted [of i "qs_handlers s" Holding]
  by (auto simp: slot_release_def queue_inv_def holders_def checked_sub_def)

end
