(* ===== verification/Gateway_Auth.thy ===== *)
theory Gateway_Auth
  imports Output_Parser
begin

text \<open>
  API keys at the gateway (\<open>vapi-gateway/src/auth.rs\<close>): where a request may present a key, and the layer that
  lets a request pass as the principal of its key.  The headers of a request are a map to the values that are
  printable ASCII, as \<open>HeaderValue::to_str\<close> reads them; the query string is what follows the question mark.
\<close>

definition COOKIE :: utext where
  "COOKIE = lit ''vapi_key''"

definition strip_prefix :: "utext \<Rightarrow> utext \<Rightarrow> utext option" where
  "strip_prefix p t = (if prefix p t then Some (drop (length p) t) else None)"

text \<open>\<open>str::split\<close> and \<open>str::split_once\<close> at a character.\<close>

fun split_at_char :: "uchar \<Rightarrow> utext \<Rightarrow> utext list" where
  "split_at_char c [] = [[]]"
| "split_at_char c (d # t) =
     (if d = c then [] # split_at_char c t
      else case split_at_char c t of [] \<Rightarrow> [[d]] | p # ps \<Rightarrow> (d # p) # ps)"

definition split_once :: "uchar \<Rightarrow> utext \<Rightarrow> (utext \<times> utext) option" where
  "split_once c t = (if c \<in> set t then Some (takeWhile (\<lambda>d. d \<noteq> c) t, tl (dropWhile (\<lambda>d. d \<noteq> c) t)) else None)"

fun find_map :: "('a \<Rightarrow> 'b option) \<Rightarrow> 'a list \<Rightarrow> 'b option" where
  "find_map f [] = None"
| "find_map f (x # xs) = (case f x of Some y \<Rightarrow> Some y | None \<Rightarrow> find_map f xs)"

definition cookie_value :: "utext \<Rightarrow> utext \<Rightarrow> utext option" where
  "cookie_value header name =
     find_map (\<lambda>pair. case split_once 61 pair of
                        None \<Rightarrow> None
                      | Some (k, v) \<Rightarrow> if trim k = name then Some (trim v) else None) (split_at_char 59 header)"

text \<open>\<open>u8::from_str_radix\<close> on two bytes, which accepts a sign.\<close>

definition hex_value :: "nat \<Rightarrow> nat option" where
  "hex_value b =
     (if 48 \<le> b \<and> b \<le> 57 then Some (b - 48)
      else if 65 \<le> b \<and> b \<le> 70 then Some (b - 55)
      else if 97 \<le> b \<and> b \<le> 102 then Some (b - 87)
      else None)"

definition hex_pair :: "nat \<Rightarrow> nat \<Rightarrow> nat option" where
  "hex_pair a b =
     (case (hex_value a, hex_value b) of
        (Some x, Some y) \<Rightarrow> Some (16 * x + y)
      | (None, Some y) \<Rightarrow> if a = 43 then Some y else None
      | _ \<Rightarrow> None)"

fun percent_bytes :: "nat list \<Rightarrow> nat list" where
  "percent_bytes [] = []"
| "percent_bytes (b # bs) =
     (if b = 43 then 32 # percent_bytes bs
      else case bs of
        x # y # rest \<Rightarrow>
          (if b = 37 then
             (case hex_pair x y of Some v \<Rightarrow> v # percent_bytes rest | None \<Rightarrow> b # percent_bytes bs)
           else b # percent_bytes bs)
      | _ \<Rightarrow> b # percent_bytes bs)"

definition percent_decode :: "utext \<Rightarrow> utext" where
  "percent_decode t = utf8_lossy (percent_bytes (utf8 t))"

definition query_value :: "utext \<Rightarrow> utext \<Rightarrow> utext option" where
  "query_value query name =
     find_map (\<lambda>pair. case split_once 61 pair of
                        None \<Rightarrow> None
                      | Some (k, v) \<Rightarrow> if k = name then Some (percent_decode v) else None) (split_at_char 38 query)"

definition bearer_key :: "utext \<Rightarrow> utext option" where
  "bearer_key value =
     (let trimmed = trim value in
      case strip_prefix (lit ''Bearer '') trimmed of
        Some rest \<Rightarrow> Some (trim rest)
      | None \<Rightarrow> map_option trim (strip_prefix (lit ''bearer '') trimmed))"

definition presented_key :: "(string \<rightharpoonup> utext) \<Rightarrow> utext option \<Rightarrow> utext option" where
  "presented_key headers query =
     (case Option.bind (headers ''authorization'') bearer_key of
        Some key \<Rightarrow> Some key
      | None \<Rightarrow>
          (case headers ''x-api-key'' of
             Some value \<Rightarrow> Some (trim value)
           | None \<Rightarrow>
               (case Option.bind (headers ''cookie'') (\<lambda>c. cookie_value c COOKIE) of
                  Some key \<Rightarrow> Some key
                | None \<Rightarrow> Option.bind query (\<lambda>q. query_value q (lit ''key'')))))"

definition session_cookie :: "utext \<Rightarrow> utext" where
  "session_cookie key = COOKIE @ [61] @ key @ lit ''; Path=/; HttpOnly; SameSite=Strict''"

definition unauthorized_text :: "bool \<Rightarrow> bool \<Rightarrow> string" where
  "unauthorized_text presented browser =
     (if presented then ''invalid api key''
      else if browser then ''missing api key; open /dashboard?key=<key> once''
      else ''missing api key; send `Authorization: Bearer <key>`'')"

text \<open>The layer: the principal the request passes as, or the text of a 401.\<close>

definition require_key ::
  "(bytes \<Rightarrow> bytes) \<Rightarrow> api_key list \<Rightarrow> string \<Rightarrow> (string \<rightharpoonup> utext) \<Rightarrow> utext option \<Rightarrow> utext \<Rightarrow> string + principal" where
  "require_key blake3 keys default_namespace headers query path =
     (if \<not> auth_enabled keys then Inr (anonymous default_namespace)
      else
        let presented = presented_key headers query in
        case Option.bind presented (\<lambda>k. auth_lookup blake3 keys (utf8_string k)) of
          Some key \<Rightarrow> Inr (principal_of_key key)
        | None \<Rightarrow> Inl (unauthorized_text (presented \<noteq> None) (prefix (lit ''/dashboard'') path)))"

text \<open>The dashboard's \<open>page\<close> with a key in its query string: the cookie it sets.\<close>

definition page_login :: "utext option \<Rightarrow> utext option" where
  "page_login query = map_option session_cookie (Option.bind query (\<lambda>q. query_value q (lit ''key'')))"

end
