(* ===== verification/Access_Properties.thy ===== *)
theory Access_Properties
  imports Queue_Slot Gateway_Auth Script_Reading Token_Properties
begin

text \<open>
  What stands between a client and the gateway's queue: which requests pass the key check and as whom, what
  the dashboard's login does, how many requests can wait, and what the script check reads off a text.
\<close>

section \<open>Keys\<close>

lemma auth_lookup_eq:
  "auth_lookup blake3 keys presented =
     (let ks = filter (\<lambda>k. blake3 (str_bytes presented) = blake3 (str_bytes (key_secret k))) keys
      in if ks = [] then None else Some (last ks))"
  by (simp add: auth_lookup_def constant_time_eq_iff auth_fold Let_def split: list.splits)

text \<open>
  C38: Only a configured key passes, and it passes as itself.  With keys configured, the layer lets a request
  through exactly when it presents a key whose hash is that of a configured secret, as the principal of
  the last such key; without keys every request passes as the anonymous principal of the shared
  namespace, whatever it presents.
\<close>

theorem only_known_keys_pass:
  "require_key blake3 keys ns headers query path = Inr p \<longleftrightarrow>
     (if keys = [] then p = anonymous ns
      else \<exists>key. presented_key headers query = Some key \<and>
        (let ks = filter (\<lambda>k. blake3 (str_bytes (utf8_string key)) = blake3 (str_bytes (key_secret k))) keys
         in ks \<noteq> [] \<and> p = principal_of_key (last ks)))"
  by (auto simp: require_key_def auth_enabled_def auth_lookup_eq Let_def split: option.splits if_splits bind_splits)

lemma find_map_append: "find_map f (xs @ ys) = (case find_map f xs of Some y \<Rightarrow> Some y | None \<Rightarrow> find_map f ys)"
  by (induction xs) (auto split: option.splits)

lemma split_at_char_none: "c \<notin> set t \<Longrightarrow> split_at_char c t = [t]"
  by (induction t) auto

lemma split_at_char_append: "c \<notin> set x \<Longrightarrow> split_at_char c (x @ c # t) = x # split_at_char c t"
  by (induction x) auto

lemma split_once_append: "c \<notin> set k \<Longrightarrow> split_once c (k @ c # v) = Some (k, v)"
  by (induction k) (auto simp: split_once_def)

text \<open>A client's side of the query string: every byte but those to \<open>keep\<close> is escaped.\<close>

definition escape_digit :: "nat \<Rightarrow> uchar" where
  "escape_digit n = (if n < 10 then 48 + n else 55 + n)"

definition percent_encode :: "(nat \<Rightarrow> bool) \<Rightarrow> utext \<Rightarrow> utext" where
  "percent_encode keep t = concat (map (\<lambda>b. if keep b then [b] else [37, escape_digit (b div 16), escape_digit (b mod 16)]) (utf8 t))"

fun query_string :: "(nat \<Rightarrow> bool) \<Rightarrow> (utext \<times> utext) list \<Rightarrow> utext" where
  "query_string keep [] = []"
| "query_string keep [(k, v)] = k @ 61 # percent_encode keep v"
| "query_string keep ((k, v) # kvs) = k @ 61 # percent_encode keep v @ 38 # query_string keep kvs"

definition keep_ok :: "(nat \<Rightarrow> bool) \<Rightarrow> bool" where
  "keep_ok keep = (\<forall>b. keep b \<longrightarrow> b < 128 \<and> b \<noteq> 37 \<and> b \<noteq> 38 \<and> b \<noteq> 43)"

lemma hex_value_digit: "n < 16 \<Longrightarrow> hex_value (escape_digit n) = Some n"
  by (auto simp: hex_value_def escape_digit_def)

lemma percent_bytes_plain: "b \<noteq> 37 \<Longrightarrow> b \<noteq> 43 \<Longrightarrow> percent_bytes (b # bs) = b # percent_bytes bs"
  by (auto split: list.splits)

lemma percent_bytes_encode:
  assumes "keep_ok keep" "\<forall>b \<in> set bs. b < 256"
  shows "percent_bytes (concat (map (\<lambda>b. if keep b then [b] else [37, escape_digit (b div 16), escape_digit (b mod 16)]) bs)) = bs"
  using assms(2)
proof (induction bs)
  case (Cons b bs)
  show ?case
  proof (cases "keep b")
    case True
    with assms(1) have "b \<noteq> 37" "b \<noteq> 43" by (auto simp: keep_ok_def)
    with Cons True show ?thesis by (simp add: percent_bytes_plain del: percent_bytes.simps)
  next
    case False
    have "hex_value (escape_digit (b div 16)) = Some (b div 16)" "hex_value (escape_digit (b mod 16)) = Some (b mod 16)"
      using Cons.prems by (simp_all add: hex_value_digit div_less_iff_less_mult)
    then have "hex_pair (escape_digit (b div 16)) (escape_digit (b mod 16)) = Some b" by (simp add: hex_pair_def)
    with Cons False show ?thesis by simp
  qed
qed simp

lemma escape_digit_bounds: "n < 16 \<Longrightarrow> 48 \<le> escape_digit n \<and> escape_digit n \<le> 70"
  by (auto simp: escape_digit_def)

lemma percent_encode_chars:
  assumes "keep_ok keep" "list_all scalar t" "c \<in> set (percent_encode keep t)"
  shows "c < 128 \<and> c \<noteq> 38"
proof -
  from assms(3) obtain b where b: "b \<in> set (utf8 t)" "c \<in> set (if keep b then [b] else [37, escape_digit (b div 16), escape_digit (b mod 16)])"
    unfolding percent_encode_def set_concat set_map by blast
  have "b < 256" using utf8_byte_less [OF assms(2) b(1)] .
  then have "b div 16 < 16" "b mod 16 < 16" by (simp_all add: div_less_iff_less_mult)
  with escape_digit_bounds [of "b div 16"] escape_digit_bounds [of "b mod 16"] b(2) assms(1) show ?thesis
    by (auto simp: keep_ok_def split: if_splits)
qed

lemma percent_decode_encode:
  assumes "keep_ok keep" "list_all scalar t"
  shows "percent_decode (percent_encode keep t) = t"
proof -
  have "utf8 (percent_encode keep t) = percent_encode keep t"
    using percent_encode_chars [OF assms] by (intro utf8_ascii) (auto simp: is_ascii_def list_all_iff)
  moreover have "percent_bytes (percent_encode keep t) = utf8 t"
    unfolding percent_encode_def using utf8_byte_less [OF assms(2)] by (intro percent_bytes_encode [OF assms(1)]) auto
  ultimately show ?thesis using utf8_lossy_utf8 [OF assms(2), of "[]"] by (simp add: percent_decode_def)
qed

lemma query_value_map_of:
  assumes "keep_ok keep" "\<forall>(k, v) \<in> set kvs. 38 \<notin> set k \<and> 61 \<notin> set k \<and> list_all scalar v"
  shows "query_value (query_string keep kvs) name = map_of kvs name"
proof -
  have pair: "38 \<notin> set (k @ 61 # percent_encode keep v)" "split_once 61 (k @ 61 # percent_encode keep v) = Some (k, percent_encode keep v)"
    "percent_decode (percent_encode keep v) = v" if "38 \<notin> set k" "61 \<notin> set k" "list_all scalar v" for k v
    using percent_encode_chars [OF assms(1) that(3)] percent_decode_encode [OF assms(1) that(3)] that by (auto simp: split_once_append)
  show ?thesis
    using assms(2)
  proof (induction kvs rule: induct_list012)
    case 1
    then show ?case by (simp add: query_value_def split_once_def)
  next
    case (2 x)
    obtain k v where x: "x = (k, v)" by fastforce
    with 2 pair [of k v] show ?case by (simp add: query_value_def split_at_char_none del: split_at_char.simps)
  next
    case (3 x y zs)
    obtain k v where x: "x = (k, v)" by fastforce
    with 3 pair [of k v] have p: "38 \<notin> set (k @ 61 # percent_encode keep v)"
      "split_once 61 (k @ 61 # percent_encode keep v) = Some (k, percent_encode keep v)" "percent_decode (percent_encode keep v) = v" by auto
    have q: "query_string keep (x # y # zs) = (k @ 61 # percent_encode keep v) @ 38 # query_string keep (y # zs)" by (simp add: x)
    have "query_value (query_string keep (y # zs)) name = map_of (y # zs) name" using 3 by simp
    with p(2,3) show ?case unfolding q query_value_def split_at_char_append [OF p(1)] by (simp add: x)
  qed
qed

text \<open>What the browser sends back of a cookie, up to its first attribute, alone or after others.\<close>

definition cookie_pair :: "utext \<Rightarrow> utext" where
  "cookie_pair set_cookie = takeWhile (\<lambda>c. c \<noteq> 59) set_cookie"

lemma session_cookie_value:
  assumes "59 \<notin> set key" "trim key = key"
  shows "cookie_value (cookie_pair (session_cookie key)) COOKIE = Some key"
proof -
  have c: "59 \<notin> set COOKIE" "61 \<notin> set COOKIE" "trim COOKIE = COOKIE"
    by (simp_all add: COOKIE_def lit_def trim_def trim_start_def is_whitespace_def)
  have "cookie_pair (session_cookie key) = COOKIE @ 61 # key"
    using assms(1) c(1) by (simp add: cookie_pair_def session_cookie_def lit_def takeWhile_append)
  moreover have "59 \<notin> set (COOKIE @ 61 # key)" using assms(1) c(1) by simp
  ultimately show ?thesis
    using assms(2) c(3) split_once_append [OF c(2), of key] by (simp add: cookie_value_def split_at_char_none)
qed

lemma printable_scalar: "\<forall>c \<in> set key. 32 < c \<and> c < 127 \<Longrightarrow> list_all scalar key"
  by (auto simp: list_all_iff scalar_def)

lemma printable_trim: "\<forall>c \<in> set key. 32 < c \<and> c < 127 \<Longrightarrow> trim key = key"
proof -
  have w: "dropWhile is_whitespace t = t" if "\<forall>c \<in> set t. 32 < c \<and> c < 127" for t
    using that by (cases t) (auto simp: is_whitespace_def)
  assume "\<forall>c \<in> set key. 32 < c \<and> c < 127"
  then show ?thesis using w [of key] w [of "rev key"] by (simp add: trim_def trim_start_def)
qed

text \<open>
  One visit logs a browser in.  However a client escapes the bytes of its query string, the value the
  gateway reads of a parameter is the one the client put there; and when that parameter is the key, a
  printable one without a semicolon, the dashboard sets a cookie from which the gateway reads the same
  key, so the browser passes afterwards as the very principal it passed as with the key in the address.
\<close>

theorem login_survives_the_redirect:
  assumes "keep_ok keep" "\<forall>(k, v) \<in> set kvs. 38 \<notin> set k \<and> 61 \<notin> set k \<and> list_all scalar v"
    "map_of kvs (lit ''key'') = Some key" "\<forall>c \<in> set key. 32 < c \<and> c < 127 \<and> c \<noteq> 59"
  defines "query \<equiv> query_string keep kvs"
  shows "(\<forall>name. query_value query name = map_of kvs name) \<and> (\<exists>c. page_login (Some query) = Some c \<and>
    require_key blake3 keys ns [''cookie'' \<mapsto> cookie_pair c] None path = require_key blake3 keys ns Map.empty (Some query) path)"
proof -
  have q: "query_value query name = map_of kvs name" for name
    unfolding query_def using assms(1,2) by (rule query_value_map_of)
  have "cookie_value (cookie_pair (session_cookie key)) COOKIE = Some key"
    using assms(4) by (intro session_cookie_value printable_trim) auto
  then have "presented_key [''cookie'' \<mapsto> cookie_pair (session_cookie key)] None = presented_key Map.empty (Some query)"
    by (simp add: presented_key_def q assms(3))
  then show ?thesis by (simp add: q page_login_def require_key_def assms(3))
qed

theorem login_survives_the_redirect_witness:
  "\<exists>c. page_login (Some (query_string (\<lambda>b. False) [(lit ''tab'', lit ''a&b''), (lit ''key'', lit ''sk-1'')])) = Some c \<and>
     require_key id [\<lparr>key_name = ''a'', key_secret = ''sk-1'', key_namespace = None\<rparr>] ''t'' [''cookie'' \<mapsto> cookie_pair c] None (lit ''/dashboard'') =
       Inr \<lparr>principal_name = ''a'', principal_namespace = ''a''\<rparr>"
proof -
  let ?kvs = "[(lit ''tab'', lit ''a&b''), (lit ''key'', lit ''sk-1'')]"
  let ?ks = "[\<lparr>key_name = ''a'', key_secret = ''sk-1'', key_namespace = None\<rparr>]"
  have k: "keep_ok (\<lambda>b. False)" "\<forall>(k, v) \<in> set ?kvs. 38 \<notin> set k \<and> 61 \<notin> set k \<and> list_all scalar v"
    "map_of ?kvs (lit ''key'') = Some (lit ''sk-1'')" "\<forall>c \<in> set (lit ''sk-1''). 32 < c \<and> c < 127 \<and> c \<noteq> 59"
    by (simp_all add: keep_ok_def lit_def scalar_def)
  note w = login_survives_the_redirect [OF k, of id ?ks "''t''" "lit ''/dashboard''"]
  have "presented_key Map.empty (Some (query_string (\<lambda>b. False) ?kvs)) = Some (lit ''sk-1'')"
    using w k(3) by (simp add: presented_key_def)
  moreover have "utf8_string (lit ''sk-1'') = ''sk-1''" by code_simp
  ultimately have "require_key id ?ks ''t'' Map.empty (Some (query_string (\<lambda>b. False) ?kvs)) (lit ''/dashboard'') =
      Inr \<lparr>principal_name = ''a'', principal_namespace = ''a''\<rparr>"
    by (simp add: require_key_def auth_enabled_def auth_lookup_eq principal_of_key_def namespace_of_key_def)
  with w show ?thesis by metis
qed

text \<open>
  C39: The dashboard does not check the key it turns into a cookie.  A browser with a good session
  passes on its cookie whatever key the query string holds, and the page answers with the cookie of that
  second key, against the comment that the layer has checked any \<open>?key=\<close>: when it is not a configured key,
  the good session is gone and the browser's next request is refused.
\<close>

theorem unchecked_key_becomes_the_cookie:
  assumes "keys \<noteq> []" "auth_lookup blake3 keys (utf8_string good) = Some k" "\<forall>c \<in> set good. 32 < c \<and> c < 127 \<and> c \<noteq> 59"
    "query_value query (lit ''key'') = Some bad" "\<forall>c \<in> set bad. 32 < c \<and> c < 127 \<and> c \<noteq> 59"
    "auth_lookup blake3 keys (utf8_string bad) = None"
  shows "require_key blake3 keys ns [''cookie'' \<mapsto> cookie_pair (session_cookie good)] (Some query) path = Inr (principal_of_key k) \<and>
    (\<exists>c. page_login (Some query) = Some c \<and>
       require_key blake3 keys ns [''cookie'' \<mapsto> cookie_pair c] None (lit ''/dashboard'') = Inl ''invalid api key'')"
proof -
  have "presented_key [''cookie'' \<mapsto> cookie_pair (session_cookie key)] q = Some key"
    if "\<forall>c \<in> set key. 32 < c \<and> c < 127 \<and> c \<noteq> 59" for key q
  proof -
    from that have "59 \<notin> set key" by auto
    with session_cookie_value printable_trim [of key] that show ?thesis by (simp add: presented_key_def)
  qed
  from this [OF assms(3)] this [OF assms(5)] show ?thesis
    using assms(1,2,4,6) by (simp add: require_key_def auth_enabled_def page_login_def unauthorized_text_def)
qed

theorem unchecked_key_becomes_the_cookie_witness:
  "\<exists>c. page_login (Some (lit ''key=no'')) = Some c \<and>
     require_key id [\<lparr>key_name = ''a'', key_secret = ''sk-1'', key_namespace = None\<rparr>] ''t'' [''cookie'' \<mapsto> cookie_pair c] None (lit ''/dashboard'') =
       Inl ''invalid api key''"
proof -
  let ?ks = "[\<lparr>key_name = ''a'', key_secret = ''sk-1'', key_namespace = None\<rparr>]"
  have u: "utf8_string (lit ''sk-1'') = ''sk-1''" "utf8_string (lit ''no'') = ''no''" by code_simp+
  have "?ks \<noteq> []" "auth_lookup id ?ks (utf8_string (lit ''sk-1'')) = Some (hd ?ks)" "\<forall>c \<in> set (lit ''sk-1''). 32 < c \<and> c < 127 \<and> c \<noteq> 59"
    "query_value (lit ''key=no'') (lit ''key'') = Some (lit ''no'')" "\<forall>c \<in> set (lit ''no''). 32 < c \<and> c < 127 \<and> c \<noteq> 59"
    "auth_lookup id ?ks (utf8_string (lit ''no'')) = None"
    unfolding u by (simp_all add: auth_lookup_eq lit_def trim_def trim_start_def is_whitespace_def query_value_def split_once_def
      percent_decode_def utf8_def utf8_char_def, code_simp)
  from unchecked_key_becomes_the_cookie [OF this, of "''t''"] show ?thesis by blast
qed

section \<open>The queue\<close>

text \<open>
  C40: The queue is bounded and its count is exact.  However the handlers interleave, spuriously failed
  exchanges included, the counter is the number of handlers that hold a place; while every value of the
  limit is positive and at most \<open>m\<close>, no more than \<open>m\<close> hold one; and giving a place back, once or twice,
  never takes the counter below zero.
\<close>

theorem queue_is_bounded:
  assumes "queue_reachable limits s"
  shows "qs_queued s = holders s \<and> (\<forall>m. (\<forall>l \<in> limits. 0 < l \<and> l \<le> m) \<longrightarrow> holders s \<le> m) \<and>
    (\<forall>h \<in> set (qs_handlers s). slot_release h (qs_queued s) \<noteq> None)"
proof -
  have inv: "queue_inv limits s" by (rule queue_reachable_inv [OF assms])
  from release_returns [OF inv] have "\<forall>h \<in> set (qs_handlers s). slot_release h (qs_queued s) \<noteq> None"
    by (metis in_set_conv_nth)
  moreover from inv have "qs_queued s = holders s" "\<forall>m. (\<forall>l \<in> limits. 0 < l \<and> l \<le> m) \<longrightarrow> qs_queued s \<le> m"
    unfolding queue_inv_def by blast+
  ultimately show ?thesis by (metis (lifting))
qed

theorem queue_is_bounded_witness:
  "queue_reachable {1} \<lparr>qs_queued = 1, qs_handlers = [Holding]\<rparr> \<and> holders \<lparr>qs_queued = 1, qs_handlers = [Holding]\<rparr> \<le> 1"
proof -
  let ?s = "\<lambda>q h. \<lparr>qs_queued = q, qs_handlers = [h]\<rparr>"
  have "queue_step {1} queue_start (?s 0 Arriving)"
    using queue_step.arrive [of "{1}" queue_start] by (simp add: queue_start_def)
  moreover have "queue_step {1} (?s 0 Arriving) (?s 0 (Limited 1))"
    using queue_step.load_limit [of 0 "?s 0 Arriving" 1 "{1}"] by (simp add: set_handler_def)
  moreover have "queue_step {1} (?s 0 (Limited 1)) (?s 0 (Trying 1 0))"
    using queue_step.load_queued [of 0 "?s 0 (Limited 1)" 1 "{1}"] by (simp add: set_handler_def)
  moreover have "queue_step {1} (?s 0 (Trying 1 0)) (?s 1 Holding)"
    using queue_step.attempt [of 0 "?s 0 (Trying 1 0)" 1 0 "{1}" True] by (simp add: set_handler_def slot_try_def)
  ultimately have r: "queue_reachable {1} (?s 1 Holding)"
    unfolding queue_reachable_def by (meson rtranclp.rtrancl_into_rtrancl rtranclp.rtrancl_refl)
  from queue_is_bounded [OF this] have "holders (?s 1 Holding) \<le> 1" by simp
  with r show ?thesis by simp
qed

section \<open>The script of a text\<close>

text \<open>
  The reading of a text is the count of its letters.  \<open>read\<close> gives the number of the first 4096
  characters that carry a script, a script that none exceeds among them and its exact share; so a text is
  flagged precisely when at least eight of these characters carry a script and a script other than Latin
  leads with at least a quarter of them.
\<close>

theorem reading_is_the_count:
  "let ls = take LIMIT (filter (\<lambda>s. s \<noteq> Neutral) (map script_of t)); r = script_read t in
    rd_letters r = length ls \<and> (\<forall>s. count_list ls s \<le> count_list ls (rd_script r)) \<and>
    (readable_by_latin_model r \<longleftrightarrow>
       length ls < 8 \<or> rd_script r = Latin \<or> 4 * count_list ls (rd_script r) < length ls)"
proof -
  define ls where "ls = take LIMIT (filter (\<lambda>s. s \<noteq> Neutral) (map script_of t))"
  define r where "r = script_read t"
  have ls: "ls = take LIMIT (letters_of t)" by (simp add: ls_def letters_of_def)
  note e = script_read_exact [of t, folded ls r_def]
  have n: "Neutral \<notin> set ls" by (auto simp: ls_def dest: in_set_takeD)
  have "readable_by_latin_model r \<longleftrightarrow> length ls < 8 \<or> rd_script r = Latin \<or> 4 * count_list ls (rd_script r) < length ls"
  proof (cases "ls = []")
    case True
    with e(1) show ?thesis by (simp add: readable_by_latin_model_def)
  next
    case False
    with e(2) have m: "rd_script r \<in> set ls" "rd_share r = of_nat (count_list ls (rd_script r)) / of_nat (length ls)" by auto
    have "rd_script r \<noteq> Neutral" using m(1) n by auto
    moreover have "rd_share r < 1 / 4 \<longleftrightarrow> 4 * count_list ls (rd_script r) < length ls"
    proof -
      have "rd_share r < 1 / 4 \<longleftrightarrow> (of_nat (4 * count_list ls (rd_script r)) :: rat) < of_nat (length ls)"
        using False unfolding m(2) by (simp add: divide_less_eq mult.commute)
      then show ?thesis by (simp only: of_nat_less_iff)
    qed
    ultimately show ?thesis using e(1) by (auto simp: readable_by_latin_model_def is_latin_def)
  qed
  with e(1,3) show ?thesis by (simp add: Let_def ls_def [symmetric] r_def [symmetric])
qed

end
