(* ===== verification/Spec2Isabelle.thy ===== *)
theory Spec2Isabelle
  imports Cache_Properties Scheduler_Properties Json_Properties Worker_Properties Engine_Properties Service_Properties
    Token_Properties Gateway_Properties Request_Properties Access_Properties
begin

text \<open>
  Verification development of vapi, a server for language models: gateways accept HTTP requests
  and hand them over NATS to workers, a worker batches them on one engine, and the engine keeps the
  attention state of every sequence in fixed-size blocks that requests with equal prefixes share.

  \<^bold>\<open>The program and its model.\<close>  A request arrives at a gateway, is turned into a job of token
  ids and published on a subject that its prefix selects (\<open>vapi-proto\<close>).  A worker's engine thread
  (\<open>vapi-worker/src/runner.rs\<close>) takes commands and runs steps; a step asks the scheduler for a plan
  (\<open>vapi-engine/src/scheduler.rs\<close>), which takes and shares blocks of the pool
  (\<open>vapi-cache/src/pool.rs\<close>) by the hash of their prefix (\<open>hash.rs\<close>), forwards the batch, masks and
  samples the rows, streams the text and commits.  Evicted blocks go to a spill store
  (\<open>spill.rs\<close>) and come back on admission.  The theories follow this order.

  \<^item> \<open>Prelude\<close>: numbers, checked indexing, loops and list lemmas that all theories share, and the
    collection \<open>run_simps\<close> for evaluation.  \<open>Unicode_Text\<close>: texts as code points with their UTF-8 form.
  \<^item> \<open>Core_Types\<close>: identifiers, errors, sampling parameters, stop strings, API keys, configuration
    (\<open>vapi-core\<close>).  An \<open>f32\<close> is a special value or a rational; only comparisons are used.
  \<^item> \<open>Block_Hash\<close>, \<open>Block_Pool\<close>, \<open>Pool_Refinement\<close>, \<open>Spill_Store\<close>: the crate \<open>vapi-cache\<close>.
    The pool is the doubly linked array of the source; \<open>Pool_Refinement\<close> relates it to an abstract pool
    with a list of free blocks and states the laws the scheduler uses as the locale \<open>block_store\<close>,
    interpreted on the pool.  The spill store's files are a map from hashes to bytes; what the disk makes of
    a write (done, refused, or broken off with a partial file) or a removal is the parameter \<open>disk_io\<close>.
    Properties: \<open>Cache_Properties\<close>.
  \<^item> \<open>Sequence\<close>, \<open>Forward_Batch\<close>, \<open>Scheduler\<close>: the state and the operations of the scheduler.
    \<open>Scheduler_Inv\<close> (the invariant \<open>sinv\<close>: references counted exactly, open blocks exclusive, queues
    consistent), \<open>Scheduler_Plan\<close>, \<open>Scheduler_Prefill\<close>, \<open>Batch_Valid\<close> and \<open>Scheduler_Step\<close> (what
    \<open>schedule\<close> builds), \<open>Scheduler_Publish\<close> and \<open>Scheduler_Commit\<close> (what \<open>commit\<close> does),
    \<open>Scheduler_Fork\<close> (choices that share a prompt) and \<open>Scheduler_Reach\<close> (the protocol with the worker
    as a step relation, and its invariant: every operation on the scheduler, forks of running parents that
    succeed, and whatever the spill tier does to the pool behind it; a refused fork leaves the protocol).
    Properties: \<open>Scheduler_Properties\<close>.
  \<^item> \<open>Json_Schema\<close>, \<open>Json_Machine\<close>, \<open>Token_Masker\<close>: constrained decoding (\<open>structured.rs\<close>):
    compilation of a schema to an arena, the character machine, the token mask.  \<open>Json_Invariant\<close> and
    \<open>Json_Compile\<close> show that no state indexes past its arena; \<open>Json_Grammar\<close> defines the documents of
    a schema by an inductive grammar over a predicate for numbers and shows that what the machine accepts is
    one, with JSON's numbers when no number of the text is padded with zeros and with padded ones otherwise.
    Properties: \<open>Json_Properties\<close>.
  \<^item> \<open>Mock_Backend\<close> (\<open>backend.rs\<close>), \<open>Stream_Output\<close> (incremental detokenizer and stop strings),
    \<open>Spill_Tier\<close> (spilling and promotion, over the locale \<open>kv_device\<close> of a backend's block moves).
    Properties: \<open>Worker_Properties\<close>.
  \<^item> \<open>Wire_Protocol\<close> (jobs, deltas, their numbering, subjects), \<open>Worker_Constraint\<close> (the constraint of
    a stream and its effect on a row), \<open>Worker_Runner\<close> (the trait \<open>WorkerEngine\<close> as a record of methods,
    one turn of the engine thread, and the locale \<open>worker\<close>, the contract under which the thread never
    panics and numbers the deltas of a request without a gap while the commands leave it alone),
    \<open>Worker_Engine\<close> (admission, step, forks, completion,
    cancellation and failure of the decoder), \<open>Engine_Inv\<close> and \<open>Engine_Step\<close> (its invariant, and the
    interpretation \<open>decoder\<close> of \<open>worker\<close>), \<open>Engine_Report\<close> (which events end a stream).
    Properties: \<open>Engine_Properties\<close>.
  \<^item> \<open>Decision_Engine\<close> and \<open>Transcribe_Engine\<close> (the two other engines of the trait, with the
    interpretations \<open>decisions\<close> and \<open>transcriptions\<close>) and \<open>Audio_Wav\<close>.
    Properties: \<open>Service_Properties\<close>.
  \<^item> \<open>Utf8_Lossy\<close> (decoding bytes that may not be UTF-8), \<open>Tokenizers\<close> (the byte tokenizer, Tekken and
    the choice among them, \<open>vapi-tokenize\<close>) and \<open>Decision_Format\<close> (the questions of a decision request
    and the sequence built from one).  The Hugging Face tokenizer, the chat template and the split
    pattern are functions.  Properties: \<open>Token_Properties\<close>.
  \<^item> \<open>Output_Parser\<close> (the reasoning, content and tool calls in a model's text, \<open>vapi-gateway/src/output.rs\<close>),
    \<open>Chat_Types\<close> (\<open>vapi-openai\<close>), \<open>Gateway_Stream\<close> (the token stream of a request and the two ways in which the
    gateway turns it into a response, \<open>collect\<close> and \<open>sse_stream\<close> of \<open>api.rs\<close>, and the replay of a cached answer) 
    \<open>Gateway_Run\<close> (the two in step, and what a lost delta does), \<open>Gateway_Client\<close> (what a client that merges tool
    calls by their index makes of the chunks) and \<open>Cache_Replay\<close> (nothing but the ids of calls depends on the
    request that is served from the cache).  Properties: \<open>Gateway_Properties\<close>.
  \<^item> \<open>Gateway_Jobs\<close> (how a chat, completion or decision request becomes a job, the cache key and the wait for a
    single reply, \<open>api.rs\<close> and \<open>response_cache.rs\<close>) with \<open>Script_Reading\<close> (\<open>vapi-core/src/script.rs\<close>).
    \<open>Request_Properties\<close> joins gateway and workers: what the one accepts the other admits.
  \<^item> \<open>Queue_Slot\<close> (\<open>queue_slot\<close> of \<open>vapi-gateway/src/state.rs\<close>, its handlers interleaved at their atomic accesses as
    a step relation) and \<open>Gateway_Auth\<close> (\<open>vapi-gateway/src/auth.rs\<close> and the dashboard's login).
    Properties: \<open>Access_Properties\<close>.

  \<^bold>\<open>Conventions.\<close>  A panic (an index out of range, a failed \<open>expect\<close>, a subtraction below zero) is
  \<open>None\<close>; a fallible function returns \<open>error + 'a\<close>.  \<open>usize\<close> is \<open>nat\<close>; narrowing casts and
  fixed-width arithmetic are written out (\<open>u32_of\<close>, \<open>8 word\<close>, \<open>64 word\<close>).  Code outside the repository
  is a parameter: blake3, the file system, the tokenizer, the JSON parser and printer, the forward pass,
  the sampler.  What a theorem needs of them is a named hypothesis (\<open>env_ok\<close>, \<open>kv_device\<close>, \<open>decode_ok\<close>,
  \<open>answers\<close>) with an instance in the witnesses.  The loops of the source are structural recursions or have
  a measure; no definition uses fuel.  A thread's channel is the list of commands a turn receives.
  Where a value of the source is narrower than the model's: the \<open>u32\<close> reference counts of the pool are
  unbounded, and the bounds that keep them in range are part of \<open>reachable_no_leak\<close> and
  \<open>pool_refines_abstract_pool\<close>; blocks of no tokens, on which \<open>chunks_exact\<close> would panic, have no
  hashes (\<open>pool_new\<close> refuses that size); negative zero is read as zero from a float sample; and the engine
  samples full rows of logits, the rows a backend with the trait's default methods returns.

  \<^bold>\<open>What is shown.\<close>  On every run of the protocol in which forks succeed no block leaks, none is shared by
  mistake and no call panics; a plan is a valid batch within its limits; queues are served in order and make progress; a
  commit appends exactly the sampled tokens.  The pool refines its specification; hashes identify
  prefixes; spilled blocks come back unchanged whichever writes fail.  Accepted documents conform to their
  schema, but for zeros in front of numbers and options that are not ASCII, and the mask keeps exactly the
  tokens that may follow.  Streams stop exactly at stop strings.  The engine thread
  never panics on requests with one choice, ends every stream once and publishes deltas without gaps, a
  cancel excepted.  A streamed answer carries the text of the collected one and a cached answer repeats it.
  The restriction to one choice is needed: the fork properties of \<open>Scheduler_Properties\<close> and
  \<open>cancelled_choices_never_complete\<close> show how requests with several choices go wrong.

  \<^bold>\<open>Not modelled.\<close>  The sampler, the calibrated probabilities, resampling and mel spectrograms compute
  with rounding floating-point arithmetic.  The candle backend and the models are tensor code.  Of the
  gateway's handlers the checks, jobs, streams and bodies are modelled, while routing, publishing, the upload of
  a transcription and the dashboard's pages are asynchronous I/O, as are the worker's NATS consumer and its
  registration; the answer shaped from a decision's scores is floating-point arithmetic.  Chat
  templates and the Hugging Face tokenizers are external libraries.  Metrics, logs and timings are left
  out everywhere.
\<close>

end
